(* ===== verification/Prelude.thy ===== *)
theory Prelude
  imports Main "HOL-Library.Char_ord" "HOL-Library.List_Lexorder"
    "HOL-Library.Product_Lexorder" "HOL-Library.Sublist" "HOL-Library.Multiset"
begin

text \<open>
  Shared vocabulary of the development: the named collections that carry the component
  proofs, the pieces of Go's standard library the sources use (\<open>strings\<close>, \<open>path\<close>,
  \<open>strconv\<close>) on byte strings, and the generic lemmas on lists and tables.

  A Go \<open>string\<close> is a HOL \<open>string\<close> (a list of bytes); Go's \<open><\<close> on strings is the
  lexicographic order of \<open>List_Lexorder\<close> over bytes. Case folding is ASCII:
  SQLite's \<open>LOWER\<close> is ASCII-only, and \<open>strings.ToLower\<close> / \<open>strings.EqualFold\<close>
  agree with it on ASCII text, which is what repository keys are taken to be.
  Times are nanoseconds (\<open>time.Time.UnixNano\<close>) as \<open>int\<close>.
\<close>

named_theorems frame_simps \<open>what an operation leaves alone\<close>
named_theorems table_intros \<open>introduction rules for table invariants\<close>

type_synonym time = int
type_synonym AgentUUID = string
type_synonym SessionUUID = string

subsection \<open>ASCII case folding\<close>

definition to_lower_char :: "char \<Rightarrow> char" where
  "to_lower_char c =
     (let n = (of_char c :: nat) in if 65 \<le> n \<and> n \<le> 90 then char_of (n + 32) else c)"

definition to_lower :: "string \<Rightarrow> string" where
  "to_lower s = map to_lower_char s"

definition equal_fold :: "string \<Rightarrow> string \<Rightarrow> bool" where
  "equal_fold a b \<longleftrightarrow> to_lower a = to_lower b"

lemma of_char_to_lower_char:
  "(of_char (to_lower_char c) :: nat) =
     (let n = (of_char c :: nat) in if 65 \<le> n \<and> n \<le> 90 then n + 32 else n)"
  by (simp add: to_lower_char_def Let_def)

lemma to_lower_char_idem [simp]: "to_lower_char (to_lower_char c) = to_lower_char c"
  by (simp add: to_lower_char_def Let_def)

lemma to_lower_char_slash_iff [simp]: "to_lower_char c = CHR ''/'' \<longleftrightarrow> c = CHR ''/''"
proof
  assume "to_lower_char c = CHR ''/''"
  then have "(of_char (to_lower_char c) :: nat) = 47" by simp
  then have "(of_char c :: nat) = 47"
    by (simp add: of_char_to_lower_char Let_def split: if_splits)
  then have "char_of (of_char c :: nat) = (char_of (47 :: nat) :: char)" by simp
  moreover have "(char_of (47 :: nat) :: char) = CHR ''/''" by code_simp
  ultimately show "c = CHR ''/''" by simp
next
  assume "c = CHR ''/''"
  then show "to_lower_char c = CHR ''/''" by (simp add: to_lower_char_def)
qed

lemma to_lower_char_dot_iff [simp]: "to_lower_char c = CHR ''.'' \<longleftrightarrow> c = CHR ''.''"
proof
  assume "to_lower_char c = CHR ''.''"
  then have "(of_char (to_lower_char c) :: nat) = 46" by simp
  then have "(of_char c :: nat) = 46"
    by (simp add: of_char_to_lower_char Let_def split: if_splits)
  then have "char_of (of_char c :: nat) = (char_of (46 :: nat) :: char)" by simp
  moreover have "(char_of (46 :: nat) :: char) = CHR ''.''" by code_simp
  ultimately show "c = CHR ''.''" by simp
next
  assume "c = CHR ''.''"
  then show "to_lower_char c = CHR ''.''" by (simp add: to_lower_char_def)
qed

lemma to_lower_idem [simp]: "to_lower (to_lower s) = to_lower s"
  by (simp add: to_lower_def)

lemma to_lower_append [simp]: "to_lower (s @ t) = to_lower s @ to_lower t"
  by (simp add: to_lower_def)

lemma to_lower_Nil [simp]: "to_lower [] = []"
  by (simp add: to_lower_def)

lemma to_lower_slash [simp]: "to_lower ''/'' = ''/''"
  by (simp add: to_lower_def)

lemma to_lower_Cons_slash [simp]: "to_lower (CHR ''/'' # s) = CHR ''/'' # to_lower s"
  by (simp add: to_lower_def)

lemma to_lower_eq_dot [simp]: "to_lower s = ''.'' \<longleftrightarrow> s = ''.''"
  by (auto simp: to_lower_def map_eq_Cons_conv)

subsection \<open>Strings\<close>

abbreviation has_prefix :: "string \<Rightarrow> string \<Rightarrow> bool" where
  "has_prefix s p \<equiv> prefix p s"

abbreviation has_suffix :: "string \<Rightarrow> string \<Rightarrow> bool" where
  "has_suffix s p \<equiv> suffix p s"

definition contains_any :: "string \<Rightarrow> string \<Rightarrow> bool" where
  "contains_any s cs \<longleftrightarrow> list_ex (\<lambda>c. c \<in> set cs) s"

text \<open>\<open>strings.Split(s, sep)\<close> for a one-byte separator: never empty.\<close>

fun split_on :: "char \<Rightarrow> string \<Rightarrow> string list" where
  "split_on d [] = [[]]"
| "split_on d (c # cs) =
     (if c = d then [] # split_on d cs
      else (case split_on d cs of [] \<Rightarrow> [[c]] | w # ws \<Rightarrow> (c # w) # ws))"

fun join_with :: "string \<Rightarrow> string list \<Rightarrow> string" where
  "join_with sep [] = []"
| "join_with sep [w] = w"
| "join_with sep (w # ws) = w @ sep @ join_with sep ws"

lemma split_on_not_Nil [simp]: "split_on d s \<noteq> []"
  by (induction s) (auto split: list.splits)

lemma join_with_Cons: "ws \<noteq> [] \<Longrightarrow> join_with sep (w # ws) = w @ sep @ join_with sep ws"
  by (cases ws) auto

lemma join_split [simp]: "join_with [d] (split_on d s) = s"
proof (induction s)
  case Nil
  then show ?case by simp
next
  case (Cons c s)
  then show ?case
    by (cases "split_on d s") (auto simp: join_with_Cons split: list.splits, (case_tac list; simp)+)
qed

lemma split_on_inj: "split_on d s = split_on d t \<Longrightarrow> s = t"
  by (metis join_split)

lemma split_on_no_sep [simp]: "d \<notin> set s \<Longrightarrow> split_on d s = [s]"
  by (induction s) auto

lemma split_on_append_sep [simp]: "split_on d (s @ d # t) = split_on d s @ split_on d t"
  by (induction s) (auto split: list.splits)

lemma split_on_parts_free: "w \<in> set (split_on d s) \<Longrightarrow> d \<notin> set w"
proof (induction s arbitrary: w)
  case Nil
  then show ?case by simp
next
  case (Cons c s)
  then show ?case
    by (cases "split_on d s") (auto split: if_splits)
qed

lemma split_join:
  "ws \<noteq> [] \<Longrightarrow> \<forall>w \<in> set ws. d \<notin> set w \<Longrightarrow> split_on d (join_with [d] ws) = ws"
proof (induction ws)
  case Nil
  then show ?case by simp
next
  case (Cons w ws)
  then show ?case by (cases "ws = []") (auto simp: join_with_Cons)
qed

text \<open>The last occurrence of a byte, as \<open>strings.LastIndexByte\<close> finds it: what is before it
  and what is after it.\<close>

definition cut_last :: "char \<Rightarrow> string \<Rightarrow> (string \<times> string) option" where
  "cut_last d s =
     (if d \<in> set s then
        Some (rev (tl (dropWhile (\<lambda>c. c \<noteq> d) (rev s))), rev (takeWhile (\<lambda>c. c \<noteq> d) (rev s)))
      else None)"

lemma cut_last_None [simp]: "cut_last d s = None \<longleftrightarrow> d \<notin> set s"
  by (simp add: cut_last_def)

lemma cut_last_append: "d \<notin> set t \<Longrightarrow> cut_last d (s @ d # t) = Some (s, t)"
proof -
  assume "d \<notin> set t"
  then have all: "\<And>c. c \<in> set (rev t) \<Longrightarrow> c \<noteq> d" by auto
  have "takeWhile (\<lambda>c. c \<noteq> d) (rev t @ d # rev s) = rev t"
    using all by (subst takeWhile_append2) auto
  moreover have "dropWhile (\<lambda>c. c \<noteq> d) (rev t @ d # rev s) = d # rev s"
    using all by (subst dropWhile_append2) auto
  ultimately show ?thesis by (simp add: cut_last_def)
qed

lemma cut_last_SomeD: "cut_last d s = Some (a, b) \<Longrightarrow> s = a @ d # b \<and> d \<notin> set b"
proof -
  assume c: "cut_last d s = Some (a, b)"
  then have "d \<in> set s" by (auto simp: cut_last_def split: if_splits)
  then obtain a' b' where s: "s = a' @ d # b'" and n: "d \<notin> set b'"
    by (metis split_list_last)
  with c cut_last_append [OF n, of a'] show ?thesis by simp
qed

subsection \<open>Decimal integers\<close>

text \<open>\<open>strconv.FormatInt(i, 10)\<close>, and \<open>strconv.ParseInt(s, 10, 64)\<close>: an optional sign, at
  least one digit, and a value that fits in 64 bits.\<close>

definition digit :: "nat \<Rightarrow> char" where
  "digit n = char_of (48 + n)"

definition digit_val :: "char \<Rightarrow> nat option" where
  "digit_val c = (let n = (of_char c :: nat) in if 48 \<le> n \<and> n \<le> 57 then Some (n - 48) else None)"

fun format_nat :: "nat \<Rightarrow> string" where
  "format_nat n = (if n < 10 then [digit n] else format_nat (n div 10) @ [digit (n mod 10)])"

declare format_nat.simps [simp del]

definition format_int :: "int \<Rightarrow> string" where
  "format_int i = (if i < 0 then CHR ''-'' # format_nat (nat (- i)) else format_nat (nat i))"

fun parse_digits :: "nat \<Rightarrow> string \<Rightarrow> nat option" where
  "parse_digits acc [] = Some acc"
| "parse_digits acc (c # cs) =
     (case digit_val c of None \<Rightarrow> None | Some d \<Rightarrow> parse_digits (acc * 10 + d) cs)"

definition parse_uint :: "string \<Rightarrow> nat option" where
  "parse_uint s = (if s = [] then None else parse_digits 0 s)"

definition parse_int64 :: "string \<Rightarrow> int option" where
  "parse_int64 s =
     (let neg = has_prefix s ''-'';
          body = (if neg \<or> has_prefix s ''+'' then tl s else s)
      in case parse_uint body of
           None \<Rightarrow> None
         | Some n \<Rightarrow>
             if neg then (if n \<le> 2 ^ 63 then Some (- int n) else None)
             else (if n < 2 ^ 63 then Some (int n) else None))"

text \<open>The bounds compared as integers, which evaluate in binary.\<close>

lemma parse_int64_code [code]:
  "parse_int64 s =
     (let neg = has_prefix s ''-'';
          body = (if neg \<or> has_prefix s ''+'' then tl s else s)
      in case parse_uint body of
           None \<Rightarrow> None
         | Some n \<Rightarrow>
             if neg then (if int n \<le> 9223372036854775808 then Some (- int n) else None)
             else (if int n < 9223372036854775808 then Some (int n) else None))"
proof -
  have "(n \<le> 2 ^ 63) = (int n \<le> 9223372036854775808)" "(n < 2 ^ 63) = (int n < 9223372036854775808)" for n :: nat
    by simp_all
  then show ?thesis by (simp only: parse_int64_def)
qed

lemma of_char_digit: "n < 10 \<Longrightarrow> (of_char (digit n) :: nat) = 48 + n"
  by (simp add: digit_def)

lemma digit_val_digit [simp]: "n < 10 \<Longrightarrow> digit_val (digit n) = Some n"
  by (simp add: digit_val_def of_char_digit)

lemma parse_digits_append:
  "parse_digits acc (s @ t) =
     (case parse_digits acc s of None \<Rightarrow> None | Some n \<Rightarrow> parse_digits n t)"
  by (induction s arbitrary: acc) (auto split: option.splits)

lemma format_nat_not_Nil [simp]: "format_nat n \<noteq> []"
  by (subst format_nat.simps) simp

lemma parse_format_nat: "parse_digits 0 (format_nat n) = Some n"
proof (induction n rule: format_nat.induct)
  case (1 n)
  then show ?case
    by (subst format_nat.simps) (auto simp: parse_digits_append)
qed

lemma format_nat_chars: "c \<in> set (format_nat n) \<Longrightarrow> \<exists>d < 10. c = digit d"
proof (induction n rule: format_nat.induct)
  case (1 n)
  show ?case
  proof (cases "n < 10")
    case True
    with 1 show ?thesis by (auto simp: format_nat.simps [of n])
  next
    case False
    with 1 have "c \<in> set (format_nat (n div 10)) \<or> c = digit (n mod 10)"
      by (auto simp: format_nat.simps [of n])
    with False 1(1) show ?thesis by (metis mod_less_divisor zero_less_numeral)
  qed
qed

lemma digit_neq: "d < 10 \<Longrightarrow> digit d \<noteq> CHR ''-''" "d < 10 \<Longrightarrow> digit d \<noteq> CHR ''+''"
  "d < 10 \<Longrightarrow> digit d \<noteq> CHR ''@''"
proof -
  assume d: "d < 10"
  show "digit d \<noteq> CHR ''-''" "digit d \<noteq> CHR ''+''" "digit d \<noteq> CHR ''@''"
    using of_char_digit [OF d] d by auto
qed

lemma parse_format_int64: "0 \<le> i \<Longrightarrow> i < 2 ^ 63 \<Longrightarrow> parse_int64 (format_int i) = Some i"
proof -
  assume i: "0 \<le> i" "i < 2 ^ 63"
  have "\<not> has_prefix (format_nat (nat i)) ''-''" "\<not> has_prefix (format_nat (nat i)) ''+''"
    using format_nat_chars [of _ "nat i"] digit_neq
    by (auto simp: prefix_def, (metis list.set_intros(1))+)
  moreover have "nat i < 2 ^ 63" using i by simp
  ultimately show ?thesis
    using i by (simp add: parse_int64_def format_int_def parse_uint_def parse_format_nat)
qed

subsection \<open>Tables: lists of rows\<close>

text \<open>A keyed sort is stable insertion sort; Go's \<open>sort.Slice\<close> leaves ties in some order, and
  the model fixes the order of the input.\<close>

lemma sort_key_Nil_iff [simp]: "sort_key f xs = [] \<longleftrightarrow> xs = []"
  using set_sort [of f xs] by (cases xs; cases "sort_key f xs") auto

lemma find_SomeD: "find P xs = Some x \<Longrightarrow> x \<in> set xs \<and> P x"
  by (induction xs) (auto split: if_splits)

lemma filter_all_not: "(\<And>x. x \<in> set xs \<Longrightarrow> \<not> P x) \<Longrightarrow> filter P xs = []"
  by (induction xs) auto

lemma distinct_map_filter_le [table_intros]:
  "distinct (map f xs) \<Longrightarrow> distinct (map f (filter P xs))"
  by (rule distinct_map_filter)

lemma distinct_map_snoc:
  "distinct (map f xs) \<Longrightarrow> f y \<notin> f ` set xs \<Longrightarrow> distinct (map f (xs @ [y]))"
  by auto

lemma map_eq_fun_keep: "(\<And>x. x \<in> set xs \<Longrightarrow> g (f x) = g x) \<Longrightarrow> map g (map f xs) = map g xs"
  by (induction xs) auto

lemma length_filter_map_le:
  "(\<And>x. x \<in> set xs \<Longrightarrow> P (f x) \<Longrightarrow> Q x) \<Longrightarrow> length (filter P (map f xs)) \<le> length (filter Q xs)"
  by (induction xs) (auto intro: le_SucI)

lemma length_filter_mono:
  "(\<And>x. x \<in> set xs \<Longrightarrow> P x \<Longrightarrow> Q x) \<Longrightarrow> length (filter P xs) \<le> length (filter Q xs)"
  by (induction xs) (auto intro: le_SucI)

lemma length_filter_filter_le: "length (filter P (filter Q xs)) \<le> length (filter P xs)"
  by (induction xs) auto

end
