(* ===== verification/Paths.thy ===== *)
theory Paths
  imports Prelude
begin

text \<open>
  \<open>internal/domain/target.go\<close> and the byte-exact half of \<open>internal/domain/overlap.go\<close>:
  how a caller's token becomes a canonical repo-relative path, when two path prefixes
  reserve overlapping territory, and \<open>coveringKeys\<close> of \<open>internal/store/locks_query.go\<close>.
  \<open>path_clean\<close> and \<open>path_dir\<close> are Go's \<open>path.Clean\<close> and \<open>path.Dir\<close>, over the path's segments.
\<close>

subsection \<open>\<open>path.Clean\<close>\<close>

text \<open>\<open>clean_segs\<close> keeps the output segments reversed, as the lexical scan does: empty and
  \<open>.\<close> segments vanish, \<open>..\<close> removes the last real segment, is dropped at a root and kept
  at the front of a relative path.\<close>

fun clean_segs :: "bool \<Rightarrow> string list \<Rightarrow> string list \<Rightarrow> string list" where
  "clean_segs rooted out [] = rev out"
| "clean_segs rooted out (s # ss) =
     (if s = [] \<or> s = ''.'' then clean_segs rooted out ss
      else if s = ''..'' then
        (case out of
           [] \<Rightarrow> clean_segs rooted (if rooted then [] else [''..'']) ss
         | w # ws \<Rightarrow>
             if w \<noteq> ''..'' then clean_segs rooted ws ss
             else clean_segs rooted (if rooted then out else ''..'' # out) ss)
      else clean_segs rooted (s # out) ss)"

definition path_clean :: "string \<Rightarrow> string" where
  "path_clean p =
     (if p = [] then ''.''
      else
        let rooted = has_prefix p ''/'';
            out = clean_segs rooted [] (split_on CHR ''/'' p);
            body = join_with ''/'' out
        in if rooted then CHR ''/'' # body else if out = [] then ''.'' else body)"

definition path_dir :: "string \<Rightarrow> string" where
  "path_dir p = path_clean (case cut_last CHR ''/'' p of None \<Rightarrow> [] | Some (d, _) \<Rightarrow> d @ ''/'')"

subsection \<open>Targets\<close>

datatype target = Target (Canonical: string)

datatype target_error =
    ErrRepoEscape | ErrEmptyTarget | ErrTargetHasNUL | ErrTargetBackslash
  | ErrTargetIsRepoRoot | ErrTargetIsGlob | ErrTargetIsDir | ErrTargetUnspellable

datatype provenance = ProvenanceTyped | ProvenanceGit

definition NUL :: char where "NUL = char_of (0 :: nat)"
definition BACKSLASH :: char where "BACKSLASH = char_of (92 :: nat)"
definition QUOTE :: char where "QUOTE = char_of (39 :: nat)"

definition shellMeta :: string where
  "shellMeta = [CHR ''$'', CHR 0x60, CHR 0x22, QUOTE]"

definition HasControl :: "string \<Rightarrow> bool" where
  "HasControl s \<longleftrightarrow> list_ex (\<lambda>c. (of_char c :: nat) < 32 \<or> (of_char c :: nat) = 127) s"

definition is_space :: "char \<Rightarrow> bool" where
  "is_space c \<longleftrightarrow> (of_char c :: nat) \<in> {9, 10, 11, 12, 13, 32}"

text \<open>\<open>strings.TrimSpace(s) != s\<close> on ASCII text.\<close>

definition trims :: "string \<Rightarrow> bool" where
  "trims s \<longleftrightarrow> s \<noteq> [] \<and> (is_space (hd s) \<or> is_space (last s))"

definition CanonicalizeFrom :: "string \<Rightarrow> provenance \<Rightarrow> target_error + target" where
  "CanonicalizeFrom inp prov =
     (if inp = [] then Inl ErrEmptyTarget
      else if NUL \<in> set inp then Inl ErrTargetHasNUL
      else if BACKSLASH \<in> set inp then Inl ErrTargetBackslash
      else if has_prefix inp ''/'' then Inl ErrRepoEscape
      else if contains_any inp ''*?[{'' then Inl ErrTargetIsGlob
      else if prov = ProvenanceTyped \<and>
          (contains_any inp shellMeta \<or> HasControl inp \<or> trims inp)
        then Inl ErrTargetUnspellable
      else if has_suffix inp ''/'' then Inl ErrTargetIsDir
      else
        let cleaned = path_clean inp in
        if cleaned = ''..'' \<or> has_prefix cleaned ''../'' then Inl ErrRepoEscape
        else if cleaned = ''.'' then Inl ErrTargetIsRepoRoot
        else Inr (Target cleaned))"

definition Canonicalize :: "string \<Rightarrow> target_error + target" where
  "Canonicalize inp = CanonicalizeFrom inp ProvenanceTyped"

definition trim_right_slash :: "string \<Rightarrow> string" where
  "trim_right_slash s = rev (dropWhile (\<lambda>c. c = CHR ''/'') (rev s))"

definition CanonicalizePrefix :: "string \<Rightarrow> target_error + target" where
  "CanonicalizePrefix inp =
     (let inp' = (if inp \<noteq> [] \<and> inp \<noteq> ''/'' then trim_right_slash inp else inp)
      in case Canonicalize inp' of
           Inl ErrTargetIsRepoRoot \<Rightarrow> Inr (Target ''.'')
         | r \<Rightarrow> r)"

subsection \<open>What a canonical path looks like\<close>

definition plain_seg :: "string \<Rightarrow> bool" where
  "plain_seg w \<longleftrightarrow> w \<noteq> [] \<and> w \<noteq> ''.'' \<and> w \<noteq> ''..'' \<and> CHR ''/'' \<notin> set w"

definition canonical_path :: "string \<Rightarrow> bool" where
  "canonical_path s \<longleftrightarrow> (\<forall>w \<in> set (split_on CHR ''/'' s). plain_seg w)"

text \<open>The shape of \<open>clean_segs\<close>'s result on a relative path: some \<open>..\<close>, then plain segments.\<close>

definition clean_shape :: "string list \<Rightarrow> bool" where
  "clean_shape ws \<longleftrightarrow> (\<exists>k us. ws = replicate k ''..'' @ us \<and> (\<forall>w \<in> set us. plain_seg w))"

lemma clean_shape_Nil [simp]: "clean_shape []"
  by (simp add: clean_shape_def)

lemma clean_shape_snoc: "clean_shape ws \<Longrightarrow> plain_seg w \<Longrightarrow> clean_shape (ws @ [w])"
proof -
  assume "clean_shape ws" and w: "plain_seg w"
  then obtain k us where "ws = replicate k ''..'' @ us" "\<forall>v \<in> set us. plain_seg v"
    by (auto simp: clean_shape_def)
  with w show "clean_shape (ws @ [w])"
    unfolding clean_shape_def by (intro exI [of _ k] exI [of _ "us @ [w]"]) auto
qed

lemma clean_shape_butlast: "clean_shape (ws @ [w]) \<Longrightarrow> clean_shape ws"
proof -
  assume "clean_shape (ws @ [w])"
  then obtain k us where e: "ws @ [w] = replicate k ''..'' @ us" and p: "\<forall>w \<in> set us. plain_seg w"
    by (auto simp: clean_shape_def)
  show ?thesis
  proof (cases us rule: rev_cases)
    case Nil
    with e obtain j where "k = Suc j" by (cases k) auto
    with e Nil have "ws = replicate j ''..'' @ []"
      by (simp add: replicate_append_same [symmetric])
    then show ?thesis
      unfolding clean_shape_def by (intro exI [of _ j] exI [of _ "[]"]) simp
  next
    case (snoc vs v)
    with e p show ?thesis unfolding clean_shape_def by auto
  qed
qed

lemma clean_shape_dotdot: "clean_shape (ws @ [''..'']) \<Longrightarrow> \<exists>k. ws @ [''..''] = replicate k ''..''"
proof -
  assume "clean_shape (ws @ [''..''])"
  then obtain k us where e: "ws @ [''..''] = replicate k ''..'' @ us"
    and p: "\<forall>w \<in> set us. plain_seg w"
    by (auto simp: clean_shape_def)
  show ?thesis
  proof (cases us rule: rev_cases)
    case Nil
    with e show ?thesis by auto
  next
    case (snoc vs v)
    with e p show ?thesis by (auto simp: plain_seg_def)
  qed
qed

lemma clean_segs_shape:
  "\<forall>s \<in> set ss. CHR ''/'' \<notin> set s \<Longrightarrow> clean_shape (rev out) \<Longrightarrow> clean_shape (clean_segs False out ss)"
proof (induction ss arbitrary: out)
  case Nil
  then show ?case by simp
next
  case (Cons s ss)
  have IH: "clean_shape (rev out') \<Longrightarrow> clean_shape (clean_segs False out' ss)" for out'
    using Cons by simp
  show ?case
  proof (cases "s = [] \<or> s = ''.''")
    case True
    with IH Cons.prems show ?thesis by auto
  next
    case plain: False
    show ?thesis
    proof (cases "s = ''..''")
      case True
      show ?thesis
      proof (cases out)
        case Nil
        have "clean_shape [''..'']"
          unfolding clean_shape_def by (rule exI [of _ 1], rule exI [of _ "[]"]) simp
        with True Nil IH [of "[''..'']"] show ?thesis by simp
      next
        case (Cons w ws)
        show ?thesis
        proof (cases "w = ''..''")
          case False
          with Cons Cons.prems(2) have "clean_shape (rev ws)"
            by (auto intro: clean_shape_butlast)
          with True Cons False IH show ?thesis by simp
        next
          case dd: True
          with Cons Cons.prems(2) obtain k where k: "rev ws @ [''..''] = replicate k ''..''"
            using clean_shape_dotdot by auto
          then have "rev (''..'' # out) = replicate (Suc k) ''..'' @ []"
            using Cons dd by (simp add: replicate_append_same [symmetric])
          then have "clean_shape (rev (''..'' # out))"
            unfolding clean_shape_def by (intro exI [of _ "Suc k"] exI [of _ "[]"]) simp
          with True Cons dd IH [of "''..'' # out"] show ?thesis by simp
        qed
      qed
    next
      case False
      with plain Cons.prems have "plain_seg s" by (simp add: plain_seg_def)
      then have "clean_shape (rev (s # out))"
        using clean_shape_snoc Cons.prems(2) by simp
      with plain False IH [of "s # out"] show ?thesis by simp
    qed
  qed
qed

lemma clean_segs_plain:
  "\<forall>s \<in> set ss. plain_seg s \<Longrightarrow> clean_segs rooted out ss = rev out @ ss"
proof (induction ss arbitrary: out)
  case Nil
  then show ?case by simp
next
  case (Cons s ss)
  then have "s \<noteq> []" "s \<noteq> ''.''" "s \<noteq> ''..''" by (simp_all add: plain_seg_def)
  with Cons show ?case by simp
qed

lemma canonical_path_not_special:
  assumes "canonical_path s"
  shows "s \<noteq> []" "\<not> has_prefix s ''/''" "\<not> has_suffix s ''/''" "s \<noteq> ''.''" "s \<noteq> ''..''"
    "\<not> has_prefix s ''../''"
proof -
  show "s \<noteq> []"
    by (rule notI) (use assms in \<open>simp add: canonical_path_def plain_seg_def\<close>)
  show "s \<noteq> ''.''"
    by (rule notI) (use assms in \<open>simp add: canonical_path_def plain_seg_def\<close>)
  show "s \<noteq> ''..''"
    by (rule notI) (use assms in \<open>simp add: canonical_path_def plain_seg_def\<close>)
  show "\<not> has_prefix s ''/''"
  proof
    assume "has_prefix s ''/''"
    then obtain t where "s = CHR ''/'' # t" by (auto simp: prefix_def)
    with assms show False by (simp add: canonical_path_def plain_seg_def)
  qed
  show "\<not> has_suffix s ''/''"
  proof
    assume "has_suffix s ''/''"
    then obtain t where "s = t @ CHR ''/'' # []" by (auto simp: suffix_def)
    with assms show False by (simp add: canonical_path_def plain_seg_def)
  qed
  show "\<not> has_prefix s ''../''"
  proof
    assume "has_prefix s ''../''"
    then obtain t where "s = ''..'' @ CHR ''/'' # t" by (auto simp: prefix_def)
    then have "split_on CHR ''/'' s = ''..'' # split_on CHR ''/'' t"
      by (simp only: split_on_append_sep) simp
    with assms show False by (simp add: canonical_path_def plain_seg_def)
  qed
qed

lemma path_clean_canonical: "canonical_path s \<Longrightarrow> path_clean s = s"
proof -
  assume c: "canonical_path s"
  then have "clean_segs False [] (split_on CHR ''/'' s) = split_on CHR ''/'' s"
    by (simp add: canonical_path_def clean_segs_plain)
  with c canonical_path_not_special [OF c] show ?thesis
    by (simp add: path_clean_def Let_def)
qed

lemma clean_segs_subset: "set (clean_segs r out ss) \<subseteq> set out \<union> set ss"
proof (induction ss arbitrary: out)
  case Nil
  then show ?case by simp
next
  case (Cons s ss)
  have IH: "set out' \<subseteq> insert s (set out) \<Longrightarrow>
    set (clean_segs r out' ss) \<subseteq> set out \<union> set (s # ss)" for out'
    using Cons.IH [of out'] by (auto dest!: subsetD)
  define out' where "out' =
    (if s = [] \<or> s = ''.'' then out
     else if s = ''..'' then
       (case out of [] \<Rightarrow> if r then [] else [''..'']
        | w # ws \<Rightarrow> if w \<noteq> ''..'' then ws else if r then out else ''..'' # out)
     else s # out)"
  have "clean_segs r out (s # ss) = clean_segs r out' ss"
    by (cases out) (simp_all add: out'_def)
  moreover have "set out' \<subseteq> insert s (set out)"
    by (cases out) (auto simp: out'_def)
  ultimately show ?case using IH by simp
qed

lemma split_on_chars: "w \<in> set (split_on d s) \<Longrightarrow> set w \<subseteq> set s"
proof (induction s arbitrary: w)
  case Nil
  then show ?case by simp
next
  case (Cons c s)
  show ?case
  proof (cases "c = d")
    case True
    with Cons show ?thesis by (cases "w = []") auto
  next
    case False
    with Cons show ?thesis
      by (cases "split_on d s") (fastforce split: if_splits)+
  qed
qed

lemma join_with_chars: "set (join_with sep ws) \<subseteq> set sep \<union> (\<Union>w \<in> set ws. set w)"
proof (induction ws)
  case Nil
  then show ?case by simp
next
  case (Cons w ws)
  then show ?case by (cases "ws = []") (auto simp: join_with_Cons)
qed

lemma path_clean_chars: "set (path_clean p) \<subseteq> set p \<union> {CHR ''/'', CHR ''.''}"
proof -
  let ?out = "clean_segs (has_prefix p ''/'') [] (split_on CHR ''/'' p)"
  have "set (join_with ''/'' ?out) \<subseteq> {CHR ''/''} \<union> (\<Union>w \<in> set ?out. set w)"
    using join_with_chars [of "''/''" ?out] by simp
  also have "\<dots> \<subseteq> {CHR ''/''} \<union> set p"
    using clean_segs_subset [of "has_prefix p ''/''" "[]" "split_on CHR ''/'' p"]
      split_on_chars [of _ "CHR ''/''" p] by fastforce
  finally show ?thesis by (auto simp: path_clean_def Let_def)
qed

lemma path_clean_relative:
  assumes "p \<noteq> []" "\<not> has_prefix p ''/''" "path_clean p \<noteq> ''.''" "path_clean p \<noteq> ''..''"
    "\<not> has_prefix (path_clean p) ''../''"
  shows "canonical_path (path_clean p)"
proof -
  define out where "out = clean_segs False [] (split_on CHR ''/'' p)"
  have "clean_shape out"
    unfolding out_def by (rule clean_segs_shape) (auto dest: split_on_parts_free)
  then obtain k us where out: "out = replicate k ''..'' @ us" and us: "\<forall>w \<in> set us. plain_seg w"
    by (auto simp: clean_shape_def)
  have pc: "path_clean p = (if out = [] then ''.'' else join_with ''/'' out)"
    using assms(1,2) by (simp add: path_clean_def Let_def out_def)
  have ne: "out \<noteq> []" using pc assms(3) by auto
  have "k = 0"
  proof (rule ccontr)
    assume "k \<noteq> 0"
    then obtain j where "k = Suc j" by (cases k) auto
    then obtain rest where r: "out = ''..'' # rest" using out by simp
    show False
    proof (cases "rest = []")
      case True
      with r pc assms(4) show False by simp
    next
      case False
      with r pc have "path_clean p = ''../'' @ join_with ''/'' rest"
        by (simp add: join_with_Cons)
      with assms(5) show False by (simp add: prefix_def)
    qed
  qed
  with out have "out = us" by simp
  moreover have "split_on CHR ''/'' (join_with [CHR ''/''] out) = out"
    using us ne by (intro split_join) (auto simp: \<open>out = us\<close> plain_seg_def)
  ultimately show ?thesis using pc ne us by (simp add: canonical_path_def)
qed

text \<open>What every canonicalization that succeeds has established.\<close>

lemma CanonicalizeFrom_Inr:
  assumes "CanonicalizeFrom inp prov = Inr t"
  shows "Canonical t = path_clean inp" "canonical_path (Canonical t)"
    "NUL \<notin> set inp" "BACKSLASH \<notin> set inp" "\<not> contains_any inp ''*?[{''"
proof -
  have "inp \<noteq> []" "\<not> has_prefix inp ''/''" "path_clean inp \<noteq> ''..''"
    "\<not> has_prefix (path_clean inp) ''../''" "path_clean inp \<noteq> ''.''" "t = Target (path_clean inp)"
    "NUL \<notin> set inp" "BACKSLASH \<notin> set inp" "\<not> contains_any inp ''*?[{''"
    using assms by (auto simp: CanonicalizeFrom_def Let_def split: if_splits)
  then show "Canonical t = path_clean inp" "canonical_path (Canonical t)"
    "NUL \<notin> set inp" "BACKSLASH \<notin> set inp" "\<not> contains_any inp ''*?[{''"
    using path_clean_relative by auto
qed

lemma special_chars: "NUL \<noteq> CHR ''/''" "NUL \<noteq> CHR ''.''" "BACKSLASH \<noteq> CHR ''/''"
  "BACKSLASH \<noteq> CHR ''.''"
  unfolding NUL_def BACKSLASH_def by code_simp+

lemma CanonicalizeFrom_canonical:
  assumes "canonical_path s" "NUL \<notin> set s" "BACKSLASH \<notin> set s" "\<not> contains_any s ''*?[{''"
  shows "CanonicalizeFrom s ProvenanceGit = Inr (Target s)"
  using assms canonical_path_not_special [OF assms(1)] path_clean_canonical [OF assms(1)]
  by (simp add: CanonicalizeFrom_def Let_def)

lemma contains_any_path_clean: "\<not> contains_any p ''*?[{'' \<Longrightarrow> \<not> contains_any (path_clean p) ''*?[{''"
  using path_clean_chars [of p] by (auto simp: contains_any_def list_ex_iff)

subsection \<open>Overlap of path prefixes\<close>

definition SameCanonical :: "target \<Rightarrow> target \<Rightarrow> bool" where
  "SameCanonical a b \<longleftrightarrow> Canonical a = Canonical b"

definition PrefixOverlaps :: "string \<Rightarrow> string \<Rightarrow> bool" where
  "PrefixOverlaps a b \<longleftrightarrow>
     (if a = ''.'' \<or> b = ''.'' then True
      else a = b \<or> has_prefix b (a @ ''/'') \<or> has_prefix a (b @ ''/''))"

definition SameWorktree :: "string \<Rightarrow> string \<Rightarrow> bool" where
  "SameWorktree a b \<longleftrightarrow> (if a = [] \<or> b = [] then True else a = b)"

definition HoldAbove :: "string \<Rightarrow> string \<Rightarrow> bool" where
  "HoldAbove t path \<longleftrightarrow> t \<noteq> path \<and> (t = ''.'' \<or> has_prefix path (t @ ''/''))"

text \<open>The loop of \<open>coveringKeys\<close>: cut at the last slash until there is none.\<close>

function (sequential) ancestors :: "string \<Rightarrow> string list" where
  "ancestors p =
     (case cut_last CHR ''/'' p of None \<Rightarrow> [] | Some (d, _) \<Rightarrow> d # ancestors d)"
  by pat_completeness auto
termination
  by (relation "measure length") (auto dest!: cut_last_SomeD)

declare ancestors.simps [simp del]

definition coveringKeys :: "string \<Rightarrow> string list" where
  "coveringKeys path = path # ancestors path @ (if path \<noteq> ''.'' then [''.''] else [])"

lemma PrefixOverlaps_refl [simp]: "PrefixOverlaps a a"
  by (simp add: PrefixOverlaps_def)

lemma PrefixOverlaps_sym: "PrefixOverlaps a b = PrefixOverlaps b a"
  by (auto simp: PrefixOverlaps_def)

lemma PrefixOverlaps_root [simp]: "PrefixOverlaps ''.'' b" "PrefixOverlaps a ''.''"
  by (simp_all add: PrefixOverlaps_def)

lemma SameWorktree_refl [simp]: "SameWorktree a a"
  by (simp add: SameWorktree_def)

lemma SameWorktree_sym: "SameWorktree a b = SameWorktree b a"
  by (auto simp: SameWorktree_def)

lemma SameWorktree_unset [simp]: "SameWorktree [] b" "SameWorktree a []"
  by (simp_all add: SameWorktree_def)

lemma HoldAbove_overlaps: "HoldAbove t p \<Longrightarrow> PrefixOverlaps t p"
  by (auto simp: HoldAbove_def PrefixOverlaps_def)

lemma mem_ancestors: "k \<in> set (ancestors p) \<longleftrightarrow> has_prefix p (k @ ''/'')"
proof (induction p rule: ancestors.induct)
  case (1 p)
  show ?case
  proof (cases "cut_last CHR ''/'' p")
    case None
    then have "ancestors p = []" by (subst ancestors.simps, subst None) simp
    moreover from None have "CHR ''/'' \<notin> set p" by simp
    ultimately show ?thesis by (auto simp: prefix_def)
  next
    case (Some ab)
    then obtain a b where ab: "cut_last CHR ''/'' p = Some (a, b)" by (cases ab) auto
    then have p: "p = a @ CHR ''/'' # b" "CHR ''/'' \<notin> set b" using cut_last_SomeD by blast+
    have "has_prefix p (k @ ''/'') \<longleftrightarrow> k = a \<or> has_prefix a (k @ ''/'')"
    proof
      assume "has_prefix p (k @ ''/'')"
      then obtain zs where z: "a @ CHR ''/'' # b = k @ CHR ''/'' # zs"
        by (auto simp: prefix_def p)
      then obtain us where "a = k @ us \<and> us @ CHR ''/'' # b = CHR ''/'' # zs \<or>
          a @ us = k \<and> CHR ''/'' # b = us @ CHR ''/'' # zs"
        by (auto simp: append_eq_append_conv2)
      then show "k = a \<or> has_prefix a (k @ ''/'')"
        using p(2) by (cases us) (auto simp: prefix_def)
    next
      assume "k = a \<or> has_prefix a (k @ ''/'')"
      then show "has_prefix p (k @ ''/'')" by (auto simp: p prefix_def)
    qed
    with ab 1 [OF ab refl] show ?thesis by (subst ancestors.simps) simp
  qed
qed

lemma join_with_append:
  "xs \<noteq> [] \<Longrightarrow> ys \<noteq> [] \<Longrightarrow> join_with sep (xs @ ys) = join_with sep xs @ sep @ join_with sep ys"
proof (induction xs)
  case Nil
  then show ?case by simp
next
  case (Cons x xs)
  then show ?case by (cases "xs = []") (simp_all add: join_with_Cons)
qed

lemma prefix_split_on: "prefix (split_on d a) (split_on d b) \<longleftrightarrow> a = b \<or> prefix (a @ [d]) b"
proof
  assume "prefix (split_on d a) (split_on d b)"
  then obtain zs where z: "split_on d b = split_on d a @ zs" by (auto simp: prefix_def)
  show "a = b \<or> prefix (a @ [d]) b"
  proof (cases "zs = []")
    case True
    with z show ?thesis using split_on_inj by fastforce
  next
    case False
    have "b = join_with [d] (split_on d a @ zs)" using z by (metis join_split)
    with False have "b = a @ [d] @ join_with [d] zs" by (simp add: join_with_append)
    then show ?thesis by (simp add: prefix_def)
  qed
next
  assume "a = b \<or> prefix (a @ [d]) b"
  then show "prefix (split_on d a) (split_on d b)" by (auto simp: prefix_def)
qed

subsection \<open>Properties\<close>



text \<open>The typed and the git provenance differ in the shell-token rule alone: an input that a
  typed \<open>Canonicalize\<close> refuses with any error but \<open>ErrTargetUnspellable\<close> is refused the same
  way when git printed it, and one it accepts is accepted with the same key.\<close>

theorem Canonicalize_provenance:
  "Canonicalize inp = (if Canonicalize inp = Inl ErrTargetUnspellable then Inl ErrTargetUnspellable
                       else CanonicalizeFrom inp ProvenanceGit)"
  by (auto simp: Canonicalize_def CanonicalizeFrom_def Let_def)

text \<open>\<open>Canonicalize\<close> checks surrounding whitespace before it cleans the path, so the key it
  mints can itself carry the leading whitespace its spelling rule refuses.\<close>

theorem Canonicalize_space_escape:
  "Canonicalize ''./ a'' = Inr (Target '' a'') \<and> Canonicalize '' a'' = Inl ErrTargetUnspellable"
  by (intro conjI; code_simp)

text \<open>\<open>PrefixOverlaps\<close> compares whole segments: two paths overlap exactly when one of them
  is the root or one's segment list is a prefix of the other's.\<close>

theorem PrefixOverlaps_segments:
  "PrefixOverlaps a b \<longleftrightarrow>
     a = ''.'' \<or> b = ''.'' \<or>
     prefix (split_on CHR ''/'' a) (split_on CHR ''/'' b) \<or>
     prefix (split_on CHR ''/'' b) (split_on CHR ''/'' a)"
  by (auto simp: PrefixOverlaps_def prefix_split_on)

text \<open>The point lookup of \<open>HoldsCovering\<close> asks for exactly the keys whose hold covers the
  path: the path itself and every key \<open>HoldAbove\<close> it, none missing and none extra.\<close>

theorem coveringKeys_exact:
  "k \<in> set (coveringKeys p) \<longleftrightarrow> k = p \<or> HoldAbove k p"
  by (auto simp: coveringKeys_def mem_ancestors HoldAbove_def)

end
