(* ===== verification/Holds.thy ===== *)
theory Holds
  imports Paths
begin

text \<open>
  \<open>internal/domain\<close>: the records every other package reads (\<open>records.go\<close>), the conflict rule
  (\<open>decide.go\<close>, the case-folding half of \<open>overlap.go\<close>), the staleness predicates
  (\<open>staleness.go\<close>), break authorization (\<open>authz.go\<close>) and the hold references of
  \<open>--expect-holder\<close> (\<open>holdref.go\<close>).  \<open>HolderLiveProbe\<close> is a function value in the source;
  the context carries it as \<open>(LockRecord \<Rightarrow> Liveness) option\<close>, \<open>None\<close> being Go's nil.
\<close>

subsection \<open>Records\<close>

record LockRecord =
  l_Target :: target
  l_OwnerUUID :: AgentUUID
  l_SessionUUID :: SessionUUID
  l_Intent :: string
  l_CreatedAt :: time
  l_ExpiresAt :: time
  l_Host :: string
  l_PID :: int
  l_ProcStart :: int
  l_Branch :: string
  l_Worktree :: string
  l_Epoch :: int
  l_MayCreate :: bool
  l_Directory :: bool
  l_InFlight :: bool

record CandidateClaim =
  cc_PathCanonical :: string
  cc_CandidateID :: string
  cc_OwnerUUID :: AgentUUID
  cc_SessionUUID :: SessionUUID
  cc_CreatedAt :: time
  cc_Host :: string
  cc_PID :: int
  cc_ProcStart :: int

datatype Liveness = LivenessAlive | LivenessDead | LivenessUnknown

fun Liveness_String :: "Liveness \<Rightarrow> string" where
  "Liveness_String LivenessAlive = ''alive''"
| "Liveness_String LivenessDead = ''dead''"
| "Liveness_String LivenessUnknown = ''unknown''"

type_synonym HolderLiveProbe = "LockRecord \<Rightarrow> Liveness"

record EvalContext =
  Now :: time
  Live :: "HolderLiveProbe option"
  CaseFold :: bool
  MyWorktree :: string

text \<open>A Go composite literal leaves the fields it does not name at their zero value.  Go's zero
  \<open>time.Time\<close> is the year 1; no probe reads those fields, and the model writes 0.\<close>

definition zero_lock :: LockRecord where
  "zero_lock = \<lparr>l_Target = Target [], l_OwnerUUID = [], l_SessionUUID = [], l_Intent = [],
     l_CreatedAt = 0, l_ExpiresAt = 0, l_Host = [], l_PID = 0, l_ProcStart = 0, l_Branch = [],
     l_Worktree = [], l_Epoch = 0, l_MayCreate = False, l_Directory = False, l_InFlight = False\<rparr>"

subsection \<open>Staleness\<close>

definition IsStale :: "EvalContext \<Rightarrow> LockRecord \<Rightarrow> bool" where
  "IsStale c l \<longleftrightarrow>
     (if \<not> Now c < l_ExpiresAt l \<and> \<not> l_InFlight l then True
      else case Live c of None \<Rightarrow> False | Some probe \<Rightarrow> probe l = LivenessDead)"

definition HolderLiveness :: "EvalContext \<Rightarrow> LockRecord \<Rightarrow> Liveness \<times> bool" where
  "HolderLiveness c l =
     (case Live c of None \<Rightarrow> (LivenessUnknown, False) | Some probe \<Rightarrow> (probe l, True))"

definition Classify :: "EvalContext \<Rightarrow> LockRecord \<Rightarrow> Liveness" where
  "Classify c l =
     (if IsStale c l then LivenessDead
      else case Live c of None \<Rightarrow> LivenessUnknown | Some probe \<Rightarrow> probe l)"

definition RemainingTTL :: "EvalContext \<Rightarrow> LockRecord \<Rightarrow> int" where
  "RemainingTTL c l = (let d = l_ExpiresAt l - Now c in if d < 0 then 0 else d)"

text \<open>The lift of a candidate claim into \<open>LockRecord\<close> shape, shared by the two predicates below.\<close>

definition claim_as_lock :: "CandidateClaim \<Rightarrow> LockRecord" where
  "claim_as_lock cc = zero_lock
     \<lparr>l_OwnerUUID := cc_OwnerUUID cc, l_SessionUUID := cc_SessionUUID cc,
      l_Host := cc_Host cc, l_PID := cc_PID cc, l_ProcStart := cc_ProcStart cc\<rparr>"

definition CandidateClaimIsDead :: "EvalContext \<Rightarrow> CandidateClaim \<Rightarrow> bool" where
  "CandidateClaimIsDead c cc \<longleftrightarrow>
     (case Live c of None \<Rightarrow> False | Some probe \<Rightarrow> probe (claim_as_lock cc) = LivenessDead)"

definition DegradedModeTTL :: int where
  "DegradedModeTTL = 30 * 60 * 1000000000"

definition CandidateClaimReclaimGrace :: int where
  "CandidateClaimReclaimGrace = DegradedModeTTL"

definition CandidateClaimIsAbandoned :: "EvalContext \<Rightarrow> CandidateClaim \<Rightarrow> bool" where
  "CandidateClaimIsAbandoned c cc \<longleftrightarrow>
     (case Live c of
        None \<Rightarrow> False
      | Some probe \<Rightarrow>
          (case probe (claim_as_lock cc) of
             LivenessDead \<Rightarrow> True
           | LivenessUnknown \<Rightarrow>
               cc_PID cc \<le> 0 \<and> \<not> Now c < cc_CreatedAt cc + CandidateClaimReclaimGrace
           | LivenessAlive \<Rightarrow> False))"

subsection \<open>The conflict rule\<close>

record Hold =
  h_Actor :: AgentUUID
  h_Worktree :: string
  h_Target :: string
  h_Live :: bool

definition SameTarget :: "EvalContext \<Rightarrow> target \<Rightarrow> target \<Rightarrow> bool" where
  "SameTarget c a b \<longleftrightarrow>
     (if SameCanonical a b then True else CaseFold c \<and> equal_fold (Canonical a) (Canonical b))"

definition PrefixCovers :: "EvalContext \<Rightarrow> string \<Rightarrow> string \<Rightarrow> bool" where
  "PrefixCovers c a b \<longleftrightarrow>
     (if PrefixOverlaps a b then True
      else CaseFold c \<and> PrefixOverlaps (to_lower a) (to_lower b))"

definition LockHold :: "EvalContext \<Rightarrow> LockRecord \<Rightarrow> Hold" where
  "LockHold c l = \<lparr>h_Actor = l_OwnerUUID l, h_Worktree = l_Worktree l,
     h_Target = Canonical (l_Target l), h_Live = (\<not> IsStale c l)\<rparr>"

definition Covers :: "EvalContext \<Rightarrow> string \<Rightarrow> string \<Rightarrow> Hold \<Rightarrow> bool" where
  "Covers c worktree t h \<longleftrightarrow>
     SameWorktree worktree (h_Worktree h) \<and> PrefixCovers c (h_Target h) t"

definition Refuses :: "EvalContext \<Rightarrow> AgentUUID \<Rightarrow> string \<Rightarrow> string \<Rightarrow> Hold \<Rightarrow> bool" where
  "Refuses c actor worktree t h \<longleftrightarrow>
     (if actor \<noteq> [] \<and> h_Actor h = actor then False else h_Live h \<and> Covers c worktree t h)"

text \<open>\<open>Decide\<close>: the index of the first hold that refuses, or \<open>-1\<close>.\<close>

fun Decide_from :: "int \<Rightarrow> EvalContext \<Rightarrow> AgentUUID \<Rightarrow> string \<Rightarrow> string \<Rightarrow> Hold list \<Rightarrow> int" where
  "Decide_from i c actor worktree t [] = -1"
| "Decide_from i c actor worktree t (h # hs) =
     (if Refuses c actor worktree t h then i else Decide_from (i + 1) c actor worktree t hs)"

definition Decide :: "EvalContext \<Rightarrow> AgentUUID \<Rightarrow> string \<Rightarrow> string \<Rightarrow> Hold list \<Rightarrow> int" where
  "Decide c actor worktree t holds = Decide_from 0 c actor worktree t holds"

definition Conflicts :: "EvalContext \<Rightarrow> LockRecord \<Rightarrow> LockRecord \<Rightarrow> bool" where
  "Conflicts c incoming existing \<longleftrightarrow>
     (let cheap = \<lparr>h_Actor = l_OwnerUUID existing, h_Worktree = l_Worktree existing,
                   h_Target = Canonical (l_Target existing), h_Live = True\<rparr>
      in if \<not> Refuses c (l_OwnerUUID incoming) (l_Worktree incoming)
               (Canonical (l_Target incoming)) cheap
         then False
         else Refuses c (l_OwnerUUID incoming) (l_Worktree incoming)
                (Canonical (l_Target incoming)) (LockHold c existing))"

datatype authz_error = errLiveLockNoForce

definition AuthorizeBreak :: "EvalContext \<Rightarrow> LockRecord \<Rightarrow> bool \<Rightarrow> authz_error option" where
  "AuthorizeBreak c l force =
     (if force then None else if IsStale c l then None else Some errLiveLockNoForce)"

subsection \<open>Facts the store relies on\<close>

lemma PrefixCovers_refl [simp]: "PrefixCovers c a a"
  by (simp add: PrefixCovers_def)

lemma PrefixCovers_sym: "PrefixCovers c a b = PrefixCovers c b a"
  by (simp add: PrefixCovers_def PrefixOverlaps_sym [of a b] PrefixOverlaps_sym [of "to_lower a"])

lemma PrefixCovers_fold [simp]:
  "CaseFold c \<Longrightarrow> PrefixCovers c (to_lower a) b = PrefixCovers c a b"
  "CaseFold c \<Longrightarrow> PrefixCovers c a (to_lower b) = PrefixCovers c a b"
proof -
  have up: "PrefixOverlaps a b \<Longrightarrow> PrefixOverlaps (to_lower a) (to_lower b)" for a b
    by (auto simp: PrefixOverlaps_def prefix_def)
  show "CaseFold c \<Longrightarrow> PrefixCovers c (to_lower a) b = PrefixCovers c a b"
    using up [of a b] up [of "to_lower a" b] by (auto simp: PrefixCovers_def)
  show "CaseFold c \<Longrightarrow> PrefixCovers c a (to_lower b) = PrefixCovers c a b"
    using up [of a b] up [of a "to_lower b"] by (auto simp: PrefixCovers_def)
qed

lemma SameTarget_covers: "SameTarget c a b \<Longrightarrow> PrefixCovers c (Canonical a) (Canonical b)"
  by (auto simp: SameTarget_def SameCanonical_def PrefixCovers_def equal_fold_def split: if_splits)

lemma SameTarget_refl [simp]: "SameTarget c a a"
  by (simp add: SameTarget_def SameCanonical_def)

lemma SameTarget_sym: "SameTarget c a b = SameTarget c b a"
  by (auto simp: SameTarget_def SameCanonical_def equal_fold_def)

lemma SameTarget_trans: "SameTarget c a b \<Longrightarrow> SameTarget c b d \<Longrightarrow> SameTarget c a d"
  by (auto simp: SameTarget_def SameCanonical_def equal_fold_def split: if_splits)

lemma Refuses_LockHold_stale: "IsStale c l \<Longrightarrow> \<not> Refuses c a w t (LockHold c l)"
  by (simp add: Refuses_def LockHold_def)

lemma IsStale_antimono:
  "\<not> IsStale c l \<Longrightarrow> l_ExpiresAt l \<le> l_ExpiresAt l' \<Longrightarrow>
   Live c = None \<or> the (Live c) l' = the (Live c) l \<Longrightarrow> l_InFlight l' = l_InFlight l \<Longrightarrow>
   \<not> IsStale c l'"
  by (auto simp: IsStale_def split: if_splits option.splits)

lemma Decide_from_ge: "Decide_from i c a w t hs = -1 \<or> i \<le> Decide_from i c a w t hs"
proof (induction hs arbitrary: i)
  case Nil
  then show ?case by simp
next
  case (Cons h hs)
  from Cons.IH [of "i + 1"] show ?case by auto
qed

lemma Decide_from_admit:
  "0 \<le> i \<Longrightarrow> Decide_from i c a w t hs = -1 \<longleftrightarrow> (\<forall>h \<in> set hs. \<not> Refuses c a w t h)"
  by (induction hs arbitrary: i) auto

lemma Decide_from_refuse:
  "0 \<le> i \<Longrightarrow> Decide_from i c a w t hs = i + int k \<longleftrightarrow>
   k < length hs \<and> Refuses c a w t (hs ! k) \<and> (\<forall>j < k. \<not> Refuses c a w t (hs ! j))"
proof (induction hs arbitrary: i k)
  case Nil
  then show ?case by simp
next
  case (Cons h hs)
  show ?case
  proof (cases k)
    case 0
    then show ?thesis using Decide_from_ge [of "i + 1" c a w t hs] Cons.prems by auto
  next
    case (Suc m)
    have "Decide_from (i + 1) c a w t hs = i + int k \<longleftrightarrow>
        Decide_from (i + 1) c a w t hs = (i + 1) + int m"
      by (simp add: Suc algebra_simps)
    with Suc Cons.IH [of "i + 1" m] Cons.prems show ?thesis
      by (auto simp: less_Suc_eq_0_disj)
  qed
qed

subsection \<open>Hold references\<close>

datatype HoldRef = HoldRef (Owner: AgentUUID) (Epoch: int)

instantiation HoldRef :: linorder
begin

definition less_eq_HoldRef :: "HoldRef \<Rightarrow> HoldRef \<Rightarrow> bool" where
  "less_eq_HoldRef a b \<longleftrightarrow> (if Owner a \<noteq> Owner b then Owner a < Owner b else Epoch a \<le> Epoch b)"

definition less_HoldRef :: "HoldRef \<Rightarrow> HoldRef \<Rightarrow> bool" where
  "less_HoldRef a b \<longleftrightarrow> (if Owner a \<noteq> Owner b then Owner a < Owner b else Epoch a < Epoch b)"

instance
  by intro_classes
    (auto simp: less_eq_HoldRef_def less_HoldRef_def HoldRef.expand split: if_splits)

end

definition HoldRef_String :: "HoldRef \<Rightarrow> string" where
  "HoldRef_String h = Owner h @ ''@'' @ format_int (Epoch h)"

datatype holdref_error = ErrMalformedHoldRef

definition ParseHoldRef :: "string \<Rightarrow> holdref_error + HoldRef" where
  "ParseHoldRef s =
     (case cut_last CHR ''@'' s of
        None \<Rightarrow> Inl ErrMalformedHoldRef
      | Some (owner, ep) \<Rightarrow>
          if owner = [] \<or> ep = [] then Inl ErrMalformedHoldRef
          else (case parse_int64 ep of
                  None \<Rightarrow> Inl ErrMalformedHoldRef
                | Some e \<Rightarrow> if e < 0 then Inl ErrMalformedHoldRef else Inr (HoldRef owner e)))"

definition SortHoldRefs :: "HoldRef list \<Rightarrow> HoldRef list" where
  "SortHoldRefs refs = sort refs"

fun holdrefs_pointwise :: "HoldRef list \<Rightarrow> HoldRef list \<Rightarrow> bool" where
  "holdrefs_pointwise (a # as) (b # bs) = (if a \<noteq> b then False else holdrefs_pointwise as bs)"
| "holdrefs_pointwise _ _ = True"

definition HoldRefsEqual :: "HoldRef list \<Rightarrow> HoldRef list \<Rightarrow> bool" where
  "HoldRefsEqual a b \<longleftrightarrow> (if length a \<noteq> length b then False else holdrefs_pointwise a b)"

definition FormatHoldRefs :: "HoldRef list \<Rightarrow> string" where
  "FormatHoldRefs refs = (if refs = [] then ''none'' else join_with '','' (map HoldRef_String refs))"

lemma holdrefs_pointwise_eq: "length a = length b \<Longrightarrow> holdrefs_pointwise a b \<longleftrightarrow> a = b"
  by (induction a b rule: list_induct2) auto

lemma HoldRefsEqual_iff [simp]: "HoldRefsEqual a b \<longleftrightarrow> a = b"
  by (auto simp: HoldRefsEqual_def holdrefs_pointwise_eq)

lemma sort_eq_iff_mset: "sort a = sort (b :: 'a :: linorder list) \<longleftrightarrow> mset a = mset b"
  by (metis mset_sort properties_for_sort sorted_sort)

lemma parse_int64_bound: "parse_int64 s = Some e \<Longrightarrow> e < 2 ^ 63"
  by (auto simp: parse_int64_def Let_def of_nat_less_numeral_power_cancel_iff
      split: option.splits if_splits)

subsection \<open>Properties\<close>

text \<open>C8: The write decision: \<open>Decide\<close> returns the index of the first hold that refuses the
  write, and \<open>-1\<close> exactly when no hold refuses it.\<close>

theorem Decide_first_refusal:
  "(Decide c a w t hs = -1 \<longleftrightarrow> (\<forall>h \<in> set hs. \<not> Refuses c a w t h)) \<and>
   (Decide c a w t hs = int k \<longleftrightarrow>
      k < length hs \<and> Refuses c a w t (hs ! k) \<and> (\<forall>j < k. \<not> Refuses c a w t (hs ! j)))"
  using Decide_from_admit [of 0 c a w t hs] Decide_from_refuse [of 0 c a w t hs k]
  by (simp add: Decide_def)

theorem Decide_first_refusal_witness:
  "Decide \<lparr>Now = 5, Live = None, CaseFold = False, MyWorktree = []\<rparr> ''bob'' [] ''d/x''
     [\<lparr>h_Actor = ''bob'', h_Worktree = [], h_Target = ''d'', h_Live = True\<rparr>,
      \<lparr>h_Actor = ''al'', h_Worktree = [], h_Target = ''d'', h_Live = True\<rparr>] = int 1"
  by (rule iffD2 [OF conjunct2 [OF Decide_first_refusal]])
    (simp add: Refuses_def Covers_def PrefixCovers_def PrefixOverlaps_def SameWorktree_def)

text \<open>C39: \<open>Conflicts\<close>, with its cheap pre-filter that spares the liveness probe, decides exactly
  the one conflict rule \<open>Refuses\<close> on the existing row lifted by \<open>LockHold\<close>: owner differs (or
  the incoming owner is empty), the row is not stale, both lie in one worktree and one path
  covers the other.\<close>

theorem Conflicts_is_Refuses:
  "Conflicts c incoming existing =
     Refuses c (l_OwnerUUID incoming) (l_Worktree incoming) (Canonical (l_Target incoming))
       (LockHold c existing) \<and>
   (Conflicts c incoming existing \<longleftrightarrow>
     \<not> (l_OwnerUUID incoming \<noteq> [] \<and> l_OwnerUUID existing = l_OwnerUUID incoming) \<and>
     \<not> IsStale c existing \<and> SameWorktree (l_Worktree incoming) (l_Worktree existing) \<and>
     PrefixCovers c (Canonical (l_Target existing)) (Canonical (l_Target incoming)))"
  by (auto simp: Conflicts_def Refuses_def Covers_def LockHold_def Let_def)

text \<open>Case folding only widens: every conflict the byte-exact context finds is found by the
  context that folds case, so an upgrade never grants over a row that blocked before it.\<close>

theorem Conflicts_fold_widens:
  "Conflicts (c\<lparr>CaseFold := False\<rparr>) incoming existing \<Longrightarrow>
   Conflicts (c\<lparr>CaseFold := True\<rparr>) incoming existing"
  by (auto simp: Conflicts_def Refuses_def Covers_def LockHold_def Let_def PrefixCovers_def
      IsStale_def split: if_splits)

theorem Conflicts_fold_widens_witness:
  "Conflicts \<lparr>Now = 5, Live = None, CaseFold = True, MyWorktree = []\<rparr>
     (zero_lock\<lparr>l_Target := Target ''d/x'', l_OwnerUUID := ''bob''\<rparr>)
     (zero_lock\<lparr>l_Target := Target ''d'', l_OwnerUUID := ''al'', l_ExpiresAt := 9\<rparr>)"
  using Conflicts_fold_widens
    [of "\<lparr>Now = 5, Live = None, CaseFold = True, MyWorktree = []\<rparr>"
      "zero_lock\<lparr>l_Target := Target ''d/x'', l_OwnerUUID := ''bob''\<rparr>"
      "zero_lock\<lparr>l_Target := Target ''d'', l_OwnerUUID := ''al'', l_ExpiresAt := 9\<rparr>"]
  by (simp add: Conflicts_is_Refuses Refuses_def Covers_def LockHold_def PrefixCovers_def
      PrefixOverlaps_def SameWorktree_def IsStale_def zero_lock_def)

text \<open>The display verdict is DEAD exactly when the lock is stale; a claim that is provably
  dead is abandoned at any age, and doctor's broader predicate adds only pid-less claims older
  than the grace period.\<close>

theorem Classify_dead_iff_stale:
  "(Classify c l = LivenessDead \<longleftrightarrow> IsStale c l) \<and>
   (CandidateClaimIsAbandoned c cc \<longleftrightarrow>
      CandidateClaimIsDead c cc \<or>
      (\<exists>probe. Live c = Some probe \<and> probe (claim_as_lock cc) = LivenessUnknown) \<and>
        cc_PID cc \<le> 0 \<and> cc_CreatedAt cc + 1800000000000 \<le> Now c)"
proof
  show "Classify c l = LivenessDead \<longleftrightarrow> IsStale c l"
    by (auto simp: Classify_def IsStale_def split: option.splits)
  show "CandidateClaimIsAbandoned c cc \<longleftrightarrow>
      CandidateClaimIsDead c cc \<or>
      (\<exists>probe. Live c = Some probe \<and> probe (claim_as_lock cc) = LivenessUnknown) \<and>
        cc_PID cc \<le> 0 \<and> cc_CreatedAt cc + 1800000000000 \<le> Now c"
    by (auto simp: CandidateClaimIsAbandoned_def CandidateClaimIsDead_def
        CandidateClaimReclaimGrace_def DegradedModeTTL_def split: option.splits Liveness.splits)
qed

text \<open>\<open>owner@epoch\<close> round-trips: a reference with a non-empty owner (one that contains \<open>@\<close>
  included) and an epoch in \<open>[0, 2^63)\<close> parses back from its printed form, and whatever parses
  has such an owner and epoch.\<close>

theorem HoldRef_roundtrip:
  "(Owner h \<noteq> [] \<and> 0 \<le> Epoch h \<and> Epoch h < 2 ^ 63 \<longrightarrow> ParseHoldRef (HoldRef_String h) = Inr h) \<and>
   (ParseHoldRef s = Inr h \<longrightarrow> Owner h \<noteq> [] \<and> 0 \<le> Epoch h \<and> Epoch h < 2 ^ 63)"
proof
  show "Owner h \<noteq> [] \<and> 0 \<le> Epoch h \<and> Epoch h < 2 ^ 63 \<longrightarrow> ParseHoldRef (HoldRef_String h) = Inr h"
  proof
    assume h: "Owner h \<noteq> [] \<and> 0 \<le> Epoch h \<and> Epoch h < 2 ^ 63"
    then have f: "format_int (Epoch h) = format_nat (nat (Epoch h))" by (simp add: format_int_def)
    have "CHR ''@'' \<notin> set (format_int (Epoch h))"
      using format_nat_chars [of "CHR ''@''" "nat (Epoch h)"] digit_neq(3) unfolding f by metis
    then have "cut_last CHR ''@'' (HoldRef_String h) = Some (Owner h, format_int (Epoch h))"
      using cut_last_append [of "CHR ''@''" "format_int (Epoch h)" "Owner h"]
      by (simp add: HoldRef_String_def)
    with h f parse_format_int64 [of "Epoch h"] show "ParseHoldRef (HoldRef_String h) = Inr h"
      by (simp add: ParseHoldRef_def)
  qed
  show "ParseHoldRef s = Inr h \<longrightarrow> Owner h \<noteq> [] \<and> 0 \<le> Epoch h \<and> Epoch h < 2 ^ 63"
    by (auto simp: ParseHoldRef_def dest: parse_int64_bound split: option.splits if_splits)
qed

theorem HoldRef_roundtrip_witness:
  "ParseHoldRef (HoldRef_String (HoldRef ''a@b'' 12)) = Inr (HoldRef ''a@b'' 12)"
  using HoldRef_roundtrip [of "HoldRef ''a@b'' 12"] by simp

text \<open>The compare-and-swap comparison of hold sets (\<open>SortHoldRefs\<close> on both sides, then
  \<open>HoldRefsEqual\<close>) is equality of the multisets of holds: order never matters, a holder more or
  fewer always does.\<close>

theorem HoldRefs_compare_multiset:
  "HoldRefsEqual (SortHoldRefs a) (SortHoldRefs b) \<longleftrightarrow> mset a = mset b"
  by (simp add: SortHoldRefs_def sort_eq_iff_mset)

end
