(* ===== verification/Schema.thy ===== *)
theory Schema
  imports Holds
begin

text \<open>
  The tables of \<open>internal/store/schema.sql\<close> the modelled operations touch, as lists of rows in
  rowid (insertion) order, the scan of a lock row into a \<open>LockRecord\<close> (\<open>locks.go\<close>), the key
  comparison rule \<open>keyMatch\<close>, the worktree filter (\<open>locks_batch_tx.go\<close>), the error values the
  operations return, and the ambient input of one operation.

  A transaction that fails leaves the tables as they were (the deferred \<open>cleanup\<close> rolls back), so
  an operation is a function \<open>db \<Rightarrow> store_error + db \<times> result\<close> and an \<open>Inl\<close> has no successor state.
  \<open>io\<close> says what the environment answers during one call: whether the op-flock is taken, the
  transaction opens and commits, what \<open>time.Now\<close> and the liveness probe say, and what \<open>os.Lstat\<close>
  sees.  A SQL statement that fails in the middle of a transaction has the outcome of one that
  never opened (rollback and an error) and has no constructor of its own.  Random identifiers
  (\<open>newID\<close>) are drawn from the stream \<open>s_rand\<close>; two draws never collide in the model unless the
  stream repeats.
\<close>

subsection \<open>Rows\<close>

record lock_row =
  r_target_canonical :: string
  r_owner_uuid :: AgentUUID
  r_session_uuid :: SessionUUID
  r_intent :: string
  r_created_at :: time
  r_expires_at :: time
  r_host :: string
  r_pid :: int
  r_proc_start :: "int option"
  r_branch :: string
  r_epoch :: int
  r_worktree :: string

record hook_call =
  hc_call_id :: string
  hc_owner_uuid :: AgentUUID
  hc_session_uuid :: SessionUUID
  hc_tool_name :: string
  hc_t_pre :: time
  hc_t_post :: "time option"
  hc_post_missing :: bool
  hc_dead_at :: "time option"
  hc_worktree :: string

record claim_row =
  cr_path_canonical :: string
  cr_candidate_id :: string
  cr_owner_uuid :: AgentUUID
  cr_session_uuid :: SessionUUID
  cr_created_at :: time
  cr_host :: string
  cr_pid :: int
  cr_proc_start :: "int option"

record Tag =
  tag_ID :: string
  tag_TargetCanonical :: string
  tag_LockOwnerUUID :: AgentUUID
  tag_LockCreatedAt :: time
  tag_TaggerUUID :: AgentUUID
  tag_Text :: string
  tag_CreatedAt :: time
  tag_AckedAt :: "time option"

record TerritoryTag =
  tt_ID :: string
  tt_PathPrefix :: string
  tt_TaggerUUID :: AgentUUID
  tt_Text :: string
  tt_CreatedAt :: time
  tt_ExpiresAt :: time
  tt_AckedAt :: "time option"
  tt_AckedByUUID :: AgentUUID

record Violation =
  v_ID :: string
  v_PathCanonical :: string
  v_ObservedAt :: time
  v_Fingerprint :: string
  v_Baseline :: string
  v_LeaseState :: string
  v_ExpectedOwner :: string
  v_Worktree :: string
  v_ResolvedAt :: "time option"
  v_Resolution :: string

text \<open>\<open>event_kinds.go\<close>: the constants, and the strings the column stores.\<close>

datatype EventKind =
    EventLockAcquired | EventLockReleased | EventLockBroken | EventLockReclaimedStale
  | EventModeRestoreFailed | EventAcquireRollbackStart | EventLockDowngraded | EventLockRefreshed
  | EventGateBypass | EventCandidateAccepted | EventCandidateRejected | EventStagedGateFired
  | EventRefRefused | EventRefRefusedOverridden | EventHookTiming | EventTreeChangeReported
  | EventTreeChangeActed | EventTreeReportDropped | EventPostMissing | EventPostMissingResolved
  | EventGuardOverride | EventRefAdmitted

record event_row =
  ev_id :: string
  ev_target_canonical :: string
  ev_kind :: EventKind
  ev_actor_uuid :: string
  ev_subject_uuid :: "string option"
  ev_reason :: string
  ev_detail :: string
  ev_created_at :: time

record db =
  db_locks :: "lock_row list"
  db_path_epochs :: "string \<Rightarrow> int option"
  db_events :: "event_row list"
  db_tags :: "Tag list"
  db_territory_tags :: "TerritoryTag list"
  db_candidate_claims :: "claim_row list"
  db_violations :: "Violation list"
  db_hook_calls :: "hook_call list"
  db_draws :: nat

definition empty_db :: db where
  "empty_db = \<lparr>db_locks = [], db_path_epochs = (\<lambda>_. None), db_events = [], db_tags = [],
     db_territory_tags = [], db_candidate_claims = [], db_violations = [], db_hook_calls = [],
     db_draws = 0\<rparr>"

record store =
  s_repoTop :: string
  s_worktree :: string
  s_caseFold :: bool
  s_rand :: "nat \<Rightarrow> string"

subsection \<open>Errors and the environment\<close>

datatype TargetValidationReason = ReasonSymlink | ReasonNotRegular | ReasonMultiLinked

datatype ClaimLeaseReason = ClaimLeaseGone | ClaimLeaseStale | ClaimLeaseEpochChanged

datatype store_error =
    ErrFlock | ErrBegin | ErrCommit
  | ErrLstat string
  | TargetValidationError string TargetValidationReason nat
  | MultiConflictError "LockRecord list"
  | CandidateClaimConflictError "CandidateClaim list"
  | ErrNoLockAtTarget
  | ErrAuthz authz_error
  | HolderChangedError string "HoldRef list" "HoldRef list"
  | ErrTagCapReached | ErrTagNotMine | ErrNoHostLock | ErrTagTextTooLong
  | ErrTerritoryTagTTLTooLong
  | LeaseRevalidationError "(string \<times> ClaimLeaseReason) list"
  | ErrClaimExists string string
  | ErrUnknownViolation
  | ErrGit
  | ErrUnknownCall string
  | ErrConstraint

datatype lstat_result = LstatNotExist | LstatError | LstatOk bool bool nat

record io =
  io_flock :: bool
  io_begin :: bool
  io_commit :: bool
  io_now :: time
  io_now2 :: time
  io_live :: "HolderLiveProbe option"
  io_lstat :: "string \<Rightarrow> lstat_result"

text \<open>The contexts the operations build: \<open>Now\<close> from the clock, the probe from the caller, the case
  class from the store; \<open>MyWorktree\<close> stays at its zero value.\<close>

definition eval_ctx :: "store \<Rightarrow> io \<Rightarrow> EvalContext" where
  "eval_ctx s i = \<lparr>Now = io_now i, Live = io_live i, CaseFold = s_caseFold s, MyWorktree = []\<rparr>"

subsection \<open>Key comparison and worktree scope\<close>

text \<open>\<open>keyMatch\<close>: \<open>col\<close> and \<open>key\<close> are the same function of a stored and of a typed name.\<close>

definition key_norm :: "bool \<Rightarrow> string \<Rightarrow> string" where
  "key_norm folded s = (if folded then to_lower s else s)"

definition worktreeFilter :: "string \<Rightarrow> string \<Rightarrow> bool" where
  "worktreeFilter wt row_wt \<longleftrightarrow> wt = [] \<or> row_wt = [] \<or> row_wt = wt"

definition newID :: "store \<Rightarrow> string \<Rightarrow> db \<Rightarrow> string \<times> db" where
  "newID s pre d = (pre @ s_rand s (db_draws d), d\<lparr>db_draws := Suc (db_draws d)\<rparr>)"

subsection \<open>Scanning\<close>

text \<open>\<open>lockInFlightSQL\<close>.\<close>

definition lock_in_flight :: "hook_call list \<Rightarrow> lock_row \<Rightarrow> bool" where
  "lock_in_flight calls r \<longleftrightarrow>
     list_ex (\<lambda>c. hc_owner_uuid c = r_owner_uuid r \<and> hc_t_post c = None \<and> hc_dead_at c = None \<and>
                  \<not> hc_post_missing c \<and> hc_t_pre c < r_expires_at r) calls"

definition scanLock :: "hook_call list \<Rightarrow> lock_row \<Rightarrow> LockRecord" where
  "scanLock calls r =
     \<lparr>l_Target = Target (r_target_canonical r), l_OwnerUUID = r_owner_uuid r,
      l_SessionUUID = r_session_uuid r, l_Intent = r_intent r, l_CreatedAt = r_created_at r,
      l_ExpiresAt = r_expires_at r, l_Host = r_host r, l_PID = r_pid r,
      l_ProcStart = (case r_proc_start r of None \<Rightarrow> 0 | Some p \<Rightarrow> p), l_Branch = r_branch r,
      l_Worktree = r_worktree r, l_Epoch = r_epoch r, l_MayCreate = False, l_Directory = False,
      l_InFlight = lock_in_flight calls r\<rparr>"

definition scanLocksRows :: "hook_call list \<Rightarrow> lock_row list \<Rightarrow> LockRecord list" where
  "scanLocksRows calls rows = map (scanLock calls) rows"

definition loadLocksTx :: "db \<Rightarrow> LockRecord list" where
  "loadLocksTx d = scanLocksRows (db_hook_calls d) (db_locks d)"

definition scanCandidateClaim :: "claim_row \<Rightarrow> CandidateClaim" where
  "scanCandidateClaim r =
     \<lparr>cc_PathCanonical = cr_path_canonical r, cc_CandidateID = cr_candidate_id r,
      cc_OwnerUUID = cr_owner_uuid r, cc_SessionUUID = cr_session_uuid r,
      cc_CreatedAt = cr_created_at r, cc_Host = cr_host r, cc_PID = cr_pid r,
      cc_ProcStart = (case cr_proc_start r of None \<Rightarrow> 0 | Some p \<Rightarrow> p)\<rparr>"

text \<open>The primary key of \<open>locks\<close>.\<close>

definition lock_pk :: "lock_row \<Rightarrow> string \<times> AgentUUID \<times> string" where
  "lock_pk r = (r_target_canonical r, r_owner_uuid r, r_worktree r)"

definition pk_unique :: "lock_row list \<Rightarrow> bool" where
  "pk_unique rows \<longleftrightarrow> distinct (map lock_pk rows)"

subsection \<open>Facts\<close>

lemma eval_ctx_simps [simp]:
  "Now (eval_ctx s i) = io_now i" "Live (eval_ctx s i) = io_live i"
  "CaseFold (eval_ctx s i) = s_caseFold s"
  by (simp_all add: eval_ctx_def)

lemma scanLock_simps [simp]:
  "l_Target (scanLock cs r) = Target (r_target_canonical r)"
  "l_OwnerUUID (scanLock cs r) = r_owner_uuid r"
  "l_SessionUUID (scanLock cs r) = r_session_uuid r"
  "l_Intent (scanLock cs r) = r_intent r"
  "l_CreatedAt (scanLock cs r) = r_created_at r"
  "l_ExpiresAt (scanLock cs r) = r_expires_at r"
  "l_Host (scanLock cs r) = r_host r"
  "l_PID (scanLock cs r) = r_pid r"
  "l_Branch (scanLock cs r) = r_branch r"
  "l_Worktree (scanLock cs r) = r_worktree r"
  "l_Epoch (scanLock cs r) = r_epoch r"
  "l_InFlight (scanLock cs r) = lock_in_flight cs r"
  by (simp_all add: scanLock_def)

lemma loadLocksTx_set [simp]:
  "set (loadLocksTx d) = scanLock (db_hook_calls d) ` set (db_locks d)"
  by (simp add: loadLocksTx_def scanLocksRows_def)

lemma worktreeFilter_SameWorktree: "worktreeFilter wt w = SameWorktree wt w"
  by (auto simp: worktreeFilter_def SameWorktree_def)

lemma key_norm_idem [simp]: "key_norm f (key_norm f s) = key_norm f s"
  by (simp add: key_norm_def)

lemma key_norm_False [simp]: "key_norm False s = s"
  by (simp add: key_norm_def)

lemma SameTarget_key_norm:
  "SameTarget c a b \<longleftrightarrow> key_norm (CaseFold c) (Canonical a) = key_norm (CaseFold c) (Canonical b)"
  by (auto simp: SameTarget_def SameCanonical_def key_norm_def equal_fold_def)

lemma pk_unique_filter [table_intros]: "pk_unique rows \<Longrightarrow> pk_unique (filter P rows)"
  unfolding pk_unique_def by (rule distinct_map_filter)

lemma pk_unique_eq:
  "pk_unique rows \<Longrightarrow> r \<in> set rows \<Longrightarrow> r' \<in> set rows \<Longrightarrow> lock_pk r = lock_pk r' \<Longrightarrow> r = r'"
  unfolding pk_unique_def by (metis distinct_map inj_onD)

end
