(* ===== verification/Events.thy ===== *)
theory Events
  imports Schema
begin

text \<open>
  \<open>internal/store/events.go\<close> and \<open>event_kinds.go\<close>: the append-only audit log and its
  retention pass.  \<open>rotateEventsTx\<close> is the chain of its five \<open>DELETE\<close>s; \<open>ORDER BY created_at
  DESC, rowid DESC\<close> is the reverse of a stable sort of the rows in insertion order, and
  \<open>LIMIT -1 OFFSET n\<close> drops its first \<open>n\<close>.
\<close>

subsection \<open>Kinds\<close>

fun EventKind_name :: "EventKind \<Rightarrow> string" where
  "EventKind_name EventLockAcquired = ''lock_acquired''"
| "EventKind_name EventLockReleased = ''lock_released''"
| "EventKind_name EventLockBroken = ''lock_broken''"
| "EventKind_name EventLockReclaimedStale = ''lock_reclaimed_stale''"
| "EventKind_name EventModeRestoreFailed = ''mode_restore_failed''"
| "EventKind_name EventAcquireRollbackStart = ''acquire_rollback_started''"
| "EventKind_name EventLockDowngraded = ''lock_downgraded''"
| "EventKind_name EventLockRefreshed = ''lock_refreshed''"
| "EventKind_name EventGateBypass = ''gate_bypass''"
| "EventKind_name EventCandidateAccepted = ''candidate_accepted''"
| "EventKind_name EventCandidateRejected = ''candidate_rejected''"
| "EventKind_name EventStagedGateFired = ''staged_lock_gate_fired''"
| "EventKind_name EventRefRefused = ''ref_refused''"
| "EventKind_name EventRefRefusedOverridden = ''ref_refused_overridden''"
| "EventKind_name EventHookTiming = ''hook_timing''"
| "EventKind_name EventTreeChangeReported = ''tree_change_reported''"
| "EventKind_name EventTreeChangeActed = ''tree_change_acted''"
| "EventKind_name EventTreeReportDropped = ''tree_report_dropped''"
| "EventKind_name EventPostMissing = ''post_missing''"
| "EventKind_name EventPostMissingResolved = ''post_missing_resolved''"
| "EventKind_name EventGuardOverride = ''guard_override''"
| "EventKind_name EventRefAdmitted = ''ref_admitted''"

definition allEventKinds :: "EventKind list" where
  "allEventKinds =
     [EventLockAcquired, EventLockReleased, EventLockBroken, EventLockReclaimedStale,
      EventModeRestoreFailed, EventAcquireRollbackStart, EventLockDowngraded, EventLockRefreshed,
      EventGateBypass, EventCandidateAccepted, EventCandidateRejected, EventStagedGateFired,
      EventRefRefused, EventRefRefusedOverridden, EventHookTiming, EventTreeChangeReported,
      EventTreeChangeActed, EventTreeReportDropped, EventPostMissing, EventPostMissingResolved,
      EventGuardOverride, EventRefAdmitted]"

definition eventKindCheckSQL :: string where
  "eventKindCheckSQL =
     join_with '','' (map (\<lambda>k. QUOTE # EventKind_name k @ [QUOTE]) allEventKinds)"

subsection \<open>Retention policy\<close>

definition hour :: int where "hour = 3600 * 1000000000"

definition eventsRetentionMax :: nat where "eventsRetentionMax = 1000"
definition eventsRetentionAge :: int where "eventsRetentionAge = 7 * 24 * hour"
definition HookTimingRetentionMax :: nat where "HookTimingRetentionMax = 200"
definition LockRefreshedRetentionMax :: nat where "LockRefreshedRetentionMax = 200"
definition EvidenceRetentionMaxRows :: nat where "EvidenceRetentionMaxRows = 1000"
definition EvidenceRetentionAge :: int where "EvidenceRetentionAge = 30 * 24 * hour"

definition eventKindRetentionMax :: "(EventKind \<times> nat) list" where
  "eventKindRetentionMax =
     [(EventHookTiming, HookTimingRetentionMax), (EventLockRefreshed, LockRefreshedRetentionMax)]"

definition evidenceKinds :: "EventKind list" where
  "evidenceKinds = [EventStagedGateFired, EventGuardOverride, EventRefAdmitted]"

abbreviation is_evidence :: "event_row \<Rightarrow> bool" where
  "is_evidence e \<equiv> ev_kind e \<in> set evidenceKinds"

text \<open>\<open>DELETE FROM events WHERE id IN (SELECT id FROM events WHERE P ORDER BY created_at DESC,
  rowid DESC LIMIT -1 OFFSET n)\<close>.\<close>

definition newest_first :: "event_row list \<Rightarrow> event_row list" where
  "newest_first evs = rev (sort_key ev_created_at evs)"

definition delete_overflow :: "(event_row \<Rightarrow> bool) \<Rightarrow> nat \<Rightarrow> event_row list \<Rightarrow> event_row list" where
  "delete_overflow P n evs =
     (let ids = map ev_id (drop n (newest_first (filter P evs)))
      in filter (\<lambda>e. ev_id e \<notin> set ids) evs)"

definition rotate_age :: "time \<Rightarrow> event_row list \<Rightarrow> event_row list" where
  "rotate_age now evs =
     filter (\<lambda>e. \<not> (ev_created_at e < now - EvidenceRetentionAge \<and> is_evidence e))
       (filter (\<lambda>e. \<not> (ev_created_at e < now - eventsRetentionAge \<and> \<not> is_evidence e)) evs)"

definition rotate_events :: "time \<Rightarrow> event_row list \<Rightarrow> event_row list" where
  "rotate_events now evs =
     delete_overflow (\<lambda>e. \<not> is_evidence e) eventsRetentionMax
       (delete_overflow is_evidence EvidenceRetentionMaxRows
         (foldl (\<lambda>es (k, mx). delete_overflow (\<lambda>e. ev_kind e = k) mx es)
           (rotate_age now evs) eventKindRetentionMax))"

definition rotateEventsTx :: "time \<Rightarrow> db \<Rightarrow> db" where
  "rotateEventsTx now d = d\<lparr>db_events := rotate_events now (db_events d)\<rparr>"

subsection \<open>Appending and reading\<close>

text \<open>\<open>domain.Event\<close>; \<open>SubjectUUID\<close> is empty where the column is NULL.\<close>

record Event =
  e_ID :: string
  e_Target :: target
  e_Kind :: EventKind
  e_ActorUUID :: string
  e_SubjectUUID :: string
  e_Reason :: string
  e_Detail :: string
  e_CreatedAt :: time

definition event_row_of :: "Event \<Rightarrow> event_row" where
  "event_row_of e =
     \<lparr>ev_id = e_ID e, ev_target_canonical = Canonical (e_Target e), ev_kind = e_Kind e,
      ev_actor_uuid = e_ActorUUID e,
      ev_subject_uuid = (if e_SubjectUUID e \<noteq> [] then Some (e_SubjectUUID e) else None),
      ev_reason = e_Reason e, ev_detail = e_Detail e, ev_created_at = e_CreatedAt e\<rparr>"

definition give_event_id :: "store \<Rightarrow> Event \<Rightarrow> db \<Rightarrow> Event \<times> db" where
  "give_event_id s e d =
     (if e_ID e = [] then (e\<lparr>e_ID := fst (newID s ''e-'' d)\<rparr>, snd (newID s ''e-'' d)) else (e, d))"

fun appendEventsTx :: "store \<Rightarrow> Event list \<Rightarrow> db \<Rightarrow> Event list \<times> db" where
  "appendEventsTx s [] d = ([], d)"
| "appendEventsTx s (e # es) d =
     (let e' = fst (give_event_id s e d);
          d1 = snd (give_event_id s e d);
          r = appendEventsTx s es (d1\<lparr>db_events := db_events d1 @ [event_row_of e']\<rparr>)
      in (e' # fst r, snd r))"

definition appendEventTx :: "store \<Rightarrow> Event \<Rightarrow> db \<Rightarrow> db" where
  "appendEventTx s e d = snd (appendEventsTx s [e] d)"

definition AppendEvents :: "store \<Rightarrow> io \<Rightarrow> Event list \<Rightarrow> db \<Rightarrow> store_error + db \<times> Event list" where
  "AppendEvents s i evs d =
     (if evs = [] then Inr (d, [])
      else if \<not> io_begin i then Inl ErrBegin
      else if \<not> io_commit i then Inl ErrCommit
      else let r = appendEventsTx s evs d in Inr (snd r, fst r))"

definition AppendEvent :: "store \<Rightarrow> io \<Rightarrow> Event \<Rightarrow> db \<Rightarrow> store_error + db \<times> string" where
  "AppendEvent s i e d =
     (case AppendEvents s i [e] d of Inl er \<Rightarrow> Inl er | Inr (d', evs) \<Rightarrow> Inr (d', e_ID (hd evs)))"

definition appendEventsRotating :: "store \<Rightarrow> io \<Rightarrow> Event list \<Rightarrow> db \<Rightarrow> store_error + db \<times> Event list"
where
  "appendEventsRotating s i evs d =
     (if evs = [] then Inr (d, [])
      else if \<not> io_begin i then Inl ErrBegin
      else if \<not> io_commit i then Inl ErrCommit
      else let r = appendEventsTx s evs d in Inr (rotateEventsTx (io_now i) (snd r), fst r))"

definition AppendEventRotating :: "store \<Rightarrow> io \<Rightarrow> Event \<Rightarrow> db \<Rightarrow> store_error + db \<times> string" where
  "AppendEventRotating s i e d =
     (case appendEventsRotating s i [e] d of
        Inl er \<Rightarrow> Inl er | Inr (d', evs) \<Rightarrow> Inr (d', e_ID (hd evs)))"

text \<open>\<open>appendAuditDetached\<close> runs in its own transaction after the operation's: a failure is
  returned and leaves the tables.  The result pairs the error, if any, with the state.\<close>

definition appendAuditDetached :: "store \<Rightarrow> io \<Rightarrow> Event list \<Rightarrow> db \<Rightarrow> store_error option \<times> db" where
  "appendAuditDetached s i evs d =
     (if evs = [] then (None, d)
      else case appendEventsRotating s i evs d of
             Inl er \<Rightarrow> (Some er, d) | Inr (d', _) \<Rightarrow> (None, d'))"

definition RecordGuardOverride :: "store \<Rightarrow> io \<Rightarrow> string \<Rightarrow> string \<Rightarrow> db \<Rightarrow> store_error option \<times> db"
where
  "RecordGuardOverride s i actorUUID guard d =
     appendAuditDetached s i
       [\<lparr>e_ID = [], e_Target = Target [], e_Kind = EventGuardOverride, e_ActorUUID = actorUUID,
         e_SubjectUUID = [], e_Reason = guard, e_Detail = [], e_CreatedAt = io_now i\<rparr>] d"

definition scanEvent :: "event_row \<Rightarrow> Event" where
  "scanEvent r =
     \<lparr>e_ID = ev_id r, e_Target = Target (ev_target_canonical r), e_Kind = ev_kind r,
      e_ActorUUID = ev_actor_uuid r,
      e_SubjectUUID = (case ev_subject_uuid r of None \<Rightarrow> [] | Some u \<Rightarrow> u),
      e_Reason = ev_reason r, e_Detail = ev_detail r, e_CreatedAt = ev_created_at r\<rparr>"

definition scanEvents :: "event_row list \<Rightarrow> Event list" where
  "scanEvents rows = map scanEvent rows"

definition EventsForTarget :: "target \<Rightarrow> db \<Rightarrow> Event list" where
  "EventsForTarget t d =
     scanEvents (sort_key (\<lambda>e. (ev_created_at e, ev_id e))
       (filter (\<lambda>e. ev_target_canonical e = Canonical t) (db_events d)))"

definition ListEvents :: "db \<Rightarrow> Event list" where
  "ListEvents d = scanEvents (sort_key (\<lambda>e. (ev_created_at e, ev_id e)) (db_events d))"

subsection \<open>Frame facts\<close>

lemma newID_frame [frame_simps]:
  "db_locks (snd (newID s p d)) = db_locks d"
  "db_path_epochs (snd (newID s p d)) = db_path_epochs d"
  "db_events (snd (newID s p d)) = db_events d"
  "db_tags (snd (newID s p d)) = db_tags d"
  "db_territory_tags (snd (newID s p d)) = db_territory_tags d"
  "db_candidate_claims (snd (newID s p d)) = db_candidate_claims d"
  "db_violations (snd (newID s p d)) = db_violations d"
  "db_hook_calls (snd (newID s p d)) = db_hook_calls d"
  by (simp_all add: newID_def)

lemma give_event_id_frame [frame_simps]:
  "db_locks (snd (give_event_id s e d)) = db_locks d"
  "db_path_epochs (snd (give_event_id s e d)) = db_path_epochs d"
  "db_events (snd (give_event_id s e d)) = db_events d"
  "db_tags (snd (give_event_id s e d)) = db_tags d"
  "db_territory_tags (snd (give_event_id s e d)) = db_territory_tags d"
  "db_candidate_claims (snd (give_event_id s e d)) = db_candidate_claims d"
  "db_violations (snd (give_event_id s e d)) = db_violations d"
  "db_hook_calls (snd (give_event_id s e d)) = db_hook_calls d"
  by (simp_all add: give_event_id_def frame_simps)

text \<open>Appending touches the log and the draw counter alone.\<close>

lemma appendEventsTx_frame [frame_simps]:
  "db_locks (snd (appendEventsTx s es d)) = db_locks d"
  "db_path_epochs (snd (appendEventsTx s es d)) = db_path_epochs d"
  "db_tags (snd (appendEventsTx s es d)) = db_tags d"
  "db_territory_tags (snd (appendEventsTx s es d)) = db_territory_tags d"
  "db_candidate_claims (snd (appendEventsTx s es d)) = db_candidate_claims d"
  "db_violations (snd (appendEventsTx s es d)) = db_violations d"
  "db_hook_calls (snd (appendEventsTx s es d)) = db_hook_calls d"
  by (induction es arbitrary: d) (simp_all add: Let_def frame_simps)

lemmas appendEventTx_frame [frame_simps] =
  appendEventsTx_frame [of s "[e]" d for s e d, folded appendEventTx_def]

lemma rotateEventsTx_frame [frame_simps]:
  "db_locks (rotateEventsTx now d) = db_locks d"
  "db_path_epochs (rotateEventsTx now d) = db_path_epochs d"
  "db_tags (rotateEventsTx now d) = db_tags d"
  "db_territory_tags (rotateEventsTx now d) = db_territory_tags d"
  "db_candidate_claims (rotateEventsTx now d) = db_candidate_claims d"
  "db_violations (rotateEventsTx now d) = db_violations d"
  "db_hook_calls (rotateEventsTx now d) = db_hook_calls d"
  by (simp_all add: rotateEventsTx_def)

text \<open>What an append writes: one row per event, at the end of the log, with the event's own
  identifier or a fresh one.\<close>

lemma appendEventsTx_events:
  "db_events (snd (appendEventsTx s es d)) = db_events d @ map event_row_of (fst (appendEventsTx s es d))"
proof (induction es arbitrary: d)
  case Nil
  then show ?case by simp
next
  case (Cons e es)
  then show ?case by (simp add: Let_def frame_simps)
qed

lemma appendEventsTx_keeps:
  "map (\<lambda>e. (Canonical (e_Target e), e_Kind e, e_ActorUUID e, e_SubjectUUID e, e_Reason e,
       e_Detail e, e_CreatedAt e)) (fst (appendEventsTx s es d)) =
   map (\<lambda>e. (Canonical (e_Target e), e_Kind e, e_ActorUUID e, e_SubjectUUID e, e_Reason e,
       e_Detail e, e_CreatedAt e)) es"
proof (induction es arbitrary: d)
  case Nil
  then show ?case by simp
next
  case (Cons e es)
  then show ?case by (simp add: Let_def give_event_id_def)
qed

lemma appendAuditDetached_frame [frame_simps]:
  "db_locks (snd (appendAuditDetached s i es d)) = db_locks d"
  "db_path_epochs (snd (appendAuditDetached s i es d)) = db_path_epochs d"
  "db_tags (snd (appendAuditDetached s i es d)) = db_tags d"
  "db_candidate_claims (snd (appendAuditDetached s i es d)) = db_candidate_claims d"
  "db_violations (snd (appendAuditDetached s i es d)) = db_violations d"
  "db_hook_calls (snd (appendAuditDetached s i es d)) = db_hook_calls d"
  by (auto simp: appendAuditDetached_def appendEventsRotating_def Let_def frame_simps
      split: sum.splits prod.splits if_splits)

subsection \<open>What the retention pass keeps\<close>

lemma newest_first_mset: "mset (newest_first evs) = mset evs"
  by (simp add: newest_first_def)

lemma delete_overflow_subset: "set (delete_overflow P n evs) \<subseteq> set evs"
  by (auto simp: delete_overflow_def Let_def)

lemma delete_overflow_filter_le: "length (filter Q (delete_overflow P n evs)) \<le> length (filter Q evs)"
  unfolding delete_overflow_def Let_def by (rule length_filter_filter_le)

lemma delete_overflow_small: "length (filter P evs) \<le> n \<Longrightarrow> delete_overflow P n evs = evs"
  by (simp add: delete_overflow_def newest_first_def)

lemma delete_overflow_bound: "length (filter P (delete_overflow P n evs)) \<le> n"
proof -
  let ?xs = "newest_first (filter P evs)"
  let ?ids = "set (map ev_id (drop n ?xs))"
  have "length (filter P (delete_overflow P n evs)) =
      size (filter_mset (\<lambda>e. ev_id e \<notin> ?ids) (mset (filter P evs)))"
    by (simp add: delete_overflow_def Let_def filter_filter_mset conj_commute flip: size_mset mset_filter)
  also have "mset (filter P evs) = mset ?xs" by (simp add: newest_first_mset)
  also have "size (filter_mset (\<lambda>e. ev_id e \<notin> ?ids) (mset ?xs)) =
      length (filter (\<lambda>e. ev_id e \<notin> ?ids) ?xs)"
    by (simp flip: size_mset mset_filter)
  also have "filter (\<lambda>e. ev_id e \<notin> ?ids) ?xs =
      filter (\<lambda>e. ev_id e \<notin> ?ids) (take n ?xs) @ filter (\<lambda>e. ev_id e \<notin> ?ids) (drop n ?xs)"
    by (metis append_take_drop_id filter_append)
  also have "filter (\<lambda>e. ev_id e \<notin> ?ids) (drop n ?xs) = []"
    by (rule filter_all_not) auto
  finally show ?thesis
    by (metis append_Nil2 le_trans length_filter_le length_take min.cobounded2)
qed

text \<open>With distinct ids a row the overflow does not select survives.\<close>

lemma delete_overflow_other:
  assumes "distinct (map ev_id evs)" "\<And>e. Q e \<Longrightarrow> \<not> P e"
  shows "filter Q (delete_overflow P n evs) = filter Q evs"
proof -
  have "ev_id e \<notin> ev_id ` set (drop n (newest_first (filter P evs)))" if "e \<in> set evs" "Q e" for e
  proof
    assume "ev_id e \<in> ev_id ` set (drop n (newest_first (filter P evs)))"
    then obtain e' where e': "e' \<in> set (drop n (newest_first (filter P evs)))" "ev_id e = ev_id e'"
      by auto
    then have "e' \<in> set evs" "P e'"
      by (auto dest!: in_set_dropD simp: newest_first_def)
    with e'(2) that assms show False by (metis distinct_map inj_onD)
  qed
  then show ?thesis
    unfolding delete_overflow_def Let_def filter_filter
    by (intro filter_cong) auto
qed

lemma delete_overflow_distinct:
  "distinct (map ev_id evs) \<Longrightarrow> distinct (map ev_id (delete_overflow P n evs))"
  by (simp add: delete_overflow_def Let_def distinct_map_filter)

lemma rotate_age_distinct: "distinct (map ev_id evs) \<Longrightarrow> distinct (map ev_id (rotate_age now evs))"
  by (simp add: rotate_age_def distinct_map_filter)

lemma rotate_events_unfold:
  "rotate_events now evs =
     delete_overflow (\<lambda>e. \<not> is_evidence e) eventsRetentionMax
       (delete_overflow is_evidence EvidenceRetentionMaxRows
         (delete_overflow (\<lambda>e. ev_kind e = EventLockRefreshed) LockRefreshedRetentionMax
           (delete_overflow (\<lambda>e. ev_kind e = EventHookTiming) HookTimingRetentionMax
             (rotate_age now evs))))"
  by (simp add: rotate_events_def eventKindRetentionMax_def)

lemma rotate_events_subset: "set (rotate_events now evs) \<subseteq> set (rotate_age now evs)"
  unfolding rotate_events_unfold by (meson delete_overflow_subset order_trans)

lemma rotate_events_all: "list_all Q (rotate_age now evs) \<Longrightarrow> list_all Q (rotate_events now evs)"
  using rotate_events_subset [of now evs] by (auto simp: list_all_iff)

subsection \<open>Properties\<close>

text \<open>The retention bounds hold after every rotation: at most 1000 shared rows and 1000
  evidence rows, at most 200 \<open>hook_timing\<close> and 200 \<open>lock_refreshed\<close> rows, nothing shared older than
  seven days and no evidence older than thirty.\<close>

theorem rotate_bounds:
  "length (filter (\<lambda>e. \<not> is_evidence e) (rotate_events now evs)) \<le> 1000 \<and>
   length (filter is_evidence (rotate_events now evs)) \<le> 1000 \<and>
   length (filter (\<lambda>e. ev_kind e = EventHookTiming) (rotate_events now evs)) \<le> 200 \<and>
   length (filter (\<lambda>e. ev_kind e = EventLockRefreshed) (rotate_events now evs)) \<le> 200 \<and>
   list_all (\<lambda>e. now - (if is_evidence e then 30 else 7) * 24 * hour \<le> ev_created_at e)
     (rotate_events now evs)"
proof (intro conjI)
  show "length (filter (\<lambda>e. \<not> is_evidence e) (rotate_events now evs)) \<le> 1000"
    unfolding rotate_events_unfold eventsRetentionMax_def by (rule delete_overflow_bound)
  show "length (filter is_evidence (rotate_events now evs)) \<le> 1000"
    unfolding rotate_events_unfold EvidenceRetentionMaxRows_def
    by (rule order_trans [OF delete_overflow_filter_le delete_overflow_bound])
  show "length (filter (\<lambda>e. ev_kind e = EventHookTiming) (rotate_events now evs)) \<le> 200"
    unfolding rotate_events_unfold HookTimingRetentionMax_def
    by (rule delete_overflow_filter_le [THEN order_trans], rule delete_overflow_filter_le [THEN order_trans],
        rule delete_overflow_filter_le [THEN order_trans], rule delete_overflow_bound)
  show "length (filter (\<lambda>e. ev_kind e = EventLockRefreshed) (rotate_events now evs)) \<le> 200"
    unfolding rotate_events_unfold LockRefreshedRetentionMax_def
    by (rule delete_overflow_filter_le [THEN order_trans], rule delete_overflow_filter_le [THEN order_trans],
        rule delete_overflow_bound)
  have "list_all (\<lambda>e. now - (if is_evidence e then 30 else 7) * 24 * hour \<le> ev_created_at e)
      (rotate_age now evs)"
    by (auto simp: list_all_iff rotate_age_def EvidenceRetentionAge_def eventsRetentionAge_def)
  then show "list_all (\<lambda>e. now - (if is_evidence e then 30 else 7) * 24 * hour \<le> ev_created_at e)
      (rotate_events now evs)"
    by (rule rotate_events_all)
qed

text \<open>A rare evidence row is never evicted by a chatty kind: what the rotation leaves of the
  evidence rows (below their own cap) is exactly the evidence rows younger than thirty days,
  whatever else the log holds.\<close>

theorem rotate_evidence_isolated:
  assumes "distinct (map ev_id evs)"
    and "length (filter is_evidence evs) \<le> 1000"
  shows "filter is_evidence (rotate_events now evs) =
         filter (\<lambda>e. is_evidence e \<and> now - 30 * 24 * hour \<le> ev_created_at e) evs"
proof -
  let ?a = "rotate_age now evs"
  let ?b = "delete_overflow (\<lambda>e. ev_kind e = EventHookTiming) HookTimingRetentionMax ?a"
  let ?c = "delete_overflow (\<lambda>e. ev_kind e = EventLockRefreshed) LockRefreshedRetentionMax ?b"
  have da: "distinct (map ev_id ?a)" by (rule rotate_age_distinct [OF assms(1)])
  have db: "distinct (map ev_id ?b)" by (rule delete_overflow_distinct [OF da])
  have dc: "distinct (map ev_id ?c)" by (rule delete_overflow_distinct [OF db])
  have a: "filter is_evidence ?a = filter (\<lambda>e. is_evidence e \<and> now - 30 * 24 * hour \<le> ev_created_at e) evs"
    unfolding rotate_age_def filter_filter
    by (rule filter_cong) (auto simp: EvidenceRetentionAge_def)
  have b: "filter is_evidence ?b = filter is_evidence ?a"
    by (rule delete_overflow_other [OF da]) (auto simp: evidenceKinds_def)
  have c: "filter is_evidence ?c = filter is_evidence ?b"
    by (rule delete_overflow_other [OF db]) (auto simp: evidenceKinds_def)
  have "length (filter is_evidence ?c) \<le> 1000"
    unfolding c b a by (rule order_trans [OF length_filter_mono assms(2)]) (erule conjunct1)
  then have d: "delete_overflow is_evidence EvidenceRetentionMaxRows ?c = ?c"
    unfolding EvidenceRetentionMaxRows_def by (rule delete_overflow_small)
  have "filter is_evidence (rotate_events now evs) = filter is_evidence ?c"
    unfolding rotate_events_unfold d by (rule delete_overflow_other [OF dc]) (simp only: not_not)
  also note c
  also note b
  also note a
  finally show ?thesis .
qed

text \<open>The kinds render to pairwise distinct names and the generated CHECK list names every
  kind, so a stored kind reads back as the kind that was written.\<close>

theorem EventKind_names_distinct:
  "distinct (map EventKind_name allEventKinds) \<and> set allEventKinds = UNIV \<and>
   (EventKind_name a = EventKind_name b \<longleftrightarrow> a = b)"
proof -
  have d: "distinct (map EventKind_name allEventKinds)" by code_simp
  have u: "set allEventKinds = UNIV"
  proof -
    have "k \<in> set allEventKinds" for k by (cases k) (simp_all add: allEventKinds_def)
    then show ?thesis by auto
  qed
  from d u have "inj EventKind_name" by (auto simp: distinct_map)
  with d u show ?thesis by (auto dest: injD)
qed

text \<open>An event written to the log is read back unchanged: \<open>scanEvent\<close> inverts the insert,
  the empty subject and the NULL column included.\<close>

theorem event_row_roundtrip: "scanEvent (event_row_of e) = e"
  by (cases e) (simp add: scanEvent_def event_row_of_def)

end
