(* ===== verification/LockTable.thy ===== *)
theory LockTable
  imports Events
begin

text \<open>
  The lock table as the operations use it: the conflict relation between row keys and what keeps
  a table free of it, the per-path epoch counter of \<open>epoch.go\<close>, and the three writes every
  mutation is made of (the upsert with its legacy adoption of \<open>locks_acquire.go\<close>, the exact
  delete of \<open>reclaimStaleTx\<close>).  Two interfaces are locales: \<open>conflict_table\<close> (what keeps a set of
  keys pairwise free of a symmetric conflict) and \<open>epoch_counter\<close> (a durable counter per key).
\<close>

subsection \<open>Interface: keys under a symmetric conflict\<close>

definition conflict_free :: "('k \<Rightarrow> 'k \<Rightarrow> bool) \<Rightarrow> 'k set \<Rightarrow> bool" where
  "conflict_free conflict ks \<longleftrightarrow> (\<forall>a \<in> ks. \<forall>b \<in> ks. \<not> conflict a b)"

locale conflict_table =
  fixes conflict :: "'k \<Rightarrow> 'k \<Rightarrow> bool"
  assumes conflict_sym: "conflict a b \<Longrightarrow> conflict b a"
begin

lemma free_subset: "conflict_free conflict ks \<Longrightarrow> ks' \<subseteq> ks \<Longrightarrow> conflict_free conflict ks'"
  by (auto simp: conflict_free_def)

lemma free_empty: "conflict_free conflict {}"
  by (simp add: conflict_free_def)

lemma free_union:
  assumes "conflict_free conflict old" "conflict_free conflict new"
    and "\<And>n k. n \<in> new \<Longrightarrow> k \<in> old \<Longrightarrow> \<not> conflict n k"
  shows "conflict_free conflict (new \<union> old)"
  using assms conflict_sym unfolding conflict_free_def by blast

text \<open>What a grant has to establish: the new keys do not conflict among themselves, and what
  survives of the old ones is outside their reach.\<close>

lemma free_grant:
  assumes "conflict_free conflict old" "conflict_free conflict new"
    and "ks \<subseteq> new \<union> {k \<in> old. \<forall>n \<in> new. \<not> conflict n k}"
  shows "conflict_free conflict ks"
proof (rule free_subset [OF _ assms(3)], rule free_union [OF _ assms(2)])
  show "conflict_free conflict {k \<in> old. \<forall>n \<in> new. \<not> conflict n k}"
    by (rule free_subset [OF assms(1)]) auto
qed auto

end

subsection \<open>The conflict between lock keys\<close>

type_synonym lock_key = "string \<times> AgentUUID \<times> string"

text \<open>The part of the conflict rule that does not depend on the clock: owners differ, the checkouts
  may be the same one, and one path covers the other under the store's case class.\<close>

definition fold_ctx :: "bool \<Rightarrow> EvalContext" where
  "fold_ctx f = \<lparr>Now = 0, Live = None, CaseFold = f, MyWorktree = []\<rparr>"

fun contends :: "bool \<Rightarrow> lock_key \<Rightarrow> lock_key \<Rightarrow> bool" where
  "contends f (t, own, wt) (t', own', wt') \<longleftrightarrow>
     own \<noteq> own' \<and> SameWorktree wt wt' \<and> PrefixCovers (fold_ctx f) t t'"

definition lock_key_of :: "LockRecord \<Rightarrow> lock_key" where
  "lock_key_of l = (Canonical (l_Target l), l_OwnerUUID l, l_Worktree l)"

definition lock_keys :: "lock_row list \<Rightarrow> lock_key set" where
  "lock_keys rows = lock_pk ` set rows"

text \<open>The table invariant: no two holds of different owners cover each other in one checkout.\<close>

definition exclusive :: "bool \<Rightarrow> lock_row list \<Rightarrow> bool" where
  "exclusive f rows \<longleftrightarrow> conflict_free (contends f) (lock_keys rows)"

lemma PrefixCovers_fold_ctx: "PrefixCovers (fold_ctx (CaseFold c)) = PrefixCovers c"
  by (intro ext) (simp add: PrefixCovers_def fold_ctx_def)

lemma contends_sym: "contends f a b \<Longrightarrow> contends f b a"
proof -
  obtain t own wt t' own' wt' where [simp]: "a = (t, own, wt)" "b = (t', own', wt')"
    by (cases a; cases b) auto
  show "contends f a b \<Longrightarrow> contends f b a"
    using SameWorktree_sym [of wt wt'] PrefixCovers_sym [of "fold_ctx f" t t'] by auto
qed

interpretation lock_conflict: conflict_table "contends f" for f
  by unfold_locales (rule contends_sym)

lemma contends_same_owner: "fst (snd a) = fst (snd b) \<Longrightarrow> \<not> contends f a b"
  by (cases a; cases b) simp

lemma one_owner_free: "(\<And>k. k \<in> ks \<Longrightarrow> fst (snd k) = own) \<Longrightarrow> conflict_free (contends f) ks"
  unfolding conflict_free_def by (intro ballI contends_same_owner) simp

lemma lock_keys_simps [simp]:
  "lock_keys [] = {}" "lock_keys (r # rs) = insert (lock_pk r) (lock_keys rs)"
  "lock_keys (xs @ ys) = lock_keys xs \<union> lock_keys ys"
  by (auto simp: lock_keys_def)

lemma lock_keys_filter: "lock_keys (filter P rows) \<subseteq> lock_keys rows"
  by (auto simp: lock_keys_def)

lemma exclusive_filter [table_intros]: "exclusive f rows \<Longrightarrow> exclusive f (filter P rows)"
  unfolding exclusive_def by (rule lock_conflict.free_subset [OF _ lock_keys_filter])

lemma exclusive_subset: "exclusive f rows \<Longrightarrow> lock_keys rows' \<subseteq> lock_keys rows \<Longrightarrow> exclusive f rows'"
  unfolding exclusive_def by (rule lock_conflict.free_subset)

lemma lock_key_of_scan [simp]: "lock_key_of (scanLock cs r) = lock_pk r"
  by (simp add: lock_key_of_def lock_pk_def)

subsection \<open>Interface: a durable counter per key\<close>

locale epoch_counter =
  fixes cur :: "'s \<Rightarrow> 'k \<Rightarrow> int"
    and bump :: "'s \<Rightarrow> 'k \<Rightarrow> int \<times> 's"
  assumes bump_value: "fst (bump s k) = cur s k + 1"
    and bump_cur: "cur (snd (bump s k)) k' = (if k' = k then cur s k + 1 else cur s k')"
begin

fun bumps :: "'s \<Rightarrow> 'k list \<Rightarrow> ('k \<times> int) list \<times> 's" where
  "bumps s [] = ([], s)"
| "bumps s (k # ks) = (let r = bumps (snd (bump s k)) ks in ((k, fst (bump s k)) # fst r, snd r))"

lemma cur_mono: "cur s k \<le> cur (snd (bumps s ks)) k"
proof (induction ks arbitrary: s)
  case Nil
  then show ?case by simp
next
  case (Cons k' ks)
  have "cur s k \<le> cur (snd (bump s k')) k" by (simp add: bump_cur)
  also have "\<dots> \<le> cur (snd (bumps (snd (bump s k')) ks)) k" by (rule Cons)
  finally show ?case by (simp add: Let_def)
qed

lemma bumps_above: "(k, v) \<in> set (fst (bumps s ks)) \<Longrightarrow> cur s k < v"
proof (induction ks arbitrary: s)
  case Nil
  then show ?case by simp
next
  case (Cons k' ks)
  from Cons.prems consider "k = k'" "v = fst (bump s k')"
    | "(k, v) \<in> set (fst (bumps (snd (bump s k')) ks))"
    by (auto simp: Let_def)
  then show ?case
  proof cases
    case 1
    then show ?thesis by (simp add: bump_value)
  next
    case 2
    from Cons.IH [OF this] show ?thesis by (simp add: bump_cur split: if_splits)
  qed
qed

text \<open>No value is granted twice for one key.\<close>

lemma bumps_distinct: "distinct (fst (bumps s ks))"
proof (induction ks arbitrary: s)
  case Nil
  then show ?case by simp
next
  case (Cons k ks)
  have "(k, fst (bump s k)) \<notin> set (fst (bumps (snd (bump s k)) ks))"
    using bumps_above [of k "fst (bump s k)" "snd (bump s k)" ks] by (auto simp: bump_value bump_cur)
  with Cons show ?case by (simp add: Let_def)
qed

end

text \<open>\<open>nextPathEpoch\<close>: a path never seen starts at 1.\<close>

definition path_epoch :: "(string \<Rightarrow> int option) \<Rightarrow> string \<Rightarrow> int" where
  "path_epoch m p = (case m p of None \<Rightarrow> 0 | Some e \<Rightarrow> e)"

definition nextPathEpoch :: "(string \<Rightarrow> int option) \<Rightarrow> string \<Rightarrow> int \<times> (string \<Rightarrow> int option)" where
  "nextPathEpoch m p =
     (let e = (case m p of None \<Rightarrow> 1 | Some e \<Rightarrow> e + 1) in (e, m(p := Some e)))"

interpretation path_epochs: epoch_counter path_epoch nextPathEpoch
  by unfold_locales (auto simp: path_epoch_def nextPathEpoch_def Let_def split: option.splits)

subsection \<open>Writes\<close>

text \<open>\<open>reclaimStaleTx\<close>: one audit event, then a delete by the exact key.\<close>

definition delete_lock_row :: "lock_key \<Rightarrow> lock_row list \<Rightarrow> lock_row list" where
  "delete_lock_row k rows = filter (\<lambda>r. lock_pk r \<noteq> k) rows"

definition reclaimStaleTx :: "store \<Rightarrow> LockRecord \<Rightarrow> string \<Rightarrow> time \<Rightarrow> db \<Rightarrow> db" where
  "reclaimStaleTx s stale byAgent now d =
     (let d1 = appendEventTx s
            \<lparr>e_ID = [], e_Target = l_Target stale, e_Kind = EventLockReclaimedStale,
             e_ActorUUID = byAgent, e_SubjectUUID = l_OwnerUUID stale,
             e_Reason = ''reclaimed stale lock'', e_Detail = [], e_CreatedAt = now\<rparr> d
      in d1\<lparr>db_locks := delete_lock_row (lock_key_of stale) (db_locks d1)\<rparr>)"

text \<open>\<open>adoptLegacyWorktreeRow\<close>: \<open>UPDATE OR IGNORE\<close> visits the rows in order and skips one whose new
  key another row already has.\<close>

fun adopt_rows :: "bool \<Rightarrow> LockRecord \<Rightarrow> lock_row list \<Rightarrow> lock_row list \<Rightarrow> lock_row list" where
  "adopt_rows f l done [] = done"
| "adopt_rows f l done (r # rs) =
     (if key_norm f (r_target_canonical r) = key_norm f (Canonical (l_Target l)) \<and>
         r_owner_uuid r = l_OwnerUUID l \<and> r_worktree r = [] \<and>
         lock_key_of l \<notin> lock_keys (done @ rs)
      then adopt_rows f l
             (done @ [r\<lparr>r_worktree := l_Worktree l, r_target_canonical := Canonical (l_Target l)\<rparr>]) rs
      else adopt_rows f l (done @ [r]) rs)"

definition adoptLegacyWorktreeRow :: "bool \<Rightarrow> LockRecord \<Rightarrow> lock_row list \<Rightarrow> lock_row list" where
  "adoptLegacyWorktreeRow f l rows =
     (if l_Worktree l = [] then rows else adopt_rows f l [] rows)"

definition lock_row_of :: "LockRecord \<Rightarrow> int \<Rightarrow> lock_row" where
  "lock_row_of l epoch =
     \<lparr>r_target_canonical = Canonical (l_Target l), r_owner_uuid = l_OwnerUUID l,
      r_session_uuid = l_SessionUUID l, r_intent = l_Intent l, r_created_at = l_CreatedAt l,
      r_expires_at = l_ExpiresAt l, r_host = l_Host l, r_pid = l_PID l,
      r_proc_start = (if l_ProcStart l \<noteq> 0 then Some (l_ProcStart l) else None),
      r_branch = l_Branch l, r_epoch = epoch, r_worktree = l_Worktree l\<rparr>"

text \<open>\<open>INSERT ... ON CONFLICT(target_canonical, owner_uuid, worktree) DO UPDATE\<close>: \<open>created_at\<close> is not
  in the \<open>SET\<close> list.\<close>

definition upsert_lock_row :: "lock_row \<Rightarrow> lock_row list \<Rightarrow> lock_row list" where
  "upsert_lock_row new rows =
     (if lock_pk new \<in> lock_keys rows then
        map (\<lambda>r. if lock_pk r = lock_pk new then new\<lparr>r_created_at := r_created_at r\<rparr> else r) rows
      else rows @ [new])"

definition insertOrRefreshLock :: "bool \<Rightarrow> LockRecord \<Rightarrow> int \<Rightarrow> lock_row list \<Rightarrow> lock_row list" where
  "insertOrRefreshLock f l epoch rows =
     upsert_lock_row (lock_row_of l epoch) (adoptLegacyWorktreeRow f l rows)"

subsection \<open>What the writes do to the keys\<close>

lemma lock_pk_row_of [simp]: "lock_pk (lock_row_of l e) = lock_key_of l"
  by (simp add: lock_pk_def lock_row_of_def lock_key_of_def)

lemma lock_pk_created [simp]: "lock_pk (r\<lparr>r_created_at := x\<rparr>) = lock_pk r"
  by (simp add: lock_pk_def)

lemma lock_keys_delete [simp]: "lock_keys (delete_lock_row k rows) = lock_keys rows - {k}"
  by (auto simp: delete_lock_row_def lock_keys_def)

lemma upsert_keeps_pks:
  "map lock_pk (map (\<lambda>r. if lock_pk r = lock_pk new then new\<lparr>r_created_at := r_created_at r\<rparr> else r) rows) =
   map lock_pk rows"
  by (rule map_eq_fun_keep) simp

lemma lock_keys_upsert [simp]: "lock_keys (upsert_lock_row new rows) = insert (lock_pk new) (lock_keys rows)"
proof (cases "lock_pk new \<in> lock_keys rows")
  case True
  have "lock_keys (map (\<lambda>r. if lock_pk r = lock_pk new then new\<lparr>r_created_at := r_created_at r\<rparr> else r) rows) =
      lock_keys rows"
    using arg_cong [OF upsert_keeps_pks [of new rows], of set]
    unfolding lock_keys_def set_map [symmetric] .
  with True show ?thesis by (simp add: upsert_lock_row_def insert_absorb)
next
  case False
  then show ?thesis by (simp add: upsert_lock_row_def)
qed

lemma lock_keys_adopt_rows:
  "lock_keys (adopt_rows f l xs rs) \<subseteq> insert (lock_key_of l) (lock_keys xs \<union> lock_keys rs)"
proof (induction f l xs rs rule: adopt_rows.induct)
  case (1 f l xs)
  then show ?case by auto
next
  case (2 f l xs r rs)
  then show ?case by (auto simp: lock_pk_def lock_key_of_def)
qed

lemma lock_keys_insertOrRefresh:
  "lock_keys (insertOrRefreshLock f l e rows) \<subseteq> insert (lock_key_of l) (lock_keys rows)"
  using lock_keys_adopt_rows [of f l "[]" rows]
  by (auto simp: insertOrRefreshLock_def adoptLegacyWorktreeRow_def)

lemma lock_key_insertOrRefresh: "lock_key_of l \<in> lock_keys (insertOrRefreshLock f l e rows)"
  by (simp add: insertOrRefreshLock_def)

lemma pk_unique_upsert: "pk_unique rows \<Longrightarrow> pk_unique (upsert_lock_row new rows)"
  using upsert_keeps_pks [of new rows]
  by (auto simp: upsert_lock_row_def pk_unique_def lock_keys_def simp del: map_map)

lemma pk_unique_adopt_rows: "pk_unique (xs @ rs) \<Longrightarrow> pk_unique (adopt_rows f l xs rs)"
proof (induction f l xs rs rule: adopt_rows.induct)
  case (1 f l xs)
  then show ?case by simp
next
  case (2 f l xs r rs)
  let ?r = "r\<lparr>r_worktree := l_Worktree l, r_target_canonical := Canonical (l_Target l)\<rparr>"
  show ?case
  proof (cases "key_norm f (r_target_canonical r) = key_norm f (Canonical (l_Target l)) \<and>
         r_owner_uuid r = l_OwnerUUID l \<and> r_worktree r = [] \<and> lock_key_of l \<notin> lock_keys (xs @ rs)")
    case True
    then have "lock_pk ?r \<notin> lock_keys (xs @ rs)" by (simp add: lock_pk_def lock_key_of_def)
    with 2(3) have "pk_unique ((xs @ [?r]) @ rs)"
      by (auto simp: pk_unique_def lock_keys_def)
    then have "pk_unique (adopt_rows f l (xs @ [?r]) rs)" by (rule 2(1) [OF True])
    then show ?thesis by (subst adopt_rows.simps(2), subst if_P [OF True])
  next
    case False
    from 2(3) have "pk_unique (adopt_rows f l (xs @ [r]) rs)" by (intro 2(2) [OF False]) simp
    then show ?thesis by (subst adopt_rows.simps(2), subst if_not_P [OF False])
  qed
qed

lemma pk_unique_insertOrRefresh [table_intros]:
  "pk_unique rows \<Longrightarrow> pk_unique (insertOrRefreshLock f l e rows)"
  unfolding insertOrRefreshLock_def adoptLegacyWorktreeRow_def
  using pk_unique_adopt_rows [of "[]" rows f l] by (auto intro: pk_unique_upsert)

lemma pk_unique_delete [table_intros]: "pk_unique rows \<Longrightarrow> pk_unique (delete_lock_row k rows)"
  unfolding delete_lock_row_def by (rule pk_unique_filter)

lemma reclaimStaleTx_locks [simp]:
  "db_locks (reclaimStaleTx s l a now d) = delete_lock_row (lock_key_of l) (db_locks d)"
  by (simp add: reclaimStaleTx_def Let_def frame_simps)

lemma reclaimStaleTx_frame [frame_simps]:
  "db_path_epochs (reclaimStaleTx s l a now d) = db_path_epochs d"
  "db_tags (reclaimStaleTx s l a now d) = db_tags d"
  "db_territory_tags (reclaimStaleTx s l a now d) = db_territory_tags d"
  "db_candidate_claims (reclaimStaleTx s l a now d) = db_candidate_claims d"
  "db_violations (reclaimStaleTx s l a now d) = db_violations d"
  "db_hook_calls (reclaimStaleTx s l a now d) = db_hook_calls d"
  by (simp_all add: reclaimStaleTx_def Let_def frame_simps)

text \<open>The epoch fence: no row carries an epoch its path's counter has not reached.\<close>

definition epoch_fenced :: "lock_row list \<Rightarrow> (string \<Rightarrow> int option) \<Rightarrow> bool" where
  "epoch_fenced rows m \<longleftrightarrow> (\<forall>r \<in> set rows. r_epoch r \<le> path_epoch m (r_target_canonical r))"

lemma epoch_fenced_subset: "epoch_fenced rows m \<Longrightarrow> set rows' \<subseteq> set rows \<Longrightarrow> epoch_fenced rows' m"
  by (auto simp: epoch_fenced_def)

lemma epoch_fenced_filter [table_intros]: "epoch_fenced rows m \<Longrightarrow> epoch_fenced (filter P rows) m"
  by (rule epoch_fenced_subset) auto

subsection \<open>Concrete inputs\<close>

text \<open>A store, an environment and records the witnesses below evaluate the operations on.\<close>

definition ex_store :: store where
  "ex_store = \<lparr>s_repoTop = [], s_worktree = ''main'', s_caseFold = False,
     s_rand = (\<lambda>n. replicate n CHR ''0'')\<rparr>"

definition ex_io :: "time \<Rightarrow> io" where
  "ex_io t = \<lparr>io_flock = True, io_begin = True, io_commit = True, io_now = t, io_now2 = t,
     io_live = None, io_lstat = (\<lambda>_. LstatOk False True 1)\<rparr>"

definition ex_lock :: "string \<Rightarrow> AgentUUID \<Rightarrow> time \<Rightarrow> LockRecord" where
  "ex_lock t own expires = zero_lock\<lparr>l_Target := Target t, l_OwnerUUID := own, l_SessionUUID := ''s'',
     l_ExpiresAt := expires, l_Worktree := ''main''\<rparr>"

text \<open>\<open>bob\<close> holds the directory \<open>d\<close> until 20, and \<open>al\<close> held \<open>x\<close> until 5.\<close>

definition ex_db :: db where
  "ex_db = empty_db\<lparr>db_locks :=
     [lock_row_of (ex_lock ''d'' ''bob'' 20) 1, lock_row_of (ex_lock ''x'' ''al'' 5) 3],
     db_path_epochs := [''d'' \<mapsto> 1, ''x'' \<mapsto> 3]\<rparr>"

lemma ex_db_pk_unique: "pk_unique (db_locks ex_db)"
  by code_simp

end
