(* ===== verification/Tags.thy ===== *)
theory Tags
  imports LockTable
begin

text \<open>
  \<open>internal/store/tags.go\<close>: notes pinned to a lock, whose life is that of the host lock named by
  (target, owner, created_at); \<open>territory_tags.go\<close>: notes pinned to ground, with a TTL; and the
  sweeps of \<open>doctor.go\<close> and \<open>locks_release.go\<close> that delete or acknowledge them.
  \<open>len(text)\<close> is the byte length, the length of the list.
\<close>

subsection \<open>Tags on a lock\<close>

record NewTag =
  nt_TargetCanonical :: string
  nt_LockOwnerUUID :: AgentUUID
  nt_LockCreatedAt :: time
  nt_TaggerUUID :: AgentUUID
  nt_Text :: string

definition tagCap :: nat where "tagCap = 5"
definition tagTextMaxBytes :: nat where "tagTextMaxBytes = 4096"
definition tagsRetentionAge :: int where "tagsRetentionAge = 7 * 24 * hour"

text \<open>The probe of the host lock, and the count of unacknowledged tags on it.\<close>

definition host_exists :: "store \<Rightarrow> NewTag \<Rightarrow> db \<Rightarrow> bool" where
  "host_exists s t d \<longleftrightarrow>
     list_ex (\<lambda>r. key_norm (s_caseFold s) (r_target_canonical r) =
                    key_norm (s_caseFold s) (nt_TargetCanonical t) \<and>
                  r_owner_uuid r = nt_LockOwnerUUID t \<and> r_created_at r = nt_LockCreatedAt t)
       (db_locks d)"

definition tags_on_host :: "bool \<Rightarrow> string \<Rightarrow> AgentUUID \<Rightarrow> time \<Rightarrow> Tag list \<Rightarrow> Tag list" where
  "tags_on_host f t own created tags =
     filter (\<lambda>g. key_norm f (tag_TargetCanonical g) = key_norm f t \<and> tag_LockOwnerUUID g = own \<and>
                 tag_LockCreatedAt g = created \<and> tag_AckedAt g = None) tags"

definition InsertTag :: "store \<Rightarrow> io \<Rightarrow> NewTag \<Rightarrow> db \<Rightarrow> store_error + db \<times> string" where
  "InsertTag s i t d =
     (if length (nt_Text t) > tagTextMaxBytes then Inl ErrTagTextTooLong
      else if \<not> io_begin i then Inl ErrBegin
      else if \<not> host_exists s t d then Inl ErrNoHostLock
      else if length (tags_on_host (s_caseFold s) (nt_TargetCanonical t) (nt_LockOwnerUUID t)
                        (nt_LockCreatedAt t) (db_tags d)) \<ge> tagCap then Inl ErrTagCapReached
      else if \<not> io_commit i then Inl ErrCommit
      else let n = newID s ''t-'' d in
        Inr ((snd n)\<lparr>db_tags := db_tags (snd n) @
               [\<lparr>tag_ID = fst n, tag_TargetCanonical = nt_TargetCanonical t,
                 tag_LockOwnerUUID = nt_LockOwnerUUID t, tag_LockCreatedAt = nt_LockCreatedAt t,
                 tag_TaggerUUID = nt_TaggerUUID t, tag_Text = nt_Text t, tag_CreatedAt = io_now i,
                 tag_AckedAt = None\<rparr>]\<rparr>, fst n))"

text \<open>The join of \<open>tags\<close> with its host rows, in the order of the query.  A tag joins once per
  matching lock row.\<close>

definition join_hosts :: "(Tag \<Rightarrow> lock_row \<Rightarrow> bool) \<Rightarrow> Tag list \<Rightarrow> lock_row list \<Rightarrow> Tag list" where
  "join_hosts match tags rows = concat (map (\<lambda>g. map (\<lambda>_. g) (filter (match g) rows)) tags)"

definition host_of :: "bool \<Rightarrow> Tag \<Rightarrow> lock_row \<Rightarrow> bool" where
  "host_of f g r \<longleftrightarrow>
     key_norm f (r_target_canonical r) = key_norm f (tag_TargetCanonical g) \<and>
     r_owner_uuid r = tag_LockOwnerUUID g \<and> r_created_at r = tag_LockCreatedAt g"

definition tag_order :: "Tag list \<Rightarrow> Tag list" where
  "tag_order tags = sort_key (\<lambda>g. (tag_CreatedAt g, tag_ID g)) tags"

definition ListAliveForOwner :: "AgentUUID \<Rightarrow> db \<Rightarrow> Tag list" where
  "ListAliveForOwner own d =
     tag_order (join_hosts (\<lambda>g r. host_of False g r \<and> r_owner_uuid r = own)
       (filter (\<lambda>g. tag_TaggerUUID g \<noteq> own \<and> tag_AckedAt g = None) (db_tags d)) (db_locks d))"

definition ListAliveByTargets :: "store \<Rightarrow> string list \<Rightarrow> db \<Rightarrow> string \<Rightarrow> Tag list" where
  "ListAliveByTargets s canonicals d =
     (if canonicals = [] then (\<lambda>_. [])
      else let f = s_caseFold s;
               all = tag_order (join_hosts (host_of f)
                 (filter (\<lambda>g. key_norm f (tag_TargetCanonical g) \<in> set (map (key_norm f) canonicals) \<and>
                              tag_AckedAt g = None) (db_tags d)) (db_locks d))
           in (\<lambda>key. filter (\<lambda>g. key_norm f (tag_TargetCanonical g) = key) all))"

definition ListAliveForTarget :: "store \<Rightarrow> string \<Rightarrow> db \<Rightarrow> Tag list" where
  "ListAliveForTarget s t d =
     (let f = s_caseFold s in
      tag_order (join_hosts (host_of f)
        (filter (\<lambda>g. key_norm f (tag_TargetCanonical g) = key_norm f t \<and> tag_AckedAt g = None)
          (db_tags d)) (db_locks d)))"

definition ack_matches :: "string \<Rightarrow> AgentUUID \<Rightarrow> Tag \<Rightarrow> bool" where
  "ack_matches tagID own g \<longleftrightarrow> tag_ID g = tagID \<and> tag_LockOwnerUUID g = own \<and> tag_AckedAt g = None"

definition Ack :: "io \<Rightarrow> string \<Rightarrow> AgentUUID \<Rightarrow> db \<Rightarrow> store_error + db" where
  "Ack i tagID own d =
     (if \<not> io_begin i then Inl ErrBegin
      else if list_ex (ack_matches tagID own) (db_tags d) then
        (if \<not> io_commit i then Inl ErrCommit
         else Inr (d\<lparr>db_tags := map (\<lambda>g. if ack_matches tagID own g
                                         then g\<lparr>tag_AckedAt := Some (io_now i)\<rparr> else g) (db_tags d)\<rparr>))
      else case find (\<lambda>g. tag_ID g = tagID) (db_tags d) of
             None \<Rightarrow> Inr d
           | Some g \<Rightarrow> if tag_LockOwnerUUID g \<noteq> own then Inl ErrTagNotMine else Inr d)"

subsection \<open>Sweeps and release\<close>

definition gcTagsTx :: "time \<Rightarrow> db \<Rightarrow> db" where
  "gcTagsTx now d =
     d\<lparr>db_tags :=
        filter (\<lambda>g. case tag_AckedAt g of None \<Rightarrow> True | Some a \<Rightarrow> \<not> a < now - tagsRetentionAge)
          (filter (\<lambda>g. list_ex (host_of False g) (db_locks d)) (db_tags d))\<rparr>"

definition gcTagsForReclaimTx :: "LockRecord \<Rightarrow> db \<Rightarrow> db" where
  "gcTagsForReclaimTx stale d =
     d\<lparr>db_tags := filter (\<lambda>g. \<not> (tag_TargetCanonical g = Canonical (l_Target stale) \<and>
                                  tag_LockOwnerUUID g = l_OwnerUUID stale \<and>
                                  tag_LockCreatedAt g = l_CreatedAt stale)) (db_tags d)\<rparr>"

text \<open>The rows a release names: \<open>target_canonical IN (...) AND owner_uuid = ? AND \<close> the worktree
  condition, which is \<open>worktreeFilter\<close> or an exact match.\<close>

definition owned_rows :: "bool \<Rightarrow> string list \<Rightarrow> AgentUUID \<Rightarrow> (string \<Rightarrow> bool) \<Rightarrow> lock_row \<Rightarrow> bool" where
  "owned_rows f canonicals own wtCond r \<longleftrightarrow>
     key_norm f (r_target_canonical r) \<in> set (map (key_norm f) canonicals) \<and>
     r_owner_uuid r = own \<and> wtCond (r_worktree r)"

definition ackTagsForReleaseTx ::
  "bool \<Rightarrow> string list \<Rightarrow> AgentUUID \<Rightarrow> (string \<Rightarrow> bool) \<Rightarrow> time \<Rightarrow> db \<Rightarrow> db" where
  "ackTagsForReleaseTx f canonicals own wtCond now d =
     d\<lparr>db_tags := map (\<lambda>g. if tag_AckedAt g = None \<and>
              list_ex (\<lambda>r. host_of f g r \<and> owned_rows f canonicals own wtCond r) (db_locks d)
            then g\<lparr>tag_AckedAt := Some now\<rparr> else g) (db_tags d)\<rparr>"

definition deleteOwnedTx :: "bool \<Rightarrow> string list \<Rightarrow> AgentUUID \<Rightarrow> (string \<Rightarrow> bool) \<Rightarrow> db \<Rightarrow> db" where
  "deleteOwnedTx f canonicals own wtCond d =
     d\<lparr>db_locks := filter (\<lambda>r. \<not> owned_rows f canonicals own wtCond r) (db_locks d)\<rparr>"

subsection \<open>Tags on territory\<close>

record NewTerritoryTag =
  ntt_PathPrefix :: string
  ntt_TaggerUUID :: AgentUUID
  ntt_Text :: string
  ntt_ExpiresAt :: time

definition territoryTagPrefixCap :: nat where "territoryTagPrefixCap = 5"
definition territoryTagRepoCap :: nat where "territoryTagRepoCap = 50"
definition territoryTagMaxTTL :: int where "territoryTagMaxTTL = 30 * 24 * hour"

definition tt_Expired :: "TerritoryTag \<Rightarrow> time \<Rightarrow> bool" where
  "tt_Expired n now \<longleftrightarrow> now \<ge> tt_ExpiresAt n"

definition tt_Live :: "TerritoryTag \<Rightarrow> time \<Rightarrow> bool" where
  "tt_Live n now \<longleftrightarrow> tt_AckedAt n = None \<and> \<not> tt_Expired n now"

definition live_at_prefix :: "bool \<Rightarrow> string \<Rightarrow> time \<Rightarrow> TerritoryTag list \<Rightarrow> TerritoryTag list" where
  "live_at_prefix f p now ts =
     filter (\<lambda>n. key_norm f (tt_PathPrefix n) = key_norm f p \<and> tt_AckedAt n = None \<and>
                 tt_ExpiresAt n > now) ts"

definition live_repo_wide :: "time \<Rightarrow> TerritoryTag list \<Rightarrow> TerritoryTag list" where
  "live_repo_wide now ts = filter (\<lambda>n. tt_AckedAt n = None \<and> tt_ExpiresAt n > now) ts"

definition InsertTerritoryTag :: "store \<Rightarrow> io \<Rightarrow> NewTerritoryTag \<Rightarrow> db \<Rightarrow> store_error + db \<times> string" where
  "InsertTerritoryTag s i n d =
     (if length (ntt_Text n) > tagTextMaxBytes then Inl ErrTagTextTooLong
      else if ntt_ExpiresAt n > io_now i + territoryTagMaxTTL then Inl ErrTerritoryTagTTLTooLong
      else if \<not> io_begin i then Inl ErrBegin
      else if length (live_at_prefix (s_caseFold s) (ntt_PathPrefix n) (io_now i)
                        (db_territory_tags d)) \<ge> territoryTagPrefixCap then Inl ErrTagCapReached
      else if length (live_repo_wide (io_now i) (db_territory_tags d)) \<ge> territoryTagRepoCap
        then Inl ErrTagCapReached
      else if \<not> io_commit i then Inl ErrCommit
      else let k = newID s ''tt-'' d in
        Inr ((snd k)\<lparr>db_territory_tags := db_territory_tags (snd k) @
               [\<lparr>tt_ID = fst k, tt_PathPrefix = ntt_PathPrefix n, tt_TaggerUUID = ntt_TaggerUUID n,
                 tt_Text = ntt_Text n, tt_CreatedAt = io_now i, tt_ExpiresAt = ntt_ExpiresAt n,
                 tt_AckedAt = None, tt_AckedByUUID = []\<rparr>]\<rparr>, fst k))"

definition territory_order :: "TerritoryTag list \<Rightarrow> TerritoryTag list" where
  "territory_order ts = sort_key (\<lambda>n. (tt_PathPrefix n, tt_CreatedAt n, tt_ID n)) ts"

definition ListTerritoryTags :: "db \<Rightarrow> TerritoryTag list" where
  "ListTerritoryTags d = territory_order (db_territory_tags d)"

definition ExpiredTerritoryTags :: "time \<Rightarrow> db \<Rightarrow> TerritoryTag list" where
  "ExpiredTerritoryTags now d =
     territory_order (filter (\<lambda>n. tt_AckedAt n = None \<and> tt_ExpiresAt n \<le> now) (db_territory_tags d))"

definition AckTerritoryTag :: "io \<Rightarrow> string \<Rightarrow> AgentUUID \<Rightarrow> db \<Rightarrow> store_error + db" where
  "AckTerritoryTag i tid own d =
     (if \<not> io_begin i then Inl ErrBegin
      else Inr (d\<lparr>db_territory_tags :=
             map (\<lambda>n. if tt_ID n = tid \<and> tt_AckedAt n = None
                      then n\<lparr>tt_AckedAt := Some (io_now i), tt_AckedByUUID := own\<rparr> else n)
               (db_territory_tags d)\<rparr>))"

definition gcTerritoryTagsTx :: "time \<Rightarrow> db \<Rightarrow> db" where
  "gcTerritoryTagsTx now d =
     d\<lparr>db_territory_tags :=
        filter (\<lambda>n. \<not> (tt_ExpiresAt n \<le> now \<or>
             (case tt_AckedAt n of None \<Rightarrow> False | Some a \<Rightarrow> a < now - tagsRetentionAge)))
          (db_territory_tags d)\<rparr>"

subsection \<open>Frame facts\<close>

lemma gcTagsTx_frame [frame_simps]:
  "db_locks (gcTagsTx now d) = db_locks d"
  "db_path_epochs (gcTagsTx now d) = db_path_epochs d"
  "db_events (gcTagsTx now d) = db_events d"
  "db_candidate_claims (gcTagsTx now d) = db_candidate_claims d"
  "db_violations (gcTagsTx now d) = db_violations d"
  "db_hook_calls (gcTagsTx now d) = db_hook_calls d"
  by (simp_all add: gcTagsTx_def)

lemma gcTagsForReclaimTx_frame [frame_simps]:
  "db_locks (gcTagsForReclaimTx l d) = db_locks d"
  "db_path_epochs (gcTagsForReclaimTx l d) = db_path_epochs d"
  "db_events (gcTagsForReclaimTx l d) = db_events d"
  "db_candidate_claims (gcTagsForReclaimTx l d) = db_candidate_claims d"
  "db_violations (gcTagsForReclaimTx l d) = db_violations d"
  "db_hook_calls (gcTagsForReclaimTx l d) = db_hook_calls d"
  by (simp_all add: gcTagsForReclaimTx_def)

lemma ackTagsForReleaseTx_frame [frame_simps]:
  "db_locks (ackTagsForReleaseTx f cs own w now d) = db_locks d"
  "db_path_epochs (ackTagsForReleaseTx f cs own w now d) = db_path_epochs d"
  "db_events (ackTagsForReleaseTx f cs own w now d) = db_events d"
  "db_candidate_claims (ackTagsForReleaseTx f cs own w now d) = db_candidate_claims d"
  "db_violations (ackTagsForReleaseTx f cs own w now d) = db_violations d"
  "db_hook_calls (ackTagsForReleaseTx f cs own w now d) = db_hook_calls d"
  by (simp_all add: ackTagsForReleaseTx_def)

lemma deleteOwnedTx_frame [frame_simps]:
  "db_path_epochs (deleteOwnedTx f cs own w d) = db_path_epochs d"
  "db_events (deleteOwnedTx f cs own w d) = db_events d"
  "db_tags (deleteOwnedTx f cs own w d) = db_tags d"
  "db_candidate_claims (deleteOwnedTx f cs own w d) = db_candidate_claims d"
  "db_violations (deleteOwnedTx f cs own w d) = db_violations d"
  "db_hook_calls (deleteOwnedTx f cs own w d) = db_hook_calls d"
  by (simp_all add: deleteOwnedTx_def)

lemma deleteOwnedTx_locks [simp]:
  "db_locks (deleteOwnedTx f cs own w d) = filter (\<lambda>r. \<not> owned_rows f cs own w r) (db_locks d)"
  by (simp add: deleteOwnedTx_def)

subsection \<open>What the caps and sweeps keep\<close>

text \<open>At most five unacknowledged tags per host, under every spelling of its target.\<close>

definition tag_caps :: "bool \<Rightarrow> Tag list \<Rightarrow> bool" where
  "tag_caps f tags \<longleftrightarrow> (\<forall>t own created. length (tags_on_host f t own created tags) \<le> tagCap)"

lemma tag_caps_filter [table_intros]: "tag_caps f tags \<Longrightarrow> tag_caps f (filter P tags)"
  unfolding tag_caps_def tags_on_host_def by (meson length_filter_filter_le order_trans)

text \<open>Acknowledging takes tags out of the count and touches nothing else the count reads.\<close>

lemma tag_caps_ack [table_intros]:
  "tag_caps f tags \<Longrightarrow> tag_caps f (map (\<lambda>g. if P g then g\<lparr>tag_AckedAt := Some a\<rparr> else g) tags)"
proof -
  have "length (tags_on_host f t own c (map (\<lambda>g. if P g then g\<lparr>tag_AckedAt := Some a\<rparr> else g) tags)) \<le>
      length (tags_on_host f t own c tags)" for t own c
    unfolding tags_on_host_def by (rule length_filter_map_le) (auto split: if_splits)
  then show "tag_caps f tags \<Longrightarrow> ?thesis" unfolding tag_caps_def by (meson order_trans)
qed

lemma tags_on_host_snoc:
  "tags_on_host f t own c (tags @ [g]) =
     tags_on_host f t own c tags @
     (if key_norm f (tag_TargetCanonical g) = key_norm f t \<and> tag_LockOwnerUUID g = own \<and>
         tag_LockCreatedAt g = c \<and> tag_AckedAt g = None then [g] else [])"
  by (simp add: tags_on_host_def)

lemma tags_on_host_norm:
  "key_norm f t = key_norm f t' \<Longrightarrow> tags_on_host f t own c tags = tags_on_host f t' own c tags"
  by (simp add: tags_on_host_def)

text \<open>The territory table at one instant: the two caps, and the month beyond which no note lives.\<close>

definition territory_ok :: "bool \<Rightarrow> time \<Rightarrow> TerritoryTag list \<Rightarrow> bool" where
  "territory_ok f now ts \<longleftrightarrow>
     (\<forall>p. length (live_at_prefix f p now ts) \<le> territoryTagPrefixCap) \<and>
     length (live_repo_wide now ts) \<le> territoryTagRepoCap \<and>
     list_all (\<lambda>n. tt_ExpiresAt n \<le> now + territoryTagMaxTTL) ts"

lemma territory_ok_later: "territory_ok f now ts \<Longrightarrow> now \<le> now' \<Longrightarrow> territory_ok f now' ts"
proof -
  assume ok: "territory_ok f now ts" and le: "now \<le> now'"
  have "length (live_at_prefix f p now' ts) \<le> length (live_at_prefix f p now ts)" for p
    unfolding live_at_prefix_def by (rule length_filter_mono) (use le in auto)
  moreover have "length (live_repo_wide now' ts) \<le> length (live_repo_wide now ts)"
    unfolding live_repo_wide_def by (rule length_filter_mono) (use le in auto)
  moreover have "list_all (\<lambda>n. tt_ExpiresAt n \<le> now' + territoryTagMaxTTL) ts"
    using ok le by (fastforce simp: territory_ok_def list_all_iff)
  ultimately show ?thesis using ok unfolding territory_ok_def by (meson order_trans)
qed

lemma insert_tag_caps:
  assumes "InsertTag s i t d = Inr (d', tid)" and "tag_caps (s_caseFold s) (db_tags d)"
  shows "tag_caps (s_caseFold s) (db_tags d') \<and> host_exists s t d \<and>
    length (nt_Text t) \<le> 4096 \<and> db_locks d' = db_locks d"
proof -
  let ?f = "s_caseFold s"
  let ?g = "\<lparr>tag_ID = tid, tag_TargetCanonical = nt_TargetCanonical t,
     tag_LockOwnerUUID = nt_LockOwnerUUID t, tag_LockCreatedAt = nt_LockCreatedAt t,
     tag_TaggerUUID = nt_TaggerUUID t, tag_Text = nt_Text t, tag_CreatedAt = io_now i,
     tag_AckedAt = None\<rparr>"
  have h: "length (nt_Text t) \<le> 4096" "host_exists s t d" "db_tags d' = db_tags d @ [?g]"
    "length (tags_on_host ?f (nt_TargetCanonical t) (nt_LockOwnerUUID t) (nt_LockCreatedAt t)
       (db_tags d)) < tagCap" "db_locks d' = db_locks d"
    using assms(1)
    by (simp_all add: InsertTag_def Let_def frame_simps tagTextMaxBytes_def split: if_splits)
      (auto simp: frame_simps)
  have "length (tags_on_host ?f p own c (db_tags d @ [?g])) \<le> tagCap" for p own c
    using h(4) assms(2) tags_on_host_norm [of ?f p "nt_TargetCanonical t" own c "db_tags d"]
    by (auto simp: tags_on_host_snoc tag_caps_def)
  then have "tag_caps ?f (db_tags d')" by (simp add: tag_caps_def h(3))
  with h show ?thesis by simp
qed

subsection \<open>Concrete inputs\<close>

definition ex_tag :: NewTag where
  "ex_tag = \<lparr>nt_TargetCanonical = ''d'', nt_LockOwnerUUID = ''bob'', nt_LockCreatedAt = 0,
     nt_TaggerUUID = ''cy'', nt_Text = ''why?''\<rparr>"

definition ex_tags :: "Tag list" where
  "ex_tags = map (\<lambda>(i, own). \<lparr>tag_ID = i, tag_TargetCanonical = ''d'', tag_LockOwnerUUID = own,
     tag_LockCreatedAt = 0, tag_TaggerUUID = ''cy'', tag_Text = [], tag_CreatedAt = 1,
     tag_AckedAt = None\<rparr>) [(''t-1'', ''bob''), (''t-2'', ''gone'')]"

definition ex_note :: NewTerritoryTag where
  "ex_note = \<lparr>ntt_PathPrefix = ''docs'', ntt_TaggerUUID = ''cy'', ntt_Text = ''read me'', ntt_ExpiresAt = 100\<rparr>"

subsection \<open>Properties\<close>

text \<open>A lock never carries more than five unread notes: \<open>InsertTag\<close> succeeds only on an
  existing host lock, and keeps the cap on every host under every spelling of its path.\<close>

theorem InsertTag_caps:
  assumes "InsertTag s i t d = Inr (d', tid)" and "tag_caps (s_caseFold s) (db_tags d)"
  shows "tag_caps (s_caseFold s) (db_tags d') \<and> host_exists s t d \<and>
    length (nt_Text t) \<le> 4096 \<and> db_locks d' = db_locks d"
  by (rule insert_tag_caps [OF assms])

theorem InsertTag_caps_witness:
  "case InsertTag ex_store (ex_io 10) ex_tag ex_db of
     Inl _ \<Rightarrow> False | Inr (d', tid) \<Rightarrow> tag_caps False (db_tags d') \<and> host_exists ex_store ex_tag ex_db"
proof -
  have "\<not> isl (InsertTag ex_store (ex_io 10) ex_tag ex_db)" by code_simp
  then obtain d' tid where e: "InsertTag ex_store (ex_io 10) ex_tag ex_db = Inr (d', tid)"
    by (cases "InsertTag ex_store (ex_io 10) ex_tag ex_db") auto
  have "tag_caps (s_caseFold ex_store) (db_tags ex_db)"
    by (simp add: tag_caps_def tags_on_host_def ex_db_def empty_db_def)
  from InsertTag_caps [OF e this] e show ?thesis by (simp add: ex_store_def)
qed

text \<open>Acknowledging is idempotent and addressed: with distinct ids, whatever \<open>Ack\<close> returns
  without error is a state in which acknowledging again changes nothing, and no tag of another
  holder changed.\<close>

theorem Ack_idempotent:
  assumes "Ack i tid own d = Inr d1" "distinct (map tag_ID (db_tags d))" "io_begin i'"
  shows "Ack i' tid own d1 = Inr d1 \<and>
    filter (\<lambda>g. tag_LockOwnerUUID g \<noteq> own) (db_tags d1) = filter (\<lambda>g. tag_LockOwnerUUID g \<noteq> own) (db_tags d)"
proof (cases "list_ex (ack_matches tid own) (db_tags d)")
  case True
  let ?ack = "\<lambda>g. if ack_matches tid own g then g\<lparr>tag_AckedAt := Some (io_now i)\<rparr> else g"
  have d1: "d1 = d\<lparr>db_tags := map ?ack (db_tags d)\<rparr>"
    using assms(1) True by (auto simp: Ack_def split: if_splits)
  obtain g where g: "g \<in> set (db_tags d)" "ack_matches tid own g"
    using True by (auto simp: list_ex_iff)
  have none: "\<not> list_ex (ack_matches tid own) (map ?ack gs)" for gs
    by (induction gs) (simp_all add: ack_matches_def)
  have own: "tag_LockOwnerUUID h = own" if "h \<in> set (db_tags d)" "tag_ID h = tid" for h
  proof -
    have "h = g" using that g assms(2) by (auto simp: ack_matches_def distinct_map dest: inj_onD)
    then show ?thesis using g by (simp add: ack_matches_def)
  qed
  have find: "case find (\<lambda>g. tag_ID g = tid) (map ?ack (db_tags d)) of
      None \<Rightarrow> True | Some h \<Rightarrow> tag_LockOwnerUUID h = own"
  proof (cases "find (\<lambda>g. tag_ID g = tid) (map ?ack (db_tags d))")
    case (Some h)
    then have "h \<in> set (map ?ack (db_tags d))" and tid: "tag_ID h = tid"
      using find_SomeD by fastforce+
    then obtain h0 where h0: "h0 \<in> set (db_tags d)" "h = ?ack h0" by auto
    with tid have "tag_ID h0 = tid" "tag_LockOwnerUUID h = tag_LockOwnerUUID h0" by (auto split: if_splits)
    with own [OF h0(1)] Some show ?thesis by simp
  qed simp
  have "filter (\<lambda>g. tag_LockOwnerUUID g \<noteq> own) (map ?ack gs) = filter (\<lambda>g. tag_LockOwnerUUID g \<noteq> own) gs" for gs
    by (induction gs) (auto simp: ack_matches_def)
  with none find assms(3) show ?thesis
    by (auto simp: d1 Ack_def split: option.splits)
next
  case False
  with assms(1) have "d1 = d" by (auto simp: Ack_def split: option.splits if_splits)
  with assms False show ?thesis by (auto simp: Ack_def split: option.splits if_splits)
qed

theorem Ack_idempotent_witness:
  "case Ack (ex_io 10) ''t-1'' ''bob'' (ex_db\<lparr>db_tags := ex_tags\<rparr>) of
     Inl _ \<Rightarrow> False | Inr d1 \<Rightarrow> Ack (ex_io 20) ''t-1'' ''bob'' d1 = Inr d1"
proof -
  have "\<not> isl (Ack (ex_io 10) ''t-1'' ''bob'' (ex_db\<lparr>db_tags := ex_tags\<rparr>))" by code_simp
  then obtain d1 where e: "Ack (ex_io 10) ''t-1'' ''bob'' (ex_db\<lparr>db_tags := ex_tags\<rparr>) = Inr d1"
    by (cases "Ack (ex_io 10) ''t-1'' ''bob'' (ex_db\<lparr>db_tags := ex_tags\<rparr>)") auto
  show ?thesis using Ack_idempotent [OF e, of "ex_io 20"] e by (simp add: ex_tags_def ex_io_def)
qed

text \<open>The anti-accumulation guarantee of territory notes: at every instant from the insert on,
  at most five live notes per prefix and fifty in the repository, none of them expiring later than
  a month on.\<close>

theorem InsertTerritoryTag_ok:
  assumes "InsertTerritoryTag s i n d = Inr (d', tid)"
    and "territory_ok (s_caseFold s) t0 (db_territory_tags d)" "t0 \<le> io_now i" "io_now i \<le> t1"
  shows "territory_ok (s_caseFold s) t1 (db_territory_tags d')"
proof -
  let ?f = "s_caseFold s"
  let ?n = "\<lparr>tt_ID = tid, tt_PathPrefix = ntt_PathPrefix n, tt_TaggerUUID = ntt_TaggerUUID n,
      tt_Text = ntt_Text n, tt_CreatedAt = io_now i, tt_ExpiresAt = ntt_ExpiresAt n,
      tt_AckedAt = None, tt_AckedByUUID = []\<rparr>"
  have h: "db_territory_tags d' = db_territory_tags d @ [?n]"
    "ntt_ExpiresAt n \<le> io_now i + territoryTagMaxTTL"
    "length (live_at_prefix ?f (ntt_PathPrefix n) (io_now i) (db_territory_tags d)) < territoryTagPrefixCap"
    "length (live_repo_wide (io_now i) (db_territory_tags d)) < territoryTagRepoCap"
    using assms(1)
    by (auto simp: InsertTerritoryTag_def Let_def newID_def split: if_splits)
  have now: "territory_ok ?f (io_now i) (db_territory_tags d)"
    by (rule territory_ok_later [OF assms(2,3)])
  have snoc: "length (live_at_prefix ?f p (io_now i) (db_territory_tags d @ [?n])) \<le>
      (if key_norm ?f (ntt_PathPrefix n) = key_norm ?f p
       then Suc (length (live_at_prefix ?f p (io_now i) (db_territory_tags d)))
       else length (live_at_prefix ?f p (io_now i) (db_territory_tags d)))" for p
    by (simp add: live_at_prefix_def)
  have "length (live_at_prefix ?f p (io_now i) (db_territory_tags d @ [?n])) \<le> territoryTagPrefixCap" for p
  proof (cases "key_norm ?f (ntt_PathPrefix n) = key_norm ?f p")
    case True
    then have eq: "live_at_prefix ?f (ntt_PathPrefix n) (io_now i) (db_territory_tags d) =
        live_at_prefix ?f p (io_now i) (db_territory_tags d)"
      by (simp add: live_at_prefix_def)
    show ?thesis using h(3) snoc [of p, unfolded if_P [OF True]] unfolding eq by linarith
  next
    case False
    have "length (live_at_prefix ?f p (io_now i) (db_territory_tags d)) \<le> territoryTagPrefixCap"
      using now by (simp add: territory_ok_def)
    with snoc [of p, unfolded if_not_P [OF False]] show ?thesis by linarith
  qed
  moreover have "length (live_repo_wide (io_now i) (db_territory_tags d @ [?n])) \<le> territoryTagRepoCap"
    using h(4) by (simp add: live_repo_wide_def)
  moreover have "list_all (\<lambda>n. tt_ExpiresAt n \<le> io_now i + territoryTagMaxTTL) (db_territory_tags d @ [?n])"
    using now h(2) by (simp add: territory_ok_def)
  ultimately have "territory_ok ?f (io_now i) (db_territory_tags d')"
    unfolding territory_ok_def h(1) by blast
  then show ?thesis by (rule territory_ok_later [OF _ assms(4)])
qed

theorem InsertTerritoryTag_ok_witness:
  "case InsertTerritoryTag ex_store (ex_io 10) ex_note ex_db of
     Inl _ \<Rightarrow> False | Inr (d', tid) \<Rightarrow> territory_ok False 50 (db_territory_tags d')"
proof -
  have "\<not> isl (InsertTerritoryTag ex_store (ex_io 10) ex_note ex_db)" by code_simp
  then obtain d' tid where e: "InsertTerritoryTag ex_store (ex_io 10) ex_note ex_db = Inr (d', tid)"
    by (cases "InsertTerritoryTag ex_store (ex_io 10) ex_note ex_db") auto
  have "territory_ok (s_caseFold ex_store) 0 (db_territory_tags ex_db)"
    by (simp add: territory_ok_def live_at_prefix_def live_repo_wide_def ex_db_def empty_db_def)
  from InsertTerritoryTag_ok [OF e this, of 50] e show ?thesis by (simp add: ex_store_def ex_io_def)
qed

text \<open>The sweeps are safe and complete: the territory sweep keeps every live note and leaves no
  expired one; the tag sweep keeps every unread tag whose host lock stands and leaves no orphan.\<close>

theorem gc_sweeps_exact:
  "(n \<in> set (db_territory_tags d) \<and> tt_Live n now \<longrightarrow> n \<in> set (db_territory_tags (gcTerritoryTagsTx now d))) \<and>
   (n \<in> set (db_territory_tags (gcTerritoryTagsTx now d)) \<longrightarrow> \<not> tt_Expired n now) \<and>
   (g \<in> set (db_tags d) \<and> tag_AckedAt g = None \<and> list_ex (host_of False g) (db_locks d) \<longrightarrow>
      g \<in> set (db_tags (gcTagsTx now d))) \<and>
   (g \<in> set (db_tags (gcTagsTx now d)) \<longrightarrow> list_ex (host_of False g) (db_locks d))"
  by (auto simp: gcTerritoryTagsTx_def gcTagsTx_def tt_Live_def tt_Expired_def split: option.splits)

theorem gc_sweeps_exact_witness:
  "hd ex_tags \<in> set (db_tags (gcTagsTx 10 (ex_db\<lparr>db_tags := ex_tags\<rparr>)))"
proof -
  have "list_ex (host_of False (hd ex_tags)) (db_locks (ex_db\<lparr>db_tags := ex_tags\<rparr>))" by code_simp
  then show ?thesis
    using gc_sweeps_exact [where g = "hd ex_tags" and d = "ex_db\<lparr>db_tags := ex_tags\<rparr>" and now = 10]
    by (simp add: ex_tags_def)
qed

text \<open>The doc comment of \<open>Ack\<close> says an orphaned id is a no-op; the \<open>UPDATE\<close> reads no lock row, so
  the orphan is acknowledged.\<close>

theorem Ack_orphan_is_written:
  "case Ack (ex_io 10) ''t-2'' ''gone'' (ex_db\<lparr>db_tags := ex_tags\<rparr>) of
     Inl _ \<Rightarrow> False
   | Inr d1 \<Rightarrow> \<not> list_ex (host_of False (ex_tags ! 1)) (db_locks d1) \<and> tag_AckedAt (db_tags d1 ! 1) = Some 10"
  by code_simp

end
