(* ===== verification/Acquire.thy ===== *)
theory Acquire
  imports LockTable
begin

text \<open>
  \<open>internal/store/locks_acquire.go\<close> with \<open>resolveEpoch\<close> and \<open>renewedRow\<close> of \<open>epoch.go\<close>:
  validation of the targets, the block on candidate claims, the reclaim of stale contenders and
  the collection of live ones, and the write of the granted rows with their epochs.
  The precondition the source documents on \<open>AcquireLocks\<close> (one owner per batch) is a hypothesis
  of the theorems that need it, never of the definitions.
\<close>

subsection \<open>Validation\<close>

definition filepath_join :: "string \<Rightarrow> string \<Rightarrow> string" where
  "filepath_join a b = path_clean (if b = [] then a else a @ ''/'' @ b)"

definition validateFileTarget :: "io \<Rightarrow> string \<Rightarrow> LockRecord \<Rightarrow> store_error option" where
  "validateFileTarget i repoTop l =
     (let p = Canonical (l_Target l);
          probe = (if repoTop \<noteq> [] \<and> \<not> has_prefix p ''/'' then filepath_join repoTop p else p)
      in case io_lstat i probe of
           LstatNotExist \<Rightarrow> if l_MayCreate l then None else Some (ErrLstat p)
         | LstatError \<Rightarrow> Some (ErrLstat p)
         | LstatOk symlink regular nlink \<Rightarrow>
             if symlink then Some (TargetValidationError p ReasonSymlink 0)
             else if \<not> regular then Some (TargetValidationError p ReasonNotRegular 0)
             else if nlink > 1 then Some (TargetValidationError p ReasonMultiLinked nlink)
             else None)"

fun validateAllFileTargets :: "io \<Rightarrow> string \<Rightarrow> LockRecord list \<Rightarrow> store_error option" where
  "validateAllFileTargets i repoTop [] = None"
| "validateAllFileTargets i repoTop (l # ls) =
     (if l_Directory l then validateAllFileTargets i repoTop ls
      else case validateFileTarget i repoTop l of
             Some er \<Rightarrow> Some er
           | None \<Rightarrow> validateAllFileTargets i repoTop ls)"

definition sortedByCanonical :: "LockRecord list \<Rightarrow> LockRecord list" where
  "sortedByCanonical recs = sort_key (\<lambda>l. Canonical (l_Target l)) recs"

subsection \<open>Candidate claims\<close>

definition candidateClaimsForPathsTx :: "string list \<Rightarrow> db \<Rightarrow> CandidateClaim list" where
  "candidateClaimsForPathsTx paths d =
     (if paths = [] then []
      else map scanCandidateClaim
             (filter (\<lambda>r. cr_path_canonical r \<in> set paths) (db_candidate_claims d)))"

definition blockOnCandidateClaims :: "LockRecord list \<Rightarrow> db \<Rightarrow> store_error option" where
  "blockOnCandidateClaims batch d =
     (let claims = candidateClaimsForPathsTx (map (\<lambda>l. Canonical (l_Target l)) batch) d
      in if claims = [] then None
         else Some (CandidateClaimConflictError
                (sort_key (\<lambda>c. (cc_PathCanonical c, cc_CandidateID c)) claims)))"

subsection \<open>Reclaiming and blocking\<close>

fun reclaimStaleAndCollectBlockers ::
  "store \<Rightarrow> LockRecord list \<Rightarrow> LockRecord \<Rightarrow> EvalContext \<Rightarrow> db \<Rightarrow> LockRecord list \<times> db" where
  "reclaimStaleAndCollectBlockers s [] l ec d = ([], d)"
| "reclaimStaleAndCollectBlockers s (ex # all) l ec d =
     (if \<not> PrefixCovers ec (Canonical (l_Target ex)) (Canonical (l_Target l)) \<or>
         l_OwnerUUID ex = l_OwnerUUID l \<or> \<not> SameWorktree (l_Worktree l) (l_Worktree ex)
      then reclaimStaleAndCollectBlockers s all l ec d
      else if IsStale ec ex
      then reclaimStaleAndCollectBlockers s all l ec (reclaimStaleTx s ex (l_OwnerUUID l) (Now ec) d)
      else if Conflicts ec l ex
      then (let r = reclaimStaleAndCollectBlockers s all l ec d in (ex # fst r, snd r))
      else reclaimStaleAndCollectBlockers s all l ec d)"

definition blocker_key :: "LockRecord \<Rightarrow> string" where
  "blocker_key l = l_OwnerUUID l @ ''|'' @ Canonical (l_Target l)"

fun add_unseen :: "string list \<Rightarrow> LockRecord list \<Rightarrow> LockRecord list \<Rightarrow> string list \<times> LockRecord list"
where
  "add_unseen seen acc [] = (seen, acc)"
| "add_unseen seen acc (b # bs) =
     (if blocker_key b \<in> set seen then add_unseen seen acc bs
      else add_unseen (blocker_key b # seen) (acc @ [b]) bs)"

fun collect_loop ::
  "store \<Rightarrow> LockRecord list \<Rightarrow> LockRecord list \<Rightarrow> EvalContext \<Rightarrow> string list \<Rightarrow> LockRecord list \<Rightarrow> db \<Rightarrow>
     LockRecord list \<times> db" where
  "collect_loop s all [] ec seen acc d = (acc, d)"
| "collect_loop s all (l # ls) ec seen acc d =
     (let r = reclaimStaleAndCollectBlockers s all l ec d;
          sa = add_unseen seen acc (fst r)
      in collect_loop s all ls ec (fst sa) (snd sa) (snd r))"

definition collectAllBlockers ::
  "store \<Rightarrow> LockRecord list \<Rightarrow> LockRecord list \<Rightarrow> EvalContext \<Rightarrow> db \<Rightarrow> LockRecord list \<times> db" where
  "collectAllBlockers s all batch ec d =
     (let r = collect_loop s all batch ec [] [] d
      in (sort_key (\<lambda>l. (l_CreatedAt l, Canonical (l_Target l))) (fst r), snd r))"

subsection \<open>Epochs\<close>

fun renewed_loop ::
  "LockRecord \<Rightarrow> EvalContext \<Rightarrow> LockRecord option \<Rightarrow> LockRecord list \<Rightarrow> LockRecord option" where
  "renewed_loop l ec legacy [] = (if l_Worktree l = [] then None else legacy)"
| "renewed_loop l ec legacy (ex # all) =
     (if l_OwnerUUID ex \<noteq> l_OwnerUUID l \<or> \<not> SameTarget ec (l_Target ex) (l_Target l)
      then renewed_loop l ec legacy all
      else if l_Worktree ex = l_Worktree l then Some ex
      else if l_Worktree ex = [] \<and> legacy = None then renewed_loop l ec (Some ex) all
      else renewed_loop l ec legacy all)"

definition renewedRow :: "LockRecord \<Rightarrow> LockRecord list \<Rightarrow> EvalContext \<Rightarrow> LockRecord option" where
  "renewedRow l all ec = renewed_loop l ec None all"

definition resolveEpoch ::
  "LockRecord \<Rightarrow> LockRecord list \<Rightarrow> EvalContext \<Rightarrow> (string \<Rightarrow> int option) \<Rightarrow> int \<times> (string \<Rightarrow> int option)"
where
  "resolveEpoch l all ec m =
     (case renewedRow l all ec of
        Some ex \<Rightarrow> if \<not> IsStale ec ex then (l_Epoch ex, m)
                   else nextPathEpoch m (Canonical (l_Target l))
      | None \<Rightarrow> nextPathEpoch m (Canonical (l_Target l)))"

subsection \<open>Granting\<close>

text \<open>The write loop of \<open>insertAllLocks\<close>; the events are appended after it.\<close>

fun insert_loop ::
  "LockRecord list \<Rightarrow> EvalContext \<Rightarrow> LockRecord list \<Rightarrow> db \<Rightarrow> LockRecord list \<times> db" where
  "insert_loop all ec [] d = ([], d)"
| "insert_loop all ec (l # ls) d =
     (let en = resolveEpoch l all ec (db_path_epochs d);
          l' = l\<lparr>l_Epoch := fst en\<rparr>;
          d1 = d\<lparr>db_path_epochs := snd en\<rparr>;
          d2 = d1\<lparr>db_locks := insertOrRefreshLock (CaseFold ec) l' (fst en) (db_locks d1)\<rparr>;
          r = insert_loop all ec ls d2
      in (l' # fst r, snd r))"

definition acquired_event :: "EvalContext \<Rightarrow> LockRecord \<Rightarrow> Event" where
  "acquired_event ec l =
     \<lparr>e_ID = [], e_Target = l_Target l, e_Kind = EventLockAcquired, e_ActorUUID = l_OwnerUUID l,
      e_SubjectUUID = [], e_Reason = l_Intent l, e_Detail = [], e_CreatedAt = Now ec\<rparr>"

definition insertAllLocks ::
  "store \<Rightarrow> LockRecord list \<Rightarrow> LockRecord list \<Rightarrow> EvalContext \<Rightarrow> db \<Rightarrow> LockRecord list \<times> db" where
  "insertAllLocks s batch all ec d =
     (let r = insert_loop all ec batch d
      in (fst r, snd (appendEventsTx s (map (acquired_event ec) (fst r)) (snd r))))"

definition AcquireLocks ::
  "store \<Rightarrow> io \<Rightarrow> LockRecord list \<Rightarrow> db \<Rightarrow> store_error + db \<times> LockRecord list" where
  "AcquireLocks s i recs d =
     (if recs = [] then Inr (d, [])
      else let batch = sortedByCanonical recs; ec = eval_ctx s i in
      if \<not> io_flock i then Inl ErrFlock
      else case validateAllFileTargets i (s_repoTop s) batch of
        Some er \<Rightarrow> Inl er
      | None \<Rightarrow>
          if \<not> io_begin i then Inl ErrBegin
          else let all = loadLocksTx d in
          case blockOnCandidateClaims batch d of
            Some er \<Rightarrow> Inl er
          | None \<Rightarrow>
              let cb = collectAllBlockers s all batch ec d in
              if fst cb \<noteq> [] then Inl (MultiConflictError (fst cb))
              else let r = insertAllLocks s batch all ec (snd cb) in
                if \<not> io_commit i then Inl ErrCommit
                else Inr (rotateEventsTx (io_now i) (snd r), fst r))"

subsection \<open>Reclaiming: what is left of the table\<close>

text \<open>A row contends with a request when the part of the conflict rule without the clock holds.\<close>

lemma reclaim_frame [frame_simps]:
  "db_path_epochs (snd (reclaimStaleAndCollectBlockers s all l ec d)) = db_path_epochs d"
  "db_tags (snd (reclaimStaleAndCollectBlockers s all l ec d)) = db_tags d"
  "db_territory_tags (snd (reclaimStaleAndCollectBlockers s all l ec d)) = db_territory_tags d"
  "db_candidate_claims (snd (reclaimStaleAndCollectBlockers s all l ec d)) = db_candidate_claims d"
  "db_violations (snd (reclaimStaleAndCollectBlockers s all l ec d)) = db_violations d"
  "db_hook_calls (snd (reclaimStaleAndCollectBlockers s all l ec d)) = db_hook_calls d"
  by (induction s all l ec d rule: reclaimStaleAndCollectBlockers.induct)
    (simp_all add: Let_def frame_simps)

lemma reclaim_locks_filter:
  "\<exists>P. db_locks (snd (reclaimStaleAndCollectBlockers s all l ec d)) = filter P (db_locks d)"
proof (induction s all l ec d rule: reclaimStaleAndCollectBlockers.induct)
  case (1 s l ec d)
  have "db_locks d = filter (\<lambda>_. True) (db_locks d)" by simp
  then show ?case by (metis reclaimStaleAndCollectBlockers.simps(1) snd_conv)
next
  case (2 s ex all l ec d)
  then show ?case
    by (auto simp: Let_def delete_lock_row_def filter_filter)
qed

lemma contends_unfold:
  "contends (CaseFold ec) (lock_key_of l) (lock_key_of ex) \<longleftrightarrow>
     PrefixCovers ec (Canonical (l_Target ex)) (Canonical (l_Target l)) \<and>
     l_OwnerUUID ex \<noteq> l_OwnerUUID l \<and> SameWorktree (l_Worktree l) (l_Worktree ex)"
  by (auto simp: lock_key_of_def PrefixCovers_fold_ctx PrefixCovers_sym [of ec])

lemma live_contender_conflicts:
  "contends (CaseFold ec) (lock_key_of l) (lock_key_of ex) \<Longrightarrow> \<not> IsStale ec ex \<Longrightarrow> Conflicts ec l ex"
  by (auto simp: contends_unfold Conflicts_def Refuses_def Covers_def LockHold_def Let_def)

text \<open>The scan is exact: the blockers are the live contenders, in table order, and the rows it
  deletes are those whose key a stale contender has.\<close>

lemma reclaim_exact:
  "fst (reclaimStaleAndCollectBlockers s all l ec d) =
     filter (\<lambda>ex. contends (CaseFold ec) (lock_key_of l) (lock_key_of ex) \<and> \<not> IsStale ec ex) all"
  "db_locks (snd (reclaimStaleAndCollectBlockers s all l ec d)) =
     filter (\<lambda>r. \<not> (\<exists>ex \<in> set all. contends (CaseFold ec) (lock_key_of l) (lock_key_of ex) \<and>
                      IsStale ec ex \<and> lock_key_of ex = lock_pk r)) (db_locks d)"
proof (induction s all l ec d rule: reclaimStaleAndCollectBlockers.induct)
  case (1 s l ec d)
  {
    case 1
    then show ?case by simp
  next
    case 2
    then show ?case by simp
  }
next
  case (2 s ex all l ec d)
  have cont: "(\<not> PrefixCovers ec (Canonical (l_Target ex)) (Canonical (l_Target l)) \<or>
         l_OwnerUUID ex = l_OwnerUUID l \<or> \<not> SameWorktree (l_Worktree l) (l_Worktree ex)) \<longleftrightarrow>
      \<not> contends (CaseFold ec) (lock_key_of l) (lock_key_of ex)"
    by (auto simp: contends_unfold)
  note step = reclaimStaleAndCollectBlockers.simps(2) [of s ex all l ec d, unfolded cont]
  {
    case 1
    show ?case
      using 2 [unfolded cont] live_contender_conflicts [of ec l ex]
      unfolding step by (cases "IsStale ec ex") (auto simp: Let_def)
  next
    case 2
    show ?case
      using "2.IH" [unfolded cont] live_contender_conflicts [of ec l ex]
      unfolding step by (cases "IsStale ec ex") (auto simp: Let_def delete_lock_row_def filter_filter intro!: filter_cong)
  }
qed

lemma add_unseen_facts:
  "set acc \<subseteq> set (snd (add_unseen seen acc bs))"
  "set (fst (add_unseen seen acc bs)) = set seen \<union> blocker_key ` set bs"
  "set (snd (add_unseen seen acc bs)) \<subseteq> set acc \<union> set bs"
  "set seen = blocker_key ` set acc \<Longrightarrow>
     blocker_key ` set (snd (add_unseen seen acc bs)) = blocker_key ` (set acc \<union> set bs)"
proof -
  have "set acc \<subseteq> set (snd (add_unseen seen acc bs)) \<and>
    set (fst (add_unseen seen acc bs)) = set seen \<union> blocker_key ` set bs \<and>
    set (snd (add_unseen seen acc bs)) \<subseteq> set acc \<union> set bs \<and>
    (set seen = blocker_key ` set acc \<longrightarrow>
     blocker_key ` set (snd (add_unseen seen acc bs)) = blocker_key ` (set acc \<union> set bs))"
    by (induction seen acc bs rule: add_unseen.induct) auto
  then show "set acc \<subseteq> set (snd (add_unseen seen acc bs))"
    "set (fst (add_unseen seen acc bs)) = set seen \<union> blocker_key ` set bs"
    "set (snd (add_unseen seen acc bs)) \<subseteq> set acc \<union> set bs"
    "set seen = blocker_key ` set acc \<Longrightarrow>
     blocker_key ` set (snd (add_unseen seen acc bs)) = blocker_key ` (set acc \<union> set bs)"
    by auto
qed

text \<open>The rows of the snapshot a request is refused for, and the keys it reclaims.\<close>

definition live_contenders :: "EvalContext \<Rightarrow> LockRecord list \<Rightarrow> LockRecord list \<Rightarrow> LockRecord set" where
  "live_contenders ec batch all =
     {ex \<in> set all. \<not> IsStale ec ex \<and> (\<exists>l \<in> set batch. contends (CaseFold ec) (lock_key_of l) (lock_key_of ex))}"

definition stale_contender_keys :: "EvalContext \<Rightarrow> LockRecord list \<Rightarrow> LockRecord list \<Rightarrow> lock_key set" where
  "stale_contender_keys ec batch all =
     lock_key_of ` {ex \<in> set all. IsStale ec ex \<and>
       (\<exists>l \<in> set batch. contends (CaseFold ec) (lock_key_of l) (lock_key_of ex))}"

lemma mem_stale_contender_keys:
  "k \<in> stale_contender_keys ec batch all \<longleftrightarrow>
     (\<exists>ex \<in> set all. IsStale ec ex \<and> lock_key_of ex = k \<and>
        (\<exists>l \<in> set batch. contends (CaseFold ec) (lock_key_of l) k))"
  by (auto simp: stale_contender_keys_def)

lemma collect_loop_frame [frame_simps]:
  "db_path_epochs (snd (collect_loop s all batch ec seen acc d)) = db_path_epochs d"
  "db_tags (snd (collect_loop s all batch ec seen acc d)) = db_tags d"
  "db_territory_tags (snd (collect_loop s all batch ec seen acc d)) = db_territory_tags d"
  "db_candidate_claims (snd (collect_loop s all batch ec seen acc d)) = db_candidate_claims d"
  "db_violations (snd (collect_loop s all batch ec seen acc d)) = db_violations d"
  "db_hook_calls (snd (collect_loop s all batch ec seen acc d)) = db_hook_calls d"
  by (induction s all batch ec seen acc d rule: collect_loop.induct)
    (simp_all add: Let_def frame_simps)

lemma collect_loop_locks:
  "db_locks (snd (collect_loop s all batch ec seen acc d)) =
     filter (\<lambda>r. lock_pk r \<notin> stale_contender_keys ec batch all) (db_locks d)"
proof (induction s all batch ec seen acc d rule: collect_loop.induct)
  case (1 s all ec seen acc d)
  then show ?case by (simp add: mem_stale_contender_keys)
next
  case (2 s all l ls ec seen acc d)
  have "(\<not> (\<exists>ex \<in> set all. contends (CaseFold ec) (lock_key_of l) (lock_key_of ex) \<and>
          IsStale ec ex \<and> lock_key_of ex = lock_pk r) \<and> lock_pk r \<notin> stale_contender_keys ec ls all) \<longleftrightarrow>
        lock_pk r \<notin> stale_contender_keys ec (l # ls) all" for r
    by (auto simp: mem_stale_contender_keys)
  with 2 show ?case by (simp add: Let_def reclaim_exact filter_filter)
qed

lemma collect_loop_blockers:
  "set seen = blocker_key ` set acc \<Longrightarrow>
   set acc \<subseteq> set (fst (collect_loop s all batch ec seen acc d)) \<and>
   set (fst (collect_loop s all batch ec seen acc d)) \<subseteq> set acc \<union> live_contenders ec batch all \<and>
   blocker_key ` set (fst (collect_loop s all batch ec seen acc d)) =
     blocker_key ` (set acc \<union> live_contenders ec batch all)"
proof (induction s all batch ec seen acc d rule: collect_loop.induct)
  case (1 s all ec seen acc d)
  then show ?case by (simp add: live_contenders_def)
next
  case (2 s all l ls ec seen acc d)
  define bs where "bs = fst (reclaimStaleAndCollectBlockers s all l ec d)"
  define sa where "sa = add_unseen seen acc bs"
  have bs: "set bs = live_contenders ec [l] all"
    by (auto simp: bs_def reclaim_exact live_contenders_def)
  have un: "live_contenders ec (l # ls) all = live_contenders ec [l] all \<union> live_contenders ec ls all"
    by (auto simp: live_contenders_def)
  note au = add_unseen_facts [where seen = seen and acc = acc and bs = bs, folded sa_def]
  have "set (fst sa) = blocker_key ` set (snd sa)"
    using au(2) au(4) [OF "2.prems"] "2.prems" by (auto simp: image_Un)
  from "2.IH" [OF refl, folded bs_def, OF sa_def this] au(1,3) au(4) [OF "2.prems"]
  show ?case
    unfolding un bs [symmetric] by (simp add: Let_def bs_def [symmetric] sa_def [symmetric] image_Un) blast
qed

lemma collectAllBlockers_exact:
  "set (fst (collectAllBlockers s all batch ec d)) \<subseteq> live_contenders ec batch all"
  "blocker_key ` set (fst (collectAllBlockers s all batch ec d)) = blocker_key ` live_contenders ec batch all"
  "fst (collectAllBlockers s all batch ec d) = [] \<longleftrightarrow> live_contenders ec batch all = {}"
proof -
  note c = collect_loop_blockers [of "[]" "[]" s all batch ec d, simplified]
  then show "set (fst (collectAllBlockers s all batch ec d)) \<subseteq> live_contenders ec batch all"
    and "blocker_key ` set (fst (collectAllBlockers s all batch ec d)) = blocker_key ` live_contenders ec batch all"
    by (simp_all add: collectAllBlockers_def Let_def)
  have "fst (collectAllBlockers s all batch ec d) = [] \<longleftrightarrow>
      blocker_key ` set (fst (collect_loop s all batch ec [] [] d)) = {}"
    by (simp add: collectAllBlockers_def Let_def)
  with c show "fst (collectAllBlockers s all batch ec d) = [] \<longleftrightarrow> live_contenders ec batch all = {}"
    by simp
qed

lemma collectAllBlockers_locks [simp]:
  "db_locks (snd (collectAllBlockers s all batch ec d)) =
     filter (\<lambda>r. lock_pk r \<notin> stale_contender_keys ec batch all) (db_locks d)"
  by (simp add: collectAllBlockers_def Let_def collect_loop_locks)

lemma collectAllBlockers_frame [frame_simps]:
  "db_path_epochs (snd (collectAllBlockers s all batch ec d)) = db_path_epochs d"
  "db_tags (snd (collectAllBlockers s all batch ec d)) = db_tags d"
  "db_territory_tags (snd (collectAllBlockers s all batch ec d)) = db_territory_tags d"
  "db_candidate_claims (snd (collectAllBlockers s all batch ec d)) = db_candidate_claims d"
  "db_violations (snd (collectAllBlockers s all batch ec d)) = db_violations d"
  "db_hook_calls (snd (collectAllBlockers s all batch ec d)) = db_hook_calls d"
  by (simp_all add: collectAllBlockers_def Let_def frame_simps)

subsection \<open>Granting: what the writes leave\<close>

lemma lock_key_of_epoch [simp]: "lock_key_of (l\<lparr>l_Epoch := e\<rparr>) = lock_key_of l"
  by (simp add: lock_key_of_def)

lemma insert_loop_frame [frame_simps]:
  "db_events (snd (insert_loop all ec ls d)) = db_events d"
  "db_tags (snd (insert_loop all ec ls d)) = db_tags d"
  "db_territory_tags (snd (insert_loop all ec ls d)) = db_territory_tags d"
  "db_candidate_claims (snd (insert_loop all ec ls d)) = db_candidate_claims d"
  "db_violations (snd (insert_loop all ec ls d)) = db_violations d"
  "db_hook_calls (snd (insert_loop all ec ls d)) = db_hook_calls d"
  by (induction all ec ls d rule: insert_loop.induct) (simp_all add: Let_def)

lemma insert_loop_keys:
  "lock_keys (db_locks (snd (insert_loop all ec ls d))) \<subseteq>
     lock_key_of ` set ls \<union> lock_keys (db_locks d)"
proof (induction all ec ls d rule: insert_loop.induct)
  case (1 all ec d)
  then show ?case by simp
next
  case (2 all ec l ls d)
  then show ?case
    using lock_keys_insertOrRefresh by (fastforce simp: Let_def)
qed

lemma insert_loop_pk_unique [table_intros]:
  "pk_unique (db_locks d) \<Longrightarrow> pk_unique (db_locks (snd (insert_loop all ec ls d)))"
  by (induction all ec ls d rule: insert_loop.induct)
    (simp_all add: Let_def pk_unique_insertOrRefresh)

lemma insert_loop_same:
  "map (\<lambda>l. l\<lparr>l_Epoch := 0\<rparr>) (fst (insert_loop all ec ls d)) = map (\<lambda>l. l\<lparr>l_Epoch := 0\<rparr>) ls"
  by (induction all ec ls d rule: insert_loop.induct) (simp_all add: Let_def)

lemma insert_loop_map_keys: "map lock_key_of (fst (insert_loop all ec ls d)) = map lock_key_of ls"
  by (induction all ec ls d rule: insert_loop.induct) (simp_all add: Let_def)

subsection \<open>The whole operation\<close>

lemma blockOnCandidateClaims_None:
  "blockOnCandidateClaims batch d = None \<longleftrightarrow>
     (\<forall>l \<in> set batch. \<forall>r \<in> set (db_candidate_claims d). cr_path_canonical r \<noteq> Canonical (l_Target l))"
  by (auto simp: blockOnCandidateClaims_def candidateClaimsForPathsTx_def Let_def filter_empty_conv)

lemma sortedByCanonical_set [simp]: "set (sortedByCanonical recs) = set recs"
  by (simp add: sortedByCanonical_def)

lemma sortedByCanonical_Nil [simp]: "sortedByCanonical recs = [] \<longleftrightarrow> recs = []"
  by (simp add: sortedByCanonical_def)

text \<open>What a successful acquire of a non-empty batch has been through.\<close>

lemma AcquireLocks_Inr:
  assumes "AcquireLocks s i recs d = Inr (d', out)" "recs \<noteq> []"
  defines "ec \<equiv> eval_ctx s i" and "batch \<equiv> sortedByCanonical recs"
  shows "io_flock i" "io_begin i" "io_commit i"
    "validateAllFileTargets i (s_repoTop s) batch = None"
    "blockOnCandidateClaims batch d = None"
    "live_contenders ec batch (loadLocksTx d) = {}"
    "out = fst (insert_loop (loadLocksTx d) ec batch
             (snd (collectAllBlockers s (loadLocksTx d) batch ec d)))"
    "db_locks d' = db_locks (snd (insert_loop (loadLocksTx d) ec batch
             (snd (collectAllBlockers s (loadLocksTx d) batch ec d))))"
    "db_path_epochs d' = db_path_epochs (snd (insert_loop (loadLocksTx d) ec batch
             (snd (collectAllBlockers s (loadLocksTx d) batch ec d))))"
    "db_tags d' = db_tags d" "db_territory_tags d' = db_territory_tags d"
    "db_candidate_claims d' = db_candidate_claims d"
    "db_violations d' = db_violations d" "db_hook_calls d' = db_hook_calls d"
proof -
  let ?cb = "collectAllBlockers s (loadLocksTx d) batch ec d"
  let ?r = "insertAllLocks s batch (loadLocksTx d) ec (snd ?cb)"
  have h: "io_flock i" "io_begin i" "io_commit i"
    "validateAllFileTargets i (s_repoTop s) batch = None"
    "blockOnCandidateClaims batch d = None" "fst ?cb = []"
    "d' = rotateEventsTx (io_now i) (snd ?r)" "out = fst ?r"
    using assms(1,2)
    by (auto simp: AcquireLocks_def Let_def ec_def batch_def split: option.splits if_splits)
  then show "io_flock i" "io_begin i" "io_commit i"
    "validateAllFileTargets i (s_repoTop s) batch = None"
    "blockOnCandidateClaims batch d = None"
    by simp_all
  show "live_contenders ec batch (loadLocksTx d) = {}"
    using h(6) collectAllBlockers_exact(3) by blast
  show "out = fst (insert_loop (loadLocksTx d) ec batch (snd ?cb))"
    "db_locks d' = db_locks (snd (insert_loop (loadLocksTx d) ec batch (snd ?cb)))"
    "db_path_epochs d' = db_path_epochs (snd (insert_loop (loadLocksTx d) ec batch (snd ?cb)))"
    "db_tags d' = db_tags d" "db_territory_tags d' = db_territory_tags d"
    "db_candidate_claims d' = db_candidate_claims d"
    "db_violations d' = db_violations d" "db_hook_calls d' = db_hook_calls d"
    unfolding h(7,8) by (simp_all add: insertAllLocks_def Let_def frame_simps)
qed

lemma AcquireLocks_Inr_keys:
  assumes "AcquireLocks s i recs d = Inr (d', out)" "recs \<noteq> []"
  shows "lock_keys (db_locks d') \<subseteq> lock_key_of ` set recs \<union>
    {k \<in> lock_keys (db_locks d). \<forall>n \<in> lock_key_of ` set recs. \<not> contends (s_caseFold s) n k}"
proof
  fix k assume "k \<in> lock_keys (db_locks d')"
  note a = AcquireLocks_Inr [OF assms]
  with \<open>k \<in> lock_keys (db_locks d')\<close> insert_loop_keys
  consider "k \<in> lock_key_of ` set recs"
    | "k \<in> lock_keys (db_locks (snd (collectAllBlockers s (loadLocksTx d) (sortedByCanonical recs) (eval_ctx s i) d)))"
    by (metis (no_types, lifting) Un_iff sortedByCanonical_set subsetD)
  then show "k \<in> lock_key_of ` set recs \<union>
    {k \<in> lock_keys (db_locks d). \<forall>n \<in> lock_key_of ` set recs. \<not> contends (s_caseFold s) n k}"
  proof cases
    case 1
    then show ?thesis by simp
  next
    case 2
    then obtain r where r: "r \<in> set (db_locks d)" "k = lock_pk r"
      "lock_pk r \<notin> stale_contender_keys (eval_ctx s i) (sortedByCanonical recs) (loadLocksTx d)"
      by (auto simp: lock_keys_def)
    have "\<not> contends (s_caseFold s) (lock_key_of l) k" if "l \<in> set recs" for l
    proof
      assume c: "contends (s_caseFold s) (lock_key_of l) k"
      let ?ex = "scanLock (db_hook_calls d) r"
      show False
      proof (cases "IsStale (eval_ctx s i) ?ex")
        case True
        with that c r(1,2) have "lock_key_of ?ex \<in>
            stale_contender_keys (eval_ctx s i) (sortedByCanonical recs) (loadLocksTx d)"
          unfolding stale_contender_keys_def by (intro imageI) auto
        with r(3) show False by simp
      next
        case False
        with that c r(1,2) have "?ex \<in> live_contenders (eval_ctx s i) (sortedByCanonical recs) (loadLocksTx d)"
          unfolding live_contenders_def by auto
        with a(6) show False by simp
      qed
    qed
    with r show ?thesis by (auto simp: lock_keys_def)
  qed
qed

subsection \<open>Rows through the writes\<close>

text \<open>A stored row carries a grant when it is the row of the record, its creation time apart.\<close>

definition row_grants :: "LockRecord \<Rightarrow> lock_row \<Rightarrow> bool" where
  "row_grants l r \<longleftrightarrow> r\<lparr>r_created_at := 0\<rparr> = (lock_row_of l (l_Epoch l))\<lparr>r_created_at := 0\<rparr>"

lemma row_grants_pk: "row_grants l r \<Longrightarrow> lock_pk r = lock_key_of l"
  unfolding row_grants_def by (metis lock_pk_created lock_pk_row_of)

lemma row_grants_worktree: "row_grants l r \<Longrightarrow> r_worktree r = l_Worktree l"
  using row_grants_pk by (simp add: lock_pk_def lock_key_of_def)

lemma adopt_rows_keeps:
  "r \<in> set (xs @ rs) \<Longrightarrow> r \<in> set xs \<or> r_worktree r \<noteq> [] \<Longrightarrow> r \<in> set (adopt_rows f l xs rs)"
proof (induction f l xs rs rule: adopt_rows.induct)
  case (1 f l xs)
  then show ?case by simp
next
  case (2 f l xs q rs)
  then show ?case by auto
qed

lemma adoptLegacy_keeps:
  "r \<in> set rows \<Longrightarrow> r_worktree r = l_Worktree l \<Longrightarrow> r \<in> set (adoptLegacyWorktreeRow f l rows)"
  by (auto simp: adoptLegacyWorktreeRow_def intro: adopt_rows_keeps)

lemma upsert_keeps: "r \<in> set rows \<Longrightarrow> lock_pk r \<noteq> lock_pk new \<Longrightarrow> r \<in> set (upsert_lock_row new rows)"
  by (auto simp: upsert_lock_row_def image_iff)

lemma upsert_new: "\<exists>r \<in> set (upsert_lock_row new rows). r\<lparr>r_created_at := 0\<rparr> = new\<lparr>r_created_at := 0\<rparr>"
proof (cases "lock_pk new \<in> lock_keys rows")
  case True
  then obtain r where "r \<in> set rows" "lock_pk r = lock_pk new" by (auto simp: lock_keys_def)
  then have "new\<lparr>r_created_at := r_created_at r\<rparr> \<in> set (upsert_lock_row new rows)"
    using True by (auto simp: upsert_lock_row_def image_iff)
  then show ?thesis by (rule bexI [rotated]) simp
next
  case False
  then show ?thesis by (simp add: upsert_lock_row_def)
qed

lemma insertOrRefresh_grants:
  "l_Epoch l = e \<Longrightarrow> \<exists>r \<in> set (insertOrRefreshLock f l e rows). row_grants l r"
  unfolding insertOrRefreshLock_def row_grants_def using upsert_new by blast

lemma insertOrRefresh_keeps:
  "r \<in> set rows \<Longrightarrow> r_worktree r = l_Worktree l \<Longrightarrow> lock_pk r \<noteq> lock_key_of l \<Longrightarrow>
   r \<in> set (insertOrRefreshLock f l e rows)"
  unfolding insertOrRefreshLock_def by (intro upsert_keeps adoptLegacy_keeps) simp_all

lemma insert_loop_keeps:
  "r \<in> set (db_locks d) \<Longrightarrow> \<forall>l \<in> set ls. r_worktree r = l_Worktree l \<and> lock_pk r \<noteq> lock_key_of l \<Longrightarrow>
   r \<in> set (db_locks (snd (insert_loop all ec ls d)))"
proof (induction all ec ls d rule: insert_loop.induct)
  case (1 all ec d)
  then show ?case by simp
next
  case (2 all ec l ls d)
  have "r \<in> set (insertOrRefreshLock f (l\<lparr>l_Epoch := e\<rparr>) e (db_locks d))" for f e
    by (rule insertOrRefresh_keeps) (use 2 in auto)
  with 2 show ?case by (simp add: Let_def)
qed

lemma insert_loop_grants:
  assumes "\<forall>l \<in> set ls. l_Worktree l = w" "distinct (map lock_key_of ls)"
  shows "\<forall>l \<in> set (fst (insert_loop all ec ls d)).
    \<exists>r \<in> set (db_locks (snd (insert_loop all ec ls d))). row_grants l r"
  using assms
proof (induction all ec ls d rule: insert_loop.induct)
  case (1 all ec d)
  then show ?case by simp
next
  case (2 all ec l ls d)
  define en where "en = resolveEpoch l all ec (db_path_epochs d)"
  define l' where "l' = l\<lparr>l_Epoch := fst en\<rparr>"
  define d2 where "d2 = d\<lparr>db_path_epochs := snd en,
      db_locks := insertOrRefreshLock (CaseFold ec) l' (fst en) (db_locks d)\<rparr>"
  have step: "insert_loop all ec (l # ls) d =
      (l' # fst (insert_loop all ec ls d2), snd (insert_loop all ec ls d2))"
    by (simp add: Let_def en_def l'_def d2_def)
  have IH: "\<forall>l \<in> set (fst (insert_loop all ec ls d2)).
      \<exists>r \<in> set (db_locks (snd (insert_loop all ec ls d2))). row_grants l r"
    using 2 by (simp add: en_def l'_def d2_def)
  obtain r where r: "r \<in> set (db_locks d2)" "row_grants l' r"
    using insertOrRefresh_grants [of l' "fst en" "CaseFold ec" "db_locks d"]
    by (auto simp: d2_def l'_def)
  have "r \<in> set (db_locks (snd (insert_loop all ec ls d2)))"
  proof (rule insert_loop_keeps [OF r(1)], rule ballI, rule conjI)
    fix x assume x: "x \<in> set ls"
    show "r_worktree r = l_Worktree x"
      using x 2(2) row_grants_worktree [OF r(2)] by (simp add: l'_def)
    show "lock_pk r \<noteq> lock_key_of x"
    proof -
      have "lock_key_of l \<notin> lock_key_of ` set ls" using 2(3) by simp
      moreover have "lock_pk r = lock_key_of l" using row_grants_pk [OF r(2)] by (simp add: l'_def)
      ultimately show ?thesis using x by (metis imageI)
    qed
  qed
  with IH r(2) show ?case unfolding step by auto
qed

subsection \<open>Epochs through the writes\<close>

lemma renewed_loop_Some:
  "renewed_loop l ec legacy all = Some ex \<Longrightarrow>
   Some ex = legacy \<or> ex \<in> set all \<and> l_OwnerUUID ex = l_OwnerUUID l \<and>
     SameTarget ec (l_Target ex) (l_Target l) \<and> (l_Worktree ex = l_Worktree l \<or> l_Worktree ex = [])"
  by (induction l ec legacy all rule: renewed_loop.induct) (auto split: if_splits)

lemma renewedRow_Some:
  "renewedRow l all ec = Some ex \<Longrightarrow>
   ex \<in> set all \<and> l_OwnerUUID ex = l_OwnerUUID l \<and>
     SameTarget ec (l_Target ex) (l_Target l) \<and> (l_Worktree ex = l_Worktree l \<or> l_Worktree ex = [])"
  unfolding renewedRow_def by (drule renewed_loop_Some) simp

lemma adopt_rows_exact_keys:
  "r' \<in> set (adopt_rows False l xs rs) \<Longrightarrow>
   \<exists>r \<in> set (xs @ rs). r_target_canonical r' = r_target_canonical r \<and> r_epoch r' = r_epoch r"
proof (induction False l xs rs rule: adopt_rows.induct)
  case (1 l xs)
  then show ?case by auto
next
  case (2 l xs q rs)
  let ?q = "q\<lparr>r_worktree := l_Worktree l, r_target_canonical := Canonical (l_Target l)\<rparr>"
  let ?c = "key_norm False (r_target_canonical q) = key_norm False (Canonical (l_Target l)) \<and>
      r_owner_uuid q = l_OwnerUUID l \<and> r_worktree q = [] \<and> lock_key_of l \<notin> lock_keys (xs @ rs)"
  show ?case
  proof (cases ?c)
    case True
    then have "r' \<in> set (adopt_rows False l (xs @ [?q]) rs)" using 2(3) by simp
    from 2(1) [OF True this] obtain r where
      "r \<in> set ((xs @ [?q]) @ rs)" "r_target_canonical r' = r_target_canonical r" "r_epoch r' = r_epoch r"
      by blast
    moreover have "r_target_canonical ?q = r_target_canonical q" using True by simp
    ultimately show ?thesis by (cases "r = ?q") auto
  next
    case False
    then have "r' \<in> set (adopt_rows False l (xs @ [q]) rs)"
      using 2(3) by (subst (asm) adopt_rows.simps(2)) (simp only: if_False)
    from 2(2) [OF False this] show ?thesis by simp
  qed
qed

lemma upsert_epochs:
  "r' \<in> set (upsert_lock_row new rows) \<Longrightarrow>
   r' \<in> set rows \<or> r_target_canonical r' = r_target_canonical new \<and> r_epoch r' = r_epoch new"
  by (auto simp: upsert_lock_row_def split: if_splits)

lemma insertOrRefresh_fenced:
  assumes "epoch_fenced rows m" "e \<le> path_epoch m (Canonical (l_Target l))"
  shows "epoch_fenced (insertOrRefreshLock False l e rows) m"
  unfolding epoch_fenced_def
proof
  fix r' assume "r' \<in> set (insertOrRefreshLock False l e rows)"
  then consider "r' \<in> set (adoptLegacyWorktreeRow False l rows)"
    | "r_target_canonical r' = Canonical (l_Target l)" "r_epoch r' = e"
    unfolding insertOrRefreshLock_def by (auto dest!: upsert_epochs simp: lock_row_of_def)
  then show "r_epoch r' \<le> path_epoch m (r_target_canonical r')"
  proof cases
    case 1
    then obtain r where "r \<in> set rows" "r_target_canonical r' = r_target_canonical r" "r_epoch r' = r_epoch r"
      using adopt_rows_exact_keys [of r' l "[]" rows]
      by (auto simp: adoptLegacyWorktreeRow_def split: if_splits)
    with assms(1) show ?thesis by (simp add: epoch_fenced_def)
  next
    case 2
    with assms(2) show ?thesis by simp
  qed
qed

text \<open>\<open>resolveEpoch\<close> either renews a live row's epoch or draws the counter; in both cases the
  counter of every path stays or grows, and covers what it returned.\<close>

lemma resolveEpoch_cases:
  assumes "\<not> CaseFold ec" "\<forall>ex \<in> set all. l_Epoch ex \<le> path_epoch m (Canonical (l_Target ex))"
    and "resolveEpoch l all ec m = (e, m')"
  shows "e \<le> path_epoch m' (Canonical (l_Target l))" "path_epoch m p \<le> path_epoch m' p"
    "(\<exists>ex \<in> set all. l_OwnerUUID ex = l_OwnerUUID l \<and> l_Target ex = l_Target l \<and> \<not> IsStale ec ex \<and>
        l_Epoch ex = e) \<or> path_epoch m (Canonical (l_Target l)) < e"
proof -
  have fresh: "e = path_epoch m (Canonical (l_Target l)) + 1 \<and>
      path_epoch m' p' = (if p' = Canonical (l_Target l) then e else path_epoch m p')"
    if "nextPathEpoch m (Canonical (l_Target l)) = (e, m')" for p'
  proof -
    have "e = fst (nextPathEpoch m (Canonical (l_Target l)))"
      "m' = snd (nextPathEpoch m (Canonical (l_Target l)))"
      using that by simp_all
    then show ?thesis by (simp add: path_epochs.bump_value path_epochs.bump_cur)
  qed
  consider (renew) ex where "renewedRow l all ec = Some ex" "\<not> IsStale ec ex" "e = l_Epoch ex" "m' = m"
    | (grant) "nextPathEpoch m (Canonical (l_Target l)) = (e, m')"
  proof (cases "renewedRow l all ec")
    case None
    with assms(3) show ?thesis by (intro that(2)) (simp add: resolveEpoch_def)
  next
    case (Some ex)
    show ?thesis
    proof (cases "IsStale ec ex")
      case True
      with Some assms(3) show ?thesis by (intro that(2)) (simp add: resolveEpoch_def)
    next
      case False
      with Some assms(3) show ?thesis by (intro that(1) [of ex]) (simp_all add: resolveEpoch_def)
    qed
  qed
  then have "e \<le> path_epoch m' (Canonical (l_Target l)) \<and> path_epoch m p \<le> path_epoch m' p \<and>
    ((\<exists>ex \<in> set all. l_OwnerUUID ex = l_OwnerUUID l \<and> l_Target ex = l_Target l \<and> \<not> IsStale ec ex \<and>
        l_Epoch ex = e) \<or> path_epoch m (Canonical (l_Target l)) < e)"
  proof cases
    case renew
    from renewedRow_Some [OF renew(1)] assms(1)
    have "ex \<in> set all" "l_OwnerUUID ex = l_OwnerUUID l" "l_Target ex = l_Target l"
      by (auto simp: SameTarget_def SameCanonical_def target.expand split: if_splits)
    moreover from this(1,3) assms(2) have "l_Epoch ex \<le> path_epoch m (Canonical (l_Target l))" by fastforce
    ultimately show ?thesis using renew by blast
  next
    case grant
    show ?thesis using fresh [OF grant, of p] fresh [OF grant, of "Canonical (l_Target l)"] by simp
  qed
  then show "e \<le> path_epoch m' (Canonical (l_Target l))" "path_epoch m p \<le> path_epoch m' p"
    "(\<exists>ex \<in> set all. l_OwnerUUID ex = l_OwnerUUID l \<and> l_Target ex = l_Target l \<and> \<not> IsStale ec ex \<and>
        l_Epoch ex = e) \<or> path_epoch m (Canonical (l_Target l)) < e"
    by blast+
qed

lemma insert_loop_epochs:
  assumes "\<not> CaseFold ec" "\<forall>ex \<in> set all. l_Epoch ex \<le> path_epoch m0 (Canonical (l_Target ex))"
    and "epoch_fenced (db_locks d) (db_path_epochs d)"
    and "\<And>p. path_epoch m0 p \<le> path_epoch (db_path_epochs d) p"
  shows "epoch_fenced (db_locks (snd (insert_loop all ec ls d))) (db_path_epochs (snd (insert_loop all ec ls d)))"
    (is ?fenced)
    and "path_epoch (db_path_epochs d) p \<le> path_epoch (db_path_epochs (snd (insert_loop all ec ls d))) p"
    (is ?mono)
    and "\<forall>l \<in> set (fst (insert_loop all ec ls d)).
      (\<exists>ex \<in> set all. l_OwnerUUID ex = l_OwnerUUID l \<and> l_Target ex = l_Target l \<and> \<not> IsStale ec ex \<and>
         l_Epoch ex = l_Epoch l) \<or> path_epoch m0 (Canonical (l_Target l)) < l_Epoch l"
    (is ?cases)
proof -
  have "?fenced \<and> ?mono \<and> ?cases"
    using assms
  proof (induction all ec ls d arbitrary: p rule: insert_loop.induct)
    case (1 all ec d)
    then show ?case by simp
  next
    case (2 all ec l ls d)
    obtain e m' where em: "resolveEpoch l all ec (db_path_epochs d) = (e, m')" by fastforce
    define l' where "l' = l\<lparr>l_Epoch := e\<rparr>"
    define d2 where "d2 = d\<lparr>db_path_epochs := m',
        db_locks := insertOrRefreshLock (CaseFold ec) l' e (db_locks d)\<rparr>"
    have step: "insert_loop all ec (l # ls) d =
        (l' # fst (insert_loop all ec ls d2), snd (insert_loop all ec ls d2))"
      by (simp add: Let_def em l'_def d2_def)
    have le: "\<forall>ex \<in> set all. l_Epoch ex \<le> path_epoch (db_path_epochs d) (Canonical (l_Target ex))"
      using 2(3,5) by (meson order_trans)
    note r = resolveEpoch_cases [OF 2(2) le em]
    have "epoch_fenced (db_locks d) m'"
      using 2(4) r(2) by (auto simp: epoch_fenced_def intro: order_trans)
    then have fenced: "epoch_fenced (db_locks d2) (db_path_epochs d2)"
      using 2(2) insertOrRefresh_fenced [of "db_locks d" m' e l'] r(1) by (simp add: d2_def l'_def)
    have mono: "path_epoch m0 q \<le> path_epoch (db_path_epochs d2) q" for q
      using 2(5) [of q] resolveEpoch_cases(2) [OF 2(2) le em, of q] by (simp add: d2_def)
    have IH: "epoch_fenced (db_locks (snd (insert_loop all ec ls d2))) (db_path_epochs (snd (insert_loop all ec ls d2))) \<and>
      path_epoch (db_path_epochs d2) p \<le> path_epoch (db_path_epochs (snd (insert_loop all ec ls d2))) p \<and>
      (\<forall>l \<in> set (fst (insert_loop all ec ls d2)).
        (\<exists>ex \<in> set all. l_OwnerUUID ex = l_OwnerUUID l \<and> l_Target ex = l_Target l \<and> \<not> IsStale ec ex \<and>
           l_Epoch ex = l_Epoch l) \<or> path_epoch m0 (Canonical (l_Target l)) < l_Epoch l)" for p
      using 2(1) [OF refl refl _ _ 2(2,3) _ mono] fenced by (simp add: em d2_def l'_def)
    have head: "(\<exists>ex \<in> set all. l_OwnerUUID ex = l_OwnerUUID l' \<and> l_Target ex = l_Target l' \<and> \<not> IsStale ec ex \<and>
        l_Epoch ex = l_Epoch l') \<or> path_epoch m0 (Canonical (l_Target l')) < l_Epoch l'"
      using r(3) 2(5) [of "Canonical (l_Target l)"] by (force simp: l'_def)
    have "path_epoch (db_path_epochs d) p \<le> path_epoch (db_path_epochs d2) p"
      using resolveEpoch_cases(2) [OF 2(2) le em] by (simp add: d2_def)
    with IH [of p] head show ?case unfolding step by (auto intro: order_trans)
  qed
  then show ?fenced ?mono ?cases by blast+
qed

lemma acquire_exclusive:
  assumes "AcquireLocks s i recs d = Inr (d', out)"
    and "\<forall>l \<in> set recs. l_OwnerUUID l = own"
    and "exclusive (s_caseFold s) (db_locks d)"
  shows "exclusive (s_caseFold s) (db_locks d')"
proof (cases "recs = []")
  case True
  with assms show ?thesis by (simp add: AcquireLocks_def)
next
  case False
  have "conflict_free (contends (s_caseFold s)) (lock_key_of ` set recs)"
    by (rule one_owner_free) (use assms(2) in \<open>auto simp: lock_key_of_def\<close>)
  with assms(3) AcquireLocks_Inr_keys [OF assms(1) False] show ?thesis
    unfolding exclusive_def by (blast intro: lock_conflict.free_grant)
qed

lemma acquire_epochs:
  assumes "AcquireLocks s i recs d = Inr (d', out)" "\<not> s_caseFold s"
    and "epoch_fenced (db_locks d) (db_path_epochs d)"
  shows "epoch_fenced (db_locks d') (db_path_epochs d') \<and>
    (\<forall>l \<in> set out.
      (\<exists>ex \<in> set (loadLocksTx d). l_OwnerUUID ex = l_OwnerUUID l \<and> l_Target ex = l_Target l \<and>
         \<not> IsStale (eval_ctx s i) ex \<and> l_Epoch ex = l_Epoch l) \<or>
      (path_epoch (db_path_epochs d) (Canonical (l_Target l)) < l_Epoch l \<and>
       (\<forall>r \<in> set (db_locks d). r_target_canonical r = Canonical (l_Target l) \<longrightarrow> r_epoch r < l_Epoch l)))"
proof (cases "recs = []")
  case True
  with assms show ?thesis by (simp add: AcquireLocks_def)
next
  case False
  note a = AcquireLocks_Inr [OF assms(1) False]
  let ?cb = "collectAllBlockers s (loadLocksTx d) (sortedByCanonical recs) (eval_ctx s i) d"
  have nf: "\<not> CaseFold (eval_ctx s i)" using assms(2) by simp
  have le: "\<forall>ex \<in> set (loadLocksTx d). l_Epoch ex \<le> path_epoch (db_path_epochs d) (Canonical (l_Target ex))"
    using assms(3) by (simp add: epoch_fenced_def)
  have fenced: "epoch_fenced (db_locks (snd ?cb)) (db_path_epochs (snd ?cb))"
    using assms(3) by (simp add: frame_simps epoch_fenced_filter)
  have m0: "path_epoch (db_path_epochs d) p \<le> path_epoch (db_path_epochs (snd ?cb)) p" for p
    by (simp add: frame_simps)
  note il = insert_loop_epochs [OF nf le fenced m0, where ls = "sortedByCanonical recs"]
  have "epoch_fenced (db_locks d') (db_path_epochs d')" using il(1) unfolding a(8,9) .
  moreover have "path_epoch (db_path_epochs d) (Canonical (l_Target l)) < l_Epoch l \<Longrightarrow>
      r \<in> set (db_locks d) \<Longrightarrow> r_target_canonical r = Canonical (l_Target l) \<Longrightarrow> r_epoch r < l_Epoch l" for l r
    using assms(3) unfolding epoch_fenced_def by fastforce
  ultimately show ?thesis using il(3) unfolding a(7) by blast
qed

text \<open>A counter never goes down, whatever the case class.\<close>

lemma resolveEpoch_mono: "path_epoch m p \<le> path_epoch (snd (resolveEpoch l all ec m)) p"
proof -
  have "path_epoch m p \<le> path_epoch (snd (nextPathEpoch m q)) p" for q
    by (auto simp: path_epoch_def nextPathEpoch_def Let_def split: option.splits)
  then show ?thesis by (simp add: resolveEpoch_def split: option.splits)
qed

lemma insert_loop_mono:
  "path_epoch (db_path_epochs d) p \<le> path_epoch (db_path_epochs (snd (insert_loop all ec ls d))) p"
proof (induction all ec ls d rule: insert_loop.induct)
  case (1 all ec d)
  then show ?case by simp
next
  case (2 all ec l ls d)
  show ?case using resolveEpoch_mono [of "db_path_epochs d" p l all ec] 2 [OF refl refl refl refl]
    by (simp add: Let_def)
qed

lemma acquire_mono:
  assumes "AcquireLocks s i recs d = Inr (d', out)"
  shows "path_epoch (db_path_epochs d) p \<le> path_epoch (db_path_epochs d') p"
proof (cases "recs = []")
  case True
  with assms show ?thesis by (simp add: AcquireLocks_def)
next
  case False
  let ?cb = "snd (collectAllBlockers s (loadLocksTx d) (sortedByCanonical recs) (eval_ctx s i) d)"
  have "db_path_epochs ?cb = db_path_epochs d" by (simp add: frame_simps)
  then show ?thesis
    using insert_loop_mono [of ?cb p "loadLocksTx d" "eval_ctx s i" "sortedByCanonical recs"]
    unfolding AcquireLocks_Inr(9) [OF assms False] by simp
qed

lemma acquire_pk_unique:
  assumes "AcquireLocks s i recs d = Inr (d', out)" "pk_unique (db_locks d)"
  shows "pk_unique (db_locks d')"
proof (cases "recs = []")
  case True
  with assms show ?thesis by (simp add: AcquireLocks_def)
next
  case False
  show ?thesis
    unfolding AcquireLocks_Inr(8) [OF assms(1) False]
    by (rule insert_loop_pk_unique) (simp add: assms(2) pk_unique_filter)
qed

subsection \<open>Concrete inputs\<close>

lemma ex_db_exclusive: "exclusive False (db_locks ex_db)" "pk_unique (db_locks ex_db)"
  "epoch_fenced (db_locks ex_db) (db_path_epochs ex_db)"
  by code_simp+

subsection \<open>Properties\<close>

text \<open>C1: Mutual exclusion. An acquire of one owner's batch that succeeds leaves no two holds of
  different owners covering each other in one checkout, provided there were none before: a live
  contender refuses the batch and a stale one is deleted by it.\<close>

theorem AcquireLocks_exclusive:
  assumes "AcquireLocks s i recs d = Inr (d', out)"
    and "\<forall>l \<in> set recs. l_OwnerUUID l = own"
    and "exclusive (s_caseFold s) (db_locks d)"
  shows "exclusive (s_caseFold s) (db_locks d')"
  by (rule acquire_exclusive [OF assms])

theorem AcquireLocks_exclusive_witness:
  "case AcquireLocks ex_store (ex_io 10) [ex_lock ''x'' ''cy'' 30] ex_db of
     Inl _ \<Rightarrow> False | Inr (d', out) \<Rightarrow> exclusive False (db_locks d')"
proof -
  have "\<not> isl (AcquireLocks ex_store (ex_io 10) [ex_lock ''x'' ''cy'' 30] ex_db)" by code_simp
  then obtain d' out where e: "AcquireLocks ex_store (ex_io 10) [ex_lock ''x'' ''cy'' 30] ex_db = Inr (d', out)"
    by (cases "AcquireLocks ex_store (ex_io 10) [ex_lock ''x'' ''cy'' 30] ex_db") auto
  show ?thesis
    using AcquireLocks_exclusive [OF e, of "''cy''"] ex_db_exclusive e
    by (simp add: ex_store_def ex_lock_def)
qed

text \<open>C7: When an acquire succeeds: exactly when the flock, the transaction and the commit are
  granted, every target validates, no candidate claim names one of the paths, and no live hold of
  another owner covers or is covered by one of them in the same checkout.\<close>

theorem AcquireLocks_succeeds_iff:
  "(\<exists>r. AcquireLocks s i recs d = Inr r) \<longleftrightarrow>
     recs = [] \<or>
     (io_flock i \<and> io_begin i \<and> io_commit i \<and>
      validateAllFileTargets i (s_repoTop s) (sortedByCanonical recs) = None \<and>
      (\<forall>l \<in> set recs. \<forall>r \<in> set (db_candidate_claims d). cr_path_canonical r \<noteq> Canonical (l_Target l)) \<and>
      live_contenders (eval_ctx s i) recs (loadLocksTx d) = {})"
proof (cases "recs = []")
  case True
  then show ?thesis by (simp add: AcquireLocks_def)
next
  case False
  have b: "blockOnCandidateClaims (sortedByCanonical recs) d = None \<longleftrightarrow>
      (\<forall>l \<in> set recs. \<forall>r \<in> set (db_candidate_claims d). cr_path_canonical r \<noteq> Canonical (l_Target l))"
    by (simp add: blockOnCandidateClaims_None)
  have c: "fst (collectAllBlockers s (loadLocksTx d) (sortedByCanonical recs) (eval_ctx s i) d) = [] \<longleftrightarrow>
      live_contenders (eval_ctx s i) recs (loadLocksTx d) = {}"
    by (simp add: collectAllBlockers_exact(3) live_contenders_def)
  show ?thesis
    unfolding b [symmetric] c [symmetric] using False
    by (auto simp: AcquireLocks_def Let_def split: option.splits)
qed

theorem AcquireLocks_succeeds_iff_witness:
  "live_contenders (eval_ctx ex_store (ex_io 10)) [ex_lock ''x'' ''cy'' 30] (loadLocksTx ex_db) = {} \<and>
   live_contenders (eval_ctx ex_store (ex_io 3)) [ex_lock ''x'' ''cy'' 30] (loadLocksTx ex_db) \<noteq> {}"
proof -
  have "\<not> isl (AcquireLocks ex_store (ex_io 10) [ex_lock ''x'' ''cy'' 30] ex_db)" by code_simp
  then have ok: "\<exists>r. AcquireLocks ex_store (ex_io 10) [ex_lock ''x'' ''cy'' 30] ex_db = Inr r"
    by (cases "AcquireLocks ex_store (ex_io 10) [ex_lock ''x'' ''cy'' 30] ex_db") auto
  have "isl (AcquireLocks ex_store (ex_io 3) [ex_lock ''x'' ''cy'' 30] ex_db)" by code_simp
  then have no: "\<nexists>r. AcquireLocks ex_store (ex_io 3) [ex_lock ''x'' ''cy'' 30] ex_db = Inr r" by auto
  have v: "io_flock (ex_io 3)" "io_begin (ex_io 3)" "io_commit (ex_io 3)" "db_candidate_claims ex_db = []"
    "validateAllFileTargets (ex_io 3) (s_repoTop ex_store) (sortedByCanonical [ex_lock ''x'' ''cy'' 30]) = None"
    by code_simp+
  from ok no show ?thesis unfolding AcquireLocks_succeeds_iff using v by simp
qed

text \<open>A conflict names the holders: every blocker reported is a live contender in the table,
  and every live contender is reported under its owner and path.\<close>

theorem AcquireLocks_blockers:
  assumes "AcquireLocks s i recs d = Inl (MultiConflictError bs)"
  shows "bs \<noteq> [] \<and> set bs \<subseteq> live_contenders (eval_ctx s i) recs (loadLocksTx d) \<and>
    blocker_key ` set bs = blocker_key ` live_contenders (eval_ctx s i) recs (loadLocksTx d)"
proof -
  let ?cb = "collectAllBlockers s (loadLocksTx d) (sortedByCanonical recs) (eval_ctx s i) d"
  have nb: "blockOnCandidateClaims b d \<noteq> Some (MultiConflictError bs)" for b
    by (auto simp: blockOnCandidateClaims_def Let_def)
  have nf: "validateFileTarget i t l \<noteq> Some (MultiConflictError bs)" for t l
    by (auto simp: validateFileTarget_def Let_def split: lstat_result.splits)
  have nv: "validateAllFileTargets i t ls \<noteq> Some (MultiConflictError bs)" for t ls
    using nf by (induction ls) (auto split: option.splits)
  have "bs = fst ?cb" "fst ?cb \<noteq> []"
    using assms nb nv by (auto simp: AcquireLocks_def Let_def split: option.splits if_splits)
  moreover have "live_contenders (eval_ctx s i) (sortedByCanonical recs) (loadLocksTx d) =
      live_contenders (eval_ctx s i) recs (loadLocksTx d)"
    by (simp add: live_contenders_def)
  ultimately show ?thesis
    using collectAllBlockers_exact [of s "loadLocksTx d" "sortedByCanonical recs" "eval_ctx s i" d] by simp
qed

theorem AcquireLocks_blockers_witness:
  "\<exists>bs. AcquireLocks ex_store (ex_io 10) [ex_lock ''d/f'' ''cy'' 30] ex_db = Inl (MultiConflictError bs) \<and> bs \<noteq> []"
proof -
  have "case AcquireLocks ex_store (ex_io 10) [ex_lock ''d/f'' ''cy'' 30] ex_db of
      Inl (MultiConflictError bs) \<Rightarrow> True | _ \<Rightarrow> False"
    by code_simp
  then obtain bs where e: "AcquireLocks ex_store (ex_io 10) [ex_lock ''d/f'' ''cy'' 30] ex_db =
      Inl (MultiConflictError bs)"
    by (auto split: sum.splits store_error.splits)
  from AcquireLocks_blockers [OF e] e show ?thesis by blast
qed

text \<open>What a successful acquire grants: for each requested record, a stored row with its target,
  owner, checkout, session and lease, under the epoch the caller is handed back.\<close>

theorem AcquireLocks_grants:
  assumes "AcquireLocks s i recs d = Inr (d', out)"
    and "\<forall>l \<in> set recs. l_Worktree l = w" "distinct (map lock_key_of recs)"
  shows "(\<forall>l \<in> set out. \<exists>r \<in> set (db_locks d'). row_grants l r) \<and>
    mset (map lock_key_of out) = mset (map lock_key_of recs)"
proof (cases "recs = []")
  case True
  with assms show ?thesis by (simp add: AcquireLocks_def)
next
  case False
  note a = AcquireLocks_Inr [OF assms(1) False]
  have m: "mset (map lock_key_of (sortedByCanonical recs)) = mset (map lock_key_of recs)"
    by (simp add: sortedByCanonical_def)
  have "distinct (map lock_key_of (sortedByCanonical recs))"
    using assms(3) m by (metis mset_eq_imp_distinct_iff)
  then have "\<forall>l \<in> set out. \<exists>r \<in> set (db_locks d'). row_grants l r"
    using insert_loop_grants [of "sortedByCanonical recs" w] assms(2) unfolding a(7,8) by simp
  moreover have "mset (map lock_key_of out) = mset (map lock_key_of recs)"
    unfolding a(7) insert_loop_map_keys by (rule m)
  ultimately show ?thesis by simp
qed

theorem AcquireLocks_grants_witness:
  "case AcquireLocks ex_store (ex_io 10) [ex_lock ''x'' ''cy'' 30] ex_db of
     Inl _ \<Rightarrow> False | Inr (d', out) \<Rightarrow> map lock_key_of out = [(''x'', ''cy'', ''main'')]"
proof -
  have "\<not> isl (AcquireLocks ex_store (ex_io 10) [ex_lock ''x'' ''cy'' 30] ex_db)" by code_simp
  then obtain d' out where e: "AcquireLocks ex_store (ex_io 10) [ex_lock ''x'' ''cy'' 30] ex_db = Inr (d', out)"
    by (cases "AcquireLocks ex_store (ex_io 10) [ex_lock ''x'' ''cy'' 30] ex_db") auto
  have "mset (map lock_key_of out) = {#lock_key_of (ex_lock ''x'' ''cy'' 30)#}"
    using AcquireLocks_grants [OF e, of "''main''"] by (simp add: ex_lock_def)
  then have "map lock_key_of out = [lock_key_of (ex_lock ''x'' ''cy'' 30)]"
    by (metis mset_single_iff_right)
  with e show ?thesis by (simp add: lock_key_of_def ex_lock_def)
qed



end
