(* ===== verification/Release.thy ===== *)
theory Release
  imports Tags
begin

text \<open>
  \<open>internal/store/locks_batch_tx.go\<close> (the flock, the transaction and the snapshot one batched
  mutation decides on), \<open>locks_release.go\<close> (\<open>ReleaseLocks\<close> and the session sweep
  \<open>ReleaseBySession\<close>), with \<open>loadLocksByTargetTx\<close> and \<open>authorizeHolders\<close> of \<open>locks_break.go\<close>.
  The map from canonical path to holders is a total function; a missing key is the empty list.
  \<open>DELETE\<close>s issued in Go's map order commute, and the model takes them in one order.
\<close>

subsection \<open>The batch transaction\<close>

type_synonym holders_map = "string \<Rightarrow> LockRecord list"

definition loadLocksByTargetTx :: "bool \<Rightarrow> target list \<Rightarrow> db \<Rightarrow> holders_map" where
  "loadLocksByTargetTx f targets d =
     (let rows = sort_key (\<lambda>r. (r_created_at r, r_owner_uuid r))
            (filter (\<lambda>r. key_norm f (r_target_canonical r) \<in> set (map (\<lambda>t. key_norm f (Canonical t)) targets))
              (db_locks d));
          ls = scanLocksRows (db_hook_calls d) rows
      in (\<lambda>key. filter (\<lambda>l. key_norm f (Canonical (l_Target l)) = key) ls))"

definition scopeToWorktree :: "holders_map \<Rightarrow> string \<Rightarrow> holders_map" where
  "scopeToWorktree existing wt = (\<lambda>k. filter (\<lambda>l. SameWorktree wt (l_Worktree l)) (existing k))"

definition batch_snapshot :: "store \<Rightarrow> target list \<Rightarrow> db \<Rightarrow> holders_map" where
  "batch_snapshot s targets d =
     scopeToWorktree (loadLocksByTargetTx (s_caseFold s) targets d) (s_worktree s)"

definition withLockBatchTx ::
  "store \<Rightarrow> io \<Rightarrow> target list \<Rightarrow> (holders_map \<Rightarrow> EvalContext \<Rightarrow> db \<Rightarrow> db \<times> 'a) \<Rightarrow> db \<Rightarrow> store_error + db \<times> 'a"
where
  "withLockBatchTx s i targets fn d =
     (if \<not> io_flock i then Inl ErrFlock
      else if \<not> io_begin i then Inl ErrBegin
      else let r = fn (batch_snapshot s targets d) (eval_ctx s i) d
           in if \<not> io_commit i then Inl ErrCommit else Inr r)"

fun authorizeHolders :: "LockRecord list \<Rightarrow> EvalContext \<Rightarrow> bool \<Rightarrow> authz_error option" where
  "authorizeHolders [] ec force = None"
| "authorizeHolders (l # ls) ec force =
     (case AuthorizeBreak ec l force of
        Some er \<Rightarrow> Some er | None \<Rightarrow> authorizeHolders ls ec force)"

subsection \<open>Releasing named targets\<close>

datatype ReleaseOutcome = StateUnlocked | StateNoLock | StateNotOwner | StateReclaimedStale

record ReleaseResult =
  rr_Target :: target
  rr_State :: ReleaseOutcome
  rr_Owner :: string
  rr_Worktree :: string

definition ownHolder :: "LockRecord list \<Rightarrow> AgentUUID \<Rightarrow> LockRecord option" where
  "ownHolder holders byAgent = find (\<lambda>l. l_OwnerUUID l = byAgent) holders"

definition vetoingHolder :: "LockRecord list \<Rightarrow> EvalContext \<Rightarrow> string" where
  "vetoingHolder holders ec =
     (case find (\<lambda>l. AuthorizeBreak ec l False \<noteq> None) holders of
        Some l \<Rightarrow> l_OwnerUUID l | None \<Rightarrow> l_OwnerUUID (hd holders))"

text \<open>One target seen for the first time: its result, whether its own row is released, and the
  stale rows to reclaim.\<close>

definition classify_first ::
  "target \<Rightarrow> LockRecord list \<Rightarrow> AgentUUID \<Rightarrow> EvalContext \<Rightarrow> ReleaseResult \<times> bool \<times> LockRecord list" where
  "classify_first t holders byAgent ec =
     (if holders = [] then
        (\<lparr>rr_Target = t, rr_State = StateNoLock, rr_Owner = [], rr_Worktree = []\<rparr>, False, [])
      else if ownHolder holders byAgent \<noteq> None then
        (\<lparr>rr_Target = t, rr_State = StateUnlocked, rr_Owner = [], rr_Worktree = []\<rparr>, True, [])
      else if authorizeHolders holders ec False = None then
        (\<lparr>rr_Target = t, rr_State = StateReclaimedStale, rr_Owner = l_OwnerUUID (hd holders),
          rr_Worktree = []\<rparr>, False, holders)
      else
        (\<lparr>rr_Target = t, rr_State = StateNotOwner, rr_Owner = vetoingHolder holders ec,
          rr_Worktree = []\<rparr>, False, []))"

text \<open>A repeated target: no-lock when the first occurrence consumed the rows, its mirror else.\<close>

definition duplicate_result :: "target \<Rightarrow> ReleaseResult \<Rightarrow> ReleaseResult" where
  "duplicate_result t first =
     (if rr_State first = StateUnlocked \<or> rr_State first = StateReclaimedStale then
        \<lparr>rr_Target = t, rr_State = StateNoLock, rr_Owner = [], rr_Worktree = []\<rparr>
      else \<lparr>rr_Target = t, rr_State = rr_State first, rr_Owner = rr_Owner first, rr_Worktree = []\<rparr>)"

fun classify_loop ::
  "(string \<times> ReleaseResult) list \<Rightarrow> target list \<Rightarrow> holders_map \<Rightarrow> AgentUUID \<Rightarrow> EvalContext \<Rightarrow>
     ReleaseResult list \<times> string list \<times> LockRecord list" where
  "classify_loop firstIdx [] existing byAgent ec = ([], [], [])"
| "classify_loop firstIdx (t # ts) existing byAgent ec =
     (case map_of firstIdx (Canonical t) of
        Some first \<Rightarrow>
          (let (results, owned, reclaims) = classify_loop firstIdx ts existing byAgent ec
           in (duplicate_result t first # results, owned, reclaims))
      | None \<Rightarrow>
          (let (r, own, stale) = classify_first t (existing (Canonical t)) byAgent ec;
               (results, owned, reclaims) =
                 classify_loop ((Canonical t, r) # firstIdx) ts existing byAgent ec
           in (r # results, (if own then Canonical t # owned else owned), stale @ reclaims)))"

definition classifyReleases ::
  "target list \<Rightarrow> holders_map \<Rightarrow> AgentUUID \<Rightarrow> EvalContext \<Rightarrow>
     ReleaseResult list \<times> string list \<times> LockRecord list" where
  "classifyReleases targets existing byAgent ec = classify_loop [] targets existing byAgent ec"

definition released_event :: "AgentUUID \<Rightarrow> time \<Rightarrow> string \<Rightarrow> Event" where
  "released_event byAgent now canonical =
     \<lparr>e_ID = [], e_Target = Target canonical, e_Kind = EventLockReleased, e_ActorUUID = byAgent,
      e_SubjectUUID = [], e_Reason = [], e_Detail = [], e_CreatedAt = now\<rparr>"

definition applyOwnedReleasesTx ::
  "store \<Rightarrow> string list \<Rightarrow> AgentUUID \<Rightarrow> time \<Rightarrow> time \<Rightarrow> db \<Rightarrow> db" where
  "applyOwnedReleasesTx s owned byAgent now ack_now d =
     (let wt = worktreeFilter (s_worktree s);
          d1 = ackTagsForReleaseTx (s_caseFold s) owned byAgent wt ack_now d;
          d2 = deleteOwnedTx (s_caseFold s) owned byAgent wt d1
      in snd (appendEventsTx s (map (released_event byAgent now) owned) d2))"

fun reclaim_all :: "store \<Rightarrow> LockRecord list \<Rightarrow> AgentUUID \<Rightarrow> time \<Rightarrow> db \<Rightarrow> db" where
  "reclaim_all s [] byAgent now d = d"
| "reclaim_all s (l # ls) byAgent now d =
     reclaim_all s ls byAgent now (gcTagsForReclaimTx l (reclaimStaleTx s l byAgent now d))"

definition applyReleaseChangesTx ::
  "store \<Rightarrow> string list \<Rightarrow> LockRecord list \<Rightarrow> AgentUUID \<Rightarrow> time \<Rightarrow> time \<Rightarrow> db \<Rightarrow> db" where
  "applyReleaseChangesTx s owned reclaims byAgent now ack_now d =
     (let d1 = (if owned \<noteq> [] then applyOwnedReleasesTx s owned byAgent now ack_now d else d);
          d2 = reclaim_all s reclaims byAgent now d1
      in if owned \<noteq> [] \<or> reclaims \<noteq> [] then rotateEventsTx now d2 else d2)"

definition ReleaseLocks ::
  "store \<Rightarrow> io \<Rightarrow> target list \<Rightarrow> AgentUUID \<Rightarrow> db \<Rightarrow> store_error + db \<times> ReleaseResult list" where
  "ReleaseLocks s i targets agent d =
     (if targets = [] then Inr (d, [])
      else withLockBatchTx s i targets
        (\<lambda>existing ec d.
           let (results, owned, reclaims) = classifyReleases targets existing agent ec
           in (applyReleaseChangesTx s owned reclaims agent (Now ec) (io_now2 i) d, results)) d)"

subsection \<open>Releasing a session\<close>

record sessionTarget =
  st_Canonical :: string
  st_Intent :: string
  st_Worktree :: string

definition session_match :: "AgentUUID \<Rightarrow> SessionUUID \<Rightarrow> string \<Rightarrow> lock_row \<Rightarrow> bool" where
  "session_match byAgent sess onlyIntent r \<longleftrightarrow>
     r_owner_uuid r = byAgent \<and> (sess \<noteq> [] \<longrightarrow> r_session_uuid r = sess) \<and>
     (onlyIntent \<noteq> [] \<longrightarrow> r_intent r = onlyIntent)"

definition loadSessionTargetsTx ::
  "AgentUUID \<Rightarrow> SessionUUID \<Rightarrow> string \<Rightarrow> db \<Rightarrow> sessionTarget list" where
  "loadSessionTargetsTx byAgent sess onlyIntent d =
     map (\<lambda>r. \<lparr>st_Canonical = r_target_canonical r, st_Intent = r_intent r, st_Worktree = r_worktree r\<rparr>)
       (sort_key r_target_canonical (filter (session_match byAgent sess onlyIntent) (db_locks d)))"

definition sessionReleaseResults :: "sessionTarget list \<Rightarrow> string \<Rightarrow> ReleaseResult list" where
  "sessionReleaseResults canonicals own =
     map (\<lambda>c. \<lparr>rr_Target = Target (st_Canonical c), rr_State = StateUnlocked, rr_Owner = [],
               rr_Worktree = (if SameWorktree own (st_Worktree c) then [] else st_Worktree c)\<rparr>)
       canonicals"

definition distinctIntents :: "sessionTarget list \<Rightarrow> string list" where
  "distinctIntents canonicals = sort (remdups (map st_Intent canonicals))"

text \<open>One checkout's part of the sweep; the checkouts are taken in sorted order.\<close>

definition release_worktree ::
  "store \<Rightarrow> sessionTarget list \<Rightarrow> AgentUUID \<Rightarrow> time \<Rightarrow> string \<Rightarrow> db \<Rightarrow> db" where
  "release_worktree s canonicals byAgent ack_now wt d =
     (let paths = map st_Canonical (filter (\<lambda>c. st_Worktree c = wt) canonicals);
          d1 = ackTagsForReleaseTx (s_caseFold s) paths byAgent (\<lambda>w. w = wt) ack_now d
      in deleteOwnedTx (s_caseFold s) paths byAgent (\<lambda>w. w = wt) d1)"

definition emitLockReleaseEventsTx ::
  "store \<Rightarrow> sessionTarget list \<Rightarrow> AgentUUID \<Rightarrow> time \<Rightarrow> db \<Rightarrow> db" where
  "emitLockReleaseEventsTx s canonicals byAgent now d =
     rotateEventsTx now
       (snd (appendEventsTx s (map (\<lambda>c. released_event byAgent now (st_Canonical c)) canonicals) d))"

definition releaseSessionTargetsTx ::
  "store \<Rightarrow> sessionTarget list \<Rightarrow> AgentUUID \<Rightarrow> time \<Rightarrow> time \<Rightarrow> db \<Rightarrow> db" where
  "releaseSessionTargetsTx s canonicals byAgent now ack_now d =
     emitLockReleaseEventsTx s canonicals byAgent now
       (fold (release_worktree s canonicals byAgent ack_now)
         (sort (remdups (map st_Worktree canonicals))) d)"

record SessionRelease =
  sr_Results :: "ReleaseResult list"
  sr_Intents :: "string list"

definition ReleaseBySession ::
  "store \<Rightarrow> io \<Rightarrow> AgentUUID \<Rightarrow> SessionUUID \<Rightarrow> string \<Rightarrow> db \<Rightarrow> store_error + db \<times> SessionRelease" where
  "ReleaseBySession s i agent sess onlyIntent d =
     (if \<not> io_flock i then Inl ErrFlock
      else if \<not> io_begin i then Inl ErrBegin
      else let canonicals = loadSessionTargetsTx agent sess onlyIntent d in
        if canonicals = [] then Inr (d, \<lparr>sr_Results = [], sr_Intents = []\<rparr>)
        else let d' = releaseSessionTargetsTx s canonicals agent (io_now i) (io_now2 i) d in
          if \<not> io_commit i then Inl ErrCommit
          else Inr (d', \<lparr>sr_Results = sessionReleaseResults canonicals (s_worktree s),
                         sr_Intents = distinctIntents canonicals\<rparr>))"

subsection \<open>Frame facts\<close>

lemma applyOwnedReleasesTx_frame [frame_simps]:
  "db_path_epochs (applyOwnedReleasesTx s os a now n2 d) = db_path_epochs d"
  "db_candidate_claims (applyOwnedReleasesTx s os a now n2 d) = db_candidate_claims d"
  "db_violations (applyOwnedReleasesTx s os a now n2 d) = db_violations d"
  "db_hook_calls (applyOwnedReleasesTx s os a now n2 d) = db_hook_calls d"
  "db_locks (applyOwnedReleasesTx s os a now n2 d) =
     filter (\<lambda>r. \<not> owned_rows (s_caseFold s) os a (worktreeFilter (s_worktree s)) r) (db_locks d)"
  by (simp_all add: applyOwnedReleasesTx_def Let_def frame_simps)

lemma reclaim_all_frame [frame_simps]:
  "db_path_epochs (reclaim_all s ls a now d) = db_path_epochs d"
  "db_candidate_claims (reclaim_all s ls a now d) = db_candidate_claims d"
  "db_violations (reclaim_all s ls a now d) = db_violations d"
  "db_hook_calls (reclaim_all s ls a now d) = db_hook_calls d"
  "db_locks (reclaim_all s ls a now d) = filter (\<lambda>r. lock_pk r \<notin> lock_key_of ` set ls) (db_locks d)"
  by (induction s ls a now d rule: reclaim_all.induct)
    (simp_all add: frame_simps delete_lock_row_def filter_filter conj_commute)

lemma applyReleaseChangesTx_frame [frame_simps]:
  "db_path_epochs (applyReleaseChangesTx s os rs a now n2 d) = db_path_epochs d"
  "db_candidate_claims (applyReleaseChangesTx s os rs a now n2 d) = db_candidate_claims d"
  "db_violations (applyReleaseChangesTx s os rs a now n2 d) = db_violations d"
  "db_hook_calls (applyReleaseChangesTx s os rs a now n2 d) = db_hook_calls d"
  by (simp_all add: applyReleaseChangesTx_def Let_def frame_simps)

lemma applyReleaseChangesTx_locks:
  "db_locks (applyReleaseChangesTx s os rs a now n2 d) =
     filter (\<lambda>r. \<not> owned_rows (s_caseFold s) os a (worktreeFilter (s_worktree s)) r \<and>
                 lock_pk r \<notin> lock_key_of ` set rs) (db_locks d)"
proof (cases "os = []")
  case True
  then have "\<not> owned_rows (s_caseFold s) os a (worktreeFilter (s_worktree s)) r" for r
    by (simp add: owned_rows_def)
  with True show ?thesis by (simp add: applyReleaseChangesTx_def Let_def frame_simps)
next
  case False
  then show ?thesis
    by (simp add: applyReleaseChangesTx_def Let_def frame_simps filter_filter conj_commute)
qed

subsection \<open>The snapshot\<close>

text \<open>Exactly the rows the store may speak for: on one of the targets, in this checkout.\<close>

lemma batch_snapshot_mem:
  "l \<in> set (batch_snapshot s targets d k) \<longleftrightarrow>
     (\<exists>r \<in> set (db_locks d). l = scanLock (db_hook_calls d) r \<and>
        key_norm (s_caseFold s) (r_target_canonical r) = k \<and>
        k \<in> (\<lambda>t. key_norm (s_caseFold s) (Canonical t)) ` set targets \<and>
        SameWorktree (s_worktree s) (r_worktree r))"
  by (auto simp: batch_snapshot_def scopeToWorktree_def loadLocksByTargetTx_def Let_def scanLocksRows_def)

lemma batch_snapshot_key:
  "batch_snapshot s targets d k \<noteq> [] \<Longrightarrow> key_norm (s_caseFold s) k = k"
proof -
  assume "batch_snapshot s targets d k \<noteq> []"
  then obtain l where "l \<in> set (batch_snapshot s targets d k)" by (meson last_in_set)
  then show ?thesis by (auto simp: batch_snapshot_mem)
qed

lemma authorizeHolders_None:
  "authorizeHolders ls ec force = None \<longleftrightarrow> force \<or> (\<forall>l \<in> set ls. IsStale ec l)"
  by (induction ls) (auto simp: AuthorizeBreak_def)

lemma ownHolder_Some: "ownHolder ls a \<noteq> None \<longleftrightarrow> (\<exists>l \<in> set ls. l_OwnerUUID l = a)"
  by (auto simp: ownHolder_def find_None_iff)

lemma ownHolder_None: "ownHolder ls a = None \<longleftrightarrow> (\<forall>l \<in> set ls. l_OwnerUUID l \<noteq> a)"
  using ownHolder_Some [of ls a] by auto

subsection \<open>What a release selects\<close>

definition own_at :: "holders_map \<Rightarrow> AgentUUID \<Rightarrow> string \<Rightarrow> bool" where
  "own_at existing a k \<longleftrightarrow> (\<exists>l \<in> set (existing k). l_OwnerUUID l = a)"

definition stale_at :: "holders_map \<Rightarrow> AgentUUID \<Rightarrow> EvalContext \<Rightarrow> string \<Rightarrow> bool" where
  "stale_at existing a ec k \<longleftrightarrow>
     existing k \<noteq> [] \<and> \<not> own_at existing a k \<and> (\<forall>l \<in> set (existing k). IsStale ec l)"

lemma classify_first_state:
  "rr_State (fst (classify_first t (existing (Canonical t)) a ec)) =
     (if existing (Canonical t) = [] then StateNoLock
      else if own_at existing a (Canonical t) then StateUnlocked
      else if stale_at existing a ec (Canonical t) then StateReclaimedStale else StateNotOwner)"
  "fst (snd (classify_first t (existing (Canonical t)) a ec)) \<longleftrightarrow> own_at existing a (Canonical t)"
  "snd (snd (classify_first t (existing (Canonical t)) a ec)) =
     (if stale_at existing a ec (Canonical t) then existing (Canonical t) else [])"
  using ownHolder_None [of "existing (Canonical t)" a]
  by (auto simp: classify_first_def own_at_def stale_at_def authorizeHolders_None)

lemma classify_loop_selects_both:
  "set (fst (snd (classify_loop seen ts existing a ec))) =
     {k \<in> Canonical ` set ts. k \<notin> fst ` set seen \<and> own_at existing a k} \<and>
   set (snd (snd (classify_loop seen ts existing a ec))) =
     (\<Union>k \<in> {k \<in> Canonical ` set ts. k \<notin> fst ` set seen \<and> stale_at existing a ec k}. set (existing k))"
proof (induction ts arbitrary: seen)
  case Nil
  then show ?case by simp
next
  case (Cons t ts)
  let ?cf = "classify_first t (existing (Canonical t)) a ec"
  let ?seen = "(Canonical t, fst ?cf) # seen"
  note cf = classify_first_state(2,3) [of t existing a ec]
  show ?case
  proof (cases "map_of seen (Canonical t)")
    case None
    have n: "Canonical t \<notin> fst ` set seen" using None by (simp only: map_of_eq_None_iff not_False_eq_True)
    have "fst (snd (classify_loop seen (t # ts) existing a ec)) =
        (if fst (snd ?cf) then Canonical t # fst (snd (classify_loop ?seen ts existing a ec))
         else fst (snd (classify_loop ?seen ts existing a ec)))"
      "snd (snd (classify_loop seen (t # ts) existing a ec)) =
         snd (snd ?cf) @ snd (snd (classify_loop ?seen ts existing a ec))"
      by (simp_all add: None case_prod_beta Let_def)
    with n show ?thesis unfolding cf by (auto simp: Cons.IH [of ?seen])
  next
    case (Some r)
    have n: "Canonical t \<in> fst ` set seen" using Some by (metis map_of_eq_None_iff option.distinct(1))
    have "snd (classify_loop seen (t # ts) existing a ec) = snd (classify_loop seen ts existing a ec)"
      by (simp add: Some case_prod_beta Let_def)
    with n show ?thesis by (auto simp: Cons.IH [of seen])
  qed
qed

lemmas classify_loop_selects =
  classify_loop_selects_both [THEN conjunct1] classify_loop_selects_both [THEN conjunct2]

lemma classify_loop_results:
  "distinct (map Canonical ts) \<Longrightarrow> Canonical ` set ts \<inter> fst ` set seen = {} \<Longrightarrow>
   fst (classify_loop seen ts existing a ec) =
     map (\<lambda>t. fst (classify_first t (existing (Canonical t)) a ec)) ts"
proof (induction ts arbitrary: seen)
  case Nil
  then show ?case by simp
next
  case (Cons t ts)
  then have "map_of seen (Canonical t) = None" by (auto simp: map_of_eq_None_iff)
  with Cons show ?case by (auto simp: case_prod_beta Let_def)
qed

lemma ReleaseLocks_Inr:
  assumes "ReleaseLocks s i targets a d = Inr (d', rs)" "targets \<noteq> []"
  defines "ex \<equiv> batch_snapshot s targets d" and "ec \<equiv> eval_ctx s i"
  shows "rs = fst (classifyReleases targets ex a ec)"
    "d' = applyReleaseChangesTx s (fst (snd (classifyReleases targets ex a ec)))
            (snd (snd (classifyReleases targets ex a ec))) a (io_now i) (io_now2 i) d"
  using assms(1,2)
  by (auto simp: ReleaseLocks_def withLockBatchTx_def case_prod_beta Let_def ex_def ec_def split: if_splits)

text \<open>The rows a release removes; nothing else changes in the lock table.\<close>

definition released :: "store \<Rightarrow> io \<Rightarrow> target list \<Rightarrow> AgentUUID \<Rightarrow> db \<Rightarrow> lock_row \<Rightarrow> bool" where
  "released s i targets a d r \<longleftrightarrow>
     (let k = key_norm (s_caseFold s) (r_target_canonical r)
      in k \<in> Canonical ` set targets \<and> SameWorktree (s_worktree s) (r_worktree r) \<and>
         (r_owner_uuid r = a \<or> stale_at (batch_snapshot s targets d) a (eval_ctx s i) k))"

lemma ReleaseLocks_locks:
  assumes "ReleaseLocks s i targets a d = Inr (d', rs)" "targets \<noteq> []" "pk_unique (db_locks d)"
  shows "db_locks d' = filter (\<lambda>r. \<not> released s i targets a d r) (db_locks d)"
proof -
  let ?n = "key_norm (s_caseFold s)"
  define ex where "ex = batch_snapshot s targets d"
  define ec where "ec = eval_ctx s i"
  define cl where "cl = classifyReleases targets ex a ec"
  have own: "set (fst (snd cl)) = {k \<in> Canonical ` set targets. own_at ex a k}"
    and rec: "set (snd (snd cl)) = (\<Union>k \<in> {k \<in> Canonical ` set targets. stale_at ex a ec k}. set (ex k))"
    using classify_loop_selects_both [of "[]" targets ex a ec] by (simp_all add: classifyReleases_def cl_def)
  have mem: "l \<in> set (ex k) \<longleftrightarrow> (\<exists>r \<in> set (db_locks d). l = scanLock (db_hook_calls d) r \<and>
        ?n (r_target_canonical r) = k \<and> k \<in> (\<lambda>t. ?n (Canonical t)) ` set targets \<and>
        SameWorktree (s_worktree s) (r_worktree r))" for l k
    unfolding ex_def by (rule batch_snapshot_mem)
  have key: "ex k \<noteq> [] \<Longrightarrow> ?n k = k" for k
    unfolding ex_def by (rule batch_snapshot_key)
  have "(\<not> owned_rows (s_caseFold s) (fst (snd cl)) a (worktreeFilter (s_worktree s)) r \<and>
        lock_pk r \<notin> lock_key_of ` set (snd (snd cl))) = (\<not> released s i targets a d r)"
    if r: "r \<in> set (db_locks d)" for r
  proof -
    let ?l = "scanLock (db_hook_calls d) r" and ?k = "?n (r_target_canonical r)"
    have l: "?l \<in> set (ex ?k) \<longleftrightarrow> SameWorktree (s_worktree s) (r_worktree r)"
      if k: "?k \<in> Canonical ` set targets"
    proof -
      from k have "?k \<in> (\<lambda>t. ?n (Canonical t)) ` set targets"
        by (metis (no_types, lifting) imageE imageI key_norm_idem)
      with r show ?thesis unfolding mem by (metis scanLock_simps(10))
    qed
    have 1: "owned_rows (s_caseFold s) (fst (snd cl)) a (worktreeFilter (s_worktree s)) r \<longleftrightarrow>
        ?k \<in> Canonical ` set targets \<and> SameWorktree (s_worktree s) (r_worktree r) \<and> r_owner_uuid r = a"
    proof
      assume "owned_rows (s_caseFold s) (fst (snd cl)) a (worktreeFilter (s_worktree s)) r"
      then obtain k where k: "k \<in> Canonical ` set targets" "own_at ex a k" "?k = ?n k"
        "r_owner_uuid r = a" "SameWorktree (s_worktree s) (r_worktree r)"
        unfolding owned_rows_def set_map own worktreeFilter_SameWorktree by blast
      from k(2) have "ex k \<noteq> []" by (auto simp: own_at_def)
      with key k show "?k \<in> Canonical ` set targets \<and> SameWorktree (s_worktree s) (r_worktree r) \<and>
          r_owner_uuid r = a" by metis
    next
      assume a: "?k \<in> Canonical ` set targets \<and> SameWorktree (s_worktree s) (r_worktree r) \<and>
          r_owner_uuid r = a"
      with l have "own_at ex a ?k" unfolding own_at_def by (metis scanLock_simps(2))
      with a have "?k \<in> set (fst (snd cl))" unfolding own by blast
      with a show "owned_rows (s_caseFold s) (fst (snd cl)) a (worktreeFilter (s_worktree s)) r"
        unfolding owned_rows_def worktreeFilter_SameWorktree by (metis image_eqI key_norm_idem set_map)
    qed
    have 2: "lock_pk r \<in> lock_key_of ` set (snd (snd cl)) \<longleftrightarrow>
        ?k \<in> Canonical ` set targets \<and> SameWorktree (s_worktree s) (r_worktree r) \<and> stale_at ex a ec ?k"
    proof
      assume "lock_pk r \<in> lock_key_of ` set (snd (snd cl))"
      then obtain l' where l': "l' \<in> set (snd (snd cl))" "lock_key_of l' = lock_pk r" by (metis imageE)
      then obtain k where kl: "k \<in> Canonical ` set targets" "stale_at ex a ec k" "l' \<in> set (ex k)"
        unfolding rec by blast
      then obtain r' where r': "r' \<in> set (db_locks d)" "l' = scanLock (db_hook_calls d) r'"
        "?n (r_target_canonical r') = k" "SameWorktree (s_worktree s) (r_worktree r')"
        unfolding mem by blast
      with l'(2) have "r' = r" by (intro pk_unique_eq [OF assms(3) r'(1) r]) simp
      with r' kl show "?k \<in> Canonical ` set targets \<and> SameWorktree (s_worktree s) (r_worktree r) \<and>
          stale_at ex a ec ?k" by simp
    next
      assume a: "?k \<in> Canonical ` set targets \<and> SameWorktree (s_worktree s) (r_worktree r) \<and> stale_at ex a ec ?k"
      with l have "?l \<in> set (snd (snd cl))" unfolding rec by blast
      then show "lock_pk r \<in> lock_key_of ` set (snd (snd cl))"
        by (metis image_eqI lock_key_of_scan)
    qed
    show ?thesis unfolding 1 2 released_def Let_def ex_def ec_def by blast
  qed
  then show ?thesis
    unfolding ReleaseLocks_Inr(2) [OF assms(1,2), folded ex_def ec_def, folded cl_def] applyReleaseChangesTx_locks
    by (rule filter_cong [OF refl])
qed

subsection \<open>What a session sweep selects\<close>

lemma release_worktree_locks:
  "db_locks (release_worktree s cs a n2 wt d) =
     filter (\<lambda>r. \<not> owned_rows (s_caseFold s) (map st_Canonical (filter (\<lambda>c. st_Worktree c = wt) cs)) a
                   (\<lambda>w. w = wt) r) (db_locks d)"
  by (simp add: release_worktree_def Let_def frame_simps)

lemma release_worktree_frame [frame_simps]:
  "db_path_epochs (release_worktree s cs a n2 wt d) = db_path_epochs d"
  "db_candidate_claims (release_worktree s cs a n2 wt d) = db_candidate_claims d"
  "db_violations (release_worktree s cs a n2 wt d) = db_violations d"
  "db_hook_calls (release_worktree s cs a n2 wt d) = db_hook_calls d"
  by (simp_all add: release_worktree_def Let_def frame_simps)

lemma fold_release_worktree:
  "db_locks (fold (release_worktree s cs a n2) wts d) =
     filter (\<lambda>r. \<not> (r_worktree r \<in> set wts \<and> r_owner_uuid r = a \<and>
        key_norm (s_caseFold s) (r_target_canonical r) \<in>
          key_norm (s_caseFold s) ` st_Canonical ` {c \<in> set cs. st_Worktree c = r_worktree r})) (db_locks d)"
  "db_path_epochs (fold (release_worktree s cs a n2) wts d) = db_path_epochs d"
  "db_candidate_claims (fold (release_worktree s cs a n2) wts d) = db_candidate_claims d"
  "db_violations (fold (release_worktree s cs a n2) wts d) = db_violations d"
  "db_hook_calls (fold (release_worktree s cs a n2) wts d) = db_hook_calls d"
proof (induction wts arbitrary: d)
  case (Cons wt wts)
  {
    case 1
    show ?case
      unfolding fold_simps Cons.IH(1) release_worktree_locks filter_filter
      by (rule filter_cong [OF refl]) (auto simp: owned_rows_def)
  next
    case 2 show ?case by (simp add: Cons.IH frame_simps)
  next
    case 3 show ?case by (simp add: Cons.IH frame_simps)
  next
    case 4 show ?case by (simp add: Cons.IH frame_simps)
  next
    case 5 show ?case by (simp add: Cons.IH frame_simps)
  }
qed simp_all

lemma emitLockReleaseEventsTx_frame [frame_simps]:
  "db_locks (emitLockReleaseEventsTx s cs a now d) = db_locks d"
  "db_path_epochs (emitLockReleaseEventsTx s cs a now d) = db_path_epochs d"
  "db_candidate_claims (emitLockReleaseEventsTx s cs a now d) = db_candidate_claims d"
  "db_violations (emitLockReleaseEventsTx s cs a now d) = db_violations d"
  "db_hook_calls (emitLockReleaseEventsTx s cs a now d) = db_hook_calls d"
  by (simp_all add: emitLockReleaseEventsTx_def frame_simps)

lemma loadSessionTargetsTx_mem:
  "c \<in> set (loadSessionTargetsTx a sess intent d) \<longleftrightarrow>
     (\<exists>r \<in> set (db_locks d). session_match a sess intent r \<and>
        c = \<lparr>st_Canonical = r_target_canonical r, st_Intent = r_intent r, st_Worktree = r_worktree r\<rparr>)"
  by (auto simp: loadSessionTargetsTx_def)

text \<open>On every store the sweep deletes at least the selected rows; when keys compare byte for byte
  it deletes exactly those.\<close>

lemma ReleaseBySession_locks:
  assumes "ReleaseBySession s i a sess intent d = Inr (d', sr)"
  shows "db_locks d' = filter (\<lambda>r. \<not> (r_owner_uuid r = a \<and>
      (\<exists>q \<in> set (db_locks d). session_match a sess intent q \<and> r_worktree q = r_worktree r \<and>
         key_norm (s_caseFold s) (r_target_canonical q) = key_norm (s_caseFold s) (r_target_canonical r)))) (db_locks d)"
proof -
  let ?cs = "loadSessionTargetsTx a sess intent d"
  show ?thesis
  proof (cases "?cs = []")
    case True
    with assms have "d' = d" by (auto simp: ReleaseBySession_def Let_def split: if_splits)
    moreover have "\<not> session_match a sess intent q" if "q \<in> set (db_locks d)" for q
      using that True loadSessionTargetsTx_mem [of _ a sess intent d] by fastforce
    ultimately show ?thesis by (simp add: filter_True)
  next
    case False
    with assms have "db_locks d' =
        db_locks (fold (release_worktree s ?cs a (io_now2 i)) (sort (remdups (map st_Worktree ?cs))) d)"
      by (auto simp: ReleaseBySession_def Let_def releaseSessionTargetsTx_def frame_simps split: if_splits)
    moreover have cs: "set ?cs =
        (\<lambda>r. \<lparr>st_Canonical = r_target_canonical r, st_Intent = r_intent r, st_Worktree = r_worktree r\<rparr>) `
          {q \<in> set (db_locks d). session_match a sess intent q}"
      by (auto simp: loadSessionTargetsTx_def)
    have "(r_worktree r \<in> set (sort (remdups (map st_Worktree ?cs))) \<and>
        key_norm (s_caseFold s) (r_target_canonical r) \<in>
          key_norm (s_caseFold s) ` st_Canonical ` {c \<in> set ?cs. st_Worktree c = r_worktree r}) \<longleftrightarrow>
      (\<exists>q \<in> set (db_locks d). session_match a sess intent q \<and> r_worktree q = r_worktree r \<and>
         key_norm (s_caseFold s) (r_target_canonical q) = key_norm (s_caseFold s) (r_target_canonical r))" for r
      by (auto simp: cs image_iff) (metis+)?
    ultimately show ?thesis
      unfolding fold_release_worktree by (simp cong: filter_cong) (rule filter_cong [OF refl], blast)
  qed
qed

subsection \<open>Properties\<close>

text \<open>C16: The authority of a release. A row that \<open>ReleaseLocks\<close> removes lies on one of the named
  targets, in the caller's checkout, and either is the caller's own or is stale together with every
  other holder of its target there; every other row, a live foreign one above all, stays.\<close>

theorem ReleaseLocks_authority:
  assumes "ReleaseLocks s i targets a d = Inr (d', rs)" "pk_unique (db_locks d)"
    and "r \<in> set (db_locks d)" "r \<notin> set (db_locks d')"
  defines "k \<equiv> key_norm (s_caseFold s) (r_target_canonical r)"
  shows "k \<in> Canonical ` set targets \<and> SameWorktree (s_worktree s) (r_worktree r) \<and>
    (r_owner_uuid r = a \<or>
     (\<forall>q \<in> set (db_locks d). key_norm (s_caseFold s) (r_target_canonical q) = k \<and>
        SameWorktree (s_worktree s) (r_worktree q) \<longrightarrow>
        IsStale (eval_ctx s i) (scanLock (db_hook_calls d) q)))"
proof (cases "targets = []")
  case True
  with assms(1,3,4) show ?thesis by (simp add: ReleaseLocks_def)
next
  case False
  have rel: "released s i targets a d r"
    using assms(3,4) unfolding ReleaseLocks_locks [OF assms(1) False assms(2)] by simp
  then have k: "k \<in> Canonical ` set targets" "SameWorktree (s_worktree s) (r_worktree r)"
    and own: "r_owner_uuid r = a \<or> stale_at (batch_snapshot s targets d) a (eval_ctx s i) k"
    unfolding released_def k_def Let_def by blast+
  have img: "k \<in> (\<lambda>t. key_norm (s_caseFold s) (Canonical t)) ` set targets"
    using k(1) unfolding k_def by (metis (no_types, lifting) imageE imageI key_norm_idem)
  have "IsStale (eval_ctx s i) (scanLock (db_hook_calls d) q)"
    if "stale_at (batch_snapshot s targets d) a (eval_ctx s i) k" "q \<in> set (db_locks d)"
      "key_norm (s_caseFold s) (r_target_canonical q) = k" "SameWorktree (s_worktree s) (r_worktree q)" for q
  proof -
    have "scanLock (db_hook_calls d) q \<in> set (batch_snapshot s targets d k)"
      unfolding batch_snapshot_mem using that img by blast
    with that(1) show ?thesis by (simp add: stale_at_def)
  qed
  with k own show ?thesis by blast
qed

theorem ReleaseLocks_authority_witness:
  "case ReleaseLocks ex_store (ex_io 10) [Target ''d'', Target ''x''] ''cy'' ex_db of
     Inl _ \<Rightarrow> False
   | Inr (d', rs) \<Rightarrow> map rr_State rs = [StateNotOwner, StateReclaimedStale] \<and>
       \<not> (\<exists>r \<in> set (db_locks ex_db) - set (db_locks d'). r_target_canonical r = ''d'')"
proof -
  let ?call = "ReleaseLocks ex_store (ex_io 10) [Target ''d'', Target ''x''] ''cy'' ex_db"
  have c: "case ?call of Inl _ \<Rightarrow> False | Inr (d', rs) \<Rightarrow> map rr_State rs = [StateNotOwner, StateReclaimedStale]"
    by code_simp
  then obtain d' rs where e: "?call = Inr (d', rs)" by (cases ?call) auto
  have "\<exists>q \<in> set (db_locks ex_db). r_target_canonical q = ''d'' \<and> SameWorktree (s_worktree ex_store) (r_worktree q) \<and>
      \<not> IsStale (eval_ctx ex_store (ex_io 10)) (scanLock (db_hook_calls ex_db) q)"
    by code_simp
  moreover have "r_owner_uuid r \<noteq> ''cy''" if "r \<in> set (db_locks ex_db)" for r
    using that by (auto simp: ex_db_def lock_row_of_def ex_lock_def)
  ultimately have "r \<in> set (db_locks ex_db) \<Longrightarrow> r \<notin> set (db_locks d') \<Longrightarrow> r_target_canonical r \<noteq> ''d''" for r
    using ReleaseLocks_authority [OF e, of r] ex_db_pk_unique by (auto simp: ex_store_def)
  with c e show ?thesis by auto
qed

text \<open>What a release reports, for distinct targets in normal form: unlocked exactly when the
  caller held the target, reclaimed exactly when nobody live did and somebody stale did, not-owner
  exactly when a live foreign holder vetoed, no-lock exactly when there was no holder; and after it
  the caller holds none of the targets in its checkout.\<close>

theorem ReleaseLocks_outcomes:
  assumes "ReleaseLocks s i targets a d = Inr (d', rs)" "pk_unique (db_locks d)"
    and "distinct (map Canonical targets)" "n < length targets"
    and "key_norm (s_caseFold s) (Canonical (targets ! n)) = Canonical (targets ! n)"
  defines "holders \<equiv> set (batch_snapshot s targets d (Canonical (targets ! n)))"
  shows "(rr_State (rs ! n) = StateNoLock \<longleftrightarrow> holders = {}) \<and>
    (rr_State (rs ! n) = StateUnlocked \<longleftrightarrow> (\<exists>l \<in> holders. l_OwnerUUID l = a)) \<and>
    (rr_State (rs ! n) = StateReclaimedStale \<longleftrightarrow>
       holders \<noteq> {} \<and> (\<forall>l \<in> holders. l_OwnerUUID l \<noteq> a \<and> IsStale (eval_ctx s i) l)) \<and>
    (rr_State (rs ! n) = StateNotOwner \<longleftrightarrow>
       (\<forall>l \<in> holders. l_OwnerUUID l \<noteq> a) \<and> (\<exists>l \<in> holders. \<not> IsStale (eval_ctx s i) l)) \<and>
    \<not> (\<exists>r \<in> set (db_locks d'). r_owner_uuid r = a \<and> SameWorktree (s_worktree s) (r_worktree r) \<and>
          key_norm (s_caseFold s) (r_target_canonical r) = Canonical (targets ! n))"
proof -
  have ne: "targets \<noteq> []" using assms(4) by auto
  let ?t = "targets ! n" and ?ex = "batch_snapshot s targets d"
  have "rs ! n = fst (classify_first ?t (?ex (Canonical ?t)) a (eval_ctx s i))"
    using assms(3,4) classify_loop_results [of targets "[]" ?ex a "eval_ctx s i"]
    unfolding ReleaseLocks_Inr(1) [OF assms(1) ne] classifyReleases_def by simp
  then have st: "rr_State (rs ! n) =
     (if ?ex (Canonical ?t) = [] then StateNoLock
      else if own_at ?ex a (Canonical ?t) then StateUnlocked
      else if stale_at ?ex a (eval_ctx s i) (Canonical ?t) then StateReclaimedStale else StateNotOwner)"
    by (simp add: classify_first_state)
  have none: "\<not> (\<exists>r \<in> set (db_locks d'). r_owner_uuid r = a \<and> SameWorktree (s_worktree s) (r_worktree r) \<and>
          key_norm (s_caseFold s) (r_target_canonical r) = Canonical ?t)"
    using nth_mem [OF assms(4)] unfolding ReleaseLocks_locks [OF assms(1) ne assms(2)]
    by (auto simp: released_def Let_def)
  show ?thesis
    using st none unfolding holders_def by (auto simp: own_at_def stale_at_def split: if_splits)
qed

theorem ReleaseLocks_outcomes_witness:
  "case ReleaseLocks ex_store (ex_io 10) [Target ''d''] ''bob'' ex_db of
     Inl _ \<Rightarrow> False
   | Inr (d', rs) \<Rightarrow> \<not> (\<exists>r \<in> set (db_locks d'). r_owner_uuid r = ''bob'' \<and> r_target_canonical r = ''d'' \<and> r_worktree r = ''main'')"
proof -
  let ?call = "ReleaseLocks ex_store (ex_io 10) [Target ''d''] ''bob'' ex_db"
  have "\<not> isl ?call" by code_simp
  then obtain d' rs where e: "?call = Inr (d', rs)" by (cases ?call) auto
  show ?thesis
    using ReleaseLocks_outcomes [OF e ex_db_pk_unique, of 0] e by (auto simp: ex_store_def)
qed

text \<open>The session sweep is exact. On a store that compares keys byte for byte it deletes the
  rows of the owner (of the pinned session and intent, where given) in every checkout and no other
  row, and reports exactly the targets it deleted.\<close>

theorem ReleaseBySession_exact:
  assumes "ReleaseBySession s i a sess intent d = Inr (d', sr)" "pk_unique (db_locks d)" "\<not> s_caseFold s"
  shows "db_locks d' = filter (\<lambda>r. \<not> session_match a sess intent r) (db_locks d) \<and>
    set (map rr_Target (sr_Results sr)) =
      (Target \<circ> r_target_canonical) ` {r \<in> set (db_locks d). session_match a sess intent r}"
proof
  have "(r_owner_uuid r = a \<and>
      (\<exists>q \<in> set (db_locks d). session_match a sess intent q \<and> r_worktree q = r_worktree r \<and>
         r_target_canonical q = r_target_canonical r)) = session_match a sess intent r"
    if "r \<in> set (db_locks d)" for r
  proof
    assume "r_owner_uuid r = a \<and>
      (\<exists>q \<in> set (db_locks d). session_match a sess intent q \<and> r_worktree q = r_worktree r \<and>
         r_target_canonical q = r_target_canonical r)"
    then obtain q where q: "q \<in> set (db_locks d)" "session_match a sess intent q" "lock_pk q = lock_pk r"
      by (auto simp: lock_pk_def session_match_def)
    from pk_unique_eq [OF assms(2) q(1) that q(3)] q(2) show "session_match a sess intent r" by simp
  qed (use that in \<open>auto simp: session_match_def\<close>)
  then show "db_locks d' = filter (\<lambda>r. \<not> session_match a sess intent r) (db_locks d)"
    unfolding ReleaseBySession_locks [OF assms(1)] using assms(3)
    by (intro filter_cong [OF refl]) (simp add: key_norm_def)
  have "sr_Results sr = sessionReleaseResults (loadSessionTargetsTx a sess intent d) (s_worktree s)"
    using assms(1)
    by (auto simp: ReleaseBySession_def Let_def sessionReleaseResults_def split: if_splits)
  then show "set (map rr_Target (sr_Results sr)) =
      (Target \<circ> r_target_canonical) ` {r \<in> set (db_locks d). session_match a sess intent r}"
    by (auto simp: sessionReleaseResults_def loadSessionTargetsTx_def image_image)
qed

theorem ReleaseBySession_exact_witness:
  "case ReleaseBySession ex_store (ex_io 10) ''bob'' [] [] ex_db of
     Inl _ \<Rightarrow> False | Inr (d', sr) \<Rightarrow> map r_owner_uuid (db_locks d') = [''al'']"
proof -
  let ?call = "ReleaseBySession ex_store (ex_io 10) ''bob'' [] [] ex_db"
  have "\<not> isl ?call" by code_simp
  then obtain d' sr where e: "?call = Inr (d', sr)" by (cases ?call) auto
  show ?thesis
    using ReleaseBySession_exact [OF e ex_db_pk_unique] e
    by (simp add: ex_store_def ex_db_def session_match_def lock_row_of_def ex_lock_def)
qed

end
