(* ===== verification/Break.thy ===== *)
theory Break
  imports Release
begin

text \<open>
  \<open>internal/store/locks_break.go\<close>: the forced break and the stale-only reclaim of named targets,
  with the compare-and-swap precondition of \<open>--expect-holder\<close>.  The expectations map is a
  partial function: a target outside its domain states no precondition.
\<close>

subsection \<open>Definitions\<close>

datatype BreakMode = BreakForce | BreakStale

record BreakResult =
  br_Target :: target
  br_Err :: "store_error option"

type_synonym BreakExpectations = "string \<Rightarrow> HoldRef list option"

definition holdRefsOf :: "LockRecord list \<Rightarrow> HoldRef list" where
  "holdRefsOf holders = SortHoldRefs (map (\<lambda>l. HoldRef (l_OwnerUUID l) (l_Epoch l)) holders)"

definition checkBreakExpectation ::
  "target \<Rightarrow> BreakExpectations \<Rightarrow> LockRecord list \<Rightarrow> store_error option" where
  "checkBreakExpectation t expect holders =
     (case expect (Canonical t) of
        None \<Rightarrow> None
      | Some want \<Rightarrow>
          (let got = holdRefsOf holders; srt = SortHoldRefs want
           in if HoldRefsEqual srt got then None
              else Some (HolderChangedError (Canonical t) srt got)))"

record breakBatch =
  bb_targets :: "target list"
  bb_existing :: holders_map
  bb_byAgent :: AgentUUID
  bb_mode :: BreakMode
  bb_reason :: string
  bb_ec :: EvalContext
  bb_now :: time
  bb_expect :: BreakExpectations
  bb_worktree :: string

definition break_event :: "breakBatch \<Rightarrow> EventKind \<Rightarrow> target \<Rightarrow> LockRecord \<Rightarrow> Event" where
  "break_event b kind t l =
     \<lparr>e_ID = [], e_Target = t, e_Kind = kind, e_ActorUUID = bb_byAgent b,
      e_SubjectUUID = l_OwnerUUID l, e_Reason = bb_reason b, e_Detail = [],
      e_CreatedAt = Now (bb_ec b)\<rparr>"

text \<open>Per target, in order: the swap check, the no-lock branch, the authorization of the whole
  holder set.  The deletes are (owner, path) pairs; \<open>deleteByOwner\<close> groups them below.\<close>

definition break_verdict :: "breakBatch \<Rightarrow> bool \<Rightarrow> target \<Rightarrow> store_error option" where
  "break_verdict b force t =
     (let holders = bb_existing b (Canonical t)
      in case checkBreakExpectation t (bb_expect b) holders of
           Some er \<Rightarrow> Some er
         | None \<Rightarrow>
             if holders = [] then Some ErrNoLockAtTarget
             else case authorizeHolders holders (bb_ec b) force of
                    Some er \<Rightarrow> Some (ErrAuthz er)
                  | None \<Rightarrow> None)"

fun classify_breaks_loop ::
  "breakBatch \<Rightarrow> bool \<Rightarrow> EventKind \<Rightarrow> target list \<Rightarrow>
     BreakResult list \<times> Event list \<times> (AgentUUID \<times> string) list" where
  "classify_breaks_loop b force kind [] = ([], [], [])"
| "classify_breaks_loop b force kind (t # ts) =
     (let (results, evs, dels) = classify_breaks_loop b force kind ts
      in case break_verdict b force t of
           Some er \<Rightarrow> (\<lparr>br_Target = t, br_Err = Some er\<rparr> # results, evs, dels)
         | None \<Rightarrow>
             (\<lparr>br_Target = t, br_Err = None\<rparr> # results,
              map (break_event b kind t) (bb_existing b (Canonical t)) @ evs,
              map (\<lambda>l. (l_OwnerUUID l, Canonical t)) (bb_existing b (Canonical t)) @ dels))"

definition classifyBreaks ::
  "breakBatch \<Rightarrow> bool \<Rightarrow> EventKind \<Rightarrow> BreakResult list \<times> Event list \<times> (AgentUUID \<times> string) list" where
  "classifyBreaks b force kind = classify_breaks_loop b force kind (bb_targets b)"

text \<open>\<open>for owner, canonicals := range deleteByOwner\<close>.\<close>

fun delete_by_owner ::
  "breakBatch \<Rightarrow> (AgentUUID \<times> string) list \<Rightarrow> AgentUUID list \<Rightarrow> db \<Rightarrow> db" where
  "delete_by_owner b dels [] d = d"
| "delete_by_owner b dels (own # owns) d =
     delete_by_owner b dels owns
       (deleteOwnedTx (CaseFold (bb_ec b)) (map snd (filter (\<lambda>p. fst p = own) dels)) own
          (worktreeFilter (bb_worktree b)) d)"

definition applyBreakChangesTx :: "store \<Rightarrow> breakBatch \<Rightarrow> db \<Rightarrow> db \<times> BreakResult list" where
  "applyBreakChangesTx s b d =
     (let force = (bb_mode b = BreakForce);
          kind = (if force then EventLockBroken else EventLockReclaimedStale);
          (results, evs, dels) = classifyBreaks b force kind;
          d1 = (if evs \<noteq> [] then snd (appendEventsTx s evs d) else d);
          d2 = delete_by_owner b dels (remdups (map fst dels)) d1
      in (rotateEventsTx (bb_now b) (gcTagsTx (bb_now b) d2), results))"

definition BreakLocks ::
  "store \<Rightarrow> io \<Rightarrow> target list \<Rightarrow> AgentUUID \<Rightarrow> BreakMode \<Rightarrow> string \<Rightarrow> BreakExpectations \<Rightarrow> db \<Rightarrow>
     store_error + db \<times> BreakResult list" where
  "BreakLocks s i targets agent mode reason expect d =
     (if targets = [] then Inr (d, [])
      else withLockBatchTx s i targets
        (\<lambda>existing ec d. applyBreakChangesTx s
           \<lparr>bb_targets = targets, bb_existing = existing, bb_byAgent = agent, bb_mode = mode,
            bb_reason = reason, bb_ec = ec, bb_now = Now ec, bb_expect = expect,
            bb_worktree = s_worktree s\<rparr> d) d)"

subsection \<open>What a break removes\<close>

lemma delete_by_owner_frame [frame_simps]:
  "db_path_epochs (delete_by_owner b dels owns d) = db_path_epochs d"
  "db_candidate_claims (delete_by_owner b dels owns d) = db_candidate_claims d"
  "db_violations (delete_by_owner b dels owns d) = db_violations d"
  "db_hook_calls (delete_by_owner b dels owns d) = db_hook_calls d"
  "db_events (delete_by_owner b dels owns d) = db_events d"
  by (induction owns arbitrary: d) (simp_all add: frame_simps)

lemma delete_by_owner_locks:
  "db_locks (delete_by_owner b dels owns d) =
     filter (\<lambda>r. \<not> (r_owner_uuid r \<in> set owns \<and> worktreeFilter (bb_worktree b) (r_worktree r) \<and>
        (\<exists>k. (r_owner_uuid r, k) \<in> set dels \<and>
          key_norm (CaseFold (bb_ec b)) (r_target_canonical r) = key_norm (CaseFold (bb_ec b)) k))) (db_locks d)"
proof (induction owns arbitrary: d)
  case Nil
  then show ?case by simp
next
  case (Cons own owns)
  have own: "owned_rows f (map snd (filter (\<lambda>p. fst p = own) dels)) own w r \<longleftrightarrow>
      r_owner_uuid r = own \<and> w (r_worktree r) \<and>
      (\<exists>k. (r_owner_uuid r, k) \<in> set dels \<and> key_norm f (r_target_canonical r) = key_norm f k)" for f w r
    by (auto simp: owned_rows_def image_iff)
  show ?case
    unfolding delete_by_owner.simps Cons.IH deleteOwnedTx_locks filter_filter own
    by (rule filter_cong [OF refl]) auto
qed

lemma classify_breaks_loop_dels:
  "(own, k) \<in> set (snd (snd (classify_breaks_loop b force kind ts))) \<longleftrightarrow>
     (\<exists>t \<in> set ts. k = Canonical t \<and> break_verdict b force t = None \<and>
        (\<exists>l \<in> set (bb_existing b k). l_OwnerUUID l = own))"
  by (induction ts) (auto simp: case_prod_beta Let_def split: option.splits)

lemma classify_breaks_loop_results:
  "fst (classify_breaks_loop b force kind ts) =
     map (\<lambda>t. \<lparr>br_Target = t, br_Err = break_verdict b force t\<rparr>) ts"
  by (induction ts) (auto simp: case_prod_beta Let_def split: option.splits)

lemma BreakLocks_Inr:
  assumes "BreakLocks s i targets a mode reason expect d = Inr (d', rs)" "targets \<noteq> []"
  obtains b where "bb_targets b = targets" "bb_existing b = batch_snapshot s targets d"
    "bb_ec b = eval_ctx s i" "bb_expect b = expect" "bb_worktree b = s_worktree s"
    "(d', rs) = applyBreakChangesTx s b d" "bb_mode b = mode"
proof -
  let ?b = "\<lparr>bb_targets = targets, bb_existing = batch_snapshot s targets d, bb_byAgent = a, bb_mode = mode,
     bb_reason = reason, bb_ec = eval_ctx s i, bb_now = io_now i, bb_expect = expect,
     bb_worktree = s_worktree s\<rparr>"
  have "(d', rs) = applyBreakChangesTx s ?b d"
    using assms by (auto simp: BreakLocks_def withLockBatchTx_def Let_def split: if_splits)
  then show ?thesis by (intro that [of ?b]) simp_all
qed

text \<open>The rows a break removes, and the verdict of each target.\<close>

lemma BreakLocks_locks:
  assumes "BreakLocks s i targets a mode reason expect d = Inr (d', rs)" "targets \<noteq> []"
  obtains b where "bb_existing b = batch_snapshot s targets d" "bb_ec b = eval_ctx s i"
    "bb_expect b = expect"
    "rs = map (\<lambda>t. \<lparr>br_Target = t, br_Err = break_verdict b (mode = BreakForce) t\<rparr>) targets"
    "\<And>r. r \<in> set (db_locks d') \<longleftrightarrow> r \<in> set (db_locks d) \<and>
       \<not> (\<exists>t \<in> set targets. break_verdict b (mode = BreakForce) t = None \<and>
            key_norm (s_caseFold s) (r_target_canonical r) = Canonical t \<and>
            SameWorktree (s_worktree s) (r_worktree r))"
    "db_candidate_claims d' = db_candidate_claims d" "db_path_epochs d' = db_path_epochs d"
    "db_hook_calls d' = db_hook_calls d" "db_violations d' = db_violations d"
    "\<exists>P. db_locks d' = filter P (db_locks d)"
proof -
  obtain b where b: "bb_targets b = targets" "bb_existing b = batch_snapshot s targets d"
    "bb_ec b = eval_ctx s i" "bb_expect b = expect" "bb_worktree b = s_worktree s"
    "(d', rs) = applyBreakChangesTx s b d" "bb_mode b = mode"
    by (rule BreakLocks_Inr [OF assms])
  define kind where "kind = (if mode = BreakForce then EventLockBroken else EventLockReclaimedStale)"
  define cl where "cl = classify_breaks_loop b (mode = BreakForce) kind targets"
  let ?n = "key_norm (s_caseFold s)"
  let ?d1 = "if fst (snd cl) \<noteq> [] then snd (appendEventsTx s (fst (snd cl)) d) else d"
  have d': "d' = rotateEventsTx (bb_now b) (gcTagsTx (bb_now b)
      (delete_by_owner b (snd (snd cl)) (remdups (map fst (snd (snd cl)))) ?d1))"
    and rs: "rs = fst cl"
    using b(1,6,7) by (auto simp: applyBreakChangesTx_def classifyBreaks_def Let_def case_prod_beta cl_def kind_def)
  have locks: "db_locks d' = filter (\<lambda>r. \<not> (r_owner_uuid r \<in> set (remdups (map fst (snd (snd cl)))) \<and>
        worktreeFilter (s_worktree s) (r_worktree r) \<and>
        (\<exists>k. (r_owner_uuid r, k) \<in> set (snd (snd cl)) \<and> ?n (r_target_canonical r) = ?n k))) (db_locks d)"
    unfolding d' by (simp add: frame_simps delete_by_owner_locks b(3,5))
  show thesis
  proof (rule that [OF b(2,3,4)])
    show "rs = map (\<lambda>t. \<lparr>br_Target = t, br_Err = break_verdict b (mode = BreakForce) t\<rparr>) targets"
      unfolding rs cl_def by (rule classify_breaks_loop_results)
    show "\<exists>P. db_locks d' = filter P (db_locks d)" using locks by blast
    show "db_candidate_claims d' = db_candidate_claims d" "db_path_epochs d' = db_path_epochs d"
      "db_hook_calls d' = db_hook_calls d" "db_violations d' = db_violations d"
      unfolding d' by (simp_all add: frame_simps)
    fix r
    have eq: "(r_owner_uuid r \<in> set (remdups (map fst (snd (snd cl)))) \<and> worktreeFilter (s_worktree s) (r_worktree r) \<and>
        (\<exists>k. (r_owner_uuid r, k) \<in> set (snd (snd cl)) \<and> ?n (r_target_canonical r) = ?n k)) \<longleftrightarrow>
      (\<exists>t \<in> set targets. break_verdict b (mode = BreakForce) t = None \<and>
            ?n (r_target_canonical r) = Canonical t \<and> SameWorktree (s_worktree s) (r_worktree r))"
      if r: "r \<in> set (db_locks d)"
    proof
      assume "r_owner_uuid r \<in> set (remdups (map fst (snd (snd cl)))) \<and> worktreeFilter (s_worktree s) (r_worktree r) \<and>
        (\<exists>k. (r_owner_uuid r, k) \<in> set (snd (snd cl)) \<and> ?n (r_target_canonical r) = ?n k)"
      then obtain t l where t: "t \<in> set targets" "break_verdict b (mode = BreakForce) t = None"
        "l \<in> set (batch_snapshot s targets d (Canonical t))" "?n (r_target_canonical r) = ?n (Canonical t)"
        "SameWorktree (s_worktree s) (r_worktree r)"
        unfolding cl_def classify_breaks_loop_dels b(2) worktreeFilter_SameWorktree by blast
      have "?n (Canonical t) = Canonical t"
        by (rule batch_snapshot_key [of s targets d]) (use t(3) in auto)
      with t show "\<exists>t \<in> set targets. break_verdict b (mode = BreakForce) t = None \<and>
            ?n (r_target_canonical r) = Canonical t \<and> SameWorktree (s_worktree s) (r_worktree r)"
        by auto
    next
      assume "\<exists>t \<in> set targets. break_verdict b (mode = BreakForce) t = None \<and>
            ?n (r_target_canonical r) = Canonical t \<and> SameWorktree (s_worktree s) (r_worktree r)"
      then obtain t where t: "t \<in> set targets" "break_verdict b (mode = BreakForce) t = None"
        "?n (r_target_canonical r) = Canonical t" "SameWorktree (s_worktree s) (r_worktree r)"
        by blast
      have "?n (Canonical t) = Canonical t" using t(3) key_norm_idem by metis
      with r t have "scanLock (db_hook_calls d) r \<in> set (batch_snapshot s targets d (Canonical t))"
        unfolding batch_snapshot_mem by (metis (no_types, lifting) image_eqI)
      then have del: "(r_owner_uuid r, Canonical t) \<in> set (snd (snd cl))"
        unfolding cl_def classify_breaks_loop_dels b(2)
        by (intro bexI [OF _ t(1)] conjI refl t(2) bexI [rotated]) (auto simp: scanLock_simps)
      moreover from del have "r_owner_uuid r \<in> set (remdups (map fst (snd (snd cl))))" by force
      ultimately show "r_owner_uuid r \<in> set (remdups (map fst (snd (snd cl)))) \<and>
        worktreeFilter (s_worktree s) (r_worktree r) \<and>
        (\<exists>k. (r_owner_uuid r, k) \<in> set (snd (snd cl)) \<and> ?n (r_target_canonical r) = ?n k)"
        using t(3,4) \<open>?n (Canonical t) = Canonical t\<close> unfolding worktreeFilter_SameWorktree by auto
    qed
    show "r \<in> set (db_locks d') \<longleftrightarrow> r \<in> set (db_locks d) \<and>
       \<not> (\<exists>t \<in> set targets. break_verdict b (mode = BreakForce) t = None \<and>
            ?n (r_target_canonical r) = Canonical t \<and> SameWorktree (s_worktree s) (r_worktree r))"
      unfolding locks set_filter mem_Collect_eq using eq by (intro conj_cong refl arg_cong [of _ _ Not])
  qed
qed

text \<open>A stale-only break removes a row only with every holder of its target in the checkout stale.\<close>

lemma BreakStale_removes:
  assumes "BreakLocks s i targets a BreakStale reason expect d = Inr (d', rs)"
    and "r \<in> set (db_locks d)" "r \<notin> set (db_locks d')"
  shows "SameWorktree (s_worktree s) (r_worktree r) \<and>
    (\<forall>q \<in> set (db_locks d).
      key_norm (s_caseFold s) (r_target_canonical q) = key_norm (s_caseFold s) (r_target_canonical r) \<longrightarrow>
      SameWorktree (s_worktree s) (r_worktree q) \<longrightarrow>
      IsStale (eval_ctx s i) (scanLock (db_hook_calls d) q))"
proof (cases "targets = []")
  case True
  with assms show ?thesis by (simp add: BreakLocks_def)
next
  case False
  obtain b where b: "bb_existing b = batch_snapshot s targets d" "bb_ec b = eval_ctx s i"
    "\<And>r. r \<in> set (db_locks d') \<longleftrightarrow> r \<in> set (db_locks d) \<and>
       \<not> (\<exists>t \<in> set targets. break_verdict b (BreakStale = BreakForce) t = None \<and>
            key_norm (s_caseFold s) (r_target_canonical r) = Canonical t \<and>
            SameWorktree (s_worktree s) (r_worktree r))"
    by (rule BreakLocks_locks [OF assms(1) False], rule that, assumption+)
  from assms(2,3) b(3) obtain t where t: "t \<in> set targets" "break_verdict b False t = None"
    "key_norm (s_caseFold s) (r_target_canonical r) = Canonical t" "SameWorktree (s_worktree s) (r_worktree r)"
    by auto
  from t(2) have auth: "authorizeHolders (batch_snapshot s targets d (Canonical t)) (eval_ctx s i) False = None"
    by (auto simp: break_verdict_def Let_def b(1,2) split: option.splits if_splits)
  have "IsStale (eval_ctx s i) (scanLock (db_hook_calls d) q)"
    if "q \<in> set (db_locks d)" "SameWorktree (s_worktree s) (r_worktree q)"
      "key_norm (s_caseFold s) (r_target_canonical q) = key_norm (s_caseFold s) (r_target_canonical r)" for q
  proof -
    have "scanLock (db_hook_calls d) q \<in> set (batch_snapshot s targets d (Canonical t))"
      unfolding batch_snapshot_mem
      using that t(1,3) by (metis (no_types, lifting) image_eqI key_norm_idem)
    with auth show ?thesis by (simp add: authorizeHolders_None)
  qed
  with t(4) show ?thesis by blast
qed

subsection \<open>Properties\<close>



text \<open>The stale-only reclaim never dispossesses a live holder: a row it removes is stale, and so
  is every other holder of that target in the checkout; one live co-holder protects them all.\<close>

theorem BreakStale_spares_live:
  assumes "BreakLocks s i targets a BreakStale reason expect d = Inr (d', rs)"
    and "r \<in> set (db_locks d)" "r \<notin> set (db_locks d')" "q \<in> set (db_locks d)"
    and "key_norm (s_caseFold s) (r_target_canonical q) = key_norm (s_caseFold s) (r_target_canonical r)"
    and "SameWorktree (s_worktree s) (r_worktree q)"
  shows "IsStale (eval_ctx s i) (scanLock (db_hook_calls d) q)"
  using BreakStale_removes [OF assms(1-3)] assms(4-6) by blast

theorem BreakStale_spares_live_witness:
  "IsStale (eval_ctx ex_store (ex_io 10)) (scanLock [] (db_locks ex_db ! 1))"
proof -
  let ?call = "BreakLocks ex_store (ex_io 10) [Target ''x''] ''cy'' BreakStale [] (\<lambda>_. None) ex_db"
  have c: "case ?call of Inl _ \<Rightarrow> False | Inr (d', rs) \<Rightarrow> db_locks ex_db ! 1 \<notin> set (db_locks d')" by code_simp
  then obtain d' rs where e: "?call = Inr (d', rs)" by (cases ?call) auto
  show ?thesis
    using BreakStale_spares_live [OF e, of "db_locks ex_db ! 1" "db_locks ex_db ! 1"] c e
    by (simp add: ex_db_def ex_store_def lock_row_of_def ex_lock_def empty_db_def)
qed

text \<open>A target named twice in one break batch is broken once and audited twice: the loop has no
  duplicate guard, unlike the release's.\<close>

theorem BreakLocks_duplicate_events:
  "case BreakLocks ex_store (ex_io 10) [Target ''d'', Target ''d''] ''cy'' BreakForce [] (\<lambda>_. None) ex_db of
     Inl _ \<Rightarrow> False
   | Inr (d', rs) \<Rightarrow> map ev_kind (db_events d') = [EventLockBroken, EventLockBroken] \<and>
       map br_Err rs = [None, None]"
  by code_simp

end
