(* ===== verification/Refresh.thy ===== *)
theory Refresh
  imports Release
begin

text \<open>
  \<open>internal/store/locks_query.go\<close> (the reads by name) and \<open>locks_refresh.go\<close> (the lease renewals:
  \<open>RefreshLocks\<close> behind \<open>loto refresh\<close>, and the hook's renewal of the files a call touches).
  \<open>newExpiry.Format(time.RFC3339)\<close> renders in the local time zone; it is the parameter \<open>rfc3339\<close>.
\<close>

subsection \<open>Reads\<close>

definition ListLocks :: "db \<Rightarrow> LockRecord list" where
  "ListLocks d = scanLocksRows (db_hook_calls d) (db_locks d)"

definition owner_scope :: "store \<Rightarrow> string list \<Rightarrow> AgentUUID \<Rightarrow> lock_row \<Rightarrow> bool" where
  "owner_scope s ts own r \<longleftrightarrow> owned_rows (s_caseFold s) ts own (worktreeFilter (s_worktree s)) r"

definition LockForOwnerAt :: "store \<Rightarrow> target \<Rightarrow> AgentUUID \<Rightarrow> db \<Rightarrow> LockRecord option" where
  "LockForOwnerAt s t own d =
     map_option (scanLock (db_hook_calls d)) (find (owner_scope s [Canonical t] own) (db_locks d))"

text \<open>\<open>out[k.key(...)] = l\<close>: a later row of the scan replaces an earlier one under its key.\<close>

definition LocksForOwnerAt ::
  "store \<Rightarrow> target list \<Rightarrow> AgentUUID \<Rightarrow> db \<Rightarrow> (string \<Rightarrow> LockRecord option)" where
  "LocksForOwnerAt s targets own d =
     (if targets = [] then (\<lambda>_. None)
      else foldl (\<lambda>m l. m(key_norm (s_caseFold s) (Canonical (l_Target l)) \<mapsto> l)) (\<lambda>_. None)
             (scanLocksRows (db_hook_calls d)
               (filter (owner_scope s (map Canonical targets) own) (db_locks d))))"

definition holder_order :: "lock_row list \<Rightarrow> lock_row list" where
  "holder_order rows = sort_key (\<lambda>r. (r_created_at r, r_owner_uuid r)) rows"

definition rows_at :: "store \<Rightarrow> string list \<Rightarrow> db \<Rightarrow> lock_row list" where
  "rows_at s ts d =
     filter (\<lambda>r. key_norm (s_caseFold s) (r_target_canonical r) \<in> set (map (key_norm (s_caseFold s)) ts))
       (db_locks d)"

definition LocksAt :: "store \<Rightarrow> target \<Rightarrow> db \<Rightarrow> LockRecord list" where
  "LocksAt s t d = scanLocksRows (db_hook_calls d) (holder_order (rows_at s [Canonical t] d))"

definition LockAt :: "store \<Rightarrow> target \<Rightarrow> db \<Rightarrow> LockRecord option" where
  "LockAt s t d =
     (case holder_order (rows_at s [Canonical t] d) of
        [] \<Rightarrow> None | r # _ \<Rightarrow> Some (scanLock (db_hook_calls d) r))"

definition HoldsCovering :: "store \<Rightarrow> target \<Rightarrow> db \<Rightarrow> LockRecord list" where
  "HoldsCovering s t d =
     scanLocksRows (db_hook_calls d) (holder_order (rows_at s (coveringKeys (Canonical t)) d))"

subsection \<open>Renewal by name\<close>

datatype refresh_error = RefreshNoLock | ErrLeaseExpired

record RefreshResult =
  rf_Target :: target
  rf_Err :: "refresh_error option"
  rf_ExpiresAt :: "time option"

definition refreshed_event :: "AgentUUID \<Rightarrow> string \<Rightarrow> time \<Rightarrow> string \<Rightarrow> Event" where
  "refreshed_event own reason now t =
     \<lparr>e_ID = [], e_Target = Target t, e_Kind = EventLockRefreshed, e_ActorUUID = own,
      e_SubjectUUID = [], e_Reason = reason, e_Detail = [], e_CreatedAt = now\<rparr>"

definition classify_refresh :: "(string \<Rightarrow> LockRecord option) \<Rightarrow> time \<Rightarrow> time \<Rightarrow> target \<Rightarrow> RefreshResult" where
  "classify_refresh held now newExpiry t =
     (case held (Canonical t) of
        None \<Rightarrow> \<lparr>rf_Target = t, rf_Err = Some RefreshNoLock, rf_ExpiresAt = None\<rparr>
      | Some l \<Rightarrow>
          if \<not> l_ExpiresAt l > now
          then \<lparr>rf_Target = t, rf_Err = Some ErrLeaseExpired, rf_ExpiresAt = Some (l_ExpiresAt l)\<rparr>
          else \<lparr>rf_Target = t, rf_Err = None, rf_ExpiresAt = Some newExpiry\<rparr>)"

definition extend_rows :: "(lock_row \<Rightarrow> bool) \<Rightarrow> time \<Rightarrow> lock_row list \<Rightarrow> lock_row list" where
  "extend_rows P newExpiry rows = map (\<lambda>r. if P r then r\<lparr>r_expires_at := newExpiry\<rparr> else r) rows"

definition commitRefreshes ::
  "store \<Rightarrow> io \<Rightarrow> target list \<Rightarrow> AgentUUID \<Rightarrow> time \<Rightarrow> Event list \<Rightarrow> time \<Rightarrow> db \<Rightarrow> store_error + db" where
  "commitRefreshes s i ext own newExpiry events now d =
     (if \<not> io_begin i then Inl ErrBegin
      else let d1 = d\<lparr>db_locks := extend_rows
                 (\<lambda>r. owner_scope s (map Canonical ext) own r \<and> r_expires_at r > now)
                 newExpiry (db_locks d)\<rparr>;
               d2 = snd (appendEventsTx s events d1);
               d3 = rotateEventsTx now d2
           in if \<not> io_commit i then Inl ErrCommit else Inr d3)"

definition RefreshLocks ::
  "(time \<Rightarrow> string) \<Rightarrow> store \<Rightarrow> io \<Rightarrow> target list \<Rightarrow> AgentUUID \<Rightarrow> int \<Rightarrow> db \<Rightarrow>
     store_error + db \<times> RefreshResult list" where
  "RefreshLocks rfc3339 s i targets own ttl d =
     (if targets = [] then Inr (d, [])
      else if \<not> io_flock i then Inl ErrFlock
      else let held = LocksForOwnerAt s targets own d;
               now = io_now i;
               newExpiry = now + ttl;
               results = map (classify_refresh held now newExpiry) targets;
               ext = map rf_Target (filter (\<lambda>x. rf_Err x = None) results);
               events = map (\<lambda>t. refreshed_event own (''ttl extended to '' @ rfc3339 newExpiry) now
                               (Canonical t)) ext
           in if ext = [] then Inr (d, results)
              else case commitRefreshes s i ext own newExpiry events now d of
                     Inl er \<Rightarrow> Inl er | Inr d' \<Rightarrow> Inr (d', results))"

subsection \<open>Renewal by the hook\<close>

definition hookRefreshReason :: string where "hookRefreshReason = ''hook''"

definition refreshBatch :: nat where "refreshBatch = 500"

definition lockWorktree :: "store \<Rightarrow> string \<Rightarrow> string" where
  "lockWorktree s callWorktree = (if s_worktree s \<noteq> [] then s_worktree s else callWorktree)"

definition half_ttl_eligible ::
  "bool \<Rightarrow> AgentUUID \<Rightarrow> string \<Rightarrow> string list \<Rightarrow> time \<Rightarrow> time \<Rightarrow> lock_row \<Rightarrow> bool" where
  "half_ttl_eligible f own wt paths since now r \<longleftrightarrow>
     owned_rows f paths own (worktreeFilter wt) r \<and> r_expires_at r > since \<and>
     r_expires_at r < now + DegradedModeTTL div 2"

definition refreshOwnLocksBelowHalfTTLTx ::
  "store \<Rightarrow> bool \<Rightarrow> AgentUUID \<Rightarrow> string \<Rightarrow> string list \<Rightarrow> time \<Rightarrow> time \<Rightarrow> db \<Rightarrow> target list \<times> db" where
  "refreshOwnLocksBelowHalfTTLTx s f own wt paths since now d =
     (let P = half_ttl_eligible f own wt paths since now;
          targets = map r_target_canonical (filter P (db_locks d));
          d1 = d\<lparr>db_locks := extend_rows P (now + DegradedModeTTL) (db_locks d)\<rparr>
      in if targets = [] then ([], d1)
         else (map Target targets,
               snd (appendEventsTx s (map (refreshed_event own hookRefreshReason now) targets) d1)))"

function (sequential) refresh_batches ::
  "store \<Rightarrow> bool \<Rightarrow> AgentUUID \<Rightarrow> string \<Rightarrow> string list \<Rightarrow> time \<Rightarrow> time \<Rightarrow> db \<Rightarrow> target list \<times> db" where
  "refresh_batches s f own wt [] since now d = ([], d)"
| "refresh_batches s f own wt paths since now d =
     (let r = refreshOwnLocksBelowHalfTTLTx s f own wt (take refreshBatch paths) since now d;
          rest = refresh_batches s f own wt (drop refreshBatch paths) since now (snd r)
      in (fst r @ fst rest, snd rest))"
  by pat_completeness auto
termination
  by (relation "measure (\<lambda>(s, f, own, wt, paths, _). length paths)") (auto simp: refreshBatch_def)

definition refreshCallerLocksTx ::
  "store \<Rightarrow> bool \<Rightarrow> AgentUUID \<Rightarrow> string \<Rightarrow> string list \<Rightarrow> time \<Rightarrow> time \<Rightarrow> db \<Rightarrow> db" where
  "refreshCallerLocksTx s f own wt paths since now d =
     (if paths = [] then d
      else let r = refresh_batches s f own wt paths since now d
           in if fst r = [] then snd r else rotateEventsTx now (snd r))"

subsection \<open>What an extension changes\<close>

text \<open>An extension is the pointwise relation: the row is the same up to its deadline.\<close>

lemma extend_rows_keys [simp]:
  "map lock_pk (extend_rows P x rows) = map lock_pk rows"
  "lock_keys (extend_rows P x rows) = lock_keys rows"
proof -
  show m: "map lock_pk (extend_rows P x rows) = map lock_pk rows"
    unfolding extend_rows_def by (rule map_eq_fun_keep) (simp add: lock_pk_def)
  show "lock_keys (extend_rows P x rows) = lock_keys rows"
    unfolding lock_keys_def by (metis m set_map)
qed

lemma extend_rows_pk_unique [table_intros]: "pk_unique rows \<Longrightarrow> pk_unique (extend_rows P x rows)"
  by (simp add: pk_unique_def)

lemma extend_rows_fenced [table_intros]: "epoch_fenced rows m \<Longrightarrow> epoch_fenced (extend_rows P x rows) m"
  by (auto simp: extend_rows_def epoch_fenced_def)

lemma extend_rows_cong:
  "(\<And>r. r \<in> set rows \<Longrightarrow> P r = Q r) \<Longrightarrow> extend_rows P x rows = extend_rows Q x rows"
  by (simp add: extend_rows_def)

text \<open>Two passes of the same deadline are one, when a row the first one extended is no longer
  eligible for the second.\<close>

lemma extend_rows_twice:
  "(\<And>r. r \<in> set rows \<Longrightarrow> \<not> Q (r\<lparr>r_expires_at := x\<rparr>)) \<Longrightarrow>
   extend_rows Q x (extend_rows P x rows) = extend_rows (\<lambda>r. P r \<or> Q r) x rows"
  by (auto simp: extend_rows_def)

lemma refreshOwn_frame [frame_simps]:
  "db_path_epochs (snd (refreshOwnLocksBelowHalfTTLTx s f own wt ps since now d)) = db_path_epochs d"
  "db_tags (snd (refreshOwnLocksBelowHalfTTLTx s f own wt ps since now d)) = db_tags d"
  "db_candidate_claims (snd (refreshOwnLocksBelowHalfTTLTx s f own wt ps since now d)) = db_candidate_claims d"
  "db_violations (snd (refreshOwnLocksBelowHalfTTLTx s f own wt ps since now d)) = db_violations d"
  "db_hook_calls (snd (refreshOwnLocksBelowHalfTTLTx s f own wt ps since now d)) = db_hook_calls d"
  "db_locks (snd (refreshOwnLocksBelowHalfTTLTx s f own wt ps since now d)) =
     extend_rows (half_ttl_eligible f own wt ps since now) (now + DegradedModeTTL) (db_locks d)"
  by (simp_all add: refreshOwnLocksBelowHalfTTLTx_def Let_def frame_simps)

lemma half_ttl_done: "\<not> half_ttl_eligible f own wt ps since now (r\<lparr>r_expires_at := now + DegradedModeTTL\<rparr>)"
  by (simp add: half_ttl_eligible_def DegradedModeTTL_def)

lemma half_ttl_split:
  "half_ttl_eligible f own wt (take n ps) since now r \<or> half_ttl_eligible f own wt (drop n ps) since now r \<longleftrightarrow>
   half_ttl_eligible f own wt ps since now r"
proof -
  have "set (map (key_norm f) ps) = set (map (key_norm f) (take n ps)) \<union> set (map (key_norm f) (drop n ps))"
    by (metis append_take_drop_id map_append set_append)
  then show ?thesis by (auto simp: half_ttl_eligible_def owned_rows_def)
qed

lemma refresh_batches_locks:
  "db_locks (snd (refresh_batches s f own wt ps since now d)) =
     extend_rows (half_ttl_eligible f own wt ps since now) (now + DegradedModeTTL) (db_locks d)"
proof (induction s f own wt ps since now d rule: refresh_batches.induct)
  case (1 s f own wt since now d)
  have "\<not> half_ttl_eligible f own wt [] since now r" for r
    by (simp add: half_ttl_eligible_def owned_rows_def)
  then show ?case by (simp add: extend_rows_def)
next
  case (2 s f own wt p ps since now d)
  let ?ps = "p # ps" and ?x = "now + DegradedModeTTL"
  have "db_locks (snd (refresh_batches s f own wt ?ps since now d)) =
      extend_rows (half_ttl_eligible f own wt (drop refreshBatch ?ps) since now) ?x
        (extend_rows (half_ttl_eligible f own wt (take refreshBatch ?ps) since now) ?x (db_locks d))"
    using 2 by (simp add: Let_def frame_simps)
  also have "\<dots> = extend_rows (half_ttl_eligible f own wt ?ps since now) ?x (db_locks d)"
    by (subst extend_rows_twice, rule half_ttl_done) (simp only: half_ttl_split)
  finally show ?case .
qed

subsection \<open>What the reads return\<close>

lemma owner_scope_iff:
  "owner_scope s ts own r \<longleftrightarrow>
     key_norm (s_caseFold s) (r_target_canonical r) \<in> key_norm (s_caseFold s) ` set ts \<and>
     r_owner_uuid r = own \<and> SameWorktree (s_worktree s) (r_worktree r)"
  by (simp add: owner_scope_def owned_rows_def worktreeFilter_SameWorktree)

lemma foldl_upd_Some:
  "foldl (\<lambda>m l. m(k l \<mapsto> l)) m ls x = Some v \<Longrightarrow> v \<in> set ls \<and> k v = x \<or> m x = Some v"
proof (induction ls arbitrary: m)
  case Nil
  then show ?case by simp
next
  case (Cons l ls)
  from Cons.IH [of "m(k l \<mapsto> l)"] Cons.prems show ?case by (auto split: if_splits)
qed

lemma foldl_upd_None: "foldl (\<lambda>m l. m(k l \<mapsto> l)) m ls x = None \<longleftrightarrow> m x = None \<and> x \<notin> k ` set ls"
proof (induction ls arbitrary: m)
  case Nil
  then show ?case by simp
next
  case (Cons l ls)
  then show ?case by auto
qed

lemma LocksForOwnerAt_Some:
  assumes "LocksForOwnerAt s targets own d k = Some l"
  shows "\<exists>r \<in> set (db_locks d). l = scanLock (db_hook_calls d) r \<and>
    owner_scope s (map Canonical targets) own r \<and> key_norm (s_caseFold s) (r_target_canonical r) = k"
proof -
  have "l \<in> set (scanLocksRows (db_hook_calls d) (filter (owner_scope s (map Canonical targets) own) (db_locks d)))"
    and k: "key_norm (s_caseFold s) (Canonical (l_Target l)) = k"
    using assms unfolding LocksForOwnerAt_def by (auto split: if_splits dest!: foldl_upd_Some)
  then obtain r where "r \<in> set (db_locks d)" "owner_scope s (map Canonical targets) own r"
    "l = scanLock (db_hook_calls d) r"
    by (auto simp: scanLocksRows_def)
  with k show ?thesis by auto
qed

lemma LocksForOwnerAt_None:
  assumes "t \<in> set targets" "key_norm (s_caseFold s) (Canonical t) = Canonical t"
  shows "LocksForOwnerAt s targets own d (Canonical t) = None \<longleftrightarrow>
    \<not> (\<exists>r \<in> set (db_locks d). r_owner_uuid r = own \<and> SameWorktree (s_worktree s) (r_worktree r) \<and>
         key_norm (s_caseFold s) (r_target_canonical r) = Canonical t)"
proof -
  have "targets \<noteq> []" using assms(1) by auto
  moreover have "Canonical t \<in> key_norm (s_caseFold s) ` Canonical ` set targets"
    using assms by (metis imageI)
  ultimately show ?thesis
    unfolding LocksForOwnerAt_def by (auto simp: foldl_upd_None scanLocksRows_def owner_scope_iff image_iff)
qed

lemma rows_at_mem:
  "r \<in> set (rows_at s ts d) \<longleftrightarrow>
     r \<in> set (db_locks d) \<and> key_norm (s_caseFold s) (r_target_canonical r) \<in> key_norm (s_caseFold s) ` set ts"
  by (auto simp: rows_at_def)

lemma RefreshLocks_Inr:
  assumes "RefreshLocks rfc3339 s i targets own ttl d = Inr (d', rs)"
  shows "rs = (if targets = [] then [] else
      map (classify_refresh (LocksForOwnerAt s targets own d) (io_now i) (io_now i + ttl)) targets)"
    "db_locks d' = extend_rows (\<lambda>r. owner_scope s (map (Canonical \<circ> rf_Target) (filter (\<lambda>x. rf_Err x = None) rs)) own r \<and>
        r_expires_at r > io_now i) (io_now i + ttl) (db_locks d)"
    "db_path_epochs d' = db_path_epochs d" "db_candidate_claims d' = db_candidate_claims d"
    "db_violations d' = db_violations d" "db_hook_calls d' = db_hook_calls d"
proof -
  let ?rs = "map (classify_refresh (LocksForOwnerAt s targets own d) (io_now i) (io_now i + ttl)) targets"
  have none: "\<not> owner_scope s [] own r" for r by (simp add: owner_scope_iff)
  have id: "extend_rows (\<lambda>r. False) x rows = rows" for x rows by (simp add: extend_rows_def)
  show rs: "rs = (if targets = [] then [] else ?rs)"
    using assms by (auto simp: RefreshLocks_def Let_def split: if_splits sum.splits)
  consider "targets = []" "d' = d"
    | "targets \<noteq> []" "filter (\<lambda>x. rf_Err x = None) ?rs = []" "d' = d"
    | evs where "targets \<noteq> []" "commitRefreshes s i (map rf_Target (filter (\<lambda>x. rf_Err x = None) ?rs)) own
        (io_now i + ttl) evs (io_now i) d = Inr d'"
    using assms by (auto simp: RefreshLocks_def Let_def split: if_splits sum.splits)
  then have "db_locks d' = extend_rows (\<lambda>r. owner_scope s (map (Canonical \<circ> rf_Target) (filter (\<lambda>x. rf_Err x = None) rs)) own r \<and>
        r_expires_at r > io_now i) (io_now i + ttl) (db_locks d) \<and>
    db_path_epochs d' = db_path_epochs d \<and> db_candidate_claims d' = db_candidate_claims d \<and>
    db_violations d' = db_violations d \<and> db_hook_calls d' = db_hook_calls d"
  proof cases
    case 1
    then show ?thesis using rs by (simp add: none id)
  next
    case 2
    then show ?thesis unfolding rs by (simp add: none id)
  next
    case 3
    then show ?thesis
      unfolding rs by (auto simp: commitRefreshes_def Let_def frame_simps split: if_splits)
  qed
  then show "db_locks d' = extend_rows (\<lambda>r. owner_scope s (map (Canonical \<circ> rf_Target) (filter (\<lambda>x. rf_Err x = None) rs)) own r \<and>
        r_expires_at r > io_now i) (io_now i + ttl) (db_locks d)"
    "db_path_epochs d' = db_path_epochs d" "db_candidate_claims d' = db_candidate_claims d"
    "db_violations d' = db_violations d" "db_hook_calls d' = db_hook_calls d"
    by blast+
qed

lemma refresh_batches_frame [frame_simps]:
  "db_path_epochs (snd (refresh_batches s f own wt ps since now d)) = db_path_epochs d"
  "db_tags (snd (refresh_batches s f own wt ps since now d)) = db_tags d"
  "db_candidate_claims (snd (refresh_batches s f own wt ps since now d)) = db_candidate_claims d"
  "db_violations (snd (refresh_batches s f own wt ps since now d)) = db_violations d"
  "db_hook_calls (snd (refresh_batches s f own wt ps since now d)) = db_hook_calls d"
  by (induction s f own wt ps since now d rule: refresh_batches.induct)
    (simp_all add: Let_def frame_simps)

subsection \<open>Properties\<close>

text \<open>C17: A refresh extends and never revives. It maps the lock table row by row: a row either stays as
  it is, or was the caller's own, in its checkout, on a named target and not yet expired, and then
  only its deadline changes, to now plus the lease; creation time, epoch and every other field stay.\<close>

theorem RefreshLocks_never_revives:
  assumes "RefreshLocks rfc3339 s i targets own ttl d = Inr (d', rs)"
  shows "list_all2 (\<lambda>r r'. r' = r \<or>
      (r' = r\<lparr>r_expires_at := io_now i + ttl\<rparr> \<and> r_owner_uuid r = own \<and> io_now i < r_expires_at r \<and>
       SameWorktree (s_worktree s) (r_worktree r) \<and>
       key_norm (s_caseFold s) (r_target_canonical r) \<in> key_norm (s_caseFold s) ` Canonical ` set targets))
    (db_locks d) (db_locks d')"
proof -
  have sub: "rf_Target ` set rs \<subseteq> set targets"
    unfolding RefreshLocks_Inr(1) [OF assms]
    by (auto simp: classify_refresh_def split: option.splits if_splits)
  have scope: "owner_scope s (map (Canonical \<circ> rf_Target) (filter (\<lambda>x. rf_Err x = None) rs)) own r \<Longrightarrow>
      r_owner_uuid r = own \<and> SameWorktree (s_worktree s) (r_worktree r) \<and>
      key_norm (s_caseFold s) (r_target_canonical r) \<in> key_norm (s_caseFold s) ` Canonical ` set targets" for r
    using sub by (force simp: owner_scope_iff)
  show ?thesis
    unfolding RefreshLocks_Inr(2) [OF assms] extend_rows_def list.rel_map
    by (rule list.rel_refl) (use scope in auto)
qed

theorem RefreshLocks_never_revives_witness:
  "case RefreshLocks (\<lambda>_. []) ex_store (ex_io 10) [Target ''d'', Target ''x''] ''bob'' 100 ex_db of
     Inl _ \<Rightarrow> False | Inr (d', rs) \<Rightarrow> length (db_locks d') = 2 \<and> map rf_Err rs = [None, Some RefreshNoLock]"
proof -
  let ?call = "RefreshLocks (\<lambda>_. []) ex_store (ex_io 10) [Target ''d'', Target ''x''] ''bob'' 100 ex_db"
  have c: "case ?call of Inl _ \<Rightarrow> False | Inr (d', rs) \<Rightarrow> map rf_Err rs = [None, Some RefreshNoLock]"
    by code_simp
  then obtain d' rs where e: "?call = Inr (d', rs)" by (cases ?call) auto
  have "length (db_locks d') = 2"
    using list_all2_lengthD [OF RefreshLocks_never_revives [OF e]] by (simp add: ex_db_def)
  with c e show ?thesis by simp
qed

text \<open>What a refresh reports, for a target in normal form: no-lock exactly when the caller has no
  row on it in its checkout; lease-expired only with a row of the caller's whose deadline has
  passed, named by the reported deadline; success only with a row of the caller's that is in the
  table with the new deadline afterwards.\<close>

theorem RefreshLocks_outcomes:
  assumes "RefreshLocks rfc3339 s i targets own ttl d = Inr (d', rs)"
    and "n < length targets" "key_norm (s_caseFold s) (Canonical (targets ! n)) = Canonical (targets ! n)"
  defines "mine \<equiv> \<lambda>r. r_owner_uuid r = own \<and> SameWorktree (s_worktree s) (r_worktree r) \<and>
    key_norm (s_caseFold s) (r_target_canonical r) = Canonical (targets ! n)"
  shows "(rf_Err (rs ! n) = Some RefreshNoLock \<longleftrightarrow> \<not> (\<exists>r \<in> set (db_locks d). mine r)) \<and>
    (rf_Err (rs ! n) = Some ErrLeaseExpired \<longrightarrow>
       (\<exists>r \<in> set (db_locks d). mine r \<and> r_expires_at r \<le> io_now i \<and> rf_ExpiresAt (rs ! n) = Some (r_expires_at r))) \<and>
    (rf_Err (rs ! n) = None \<longrightarrow>
       (\<exists>r \<in> set (db_locks d'). mine r \<and> r_expires_at r = io_now i + ttl))"
proof -
  have ne: "targets \<noteq> []" and tn: "targets ! n \<in> set targets" using assms(2) by auto
  let ?t = "targets ! n" and ?held = "LocksForOwnerAt s targets own d"
  have rsn: "rs ! n = classify_refresh ?held (io_now i) (io_now i + ttl) ?t"
    using assms(2) ne unfolding RefreshLocks_Inr(1) [OF assms(1)] by simp
  have none: "?held (Canonical ?t) = None \<longleftrightarrow> \<not> (\<exists>r \<in> set (db_locks d). mine r)"
    unfolding mine_def by (rule LocksForOwnerAt_None [OF tn assms(3)])
  have some: "\<exists>r \<in> set (db_locks d). l = scanLock (db_hook_calls d) r \<and> mine r"
    if "?held (Canonical ?t) = Some l" for l
    using LocksForOwnerAt_Some [OF that] by (auto simp: mine_def owner_scope_iff)
  have ok: "\<exists>r \<in> set (db_locks d'). mine r \<and> r_expires_at r = io_now i + ttl" if "rf_Err (rs ! n) = None"
  proof -
    from that rsn obtain l where l: "?held (Canonical ?t) = Some l" "l_ExpiresAt l > io_now i"
      by (auto simp: classify_refresh_def split: option.splits if_splits)
    from some [OF l(1)] l(2) obtain r where r: "r \<in> set (db_locks d)" "mine r" "r_expires_at r > io_now i"
      by auto
    have n: "n < length rs" using assms(2) ne unfolding RefreshLocks_Inr(1) [OF assms(1)] by simp
    have "rf_Target (rs ! n) = ?t" by (simp add: rsn classify_refresh_def split: option.splits)
    then have "Canonical ?t \<in> (Canonical \<circ> rf_Target) ` set (filter (\<lambda>x. rf_Err x = None) rs)"
      using that nth_mem [OF n] by force
    then have "owner_scope s (map (Canonical \<circ> rf_Target) (filter (\<lambda>x. rf_Err x = None) rs)) own r"
      using r(2) assms(3) by (simp add: owner_scope_iff mine_def image_image image_iff) metis
    with r have "r\<lparr>r_expires_at := io_now i + ttl\<rparr> \<in> set (db_locks d')"
      unfolding RefreshLocks_Inr(2) [OF assms(1)] extend_rows_def by (force simp: image_iff)
    with r(2) show ?thesis by (intro bexI) (auto simp: mine_def)
  qed
  have lapsed: "\<exists>r \<in> set (db_locks d). mine r \<and> r_expires_at r \<le> io_now i \<and>
      rf_ExpiresAt (rs ! n) = Some (r_expires_at r)" if "rf_Err (rs ! n) = Some ErrLeaseExpired"
  proof -
    from that rsn obtain l where l: "?held (Canonical ?t) = Some l" "l_ExpiresAt l \<le> io_now i"
      "rf_ExpiresAt (rs ! n) = Some (l_ExpiresAt l)"
      by (auto simp: classify_refresh_def split: option.splits if_splits)
    from some [OF l(1)] obtain r where "r \<in> set (db_locks d)" "l = scanLock (db_hook_calls d) r" "mine r"
      by blast
    with l(2,3) show ?thesis by (intro bexI [of _ r]) simp_all
  qed
  have nolock: "rf_Err (rs ! n) = Some RefreshNoLock \<longleftrightarrow> ?held (Canonical ?t) = None"
    unfolding rsn by (simp add: classify_refresh_def split: option.splits)
  show ?thesis
  proof (intro conjI)
    show "rf_Err (rs ! n) = Some RefreshNoLock \<longleftrightarrow> \<not> (\<exists>r \<in> set (db_locks d). mine r)"
      unfolding nolock none ..
  qed (use lapsed ok in auto)
qed

theorem RefreshLocks_outcomes_witness:
  "case RefreshLocks (\<lambda>_. []) ex_store (ex_io 10) [Target ''d''] ''bob'' 100 ex_db of
     Inl _ \<Rightarrow> False | Inr (d', rs) \<Rightarrow> \<exists>r \<in> set (db_locks d'). r_expires_at r = 110"
proof -
  let ?call = "RefreshLocks (\<lambda>_. []) ex_store (ex_io 10) [Target ''d''] ''bob'' 100 ex_db"
  have c: "case ?call of Inl _ \<Rightarrow> False | Inr (d', rs) \<Rightarrow> rf_Err (rs ! 0) = None" by code_simp
  then obtain d' rs where e: "?call = Inr (d', rs)" by (cases ?call) auto
  from RefreshLocks_outcomes [OF e, of 0] c e show ?thesis by (auto simp: ex_store_def ex_io_def)
qed

text \<open>Cutting the hook's renewal into batches of 500 bound variables is transparent: the lock table
  it leaves is the one a single \<open>UPDATE\<close> over all the paths leaves, which extends to the full lease
  exactly the owner's rows in the checkout, on those paths, unexpired since the call began and
  below half of the lease.\<close>

theorem refreshCallerLocksTx_batches:
  "db_locks (refreshCallerLocksTx s f own wt paths since now d) =
     map (\<lambda>r. if owned_rows f paths own (worktreeFilter wt) r \<and> since < r_expires_at r \<and>
                 r_expires_at r < now + 900000000000
              then r\<lparr>r_expires_at := now + 1800000000000\<rparr> else r) (db_locks d)"
proof -
  have "db_locks (refreshCallerLocksTx s f own wt paths since now d) =
      extend_rows (half_ttl_eligible f own wt paths since now) (now + DegradedModeTTL) (db_locks d)"
  proof (cases "paths = []")
    case True
    then show ?thesis
      by (simp add: refreshCallerLocksTx_def extend_rows_def half_ttl_eligible_def owned_rows_def)
  next
    case False
    then show ?thesis by (simp add: refreshCallerLocksTx_def Let_def refresh_batches_locks frame_simps)
  qed
  then show ?thesis by (simp add: extend_rows_def half_ttl_eligible_def DegradedModeTTL_def)
qed

text \<open>The one indexed read of the write gate is complete: \<open>HoldsCovering\<close> returns, in creation
  order, exactly the holds on the path itself or on a directory above it.\<close>

theorem HoldsCovering_exact:
  assumes "\<not> s_caseFold s"
  shows "set (HoldsCovering s t d) =
      scanLock (db_hook_calls d) ` {r \<in> set (db_locks d).
        r_target_canonical r = Canonical t \<or> HoldAbove (r_target_canonical r) (Canonical t)} \<and>
    sorted (map l_CreatedAt (HoldsCovering s t d))"
proof
  have cov: "k \<in> set (coveringKeys (Canonical t)) \<longleftrightarrow> k = Canonical t \<or> HoldAbove k (Canonical t)" for k
    by (auto simp: coveringKeys_def mem_ancestors HoldAbove_def)
  show "set (HoldsCovering s t d) =
      scanLock (db_hook_calls d) ` {r \<in> set (db_locks d).
        r_target_canonical r = Canonical t \<or> HoldAbove (r_target_canonical r) (Canonical t)}"
    using assms by (auto simp: HoldsCovering_def scanLocksRows_def holder_order_def rows_at_def key_norm_def cov)
  have "map l_CreatedAt (HoldsCovering s t d) =
      map fst (map (\<lambda>r. (r_created_at r, r_owner_uuid r)) (holder_order (rows_at s (coveringKeys (Canonical t)) d)))"
    by (simp add: HoldsCovering_def scanLocksRows_def)
  moreover have "sorted (map (\<lambda>r. (r_created_at r, r_owner_uuid r)) (holder_order (rows_at s (coveringKeys (Canonical t)) d)))"
    unfolding holder_order_def by (rule sorted_sort_key)
  moreover have "sorted (map fst ps)" if "sorted (ps :: (int \<times> string) list)" for ps
    using that by (induction ps) (auto simp: less_eq_prod_def)
  ultimately show "sorted (map l_CreatedAt (HoldsCovering s t d))" by metis
qed

theorem HoldsCovering_exact_witness:
  "scanLock [] (db_locks ex_db ! 0) \<in> set (HoldsCovering ex_store (Target ''d/x/y'') ex_db)"
proof -
  have "HoldAbove ''d'' ''d/x/y''" by code_simp
  then show ?thesis
    using HoldsCovering_exact [of ex_store "Target ''d/x/y''" ex_db]
    by (simp add: ex_store_def ex_db_def lock_row_of_def ex_lock_def empty_db_def)
qed

end
