(* ===== verification/Envelope.thy ===== *)
theory Envelope
  imports Paths
begin

text \<open>
  \<open>internal/gate/envelope.go\<close> and the output parsers of \<open>internal/gate/scan.go\<close>: the candidate
  envelope, and \<open>Capture\<close>, which reads it out of two trees.

  Git itself is a parameter: \<open>git\<close> answers one read-only command line with its raw standard
  output, or with \<open>None\<close> when the process fails or times out.  Everything the package does with
  that output (the trimming of \<open>gitRunner.run\<close>, \<open>parseLsTreeLine\<close>, the NUL-separated lists) is
  modelled.  A Go map whose absent keys read as zero is a partial function read by \<open>map_at\<close>.
  \<open>captureAncestry\<close> walks a Go map in an unspecified order; the model walks it sorted, which
  decides only which of several missing directories the error names.
\<close>

subsection \<open>Reading git's output\<close>

type_synonym git = "string list \<Rightarrow> string option"

definition trim_space :: "string \<Rightarrow> string" where
  "trim_space s = rev (dropWhile is_space (rev (dropWhile is_space s)))"

text \<open>\<open>strings.Fields\<close>.\<close>

fun str_fields_acc :: "string \<Rightarrow> string \<Rightarrow> string list" where
  "str_fields_acc w [] = (if w = [] then [] else [rev w])"
| "str_fields_acc w (c # cs) =
     (if is_space c then (if w = [] then [] else [rev w]) @ str_fields_acc [] cs
      else str_fields_acc (c # w) cs)"

definition str_fields :: "string \<Rightarrow> string list" where
  "str_fields s = str_fields_acc [] s"

definition git_run :: "git \<Rightarrow> string list \<Rightarrow> string option" where
  "git_run git args = map_option trim_space (git args)"

definition parseNameOnlyZ :: "string \<Rightarrow> string list" where
  "parseNameOnlyZ out = filter (\<lambda>p. p \<noteq> []) (split_on NUL out)"

fun name_status_pairs :: "string list \<Rightarrow> string list \<times> string list" where
  "name_status_pairs (st # p # rest) =
     (let r = name_status_pairs rest
      in if st = [] \<or> p = [] then r
         else if hd st = CHR ''D'' then (fst r, p # snd r)
         else (p # fst r, snd r))"
| "name_status_pairs _ = ([], [])"

definition parseNameStatusZ :: "string \<Rightarrow> string list \<times> string list" where
  "parseNameStatusZ out = name_status_pairs (split_on NUL out)"

subsection \<open>The envelope\<close>

record BlobRef =
  br_SHA :: string
  br_Mode :: string

record Transition =
  tr_Path :: string
  tr_Expected :: "BlobRef option"
  tr_Result :: "BlobRef option"

datatype AncestryEntry = AncestryEntry (an_Path: string)

record Envelope =
  env_CandidateID :: string
  env_ProposalSHA :: string
  env_Base :: string
  env_AgentUUID :: AgentUUID
  env_SessionUUID :: SessionUUID
  env_BeadID :: string
  env_WriteSet :: "string list"
  env_Transitions :: "Transition list"
  env_Ancestry :: "AncestryEntry list"
  env_LeaseEpoch :: "string \<Rightarrow> int option"

definition map_at :: "(string \<Rightarrow> int option) \<Rightarrow> string \<Rightarrow> int" where
  "map_at m k = (case m k of None \<Rightarrow> 0 | Some v \<Rightarrow> v)"

record CreatedPath =
  cp_Path :: string
  cp_Blob :: string

definition CreatedPaths :: "Envelope \<Rightarrow> CreatedPath list" where
  "CreatedPaths e =
     map (\<lambda>t. \<lparr>cp_Path = tr_Path t, cp_Blob = (case tr_Result t of None \<Rightarrow> [] | Some b \<Rightarrow> br_SHA b)\<rparr>)
       (filter (\<lambda>t. tr_Expected t = None) (env_Transitions e))"

datatype gate_error =
    ErrEmptyField
  | ErrGitFailed "string list"
  | ErrMalformedLsTreeLine string
  | ErrPathNotBlob string
  | ErrAncestryNotTree string

subsection \<open>Tree reads\<close>

definition parseLsTreeLine :: "string \<Rightarrow> (string \<times> string \<times> string) option" where
  "parseLsTreeLine out =
     (case str_fields (takeWhile (\<lambda>c. c \<noteq> CHR 0x09) (takeWhile (\<lambda>c. c \<noteq> CHR 0x0A) out)) of
        [mode, kind, sha] \<Rightarrow> Some (mode, kind, sha)
      | _ \<Rightarrow> None)"

definition ls_tree_args :: "string \<Rightarrow> string \<Rightarrow> string list" where
  "ls_tree_args treeish path = [''ls-tree'', treeish, ''--'', path]"

definition blobAt :: "git \<Rightarrow> string \<Rightarrow> string \<Rightarrow> gate_error + BlobRef option" where
  "blobAt git treeish path =
     (case git_run git (ls_tree_args treeish path) of
        None \<Rightarrow> Inl (ErrGitFailed (ls_tree_args treeish path))
      | Some out \<Rightarrow>
          if out = [] then Inr None
          else (case parseLsTreeLine out of
                  None \<Rightarrow> Inl (ErrMalformedLsTreeLine out)
                | Some (mode, kind, sha) \<Rightarrow>
                    if kind \<noteq> ''blob'' then Inl (ErrPathNotBlob path)
                    else Inr (Some \<lparr>br_SHA = sha, br_Mode = mode\<rparr>)))"

definition treeAt :: "git \<Rightarrow> string \<Rightarrow> string \<Rightarrow> gate_error + bool" where
  "treeAt git treeish path =
     (case git_run git (ls_tree_args treeish path) of
        None \<Rightarrow> Inl (ErrGitFailed (ls_tree_args treeish path))
      | Some out \<Rightarrow>
          if out = [] then Inr False
          else (case parseLsTreeLine out of
                  None \<Rightarrow> Inl (ErrMalformedLsTreeLine out)
                | Some (mode, kind, sha) \<Rightarrow> Inr (kind = ''tree'')))"

subsection \<open>Ancestor directories\<close>

definition weight :: "string list \<Rightarrow> nat" where
  "weight ws = sum_list (map (\<lambda>w. length w + 1) ws)"

lemma weight_simps [simp]:
  "weight [] = 0" "weight (w # ws) = length w + 1 + weight ws" "weight (xs @ ys) = weight xs + weight ys"
  "weight (rev xs) = weight xs"
  by (simp_all add: weight_def rev_map [symmetric] sum_list_rev)

lemma weight_split [simp]: "weight (split_on d s) = length s + 1"
  by (induction s) (auto split: list.splits)

lemma weight_join: "ws \<noteq> [] \<Longrightarrow> length (join_with ''/'' ws) + 1 = weight ws"
proof (induction ws)
  case Nil
  then show ?case by simp
next
  case (Cons w ws)
  then show ?case by (cases "ws = []") (auto simp: join_with_Cons)
qed

lemma weight_clean_segs: "weight (clean_segs r out ss) \<le> weight out + weight ss"
proof (induction ss arbitrary: out)
  case Nil
  then show ?case by simp
next
  case (Cons s ss)
  define out' where "out' =
    (if s = [] \<or> s = ''.'' then out
     else if s = ''..'' then
       (case out of [] \<Rightarrow> if r then [] else [''..'']
        | w # ws \<Rightarrow> if w \<noteq> ''..'' then ws else if r then out else ''..'' # out)
     else s # out)"
  have "clean_segs r out (s # ss) = clean_segs r out' ss"
    by (cases out) (simp_all add: out'_def)
  moreover have "weight out' \<le> weight out + length s + 1"
    by (cases out) (auto simp: out'_def)
  ultimately show ?case using Cons.IH [of out'] by simp
qed

lemma clean_segs_snoc_Nil: "clean_segs r out (ss @ [[]]) = clean_segs r out ss"
  by (induction r out ss rule: clean_segs.induct) (auto split: list.splits)

lemma path_clean_dir_length:
  assumes "a \<noteq> []"
  shows "path_clean (a @ ''/'') = ''.'' \<or> length (path_clean (a @ ''/'')) \<le> length a"
proof -
  let ?r = "has_prefix a ''/''"
  let ?out = "clean_segs ?r [] (split_on CHR ''/'' a)"
  have r: "has_prefix (a @ ''/'') ''/'' = ?r"
    using assms by (cases a) auto
  have out: "clean_segs ?r [] (split_on CHR ''/'' (a @ ''/'')) = ?out"
    by (simp add: clean_segs_snoc_Nil)
  have pc: "path_clean (a @ ''/'') =
    (if ?r then CHR ''/'' # join_with ''/'' ?out else if ?out = [] then ''.'' else join_with ''/'' ?out)"
    unfolding path_clean_def Let_def r out using assms by simp
  show ?thesis
  proof (cases ?r)
    case True
    then obtain b where b: "a = CHR ''/'' # b" by (auto simp: prefix_def)
    have "?out = clean_segs True [] (split_on CHR ''/'' b)"
      using b by simp
    then have "weight ?out \<le> length b + 1"
      using weight_clean_segs [of True "[]" "split_on CHR ''/'' b"] by simp
    moreover have "length (join_with ''/'' ?out) \<le> weight ?out - 1"
      using weight_join [of ?out] by (cases "?out = []") auto
    ultimately show ?thesis unfolding pc using True b by auto
  next
    case False
    have "weight ?out \<le> length a + 1"
      using weight_clean_segs [of ?r "[]" "split_on CHR ''/'' a"] by simp
    moreover have "length (join_with ''/'' ?out) + 1 = weight ?out" if "?out \<noteq> []"
      by (rule weight_join [OF that])
    ultimately show ?thesis unfolding pc using False by (cases "?out = []") auto
  qed
qed

lemma path_dir_shorter:
  "path_dir p = ''.'' \<or> path_dir p = ''/'' \<or> length (path_dir p) < length p"
proof (cases "cut_last CHR ''/'' p")
  case None
  then have "path_dir p = path_clean []" unfolding path_dir_def by (simp only: option.case)
  then show ?thesis by (simp add: path_clean_def)
next
  case (Some ab)
  then obtain a b where ab: "cut_last CHR ''/'' p = Some (a, b)" by (cases ab) auto
  then have p: "p = a @ CHR ''/'' # b" using cut_last_SomeD by blast
  have d: "path_dir p = path_clean (a @ ''/'')" by (simp add: path_dir_def ab)
  show ?thesis
  proof (cases "a = []")
    case True
    then have "path_dir p = ''/''" unfolding d by simp code_simp
    then show ?thesis by simp
  next
    case False
    from path_clean_dir_length [OF this] show ?thesis unfolding d by (auto simp: p)
  qed
qed

text \<open>The loop of \<open>ancestorsOf\<close>, from the first value of its variable.\<close>

function ancestors_loop :: "string \<Rightarrow> string list" where
  "ancestors_loop dir =
     (if dir = ''.'' \<or> dir = ''/'' then [] else dir # ancestors_loop (path_dir dir))"
  by pat_completeness auto

termination
proof (relation "measure (\<lambda>d. if d = ''.'' \<or> d = ''/'' then 0 else Suc (length d))")
  show "wf (measure (\<lambda>d::string. if d = ''.'' \<or> d = ''/'' then 0 else Suc (length d)))" by simp
next
  fix dir :: string
  assume "\<not> (dir = ''.'' \<or> dir = ''/'')"
  then show "(path_dir dir, dir) \<in> measure (\<lambda>d. if d = ''.'' \<or> d = ''/'' then 0 else Suc (length d))"
    using path_dir_shorter [of dir] by auto
qed

declare ancestors_loop.simps [simp del]

definition ancestorsOf :: "string \<Rightarrow> string list" where
  "ancestorsOf p = ancestors_loop (path_dir p)"

subsection \<open>Capture\<close>

record CaptureParams =
  cap_RepoTop :: string
  cap_IntegrationRef :: string
  cap_ProposalSHA :: string
  cap_Base :: string
  cap_WriteSet :: "string list"
  cap_CandidateID :: string
  cap_Agent :: AgentUUID
  cap_Session :: SessionUUID
  cap_BeadID :: string
  cap_LeaseEpoch :: "string \<Rightarrow> int option"

definition CaptureParams_validate :: "CaptureParams \<Rightarrow> gate_error option" where
  "CaptureParams_validate p =
     (if cap_RepoTop p = [] \<or> cap_IntegrationRef p = [] \<or> cap_ProposalSHA p = [] \<or>
         cap_CandidateID p = [] \<or> cap_BeadID p = [] then Some ErrEmptyField
      else if cap_WriteSet p = [] then Some ErrEmptyField
      else None)"

fun captureTransitions ::
  "git \<Rightarrow> CaptureParams \<Rightarrow> string list \<Rightarrow> gate_error + Transition list \<times> string list" where
  "captureTransitions git p [] = Inr ([], [])"
| "captureTransitions git p (wp # wps) =
     (case blobAt git (cap_IntegrationRef p) wp of
        Inl er \<Rightarrow> Inl er
      | Inr expected \<Rightarrow>
          (case blobAt git (cap_ProposalSHA p) wp of
             Inl er \<Rightarrow> Inl er
           | Inr result \<Rightarrow>
               (case captureTransitions git p wps of
                  Inl er \<Rightarrow> Inl er
                | Inr (trs, created) \<Rightarrow>
                    Inr (\<lparr>tr_Path = wp, tr_Expected = expected, tr_Result = result\<rparr> # trs,
                         (if expected = None then wp # created else created)))))"

fun check_ancestry :: "git \<Rightarrow> string \<Rightarrow> string list \<Rightarrow> gate_error + AncestryEntry list" where
  "check_ancestry git ref [] = Inr []"
| "check_ancestry git ref (a # as) =
     (case treeAt git ref a of
        Inl er \<Rightarrow> Inl er
      | Inr isTree \<Rightarrow>
          if \<not> isTree then Inl (ErrAncestryNotTree a)
          else (case check_ancestry git ref as of
                  Inl er \<Rightarrow> Inl er
                | Inr es \<Rightarrow> Inr (AncestryEntry a # es)))"

definition captureAncestry :: "git \<Rightarrow> string \<Rightarrow> string list \<Rightarrow> gate_error + AncestryEntry list" where
  "captureAncestry git ref created =
     check_ancestry git ref (sort (remdups (concat (map ancestorsOf created))))"

definition Capture :: "git \<Rightarrow> CaptureParams \<Rightarrow> gate_error + Envelope" where
  "Capture git p =
     (case CaptureParams_validate p of
        Some er \<Rightarrow> Inl er
      | None \<Rightarrow>
          let writeSet = sort (cap_WriteSet p) in
          case captureTransitions git p writeSet of
            Inl er \<Rightarrow> Inl er
          | Inr (transitions, created) \<Rightarrow>
              (case captureAncestry git (cap_IntegrationRef p) created of
                 Inl er \<Rightarrow> Inl er
               | Inr ancestry \<Rightarrow>
                   Inr \<lparr>env_CandidateID = cap_CandidateID p, env_ProposalSHA = cap_ProposalSHA p,
                        env_Base = cap_Base p, env_AgentUUID = cap_Agent p,
                        env_SessionUUID = cap_Session p, env_BeadID = cap_BeadID p,
                        env_WriteSet = writeSet, env_Transitions = transitions,
                        env_Ancestry = ancestry,
                        env_LeaseEpoch = (\<lambda>wp. if wp \<in> set writeSet
                          then Some (map_at (cap_LeaseEpoch p) wp) else None)\<rparr>))"

subsection \<open>Facts\<close>

lemma canonical_path_cut:
  assumes "canonical_path p" "cut_last CHR ''/'' p = Some (a, b)"
  shows "canonical_path a"
proof -
  have "p = a @ CHR ''/'' # b" using cut_last_SomeD [OF assms(2)] by blast
  with assms(1) show ?thesis by (auto simp: canonical_path_def)
qed

lemma path_clean_trailing:
  assumes "canonical_path a"
  shows "path_clean (a @ ''/'') = a"
proof -
  note sp = canonical_path_not_special [OF assms]
  have r: "\<not> has_prefix (a @ ''/'') ''/''" using sp(1,2) by (cases a) auto
  have "clean_segs False [] (split_on CHR ''/'' a) = split_on CHR ''/'' a"
    using assms by (simp add: canonical_path_def clean_segs_plain)
  then have "clean_segs False [] (split_on CHR ''/'' (a @ ''/'')) = split_on CHR ''/'' a"
    by (simp add: clean_segs_snoc_Nil)
  with r show ?thesis by (simp add: path_clean_def Let_def)
qed

lemma path_dir_canonical:
  "canonical_path p \<Longrightarrow> cut_last CHR ''/'' p = Some (a, b) \<Longrightarrow> path_dir p = a"
  "cut_last CHR ''/'' p = None \<Longrightarrow> path_dir p = ''.''"
proof -
  assume "canonical_path p" and c: "cut_last CHR ''/'' p = Some (a, b)"
  then have "path_clean (a @ ''/'') = a" by (metis canonical_path_cut path_clean_trailing)
  then show "path_dir p = a" unfolding path_dir_def c by simp
next
  assume "cut_last CHR ''/'' p = None"
  then have "path_dir p = path_clean []" unfolding path_dir_def by (simp only: option.case)
  then show "path_dir p = ''.''" by (simp add: path_clean_def)
qed

lemma ancestorsOf_canonical: "canonical_path p \<Longrightarrow> ancestorsOf p = ancestors p"
proof (induction p rule: ancestors.induct)
  case (1 p)
  show ?case
  proof (cases "cut_last CHR ''/'' p")
    case None
    then have "ancestorsOf p = []"
      by (simp only: ancestorsOf_def path_dir_canonical(2)) (simp add: ancestors_loop.simps)
    moreover have "ancestors p = []" using None by (subst ancestors.simps, subst None) simp
    ultimately show ?thesis by simp
  next
    case (Some ab)
    then obtain a b where ab: "cut_last CHR ''/'' p = Some (a, b)" by (cases ab) auto
    have a: "canonical_path a" by (rule canonical_path_cut [OF "1.prems" ab])
    have "ancestorsOf p = ancestors_loop a"
      by (simp add: ancestorsOf_def path_dir_canonical(1) [OF "1.prems" ab])
    also have "\<dots> = a # ancestorsOf a"
      using canonical_path_not_special(2,4) [OF a]
      by (subst ancestors_loop.simps) (auto simp: ancestorsOf_def)
    finally have "ancestorsOf p = a # ancestorsOf a" .
    moreover have "ancestors p = a # ancestors a" using ab by (subst ancestors.simps) simp
    ultimately show ?thesis using "1.IH" [OF ab refl a] by simp
  qed
qed

lemma captureTransitions_Inr:
  "captureTransitions git p wps = Inr (trs, created) \<Longrightarrow>
     list_all2 (\<lambda>wp t. tr_Path t = wp \<and> blobAt git (cap_IntegrationRef p) wp = Inr (tr_Expected t) \<and>
                       blobAt git (cap_ProposalSHA p) wp = Inr (tr_Result t)) wps trs \<and>
     created = filter (\<lambda>wp. blobAt git (cap_IntegrationRef p) wp = Inr None) wps"
proof (induction wps arbitrary: trs created)
  case Nil
  then show ?case by simp
next
  case (Cons wp wps)
  then show ?case by (auto split: sum.splits if_splits)
qed

lemma check_ancestry_Inr:
  "check_ancestry git ref as = Inr es \<Longrightarrow> map an_Path es = as \<and> (\<forall>a \<in> set as. treeAt git ref a = Inr True)"
  by (induction as arbitrary: es) (auto split: sum.splits if_splits)

lemma Capture_Inr:
  assumes "Capture git p = Inr env"
  obtains created where
    "captureTransitions git p (sort (cap_WriteSet p)) = Inr (env_Transitions env, created)"
    "captureAncestry git (cap_IntegrationRef p) created = Inr (env_Ancestry env)"
    "env_WriteSet env = sort (cap_WriteSet p)" "env_ProposalSHA env = cap_ProposalSHA p"
    "env_CandidateID env = cap_CandidateID p"
    "\<And>wp. wp \<in> set (cap_WriteSet p) \<Longrightarrow> map_at (env_LeaseEpoch env) wp = map_at (cap_LeaseEpoch p) wp"
  using assms unfolding Capture_def Let_def
  by (cases "captureTransitions git p (sort (cap_WriteSet p))")
    (auto simp: map_at_def split: option.splits sum.splits)

lemma Capture_transitions:
  assumes "Capture git p = Inr env"
  shows "list_all2 (\<lambda>wp t. tr_Path t = wp \<and> blobAt git (cap_IntegrationRef p) wp = Inr (tr_Expected t) \<and>
      blobAt git (cap_ProposalSHA p) wp = Inr (tr_Result t)) (env_WriteSet env) (env_Transitions env)"
  by (rule Capture_Inr [OF assms]) (use captureTransitions_Inr in force)

lemma Capture_trees:
  assumes "Capture git p = Inr env"
  shows "\<forall>a \<in> set (env_Ancestry env). treeAt git (cap_IntegrationRef p) (an_Path a) = Inr True"
proof (rule Capture_Inr [OF assms])
  fix created
  assume "captureAncestry git (cap_IntegrationRef p) created = Inr (env_Ancestry env)"
  from check_ancestry_Inr [OF this [unfolded captureAncestry_def]]
  have "set (map an_Path (env_Ancestry env)) = set (sort (remdups (concat (map ancestorsOf created))))"
    "\<forall>a \<in> set (sort (remdups (concat (map ancestorsOf created)))). treeAt git (cap_IntegrationRef p) a = Inr True"
    by auto
  then show ?thesis by (metis image_eqI list.set_map)
qed

subsection \<open>A concrete repository\<close>

text \<open>\<open>prop\<close> adds \<open>a/b.go\<close> on top of \<open>int\<close>, where \<open>a\<close> is a directory.\<close>

definition ex_git :: git where
  "ex_git args =
     (if args = ls_tree_args ''prop'' ''a/b.go'' then Some (''100644 blob 77'' @ [CHR 0x09] @ ''a/b.go'')
      else if args = ls_tree_args ''int'' ''a/b.go'' then Some []
      else if args = ls_tree_args ''int'' ''a'' then Some (''040000 tree 12'' @ [CHR 0x09] @ ''a'')
      else if args = [''rev-list'', ''--parents'', ''-n'', ''1'', ''prop''] then Some ''prop int''
      else if args = [''diff-tree'', ''--no-commit-id'', ''--name-only'', ''-z'', ''-r'', ''prop'']
        then Some (''a/b.go'' @ [NUL])
      else None)"

definition ex_capture :: CaptureParams where
  "ex_capture = \<lparr>cap_RepoTop = ''/r'', cap_IntegrationRef = ''int'', cap_ProposalSHA = ''prop'',
     cap_Base = ''int'', cap_WriteSet = [''a/b.go''], cap_CandidateID = ''c-1'', cap_Agent = ''al'',
     cap_Session = ''s'', cap_BeadID = ''b'', cap_LeaseEpoch = [''a/b.go'' \<mapsto> 4]\<rparr>"

lemma ex_capture_ok: "\<exists>env. Capture ex_git ex_capture = Inr env"
proof -
  have "isl (Capture ex_git ex_capture) = False" by code_simp
  then show ?thesis by (cases "Capture ex_git ex_capture") auto
qed

subsection \<open>Properties\<close>

text \<open>An envelope is a snapshot: its write set is the caller's, sorted, with one transition per
  path in that order, whose preimage is what the integration ref holds at the path and whose
  result is what the proposal holds there (absence included).\<close>

theorem Capture_snapshot:
  assumes "Capture git p = Inr env"
  shows "env_WriteSet env = sort (cap_WriteSet p) \<and>
    list_all2 (\<lambda>wp t. tr_Path t = wp \<and> blobAt git (cap_IntegrationRef p) wp = Inr (tr_Expected t) \<and>
      blobAt git (cap_ProposalSHA p) wp = Inr (tr_Result t)) (env_WriteSet env) (env_Transitions env)"
  by (intro conjI Capture_transitions [OF assms]) (rule Capture_Inr [OF assms], assumption)

theorem Capture_snapshot_witness:
  "\<exists>env. Capture ex_git ex_capture = Inr env \<and> env_WriteSet env = [''a/b.go''] \<and>
     length (env_Transitions env) = 1"
proof -
  obtain env where e: "Capture ex_git ex_capture = Inr env" using ex_capture_ok by blast
  from Capture_snapshot [OF e] list_all2_lengthD show ?thesis
    by (intro exI [of _ env]) (use e in \<open>fastforce simp: ex_capture_def\<close>)
qed

text \<open>The ancestry preconditions of an envelope are exactly the proper directories above the
  paths it creates, once each and sorted, and each of them was a tree in the integration ref when
  it was captured.\<close>

theorem Capture_ancestry_exact:
  assumes "Capture git p = Inr env" "\<forall>wp \<in> set (cap_WriteSet p). canonical_path wp"
  shows "set (map an_Path (env_Ancestry env)) =
      {k. \<exists>wp \<in> set (cap_WriteSet p). blobAt git (cap_IntegrationRef p) wp = Inr None \<and> has_prefix wp (k @ ''/'')} \<and>
    sorted (map an_Path (env_Ancestry env)) \<and> distinct (map an_Path (env_Ancestry env)) \<and>
    (\<forall>a \<in> set (env_Ancestry env). treeAt git (cap_IntegrationRef p) (an_Path a) = Inr True)"
proof (rule Capture_Inr [OF assms(1)])
  fix created
  assume t: "captureTransitions git p (sort (cap_WriteSet p)) = Inr (env_Transitions env, created)"
    and a: "captureAncestry git (cap_IntegrationRef p) created = Inr (env_Ancestry env)"
  have "created = filter (\<lambda>wp. blobAt git (cap_IntegrationRef p) wp = Inr None) (sort (cap_WriteSet p))"
    using captureTransitions_Inr [OF t] by blast
  then have c: "set created = {wp \<in> set (cap_WriteSet p). blobAt git (cap_IntegrationRef p) wp = Inr None}"
    by auto
  have m: "map an_Path (env_Ancestry env) = sort (remdups (concat (map ancestorsOf created)))"
    using check_ancestry_Inr [OF a [unfolded captureAncestry_def]] by blast
  have "set (ancestorsOf wp) = {k. has_prefix wp (k @ ''/'')}" if "wp \<in> set created" for wp
    using that c assms(2) by (auto simp: ancestorsOf_canonical mem_ancestors)
  then have "set (map an_Path (env_Ancestry env)) =
      {k. \<exists>wp \<in> set (cap_WriteSet p). blobAt git (cap_IntegrationRef p) wp = Inr None \<and> has_prefix wp (k @ ''/'')}"
    unfolding m using c by auto
  moreover have "sorted (map an_Path (env_Ancestry env))" "distinct (map an_Path (env_Ancestry env))"
    unfolding m by simp_all
  ultimately show ?thesis using Capture_trees [OF assms(1)] by blast
qed

theorem Capture_ancestry_exact_witness:
  "\<exists>env. Capture ex_git ex_capture = Inr env \<and> ''a'' \<in> set (map an_Path (env_Ancestry env))"
proof -
  obtain env where e: "Capture ex_git ex_capture = Inr env" using ex_capture_ok by blast
  have c: "\<forall>wp \<in> set (cap_WriteSet ex_capture). canonical_path wp" by code_simp
  have b: "case blobAt ex_git ''int'' ''a/b.go'' of Inr None \<Rightarrow> True | _ \<Rightarrow> False" by code_simp
  then have "blobAt ex_git ''int'' ''a/b.go'' = Inr None" by (auto split: sum.splits option.splits)
  then have "''a'' \<in> {k. \<exists>wp \<in> set (cap_WriteSet ex_capture).
      blobAt ex_git (cap_IntegrationRef ex_capture) wp = Inr None \<and> has_prefix wp (k @ ''/'')}"
    by (simp add: ex_capture_def)
  with Capture_ancestry_exact [OF e c] e show ?thesis by (intro exI [of _ env]) simp
qed

end
