(* ===== verification/Admission.thy ===== *)
theory Admission
  imports Envelope
begin

text \<open>
  \<open>internal/gate/admission.go\<close>: the rejection taxonomy and \<open>Admit\<close>, the six checks a candidate
  passes before its claims are written, over the same git parameter as the envelope.
\<close>

subsection \<open>The taxonomy\<close>

datatype RejectionReason =
    ReasonProposalSHAMismatch | ReasonUnauthorizedPath | ReasonStaleLeaseEpoch
  | ReasonStalePreimage | ReasonStaleAncestry | ReasonMalformedCandidate
  | ReasonViolationIntersect | ReasonGateBypass | ReasonVerifyRed
  | ReasonVerifyInfrastructure | ReasonPromotionRace

fun RejectionReason_name :: "RejectionReason \<Rightarrow> string" where
  "RejectionReason_name ReasonProposalSHAMismatch = ''proposal-sha-mismatch''"
| "RejectionReason_name ReasonUnauthorizedPath = ''unauthorized-path''"
| "RejectionReason_name ReasonStaleLeaseEpoch = ''stale-lease-epoch''"
| "RejectionReason_name ReasonStalePreimage = ''stale-preimage''"
| "RejectionReason_name ReasonStaleAncestry = ''stale-ancestry''"
| "RejectionReason_name ReasonMalformedCandidate = ''malformed-candidate''"
| "RejectionReason_name ReasonViolationIntersect = ''violation-intersect''"
| "RejectionReason_name ReasonGateBypass = ''gate-bypass''"
| "RejectionReason_name ReasonVerifyRed = ''verify-red''"
| "RejectionReason_name ReasonVerifyInfrastructure = ''verify-infrastructure''"
| "RejectionReason_name ReasonPromotionRace = ''promotion-race''"

definition RejectionReasons :: "RejectionReason list" where
  "RejectionReasons =
     [ReasonProposalSHAMismatch, ReasonMalformedCandidate, ReasonUnauthorizedPath,
      ReasonStaleLeaseEpoch, ReasonStalePreimage, ReasonStaleAncestry, ReasonViolationIntersect,
      ReasonGateBypass, ReasonVerifyRed, ReasonVerifyInfrastructure, ReasonPromotionRace]"

definition unwiredReasons :: "RejectionReason list" where
  "unwiredReasons = [ReasonVerifyRed, ReasonVerifyInfrastructure, ReasonPromotionRace]"

definition Wired :: "RejectionReason \<Rightarrow> bool" where
  "Wired r \<longleftrightarrow> r \<notin> set unwiredReasons"

subsection \<open>Decisions\<close>

text \<open>The empty reason of an accepted decision is \<open>None\<close>.\<close>

record Decision =
  d_Accepted :: bool
  d_Reason :: "RejectionReason option"
  d_Detail :: string

definition accept :: Decision where
  "accept = \<lparr>d_Accepted = True, d_Reason = None, d_Detail = []\<rparr>"

definition reject :: "RejectionReason \<Rightarrow> string \<Rightarrow> Decision" where
  "reject r detail = \<lparr>d_Accepted = False, d_Reason = Some r, d_Detail = detail\<rparr>"

record AdmitParams =
  adm_PresentedProposalSHA :: string
  adm_IntegrationRef :: string
  adm_UnresolvedViolations :: "string \<Rightarrow> string option"
  adm_CurrentEpoch :: "string \<Rightarrow> int option"

subsection \<open>The checks\<close>

definition checkCommitShape :: "git \<Rightarrow> string \<Rightarrow> gate_error + Decision" where
  "checkCommitShape git commit =
     (let args = [''rev-list'', ''--parents'', ''-n'', ''1'', commit]
      in case git_run git args of
           None \<Rightarrow> Inl (ErrGitFailed args)
         | Some out \<Rightarrow>
             let fs = str_fields out in
             if length fs = 0 then Inr (reject ReasonMalformedCandidate (''commit not found: '' @ commit))
             else if length fs - 1 \<noteq> 1 then
               Inr (reject ReasonMalformedCandidate
                 (''commit '' @ commit @ '' has '' @ format_nat (length fs - 1) @ '' parent(s), want exactly 1''))
             else Inr accept)"

fun diffStringSets :: "string list \<Rightarrow> string list \<Rightarrow> string list \<times> string list" where
  "diffStringSets (a # as) (b # bs) =
     (if a = b then diffStringSets as bs
      else if a < b then (let r = diffStringSets as (b # bs) in (a # fst r, snd r))
      else (let r = diffStringSets (a # as) bs in (fst r, b # snd r)))"
| "diffStringSets [] bs = ([], bs)"
| "diffStringSets as [] = (as, [])"

definition diff_tree_args :: "string \<Rightarrow> string list" where
  "diff_tree_args commit = [''diff-tree'', ''--no-commit-id'', ''--name-only'', ''-z'', ''-r'', commit]"

definition checkDiffMatchesWriteSet :: "git \<Rightarrow> Envelope \<Rightarrow> gate_error + Decision" where
  "checkDiffMatchesWriteSet git env =
     (case git_run git (diff_tree_args (env_ProposalSHA env)) of
        None \<Rightarrow> Inl (ErrGitFailed (diff_tree_args (env_ProposalSHA env)))
      | Some out \<Rightarrow>
          let actual = sort (parseNameOnlyZ out);
              declared = sort (env_WriteSet env);
              only = diffStringSets declared actual
          in if snd only \<noteq> [] then
               Inr (reject ReasonUnauthorizedPath
                 (''diff touches undeclared path(s): '' @ join_with '', '' (snd only)))
             else if fst only \<noteq> [] then
               Inr (reject ReasonUnauthorizedPath
                 (''write-set declares path(s) the diff never touches: '' @ join_with '', '' (fst only)))
             else Inr accept)"

fun lease_epochs_loop ::
  "(string \<Rightarrow> int option) \<Rightarrow> (string \<Rightarrow> int option) \<Rightarrow> string list \<Rightarrow> Decision" where
  "lease_epochs_loop captured current [] = accept"
| "lease_epochs_loop captured current (path # paths) =
     (let want = map_at captured path; got = map_at current path
      in if want \<noteq> got then
           reject ReasonStaleLeaseEpoch
             (path @ '': captured epoch='' @ format_int want @ '', current epoch='' @ format_int got)
         else lease_epochs_loop captured current paths)"

definition checkLeaseEpochs :: "Envelope \<Rightarrow> (string \<Rightarrow> int option) \<Rightarrow> Decision" where
  "checkLeaseEpochs env current = lease_epochs_loop (env_LeaseEpoch env) current (env_WriteSet env)"

fun blobRefsEqual :: "BlobRef option \<Rightarrow> BlobRef option \<Rightarrow> bool" where
  "blobRefsEqual (Some a) (Some b) \<longleftrightarrow> br_SHA a = br_SHA b \<and> br_Mode a = br_Mode b"
| "blobRefsEqual None None \<longleftrightarrow> True"
| "blobRefsEqual _ _ \<longleftrightarrow> False"

fun transitions_loop :: "git \<Rightarrow> string \<Rightarrow> Transition list \<Rightarrow> gate_error + Decision" where
  "transitions_loop git ref [] = Inr accept"
| "transitions_loop git ref (tr # trs) =
     (case blobAt git ref (tr_Path tr) of
        Inl er \<Rightarrow> Inl er
      | Inr now \<Rightarrow>
          if \<not> blobRefsEqual (tr_Expected tr) now then
            Inr (reject ReasonStalePreimage
              (tr_Path tr @ '': captured preimage no longer matches integration''))
          else transitions_loop git ref trs)"

definition checkTransitionsCurrent :: "git \<Rightarrow> Envelope \<Rightarrow> string \<Rightarrow> gate_error + Decision" where
  "checkTransitionsCurrent git env ref = transitions_loop git ref (env_Transitions env)"

fun ancestry_loop :: "git \<Rightarrow> string \<Rightarrow> AncestryEntry list \<Rightarrow> gate_error + Decision" where
  "ancestry_loop git ref [] = Inr accept"
| "ancestry_loop git ref (a # as) =
     (case treeAt git ref (an_Path a) of
        Inl er \<Rightarrow> Inl er
      | Inr isTree \<Rightarrow>
          if \<not> isTree then
            Inr (reject ReasonStaleAncestry
              (an_Path a @ '': no longer resolves to a tree in integration''))
          else ancestry_loop git ref as)"

definition checkAncestryCurrent :: "git \<Rightarrow> Envelope \<Rightarrow> string \<Rightarrow> gate_error + Decision" where
  "checkAncestryCurrent git env ref = ancestry_loop git ref (env_Ancestry env)"

definition violation_detail :: "string \<Rightarrow> string \<Rightarrow> string" where
  "violation_detail path vid =
     path @ '': unresolved violation '' @ vid @ '' '' @ [CHR 0xE2, CHR 0x80, CHR 0x94] @
     '' revert the change or '' @ [CHR 0x60] @ ''loto violations resolve '' @ vid @ [CHR 0x60]"

fun violation_loop :: "(string \<Rightarrow> string option) \<Rightarrow> string list \<Rightarrow> Decision" where
  "violation_loop unresolved [] = accept"
| "violation_loop unresolved (path # paths) =
     (case unresolved path of
        Some vid \<Rightarrow> reject ReasonViolationIntersect (violation_detail path vid)
      | None \<Rightarrow> violation_loop unresolved paths)"

definition checkViolationIntersect :: "Envelope \<Rightarrow> (string \<Rightarrow> string option) \<Rightarrow> Decision" where
  "checkViolationIntersect env unresolved = violation_loop unresolved (env_WriteSet env)"

text \<open>One step of the ladder: an error ends it, a refusal ends it, an acceptance goes on.\<close>

definition and_then :: "gate_error + Decision \<Rightarrow> gate_error + Decision \<Rightarrow> gate_error + Decision" where
  "and_then c rest =
     (case c of Inl er \<Rightarrow> Inl er | Inr d \<Rightarrow> if d_Accepted d then rest else Inr d)"

definition Admit :: "git \<Rightarrow> Envelope \<Rightarrow> AdmitParams \<Rightarrow> gate_error + Decision" where
  "Admit git env p =
     (if env_ProposalSHA env \<noteq> adm_PresentedProposalSHA p then
        Inr (reject ReasonProposalSHAMismatch
          (''envelope names '' @ env_ProposalSHA env @ '', presented '' @ adm_PresentedProposalSHA p))
      else and_then (checkCommitShape git (env_ProposalSHA env))
        (and_then (checkDiffMatchesWriteSet git env)
        (and_then (Inr (checkLeaseEpochs env (adm_CurrentEpoch p)))
        (and_then (checkTransitionsCurrent git env (adm_IntegrationRef p))
        (and_then (checkAncestryCurrent git env (adm_IntegrationRef p))
        (and_then (Inr (checkViolationIntersect env (adm_UnresolvedViolations p)))
          (Inr accept)))))))"

subsection \<open>Facts\<close>

definition accepted :: "gate_error + Decision \<Rightarrow> bool" where
  "accepted r = (case r of Inl _ \<Rightarrow> False | Inr d \<Rightarrow> d_Accepted d)"

lemma accepted_simps [simp]:
  "accepted (Inr accept)" "\<not> accepted (Inr (reject r x))" "\<not> accepted (Inl er)"
  "accepted (and_then a b) \<longleftrightarrow> accepted a \<and> accepted b"
  by (auto simp: accepted_def accept_def reject_def and_then_def split: sum.splits)

lemma merge_step:
  fixes a :: "'a :: linorder"
  assumes "a < b" "sorted (b # bs)"
  shows "mset (a # as) - mset (b # bs) = add_mset a (mset as - mset (b # bs))"
    "mset (b # bs) - mset (a # as) = mset (b # bs) - mset as"
proof -
  have n: "a \<notin># mset (b # bs)" using assms by auto
  then show "mset (a # as) - mset (b # bs) = add_mset a (mset as - mset (b # bs))"
    by (simp add: diff_add_mset_swap)
  from n show "mset (b # bs) - mset (a # as) = mset (b # bs) - mset as"
    by (simp add: minus_add_mset_if_not_in_lhs)
qed

lemma diffStringSets_mset:
  "sorted a \<Longrightarrow> sorted b \<Longrightarrow>
     mset (fst (diffStringSets a b)) = mset a - mset b \<and> mset (snd (diffStringSets a b)) = mset b - mset a"
proof (induction a b rule: diffStringSets.induct)
  case (1 a as b bs)
  have s: "sorted as" "sorted bs" using "1.prems" by simp_all
  consider "a = b" | "a < b" | "b < a" by fastforce
  then show ?case
  proof cases
    case 1
    with "1.IH"(1) s show ?thesis by simp
  next
    case 2
    then have "a \<noteq> b" by auto
    with 2 "1.IH"(2) s "1.prems" merge_step [OF 2 "1.prems"(2), of as] show ?thesis
      by (simp add: Let_def del: mset.simps) simp
  next
    case 3
    then have "a \<noteq> b" "\<not> a < b" by auto
    with "1.IH"(3) s "1.prems" merge_step [OF 3 "1.prems"(1), of bs] show ?thesis
      by (simp add: Let_def del: mset.simps) simp
  qed
qed simp_all

lemma diffStringSets_empty:
  "fst (diffStringSets (sort a) (sort b)) = [] \<and> snd (diffStringSets (sort a) (sort b)) = [] \<longleftrightarrow> mset a = mset b"
proof -
  have "fst (diffStringSets (sort a) (sort b)) = [] \<and> snd (diffStringSets (sort a) (sort b)) = [] \<longleftrightarrow>
      mset a - mset b = {#} \<and> mset b - mset a = {#}"
    using diffStringSets_mset [of "sort a" "sort b"] by (simp flip: mset_zero_iff)
  also have "\<dots> \<longleftrightarrow> mset a = mset b"
    by (auto simp: Diff_eq_empty_iff_mset)
  finally show ?thesis .
qed

lemma accepted_shape:
  "accepted (checkCommitShape git c) \<longleftrightarrow>
     (\<exists>out. git_run git [''rev-list'', ''--parents'', ''-n'', ''1'', c] = Some out \<and> length (str_fields out) = 2)"
  by (auto simp: checkCommitShape_def Let_def split: option.splits)

lemma accepted_diff:
  "accepted (checkDiffMatchesWriteSet git env) \<longleftrightarrow>
     (\<exists>out. git_run git (diff_tree_args (env_ProposalSHA env)) = Some out \<and>
       mset (parseNameOnlyZ out) = mset (env_WriteSet env))"
proof (cases "git_run git (diff_tree_args (env_ProposalSHA env))")
  case None
  then show ?thesis by (simp add: checkDiffMatchesWriteSet_def)
next
  case (Some out)
  have "accepted (checkDiffMatchesWriteSet git env) \<longleftrightarrow>
      fst (diffStringSets (sort (env_WriteSet env)) (sort (parseNameOnlyZ out))) = [] \<and>
      snd (diffStringSets (sort (env_WriteSet env)) (sort (parseNameOnlyZ out))) = []"
    using Some by (auto simp: checkDiffMatchesWriteSet_def Let_def)
  with Some show ?thesis unfolding diffStringSets_empty by auto
qed

lemma accepted_epochs:
  "accepted (Inr (lease_epochs_loop m n ps)) \<longleftrightarrow> (\<forall>p \<in> set ps. map_at m p = map_at n p)"
  by (induction m n ps rule: lease_epochs_loop.induct) (auto simp: Let_def)

lemma blobRefsEqual_iff [simp]: "blobRefsEqual a b \<longleftrightarrow> a = b"
  by (cases "(a, b)" rule: blobRefsEqual.cases) auto

lemma accepted_transitions:
  "accepted (transitions_loop git ref trs) \<longleftrightarrow>
     (\<forall>tr \<in> set trs. blobAt git ref (tr_Path tr) = Inr (tr_Expected tr))"
  by (induction git ref trs rule: transitions_loop.induct) (auto split: sum.splits)

lemma accepted_ancestry:
  "accepted (ancestry_loop git ref as) \<longleftrightarrow> (\<forall>a \<in> set as. treeAt git ref (an_Path a) = Inr True)"
  by (induction git ref as rule: ancestry_loop.induct) (auto split: sum.splits)

lemma accepted_violations:
  "accepted (Inr (violation_loop m ps)) \<longleftrightarrow> (\<forall>p \<in> set ps. m p = None)"
  by (induction m ps rule: violation_loop.induct) (auto split: option.splits)

lemmas accepted_checks =
  accepted_shape accepted_diff accepted_epochs accepted_transitions accepted_ancestry accepted_violations

lemma Admit_accepted:
  "accepted (Admit git env p) \<longleftrightarrow>
     env_ProposalSHA env = adm_PresentedProposalSHA p \<and>
     (\<exists>out. git_run git [''rev-list'', ''--parents'', ''-n'', ''1'', env_ProposalSHA env] = Some out \<and>
        length (str_fields out) = 2) \<and>
     (\<exists>out. git_run git (diff_tree_args (env_ProposalSHA env)) = Some out \<and>
        mset (parseNameOnlyZ out) = mset (env_WriteSet env)) \<and>
     (\<forall>wp \<in> set (env_WriteSet env). map_at (env_LeaseEpoch env) wp = map_at (adm_CurrentEpoch p) wp) \<and>
     (\<forall>tr \<in> set (env_Transitions env). blobAt git (adm_IntegrationRef p) (tr_Path tr) = Inr (tr_Expected tr)) \<and>
     (\<forall>a \<in> set (env_Ancestry env). treeAt git (adm_IntegrationRef p) (an_Path a) = Inr True) \<and>
     (\<forall>wp \<in> set (env_WriteSet env). adm_UnresolvedViolations p wp = None)"
  unfolding Admit_def checkLeaseEpochs_def checkTransitionsCurrent_def checkAncestryCurrent_def
    checkViolationIntersect_def
  by (simp add: accepted_checks)

lemma and_then_accept: "accepted c \<Longrightarrow> and_then c rest = rest"
  by (auto simp: accepted_def and_then_def split: sum.splits)

lemma Admit_accept: "accepted (Admit git env p) \<Longrightarrow> Admit git env p = Inr accept"
  unfolding Admit_def by (auto simp: and_then_accept split: if_splits)

definition ex_admit_env :: Envelope where
  "ex_admit_env = \<lparr>env_CandidateID = ''c-1'', env_ProposalSHA = ''prop'', env_Base = ''int'',
     env_AgentUUID = ''al'', env_SessionUUID = ''s'', env_BeadID = ''b'', env_WriteSet = [''a/b.go''],
     env_Transitions = [\<lparr>tr_Path = ''a/b.go'', tr_Expected = None, tr_Result = Some \<lparr>br_SHA = ''77'', br_Mode = ''100644''\<rparr>\<rparr>],
     env_Ancestry = [AncestryEntry ''a''], env_LeaseEpoch = [''a/b.go'' \<mapsto> 4]\<rparr>"

definition ex_admit :: AdmitParams where
  "ex_admit = \<lparr>adm_PresentedProposalSHA = ''prop'', adm_IntegrationRef = ''int'',
     adm_UnresolvedViolations = (\<lambda>_. None), adm_CurrentEpoch = [''a/b.go'' \<mapsto> 4]\<rparr>"

subsection \<open>Properties\<close>

text \<open>The merge of two sorted lists computes the two multiset differences: \<open>diffStringSets\<close>
  reports what is only in the first and what is only in the second, repetitions counted.\<close>

theorem diffStringSets_differences:
  assumes "sorted a" "sorted b"
  shows "mset (fst (diffStringSets a b)) = mset a - mset b \<and>
    mset (snd (diffStringSets a b)) = mset b - mset a"
  using assms by (rule diffStringSets_mset)

theorem diffStringSets_differences_witness:
  "sorted [''a'', ''b'', ''c''] \<and> mset (fst (diffStringSets [''a'', ''b'', ''c''] [''b'', ''d''])) = {#''a'', ''c''#}"
proof -
  have s: "sorted [''a'', ''b'', ''c'']" "sorted [''b'', ''d'']" by code_simp+
  from diffStringSets_differences [OF s] s show ?thesis by simp
qed

text \<open>C4: A candidate is admitted exactly when all six conditions hold now: the presented commit is
  the captured one, it has one parent, its diff is the declared write set, every lease epoch is
  unchanged, every preimage and every ancestor directory is still what integration holds, and no
  written path has an unresolved violation.\<close>

theorem Admit_accepts_iff:
  "(\<exists>d. Admit git env p = Inr d \<and> d_Accepted d) \<longleftrightarrow>
     env_ProposalSHA env = adm_PresentedProposalSHA p \<and>
     (\<exists>out. git_run git [''rev-list'', ''--parents'', ''-n'', ''1'', env_ProposalSHA env] = Some out \<and>
        length (str_fields out) = 2) \<and>
     (\<exists>out. git_run git (diff_tree_args (env_ProposalSHA env)) = Some out \<and>
        mset (parseNameOnlyZ out) = mset (env_WriteSet env)) \<and>
     (\<forall>wp. wp \<in> set (env_WriteSet env) \<longrightarrow> map_at (env_LeaseEpoch env) wp = map_at (adm_CurrentEpoch p) wp) \<and>
     (\<forall>tr. tr \<in> set (env_Transitions env) \<longrightarrow> blobAt git (adm_IntegrationRef p) (tr_Path tr) = Inr (tr_Expected tr)) \<and>
     (\<forall>a. a \<in> set (env_Ancestry env) \<longrightarrow> treeAt git (adm_IntegrationRef p) (an_Path a) = Inr True) \<and>
     (\<forall>wp. wp \<in> set (env_WriteSet env) \<longrightarrow> adm_UnresolvedViolations p wp = None)"
proof -
  have "(\<exists>d. Admit git env p = Inr d \<and> d_Accepted d) \<longleftrightarrow> accepted (Admit git env p)"
    by (auto simp: accepted_def split: sum.splits)
  then show ?thesis unfolding Admit_accepted by blast
qed

theorem Admit_accepts_iff_witness:
  "\<exists>d. Admit ex_git ex_admit_env ex_admit = Inr d \<and> d_Accepted d"
proof -
  have "git_run ex_git [''rev-list'', ''--parents'', ''-n'', ''1'', env_ProposalSHA ex_admit_env] = Some ''prop int''"
    "length (str_fields ''prop int'') = 2"
    "git_run ex_git (diff_tree_args (env_ProposalSHA ex_admit_env)) = Some (''a/b.go'' @ [NUL])"
    "parseNameOnlyZ (''a/b.go'' @ [NUL]) = env_WriteSet ex_admit_env"
    "blobAt ex_git (adm_IntegrationRef ex_admit) ''a/b.go'' = Inr None"
    "treeAt ex_git (adm_IntegrationRef ex_admit) ''a'' = Inr True"
    by code_simp+
  then show ?thesis unfolding Admit_accepts_iff
    by (intro conjI) (auto simp: ex_admit_env_def ex_admit_def)
qed



text \<open>\<open>gitRunner.run\<close> trims the NUL-separated output of \<open>diff-tree\<close>, so the first changed path
  loses its leading whitespace: a proposal whose only change is the file \<open>' a'\<close>, declared as such,
  is refused as touching an undeclared path.\<close>

theorem Admit_refuses_leading_space:
  "checkDiffMatchesWriteSet (\<lambda>args. Some ('' a'' @ [NUL])) (env\<lparr>env_WriteSet := ['' a'']\<rparr>) =
     Inr (reject ReasonUnauthorizedPath ''diff touches undeclared path(s): a'')"
proof -
  have "trim_space ('' a'' @ [NUL]) = ''a'' @ [NUL]" by code_simp
  then have "git_run (\<lambda>args. Some ('' a'' @ [NUL])) args = Some (''a'' @ [NUL])" for args
    by (simp add: git_run_def)
  moreover have "diffStringSets (sort ['' a'']) (sort (parseNameOnlyZ (''a'' @ [NUL]))) = ([[CHR 0x20, CHR ''a'']], [''a''])" by code_simp
  ultimately show ?thesis by (simp add: checkDiffMatchesWriteSet_def Let_def)
qed

text \<open>The taxonomy the statistics iterate is complete and free of repetitions, its names are
  distinct, and exactly three classes are unwired.\<close>

theorem RejectionReasons_complete:
  "set RejectionReasons = UNIV \<and> distinct (map RejectionReason_name RejectionReasons) \<and>
   set (filter (\<lambda>r. \<not> Wired r) RejectionReasons) =
     {ReasonVerifyRed, ReasonVerifyInfrastructure, ReasonPromotionRace}"
proof -
  have "r \<in> set RejectionReasons" for r by (cases r) (simp_all add: RejectionReasons_def)
  moreover have "distinct (map RejectionReason_name RejectionReasons)" by code_simp
  moreover have "filter (\<lambda>r. \<not> Wired r) RejectionReasons =
      [ReasonVerifyRed, ReasonVerifyInfrastructure, ReasonPromotionRace]" by code_simp
  ultimately show ?thesis by auto
qed

end
