(* ===== verification/Claims.thy ===== *)
theory Claims
  imports Acquire Envelope
begin

text \<open>
  \<open>internal/store/candidate_claims.go\<close>, \<open>internal/store/admission.go\<close> and \<open>gcCandidateClaimsTx\<close> of
  \<open>doctor.go\<close>: the durable claims an accepted candidate holds on its write set.  The guarded insert
  re-reads the submitter's leases under the op-flock; \<open>AcceptCandidate\<close> inserts first and writes the
  candidate refs after, undoing its own rows when git fails.  \<open>Envelope.WriteBlob\<close> and
  \<open>gate.WriteCandidateRefs\<close> run git and are parameters: the blob's name or a failure, and whether
  the reference transaction was accepted.
\<close>

subsection \<open>Rows\<close>

definition claim_row_of :: "CandidateClaim \<Rightarrow> claim_row" where
  "claim_row_of c =
     \<lparr>cr_path_canonical = cc_PathCanonical c, cr_candidate_id = cc_CandidateID c,
      cr_owner_uuid = cc_OwnerUUID c, cr_session_uuid = cc_SessionUUID c,
      cr_created_at = cc_CreatedAt c, cr_host = cc_Host c, cr_pid = cc_PID c,
      cr_proc_start = (if cc_ProcStart c \<noteq> 0 then Some (cc_ProcStart c) else None)\<rparr>"

definition claim_pk :: "claim_row \<Rightarrow> string \<times> string" where
  "claim_pk r = (cr_path_canonical r, cr_candidate_id r)"

fun insertCandidateClaimRowsTx :: "CandidateClaim list \<Rightarrow> claim_row list \<Rightarrow> store_error + claim_row list" where
  "insertCandidateClaimRowsTx [] rows = Inr rows"
| "insertCandidateClaimRowsTx (c # cs) rows =
     (if claim_pk (claim_row_of c) \<in> set (map claim_pk rows)
      then Inl (ErrClaimExists (cc_PathCanonical c) (cc_CandidateID c))
      else insertCandidateClaimRowsTx cs (rows @ [claim_row_of c]))"

subsection \<open>The guarded insert\<close>

record ClaimGuard =
  g_Owner :: AgentUUID
  g_Epoch :: "string \<Rightarrow> int option"
  g_Live :: "HolderLiveProbe option"

definition guard_ctx :: "store \<Rightarrow> io \<Rightarrow> ClaimGuard \<Rightarrow> EvalContext" where
  "guard_ctx s i g = \<lparr>Now = io_now i, Live = g_Live g, CaseFold = s_caseFold s, MyWorktree = []\<rparr>"

text \<open>The owner's rows by comparison key; a later row replaces an earlier one.\<close>

definition held_leases :: "EvalContext \<Rightarrow> AgentUUID \<Rightarrow> LockRecord list \<Rightarrow> string \<Rightarrow> LockRecord option" where
  "held_leases ec own all =
     map_of (rev (map (\<lambda>l. (key_norm (CaseFold ec) (Canonical (l_Target l)), l))
       (filter (\<lambda>l. l_OwnerUUID l = own) all)))"

definition lease_conflict ::
  "EvalContext \<Rightarrow> ClaimGuard \<Rightarrow> (string \<Rightarrow> LockRecord option) \<Rightarrow> string \<Rightarrow> ClaimLeaseReason option" where
  "lease_conflict ec g held path =
     (case held (key_norm (CaseFold ec) path) of
        None \<Rightarrow> Some ClaimLeaseGone
      | Some l \<Rightarrow>
          if IsStale ec l then Some ClaimLeaseStale
          else if map_at (g_Epoch g) path \<noteq> l_Epoch l then Some ClaimLeaseEpochChanged
          else None)"

fun lease_conflicts ::
  "EvalContext \<Rightarrow> ClaimGuard \<Rightarrow> (string \<Rightarrow> LockRecord option) \<Rightarrow> CandidateClaim list \<Rightarrow>
     (string \<times> ClaimLeaseReason) list" where
  "lease_conflicts ec g held [] = []"
| "lease_conflicts ec g held (c # cs) =
     (case lease_conflict ec g held (cc_PathCanonical c) of
        None \<Rightarrow> lease_conflicts ec g held cs
      | Some r \<Rightarrow> (cc_PathCanonical c, r) # lease_conflicts ec g held cs)"

definition revalidateClaimLeasesTx ::
  "CandidateClaim list \<Rightarrow> ClaimGuard \<Rightarrow> EvalContext \<Rightarrow> db \<Rightarrow> store_error option" where
  "revalidateClaimLeasesTx claims g ec d =
     (let conflicts = lease_conflicts ec g (held_leases ec (g_Owner g) (loadLocksTx d)) claims
      in if conflicts = [] then None
         else Some (LeaseRevalidationError (sort_key fst conflicts)))"

definition InsertCandidateClaims ::
  "store \<Rightarrow> io \<Rightarrow> CandidateClaim list \<Rightarrow> ClaimGuard \<Rightarrow> db \<Rightarrow> store_error + db" where
  "InsertCandidateClaims s i claims g d =
     (if claims = [] then Inr d
      else if \<not> io_flock i then Inl ErrFlock
      else if \<not> io_begin i then Inl ErrBegin
      else case revalidateClaimLeasesTx claims g (guard_ctx s i g) d of
        Some er \<Rightarrow> Inl er
      | None \<Rightarrow>
          (case insertCandidateClaimRowsTx claims (db_candidate_claims d) of
             Inl er \<Rightarrow> Inl er
           | Inr rows \<Rightarrow>
               if \<not> io_commit i then Inl ErrCommit
               else Inr (d\<lparr>db_candidate_claims := rows\<rparr>)))"

subsection \<open>Reading and releasing\<close>

definition ReleaseCandidateClaims :: "string \<Rightarrow> db \<Rightarrow> db" where
  "ReleaseCandidateClaims cid d =
     d\<lparr>db_candidate_claims := filter (\<lambda>r. cr_candidate_id r \<noteq> cid) (db_candidate_claims d)\<rparr>"

definition claim_order :: "claim_row list \<Rightarrow> claim_row list" where
  "claim_order rows = sort_key claim_pk rows"

definition ListCandidateClaims :: "db \<Rightarrow> CandidateClaim list" where
  "ListCandidateClaims d = map scanCandidateClaim (claim_order (db_candidate_claims d))"

definition CandidateClaimsForPaths :: "string list \<Rightarrow> db \<Rightarrow> CandidateClaim list" where
  "CandidateClaimsForPaths paths d =
     (if paths = [] then []
      else map scanCandidateClaim
        (claim_order (filter (\<lambda>r. cr_path_canonical r \<in> set paths) (db_candidate_claims d))))"

text \<open>The compensating delete, on its own connection: \<open>ok\<close> says whether the statement ran.\<close>

definition releaseCandidateClaimsForPathsDetached :: "bool \<Rightarrow> string \<Rightarrow> string list \<Rightarrow> db \<Rightarrow> db" where
  "releaseCandidateClaimsForPathsDetached ok cid paths d =
     (if paths = [] \<or> \<not> ok then d
      else d\<lparr>db_candidate_claims :=
        filter (\<lambda>r. \<not> (cr_candidate_id r = cid \<and> cr_path_canonical r \<in> set paths)) (db_candidate_claims d)\<rparr>)"

subsection \<open>Acceptance\<close>

definition candidate_claims_of :: "time \<Rightarrow> Envelope \<Rightarrow> CandidateClaim \<Rightarrow> CandidateClaim list" where
  "candidate_claims_of now env sub =
     map (\<lambda>path. \<lparr>cc_PathCanonical = path, cc_CandidateID = env_CandidateID env,
                 cc_OwnerUUID = cc_OwnerUUID sub, cc_SessionUUID = cc_SessionUUID sub,
                 cc_CreatedAt = now, cc_Host = cc_Host sub, cc_PID = cc_PID sub,
                 cc_ProcStart = cc_ProcStart sub\<rparr>) (env_WriteSet env)"

text \<open>\<open>AcceptCandidate\<close> reads the clock twice: once for the rows, once inside the insert.\<close>

definition AcceptCandidate ::
  "store \<Rightarrow> io \<Rightarrow> (Envelope \<Rightarrow> string option) \<Rightarrow> (string \<Rightarrow> string \<Rightarrow> string \<Rightarrow> bool) \<Rightarrow> bool \<Rightarrow>
     Envelope \<Rightarrow> CandidateClaim \<Rightarrow> db \<Rightarrow> (store_error + string) \<times> db" where
  "AcceptCandidate s i writeBlob writeRefs compensated env sub d =
     (let claims = candidate_claims_of (io_now i) env sub;
          g = \<lparr>g_Owner = cc_OwnerUUID sub, g_Epoch = env_LeaseEpoch env, g_Live = io_live i\<rparr>;
          undo = releaseCandidateClaimsForPathsDetached compensated (env_CandidateID env) (env_WriteSet env)
      in case InsertCandidateClaims s (i\<lparr>io_now := io_now2 i\<rparr>) claims g d of
           Inl er \<Rightarrow> (Inl er, d)
         | Inr d1 \<Rightarrow>
             (case writeBlob env of
                None \<Rightarrow> (Inl ErrGit, undo d1)
              | Some sha \<Rightarrow>
                  if \<not> writeRefs (env_CandidateID env) sha (env_ProposalSHA env)
                  then (Inl ErrGit, undo d1)
                  else (Inr sha, d1)))"

definition RecordGateBypass :: "store \<Rightarrow> io \<Rightarrow> string \<Rightarrow> string \<Rightarrow> db \<Rightarrow> store_error option \<times> db" where
  "RecordGateBypass s i actor reason d =
     appendAuditDetached s i
       [\<lparr>e_ID = [], e_Target = Target [], e_Kind = EventGateBypass, e_ActorUUID = actor,
         e_SubjectUUID = [], e_Reason = reason, e_Detail = [], e_CreatedAt = io_now i\<rparr>] d"

subsection \<open>The repair sweep\<close>

fun abandoned_ids ::
  "EvalContext \<Rightarrow> string list \<Rightarrow> string list \<Rightarrow> CandidateClaim list \<Rightarrow> string list" where
  "abandoned_ids ec promotable seen [] = []"
| "abandoned_ids ec promotable seen (c # cs) =
     (if cc_CandidateID c \<in> set seen \<or> cc_CandidateID c \<in> set promotable
      then abandoned_ids ec promotable seen cs
      else if CandidateClaimIsAbandoned ec c
      then cc_CandidateID c # abandoned_ids ec promotable (cc_CandidateID c # seen) cs
      else abandoned_ids ec promotable (cc_CandidateID c # seen) cs)"

fun delete_candidates :: "string list \<Rightarrow> nat \<Rightarrow> db \<Rightarrow> nat \<times> db" where
  "delete_candidates [] n d = (n, d)"
| "delete_candidates (cid # ids) n d =
     delete_candidates ids
       (n + length (filter (\<lambda>r. cr_candidate_id r = cid) (db_candidate_claims d)))
       (ReleaseCandidateClaims cid d)"

definition gcCandidateClaimsTx :: "EvalContext \<Rightarrow> string list \<Rightarrow> db \<Rightarrow> nat \<times> db" where
  "gcCandidateClaimsTx ec promotable d =
     delete_candidates (sort (abandoned_ids ec promotable [] (ListCandidateClaims d))) 0 d"

subsection \<open>Facts\<close>

lemma insert_claim_rows_Inr:
  "insertCandidateClaimRowsTx cs rows = Inr rows' \<Longrightarrow>
     rows' = rows @ map claim_row_of cs \<and>
     (\<forall>c \<in> set cs. claim_pk (claim_row_of c) \<notin> claim_pk ` set rows)"
proof (induction cs arbitrary: rows)
  case Nil
  then show ?case by simp
next
  case (Cons c cs)
  then have n: "claim_pk (claim_row_of c) \<notin> claim_pk ` set rows"
    and i: "insertCandidateClaimRowsTx cs (rows @ [claim_row_of c]) = Inr rows'"
    by (auto split: if_splits)
  from Cons.IH [OF i] n show ?case by simp
qed

lemma insert_claim_rows_iff:
  "(\<exists>rows'. insertCandidateClaimRowsTx cs rows = Inr rows') \<longleftrightarrow>
     distinct (map (\<lambda>c. claim_pk (claim_row_of c)) cs) \<and> (\<forall>c \<in> set cs. claim_pk (claim_row_of c) \<notin> claim_pk ` set rows)"
proof (induction cs arbitrary: rows)
  case Nil
  then show ?case by simp
next
  case (Cons c cs)
  show ?case
  proof (cases "claim_pk (claim_row_of c) \<in> claim_pk ` set rows")
    case True
    then show ?thesis by simp
  next
    case False
    then have "(\<exists>rows'. insertCandidateClaimRowsTx (c # cs) rows = Inr rows') \<longleftrightarrow>
        distinct (map (\<lambda>c. claim_pk (claim_row_of c)) cs) \<and>
        (\<forall>c' \<in> set cs. claim_pk (claim_row_of c') \<notin> claim_pk ` set (rows @ [claim_row_of c]))"
      using Cons.IH [of "rows @ [claim_row_of c]"] by simp
    with False show ?thesis by (simp add: image_iff) metis
  qed
qed

lemma insert_claim_rows_distinct [table_intros]:
  "insertCandidateClaimRowsTx cs rows = Inr rows' \<Longrightarrow> distinct (map claim_pk rows) \<Longrightarrow> distinct (map claim_pk rows')"
  by (induction cs arbitrary: rows) (auto split: if_splits)

lemma held_leases_Some:
  assumes "held_leases ec own all k = Some l"
  shows "l \<in> set all \<and> l_OwnerUUID l = own \<and> key_norm (CaseFold ec) (Canonical (l_Target l)) = k"
  using map_of_SomeD [OF assms [unfolded held_leases_def]] by auto

lemma held_leases_None:
  "held_leases ec own all k = None \<longleftrightarrow>
     \<not> (\<exists>l \<in> set all. l_OwnerUUID l = own \<and> key_norm (CaseFold ec) (Canonical (l_Target l)) = k)"
  by (auto simp: held_leases_def map_of_eq_None_iff image_iff)

lemma lease_conflicts_set:
  "set (lease_conflicts ec g held cs) =
     {(cc_PathCanonical c, r) | c r. c \<in> set cs \<and> lease_conflict ec g held (cc_PathCanonical c) = Some r}"
  by (induction cs) (auto split: option.splits)

lemma lease_conflicts_Nil:
  "lease_conflicts ec g held cs = [] \<longleftrightarrow> (\<forall>c \<in> set cs. lease_conflict ec g held (cc_PathCanonical c) = None)"
  by (induction cs) (auto split: option.splits)

lemma revalidate_None:
  "revalidateClaimLeasesTx cs g ec d = None \<longleftrightarrow>
     (\<forall>c \<in> set cs. lease_conflict ec g (held_leases ec (g_Owner g) (loadLocksTx d)) (cc_PathCanonical c) = None)"
  unfolding lease_conflicts_Nil [symmetric] by (simp add: revalidateClaimLeasesTx_def Let_def)

lemma InsertCandidateClaims_Inr:
  assumes "InsertCandidateClaims s i cs g d = Inr d'" "cs \<noteq> []"
  shows "revalidateClaimLeasesTx cs g (guard_ctx s i g) d = None"
    "insertCandidateClaimRowsTx cs (db_candidate_claims d) = Inr (db_candidate_claims d')"
    "d' = d\<lparr>db_candidate_claims := db_candidate_claims d @ map claim_row_of cs\<rparr>"
proof -
  from assms have r: "revalidateClaimLeasesTx cs g (guard_ctx s i g) d = None"
    and i: "insertCandidateClaimRowsTx cs (db_candidate_claims d) = Inr (db_candidate_claims d')"
    and d: "d' = d\<lparr>db_candidate_claims := db_candidate_claims d'\<rparr>"
    by (auto simp: InsertCandidateClaims_def split: if_splits option.splits sum.splits)
  show "revalidateClaimLeasesTx cs g (guard_ctx s i g) d = None"
    "insertCandidateClaimRowsTx cs (db_candidate_claims d) = Inr (db_candidate_claims d')"
    using r i by simp_all
  have "db_candidate_claims d' = db_candidate_claims d @ map claim_row_of cs"
    using insert_claim_rows_Inr [OF i] by blast
  then show "d' = d\<lparr>db_candidate_claims := db_candidate_claims d @ map claim_row_of cs\<rparr>"
    by (subst d) simp
qed

text \<open>What backs a claim: a live row of the owner on the path at the pinned epoch.\<close>

definition lease_backs :: "EvalContext \<Rightarrow> ClaimGuard \<Rightarrow> string \<Rightarrow> LockRecord \<Rightarrow> bool" where
  "lease_backs ec g path l \<longleftrightarrow>
     l_OwnerUUID l = g_Owner g \<and>
     key_norm (CaseFold ec) (Canonical (l_Target l)) = key_norm (CaseFold ec) path \<and>
     \<not> IsStale ec l \<and> l_Epoch l = map_at (g_Epoch g) path"

lemma lease_conflict_None:
  "lease_conflict ec g (held_leases ec (g_Owner g) all) path = None \<Longrightarrow> \<exists>l \<in> set all. lease_backs ec g path l"
  unfolding lease_conflict_def lease_backs_def
  by (auto split: option.splits if_splits dest!: held_leases_Some)

lemma PrefixCovers_key:
  "PrefixCovers c a b \<longleftrightarrow> PrefixOverlaps (key_norm (CaseFold c) a) (key_norm (CaseFold c) b)"
proof (cases "CaseFold c")
  case True
  have "PrefixOverlaps a b \<Longrightarrow> PrefixOverlaps (to_lower a) (to_lower b)"
    by (auto simp: PrefixOverlaps_def prefix_def)
  with True show ?thesis by (auto simp: key_norm_def PrefixCovers_def)
qed (simp add: key_norm_def PrefixCovers_def)

lemma undo_claims:
  assumes "InsertCandidateClaims s i (candidate_claims_of now env sub) g d = Inr d1"
  shows "releaseCandidateClaimsForPathsDetached True (env_CandidateID env) (env_WriteSet env) d1 = d"
proof (cases "env_WriteSet env = []")
  case True
  with assms show ?thesis
    by (simp add: releaseCandidateClaimsForPathsDetached_def candidate_claims_of_def InsertCandidateClaims_def)
next
  case False
  let ?cs = "candidate_claims_of now env sub"
  have ne: "?cs \<noteq> []" using False by (simp add: candidate_claims_of_def)
  note a = InsertCandidateClaims_Inr [OF assms ne]
  let ?gone = "\<lambda>r. cr_candidate_id r = env_CandidateID env \<and> cr_path_canonical r \<in> set (env_WriteSet env)"
  have new: "filter (\<lambda>r. \<not> ?gone r) (map claim_row_of ?cs) = []"
    by (auto simp: candidate_claims_of_def claim_row_of_def filter_empty_conv)
  have "\<not> ?gone r" if "r \<in> set (db_candidate_claims d)" for r
  proof
    assume g: "?gone r"
    then have "claim_pk r \<in> (\<lambda>c. claim_pk (claim_row_of c)) ` set ?cs"
      by (force simp: candidate_claims_of_def claim_pk_def claim_row_of_def)
    with that insert_claim_rows_Inr [OF a(2)] show False by (metis (no_types, lifting) image_iff)
  qed
  then have old: "filter (\<lambda>r. \<not> ?gone r) (db_candidate_claims d) = db_candidate_claims d"
    by (simp add: filter_id_conv)
  show ?thesis
    using False unfolding releaseCandidateClaimsForPathsDetached_def a(3)
    by (simp only: if_False simp_thms filter_append db.simps) (use new old in simp)
qed

text \<open>One candidate's rows get one verdict: they carry one process's identity.\<close>

definition uniform_verdicts :: "EvalContext \<Rightarrow> CandidateClaim list \<Rightarrow> bool" where
  "uniform_verdicts ec cs \<longleftrightarrow>
     list_all (\<lambda>c. list_all (\<lambda>c'. cc_CandidateID c = cc_CandidateID c' \<longrightarrow>
       CandidateClaimIsAbandoned ec c = CandidateClaimIsAbandoned ec c') cs) cs"

lemma uniform_verdicts_iff:
  "uniform_verdicts ec cs \<longleftrightarrow>
     (\<forall>c \<in> set cs. \<forall>c' \<in> set cs. cc_CandidateID c = cc_CandidateID c' \<longrightarrow>
       CandidateClaimIsAbandoned ec c = CandidateClaimIsAbandoned ec c')"
  by (simp only: uniform_verdicts_def list_all_iff)

lemma uniform_verdictsD:
  "uniform_verdicts ec cs \<Longrightarrow> c \<in> set cs \<Longrightarrow> c' \<in> set cs \<Longrightarrow> cc_CandidateID c = cc_CandidateID c' \<Longrightarrow>
     CandidateClaimIsAbandoned ec c = CandidateClaimIsAbandoned ec c'"
  unfolding uniform_verdicts_iff by blast

lemma uniform_verdicts_subset:
  "uniform_verdicts ec cs \<Longrightarrow> set cs' \<subseteq> set cs \<Longrightarrow> uniform_verdicts ec cs'"
  unfolding uniform_verdicts_iff by blast

lemma image_comprehension:
  "{f c | c. c \<in> g ` S \<and> P c} = {f (g r) | r. r \<in> S \<and> P (g r)}"
  by blast

lemma abandoned_ids_set:
  assumes "uniform_verdicts ec cs"
  shows "set (abandoned_ids ec prom seen cs) =
    {cc_CandidateID c | c. c \<in> set cs \<and> cc_CandidateID c \<notin> set seen \<and> cc_CandidateID c \<notin> set prom \<and>
       CandidateClaimIsAbandoned ec c}"
  using assms
proof (induction cs arbitrary: seen)
  case Nil
  then show ?case by simp
next
  case (Cons c cs)
  have u: "uniform_verdicts ec cs"
    using Cons.prems by (rule uniform_verdicts_subset) auto
  have v: "\<And>c'. c' \<in> set cs \<Longrightarrow> cc_CandidateID c = cc_CandidateID c' \<Longrightarrow>
      CandidateClaimIsAbandoned ec c = CandidateClaimIsAbandoned ec c'"
    by (rule uniform_verdictsD [OF Cons.prems]) simp_all
  consider "cc_CandidateID c \<in> set seen \<or> cc_CandidateID c \<in> set prom"
    | "cc_CandidateID c \<notin> set seen" "cc_CandidateID c \<notin> set prom" "CandidateClaimIsAbandoned ec c"
    | "cc_CandidateID c \<notin> set seen" "cc_CandidateID c \<notin> set prom" "\<not> CandidateClaimIsAbandoned ec c"
    by blast
  then show ?case
  proof cases
    case 1
    then show ?thesis using Cons.IH [OF u, of seen] by auto
  next
    case 2
    then show ?thesis using Cons.IH [OF u, of "cc_CandidateID c # seen"] by auto
  next
    case 3
    have "\<And>c'. c' \<in> set cs \<Longrightarrow> CandidateClaimIsAbandoned ec c' \<Longrightarrow> cc_CandidateID c' \<noteq> cc_CandidateID c"
      using v 3(3) by metis
    then show ?thesis using 3 Cons.IH [OF u, of "cc_CandidateID c # seen"] by auto
  qed
qed

lemma delete_candidates_snd:
  "snd (delete_candidates ids n d) =
     d\<lparr>db_candidate_claims := filter (\<lambda>r. cr_candidate_id r \<notin> set ids) (db_candidate_claims d)\<rparr>"
proof (induction ids arbitrary: n d)
  case Nil
  then show ?case by simp
next
  case (Cons x ids)
  have "filter (\<lambda>r. cr_candidate_id r \<notin> set ids) (filter (\<lambda>r. cr_candidate_id r \<noteq> x) (db_candidate_claims d)) =
      filter (\<lambda>r. cr_candidate_id r \<notin> set (x # ids)) (db_candidate_claims d)"
    by (auto simp: filter_filter intro!: filter_cong)
  then show ?case by (simp add: Cons.IH ReleaseCandidateClaims_def)
qed

lemma delete_candidates_fst:
  "fst (delete_candidates ids n d) + length (db_candidate_claims (snd (delete_candidates ids n d))) =
     n + length (db_candidate_claims d)"
proof (induction ids arbitrary: n d)
  case Nil
  then show ?case by simp
next
  case (Cons x ids)
  have "length (filter (\<lambda>r. cr_candidate_id r = x) (db_candidate_claims d)) +
      length (filter (\<lambda>r. cr_candidate_id r \<noteq> x) (db_candidate_claims d)) = length (db_candidate_claims d)"
    by (rule sum_length_filter_compl)
  then show ?case by (simp add: Cons.IH) (simp add: ReleaseCandidateClaims_def)
qed

subsection \<open>Concrete inputs\<close>

definition ex_claim :: "string \<Rightarrow> string \<Rightarrow> AgentUUID \<Rightarrow> CandidateClaim" where
  "ex_claim path cid own = \<lparr>cc_PathCanonical = path, cc_CandidateID = cid, cc_OwnerUUID = own,
     cc_SessionUUID = ''s'', cc_CreatedAt = 10, cc_Host = ''h'', cc_PID = 7, cc_ProcStart = 0\<rparr>"

definition ex_guard :: ClaimGuard where
  "ex_guard = \<lparr>g_Owner = ''bob'', g_Epoch = [''d'' \<mapsto> 1], g_Live = None\<rparr>"

definition ex_claimed_db :: db where
  "ex_claimed_db = ex_db\<lparr>db_candidate_claims := [claim_row_of (ex_claim ''p/x'' ''c-1'' ''al'')]\<rparr>"

definition ex_envelope :: Envelope where
  "ex_envelope = \<lparr>env_CandidateID = ''c-2'', env_ProposalSHA = ''prop'', env_Base = ''int'',
     env_AgentUUID = ''bob'', env_SessionUUID = ''s'', env_BeadID = ''b'', env_WriteSet = [''d''],
     env_Transitions = [], env_Ancestry = [], env_LeaseEpoch = [''d'' \<mapsto> 1]\<rparr>"

subsection \<open>Properties\<close>



text \<open>What an accepted claim rests on: for every claimed path a live row of the submitter at the
  pinned epoch, beside which, in a table free of conflicts, no row of another owner in the same
  checkout covers the path; the claims are appended and nothing else changes.\<close>

theorem InsertCandidateClaims_backed:
  assumes "InsertCandidateClaims s i cs g d = Inr d'" "exclusive (s_caseFold s) (db_locks d)"
  shows "d' = d\<lparr>db_candidate_claims := db_candidate_claims d @ map claim_row_of cs\<rparr> \<and>
    (\<forall>c \<in> set cs. \<exists>r \<in> set (db_locks d).
      lease_backs (guard_ctx s i g) g (cc_PathCanonical c) (scanLock (db_hook_calls d) r) \<and>
      (\<forall>r' \<in> set (db_locks d). r_owner_uuid r' \<noteq> g_Owner g \<and> SameWorktree (r_worktree r) (r_worktree r') \<longrightarrow>
         \<not> PrefixCovers (guard_ctx s i g) (r_target_canonical r') (cc_PathCanonical c)))"
proof (cases "cs = []")
  case True
  with assms(1) show ?thesis by (simp add: InsertCandidateClaims_def)
next
  case False
  note a = InsertCandidateClaims_Inr [OF assms(1) False]
  let ?ec = "guard_ctx s i g"
  have cf: "CaseFold ?ec = s_caseFold s" by (simp add: guard_ctx_def)
  have "\<exists>r \<in> set (db_locks d). lease_backs ?ec g (cc_PathCanonical c) (scanLock (db_hook_calls d) r) \<and>
      (\<forall>r' \<in> set (db_locks d). r_owner_uuid r' \<noteq> g_Owner g \<and> SameWorktree (r_worktree r) (r_worktree r') \<longrightarrow>
         \<not> PrefixCovers ?ec (r_target_canonical r') (cc_PathCanonical c))" if "c \<in> set cs" for c
  proof -
    from a(1) that obtain l where l: "l \<in> set (loadLocksTx d)" "lease_backs ?ec g (cc_PathCanonical c) l"
      unfolding revalidate_None by (blast dest: lease_conflict_None)
    then obtain r where r: "r \<in> set (db_locks d)" "l = scanLock (db_hook_calls d) r" by auto
    have own: "r_owner_uuid r = g_Owner g"
      and key: "key_norm (s_caseFold s) (r_target_canonical r) = key_norm (s_caseFold s) (cc_PathCanonical c)"
      using l(2) by (auto simp: r(2) lease_backs_def cf)
    have "\<not> PrefixCovers ?ec (r_target_canonical r') (cc_PathCanonical c)"
      if r': "r' \<in> set (db_locks d)" "r_owner_uuid r' \<noteq> g_Owner g" "SameWorktree (r_worktree r) (r_worktree r')" for r'
    proof
      assume "PrefixCovers ?ec (r_target_canonical r') (cc_PathCanonical c)"
      then have "PrefixCovers (fold_ctx (s_caseFold s)) (r_target_canonical r) (r_target_canonical r')"
        unfolding PrefixCovers_key cf by (simp add: key fold_ctx_def PrefixOverlaps_sym)
      with r' own have "contends (s_caseFold s) (lock_pk r) (lock_pk r')"
        by (simp add: lock_pk_def)
      with assms(2) r(1) r'(1) show False
        by (auto simp: exclusive_def conflict_free_def lock_keys_def)
    qed
    with l(2) r show ?thesis by blast
  qed
  with a(3) show ?thesis by blast
qed

theorem InsertCandidateClaims_backed_witness:
  "\<exists>d'. InsertCandidateClaims ex_store (ex_io 10) [ex_claim ''d'' ''c-2'' ''bob''] ex_guard ex_db = Inr d' \<and>
     length (db_candidate_claims d') = 1"
proof -
  let ?call = "InsertCandidateClaims ex_store (ex_io 10) [ex_claim ''d'' ''c-2'' ''bob''] ex_guard ex_db"
  have "\<not> isl ?call" by code_simp
  then obtain d' where e: "?call = Inr d'" by (cases ?call) auto
  have "exclusive (s_caseFold ex_store) (db_locks ex_db)"
    using ex_db_exclusive(1) by (simp add: ex_store_def)
  from InsertCandidateClaims_backed [OF e this] e show ?thesis
    by (intro exI [of _ d']) (simp add: ex_db_def empty_db_def)
qed

text \<open>A claim outlives its lease as protection: while a claim row names a path, no acquire that
  asks for the path succeeds, whoever asks, the submitter included; once the environment lets it
  run, the refusal lists the claim.\<close>

theorem claimed_path_refuses_acquire:
  assumes "r \<in> set (db_candidate_claims d)" "l \<in> set recs" "Canonical (l_Target l) = cr_path_canonical r"
  shows "(\<forall>x. AcquireLocks s i recs d \<noteq> Inr x) \<and>
    (io_flock i \<and> io_begin i \<and> validateAllFileTargets i (s_repoTop s) (sortedByCanonical recs) = None \<longrightarrow>
      (\<exists>cs. AcquireLocks s i recs d = Inl (CandidateClaimConflictError cs) \<and> scanCandidateClaim r \<in> set cs))"
proof -
  have ne: "recs \<noteq> []" using assms(2) by auto
  let ?paths = "map (\<lambda>l. Canonical (l_Target l)) (sortedByCanonical recs)"
  have m: "scanCandidateClaim r \<in> set (candidateClaimsForPathsTx ?paths d)"
    using assms by (force simp: candidateClaimsForPathsTx_def)
  then have "candidateClaimsForPathsTx ?paths d \<noteq> []" by auto
  then have b: "blockOnCandidateClaims (sortedByCanonical recs) d = Some (CandidateClaimConflictError
      (sort_key (\<lambda>c. (cc_PathCanonical c, cc_CandidateID c)) (candidateClaimsForPathsTx ?paths d)))"
    by (simp add: blockOnCandidateClaims_def Let_def)
  show ?thesis
    using ne m by (auto simp: AcquireLocks_def Let_def b split: option.splits)
qed

theorem claimed_path_refuses_acquire_witness:
  "\<exists>cs. AcquireLocks ex_store (ex_io 10) [ex_lock ''p/x'' ''al'' 30] ex_claimed_db =
     Inl (CandidateClaimConflictError cs)"
proof -
  have "claim_row_of (ex_claim ''p/x'' ''c-1'' ''al'') \<in> set (db_candidate_claims ex_claimed_db)"
    "ex_lock ''p/x'' ''al'' 30 \<in> set [ex_lock ''p/x'' ''al'' 30]"
    "Canonical (l_Target (ex_lock ''p/x'' ''al'' 30)) = cr_path_canonical (claim_row_of (ex_claim ''p/x'' ''c-1'' ''al''))"
    by (simp_all add: ex_claimed_db_def ex_lock_def claim_row_of_def ex_claim_def)
  note c = claimed_path_refuses_acquire [OF this, of ex_store "ex_io 10"]
  have "validateAllFileTargets (ex_io 10) (s_repoTop ex_store) (sortedByCanonical [ex_lock ''p/x'' ''al'' 30]) = None"
    "io_flock (ex_io 10)" "io_begin (ex_io 10)"
    by code_simp+
  with c show ?thesis by blast
qed



text \<open>The repair sweep of claims removes the rows of the abandoned candidates that are not
  promotable, all of them and no others, and counts what it removed; the verdict of a candidate is
  read off its first row, which is exact because its rows share one process.\<close>

theorem gcCandidateClaimsTx_exact:
  assumes "uniform_verdicts ec (map scanCandidateClaim (db_candidate_claims d))"
  shows "snd (gcCandidateClaimsTx ec prom d) = d\<lparr>db_candidate_claims :=
      filter (\<lambda>r. cr_candidate_id r \<in> set prom \<or> \<not> CandidateClaimIsAbandoned ec (scanCandidateClaim r))
        (db_candidate_claims d)\<rparr> \<and>
    fst (gcCandidateClaimsTx ec prom d) + length (db_candidate_claims (snd (gcCandidateClaimsTx ec prom d))) =
      length (db_candidate_claims d)"
proof -
  let ?cs = "ListCandidateClaims d" and ?rows = "db_candidate_claims d"
  have set: "set ?cs = scanCandidateClaim ` set ?rows"
    by (simp add: ListCandidateClaims_def claim_order_def)
  have id: "cc_CandidateID (scanCandidateClaim r) = cr_candidate_id r" for r
    by (simp add: scanCandidateClaim_def)
  have u: "uniform_verdicts ec ?cs"
    using assms by (rule uniform_verdicts_subset) (simp add: set)
  have ids: "set (abandoned_ids ec prom [] ?cs) =
      {cr_candidate_id r | r. r \<in> set ?rows \<and> cr_candidate_id r \<notin> set prom \<and>
         CandidateClaimIsAbandoned ec (scanCandidateClaim r)}"
    unfolding abandoned_ids_set [OF u] set image_comprehension id by simp
  have "cr_candidate_id r \<notin> set (abandoned_ids ec prom [] ?cs) \<longleftrightarrow>
      cr_candidate_id r \<in> set prom \<or> \<not> CandidateClaimIsAbandoned ec (scanCandidateClaim r)"
    if r: "r \<in> set ?rows" for r
  proof -
    have same: "CandidateClaimIsAbandoned ec (scanCandidateClaim r') = CandidateClaimIsAbandoned ec (scanCandidateClaim r)"
      if "r' \<in> set ?rows" "cr_candidate_id r' = cr_candidate_id r" for r'
      by (rule uniform_verdictsD [OF assms]) (use that r in \<open>simp_all add: id\<close>)
    show ?thesis
    proof
      assume "cr_candidate_id r \<notin> set (abandoned_ids ec prom [] ?cs)"
      with r show "cr_candidate_id r \<in> set prom \<or> \<not> CandidateClaimIsAbandoned ec (scanCandidateClaim r)"
        unfolding ids by blast
    next
      assume keep: "cr_candidate_id r \<in> set prom \<or> \<not> CandidateClaimIsAbandoned ec (scanCandidateClaim r)"
      show "cr_candidate_id r \<notin> set (abandoned_ids ec prom [] ?cs)"
      proof
        assume "cr_candidate_id r \<in> set (abandoned_ids ec prom [] ?cs)"
        then obtain r' where "r' \<in> set ?rows" "cr_candidate_id r' = cr_candidate_id r"
          "cr_candidate_id r' \<notin> set prom" "CandidateClaimIsAbandoned ec (scanCandidateClaim r')"
          unfolding ids by auto
        with same keep show False by simp
      qed
    qed
  qed
  then have "filter (\<lambda>r. cr_candidate_id r \<notin> set (sort (abandoned_ids ec prom [] ?cs))) ?rows =
      filter (\<lambda>r. cr_candidate_id r \<in> set prom \<or> \<not> CandidateClaimIsAbandoned ec (scanCandidateClaim r)) ?rows"
    by (intro filter_cong) auto
  then show ?thesis
    using delete_candidates_fst [of "sort (abandoned_ids ec prom [] ?cs)" 0 d]
    unfolding gcCandidateClaimsTx_def delete_candidates_snd by simp
qed

theorem gcCandidateClaimsTx_exact_witness:
  "db_candidate_claims (snd (gcCandidateClaimsTx
     \<lparr>Now = 10, Live = Some (\<lambda>_. LivenessDead), CaseFold = False, MyWorktree = []\<rparr> [] ex_claimed_db)) = []"
proof -
  let ?ec = "\<lparr>Now = 10, Live = Some (\<lambda>_. LivenessDead), CaseFold = False, MyWorktree = []\<rparr> :: EvalContext"
  have "uniform_verdicts ?ec (map scanCandidateClaim (db_candidate_claims ex_claimed_db))" by code_simp
  from gcCandidateClaimsTx_exact [OF this, of "[]"] show ?thesis
    by (simp add: ex_claimed_db_def CandidateClaimIsAbandoned_def)
qed

text \<open>The acquisition block compares paths, not territory: with a claim of \<open>c-1\<close> on \<open>p/x\<close>, an
  acquire of the directory \<open>p\<close> above it is granted.\<close>

theorem AcquireLocks_directory_over_claim:
  "case AcquireLocks ex_store (ex_io 10) [(ex_lock ''p'' ''cy'' 30)\<lparr>l_Directory := True\<rparr>] ex_claimed_db of
     Inl _ \<Rightarrow> False
   | Inr (d', out) \<Rightarrow> PrefixCovers (eval_ctx ex_store (ex_io 10)) ''p'' ''p/x'' \<and>
       map cr_path_canonical (db_candidate_claims d') = [''p/x''] \<and>
       (''p'', ''cy'', ''main'') \<in> set (map lock_pk (db_locks d'))"
  by code_simp

text \<open>The leases are looked up by path alone, whatever the checkout: a submitter that holds \<open>d\<close>
  live at epoch 1 in one checkout and at epoch 2 in another is refused on the first one's pin.\<close>

theorem revalidate_ignores_worktree:
  "case InsertCandidateClaims ex_store (ex_io 10) [ex_claim ''d'' ''c-2'' ''bob''] ex_guard
      (ex_db\<lparr>db_locks := db_locks ex_db @ [lock_row_of ((ex_lock ''d'' ''bob'' 20)\<lparr>l_Worktree := ''side''\<rparr>) 2]\<rparr>) of
     Inl (LeaseRevalidationError cs) \<Rightarrow> cs = [(''d'', ClaimLeaseEpochChanged)]
   | _ \<Rightarrow> False"
  by code_simp

end
