(* ===== verification/Violations.thy ===== *)
theory Violations
  imports Refresh Claims Admission
begin

text \<open>
  \<open>internal/store/violations.go\<close> and \<open>ScanWorktree\<close> of \<open>internal/gate/scan.go\<close>: recording, closing
  and reading the sticky record of unauthorized mutations.  \<open>ReconcileScan\<close> commits twice (it closes
  reverted rows first, then records new ones); its two transactions have environments of their own
  and a failure of the second leaves the first one's effect.  The content hashes of the observed
  files (\<open>hashWorktreePaths\<close>) are a parameter of the scan.
\<close>

subsection \<open>Constants\<close>

definition LeaseStateUnleased :: string where "LeaseStateUnleased = ''unleased''"
definition LeaseStateExpired :: string where "LeaseStateExpired = ''expired-lease''"
definition WorktreeLegacy :: string where "WorktreeLegacy = ''?''"
definition ResolutionReverted :: string where "ResolutionReverted = ''reverted''"
definition ResolutionAcked :: string where "ResolutionAcked = ''acked''"

definition Resolved :: "Violation \<Rightarrow> bool" where
  "Resolved v \<longleftrightarrow> v_ResolvedAt v \<noteq> None"

record ObservedViolation =
  ov_PathCanonical :: string
  ov_Fingerprint :: string
  ov_Baseline :: string
  ov_LeaseState :: string
  ov_ExpectedOwner :: string
  ov_Worktree :: string

subsection \<open>The sensor\<close>

record Observation =
  ob_Path :: string
  ob_Fingerprint :: string
  ob_Deleted :: bool

record Scan =
  sc_Baseline :: string
  sc_Worktree :: string
  sc_Observations :: "Observation list"

datatype scan_error = ErrNoBaseline | ErrScanGit | ErrGitDirPair | ErrScanHash

definition IntegrationRef :: string where
  "IntegrationRef = ''refs/loto/integration''"

definition filepath_base :: "string \<Rightarrow> string" where
  "filepath_base p =
     (if p = [] then ''.''
      else let q = trim_right_slash p in
        if q = [] then ''/''
        else (case cut_last CHR ''/'' q of None \<Rightarrow> q | Some (_, b) \<Rightarrow> b))"

definition WorktreeID :: "git \<Rightarrow> scan_error + string" where
  "WorktreeID git =
     (case git_run git [''rev-parse'', ''--git-dir'', ''--git-common-dir''] of
        None \<Rightarrow> Inl ErrScanGit
      | Some out \<Rightarrow>
          (case split_on CHR 0x0A (trim_space out) of
             [a, b] \<Rightarrow>
               if path_clean a = path_clean b then Inr [] else Inr (filepath_base (path_clean a))
           | _ \<Rightarrow> Inl ErrGitDirPair))"

definition ScanWorktree :: "git \<Rightarrow> (string list \<Rightarrow> (string \<Rightarrow> string) option) \<Rightarrow> scan_error + Scan" where
  "ScanWorktree git hash =
     (case git_run git [''rev-parse'', ''--verify'', ''--quiet'', IntegrationRef] of
        None \<Rightarrow> Inl ErrNoBaseline
      | Some baseline \<Rightarrow>
     (case git_run git [''diff'', ''--name-status'', ''-z'', ''--no-renames'', IntegrationRef, ''--''] of
        None \<Rightarrow> Inl ErrScanGit
      | Some out \<Rightarrow>
          let cd = parseNameStatusZ out in
     (case hash (fst cd) of
        None \<Rightarrow> Inl ErrScanHash
      | Some fp \<Rightarrow>
          let obs = map (\<lambda>p. \<lparr>ob_Path = p, ob_Fingerprint = fp p, ob_Deleted = False\<rparr>) (fst cd) @
                    map (\<lambda>p. \<lparr>ob_Path = p, ob_Fingerprint = [], ob_Deleted = True\<rparr>) (snd cd) in
     (case WorktreeID git of
        Inl er \<Rightarrow> Inl er
      | Inr wt \<Rightarrow>
          Inr \<lparr>sc_Baseline = trim_space baseline, sc_Worktree = wt, sc_Observations = sort_key ob_Path obs\<rparr>))))"

subsection \<open>Recording\<close>

definition violation_of :: "ObservedViolation \<Rightarrow> string \<Rightarrow> time \<Rightarrow> Violation" where
  "violation_of ob vid now =
     \<lparr>v_ID = vid, v_PathCanonical = ov_PathCanonical ob, v_ObservedAt = now,
      v_Fingerprint = ov_Fingerprint ob, v_Baseline = ov_Baseline ob,
      v_LeaseState = ov_LeaseState ob, v_ExpectedOwner = ov_ExpectedOwner ob,
      v_Worktree = ov_Worktree ob, v_ResolvedAt = None, v_Resolution = []\<rparr>"

text \<open>The acknowledgement the insert re-checks: same path, content, baseline and checkout, closed by
  something other than the machine's own reversion.\<close>

definition acked_row :: "string \<Rightarrow> string \<Rightarrow> string \<Rightarrow> string \<Rightarrow> Violation \<Rightarrow> bool" where
  "acked_row path fp baseline wt v \<longleftrightarrow>
     v_PathCanonical v = path \<and> v_Fingerprint v = fp \<and> v_Baseline v = baseline \<and> v_Worktree v = wt \<and>
     Resolved v \<and> v_Resolution v \<noteq> ResolutionReverted"

text \<open>What \<open>INSERT OR IGNORE\<close> drops a row for: the primary key and the partial unique index.\<close>

definition open_at :: "string \<Rightarrow> string \<Rightarrow> Violation \<Rightarrow> bool" where
  "open_at path wt v \<longleftrightarrow> \<not> Resolved v \<and> v_PathCanonical v = path \<and> v_Worktree v = wt"

definition insert_or_ignore :: "Violation \<Rightarrow> Violation list \<Rightarrow> Violation list option" where
  "insert_or_ignore v vs =
     (if list_ex (acked_row (v_PathCanonical v) (v_Fingerprint v) (v_Baseline v) (v_Worktree v)) vs then None
      else if list_ex (\<lambda>w. v_ID w = v_ID v) vs \<or> list_ex (open_at (v_PathCanonical v) (v_Worktree v)) vs then None
      else Some (vs @ [v]))"

fun record_loop ::
  "store \<Rightarrow> time \<Rightarrow> ObservedViolation list \<Rightarrow> db \<Rightarrow> Violation list \<times> db" where
  "record_loop s now [] d = ([], d)"
| "record_loop s now (ob # obs) d =
     (let nid = newID s ''v-'' d;
          v = violation_of ob (fst nid) now
      in case insert_or_ignore v (db_violations (snd nid)) of
           None \<Rightarrow> record_loop s now obs (snd nid)
         | Some vs \<Rightarrow>
             (let r = record_loop s now obs ((snd nid)\<lparr>db_violations := vs\<rparr>) in (v # fst r, snd r)))"

definition RecordViolations ::
  "store \<Rightarrow> io \<Rightarrow> ObservedViolation list \<Rightarrow> db \<Rightarrow> store_error + db \<times> Violation list" where
  "RecordViolations s i obs d =
     (if obs = [] then Inr (d, [])
      else if \<not> io_begin i then Inl ErrBegin
      else let r = record_loop s (io_now i) obs d in
        if \<not> io_commit i then Inl ErrCommit
        else Inr (snd r, sort_key v_PathCanonical (fst r)))"

subsection \<open>Reading\<close>

definition violation_order :: "Violation list \<Rightarrow> Violation list" where
  "violation_order vs = sort_key (\<lambda>v. (v_PathCanonical v, v_ID v)) vs"

definition UnresolvedViolations :: "db \<Rightarrow> Violation list" where
  "UnresolvedViolations d = violation_order (filter (\<lambda>v. \<not> Resolved v) (db_violations d))"

definition UnresolvedViolationsIn :: "string \<Rightarrow> db \<Rightarrow> Violation list" where
  "UnresolvedViolationsIn wt d =
     violation_order (filter (\<lambda>v. \<not> Resolved v \<and> (v_Worktree v = wt \<or> v_Worktree v = WorktreeLegacy))
       (db_violations d))"

definition ViolationByID :: "string \<Rightarrow> db \<Rightarrow> store_error + Violation" where
  "ViolationByID vid d =
     (case filter (\<lambda>v. v_ID v = vid) (db_violations d) of
        [] \<Rightarrow> Inl ErrUnknownViolation | v # _ \<Rightarrow> Inr v)"

definition UnresolvedViolationPaths :: "string \<Rightarrow> db \<Rightarrow> string \<Rightarrow> string option" where
  "UnresolvedViolationPaths wt d =
     map_of (rev (map (\<lambda>v. (v_PathCanonical v, v_ID v)) (UnresolvedViolationsIn wt d)))"

subsection \<open>Closing\<close>

definition close_rows :: "(Violation \<Rightarrow> bool) \<Rightarrow> time \<Rightarrow> string \<Rightarrow> Violation list \<Rightarrow> Violation list" where
  "close_rows P now resolution vs =
     map (\<lambda>v. if P v \<and> \<not> Resolved v then v\<lparr>v_ResolvedAt := Some now, v_Resolution := resolution\<rparr> else v) vs"

definition closing :: "(Violation \<Rightarrow> bool) \<Rightarrow> Violation list \<Rightarrow> nat" where
  "closing P vs = length (filter (\<lambda>v. P v \<and> \<not> Resolved v) vs)"

definition ResolveViolation :: "io \<Rightarrow> string \<Rightarrow> string \<Rightarrow> db \<Rightarrow> store_error + db" where
  "ResolveViolation i vid resolution d =
     (let res = (if resolution = [] then ResolutionAcked else resolution); P = (\<lambda>v. v_ID v = vid)
      in if \<not> io_begin i then Inl ErrBegin
         else if closing P (db_violations d) = 0 then Inl ErrUnknownViolation
         else if \<not> io_commit i then Inl ErrCommit
         else Inr (d\<lparr>db_violations := close_rows P (io_now i) res (db_violations d)\<rparr>))"

fun resolve_paths_loop ::
  "string \<Rightarrow> time \<Rightarrow> string \<Rightarrow> string list \<Rightarrow> nat \<Rightarrow> Violation list \<Rightarrow> nat \<times> Violation list" where
  "resolve_paths_loop wt now res [] n vs = (n, vs)"
| "resolve_paths_loop wt now res (p # ps) n vs =
     (let P = (\<lambda>v. v_PathCanonical v = p \<and> v_Worktree v = wt)
      in resolve_paths_loop wt now res ps (n + closing P vs) (close_rows P now res vs))"

definition ResolveViolationsForPaths ::
  "io \<Rightarrow> string \<Rightarrow> string list \<Rightarrow> string \<Rightarrow> db \<Rightarrow> store_error + db \<times> nat" where
  "ResolveViolationsForPaths i wt paths resolution d =
     (if paths = [] then Inr (d, 0)
      else let res = (if resolution = [] then ResolutionReverted else resolution) in
        if \<not> io_begin i then Inl ErrBegin
        else let r = resolve_paths_loop wt (io_now i) res paths 0 (db_violations d) in
          if \<not> io_commit i then Inl ErrCommit
          else Inr (d\<lparr>db_violations := snd r\<rparr>, fst r))"

subsection \<open>Reconciling a scan\<close>

record ScanResult =
  sr_Observed :: nat
  sr_Recorded :: "Violation list"
  sr_Resolved :: nat

definition ackedFingerprints :: "string list \<Rightarrow> string \<Rightarrow> string \<Rightarrow> db \<Rightarrow> string list" where
  "ackedFingerprints paths baseline wt d =
     map (\<lambda>v. v_PathCanonical v @ [NUL] @ v_Fingerprint v)
       (filter (\<lambda>v. v_PathCanonical v \<in> set paths \<and> Resolved v \<and> v_Resolution v \<noteq> ResolutionReverted \<and>
                    v_Baseline v = baseline \<and> v_Worktree v = wt) (db_violations d))"

definition authorizedPaths :: "Observation list \<Rightarrow> EvalContext \<Rightarrow> db \<Rightarrow> string list" where
  "authorizedPaths obs ec d =
     (let live = map (\<lambda>l. Canonical (l_Target l)) (filter (\<lambda>l. \<not> IsStale ec l) (ListLocks d));
          paths = map ob_Path obs
      in filter (\<lambda>p. list_ex (\<lambda>k. k \<in> set live) (coveringKeys p)) paths @
         map cc_PathCanonical (filter (\<lambda>c. \<not> CandidateClaimIsDead ec c) (CandidateClaimsForPaths paths d)))"

definition lapsedLeaseWitness :: "store \<Rightarrow> string \<Rightarrow> EvalContext \<Rightarrow> db \<Rightarrow> string \<times> string" where
  "lapsedLeaseWitness s path ec d =
     (case filter (IsStale ec) (LocksAt s (Target path) d) of
        [] \<Rightarrow> (LeaseStateUnleased, []) | l # _ \<Rightarrow> (LeaseStateExpired, l_OwnerUUID l))"

definition scan_candidates :: "store \<Rightarrow> Scan \<Rightarrow> EvalContext \<Rightarrow> db \<Rightarrow> ObservedViolation list" where
  "scan_candidates s sc ec d =
     (let obs = sc_Observations sc;
          authorized = authorizedPaths obs ec d;
          acked = ackedFingerprints (map ob_Path obs) (sc_Baseline sc) (sc_Worktree sc) d
      in map (\<lambda>ob. let w = lapsedLeaseWitness s (ob_Path ob) ec d in
               \<lparr>ov_PathCanonical = ob_Path ob, ov_Fingerprint = ob_Fingerprint ob,
                ov_Baseline = sc_Baseline sc, ov_LeaseState = fst w, ov_ExpectedOwner = snd w,
                ov_Worktree = sc_Worktree sc\<rparr>)
           (filter (\<lambda>ob. ob_Path ob \<notin> set authorized \<and>
                         ob_Path ob @ [NUL] @ ob_Fingerprint ob \<notin> set acked) obs))"

definition reverted_paths :: "Scan \<Rightarrow> db \<Rightarrow> string list" where
  "reverted_paths sc d =
     filter (\<lambda>p. p \<notin> ob_Path ` set (sc_Observations sc))
       (map v_PathCanonical (UnresolvedViolationsIn (sc_Worktree sc) d))"

definition ReconcileScan ::
  "store \<Rightarrow> io \<Rightarrow> io \<Rightarrow> Scan \<Rightarrow> EvalContext \<Rightarrow> db \<Rightarrow> (store_error option \<times> ScanResult) \<times> db" where
  "ReconcileScan s i1 i2 sc ec d =
     (let candidates = scan_candidates s sc ec d;
          res = \<lparr>sr_Observed = length (sc_Observations sc), sr_Recorded = [], sr_Resolved = 0\<rparr>
      in case ResolveViolationsForPaths i1 (sc_Worktree sc) (reverted_paths sc d) ResolutionReverted d of
           Inl er \<Rightarrow> ((Some er, res), d)
         | Inr (d1, n) \<Rightarrow>
             (case RecordViolations s i2 candidates d1 of
                Inl er \<Rightarrow> ((Some er, res\<lparr>sr_Resolved := n\<rparr>), d1)
              | Inr (d2, vs) \<Rightarrow> ((None, res\<lparr>sr_Resolved := n, sr_Recorded := vs\<rparr>), d2)))"

subsection \<open>Facts\<close>

definition open_key :: "Violation \<Rightarrow> string \<times> string" where
  "open_key v = (v_PathCanonical v, v_Worktree v)"

definition open_rows :: "Violation list \<Rightarrow> Violation list" where
  "open_rows vs = filter (\<lambda>v. \<not> Resolved v) vs"

definition open_unique :: "Violation list \<Rightarrow> bool" where
  "open_unique vs \<longleftrightarrow> distinct (map open_key (open_rows vs))"

lemma Resolved_close [simp]: "Resolved (v\<lparr>v_ResolvedAt := Some t, v_Resolution := r\<rparr>)"
  by (simp add: Resolved_def)

lemma open_rows_close: "open_rows (close_rows P now res vs) = filter (\<lambda>v. \<not> P v) (open_rows vs)"
  by (induction vs) (auto simp: open_rows_def close_rows_def)

lemma closing_open: "closing P vs + length (open_rows (close_rows P now res vs)) = length (open_rows vs)"
proof -
  have "closing P vs = length (filter P (open_rows vs))"
    by (simp add: closing_def open_rows_def filter_filter conj_commute)
  then show ?thesis by (simp add: open_rows_close sum_length_filter_compl)
qed

lemma close_rows_keeps: "v \<in> set vs \<Longrightarrow> \<not> P v \<or> Resolved v \<Longrightarrow> v \<in> set (close_rows P now res vs)"
  by (force simp: close_rows_def)

lemma close_rows_absorb:
  assumes "\<And>v a b. P (v\<lparr>v_ResolvedAt := a, v_Resolution := b\<rparr>) = P v"
  shows "close_rows P now res (close_rows Q now res vs) = close_rows (\<lambda>v. Q v \<or> P v) now res vs"
  unfolding close_rows_def map_map by (rule map_cong) (auto simp: assms)

lemma resolve_paths_loop_snd:
  "snd (resolve_paths_loop wt now res ps n vs) =
     close_rows (\<lambda>v. v_PathCanonical v \<in> set ps \<and> v_Worktree v = wt) now res vs"
proof (induction ps arbitrary: n vs)
  case Nil
  then show ?case by (simp add: close_rows_def)
next
  case (Cons p ps)
  have "snd (resolve_paths_loop wt now res (p # ps) n vs) =
      close_rows (\<lambda>v. v_PathCanonical v \<in> set ps \<and> v_Worktree v = wt) now res
        (close_rows (\<lambda>v. v_PathCanonical v = p \<and> v_Worktree v = wt) now res vs)"
    by (simp add: Let_def Cons.IH)
  also have "\<dots> = close_rows (\<lambda>v. (v_PathCanonical v = p \<and> v_Worktree v = wt) \<or>
      (v_PathCanonical v \<in> set ps \<and> v_Worktree v = wt)) now res vs"
    by (rule close_rows_absorb) simp
  finally show ?case by (simp add: conj_disj_distribR [symmetric])
qed

lemma resolve_paths_loop_fst:
  "fst (resolve_paths_loop wt now res ps n vs) + length (open_rows (snd (resolve_paths_loop wt now res ps n vs))) =
     n + length (open_rows vs)"
proof (induction ps arbitrary: n vs)
  case Nil
  then show ?case by simp
next
  case (Cons p ps)
  show ?case
    using closing_open [of "\<lambda>v. v_PathCanonical v = p \<and> v_Worktree v = wt" vs now res]
    by (simp add: Let_def Cons.IH)
qed

lemma ResolveViolationsForPaths_Inr:
  assumes "ResolveViolationsForPaths i wt ps ResolutionReverted d = Inr (d', n)"
  shows "d' = d\<lparr>db_violations := close_rows (\<lambda>v. v_PathCanonical v \<in> set ps \<and> v_Worktree v = wt)
      (io_now i) ResolutionReverted (db_violations d)\<rparr>"
    "n + length (open_rows (db_violations d')) = length (open_rows (db_violations d))"
proof -
  have r: "ResolutionReverted \<noteq> []" by (simp add: ResolutionReverted_def)
  have empty: "close_rows (\<lambda>v. False) (io_now i) ResolutionReverted vs = vs" for vs
    by (simp add: close_rows_def)
  show "d' = d\<lparr>db_violations := close_rows (\<lambda>v. v_PathCanonical v \<in> set ps \<and> v_Worktree v = wt)
      (io_now i) ResolutionReverted (db_violations d)\<rparr>"
    using assms r by (auto simp: ResolveViolationsForPaths_def Let_def resolve_paths_loop_snd empty split: if_splits)
  show "n + length (open_rows (db_violations d')) = length (open_rows (db_violations d))"
    using assms r resolve_paths_loop_fst [of wt "io_now i" ResolutionReverted ps 0 "db_violations d"]
    by (auto simp: ResolveViolationsForPaths_def Let_def split: if_splits)
qed

lemma insert_or_ignore_Some:
  "insert_or_ignore v vs = Some vs' \<Longrightarrow>
     vs' = vs @ [v] \<and> \<not> (\<exists>w \<in> set vs. open_at (v_PathCanonical v) (v_Worktree v) w)"
  by (auto simp: insert_or_ignore_def list_ex_iff split: if_splits)

lemma violation_of_simps [simp]:
  "v_PathCanonical (violation_of ob x t) = ov_PathCanonical ob"
  "v_Worktree (violation_of ob x t) = ov_Worktree ob"
  "v_Fingerprint (violation_of ob x t) = ov_Fingerprint ob"
  "v_Baseline (violation_of ob x t) = ov_Baseline ob" "v_ID (violation_of ob x t) = x"
  "\<not> Resolved (violation_of ob x t)"
  by (simp_all add: violation_of_def Resolved_def)

lemma record_loop_frame [frame_simps]:
  "db_locks (snd (record_loop s now obs d)) = db_locks d"
  "db_path_epochs (snd (record_loop s now obs d)) = db_path_epochs d"
  "db_tags (snd (record_loop s now obs d)) = db_tags d"
  "db_territory_tags (snd (record_loop s now obs d)) = db_territory_tags d"
  "db_candidate_claims (snd (record_loop s now obs d)) = db_candidate_claims d"
  "db_hook_calls (snd (record_loop s now obs d)) = db_hook_calls d"
  by (induction s now obs d rule: record_loop.induct)
    (simp_all add: Let_def frame_simps split: option.splits)

lemma record_loop_appends:
  "db_violations (snd (record_loop s now obs d)) = db_violations d @ fst (record_loop s now obs d)"
proof (induction s now obs d rule: record_loop.induct)
  case (1 s now d)
  then show ?case by simp
next
  case (2 s now ob obs d)
  then show ?case
    by (auto simp: Let_def frame_simps split: option.splits dest: insert_or_ignore_Some)
qed

lemma record_loop_new:
  "v \<in> set (fst (record_loop s now obs d)) \<Longrightarrow>
     \<not> Resolved v \<and> v_ObservedAt v = now \<and> (\<exists>ob \<in> set obs. v = violation_of ob (v_ID v) now) \<and>
     \<not> (\<exists>w \<in> set (db_violations d). open_at (v_PathCanonical v) (v_Worktree v) w)"
proof (induction s now obs d rule: record_loop.induct)
  case (1 s now d)
  then show ?case by simp
next
  case (2 s now ob obs d)
  let ?nid = "newID s ''v-'' d"
  let ?v = "violation_of ob (fst ?nid) now"
  show ?case
  proof (cases "insert_or_ignore ?v (db_violations (snd ?nid))")
    case None
    with 2 show ?thesis by (auto simp: Let_def frame_simps)
  next
    case (Some vs)
    note ins = insert_or_ignore_Some [OF Some]
    from "2.prems" Some consider "v = ?v"
      | "v \<in> set (fst (record_loop s now obs ((snd ?nid)\<lparr>db_violations := vs\<rparr>)))"
      by (auto simp: Let_def)
    then show ?thesis
    proof cases
      case 1
      with ins show ?thesis by (simp add: frame_simps) (simp add: violation_of_def)
    next
      case 2
      from "2.IH"(2) [OF refl refl Some 2] ins show ?thesis by (auto simp: frame_simps)
    qed
  qed
qed

lemma open_unique_snoc:
  assumes "open_unique vs" "\<not> Resolved v" "\<not> (\<exists>w \<in> set vs. open_at (v_PathCanonical v) (v_Worktree v) w)"
  shows "open_unique (vs @ [v])"
proof -
  have "open_key v \<notin> open_key ` set (open_rows vs)"
    using assms(3) by (auto simp: open_key_def open_rows_def open_at_def)
  with assms(1,2) show ?thesis by (simp add: open_unique_def open_rows_def)
qed

lemma record_loop_open_unique [table_intros]:
  "open_unique (db_violations d) \<Longrightarrow> open_unique (db_violations (snd (record_loop s now obs d)))"
proof (induction s now obs d rule: record_loop.induct)
  case (1 s now d)
  then show ?case by simp
next
  case (2 s now ob obs d)
  let ?nid = "newID s ''v-'' d"
  let ?v = "violation_of ob (fst ?nid) now"
  show ?case
  proof (cases "insert_or_ignore ?v (db_violations (snd ?nid))")
    case None
    with 2 show ?thesis by (simp add: Let_def frame_simps)
  next
    case (Some vs)
    note ins = insert_or_ignore_Some [OF Some]
    have "open_unique vs"
      using open_unique_snoc [OF "2.prems", of ?v] ins by (simp add: frame_simps)
    with "2.IH"(2) [OF refl refl Some] Some show ?thesis by (simp add: Let_def)
  qed
qed

lemma close_rows_open_unique [table_intros]:
  "open_unique vs \<Longrightarrow> open_unique (close_rows P now res vs)"
  unfolding open_unique_def open_rows_close by (rule distinct_map_filter)

text \<open>Identifiers drawn from now on are new: what 8 random bytes promise.\<close>

definition fresh_draws :: "store \<Rightarrow> db \<Rightarrow> bool" where
  "fresh_draws s d \<longleftrightarrow>
     (\<forall>n m. s_rand s n = s_rand s m \<longrightarrow> n = m) \<and>
     (\<forall>n \<ge> db_draws d. \<forall>v \<in> set (db_violations d). v_ID v \<noteq> ''v-'' @ s_rand s n)"

lemma open_at_iff: "open_at p wt v \<longleftrightarrow> \<not> Resolved v \<and> open_key v = (p, wt)"
  by (auto simp: open_at_def open_key_def)

lemma record_loop_complete:
  "fresh_draws s d \<Longrightarrow> ob \<in> set obs \<Longrightarrow>
     (\<exists>w \<in> set (db_violations (snd (record_loop s now obs d))). open_at (ov_PathCanonical ob) (ov_Worktree ob) w) \<or>
     (\<exists>w \<in> set (db_violations d). acked_row (ov_PathCanonical ob) (ov_Fingerprint ob) (ov_Baseline ob) (ov_Worktree ob) w)"
proof (induction s now obs d rule: record_loop.induct)
  case (1 s now d)
  then show ?case by simp
next
  case (2 s now o1 obs d)
  let ?nid = "newID s ''v-'' d"
  let ?v = "violation_of o1 (fst ?nid) now"
  have nid: "fst ?nid = ''v-'' @ s_rand s (db_draws d)" "db_draws (snd ?nid) = Suc (db_draws d)"
    "db_violations (snd ?nid) = db_violations d"
    by (simp_all add: newID_def)
  have new: "\<not> (\<exists>w \<in> set (db_violations d). v_ID w = v_ID ?v)"
    using "2.prems"(1) nid(1) unfolding fresh_draws_def by auto
  show ?case
  proof (cases "insert_or_ignore ?v (db_violations (snd ?nid))")
    case None
    have fr: "fresh_draws s (snd ?nid)" using "2.prems"(1) by (simp add: fresh_draws_def nid)
    have here: "(\<exists>w \<in> set (db_violations d). open_at (ov_PathCanonical o1) (ov_Worktree o1) w) \<or>
        (\<exists>w \<in> set (db_violations d). acked_row (ov_PathCanonical o1) (ov_Fingerprint o1) (ov_Baseline o1) (ov_Worktree o1) w)"
      using None new by (auto simp: insert_or_ignore_def list_ex_iff nid split: if_splits)
    have st: "snd (record_loop s now (o1 # obs) d) = snd (record_loop s now obs (snd ?nid))"
      using None by (simp add: Let_def)
    show ?thesis
    proof (cases "ob = o1")
      case True
      with here show ?thesis unfolding st record_loop_appends nid(3) by auto
    next
      case False
      with "2.prems"(2) have "ob \<in> set obs" by simp
      from "2.IH"(1) [OF refl refl None fr this] show ?thesis unfolding st nid(3) .
    qed
  next
    case (Some vs)
    let ?d1 = "(snd ?nid)\<lparr>db_violations := vs\<rparr>"
    have vs: "vs = db_violations d @ [?v]" using insert_or_ignore_Some [OF Some] by (simp add: nid)
    have st: "snd (record_loop s now (o1 # obs) d) = snd (record_loop s now obs ?d1)"
      using Some by (simp add: Let_def)
    have fr: "fresh_draws s ?d1"
    proof -
      have inj: "\<And>n m. s_rand s n = s_rand s m \<Longrightarrow> n = m"
        and old: "\<And>n v. db_draws d \<le> n \<Longrightarrow> v \<in> set (db_violations d) \<Longrightarrow> v_ID v \<noteq> ''v-'' @ s_rand s n"
        using "2.prems"(1) unfolding fresh_draws_def by blast+
      have "v_ID v \<noteq> ''v-'' @ s_rand s n" if "Suc (db_draws d) \<le> n" "v \<in> set vs" for n v
      proof (cases "v = ?v")
        case True
        have "db_draws d \<noteq> n" using that(1) by simp
        then have "s_rand s (db_draws d) \<noteq> s_rand s n" using inj by blast
        with True show ?thesis by (simp add: nid)
      next
        case False
        with that vs have "v \<in> set (db_violations d)" by simp
        with old that(1) show ?thesis by simp
      qed
      with inj show ?thesis unfolding fresh_draws_def by (simp add: nid)
    qed
    show ?thesis
    proof (cases "ob = o1")
      case True
      have "open_at (ov_PathCanonical o1) (ov_Worktree o1) ?v" by (simp add: open_at_def)
      then show ?thesis unfolding st record_loop_appends True by (simp add: vs)
    next
      case False
      with "2.prems"(2) have "ob \<in> set obs" by simp
      moreover have "\<not> acked_row p f b w ?v" for p f b w by (simp add: acked_row_def)
      ultimately show ?thesis using "2.IH"(2) [OF refl refl Some fr] unfolding st by (simp add: vs)
    qed
  qed
qed

lemma RecordViolations_Inr:
  assumes "RecordViolations s i obs d = Inr (d', vs)"
  shows "d' = snd (record_loop s (io_now i) obs d)" "set vs = set (fst (record_loop s (io_now i) obs d))"
  using assms by (auto simp: RecordViolations_def Let_def split: if_splits)

lemma append_sep_inj:
  assumes "c \<notin> set p" "c \<notin> set q" "p @ c # x = q @ c # y"
  shows "p = q \<and> x = y"
proof -
  have tw: "takeWhile (\<lambda>z. z \<noteq> c) (w @ c # z) = w" if "c \<notin> set w" for w z
    using that by (induction w) auto
  from assms tw have "p = q" by metis
  with assms(3) show ?thesis by simp
qed

lemma mem_ackedFingerprints:
  assumes "p \<in> set paths" "\<forall>q \<in> set paths. NUL \<notin> set q"
  shows "p @ [NUL] @ fp \<in> set (ackedFingerprints paths b wt d) \<longleftrightarrow>
    (\<exists>v \<in> set (db_violations d). acked_row p fp b wt v)"
proof
  assume "p @ [NUL] @ fp \<in> set (ackedFingerprints paths b wt d)"
  then obtain v where v: "v \<in> set (db_violations d)" "v_PathCanonical v \<in> set paths" "Resolved v"
    "v_Resolution v \<noteq> ResolutionReverted" "v_Baseline v = b" "v_Worktree v = wt"
    "p @ NUL # fp = v_PathCanonical v @ NUL # v_Fingerprint v"
    by (auto simp: ackedFingerprints_def)
  with assms append_sep_inj [of NUL p "v_PathCanonical v" fp "v_Fingerprint v"]
  show "\<exists>v \<in> set (db_violations d). acked_row p fp b wt v"
    by (intro bexI [OF _ v(1)]) (auto simp: acked_row_def)
next
  assume "\<exists>v \<in> set (db_violations d). acked_row p fp b wt v"
  with assms(1) show "p @ [NUL] @ fp \<in> set (ackedFingerprints paths b wt d)"
    by (force simp: ackedFingerprints_def acked_row_def)
qed

lemma acked_close:
  "(\<exists>v \<in> set (close_rows P now ResolutionReverted vs). acked_row p f b w v) \<longleftrightarrow> (\<exists>v \<in> set vs. acked_row p f b w v)"
  by (auto simp: close_rows_def acked_row_def)

lemma open_close:
  "(\<exists>v \<in> set (close_rows P now res vs). open_at p w v) \<longleftrightarrow> (\<exists>v \<in> set vs. open_at p w v \<and> \<not> P v)"
  by (auto simp: close_rows_def open_at_def)

lemma reverted_paths_open:
  assumes "v \<in> set (db_violations d)" "open_at p (sc_Worktree sc) v"
  shows "p \<in> set (reverted_paths sc d) \<longleftrightarrow> p \<notin> ob_Path ` set (sc_Observations sc)"
  using assms by (auto simp: reverted_paths_def UnresolvedViolationsIn_def violation_order_def open_at_def image_iff)

lemma scan_candidates_set:
  assumes "\<forall>ob \<in> set (sc_Observations sc). NUL \<notin> set (ob_Path ob)"
  shows "(\<exists>c \<in> set (scan_candidates s sc ec d). ov_PathCanonical c = p \<and> ov_Fingerprint c = f) \<longleftrightarrow>
    (\<exists>ob \<in> set (sc_Observations sc). ob_Path ob = p \<and> ob_Fingerprint ob = f \<and>
       p \<notin> set (authorizedPaths (sc_Observations sc) ec d) \<and>
       \<not> (\<exists>v \<in> set (db_violations d). acked_row p f (sc_Baseline sc) (sc_Worktree sc) v))"
proof -
  have "ob_Path ob @ [NUL] @ ob_Fingerprint ob \<in>
      set (ackedFingerprints (map ob_Path (sc_Observations sc)) (sc_Baseline sc) (sc_Worktree sc) d) \<longleftrightarrow>
      (\<exists>v \<in> set (db_violations d). acked_row (ob_Path ob) (ob_Fingerprint ob) (sc_Baseline sc) (sc_Worktree sc) v)"
    if "ob \<in> set (sc_Observations sc)" for ob
    by (rule mem_ackedFingerprints) (use that assms in auto)
  then show ?thesis by (auto simp: scan_candidates_def Let_def)
qed

lemma scan_candidates_shape:
  "c \<in> set (scan_candidates s sc ec d) \<Longrightarrow> ov_Worktree c = sc_Worktree sc \<and> ov_Baseline c = sc_Baseline sc"
  by (auto simp: scan_candidates_def Let_def)

lemma ReconcileScan_Some:
  assumes "ReconcileScan s i1 i2 sc ec d = ((None, res), d')"
  obtains d1 n vs where
    "ResolveViolationsForPaths i1 (sc_Worktree sc) (reverted_paths sc d) ResolutionReverted d = Inr (d1, n)"
    "RecordViolations s i2 (scan_candidates s sc ec d) d1 = Inr (d', vs)"
  using assms by (auto simp: ReconcileScan_def Let_def split: sum.splits)

text \<open>Whatever happens, the tables a scan leaves are the closed rows with new open ones appended.\<close>

lemma ReconcileScan_rows:
  assumes "ReconcileScan s i1 i2 sc ec d = (er, d')"
  shows "\<exists>new. (db_violations d' = db_violations d @ new \<or>
      db_violations d' = close_rows (\<lambda>v. v_PathCanonical v \<in> set (reverted_paths sc d) \<and> v_Worktree v = sc_Worktree sc)
        (io_now i1) ResolutionReverted (db_violations d) @ new) \<and> (\<forall>v \<in> set new. \<not> Resolved v)"
proof (cases "ResolveViolationsForPaths i1 (sc_Worktree sc) (reverted_paths sc d) ResolutionReverted d")
  case (Inl e)
  with assms show ?thesis by (auto simp: ReconcileScan_def Let_def intro!: exI [of _ "[]"])
next
  case (Inr dn)
  obtain d1 n where dn: "dn = (d1, n)" by (cases dn)
  note c = ResolveViolationsForPaths_Inr(1) [OF Inr [unfolded dn]]
  show ?thesis
  proof (cases "RecordViolations s i2 (scan_candidates s sc ec d) d1")
    case (Inl e)
    with assms Inr dn have "d' = d1" by (auto simp: ReconcileScan_def Let_def)
    then show ?thesis by (intro exI [of _ "[]"]) (simp add: c)
  next
    case (Inr dv)
    obtain d2 vs where dv: "dv = (d2, vs)" by (cases dv)
    from assms \<open>_ = Inr dn\<close> dn Inr dv have "d' = d2" by (auto simp: ReconcileScan_def Let_def)
    then have "db_violations d' = db_violations d1 @ fst (record_loop s (io_now i2) (scan_candidates s sc ec d) d1)"
      using RecordViolations_Inr(1) [OF Inr [unfolded dv]] by (simp add: record_loop_appends)
    moreover have "db_violations d1 = close_rows (\<lambda>v. v_PathCanonical v \<in> set (reverted_paths sc d) \<and> v_Worktree v = sc_Worktree sc)
        (io_now i1) ResolutionReverted (db_violations d)" by (simp add: c)
    moreover have "\<forall>v \<in> set (fst (record_loop s (io_now i2) (scan_candidates s sc ec d) d1)). \<not> Resolved v"
      using record_loop_new by blast
    ultimately show ?thesis by (intro exI conjI) (rule disjI2, simp, simp)
  qed
qed

lemma record_open_unique [table_intros]:
  "RecordViolations s i obs d = Inr (d', vs) \<Longrightarrow> open_unique (db_violations d) \<Longrightarrow> open_unique (db_violations d')"
  using RecordViolations_Inr(1) record_loop_open_unique by blast

lemma resolve_open_unique [table_intros]:
  "ResolveViolation i vid res d = Inr d' \<Longrightarrow> open_unique (db_violations d) \<Longrightarrow> open_unique (db_violations d')"
  by (auto simp: ResolveViolation_def Let_def split: if_splits intro!: close_rows_open_unique)

lemma reconcile_open_unique [table_intros]:
  assumes "open_unique (db_violations d)"
  shows "open_unique (db_violations (snd (ReconcileScan s i1 i2 sc ec d)))"
proof (cases "ResolveViolationsForPaths i1 (sc_Worktree sc) (reverted_paths sc d) ResolutionReverted d")
  case (Inl e)
  with assms show ?thesis by (simp add: ReconcileScan_def Let_def)
next
  case (Inr dn)
  obtain d1 n where dn: "dn = (d1, n)" by (cases dn)
  have o1: "open_unique (db_violations d1)"
    unfolding ResolveViolationsForPaths_Inr(1) [OF Inr [unfolded dn]]
    by (simp add: close_rows_open_unique assms)
  have "open_unique (db_violations d2)" if "RecordViolations s i2 cs d1 = Inr (d2, vs)" for cs d2 vs
    by (rule record_open_unique [OF that o1])
  with o1 Inr dn show ?thesis by (auto simp: ReconcileScan_def Let_def split: sum.splits)
qed

subsection \<open>Concrete inputs\<close>

definition ex_violation :: "string \<Rightarrow> string \<Rightarrow> Violation" where
  "ex_violation p wt = \<lparr>v_ID = ''v-9'' @ p, v_PathCanonical = p, v_ObservedAt = 1, v_Fingerprint = ''f'',
     v_Baseline = ''b'', v_LeaseState = LeaseStateUnleased, v_ExpectedOwner = [], v_Worktree = wt,
     v_ResolvedAt = None, v_Resolution = []\<rparr>"

definition ex_viol_db :: db where
  "ex_viol_db = ex_db\<lparr>db_violations := [ex_violation ''q'' ''wt'', ex_violation ''z'' ''?'', ex_violation ''y'' ''wt'']\<rparr>"

text \<open>Checkout \<open>wt\<close> sees \<open>q\<close> still dirty, \<open>x\<close> dirty after its lease lapsed and \<open>d/f\<close> under a live hold.\<close>

definition ex_scan :: Scan where
  "ex_scan = \<lparr>sc_Baseline = ''b'', sc_Worktree = ''wt'', sc_Observations =
     map (\<lambda>p. \<lparr>ob_Path = p, ob_Fingerprint = ''g'', ob_Deleted = False\<rparr>) [''d/f'', ''q'', ''x'']\<rparr>"

lemma ex_scan_ok:
  "\<exists>res d'. ReconcileScan ex_store (ex_io 10) (ex_io 10) ex_scan (eval_ctx ex_store (ex_io 10)) ex_viol_db =
     ((None, res), d')"
proof -
  let ?r = "ReconcileScan ex_store (ex_io 10) (ex_io 10) ex_scan (eval_ctx ex_store (ex_io 10)) ex_viol_db"
  have "fst (fst ?r) = None" by code_simp
  then show ?thesis by (metis prod.collapse)
qed

lemma ex_fresh_draws: "fresh_draws ex_store ex_viol_db"
proof -
  have "n = m" if "replicate n CHR ''0'' = replicate m CHR ''0''" for n m
    using that by (metis length_replicate)
  moreover have "CHR ''9'' # xs \<noteq> replicate n CHR ''0''" for n xs by (cases n) auto
  ultimately show ?thesis
    by (auto simp: fresh_draws_def ex_store_def ex_viol_db_def ex_violation_def)
qed

subsection \<open>Properties\<close>

text \<open>A scan speaks for its own checkout only. Whatever it observes and whatever fails, a row of
  another checkout (the legacy rows of unknown origin included), a row of an observed path and a
  row already closed are in the table afterwards exactly as they were.\<close>

theorem ReconcileScan_scope:
  assumes "ReconcileScan s i1 i2 sc ec d = (er, d')" "v \<in> set (db_violations d)"
    and "v_Worktree v \<noteq> sc_Worktree sc \<or> v_PathCanonical v \<in> ob_Path ` set (sc_Observations sc) \<or> Resolved v"
  shows "v \<in> set (db_violations d')"
proof -
  let ?P = "\<lambda>v. v_PathCanonical v \<in> set (reverted_paths sc d) \<and> v_Worktree v = sc_Worktree sc"
  have "\<not> ?P v \<or> Resolved v" using assms(3) by (auto simp: reverted_paths_def)
  then have "v \<in> set (close_rows ?P (io_now i1) ResolutionReverted (db_violations d))"
    by (rule close_rows_keeps [OF assms(2)])
  with assms(2) ReconcileScan_rows [OF assms(1)] show ?thesis by auto
qed

theorem ReconcileScan_scope_witness:
  "ex_violation ''z'' ''?'' \<in> set (db_violations (snd
     (ReconcileScan ex_store (ex_io 10) (ex_io 10) ex_scan (eval_ctx ex_store (ex_io 10)) ex_viol_db)))"
  by (rule ReconcileScan_scope [OF surjective_pairing])
    (simp_all add: ex_viol_db_def ex_violation_def ex_scan_def)



text \<open>One open row per path and checkout, always: every operation that writes the table keeps it,
  a scan that fails half way included.\<close>

theorem violations_open_unique:
  assumes "open_unique (db_violations d)"
  shows "open_unique (db_violations (snd (ReconcileScan s i1 i2 sc ec d))) \<and>
    (\<forall>d'. ResolveViolation i vid res d = Inr d' \<longrightarrow> open_unique (db_violations d')) \<and>
    (\<forall>d' vs. RecordViolations s i obs d = Inr (d', vs) \<longrightarrow> open_unique (db_violations d'))"
  using assms reconcile_open_unique resolve_open_unique record_open_unique by blast

theorem violations_open_unique_witness:
  "open_unique (db_violations (snd (ReconcileScan ex_store (ex_io 10) (ex_io 10) ex_scan
     (eval_ctx ex_store (ex_io 10)) ex_viol_db)))"
proof -
  have "open_unique (db_violations ex_viol_db)" by code_simp
  from violations_open_unique [OF this] show ?thesis by blast
qed

lemma open_violation_refuses:
  assumes "v \<in> set (db_violations d)" "\<not> Resolved v" "v_Worktree v = wt \<or> v_Worktree v = WorktreeLegacy"
    and "v_PathCanonical v \<in> set (env_WriteSet env)"
    and "adm_UnresolvedViolations p = UnresolvedViolationPaths wt d"
  shows "Admit git env p = Inr dec \<Longrightarrow> \<not> d_Accepted dec"
proof
  assume a: "Admit git env p = Inr dec" "d_Accepted dec"
  then have "accepted (Admit git env p)" by (simp add: accepted_def)
  then have "UnresolvedViolationPaths wt d (v_PathCanonical v) = None"
    unfolding Admit_accepted using assms(4,5) by simp
  moreover have "v \<in> set (UnresolvedViolationsIn wt d)"
    using assms(1-3) by (simp add: UnresolvedViolationsIn_def violation_order_def)
  ultimately show False
    by (force simp: UnresolvedViolationPaths_def map_of_eq_None_iff image_iff)
qed

text \<open>Contamination blocks admission: while an unresolved violation of the checkout, or one of
  unknown origin, names a path of the write set, \<open>Admit\<close> never accepts the candidate, whatever
  lease it holds.\<close>

theorem contamination_blocks_admission:
  assumes "v \<in> set (db_violations d)" "\<not> Resolved v" "v_Worktree v = wt \<or> v_Worktree v = WorktreeLegacy"
    and "v_PathCanonical v \<in> set (env_WriteSet env)"
    and "adm_UnresolvedViolations p = UnresolvedViolationPaths wt d"
  shows "Admit git env p = Inr dec \<Longrightarrow> \<not> d_Accepted dec"
  by (rule open_violation_refuses [OF assms])

theorem contamination_blocks_admission_witness:
  "\<exists>dec. Admit ex_git ((ex_envelope)\<lparr>env_WriteSet := [''z'']\<rparr>) \<lparr>adm_PresentedProposalSHA = ''prop'',
     adm_IntegrationRef = ''int'', adm_UnresolvedViolations = UnresolvedViolationPaths ''main'' ex_viol_db,
     adm_CurrentEpoch = (\<lambda>_. None)\<rparr> = Inr dec \<and> \<not> d_Accepted dec"
proof -
  let ?env = "(ex_envelope)\<lparr>env_WriteSet := [''z'']\<rparr>"
  let ?p = "\<lparr>adm_PresentedProposalSHA = ''prop'', adm_IntegrationRef = ''int'',
     adm_UnresolvedViolations = UnresolvedViolationPaths ''main'' ex_viol_db, adm_CurrentEpoch = (\<lambda>_. None)\<rparr>"
  have "\<not> isl (Admit ex_git ?env ?p)" by code_simp
  then obtain dec where e: "Admit ex_git ?env ?p = Inr dec" by (cases "Admit ex_git ?env ?p") auto
  have "ex_violation ''z'' ''?'' \<in> set (db_violations ex_viol_db)" by (simp add: ex_viol_db_def)
  from contamination_blocks_admission [OF this _ _ _ _ e, of "''main''"] e show ?thesis
    by (simp add: ex_violation_def Resolved_def WorktreeLegacy_def)
qed

text \<open>The scan compares git's spelling with the keys of the lock table byte for byte, so on a
  case-folding store the holder of \<open>Foo.go\<close> (stored as \<open>foo.go\<close>) is recorded as having written it
  without a lease.\<close>

theorem ReconcileScan_flags_folded_holder:
  "let s = ex_store\<lparr>s_caseFold := True\<rparr>;
       d = empty_db\<lparr>db_locks := [lock_row_of (ex_lock ''foo.go'' ''bob'' 20) 1]\<rparr>;
       sc = \<lparr>sc_Baseline = ''b'', sc_Worktree = [], sc_Observations =
         [\<lparr>ob_Path = ''Foo.go'', ob_Fingerprint = ''g'', ob_Deleted = False\<rparr>]\<rparr>;
       d' = snd (ReconcileScan s (ex_io 10) (ex_io 10) sc (eval_ctx s (ex_io 10)) d)
   in map l_OwnerUUID (filter (\<lambda>l. \<not> IsStale (eval_ctx s (ex_io 10)) l) (LocksAt s (Target ''Foo.go'') d)) = [''bob''] \<and>
      map v_PathCanonical (open_rows (db_violations d')) = [''Foo.go'']"
  by code_simp

end
