(* ===== verification/System.thy ===== *)
theory System
  imports Tags Break Refresh Violations
begin

text \<open>
  The store as a state machine: one step is one committed operation of some process on the shared
  database.  The op-flock and SQLite's write lock serialize the writers, so a history of the store
  is a sequence of such steps; an operation that fails leaves the tables alone (two exceptions, both
  modelled as steps: a scan whose second transaction fails, and an acceptance whose compensating
  delete does not run).  Processes differ in checkout, clock, probe and file system answers but see
  one file system, so the case class \<open>f\<close> is fixed.
\<close>

subsection \<open>Runs of a machine, and what they keep\<close>

inductive run :: "('a \<Rightarrow> 's \<Rightarrow> 's \<Rightarrow> bool) \<Rightarrow> 'a list \<Rightarrow> 's \<Rightarrow> 's \<Rightarrow> bool" for step where
  run_nil: "run step [] s s"
| run_cons: "step a s s1 \<Longrightarrow> run step as s1 s2 \<Longrightarrow> run step (a # as) s s2"

inductive_cases run_nilE [elim!]: "run step [] s s'"
inductive_cases run_consE [elim!]: "run step (a # as) s s'"

locale guarded_invariant =
  fixes step :: "'a \<Rightarrow> 's \<Rightarrow> 's \<Rightarrow> bool" and allowed :: "'a \<Rightarrow> bool" and inv :: "'s \<Rightarrow> bool"
  assumes kept: "inv s \<Longrightarrow> allowed a \<Longrightarrow> step a s s' \<Longrightarrow> inv s'"
begin

lemma run_keeps: "run step as s s' \<Longrightarrow> \<forall>a \<in> set as. allowed a \<Longrightarrow> inv s \<Longrightarrow> inv s'"
  by (induction as s s' rule: run.induct) (auto intro: kept)

end

subsection \<open>The actions\<close>

datatype action =
    ActAcquire store io AgentUUID
  | ActRelease store io AgentUUID
  | ActReleaseSession store io AgentUUID
  | ActBreak store io BreakMode
  | ActRefresh AgentUUID
  | ActTag
  | ActEvent
  | ActClaim
  | ActClaimRelease string
  | ActClaimSweep
  | ActScan
  | ActResolve string

inductive step :: "bool \<Rightarrow> action \<Rightarrow> db \<Rightarrow> db \<Rightarrow> bool" for f where
  acquire:
    "AcquireLocks s i recs d = Inr (d', out) \<Longrightarrow> s_caseFold s = f \<Longrightarrow> \<forall>l \<in> set recs. l_OwnerUUID l = own \<Longrightarrow>
     step f (ActAcquire s i own) d d'"
| release:
    "ReleaseLocks s i targets own d = Inr (d', rs) \<Longrightarrow> s_caseFold s = f \<Longrightarrow> step f (ActRelease s i own) d d'"
| release_session:
    "ReleaseBySession s i own sess intent d = Inr (d', sr) \<Longrightarrow> s_caseFold s = f \<Longrightarrow>
     step f (ActReleaseSession s i own) d d'"
| break_locks:
    "BreakLocks s i targets own mode reason expect d = Inr (d', bs) \<Longrightarrow> s_caseFold s = f \<Longrightarrow>
     step f (ActBreak s i mode) d d'"
| refresh:
    "RefreshLocks rfc3339 s i targets own ttl d = Inr (d', res) \<Longrightarrow> s_caseFold s = f \<Longrightarrow>
     step f (ActRefresh own) d d'"
| hook_refresh:
    "s_caseFold s = f \<Longrightarrow> step f (ActRefresh own) d (refreshCallerLocksTx s f own wt paths since now d)"
| insert_tag:
    "InsertTag s i t d = Inr (d', tid) \<Longrightarrow> s_caseFold s = f \<Longrightarrow> step f ActTag d d'"
| ack_tag: "Ack i tid own d = Inr d' \<Longrightarrow> step f ActTag d d'"
| sweep_tags: "step f ActTag d (gcTagsTx now d)"
| insert_note: "InsertTerritoryTag s i n d = Inr (d', tid) \<Longrightarrow> s_caseFold s = f \<Longrightarrow> step f ActTag d d'"
| ack_note: "AckTerritoryTag i tid own d = Inr d' \<Longrightarrow> step f ActTag d d'"
| sweep_notes: "step f ActTag d (gcTerritoryTagsTx now d)"
| append_events: "AppendEvents s i evs d = Inr (d', out) \<Longrightarrow> step f ActEvent d d'"
| append_rotating: "AppendEventRotating s i ev d = Inr (d', eid) \<Longrightarrow> step f ActEvent d d'"
| audit: "appendAuditDetached s i evs d = (er, d') \<Longrightarrow> step f ActEvent d d'"
| insert_claims: "InsertCandidateClaims s i cs g d = Inr d' \<Longrightarrow> s_caseFold s = f \<Longrightarrow> step f ActClaim d d'"
| accept_candidate:
    "AcceptCandidate s i wb wr okc env sub d = (r, d') \<Longrightarrow> s_caseFold s = f \<Longrightarrow> step f ActClaim d d'"
| release_claims: "step f (ActClaimRelease cid) d (ReleaseCandidateClaims cid d)"
| sweep_claims: "step f ActClaimSweep d (snd (gcCandidateClaimsTx ec prom d))"
| scan: "ReconcileScan s i1 i2 sc ec d = (r, d') \<Longrightarrow> s_caseFold s = f \<Longrightarrow> step f ActScan d d'"
| resolve: "ResolveViolation i vid resolution d = Inr d' \<Longrightarrow> step f (ActResolve vid) d d'"

inductive_cases step_acquireE: "step f (ActAcquire s i own) d d'"
inductive_cases step_releaseE: "step f (ActRelease s i own) d d'"
inductive_cases step_sessionE: "step f (ActReleaseSession s i own) d d'"
inductive_cases step_breakE: "step f (ActBreak s i mode) d d'"
inductive_simps step_resolve_iff: "step f (ActResolve vid) d d'"

definition reachable :: "bool \<Rightarrow> db \<Rightarrow> bool" where
  "reachable f d \<longleftrightarrow> (\<exists>as. run (step f) as empty_db d)"

subsection \<open>What each operation leaves alone\<close>

text \<open>Operations outside the lock table: locks and epochs are as they were.\<close>

definition same_locks :: "db \<Rightarrow> db \<Rightarrow> bool" where
  "same_locks d d' \<longleftrightarrow> db_locks d' = db_locks d \<and> db_path_epochs d' = db_path_epochs d \<and>
     db_hook_calls d' = db_hook_calls d"

lemma InsertTag_frame:
  assumes "InsertTag s i t d = Inr (d', tid)"
  shows "same_locks d d'" "db_candidate_claims d' = db_candidate_claims d" "db_violations d' = db_violations d"
  using assms by (auto simp: InsertTag_def Let_def same_locks_def frame_simps split: if_splits)

lemma InsertTerritoryTag_frame:
  assumes "InsertTerritoryTag s i n d = Inr (d', tid)"
  shows "same_locks d d'" "db_candidate_claims d' = db_candidate_claims d" "db_violations d' = db_violations d"
    "db_tags d' = db_tags d"
  using assms by (auto simp: InsertTerritoryTag_def Let_def same_locks_def frame_simps split: if_splits)

lemma Ack_frame:
  assumes "Ack i tid own d = Inr d'"
  shows "same_locks d d'" "db_candidate_claims d' = db_candidate_claims d" "db_violations d' = db_violations d"
  using assms by (auto simp: Ack_def same_locks_def split: if_splits option.splits)

lemma AckTerritoryTag_frame:
  assumes "AckTerritoryTag i tid own d = Inr d'"
  shows "same_locks d d'" "db_candidate_claims d' = db_candidate_claims d" "db_violations d' = db_violations d"
    "db_tags d' = db_tags d"
  using assms by (auto simp: AckTerritoryTag_def same_locks_def split: if_splits)

lemma gcTerritoryTagsTx_frame:
  "same_locks d (gcTerritoryTagsTx now d)" "db_candidate_claims (gcTerritoryTagsTx now d) = db_candidate_claims d"
  "db_violations (gcTerritoryTagsTx now d) = db_violations d" "db_tags (gcTerritoryTagsTx now d) = db_tags d"
  by (simp_all add: gcTerritoryTagsTx_def same_locks_def)

lemma AppendEvents_frame:
  assumes "AppendEvents s i evs d = Inr (d', out)"
  shows "same_locks d d'" "db_candidate_claims d' = db_candidate_claims d" "db_violations d' = db_violations d"
    "db_tags d' = db_tags d"
  using assms by (auto simp: AppendEvents_def Let_def same_locks_def frame_simps split: if_splits)

lemma AppendEventRotating_frame:
  assumes "AppendEventRotating s i ev d = Inr (d', eid)"
  shows "same_locks d d'" "db_candidate_claims d' = db_candidate_claims d" "db_violations d' = db_violations d"
    "db_tags d' = db_tags d"
  using assms by (auto simp: AppendEventRotating_def appendEventsRotating_def Let_def same_locks_def frame_simps
      split: if_splits sum.splits)

lemma audit_frame:
  assumes "appendAuditDetached s i evs d = (er, d')"
  shows "same_locks d d'" "db_candidate_claims d' = db_candidate_claims d" "db_violations d' = db_violations d"
    "db_tags d' = db_tags d"
proof -
  have d': "d' = snd (appendAuditDetached s i evs d)" using assms by simp
  show "same_locks d d'" "db_candidate_claims d' = db_candidate_claims d" "db_violations d' = db_violations d"
    "db_tags d' = db_tags d"
    unfolding d' by (simp_all add: same_locks_def frame_simps)
qed

lemma InsertCandidateClaims_rows:
  assumes "InsertCandidateClaims s i cs g d = Inr d'"
  shows "d' = d\<lparr>db_candidate_claims := db_candidate_claims d @ map claim_row_of cs\<rparr>"
    "distinct (map claim_pk (db_candidate_claims d)) \<Longrightarrow> distinct (map claim_pk (db_candidate_claims d'))"
proof -
  show "d' = d\<lparr>db_candidate_claims := db_candidate_claims d @ map claim_row_of cs\<rparr>"
  proof (cases "cs = []")
    case True
    with assms show ?thesis by (simp add: InsertCandidateClaims_def)
  next
    case False
    show ?thesis by (rule InsertCandidateClaims_Inr(3) [OF assms False])
  qed
  show "distinct (map claim_pk (db_candidate_claims d)) \<Longrightarrow> distinct (map claim_pk (db_candidate_claims d'))"
  proof (cases "cs = []")
    case True
    with assms show "distinct (map claim_pk (db_candidate_claims d)) \<Longrightarrow> ?thesis" by (simp add: InsertCandidateClaims_def)
  next
    case False
    show "distinct (map claim_pk (db_candidate_claims d)) \<Longrightarrow> ?thesis"
      by (rule insert_claim_rows_distinct [OF InsertCandidateClaims_Inr(2) [OF assms False]])
  qed
qed

text \<open>An acceptance appends claims and, at most, takes back what it appended.\<close>

lemma AcceptCandidate_claims:
  assumes "AcceptCandidate s i wb wr okc env sub d = (r, d')"
  shows "same_locks d d'" "db_violations d' = db_violations d" "db_tags d' = db_tags d"
    "set (db_candidate_claims d) \<subseteq> set (db_candidate_claims d')"
    "distinct (map claim_pk (db_candidate_claims d)) \<Longrightarrow> distinct (map claim_pk (db_candidate_claims d'))"
proof -
  let ?cs = "candidate_claims_of (io_now i) env sub"
  let ?g = "\<lparr>g_Owner = cc_OwnerUUID sub, g_Epoch = env_LeaseEpoch env, g_Live = io_live i\<rparr>"
  have "d' = d \<or> (\<exists>d1. InsertCandidateClaims s (i\<lparr>io_now := io_now2 i\<rparr>) ?cs ?g d = Inr d1 \<and> d' = d1)"
  proof (cases "InsertCandidateClaims s (i\<lparr>io_now := io_now2 i\<rparr>) ?cs ?g d")
    case (Inl e)
    with assms show ?thesis by (simp add: AcceptCandidate_def Let_def)
  next
    case (Inr d1)
    have "releaseCandidateClaimsForPathsDetached okc (env_CandidateID env) (env_WriteSet env) d1 \<in> {d, d1}"
      using undo_claims [OF Inr] by (cases okc) (simp_all add: releaseCandidateClaimsForPathsDetached_def)
    with assms Inr show ?thesis by (auto simp: AcceptCandidate_def Let_def split: option.splits if_splits)
  qed
  then consider "d' = d" | "InsertCandidateClaims s (i\<lparr>io_now := io_now2 i\<rparr>) ?cs ?g d = Inr d'" by blast
  note cs = this
  from cs show "same_locks d d'" by cases (auto simp: same_locks_def dest!: InsertCandidateClaims_rows(1))
  from cs show "db_violations d' = db_violations d" by cases (auto dest!: InsertCandidateClaims_rows(1))
  from cs show "db_tags d' = db_tags d" by cases (auto dest!: InsertCandidateClaims_rows(1))
  from cs show "set (db_candidate_claims d) \<subseteq> set (db_candidate_claims d')"
    by cases (auto dest!: InsertCandidateClaims_rows(1))
  from cs show "distinct (map claim_pk (db_candidate_claims d)) \<Longrightarrow> distinct (map claim_pk (db_candidate_claims d'))"
    by cases (auto dest: InsertCandidateClaims_rows(2))
qed

lemma gcCandidateClaimsTx_rows:
  "same_locks d (snd (gcCandidateClaimsTx ec prom d))"
  "db_violations (snd (gcCandidateClaimsTx ec prom d)) = db_violations d"
  "db_tags (snd (gcCandidateClaimsTx ec prom d)) = db_tags d"
  "\<exists>P. db_candidate_claims (snd (gcCandidateClaimsTx ec prom d)) = filter P (db_candidate_claims d)"
  unfolding gcCandidateClaimsTx_def delete_candidates_snd by (auto simp: same_locks_def)

lemma ReconcileScan_frame:
  assumes "ReconcileScan s i1 i2 sc ec d = (r, d')"
  shows "same_locks d d'" "db_candidate_claims d' = db_candidate_claims d" "db_tags d' = db_tags d"
proof -
  have "same_locks d d' \<and> db_candidate_claims d' = db_candidate_claims d \<and> db_tags d' = db_tags d"
  proof (cases "ResolveViolationsForPaths i1 (sc_Worktree sc) (reverted_paths sc d) ResolutionReverted d")
    case (Inl e)
    with assms show ?thesis by (simp add: ReconcileScan_def Let_def same_locks_def)
  next
    case (Inr dn)
    obtain d1 n where dn: "dn = (d1, n)" by (cases dn)
    note c = ResolveViolationsForPaths_Inr(1) [OF Inr [unfolded dn]]
    have "same_locks d d2 \<and> db_candidate_claims d2 = db_candidate_claims d \<and> db_tags d2 = db_tags d"
      if "RecordViolations s i2 cs d1 = Inr (d2, vs)" for cs d2 vs
      unfolding RecordViolations_Inr(1) [OF that] by (simp add: frame_simps same_locks_def c)
    with assms Inr dn c show ?thesis
      by (auto simp: ReconcileScan_def Let_def same_locks_def split: sum.splits)
  qed
  then show "same_locks d d'" "db_candidate_claims d' = db_candidate_claims d" "db_tags d' = db_tags d" by simp_all
qed

lemma ResolveViolation_frame:
  assumes "ResolveViolation i vid res d = Inr d'"
  shows "same_locks d d'" "db_candidate_claims d' = db_candidate_claims d" "db_tags d' = db_tags d"
  using assms by (auto simp: ResolveViolation_def Let_def same_locks_def split: if_splits)

text \<open>The operations that only take lock rows away or move their deadline.\<close>

definition locks_thinned :: "db \<Rightarrow> db \<Rightarrow> bool" where
  "locks_thinned d d' \<longleftrightarrow>
     (\<exists>P Q x. db_locks d' = extend_rows Q x (filter P (db_locks d))) \<and>
     db_path_epochs d' = db_path_epochs d \<and> db_hook_calls d' = db_hook_calls d \<and>
     db_candidate_claims d' = db_candidate_claims d \<and> db_violations d' = db_violations d"

lemma extend_none: "extend_rows (\<lambda>_. False) x rows = rows"
  by (simp add: extend_rows_def)

lemma locks_thinnedI:
  assumes "db_locks d' = filter P (db_locks d)" "db_path_epochs d' = db_path_epochs d"
    "db_hook_calls d' = db_hook_calls d" "db_candidate_claims d' = db_candidate_claims d"
    "db_violations d' = db_violations d"
  shows "locks_thinned d d'"
proof -
  have "db_locks d' = extend_rows (\<lambda>_. False) 0 (filter P (db_locks d))" using assms(1) by (simp add: extend_none)
  with assms(2-) show ?thesis unfolding locks_thinned_def by blast
qed

lemma locks_thinned_refl: "locks_thinned d d"
  by (rule locks_thinnedI [where P = "\<lambda>_. True"]) simp_all

lemma ReleaseLocks_thins:
  assumes "ReleaseLocks s i targets own d = Inr (d', rs)"
  shows "locks_thinned d d'"
proof (cases "targets = []")
  case True
  with assms show ?thesis by (simp add: ReleaseLocks_def locks_thinned_refl)
next
  case False
  note a = ReleaseLocks_Inr [OF assms False]
  show ?thesis
    by (rule locks_thinnedI) (unfold a(2) applyReleaseChangesTx_locks, simp_all add: frame_simps)
qed

lemma ReleaseBySession_thins:
  assumes "ReleaseBySession s i own sess intent d = Inr (d', sr)"
  shows "locks_thinned d d'"
proof -
  let ?cs = "loadSessionTargetsTx own sess intent d"
  have "d' = d \<or> d' = releaseSessionTargetsTx s ?cs own (io_now i) (io_now2 i) d"
    using assms by (auto simp: ReleaseBySession_def Let_def split: if_splits)
  then show ?thesis
  proof
    assume d': "d' = releaseSessionTargetsTx s ?cs own (io_now i) (io_now2 i) d"
    show ?thesis
      by (rule locks_thinnedI [OF ReleaseBySession_locks [OF assms]])
        (simp_all add: d' releaseSessionTargetsTx_def frame_simps fold_release_worktree)
  qed (simp add: locks_thinned_refl)
qed

lemma BreakLocks_thins:
  assumes "BreakLocks s i targets own mode reason expect d = Inr (d', bs)"
  shows "locks_thinned d d'"
proof (cases "targets = []")
  case True
  with assms show ?thesis by (simp add: BreakLocks_def locks_thinned_refl)
next
  case False
  then show ?thesis
    by (rule BreakLocks_locks [OF assms]) (auto intro: locks_thinnedI)
qed

lemma RefreshLocks_thins:
  assumes "RefreshLocks rfc3339 s i targets own ttl d = Inr (d', rs)"
  shows "locks_thinned d d'"
proof -
  have "filter (\<lambda>_. True) (db_locks d) = db_locks d" by simp
  with RefreshLocks_Inr(2-6) [OF assms] show ?thesis unfolding locks_thinned_def by metis
qed

lemma hook_refresh_thins: "locks_thinned d (refreshCallerLocksTx s f own wt paths since now d)"
proof (cases "paths = []")
  case True
  then show ?thesis by (simp add: refreshCallerLocksTx_def locks_thinned_refl)
next
  case False
  have "filter (\<lambda>_. True) (db_locks d) = db_locks d" by simp
  moreover have "db_locks (refreshCallerLocksTx s f own wt paths since now d) =
      extend_rows (half_ttl_eligible f own wt paths since now) (now + DegradedModeTTL) (db_locks d)"
    using False by (simp add: refreshCallerLocksTx_def Let_def frame_simps refresh_batches_locks)
  ultimately show ?thesis
    using False unfolding locks_thinned_def
    by (intro conjI exI [of _ "\<lambda>_. True"] exI) (simp_all add: refreshCallerLocksTx_def Let_def frame_simps)
qed

lemma thinned_tables:
  assumes "locks_thinned d d'"
  shows "exclusive f (db_locks d) \<Longrightarrow> exclusive f (db_locks d')"
    "pk_unique (db_locks d) \<Longrightarrow> pk_unique (db_locks d')"
    "epoch_fenced (db_locks d) m \<Longrightarrow> epoch_fenced (db_locks d') m"
    "lock_keys (db_locks d') \<subseteq> lock_keys (db_locks d)"
proof -
  obtain P Q x where e: "db_locks d' = extend_rows Q x (filter P (db_locks d))"
    using assms by (auto simp: locks_thinned_def)
  show "exclusive f (db_locks d) \<Longrightarrow> exclusive f (db_locks d')"
    unfolding e exclusive_def extend_rows_keys using exclusive_filter by (simp add: exclusive_def)
  show "pk_unique (db_locks d) \<Longrightarrow> pk_unique (db_locks d')"
    unfolding e by (intro extend_rows_pk_unique pk_unique_filter)
  show "epoch_fenced (db_locks d) m \<Longrightarrow> epoch_fenced (db_locks d') m"
    unfolding e by (intro extend_rows_fenced epoch_fenced_filter)
  show "lock_keys (db_locks d') \<subseteq> lock_keys (db_locks d)"
    unfolding e extend_rows_keys by (rule lock_keys_filter)
qed

text \<open>Each step is an acquire, thins the lock table, or leaves it alone.\<close>

lemma step_locks:
  assumes "step f a d d'"
  obtains (acquire) s i own recs out where "AcquireLocks s i recs d = Inr (d', out)" "s_caseFold s = f"
      "\<forall>l \<in> set recs. l_OwnerUUID l = own" "a = ActAcquire s i own"
    | (thin) "locks_thinned d d'"
    | (same) "same_locks d d'"
  using assms
proof cases
  case (acquire s i recs out own)
  then show thesis by (intro that(1)) auto
next
  case (release s i targets own rs)
  then show thesis by (intro that(2)) (rule ReleaseLocks_thins)
next
  case (release_session s i own sess intent sr)
  then show thesis by (intro that(2)) (rule ReleaseBySession_thins)
next
  case (break_locks s i targets own mode reason expect bs)
  then show thesis by (intro that(2)) (rule BreakLocks_thins)
next
  case (refresh rfc3339 s i targets own ttl res)
  then show thesis by (intro that(2)) (rule RefreshLocks_thins)
next
  case (hook_refresh s own wt paths since now)
  then show thesis by (intro that(2)) (simp add: hook_refresh_thins)
next
  case (sweep_tags now)
  then show thesis by (intro that(3)) (simp add: same_locks_def frame_simps)
next
  case (release_claims cid)
  then show thesis by (intro that(3)) (simp add: same_locks_def ReleaseCandidateClaims_def)
next
  case (insert_claims s i cs g)
  then show thesis using InsertCandidateClaims_rows(1) by (intro that(3)) (fastforce simp: same_locks_def)
qed (auto intro!: that(3) intro: InsertTag_frame Ack_frame InsertTerritoryTag_frame AckTerritoryTag_frame
    gcTerritoryTagsTx_frame AppendEvents_frame AppendEventRotating_frame audit_frame
    AcceptCandidate_claims gcCandidateClaimsTx_rows ReconcileScan_frame ResolveViolation_frame)

lemma AcquireLocks_frame:
  assumes "AcquireLocks s i recs d = Inr (d', out)"
  shows "db_tags d' = db_tags d" "db_candidate_claims d' = db_candidate_claims d"
    "db_violations d' = db_violations d" "db_hook_calls d' = db_hook_calls d"
proof -
  have "d' = d \<or> recs \<noteq> []" using assms by (cases "recs = []") (auto simp: AcquireLocks_def)
  then show "db_tags d' = db_tags d" "db_candidate_claims d' = db_candidate_claims d"
    "db_violations d' = db_violations d" "db_hook_calls d' = db_hook_calls d"
    using AcquireLocks_Inr(10,12-14) [OF assms] by auto
qed

definition drops_claims :: "action \<Rightarrow> bool" where
  "drops_claims a \<longleftrightarrow> (case a of ActClaimRelease _ \<Rightarrow> True | ActClaimSweep \<Rightarrow> True | _ \<Rightarrow> False)"

definition closes_violations :: "action \<Rightarrow> bool" where
  "closes_violations a \<longleftrightarrow> (case a of ActScan \<Rightarrow> True | ActResolve _ \<Rightarrow> True | _ \<Rightarrow> False)"

lemma step_claims:
  assumes "step f a d d'"
  shows "\<not> drops_claims a \<Longrightarrow> set (db_candidate_claims d) \<subseteq> set (db_candidate_claims d')"
    "distinct (map claim_pk (db_candidate_claims d)) \<Longrightarrow> distinct (map claim_pk (db_candidate_claims d'))"
proof -
  have thin: "locks_thinned d d' \<Longrightarrow> db_candidate_claims d' = db_candidate_claims d"
    by (simp add: locks_thinned_def)
  from assms have "(\<not> drops_claims a \<longrightarrow> set (db_candidate_claims d) \<subseteq> set (db_candidate_claims d')) \<and>
    (distinct (map claim_pk (db_candidate_claims d)) \<longrightarrow> distinct (map claim_pk (db_candidate_claims d')))"
  proof cases
    case (insert_claims s i cs g)
    with InsertCandidateClaims_rows [OF insert_claims(2)] show ?thesis by auto
  next
    case (accept_candidate s i wb wr okc env sub r)
    with AcceptCandidate_claims(4,5) [OF accept_candidate(2)] show ?thesis by auto
  next
    case (release_claims cid)
    then show ?thesis by (simp add: drops_claims_def ReleaseCandidateClaims_def distinct_map_filter)
  next
    case (sweep_claims ec prom)
    obtain P where "db_candidate_claims (snd (gcCandidateClaimsTx ec prom d)) = filter P (db_candidate_claims d)"
      using gcCandidateClaimsTx_rows(4) by blast
    with sweep_claims show ?thesis by (simp add: drops_claims_def distinct_map_filter)
  next
    case (release s i targets own rs)
    then show ?thesis using thin [OF ReleaseLocks_thins] by auto
  next
    case (release_session s i own sess intent sr)
    then show ?thesis using thin [OF ReleaseBySession_thins] by auto
  next
    case (break_locks s i targets own mode reason expect bs)
    then show ?thesis using thin [OF BreakLocks_thins] by auto
  next
    case (refresh rfc3339 s i targets own ttl res)
    then show ?thesis using thin [OF RefreshLocks_thins] by auto
  next
    case (hook_refresh s own wt paths since now)
    then show ?thesis using thin by (simp add: hook_refresh_thins)
  next
    case (sweep_tags now)
    then show ?thesis by (simp add: frame_simps)
  qed (auto simp: AcquireLocks_frame InsertTag_frame Ack_frame InsertTerritoryTag_frame AckTerritoryTag_frame
      gcTerritoryTagsTx_frame AppendEvents_frame AppendEventRotating_frame audit_frame
      ReconcileScan_frame ResolveViolation_frame)
  then show "\<not> drops_claims a \<Longrightarrow> set (db_candidate_claims d) \<subseteq> set (db_candidate_claims d')"
    "distinct (map claim_pk (db_candidate_claims d)) \<Longrightarrow> distinct (map claim_pk (db_candidate_claims d'))"
    by blast+
qed

lemma step_violations:
  assumes "step f a d d'" "\<not> closes_violations a"
  shows "db_violations d' = db_violations d"
proof -
  have thin: "locks_thinned d d' \<Longrightarrow> db_violations d' = db_violations d"
    by (simp add: locks_thinned_def)
  from assms(1) show ?thesis
  proof cases
    case (insert_claims s i cs g)
    with InsertCandidateClaims_rows(1) [OF insert_claims(2)] show ?thesis by simp
  next
    case (release_claims cid)
    then show ?thesis by (simp add: ReleaseCandidateClaims_def)
  next
    case (release s i targets own rs)
    then show ?thesis using thin [OF ReleaseLocks_thins] by auto
  next
    case (release_session s i own sess intent sr)
    then show ?thesis using thin [OF ReleaseBySession_thins] by auto
  next
    case (break_locks s i targets own mode reason expect bs)
    then show ?thesis using thin [OF BreakLocks_thins] by auto
  next
    case (refresh rfc3339 s i targets own ttl res)
    then show ?thesis using thin [OF RefreshLocks_thins] by auto
  next
    case (hook_refresh s own wt paths since now)
    then show ?thesis using thin by (simp add: hook_refresh_thins)
  next
    case (sweep_tags now)
    then show ?thesis by (simp add: frame_simps)
  next
    case (scan s i1 i2 sc ec r)
    with assms(2) show ?thesis by (simp add: closes_violations_def)
  next
    case (resolve i vid resolution)
    with assms(2) show ?thesis by (simp add: closes_violations_def)
  qed (auto simp: AcquireLocks_frame InsertTag_frame Ack_frame InsertTerritoryTag_frame AckTerritoryTag_frame
      gcTerritoryTagsTx_frame AppendEvents_frame AppendEventRotating_frame audit_frame
      AcceptCandidate_claims gcCandidateClaimsTx_rows)
qed

lemma step_open_unique:
  assumes "step f a d d'" "open_unique (db_violations d)"
  shows "open_unique (db_violations d')"
proof (cases "closes_violations a")
  case False
  with step_violations [OF assms(1)] assms(2) show ?thesis by simp
next
  case True
  from assms(1) show ?thesis
  proof cases
    case (scan s i1 i2 sc ec r)
    with reconcile_open_unique [OF assms(2), of s i1 i2 sc ec] show ?thesis by simp
  next
    case (resolve i vid resolution)
    with resolve_open_unique [OF resolve(2) assms(2)] show ?thesis by simp
  qed (use True in \<open>simp_all add: closes_violations_def\<close>)
qed

text \<open>Tags: releases acknowledge, reclaims and sweeps delete, an insert respects the cap.\<close>

lemma release_tag_caps:
  "tag_caps f (db_tags d) \<Longrightarrow> tag_caps f (db_tags (applyOwnedReleasesTx s os own now n2 d))"
  by (simp add: applyOwnedReleasesTx_def Let_def frame_simps ackTagsForReleaseTx_def tag_caps_ack)

lemma reclaim_all_tag_caps: "tag_caps f (db_tags d) \<Longrightarrow> tag_caps f (db_tags (reclaim_all s ls own now d))"
  by (induction s ls own now d rule: reclaim_all.induct)
    (simp_all add: gcTagsForReclaimTx_def frame_simps tag_caps_filter)

lemma release_worktrees_tag_caps:
  "tag_caps f (db_tags d) \<Longrightarrow> tag_caps f (db_tags (fold (release_worktree s cs own n2) wts d))"
  by (induction wts arbitrary: d)
    (simp_all add: release_worktree_def Let_def frame_simps ackTagsForReleaseTx_def tag_caps_ack)

lemma delete_by_owner_tags: "db_tags (delete_by_owner b dels owns d) = db_tags d"
  by (induction owns arbitrary: d) (simp_all add: frame_simps)

lemma gcTagsTx_tag_caps: "tag_caps f (db_tags d) \<Longrightarrow> tag_caps f (db_tags (gcTagsTx now d))"
  by (simp add: gcTagsTx_def tag_caps_filter)

lemma step_tag_caps:
  assumes "step f a d d'" "tag_caps f (db_tags d)"
  shows "tag_caps f (db_tags d')"
  using assms(1)
proof cases
  case (release s i targets own rs)
  show ?thesis
  proof (cases "targets = []")
    case True
    with release assms(2) show ?thesis by (simp add: ReleaseLocks_def)
  next
    case False
    show ?thesis unfolding ReleaseLocks_Inr(2) [OF release(2) False]
      by (simp add: applyReleaseChangesTx_def Let_def frame_simps release_tag_caps reclaim_all_tag_caps assms(2))
  qed
next
  case (release_session s i own sess intent sr)
  then have "d' = d \<or> d' = releaseSessionTargetsTx s (loadSessionTargetsTx own sess intent d) own (io_now i) (io_now2 i) d"
    by (auto simp: ReleaseBySession_def Let_def split: if_splits)
  then show ?thesis
    using assms(2) release_worktrees_tag_caps
    by (auto simp: releaseSessionTargetsTx_def emitLockReleaseEventsTx_def frame_simps)
next
  case (break_locks s i targets own mode reason expect bs)
  show ?thesis
  proof (cases "targets = []")
    case True
    with break_locks assms(2) show ?thesis by (simp add: BreakLocks_def)
  next
    case False
    obtain b where "(d', bs) = applyBreakChangesTx s b d"
      by (rule BreakLocks_Inr [OF break_locks(2) False])
    then show ?thesis
      using assms(2) by (auto simp: applyBreakChangesTx_def Let_def case_prod_beta frame_simps
          delete_by_owner_tags gcTagsTx_tag_caps)
  qed
next
  case (refresh rfc3339 s i targets own ttl res)
  then have "db_tags d' = db_tags d"
    by (auto simp: RefreshLocks_def commitRefreshes_def Let_def frame_simps split: if_splits sum.splits)
  with assms(2) show ?thesis by simp
next
  case (hook_refresh s own wt paths since now)
  with assms(2) show ?thesis by (simp add: refreshCallerLocksTx_def Let_def frame_simps)
next
  case (insert_tag s i t tid)
  with insert_tag_caps [OF insert_tag(2)] assms(2) show ?thesis by simp
next
  case (ack_tag i tid own)
  with assms(2) show ?thesis by (auto simp: Ack_def tag_caps_ack split: if_splits option.splits)
next
  case (insert_claims s i cs g)
  with InsertCandidateClaims_rows(1) [OF insert_claims(2)] assms(2) show ?thesis by simp
qed (use assms(2) in \<open>auto simp: AcquireLocks_frame InsertTerritoryTag_frame AckTerritoryTag_frame
    gcTerritoryTagsTx_frame AppendEvents_frame AppendEventRotating_frame audit_frame ReleaseCandidateClaims_def
    AcceptCandidate_claims gcCandidateClaimsTx_rows ReconcileScan_frame ResolveViolation_frame gcTagsTx_tag_caps\<close>)

subsection \<open>The invariant of the store\<close>

definition store_ok :: "bool \<Rightarrow> db \<Rightarrow> bool" where
  "store_ok f d \<longleftrightarrow>
     exclusive f (db_locks d) \<and> pk_unique (db_locks d) \<and>
     (\<not> f \<longrightarrow> epoch_fenced (db_locks d) (db_path_epochs d)) \<and>
     tag_caps f (db_tags d) \<and> open_unique (db_violations d) \<and>
     distinct (map claim_pk (db_candidate_claims d))"

lemma store_ok_empty: "store_ok f empty_db"
  by (simp add: store_ok_def empty_db_def exclusive_def conflict_free_def pk_unique_def epoch_fenced_def
      tag_caps_def tags_on_host_def open_unique_def open_rows_def)

lemma step_store_ok:
  assumes "store_ok f d" "step f a d d'"
  shows "store_ok f d'"
proof -
  note ok = assms(1) [unfolded store_ok_def]
  have locks: "exclusive f (db_locks d') \<and> pk_unique (db_locks d') \<and>
      (\<not> f \<longrightarrow> epoch_fenced (db_locks d') (db_path_epochs d'))"
  proof (rule step_locks [OF assms(2)])
    fix s i own recs out
    assume a: "AcquireLocks s i recs d = Inr (d', out)" "s_caseFold s = f" "\<forall>l \<in> set recs. l_OwnerUUID l = own"
    from ok acquire_exclusive [OF a(1,3)] acquire_pk_unique [OF a(1)] acquire_epochs [OF a(1)] a(2)
    show ?thesis by auto
  next
    assume t: "locks_thinned d d'"
    then have "db_path_epochs d' = db_path_epochs d" by (simp add: locks_thinned_def)
    with ok thinned_tables [OF t] show ?thesis by simp
  next
    assume "same_locks d d'"
    with ok show ?thesis by (simp add: same_locks_def)
  qed
  show ?thesis
    unfolding store_ok_def
    using locks ok step_tag_caps [OF assms(2)] step_open_unique [OF assms(2)] step_claims(2) [OF assms(2)] by blast
qed

interpretation store_inv: guarded_invariant "step f" "\<lambda>_. True" "store_ok f" for f
  by unfold_locales (rule step_store_ok)

lemma reachable_ok: "reachable f d \<Longrightarrow> store_ok f d"
  using store_inv.run_keeps store_ok_empty unfolding reachable_def by blast

text \<open>A claim row stays until it is released or swept, an open violation until a scan or a resolve.\<close>

interpretation claim_stays: guarded_invariant "step f" "\<lambda>a. \<not> drops_claims a"
    "\<lambda>d. r \<in> set (db_candidate_claims d)" for f r
  by unfold_locales (use step_claims(1) in blast)

interpretation violation_stays: guarded_invariant "step f" "\<lambda>a. \<not> closes_violations a"
    "\<lambda>d. v \<in> set (db_violations d)" for f v
  by unfold_locales (simp add: step_violations)

lemma step_epoch_mono:
  assumes "step f a d d'"
  shows "path_epoch (db_path_epochs d) p \<le> path_epoch (db_path_epochs d') p"
  by (rule step_locks [OF assms]) (auto simp: locks_thinned_def same_locks_def intro: acquire_mono)

interpretation epochs_grow: guarded_invariant "step f" "\<lambda>_. True"
    "\<lambda>d. e \<le> path_epoch (db_path_epochs d) p" for f e p
  by unfold_locales (meson order_trans step_epoch_mono)

text \<open>A claimed path gets no new lock key.\<close>

lemma step_claimed_keys:
  assumes "step f a d d'" "r \<in> set (db_candidate_claims d)" "k \<in> lock_keys (db_locks d')"
    "fst k = cr_path_canonical r"
  shows "k \<in> lock_keys (db_locks d)"
proof (rule step_locks [OF assms(1)])
  fix s i own recs out
  assume a: "AcquireLocks s i recs d = Inr (d', out)"
  show ?thesis
  proof (cases "recs = []")
    case True
    with a assms(3) show ?thesis by (simp add: AcquireLocks_def)
  next
    case False
    from AcquireLocks_Inr(5) [OF a False] assms(2)
    have "Canonical (l_Target l) \<noteq> cr_path_canonical r" if "l \<in> set recs" for l
      using that by (simp add: blockOnCandidateClaims_None) metis
    then have "k \<notin> lock_key_of ` set recs" using assms(4) by (auto simp: lock_key_of_def)
    with AcquireLocks_Inr_keys [OF a False] assms(3) show ?thesis by blast
  qed
next
  assume "locks_thinned d d'"
  with thinned_tables(4) assms(3) show ?thesis by blast
next
  assume "same_locks d d'"
  with assms(3) show ?thesis by (simp add: same_locks_def)
qed

interpretation claimed_path: guarded_invariant "step f" "\<lambda>a. \<not> drops_claims a"
    "\<lambda>d. r \<in> set (db_candidate_claims d) \<and> k \<notin> lock_keys (db_locks d) \<and> fst k = cr_path_canonical r" for f r k
  using step_claims(1) step_claimed_keys by unfold_locales blast

subsection \<open>Live rows\<close>

lemma adopt_rows_survive:
  "r \<in> set (xs @ rs) \<Longrightarrow> \<exists>r' \<in> set (adopt_rows f l xs rs). r_owner_uuid r' = r_owner_uuid r \<and>
     key_norm f (r_target_canonical r') = key_norm f (r_target_canonical r)"
proof (induction f l xs rs arbitrary: r rule: adopt_rows.induct)
  case (1 f l xs)
  then show ?case by auto
next
  case (2 f l xs q rs)
  let ?c = "key_norm f (r_target_canonical q) = key_norm f (Canonical (l_Target l)) \<and>
    r_owner_uuid q = l_OwnerUUID l \<and> r_worktree q = [] \<and> lock_key_of l \<notin> lock_keys (xs @ rs)"
  let ?q = "q\<lparr>r_worktree := l_Worktree l, r_target_canonical := Canonical (l_Target l)\<rparr>"
  show ?case
  proof (cases ?c)
    case True
    show ?thesis
    proof (cases "r = q")
      case r: True
      have "?q \<in> set ((xs @ [?q]) @ rs)" by simp
      from "2.IH"(1) [OF True this] True r show ?thesis by auto
    next
      case False
      with "2.prems" have "r \<in> set ((xs @ [?q]) @ rs)" by auto
      from "2.IH"(1) [OF True this] True show ?thesis by auto
    qed
  next
    case False
    from "2.prems" have "r \<in> set ((xs @ [q]) @ rs)" by auto
    from "2.IH"(2) [OF False this] False show ?thesis by auto
  qed
qed

lemma upsert_survive: "r \<in> set rows \<Longrightarrow> \<exists>r' \<in> set (upsert_lock_row new rows). lock_pk r' = lock_pk r"
proof -
  assume r: "r \<in> set rows"
  show ?thesis
  proof (cases "lock_pk r = lock_pk new")
    case True
    from upsert_new [of new rows] obtain r' where r': "r' \<in> set (upsert_lock_row new rows)"
      "r'\<lparr>r_created_at := 0\<rparr> = new\<lparr>r_created_at := 0\<rparr>" by blast
    then have "lock_pk r' = lock_pk new" by (metis lock_pk_created)
    with r'(1) True show ?thesis by metis
  next
    case False
    with upsert_keeps [OF r False] show ?thesis by blast
  qed
qed

lemma insertOrRefresh_survive:
  "r \<in> set rows \<Longrightarrow> \<exists>r' \<in> set (insertOrRefreshLock f l e rows). r_owner_uuid r' = r_owner_uuid r \<and>
     key_norm f (r_target_canonical r') = key_norm f (r_target_canonical r)"
proof -
  assume "r \<in> set rows"
  then obtain q where q: "q \<in> set (adoptLegacyWorktreeRow f l rows)" "r_owner_uuid q = r_owner_uuid r"
    "key_norm f (r_target_canonical q) = key_norm f (r_target_canonical r)"
    using adopt_rows_survive [of r "[]" rows f l] by (cases "l_Worktree l = []") (auto simp: adoptLegacyWorktreeRow_def)
  from upsert_survive [OF q(1), of "lock_row_of l e"] q(2,3) show ?thesis
    unfolding insertOrRefreshLock_def by (auto simp: lock_pk_def)
qed

lemma insert_loop_survive:
  "r \<in> set (db_locks d) \<Longrightarrow>
   \<exists>r' \<in> set (db_locks (snd (insert_loop all ec ls d))). r_owner_uuid r' = r_owner_uuid r \<and>
     key_norm (CaseFold ec) (r_target_canonical r') = key_norm (CaseFold ec) (r_target_canonical r)"
proof (induction all ec ls d arbitrary: r rule: insert_loop.induct)
  case (1 all ec d)
  then show ?case by auto
next
  case (2 all ec l ls d)
  let ?e = "fst (resolveEpoch l all ec (db_path_epochs d))"
  obtain q where q: "q \<in> set (insertOrRefreshLock (CaseFold ec) (l\<lparr>l_Epoch := ?e\<rparr>) ?e (db_locks d))"
    "r_owner_uuid q = r_owner_uuid r" "key_norm (CaseFold ec) (r_target_canonical q) = key_norm (CaseFold ec) (r_target_canonical r)"
    using insertOrRefresh_survive [OF "2.prems"] by blast
  from "2.IH" [OF refl refl refl refl, of q] q show ?case by (simp add: Let_def)
qed

lemma acquire_survive:
  assumes "AcquireLocks s i recs d = Inr (d', out)" "pk_unique (db_locks d)"
    and "r \<in> set (db_locks d)" "\<not> IsStale (eval_ctx s i) (scanLock (db_hook_calls d) r)"
  shows "\<exists>r' \<in> set (db_locks d'). r_owner_uuid r' = r_owner_uuid r \<and>
    key_norm (s_caseFold s) (r_target_canonical r') = key_norm (s_caseFold s) (r_target_canonical r)"
proof (cases "recs = []")
  case True
  with assms show ?thesis by (auto simp: AcquireLocks_def)
next
  case False
  let ?batch = "sortedByCanonical recs" and ?ec = "eval_ctx s i"
  let ?cb = "snd (collectAllBlockers s (loadLocksTx d) ?batch ?ec d)"
  have "lock_pk r \<notin> stale_contender_keys ?ec ?batch (loadLocksTx d)"
  proof
    assume "lock_pk r \<in> stale_contender_keys ?ec ?batch (loadLocksTx d)"
    then obtain q where "q \<in> set (db_locks d)" "IsStale ?ec (scanLock (db_hook_calls d) q)" "lock_pk q = lock_pk r"
      by (auto simp: stale_contender_keys_def)
    with pk_unique_eq [OF assms(2)] assms(3,4) show False by metis
  qed
  with assms(3) have "r \<in> set (db_locks ?cb)" by simp
  from insert_loop_survive [OF this, of "loadLocksTx d" ?ec ?batch]
  show ?thesis unfolding AcquireLocks_Inr(8) [OF assms(1) False] by simp
qed

lemma extend_survive:
  "r \<in> set rows \<Longrightarrow> \<exists>r' \<in> set (extend_rows P x rows). r_owner_uuid r' = r_owner_uuid r \<and>
     r_target_canonical r' = r_target_canonical r"
  unfolding extend_rows_def set_map by (erule bexI [OF _ imageI, rotated]) simp

text \<open>Which rows an action may take from their holder.\<close>

definition spares :: "action \<Rightarrow> hook_call list \<Rightarrow> lock_row \<Rightarrow> bool" where
  "spares a calls r \<longleftrightarrow>
     (case a of
        ActAcquire s i own \<Rightarrow> \<not> IsStale (eval_ctx s i) (scanLock calls r)
      | ActRelease s i own \<Rightarrow> r_owner_uuid r \<noteq> own \<and> \<not> IsStale (eval_ctx s i) (scanLock calls r)
      | ActReleaseSession s i own \<Rightarrow> r_owner_uuid r \<noteq> own
      | ActBreak s i mode \<Rightarrow> mode = BreakStale \<and> \<not> IsStale (eval_ctx s i) (scanLock calls r)
      | _ \<Rightarrow> True)"

subsection \<open>Concrete inputs\<close>

lemma acquire_step_ex:
  assumes "case AcquireLocks s i [l] d of Inl _ \<Rightarrow> False | Inr (d', out) \<Rightarrow> P d'"
    and "a = ActAcquire s i (l_OwnerUUID l)" "f = s_caseFold s"
  shows "\<exists>d'. step f a d d' \<and> P d'"
proof -
  obtain d' out where e: "AcquireLocks s i [l] d = Inr (d', out)" "P d'"
    using assms(1) by (cases "AcquireLocks s i [l] d") auto
  have "step f a d d'" unfolding assms(2,3) by (rule step.acquire [OF e(1)]) simp_all
  with e(2) show ?thesis by blast
qed

lemma run_one: "st a s s' \<Longrightarrow> run st [a] s s'"
  by (blast intro: run.intros)

text \<open>\<open>bob\<close> takes \<open>d\<close> at 10 on an empty store, \<open>cy\<close> then takes \<open>q\<close> at 12.\<close>

definition ex_act1 :: action where
  "ex_act1 = ActAcquire ex_store (ex_io 10) ''bob''"

definition ex_act2 :: action where
  "ex_act2 = ActAcquire ex_store (ex_io 12) ''cy''"

definition ex_db1 :: db where
  "ex_db1 = (case AcquireLocks ex_store (ex_io 10) [ex_lock ''d'' ''bob'' 20] empty_db of
     Inl _ \<Rightarrow> empty_db | Inr (d', out) \<Rightarrow> d')"

lemma ex_step1: "step False ex_act1 empty_db ex_db1"
proof -
  let ?call = "AcquireLocks ex_store (ex_io 10) [ex_lock ''d'' ''bob'' 20] empty_db"
  have "case ?call of Inl _ \<Rightarrow> False | Inr _ \<Rightarrow> True" by code_simp
  then obtain d' out where e: "?call = Inr (d', out)" by (cases ?call) auto
  have "step False (ActAcquire ex_store (ex_io 10) ''bob'') empty_db d'"
    by (rule step.acquire [OF e]) (simp_all add: ex_store_def ex_lock_def)
  then show ?thesis by (simp add: ex_act1_def ex_db1_def e)
qed

lemma ex_reachable1: "reachable False ex_db1"
  unfolding reachable_def by (rule exI, rule run_one, rule ex_step1)

lemma ex_db1_row:
  "map lock_pk (db_locks ex_db1) = [(''d'', ''bob'', ''main'')]" "path_epoch (db_path_epochs ex_db1) ''d'' = 1"
  "\<forall>r \<in> set (db_locks ex_db1). spares ex_act2 (db_hook_calls ex_db1) r"
  by code_simp+

text \<open>The second step, on the store it grew from and on two others.\<close>

lemma ex_act2_step:
  assumes "case AcquireLocks ex_store (ex_io 12) [ex_lock ''q'' ''cy'' 30] d of
      Inl _ \<Rightarrow> False | Inr (d', out) \<Rightarrow> map lock_pk (db_locks d') = ks"
  shows "\<exists>d'. step False ex_act2 d d' \<and> map lock_pk (db_locks d') = ks"
  using assms by (rule acquire_step_ex) (simp_all add: ex_act2_def ex_lock_def ex_store_def)

lemma ex_step2:
  "\<exists>d'. step False ex_act2 ex_db1 d' \<and>
     map lock_pk (db_locks d') = [(''d'', ''bob'', ''main''), (''q'', ''cy'', ''main'')]"
  by (rule ex_act2_step) code_simp

definition ex_db3 :: db where
  "ex_db3 = ex_db\<lparr>db_candidate_claims := [claim_row_of (ex_claim ''x'' ''c-1'' ''al'')],
     db_violations := [ex_violation ''z'' ''?'']\<rparr>"

lemma ex_step3:
  "\<exists>d'. step False ex_act2 ex_db3 d' \<and>
     map lock_pk (db_locks d') = [(''d'', ''bob'', ''main''), (''x'', ''al'', ''main''), (''q'', ''cy'', ''main'')]"
  by (rule ex_act2_step) code_simp

lemma ex_act2_keeps: "\<not> drops_claims ex_act2" "\<not> closes_violations ex_act2"
  by (simp_all add: ex_act2_def drops_claims_def closes_violations_def)

subsection \<open>Live rows survive\<close>

lemma filter_survive:
  "r \<in> set rows \<Longrightarrow> P r \<Longrightarrow> \<exists>r' \<in> set (filter P rows). r_owner_uuid r' = r_owner_uuid r \<and>
     key_norm f (r_target_canonical r') = key_norm f (r_target_canonical r)"
  by auto

lemma release_survive:
  assumes "ReleaseLocks s i targets own d = Inr (d', rs)" "pk_unique (db_locks d)" "r \<in> set (db_locks d)"
    and "r_owner_uuid r \<noteq> own" "\<not> IsStale (eval_ctx s i) (scanLock (db_hook_calls d) r)"
  shows "r \<in> set (db_locks d')"
proof (cases "targets = []")
  case True
  with assms(1,3) show ?thesis by (simp add: ReleaseLocks_def)
next
  case False
  have "\<not> released s i targets own d r"
  proof
    let ?k = "key_norm (s_caseFold s) (r_target_canonical r)"
    assume a: "released s i targets own d r"
    then have k: "?k \<in> Canonical ` set targets" "SameWorktree (s_worktree s) (r_worktree r)"
      and "stale_at (batch_snapshot s targets d) own (eval_ctx s i) ?k"
      using assms(4) by (auto simp: released_def Let_def)
    then have st: "\<forall>l \<in> set (batch_snapshot s targets d ?k). IsStale (eval_ctx s i) l" by (simp add: stale_at_def)
    from k(1) obtain t where "t \<in> set targets" "Canonical t = ?k" by auto
    then have "?k \<in> (\<lambda>t. key_norm (s_caseFold s) (Canonical t)) ` set targets"
      by (intro image_eqI [of _ _ t]) simp_all
    with k(2) assms(3) have "scanLock (db_hook_calls d) r \<in> set (batch_snapshot s targets d ?k)"
      unfolding batch_snapshot_mem by blast
    with st assms(5) show False by blast
  qed
  with assms(3) show ?thesis unfolding ReleaseLocks_locks [OF assms(1) False assms(2)] by simp
qed

lemma live_row_survives:
  assumes "step f a d d'" "pk_unique (db_locks d)" "r \<in> set (db_locks d)" "spares a (db_hook_calls d) r"
  shows "\<exists>r' \<in> set (db_locks d'). r_owner_uuid r' = r_owner_uuid r \<and>
    key_norm f (r_target_canonical r') = key_norm f (r_target_canonical r)"
proof -
  have same: "same_locks d d' \<Longrightarrow> ?thesis" using assms(3) by (auto simp: same_locks_def)
  from assms(1) show ?thesis
  proof cases
    case (acquire s i recs out own)
    with acquire_survive [OF acquire(2) assms(2,3)] assms(4) show ?thesis by (simp add: spares_def)
  next
    case (release s i targets own rs)
    with release_survive [OF release(2) assms(2,3)] assms(4) show ?thesis by (auto simp: spares_def)
  next
    case (release_session s i own sess intent sr)
    then have "r_owner_uuid r \<noteq> own" using assms(4) by (simp add: spares_def)
    then have "r \<in> set (db_locks d')" using assms(3) unfolding ReleaseBySession_locks [OF release_session(2)] by simp
    then show ?thesis by blast
  next
    case (break_locks s i targets own mode reason expect bs)
    then have m: "mode = BreakStale" "\<not> IsStale (eval_ctx s i) (scanLock (db_hook_calls d) r)"
      using assms(4) by (simp_all add: spares_def)
    have "r \<in> set (db_locks d')"
      using BreakStale_removes [OF break_locks(2) [unfolded m(1)] assms(3)] assms(3) m(2) by blast
    then show ?thesis by blast
  next
    case (refresh rfc3339 s i targets own ttl res)
    obtain r' where "r' \<in> set (db_locks d')" "r_owner_uuid r' = r_owner_uuid r"
      "r_target_canonical r' = r_target_canonical r"
      using extend_survive [OF assms(3)] unfolding RefreshLocks_Inr(2) [OF refresh(2)] by blast
    then show ?thesis by auto
  next
    case (hook_refresh s own wt paths since now)
    have "paths = [] \<Longrightarrow> ?thesis" using hook_refresh assms(3) by (auto simp: refreshCallerLocksTx_def)
    moreover have "db_locks d' = extend_rows (half_ttl_eligible f own wt paths since now) (now + DegradedModeTTL) (db_locks d)"
      if "paths \<noteq> []"
      using hook_refresh that by (simp add: refreshCallerLocksTx_def Let_def frame_simps refresh_batches_locks)
    ultimately show ?thesis using extend_survive [OF assms(3)] by metis
  next
    case (sweep_tags now)
    then show ?thesis by (intro same) (simp add: same_locks_def frame_simps)
  next
    case (release_claims cid)
    then show ?thesis by (intro same) (simp add: same_locks_def ReleaseCandidateClaims_def)
  next
    case (insert_claims s i cs g)
    then show ?thesis using InsertCandidateClaims_rows(1) by (intro same) (fastforce simp: same_locks_def)
  qed (rule same, (auto intro: InsertTag_frame Ack_frame InsertTerritoryTag_frame AckTerritoryTag_frame
      gcTerritoryTagsTx_frame AppendEvents_frame AppendEventRotating_frame audit_frame
      AcceptCandidate_claims gcCandidateClaimsTx_rows ReconcileScan_frame ResolveViolation_frame) [1])+
qed

subsection \<open>Properties of histories\<close>



text \<open>C10: A claim freezes its path. Along any history in which no claim is released or swept, a
  claimed path gains no new hold (no owner and no checkout that did not hold it at the start), and the
  claim is still there at the end.\<close>

theorem claimed_path_frozen:
  assumes "run (step f) as d d'" "\<forall>a \<in> set as. \<not> drops_claims a"
    and "c \<in> set (db_candidate_claims d)" "r \<in> set (db_locks d')"
    and "r_target_canonical r = cr_path_canonical c"
  shows "c \<in> set (db_candidate_claims d') \<and> (\<exists>q \<in> set (db_locks d). lock_pk q = lock_pk r)"
proof -
  have "lock_pk r \<in> lock_keys (db_locks d)"
  proof (rule ccontr)
    assume "lock_pk r \<notin> lock_keys (db_locks d)"
    with claimed_path.run_keeps [OF assms(1,2), of c "lock_pk r"] assms(3,5)
    have "lock_pk r \<notin> lock_keys (db_locks d')" by (simp add: lock_pk_def)
    with assms(4) show False by (simp add: lock_keys_def)
  qed
  with claim_stays.run_keeps [OF assms(1-3)] show ?thesis by (auto simp: lock_keys_def)
qed

theorem claimed_path_frozen_witness:
  "\<exists>d'. run (step False) [ex_act2] ex_db3 d' \<and>
     claim_row_of (ex_claim ''x'' ''c-1'' ''al'') \<in> set (db_candidate_claims d')"
proof -
  obtain d' where st: "step False ex_act2 ex_db3 d'"
    "map lock_pk (db_locks d') = [(''d'', ''bob'', ''main''), (''x'', ''al'', ''main''), (''q'', ''cy'', ''main'')]"
    by (rule exE [OF ex_step3], elim conjE) (rule that)
  have "(''x'', ''al'', ''main'') \<in> set (map lock_pk (db_locks d'))" unfolding st(2) by simp
  then obtain r where r: "r \<in> set (db_locks d')" "lock_pk r = (''x'', ''al'', ''main'')"
    unfolding set_map by (elim imageE) (rule that, simp_all)
  let ?c = "claim_row_of (ex_claim ''x'' ''c-1'' ''al'')"
  have c: "?c \<in> set (db_candidate_claims ex_db3)" by (simp add: ex_db3_def)
  have t: "r_target_canonical r = cr_path_canonical ?c"
    using r(2) by (simp add: lock_pk_def claim_row_of_def ex_claim_def)
  have a: "\<forall>a \<in> set [ex_act2]. \<not> drops_claims a" using ex_act2_keeps(1) by simp
  note run = run_one [of "step False", OF st(1)]
  have "?c \<in> set (db_candidate_claims d')" using claimed_path_frozen [OF run a c r(1) t] by (rule conjunct1)
  then show ?thesis by (intro exI [of _ d'] conjI run)
qed

text \<open>C11: Contamination is sticky. Along any history without a scan and without an explicit
  resolution, whatever locks are taken, released or broken meanwhile, an open violation stays open,
  and a candidate that writes its path is refused against the resulting store.\<close>

theorem contamination_is_sticky:
  assumes "run (step f) as d d'" "\<forall>a \<in> set as. \<not> closes_violations a"
    and "v \<in> set (db_violations d)" "\<not> Resolved v" "v_Worktree v = wt \<or> v_Worktree v = WorktreeLegacy"
    and "v_PathCanonical v \<in> set (env_WriteSet env)"
    and "adm_UnresolvedViolations p = UnresolvedViolationPaths wt d'"
    and "Admit git env p = Inr dec"
  shows "v \<in> set (db_violations d') \<and> \<not> d_Accepted dec"
proof -
  have "v \<in> set (db_violations d')" by (rule violation_stays.run_keeps [OF assms(1-3)])
  with open_violation_refuses [OF this assms(4-8)] show ?thesis by blast
qed

theorem contamination_is_sticky_witness:
  "\<exists>d'. run (step False) [ex_act2] ex_db3 d' \<and> ex_violation ''z'' ''?'' \<in> set (db_violations d') \<and>
     (\<exists>dec. Admit ex_git ((ex_envelope)\<lparr>env_WriteSet := [''z'']\<rparr>) \<lparr>adm_PresentedProposalSHA = ''prop'',
        adm_IntegrationRef = ''int'', adm_UnresolvedViolations = UnresolvedViolationPaths ''main'' d',
        adm_CurrentEpoch = (\<lambda>_. None)\<rparr> = Inr dec \<and> \<not> d_Accepted dec)"
proof -
  obtain d' where st: "step False ex_act2 ex_db3 d'" using ex_step3 by blast
  let ?env = "(ex_envelope)\<lparr>env_WriteSet := [''z'']\<rparr>"
  let ?p = "\<lparr>adm_PresentedProposalSHA = ''prop'', adm_IntegrationRef = ''int'',
     adm_UnresolvedViolations = UnresolvedViolationPaths ''main'' d', adm_CurrentEpoch = (\<lambda>_. None)\<rparr>"
  have v: "ex_violation ''z'' ''?'' \<in> set (db_violations ex_db3)" by (simp add: ex_db3_def)
  have "db_violations d' = db_violations ex_db3" by (rule step_violations [OF st ex_act2_keeps(2)])
  then have u: "UnresolvedViolationPaths ''main'' d' = UnresolvedViolationPaths ''main'' ex_db3"
    by (simp add: UnresolvedViolationPaths_def UnresolvedViolationsIn_def)
  have "\<not> isl (Admit ex_git ?env \<lparr>adm_PresentedProposalSHA = ''prop'', adm_IntegrationRef = ''int'',
     adm_UnresolvedViolations = UnresolvedViolationPaths ''main'' ex_db3, adm_CurrentEpoch = (\<lambda>_. None)\<rparr>)"
    by code_simp
  then obtain dec where e: "Admit ex_git ?env ?p = Inr dec" unfolding u by (cases "Admit ex_git ?env ?p") (auto simp: u)
  have a: "\<forall>a \<in> set [ex_act2]. \<not> closes_violations a" using ex_act2_keeps(2) by simp
  have o: "\<not> Resolved (ex_violation ''z'' ''?'')"
    "v_Worktree (ex_violation ''z'' ''?'') = ''main'' \<or> v_Worktree (ex_violation ''z'' ''?'') = WorktreeLegacy"
    "v_PathCanonical (ex_violation ''z'' ''?'') \<in> set (env_WriteSet ?env)"
    by (simp_all add: ex_violation_def Resolved_def WorktreeLegacy_def)
  note run = run_one [of "step False", OF st]
  have p: "adm_UnresolvedViolations ?p = UnresolvedViolationPaths ''main'' d'" by simp
  have "ex_violation ''z'' ''?'' \<in> set (db_violations d') \<and> \<not> d_Accepted dec"
    by (rule contamination_is_sticky [OF run a v o p e])
  then show ?thesis by (intro exI [of _ d'] conjI run exI [of _ dec] e) simp_all
qed

text \<open>Epochs never run backwards: along every history each path's counter only grows, so on a
  byte-exact store a hold granted later than another on the same path never reuses a spent epoch.\<close>

theorem epochs_never_decrease:
  assumes "run (step f) as d d'"
  shows "path_epoch (db_path_epochs d) p \<le> path_epoch (db_path_epochs d') p"
  by (rule epochs_grow.run_keeps [OF assms]) simp_all

theorem epochs_never_decrease_witness:
  "path_epoch (db_path_epochs empty_db) ''d'' \<le> path_epoch (db_path_epochs ex_db1) ''d''"
  by (rule epochs_never_decrease [OF run_one [of "step False", OF ex_step1]])



end
