(* ===== verification/Refs.thy ===== *)
theory Refs
  imports Envelope "HOL-Library.AList"
begin

text \<open>
  \<open>internal/gate/refs.go\<close> and \<open>internal/gate/integration.go\<close>: the one way the gate writes references
  (a transaction script for \<open>git update-ref --stdin\<close>), the listings it reads them with, and the
  bootstrap of the integration ref.

  Git's reference store is a list of (name, object) pairs.  The commands that touch it are
  parameters, gathered in \<open>ref_env\<close>: what \<open>update-ref\<close> answers to a script and leaves behind, what
  \<open>for-each-ref\<close> and \<open>rev-parse\<close> print, and what other processes do to the references in between
  (\<open>e_peers\<close>, indexed by the number of looks this process has taken).  Git's documented behaviour is
  stated once, in \<open>documented_update_ref\<close> and its neighbours, as a hypothesis of the theorems that
  need it; \<open>ex_update_ref\<close> is an implementation that satisfies it, and reads the script with a parser
  of its own.  The field \<open>w_log\<close> is not state of the program: it records the transactions this process
  ran, with the references before and after each, so that properties can speak about them.
\<close>

subsection \<open>Text\<close>

definition NL :: char where "NL = CHR 0x0A"
definition SP :: char where "SP = CHR 0x20"

text \<open>\<open>strings.Cut\<close> and \<open>strings.Contains\<close>.\<close>

fun cut_str :: "string \<Rightarrow> string \<Rightarrow> (string \<times> string) option" where
  "cut_str sep [] = (if sep = [] then Some ([], []) else None)"
| "cut_str sep (c # cs) =
     (if has_prefix (c # cs) sep then Some ([], drop (length sep) (c # cs))
      else map_option (\<lambda>r. (c # fst r, snd r)) (cut_str sep cs))"

definition contains_str :: "string \<Rightarrow> string \<Rightarrow> bool" where
  "contains_str s sub \<longleftrightarrow> cut_str sub s \<noteq> None"

definition trim_prefix :: "string \<Rightarrow> string \<Rightarrow> string" where
  "trim_prefix s p = (if has_prefix s p then drop (length p) s else s)"

text \<open>Text without blanks: what git admits in a reference name and prints as an object name.\<close>

definition word :: "string \<Rightarrow> bool" where
  "word s \<longleftrightarrow> s \<noteq> [] \<and> list_all (\<lambda>c. \<not> is_space c) s"

lemma word_free: "word s \<Longrightarrow> NL \<notin> set s" "word s \<Longrightarrow> SP \<notin> set s"
  by (auto simp: word_def list_all_iff is_space_def NL_def SP_def)

lemma trim_space_word: "s \<noteq> [] \<Longrightarrow> \<not> is_space (hd s) \<Longrightarrow> \<not> is_space (last s) \<Longrightarrow> trim_space s = s"
proof -
  assume a: "s \<noteq> []" "\<not> is_space (hd s)" "\<not> is_space (last s)"
  then have "dropWhile is_space s = s" "dropWhile is_space (rev s) = rev s"
    by (simp_all add: dropWhile_eq_self_iff hd_rev)
  then show ?thesis by (simp add: trim_space_def)
qed

lemma word_trim [simp]: "word s \<Longrightarrow> trim_space s = s"
  unfolding word_def list_all_iff by (intro trim_space_word) auto

lemma cut_char: "SP \<notin> set a \<Longrightarrow> cut_str [SP] (a @ SP # b) = Some (a, b)"
  by (induction a) auto

subsection \<open>Reference transactions\<close>

definition VerbCreate :: string where "VerbCreate = ''create''"
definition VerbUpdate :: string where "VerbUpdate = ''update''"
definition VerbDelete :: string where "VerbDelete = ''delete''"

record RefUpdate =
  ru_Verb :: string
  ru_Ref :: string
  ru_NewSHA :: string
  ru_OldSHA :: string

datatype ref_error =
    ErrEmptyTransaction
  | ErrUnknownRefVerb string string
  | ErrRefCASLost
  | ErrUpdateRef string
  | ErrUpdateRefTimeout

definition refCASRejectionMarker :: string where
  "refCASRejectionMarker = ''but expected''"

definition writeRefUpdateLine :: "RefUpdate \<Rightarrow> ref_error + string" where
  "writeRefUpdateLine u =
     (if ru_Verb u = VerbCreate then
        Inr (''create '' @ ru_Ref u @ [SP] @ ru_NewSHA u @ [NL])
      else if ru_Verb u = VerbUpdate then
        Inr (''update '' @ ru_Ref u @ [SP] @ ru_NewSHA u @
          (if ru_OldSHA u \<noteq> [] then [SP] @ ru_OldSHA u else []) @ [NL])
      else if ru_Verb u = VerbDelete then
        Inr (''delete '' @ ru_Ref u @ (if ru_OldSHA u \<noteq> [] then [SP] @ ru_OldSHA u else []) @ [NL])
      else Inl (ErrUnknownRefVerb (ru_Verb u) (ru_Ref u)))"

fun ref_update_lines :: "RefUpdate list \<Rightarrow> ref_error + string" where
  "ref_update_lines [] = Inr []"
| "ref_update_lines (u # us) =
     (case writeRefUpdateLine u of
        Inl er \<Rightarrow> Inl er
      | Inr l \<Rightarrow> (case ref_update_lines us of Inl er \<Rightarrow> Inl er | Inr ls \<Rightarrow> Inr (l @ ls)))"

definition buildRefUpdateStdin :: "RefUpdate list \<Rightarrow> ref_error + string" where
  "buildRefUpdateStdin us =
     (case ref_update_lines us of
        Inl er \<Rightarrow> Inl er
      | Inr ls \<Rightarrow> Inr (''start'' @ [NL] @ ls @ ''commit'' @ [NL]))"

text \<open>What \<open>git update-ref\<close> answers: success, a failure with its standard error, or the deadline.\<close>

datatype tx_answer = TxOk | TxFail string | TxTimeout

type_synonym refs = "(string \<times> string) list"

record ref_env =
  e_update :: "string \<Rightarrow> refs \<Rightarrow> tx_answer \<times> refs"
  e_for_each :: "string \<Rightarrow> refs \<Rightarrow> string option"
  e_rev_parse :: "string \<Rightarrow> refs \<Rightarrow> string option"
  e_peers :: "nat \<Rightarrow> refs \<Rightarrow> refs"

record log_entry =
  lg_updates :: "RefUpdate list"
  lg_before :: refs
  lg_after :: refs
  lg_error :: "ref_error option"

record world =
  w_refs :: refs
  w_tick :: nat
  w_log :: "log_entry list"

text \<open>Every look at the references sees what the peers have made of them since the last one.\<close>

definition observe :: "'e ref_env_scheme \<Rightarrow> 'w world_scheme \<Rightarrow> 'w world_scheme" where
  "observe e w = w\<lparr>w_refs := e_peers e (w_tick w) (w_refs w), w_tick := Suc (w_tick w)\<rparr>"

definition UpdateRefsTx ::
  "'e ref_env_scheme \<Rightarrow> RefUpdate list \<Rightarrow> 'w world_scheme \<Rightarrow> ref_error option \<times> 'w world_scheme" where
  "UpdateRefsTx e us w =
     (if us = [] then (Some ErrEmptyTransaction, w)
      else case buildRefUpdateStdin us of
             Inl er \<Rightarrow> (Some er, w)
           | Inr script \<Rightarrow>
               let w1 = observe e w;
                   a = e_update e script (w_refs w1);
                   er = (case fst a of
                           TxOk \<Rightarrow> None
                         | TxTimeout \<Rightarrow> Some ErrUpdateRefTimeout
                         | TxFail stderr \<Rightarrow>
                             let msg = trim_space stderr in
                             if contains_str msg refCASRejectionMarker then Some ErrRefCASLost
                             else Some (ErrUpdateRef msg))
               in (er, w1\<lparr>w_refs := snd a, w_log := w_log w1 @
                     [\<lparr>lg_updates = us, lg_before = w_refs w1, lg_after = snd a, lg_error = er\<rparr>]\<rparr>))"

definition candidateRefPrefix :: string where "candidateRefPrefix = ''refs/loto/candidates/''"
definition proposalRefPrefix :: string where "proposalRefPrefix = ''refs/loto/proposals/''"
definition promotingRefPrefix :: string where "promotingRefPrefix = ''refs/loto/promoting/''"

definition candidateRef :: "string \<Rightarrow> string" where "candidateRef cid = candidateRefPrefix @ cid"
definition proposalRef :: "string \<Rightarrow> string" where "proposalRef cid = proposalRefPrefix @ cid"
definition promotingRef :: "string \<Rightarrow> string" where "promotingRef bid = promotingRefPrefix @ bid"

definition WriteCandidateRefs ::
  "'e ref_env_scheme \<Rightarrow> string \<Rightarrow> string \<Rightarrow> string \<Rightarrow> 'w world_scheme \<Rightarrow>
     ref_error option \<times> 'w world_scheme" where
  "WriteCandidateRefs e cid envelopeSHA proposalSHA w =
     UpdateRefsTx e
       [\<lparr>ru_Verb = VerbCreate, ru_Ref = candidateRef cid, ru_NewSHA = envelopeSHA, ru_OldSHA = []\<rparr>,
        \<lparr>ru_Verb = VerbCreate, ru_Ref = proposalRef cid, ru_NewSHA = proposalSHA, ru_OldSHA = []\<rparr>] w"

subsection \<open>Listings\<close>

text \<open>\<open>ListCandidateIDs\<close> and \<open>listRefsWithSHAs\<close> return \<open>None\<close> when git fails, which is never an empty
  list.  The map of the second is an association list without duplicate keys.\<close>

definition ListCandidateIDs ::
  "'e ref_env_scheme \<Rightarrow> (string \<Rightarrow> refs \<Rightarrow> string option) \<Rightarrow> 'w world_scheme \<Rightarrow>
     string list option \<times> 'w world_scheme" where
  "ListCandidateIDs e names w =
     (let w1 = observe e w in
      (case names candidateRefPrefix (w_refs w1) of
         None \<Rightarrow> None
       | Some out \<Rightarrow> Some (sort (map (\<lambda>l. trim_prefix l candidateRefPrefix)
           (filter (\<lambda>l. l \<noteq> []) (split_on NL (trim_space out))))), w1))"

fun parse_ref_lines :: "string \<Rightarrow> refs \<Rightarrow> string list \<Rightarrow> refs" where
  "parse_ref_lines pre acc [] = acc"
| "parse_ref_lines pre acc (l # ls) =
     (case cut_str [SP] l of
        None \<Rightarrow> parse_ref_lines pre acc ls
      | Some (name, sha) \<Rightarrow>
          if name = [] then parse_ref_lines pre acc ls
          else parse_ref_lines pre (AList.update (trim_prefix name pre) sha acc) ls)"

definition listRefsWithSHAs ::
  "'e ref_env_scheme \<Rightarrow> string \<Rightarrow> 'w world_scheme \<Rightarrow> refs option \<times> 'w world_scheme" where
  "listRefsWithSHAs e pre w =
     (let w1 = observe e w in
      (map_option (\<lambda>out. parse_ref_lines pre [] (split_on NL (trim_space out))) (e_for_each e pre (w_refs w1)), w1))"

subsection \<open>The integration ref\<close>

text \<open>\<open>head\<close> is what \<open>git rev-parse --verify HEAD\<close> prints; the ref is created there on first use.\<close>

definition read_integration :: "'e ref_env_scheme \<Rightarrow> refs \<Rightarrow> string option" where
  "read_integration e r = map_option trim_space (e_rev_parse e ''refs/loto/integration'' r)"

definition ResolveIntegrationRef ::
  "'e ref_env_scheme \<Rightarrow> string option \<Rightarrow> 'w world_scheme \<Rightarrow> string option \<times> 'w world_scheme" where
  "ResolveIntegrationRef e head w =
     (let w1 = observe e w in
      case read_integration e (w_refs w1) of
        Some sha \<Rightarrow> (Some sha, w1)
      | None \<Rightarrow>
          (case map_option trim_space head of
             None \<Rightarrow> (None, w1)
           | Some h \<Rightarrow>
               (case UpdateRefsTx e [\<lparr>ru_Verb = VerbCreate, ru_Ref = ''refs/loto/integration'',
                       ru_NewSHA = h, ru_OldSHA = []\<rparr>] w1 of
                  (None, w2) \<Rightarrow> (Some h, w2)
                | (Some er, w2) \<Rightarrow>
                    let w3 = observe e w2 in (read_integration e (w_refs w3), w3))))"

subsection \<open>What git documents\<close>

text \<open>The three commands against the references they are run on: \<open>create\<close> requires the name to be
  free, \<open>update\<close> and \<open>delete\<close> with an old value require the name to hold it.\<close>

definition upd_check :: "refs \<Rightarrow> RefUpdate \<Rightarrow> bool" where
  "upd_check r u \<longleftrightarrow>
     (if ru_Verb u = VerbCreate then map_of r (ru_Ref u) = None
      else ru_OldSHA u = [] \<or> map_of r (ru_Ref u) = Some (ru_OldSHA u))"

definition upd_apply :: "RefUpdate \<Rightarrow> refs \<Rightarrow> refs" where
  "upd_apply u r =
     (if ru_Verb u = VerbDelete then AList.delete (ru_Ref u) r
      else AList.update (ru_Ref u) (ru_NewSHA u) r)"

definition tx_checks :: "refs \<Rightarrow> RefUpdate list \<Rightarrow> bool" where
  "tx_checks r us \<longleftrightarrow> list_all (upd_check r) us"

definition tx_apply :: "RefUpdate list \<Rightarrow> refs \<Rightarrow> refs" where
  "tx_apply us r = fold upd_apply us r"

text \<open>A line git can parse back: the fields it uses are words, the ones it does not are empty.\<close>

definition ref_line_ok :: "RefUpdate \<Rightarrow> bool" where
  "ref_line_ok u \<longleftrightarrow> word (ru_Ref u) \<and>
     (if ru_Verb u = VerbCreate then word (ru_NewSHA u) \<and> ru_OldSHA u = []
      else if ru_Verb u = VerbUpdate then word (ru_NewSHA u) \<and> (ru_OldSHA u = [] \<or> word (ru_OldSHA u))
      else ru_Verb u = VerbDelete \<and> ru_NewSHA u = [] \<and> (ru_OldSHA u = [] \<or> word (ru_OldSHA u)))"

text \<open>The transaction is atomic.  A success means every check held and every line was applied; a
  rejected old value means nothing was; any other failure (the process may have been killed after
  the commit) leaves one of the two.\<close>

definition documented_update_ref :: "(string \<Rightarrow> refs \<Rightarrow> tx_answer \<times> refs) \<Rightarrow> bool" where
  "documented_update_ref upd \<longleftrightarrow>
     (\<forall>us script r. us \<noteq> [] \<longrightarrow> list_all ref_line_ok us \<longrightarrow> buildRefUpdateStdin us = Inr script \<longrightarrow>
        (case upd script r of
           (TxOk, r') \<Rightarrow> tx_checks r us \<and> r' = tx_apply us r
         | (TxFail stderr, r') \<Rightarrow>
             r' = r \<or> (tx_checks r us \<and> r' = tx_apply us r \<and>
                       \<not> contains_str (trim_space stderr) refCASRejectionMarker)
         | (TxTimeout, r') \<Rightarrow> r' = r \<or> (tx_checks r us \<and> r' = tx_apply us r)))"

text \<open>References have distinct names, and names and objects are words.\<close>

definition clean_refs :: "refs \<Rightarrow> bool" where
  "clean_refs r \<longleftrightarrow> distinct (map fst r) \<and> list_all (\<lambda>x. word (fst x) \<and> word (snd x)) r"

definition ref_line :: "string \<times> string \<Rightarrow> string" where
  "ref_line x = fst x @ [SP] @ snd x @ [NL]"

text \<open>\<open>for-each-ref\<close> prints one line per reference below the prefix.\<close>

definition under :: "string \<Rightarrow> refs \<Rightarrow> refs" where
  "under pre r = filter (\<lambda>x. has_prefix (fst x) pre \<and> fst x \<noteq> pre) r"

definition documented_for_each_ref :: "(string \<Rightarrow> refs \<Rightarrow> string option) \<Rightarrow> bool" where
  "documented_for_each_ref fer \<longleftrightarrow>
     (\<forall>pre r out. fer pre r = Some out \<longrightarrow> out = concat (map ref_line (under pre r)))"

definition documented_rev_parse :: "(string \<Rightarrow> refs \<Rightarrow> string option) \<Rightarrow> bool" where
  "documented_rev_parse rp \<longleftrightarrow>
     (\<forall>n r out. rp n r = Some out \<longrightarrow> (\<exists>sha. map_of r n = Some sha \<and> out = sha @ [NL]))"

subsection \<open>Reading the script back\<close>

definition parse_ref_line :: "string \<Rightarrow> RefUpdate option" where
  "parse_ref_line l =
     (case split_on SP l of
        [v, r] \<Rightarrow> if v = VerbDelete then Some \<lparr>ru_Verb = v, ru_Ref = r, ru_NewSHA = [], ru_OldSHA = []\<rparr> else None
      | [v, r, x] \<Rightarrow>
          if v = VerbDelete then Some \<lparr>ru_Verb = v, ru_Ref = r, ru_NewSHA = [], ru_OldSHA = x\<rparr>
          else if v = VerbCreate \<or> v = VerbUpdate then Some \<lparr>ru_Verb = v, ru_Ref = r, ru_NewSHA = x, ru_OldSHA = []\<rparr>
          else None
      | [v, r, x, y] \<Rightarrow>
          if v = VerbUpdate then Some \<lparr>ru_Verb = v, ru_Ref = r, ru_NewSHA = x, ru_OldSHA = y\<rparr> else None
      | _ \<Rightarrow> None)"

fun parse_ref_body :: "string list \<Rightarrow> RefUpdate list option" where
  "parse_ref_body [] = None"
| "parse_ref_body (l # ls) =
     (if l = ''commit'' then (if ls = [[]] then Some [] else None)
      else case parse_ref_line l of
             None \<Rightarrow> None
           | Some u \<Rightarrow> map_option ((#) u) (parse_ref_body ls))"

definition parse_ref_script :: "string \<Rightarrow> RefUpdate list option" where
  "parse_ref_script script =
     (case split_on NL script of
        l # ls \<Rightarrow> if l = ''start'' then parse_ref_body ls else None
      | [] \<Rightarrow> None)"

lemma writeRefUpdateLine_ok:
  assumes "ref_line_ok u"
  obtains l where "writeRefUpdateLine u = Inr (l @ [NL])" "NL \<notin> set l" "l \<noteq> ''commit''" "parse_ref_line l = Some u"
proof -
  have r: "NL \<notin> set (ru_Ref u)" "SP \<notin> set (ru_Ref u)"
    using assms by (auto simp: ref_line_ok_def word_free)
  let ?old = "if ru_OldSHA u \<noteq> [] then [SP] @ ru_OldSHA u else []"
  have old: "ru_OldSHA u = [] \<or> NL \<notin> set (ru_OldSHA u) \<and> SP \<notin> set (ru_OldSHA u)"
    using assms by (auto simp: ref_line_ok_def word_free split: if_splits)
  consider (c) "ru_Verb u = VerbCreate" | (u) "ru_Verb u = VerbUpdate" | (d) "ru_Verb u = VerbDelete"
    using assms by (auto simp: ref_line_ok_def split: if_splits)
  then show thesis
  proof cases
    case c
    then have n: "NL \<notin> set (ru_NewSHA u)" "SP \<notin> set (ru_NewSHA u)" "ru_OldSHA u = []"
      using assms by (auto simp: ref_line_ok_def word_free)
    let ?l = "VerbCreate @ SP # (ru_Ref u @ SP # ru_NewSHA u)"
    have "SP \<notin> set VerbCreate" by (simp add: VerbCreate_def SP_def)
    then have "split_on SP ?l = [VerbCreate, ru_Ref u, ru_NewSHA u]" using r n by simp
    then have "parse_ref_line ?l = Some u"
      using n c by (cases u) (simp add: parse_ref_line_def VerbCreate_def VerbDelete_def)
    moreover have "writeRefUpdateLine u = Inr (?l @ [NL])"
      using c by (simp add: writeRefUpdateLine_def VerbCreate_def SP_def)
    ultimately show thesis using r n by (intro that) (auto simp: VerbCreate_def NL_def SP_def)
  next
    case u
    then have n: "NL \<notin> set (ru_NewSHA u)" "SP \<notin> set (ru_NewSHA u)"
      using assms by (auto simp: ref_line_ok_def word_free VerbCreate_def VerbUpdate_def)
    let ?l = "VerbUpdate @ SP # (ru_Ref u @ SP # (ru_NewSHA u @ ?old))"
    have v: "SP \<notin> set VerbUpdate" by (simp add: VerbUpdate_def SP_def)
    have "split_on SP ?l = [VerbUpdate, ru_Ref u, ru_NewSHA u] @ (if ru_OldSHA u \<noteq> [] then [ru_OldSHA u] else [])"
      using r n v old by auto
    then have "parse_ref_line ?l = Some u"
      using u by (cases u) (simp add: parse_ref_line_def VerbUpdate_def VerbCreate_def VerbDelete_def)
    moreover have "writeRefUpdateLine u = Inr (?l @ [NL])"
      using u by (simp add: writeRefUpdateLine_def VerbUpdate_def VerbCreate_def SP_def)
    ultimately show thesis using r n old by (intro that) (auto simp: VerbUpdate_def NL_def SP_def)
  next
    case d
    then have n: "ru_NewSHA u = []"
      using assms by (auto simp: ref_line_ok_def VerbCreate_def VerbUpdate_def VerbDelete_def)
    let ?l = "VerbDelete @ SP # (ru_Ref u @ ?old)"
    have v: "SP \<notin> set VerbDelete" by (simp add: VerbDelete_def SP_def)
    have "split_on SP ?l = [VerbDelete, ru_Ref u] @ (if ru_OldSHA u \<noteq> [] then [ru_OldSHA u] else [])"
      using r v old by auto
    then have "parse_ref_line ?l = Some u"
      using d n by (cases u) (simp add: parse_ref_line_def VerbDelete_def)
    moreover have "writeRefUpdateLine u = Inr (?l @ [NL])"
      using d by (simp add: writeRefUpdateLine_def VerbUpdate_def VerbCreate_def VerbDelete_def SP_def)
    ultimately show thesis using r old by (intro that) (auto simp: VerbDelete_def NL_def SP_def)
  qed
qed

lemma ref_update_lines_ok:
  assumes "list_all ref_line_ok us"
  shows "\<exists>ls. ref_update_lines us = Inr ls \<and>
    parse_ref_body (split_on NL (ls @ ''commit'' @ [NL])) = Some us"
  using assms
proof (induction us)
  case Nil
  have "split_on NL (''commit'' @ [NL]) = [''commit'', []]" by (simp add: NL_def)
  then show ?case by simp
next
  case (Cons u us)
  then obtain ls where ls: "ref_update_lines us = Inr ls"
    "parse_ref_body (split_on NL (ls @ ''commit'' @ [NL])) = Some us" by auto
  have "ref_line_ok u" using Cons.prems by simp
  then obtain l where l: "writeRefUpdateLine u = Inr (l @ [NL])" "NL \<notin> set l" "l \<noteq> ''commit''"
    "parse_ref_line l = Some u" by (rule writeRefUpdateLine_ok)
  have "split_on NL ((l @ [NL] @ ls) @ ''commit'' @ [NL]) = l # split_on NL (ls @ ''commit'' @ [NL])"
    using l(2) by simp
  with l ls show ?case by simp
qed

lemma build_parse:
  assumes "list_all ref_line_ok us"
  shows "\<exists>script. buildRefUpdateStdin us = Inr script \<and> parse_ref_script script = Some us"
proof -
  obtain ls where ls: "ref_update_lines us = Inr ls"
    "parse_ref_body (split_on NL (ls @ ''commit'' @ [NL])) = Some us"
    using ref_update_lines_ok [OF assms] by blast
  have "NL \<notin> set ''start''" by (simp add: NL_def)
  then have "split_on NL (''start'' @ [NL] @ ls @ ''commit'' @ [NL]) = ''start'' # split_on NL (ls @ ''commit'' @ [NL])"
    using split_on_append_sep [of NL "''start''" "ls @ ''commit'' @ [NL]"] by (simp add: NL_def)
  with ls show ?thesis by (simp add: buildRefUpdateStdin_def parse_ref_script_def)
qed

subsection \<open>An implementation of \<open>update-ref\<close>\<close>

definition ex_update_ref :: "string \<Rightarrow> refs \<Rightarrow> tx_answer \<times> refs" where
  "ex_update_ref script r =
     (case parse_ref_script script of
        None \<Rightarrow> (TxFail ''fatal: unknown command'', r)
      | Some us \<Rightarrow>
          if tx_checks r us then (TxOk, tx_apply us r)
          else (TxFail ''fatal: cannot lock ref: is at x but expected y'', r))"

lemma ex_update_ref_documented: "documented_update_ref ex_update_ref"
  unfolding documented_update_ref_def
proof (intro allI impI)
  fix us script r
  assume "us \<noteq> []" "list_all ref_line_ok us" "buildRefUpdateStdin us = Inr script"
  with build_parse [of us] have "parse_ref_script script = Some us" by auto
  then show "case ex_update_ref script r of
       (TxOk, r') \<Rightarrow> tx_checks r us \<and> r' = tx_apply us r
     | (TxFail stderr, r') \<Rightarrow> r' = r \<or> (tx_checks r us \<and> r' = tx_apply us r \<and>
         \<not> contains_str (trim_space stderr) refCASRejectionMarker)
     | (TxTimeout, r') \<Rightarrow> r' = r \<or> (tx_checks r us \<and> r' = tx_apply us r)"
    by (simp add: ex_update_ref_def)
qed

definition ex_for_each :: "string \<Rightarrow> refs \<Rightarrow> string option" where
  "ex_for_each pre r = Some (concat (map ref_line (under pre r)))"

definition ex_rev_parse :: "string \<Rightarrow> refs \<Rightarrow> string option" where
  "ex_rev_parse n r = map_option (\<lambda>sha. sha @ [NL]) (map_of r n)"

lemma ex_listings_documented: "documented_for_each_ref ex_for_each" "documented_rev_parse ex_rev_parse"
  by (auto simp: documented_for_each_ref_def documented_rev_parse_def ex_for_each_def ex_rev_parse_def)

subsection \<open>What a transaction does\<close>

lemma map_of_upd_apply:
  "map_of (upd_apply u r) =
     (map_of r)(ru_Ref u := if ru_Verb u = VerbDelete then None else Some (ru_NewSHA u))"
  by (simp add: upd_apply_def update_conv' delete_conv')

lemma map_of_tx_other:
  "n \<notin> ru_Ref ` set us \<Longrightarrow> map_of (tx_apply us r) n = map_of r n"
  unfolding tx_apply_def by (induction us arbitrary: r) (auto simp: map_of_upd_apply)

lemma map_of_tx_apply:
  assumes "distinct (map ru_Ref us)" "u \<in> set us"
  shows "map_of (tx_apply us r) (ru_Ref u) = (if ru_Verb u = VerbDelete then None else Some (ru_NewSHA u))"
  using assms
proof (induction us arbitrary: r)
  case Nil
  then show ?case by simp
next
  case (Cons v us)
  show ?case
  proof (cases "u = v")
    case True
    have "ru_Ref u \<notin> ru_Ref ` set us" using Cons.prems(1) True by auto
    then show ?thesis using True map_of_tx_other [of "ru_Ref u" us "upd_apply v r"]
      by (simp add: tx_apply_def map_of_upd_apply)
  next
    case False
    with Cons show ?thesis by (simp add: tx_apply_def)
  qed
qed

lemma upd_apply_set: "set (upd_apply u r) \<subseteq> insert (ru_Ref u, ru_NewSHA u) (set r)"
proof -
  have "set (AList.update k v xs) \<subseteq> insert (k, v) (set xs)" for k v and xs :: refs
    by (induction xs) auto
  moreover have "set (AList.delete k xs) \<subseteq> set xs" for k and xs :: refs
    by (auto simp: AList.delete_eq)
  ultimately show ?thesis
    by (cases "ru_Verb u = VerbDelete") (simp_all add: upd_apply_def subset_insertI2)
qed

lemma upd_apply_clean:
  assumes "clean_refs r" "ref_line_ok u"
  shows "clean_refs (upd_apply u r)"
proof (cases "ru_Verb u = VerbDelete")
  case True
  have "set (AList.delete (ru_Ref u) r) \<subseteq> set r" by (auto simp: AList.delete_eq)
  with True assms(1) show ?thesis
    using distinct_delete [of r "ru_Ref u"] by (auto simp: clean_refs_def upd_apply_def list_all_iff)
next
  case False
  then have "word (ru_Ref u)" "word (ru_NewSHA u)" using assms(2) by (auto simp: ref_line_ok_def split: if_splits)
  with assms(1) upd_apply_set [of u r] False show ?thesis
    by (auto simp: clean_refs_def upd_apply_def distinct_update list_all_iff)
qed

lemma tx_apply_clean: "clean_refs r \<Longrightarrow> list_all ref_line_ok us \<Longrightarrow> clean_refs (tx_apply us r)"
  unfolding tx_apply_def by (induction us arbitrary: r) (simp_all add: upd_apply_clean)

lemma tx_checkD: "tx_checks r us \<Longrightarrow> u \<in> set us \<Longrightarrow> ru_Verb u \<noteq> VerbCreate \<Longrightarrow> ru_OldSHA u \<noteq> [] \<Longrightarrow>
   map_of r (ru_Ref u) = Some (ru_OldSHA u)"
  by (auto simp: tx_checks_def list_all_iff upd_check_def)

text \<open>One call: the log grows by one entry, and the entry is atomic.\<close>

definition entry_atomic :: "log_entry \<Rightarrow> bool" where
  "entry_atomic g \<longleftrightarrow>
     (case lg_error g of
        None \<Rightarrow> tx_checks (lg_before g) (lg_updates g) \<and> lg_after g = tx_apply (lg_updates g) (lg_before g)
      | Some er \<Rightarrow> lg_after g = lg_before g \<or>
          (er \<noteq> ErrRefCASLost \<and> tx_checks (lg_before g) (lg_updates g) \<and>
           lg_after g = tx_apply (lg_updates g) (lg_before g)))"

lemma UpdateRefsTx_log:
  assumes "UpdateRefsTx e us w = (er, w')" "us \<noteq> []" "list_all ref_line_ok us"
    and "documented_update_ref (e_update e)"
  obtains g where "w_log w' = w_log w @ [g]" "lg_updates g = us" "lg_error g = er" "entry_atomic g"
    "lg_before g = e_peers e (w_tick w) (w_refs w)" "w_refs w' = lg_after g" "w_tick w' = Suc (w_tick w)"
    "world.more w' = world.more w"
proof -
  obtain script where sc: "buildRefUpdateStdin us = Inr script" using build_parse [OF assms(3)] by blast
  let ?r = "e_peers e (w_tick w) (w_refs w)"
  obtain a r' where a: "e_update e script ?r = (a, r')" by (cases "e_update e script ?r")
  have law: "case (a, r') of
       (TxOk, r') \<Rightarrow> tx_checks ?r us \<and> r' = tx_apply us ?r
     | (TxFail stderr, r') \<Rightarrow> r' = ?r \<or> (tx_checks ?r us \<and> r' = tx_apply us ?r \<and>
         \<not> contains_str (trim_space stderr) refCASRejectionMarker)
     | (TxTimeout, r') \<Rightarrow> r' = ?r \<or> (tx_checks ?r us \<and> r' = tx_apply us ?r)"
    using assms(4) [unfolded documented_update_ref_def, rule_format, OF assms(2,3) sc, of ?r] unfolding a .
  let ?er = "case a of TxOk \<Rightarrow> None | TxTimeout \<Rightarrow> Some ErrUpdateRefTimeout
     | TxFail stderr \<Rightarrow> if contains_str (trim_space stderr) refCASRejectionMarker then Some ErrRefCASLost
                          else Some (ErrUpdateRef (trim_space stderr))"
  let ?g = "\<lparr>lg_updates = us, lg_before = ?r, lg_after = r', lg_error = ?er\<rparr>"
  have w: "(er, w') = (?er, (observe e w)\<lparr>w_refs := r', w_log := w_log w @ [?g]\<rparr>)"
    using assms(1,2) sc a by (cases a) (auto simp: UpdateRefsTx_def Let_def observe_def split: if_splits)
  have "entry_atomic ?g" using law by (auto simp: entry_atomic_def split: tx_answer.splits)
  with w show thesis by (intro that [of ?g]) (simp_all add: observe_def)
qed

subsection \<open>What a listing yields\<close>

definition strip_keys :: "string \<Rightarrow> refs \<Rightarrow> refs" where
  "strip_keys pre r = map (\<lambda>x. (trim_prefix (fst x) pre, snd x)) r"

lemma ref_line_words:
  assumes "list_all (\<lambda>x. word (fst x) \<and> word (snd x)) xs" "xs \<noteq> []"
  shows "split_on NL (trim_space (concat (map ref_line xs))) = map (\<lambda>x. fst x @ SP # snd x) xs"
proof -
  let ?ls = "map (\<lambda>x. fst x @ SP # snd x) xs"
  have free: "NL \<notin> set (fst x @ SP # snd x)" if "x \<in> set xs" for x
  proof -
    have "word (fst x)" "word (snd x)" using that assms(1) by (simp_all add: list_all_iff)
    moreover have "NL \<noteq> SP" by (simp add: NL_def SP_def)
    ultimately show ?thesis by (simp add: word_free)
  qed
  have j: "concat (map ref_line xs) = join_with [NL] ?ls @ [NL]"
    using assms(2)
  proof (induction xs)
    case (Cons x xs)
    then show ?case by (cases "xs = []") (simp_all add: ref_line_def join_with_Cons)
  qed simp
  let ?t = "join_with [NL] ?ls"
  obtain x ys where x: "xs = x # ys" using assms(2) by (cases xs) auto
  have hd: "?t \<noteq> [] \<and> \<not> is_space (hd ?t)"
  proof -
    have "fst x \<noteq> []" "\<not> is_space (hd (fst x))" using assms(1) x by (auto simp: word_def list_all_iff)
    then show ?thesis by (cases "ys = []") (simp_all add: x join_with_Cons)
  qed
  have last: "\<not> is_space (last ?t)"
    using assms
  proof (induction xs)
    case (Cons z zs)
    show ?case
    proof (cases "zs = []")
      case True
      then show ?thesis using Cons.prems by (auto simp: word_def list_all_iff)
    next
      case False
      then have "join_with [NL] (map (\<lambda>x. fst x @ SP # snd x) zs) \<noteq> []"
        by (cases zs; cases "tl zs = []") (auto simp: join_with_Cons)
      with Cons False show ?thesis by (simp add: join_with_Cons)
    qed
  qed simp
  have "trim_space (?t @ [NL]) = trim_space ?t"
  proof -
    have "is_space NL" by (simp add: is_space_def NL_def)
    moreover have "dropWhile is_space (?t @ [NL]) = ?t @ [NL]" "dropWhile is_space ?t = ?t"
      using hd by (simp_all add: dropWhile_eq_self_iff)
    ultimately show ?thesis by (simp add: trim_space_def)
  qed
  also have "\<dots> = ?t" using hd last by (intro trim_space_word) auto
  finally have t: "trim_space (?t @ [NL]) = ?t" .
  have "split_on NL ?t = ?ls"
  proof (rule split_join)
    show "?ls \<noteq> []" using assms(2) by simp
    show "\<forall>w \<in> set ?ls. NL \<notin> set w" using free by auto
  qed
  then show ?thesis unfolding j t .
qed

lemma parse_ref_lines_words:
  assumes "list_all (\<lambda>x. word (fst x)) xs" "distinct (map fst (acc @ strip_keys pre xs))"
  shows "parse_ref_lines pre acc (map (\<lambda>x. fst x @ SP # snd x) xs) = acc @ strip_keys pre xs"
  using assms
proof (induction xs arbitrary: acc)
  case Nil
  then show ?case by (simp add: strip_keys_def)
next
  case (Cons x xs)
  let ?k = "trim_prefix (fst x) pre"
  have w: "word (fst x)" using Cons.prems(1) by simp
  then have cut: "cut_str [SP] (fst x @ SP # snd x) = Some (fst x, snd x)" "fst x \<noteq> []"
    by (simp_all add: cut_char word_free) (simp add: word_def)
  have new: "?k \<notin> fst ` set acc" using Cons.prems(2) by (auto simp: strip_keys_def)
  then have u: "AList.update ?k (snd x) acc = acc @ [(?k, snd x)]"
    by (induction acc) auto
  have "parse_ref_lines pre (acc @ [(?k, snd x)]) (map (\<lambda>x. fst x @ SP # snd x) xs) =
      (acc @ [(?k, snd x)]) @ strip_keys pre xs"
    using Cons.prems by (intro Cons.IH) (simp_all add: strip_keys_def)
  then show ?case by (cases x) (use cut u in \<open>simp add: strip_keys_def\<close>)
qed

lemma trim_prefix_under: "x \<in> set (under pre r) \<Longrightarrow> fst x = pre @ trim_prefix (fst x) pre"
  by (auto simp: under_def trim_prefix_def prefix_def)

lemma strip_under_distinct:
  assumes "distinct (map fst r)"
  shows "distinct (map fst (strip_keys pre (under pre r)))"
proof -
  have "inj_on (\<lambda>x. trim_prefix (fst x) pre) (set (under pre r))"
  proof (rule inj_onI)
    fix x y assume m: "x \<in> set (under pre r)" "y \<in> set (under pre r)"
      and "trim_prefix (fst x) pre = trim_prefix (fst y) pre"
    then have "fst x = fst y" using trim_prefix_under by metis
    with m assms show "x = y" by (auto simp: under_def distinct_map inj_on_def)
  qed
  moreover have "distinct (under pre r)" using assms by (simp add: under_def distinct_map)
  ultimately show ?thesis by (simp add: strip_keys_def distinct_map comp_def)
qed

lemma listing_exact:
  assumes "clean_refs r"
  shows "parse_ref_lines pre [] (split_on NL (trim_space (concat (map ref_line (under pre r))))) =
    strip_keys pre (under pre r)"
proof (cases "under pre r = []")
  case True
  then show ?thesis by (simp add: strip_keys_def trim_space_def)
next
  case False
  have w: "list_all (\<lambda>x. word (fst x) \<and> word (snd x)) (under pre r)"
    using assms by (auto simp: clean_refs_def under_def list_all_iff)
  then have "list_all (\<lambda>x. word (fst x)) (under pre r)" by (simp add: list_all_iff)
  moreover have "distinct (map fst ([] @ strip_keys pre (under pre r)))"
    using strip_under_distinct assms by (simp add: clean_refs_def)
  ultimately show ?thesis unfolding ref_line_words [OF w False] by (subst parse_ref_lines_words) simp_all
qed

lemma map_of_strip:
  assumes "clean_refs r" "cid \<noteq> []"
  shows "map_of (strip_keys pre (under pre r)) cid = map_of r (pre @ cid)"
proof -
  have "map_of (strip_keys pre (under pre r)) cid = Some v \<longleftrightarrow> map_of r (pre @ cid) = Some v" for v
  proof -
    have "map_of (strip_keys pre (under pre r)) cid = Some v \<longleftrightarrow> (cid, v) \<in> set (strip_keys pre (under pre r))"
      using strip_under_distinct [of r pre] assms(1) by (simp add: clean_refs_def map_of_eq_Some_iff)
    also have "\<dots> \<longleftrightarrow> (pre @ cid, v) \<in> set r"
    proof
      assume "(cid, v) \<in> set (strip_keys pre (under pre r))"
      then obtain x where "x \<in> set (under pre r)" "cid = trim_prefix (fst x) pre" "v = snd x"
        by (auto simp: strip_keys_def)
      then show "(pre @ cid, v) \<in> set r" using trim_prefix_under [of x pre r] by (auto simp: under_def)
    next
      assume "(pre @ cid, v) \<in> set r"
      then have "(pre @ cid, v) \<in> set (under pre r)" using assms(2) by (simp add: under_def)
      then show "(cid, v) \<in> set (strip_keys pre (under pre r))"
        unfolding strip_keys_def by (auto simp: trim_prefix_def intro!: rev_image_eqI)
    qed
    finally show ?thesis using assms(1) by (simp add: clean_refs_def map_of_eq_Some_iff)
  qed
  then show ?thesis by (metis not_None_eq)
qed

lemma listRefsWithSHAs_spec:
  assumes "listRefsWithSHAs e pre w = (Some m, w')" "documented_for_each_ref (e_for_each e)"
    and "clean_refs (e_peers e (w_tick w) (w_refs w))"
  shows "m = strip_keys pre (under pre (w_refs w'))" "w' = observe e w"
proof -
  from assms(1) obtain out where o: "e_for_each e pre (w_refs (observe e w)) = Some out" "w' = observe e w"
    "m = parse_ref_lines pre [] (split_on NL (trim_space out))"
    unfolding listRefsWithSHAs_def Let_def prod.inject map_option_eq_Some by blast
  show "w' = observe e w" by (rule o(2))
  have out: "out = concat (map ref_line (under pre (w_refs (observe e w))))"
    using assms(2) o(1) unfolding documented_for_each_ref_def by blast
  have "clean_refs (w_refs (observe e w))" using assms(3) by (simp add: observe_def)
  from listing_exact [OF this, of pre] show "m = strip_keys pre (under pre (w_refs w'))"
    unfolding o(2,3) out .
qed

text \<open>All of it together; git refuses names with blanks, so what the peers leave stays clean.\<close>

definition documented_git :: "'e ref_env_scheme \<Rightarrow> bool" where
  "documented_git e \<longleftrightarrow>
     documented_update_ref (e_update e) \<and> documented_for_each_ref (e_for_each e) \<and>
     documented_rev_parse (e_rev_parse e) \<and> (\<forall>n r. clean_refs r \<longrightarrow> clean_refs (e_peers e n r))"

lemma observe_clean: "documented_git e \<Longrightarrow> clean_refs (w_refs w) \<Longrightarrow> clean_refs (w_refs (observe e w))"
  by (simp add: documented_git_def observe_def)

lemma entry_clean:
  "entry_atomic g \<Longrightarrow> clean_refs (lg_before g) \<Longrightarrow> list_all ref_line_ok (lg_updates g) \<Longrightarrow> clean_refs (lg_after g)"
  by (auto simp: entry_atomic_def tx_apply_clean split: option.splits)

lemma UpdateRefsTx_clean:
  assumes "UpdateRefsTx e us w = (er, w')" "us \<noteq> []" "list_all ref_line_ok us" "documented_git e" "clean_refs (w_refs w)"
  shows "clean_refs (w_refs w')"
proof -
  have "documented_update_ref (e_update e)" using assms(4) by (simp add: documented_git_def)
  from UpdateRefsTx_log [OF assms(1-3) this] obtain g where g: "lg_updates g = us" "entry_atomic g"
    "lg_before g = e_peers e (w_tick w) (w_refs w)" "w_refs w' = lg_after g" by metis
  have "clean_refs (lg_before g)" using assms(4,5) g(3) by (simp add: documented_git_def)
  from entry_clean [OF g(2) this] assms(3) g(1,4) show ?thesis by simp
qed

lemma read_integration_value:
  assumes "read_integration e r = Some sha" "documented_rev_parse (e_rev_parse e)" "clean_refs r"
  shows "map_of r ''refs/loto/integration'' = Some sha" "word sha"
proof -
  obtain out where o: "e_rev_parse e ''refs/loto/integration'' r = Some out" "sha = trim_space out"
    using assms(1) by (auto simp: read_integration_def)
  then obtain x where x: "map_of r ''refs/loto/integration'' = Some x" "out = x @ [NL]"
    using assms(2) unfolding documented_rev_parse_def by blast
  then have "word x" using assms(3) by (auto simp: clean_refs_def list_all_iff dest!: map_of_SomeD)
  moreover have "trim_space (x @ [NL]) = trim_space x" if "word x"
  proof -
    have "dropWhile is_space (x @ [NL]) = x @ [NL]" "dropWhile is_space x = x" "is_space NL"
      using that by (simp_all add: word_def list_all_iff dropWhile_eq_self_iff is_space_def NL_def)
    then show ?thesis by (simp add: trim_space_def)
  qed
  ultimately have "sha = x" using o(2) x(2) by simp
  with x \<open>word x\<close> show "map_of r ''refs/loto/integration'' = Some sha" "word sha" by simp_all
qed

lemma integration_word: "word ''refs/loto/integration''"
  by code_simp

lemma resolve_integration:
  assumes "ResolveIntegrationRef e head w = (Some sha, w')" "documented_git e" "clean_refs (w_refs w)"
    and "\<And>h. head = Some h \<Longrightarrow> word (trim_space h)"
  shows "map_of (w_refs w') ''refs/loto/integration'' = Some sha \<and> word sha \<and> clean_refs (w_refs w')"
proof -
  let ?w1 = "observe e w"
  have rp: "documented_rev_parse (e_rev_parse e)" and up: "documented_update_ref (e_update e)"
    using assms(2) by (simp_all add: documented_git_def)
  have c1: "clean_refs (w_refs ?w1)" by (rule observe_clean [OF assms(2,3)])
  show ?thesis
  proof (cases "read_integration e (w_refs ?w1)")
    case (Some x)
    with assms(1) have "x = sha" "w' = ?w1" by (simp_all add: ResolveIntegrationRef_def Let_def)
    with read_integration_value [OF Some rp c1] c1 show ?thesis by simp
  next
    case None
    then obtain h0 where h: "head = Some h0"
      using assms(1) by (cases head) (simp_all add: ResolveIntegrationRef_def Let_def)
    let ?u = "\<lparr>ru_Verb = VerbCreate, ru_Ref = ''refs/loto/integration'', ru_NewSHA = trim_space h0, ru_OldSHA = []\<rparr>"
    have ok: "list_all ref_line_ok [?u]"
      using assms(4) [OF h] by (simp add: ref_line_ok_def integration_word VerbCreate_def)
    obtain er w2 where u: "UpdateRefsTx e [?u] ?w1 = (er, w2)" by (cases "UpdateRefsTx e [?u] ?w1")
    note c2 = UpdateRefsTx_clean [OF u _ ok assms(2) c1, simplified]
    show ?thesis
    proof (cases er)
      case None
      with assms(1) \<open>read_integration e (w_refs ?w1) = None\<close> h u have s: "sha = trim_space h0" "w' = w2"
        by (simp_all add: ResolveIntegrationRef_def Let_def)
      obtain g where g: "lg_updates g = [?u]" "lg_error g = er" "entry_atomic g" "w_refs w2 = lg_after g"
        using UpdateRefsTx_log [OF u _ ok up] by (metis list.distinct(1))
      then have "w_refs w2 = tx_apply [?u] (lg_before g)" using None by (simp add: entry_atomic_def)
      then have "map_of (w_refs w2) ''refs/loto/integration'' = Some sha"
        using map_of_tx_apply [of "[?u]" ?u "lg_before g"] s by (simp add: VerbCreate_def VerbDelete_def)
      with c2 s assms(4) [OF h] show ?thesis by simp
    next
      case (Some er')
      let ?w3 = "observe e w2"
      from assms(1) \<open>read_integration e (w_refs ?w1) = None\<close> h u Some
      have r: "read_integration e (w_refs ?w3) = Some sha" "w' = ?w3"
        by (auto simp: ResolveIntegrationRef_def Let_def)
      have c3: "clean_refs (w_refs ?w3)" by (rule observe_clean [OF assms(2) c2])
      from read_integration_value [OF r(1) rp c3] r(2) c3 show ?thesis by simp
    qed
  qed
qed

subsection \<open>A repository\<close>

definition ex_ref_env :: ref_env where
  "ex_ref_env = \<lparr>e_update = ex_update_ref, e_for_each = ex_for_each, e_rev_parse = ex_rev_parse, e_peers = (\<lambda>_ r. r)\<rparr>"

definition ex_world :: world where
  "ex_world = \<lparr>w_refs = [(''refs/loto/candidates/c-1'', ''e5''), (''refs/loto/proposals/c-1'', ''p7''),
     (''refs/loto/integration'', ''a1'')], w_tick = 0, w_log = []\<rparr>"

lemma ex_ref_env_documented: "documented_git ex_ref_env"
  by (simp add: documented_git_def ex_ref_env_def ex_update_ref_documented ex_listings_documented)

subsection \<open>Properties\<close>

text \<open>The transaction script says what was asked: for updates whose fields are words, the rendering
  succeeds and a parser of git's script format reads exactly those updates back, in order.\<close>

theorem buildRefUpdateStdin_roundtrip:
  assumes "list_all ref_line_ok us"
  shows "\<exists>script. buildRefUpdateStdin us = Inr script \<and> parse_ref_script script = Some us"
  by (rule build_parse [OF assms])

theorem buildRefUpdateStdin_roundtrip_witness:
  "\<exists>script. buildRefUpdateStdin
       [\<lparr>ru_Verb = VerbUpdate, ru_Ref = ''refs/loto/integration'', ru_NewSHA = ''b2'', ru_OldSHA = ''a1''\<rparr>,
        \<lparr>ru_Verb = VerbDelete, ru_Ref = candidateRef ''c-1'', ru_NewSHA = [], ru_OldSHA = ''e5''\<rparr>] = Inr script \<and>
     length (split_on NL script) = 5"
proof -
  let ?us = "[\<lparr>ru_Verb = VerbUpdate, ru_Ref = ''refs/loto/integration'', ru_NewSHA = ''b2'', ru_OldSHA = ''a1''\<rparr>,
     \<lparr>ru_Verb = VerbDelete, ru_Ref = candidateRef ''c-1'', ru_NewSHA = [], ru_OldSHA = ''e5''\<rparr>]"
  have "list_all ref_line_ok ?us" by code_simp
  from buildRefUpdateStdin_roundtrip [OF this] obtain script where s: "buildRefUpdateStdin ?us = Inr script" by blast
  have "case buildRefUpdateStdin ?us of Inl _ \<Rightarrow> False | Inr sc \<Rightarrow> length (split_on NL sc) = 5" by code_simp
  with s show ?thesis by auto
qed

text \<open>The listing is faithful: on references git would accept, \<open>listRefsWithSHAs\<close> returns exactly the
  references below the prefix, each under its name without the prefix; a failed read is no map at
  all, never the empty one.\<close>

theorem listRefsWithSHAs_exact:
  assumes "documented_for_each_ref (e_for_each e)" "clean_refs (e_peers e (w_tick w) (w_refs w))"
    and "listRefsWithSHAs e pre w = (Some m, w')" "cid \<noteq> []"
  shows "map_of m cid = map_of (w_refs w') (pre @ cid)"
proof -
  have "clean_refs (w_refs w')"
    using listRefsWithSHAs_spec(2) [OF assms(3,1,2)] assms(2) by (simp add: observe_def)
  then show ?thesis unfolding listRefsWithSHAs_spec(1) [OF assms(3,1,2)] using assms(4) by (rule map_of_strip)
qed

theorem listRefsWithSHAs_exact_witness:
  "case listRefsWithSHAs ex_ref_env candidateRefPrefix ex_world of
     (None, w) \<Rightarrow> False | (Some m, w) \<Rightarrow> map_of m ''c-1'' = Some ''e5''"
proof -
  have c: "clean_refs (e_peers ex_ref_env (w_tick ex_world) (w_refs ex_world))" by code_simp
  have d: "documented_for_each_ref (e_for_each ex_ref_env)"
    by (simp add: ex_ref_env_def ex_listings_documented)
  have "fst (listRefsWithSHAs ex_ref_env candidateRefPrefix ex_world) \<noteq> None" by code_simp
  then obtain m w where m: "listRefsWithSHAs ex_ref_env candidateRefPrefix ex_world = (Some m, w)"
    by (cases "listRefsWithSHAs ex_ref_env candidateRefPrefix ex_world") auto
  have "w = observe ex_ref_env ex_world" by (rule listRefsWithSHAs_spec(2) [OF m d c])
  moreover have "map_of (w_refs (observe ex_ref_env ex_world)) (candidateRefPrefix @ ''c-1'') = Some ''e5''"
    by code_simp
  ultimately have "map_of (w_refs w) (candidateRefPrefix @ ''c-1'') = Some ''e5''" by simp
  with listRefsWithSHAs_exact [OF d c m, of "''c-1''"] m show ?thesis by simp
qed

text \<open>The bootstrap returns what the ref holds: whatever \<open>ResolveIntegrationRef\<close> answers, read, newly
  created from HEAD, or read again after losing the creation to a peer, is the object the
  integration ref names at that moment.\<close>

theorem ResolveIntegrationRef_value:
  assumes "documented_git e" "clean_refs (w_refs w)" "\<And>h. head = Some h \<Longrightarrow> word (trim_space h)"
    and "ResolveIntegrationRef e head w = (Some sha, w')"
  shows "map_of (w_refs w') ''refs/loto/integration'' = Some sha"
  using resolve_integration [OF assms(4,1,2,3)] by blast

theorem ResolveIntegrationRef_value_witness:
  "case ResolveIntegrationRef ex_ref_env (Some ''h0'') (ex_world\<lparr>w_refs := []\<rparr>) of
     (None, w) \<Rightarrow> False | (Some sha, w) \<Rightarrow> map_of (w_refs w) ''refs/loto/integration'' = Some sha"
proof -
  let ?w = "ex_world\<lparr>w_refs := []\<rparr>"
  have "fst (ResolveIntegrationRef ex_ref_env (Some ''h0'') ?w) \<noteq> None" by code_simp
  then obtain sha w' where r: "ResolveIntegrationRef ex_ref_env (Some ''h0'') ?w = (Some sha, w')"
    by (cases "ResolveIntegrationRef ex_ref_env (Some ''h0'') ?w") auto
  have "clean_refs (w_refs ?w)" by code_simp
  moreover have "word (trim_space ''h0'')" by code_simp
  ultimately have "map_of (w_refs w') ''refs/loto/integration'' = Some sha"
    by (intro ResolveIntegrationRef_value [OF ex_ref_env_documented _ _ r]) auto
  with r show ?thesis by simp
qed

end
