(* ===== verification/Promotion.thy ===== *)
theory Promotion
  imports Refs Admission Holds
begin

text \<open>
  \<open>internal/gate/promotion.go\<close>: draining accepted candidates onto the integration ref.  A round selects
  and claims a batch under the promotion flock, verifies the prospective chain with no lock held, and
  commits with one compare-and-swap transaction; a red batch is retried candidate by candidate.

  Each Go function is one definition over \<open>world\<close>.  What runs outside the package is a parameter in
  \<open>promote_env\<close>: the flock, git's object commands, the envelope decoder \<open>ReadBlob\<close>, \<open>lane.Verify\<close>,
  \<open>Store.ReleaseCandidateClaims\<close>, the random batch id and the clock; each is indexed by the number of
  looks taken, so its answers may change from call to call.  The pointers \<open>rec\<close> and \<open>warn\<close> the code
  threads through are fields of the extended world; \<open>w_released\<close> records the claim releases.
\<close>

subsection \<open>Data\<close>

datatype OutcomeClass =
    OutcomePromoted | OutcomeStalePreimage | OutcomeStaleAncestry | OutcomeVerifyRed
  | OutcomeVerifyInfra | OutcomePromotionRace

record CandidateOutcome =
  co_CandidateID :: string
  co_Class :: OutcomeClass
  co_Agent :: AgentUUID
  co_Session :: SessionUUID
  co_BeadID :: string
  co_Detail :: string

record VerifyRun =
  vr_BatchID :: string
  vr_Candidates :: nat
  vr_Duration :: int
  vr_Passed :: bool
  vr_Infra :: bool
  vr_Tree :: string
  vr_TreeReason :: string

record VerifyResult =
  lv_Passed :: bool
  lv_Output :: string
  lv_Tree :: string
  lv_TreeReason :: string

record PromoteParams =
  pp_RepoTop :: string
  pp_VerifyCmd :: "string list"
  pp_MaxBatch :: int
  pp_MaxRounds :: int
  pp_Claims :: bool
  pp_Live :: "HolderLiveProbe option"
  pp_Host :: string
  pp_PID :: int
  pp_ProcStart :: int

record PromoteResult =
  pr_Integration :: string
  pr_Outcomes :: "CandidateOutcome list"

record promote_env = ref_env +
  e_head :: "nat \<Rightarrow> string option"
  e_flock :: "nat \<Rightarrow> bool"
  e_git :: "nat \<Rightarrow> git"
  e_blob :: "string \<Rightarrow> Envelope option"
  e_tempdir :: "nat \<Rightarrow> bool"
  e_read_tree :: "string \<Rightarrow> string option"
  e_update_index :: "string \<Rightarrow> string \<Rightarrow> string option"
  e_write_tree :: "string \<Rightarrow> string option"
  e_commit_tree :: "string \<Rightarrow> string \<Rightarrow> string \<Rightarrow> string option"
  e_verify :: "nat \<Rightarrow> string \<Rightarrow> VerifyResult \<times> string option"
  e_duration :: "nat \<Rightarrow> int"
  e_release :: "nat \<Rightarrow> string \<Rightarrow> string option"
  e_batch_id :: "nat \<Rightarrow> string"
  e_now :: "nat \<Rightarrow> time"

record pworld = world +
  w_verifies :: "VerifyRun list"
  w_warnings :: "string list"
  w_released :: "string list"

datatype promote_error =
    ErrPromoteInput string
  | ErrPromoteFlock
  | ErrIntegration
  | ErrListRefs
  | ErrGate gate_error
  | ErrTempdir
  | ErrIndex
  | ErrCommitTree
  | ErrRefs ref_error
  | ErrPromoteRace

definition defaultMaxBatch :: int where "defaultMaxBatch = 3"
definition defaultMaxRounds :: int where "defaultMaxRounds = 4"

record member =
  mb_candidateID :: string
  mb_envelopeSHA :: string
  mb_proposalSHA :: string
  mb_env :: Envelope

record batch =
  ba_id :: string
  ba_snapshot :: string
  ba_chainTip :: string
  ba_members :: "member list"

definition member_outcome :: "member \<Rightarrow> OutcomeClass \<Rightarrow> string \<Rightarrow> CandidateOutcome" where
  "member_outcome m cl detail =
     \<lparr>co_CandidateID = mb_candidateID m, co_Class = cl, co_Agent = env_AgentUUID (mb_env m),
      co_Session = env_SessionUUID (mb_env m), co_BeadID = env_BeadID (mb_env m), co_Detail = detail\<rparr>"

definition classifyAll :: "batch \<Rightarrow> OutcomeClass \<Rightarrow> string \<Rightarrow> CandidateOutcome list" where
  "classifyAll b cl detail = map (\<lambda>m. member_outcome m cl detail) (ba_members b)"

definition candidateIDs :: "batch \<Rightarrow> string list" where
  "candidateIDs b = map mb_candidateID (ba_members b)"

text \<open>\<open>trimVerifyOutput\<close> counts bytes; its ellipsis is the three bytes of U+2026.\<close>

definition trimVerifyOutput :: "string \<Rightarrow> string" where
  "trimVerifyOutput out =
     (let t = trim_space out in
      if length t \<le> 2000 then t else [CHR 0xE2, CHR 0x80, CHR 0xA6] @ drop (length t - 2000) t)"

subsection \<open>The promoting claim\<close>

definition trailerBatch :: string where "trailerBatch = ''Batch''"
definition trailerCandidates :: string where "trailerCandidates = ''Batch-Candidates''"
definition trailerHost :: string where "trailerHost = ''Promoter-Host''"
definition trailerPID :: string where "trailerPID = ''Promoter-PID''"
definition trailerProcStart :: string where "trailerProcStart = ''Promoter-ProcStart''"

text \<open>\<open>parseTrailers\<close> fills a Go map; absent keys read as the empty string.\<close>

fun trailer_loop :: "(string \<Rightarrow> string option) \<Rightarrow> string list \<Rightarrow> string \<Rightarrow> string option" where
  "trailer_loop m [] = m"
| "trailer_loop m (l # ls) =
     (case cut_str '': '' (trim_space l) of
        None \<Rightarrow> trailer_loop m ls
      | Some (k, v) \<Rightarrow> trailer_loop (m(k \<mapsto> trim_space v)) ls)"

definition parseTrailers :: "string \<Rightarrow> string \<Rightarrow> string" where
  "parseTrailers msg k =
     (case trailer_loop (\<lambda>_. None) (split_on NL msg) k of None \<Rightarrow> [] | Some v \<Rightarrow> v)"

record promotionClaim =
  pc_host :: string
  pc_pid :: int
  pc_procStart :: int
  pc_candidates :: "string list"

datatype claim_error = ErrLog | ErrBadPromotingClaim

text \<open>The claim comes back next to the error, as in the code: the candidates are read first.\<close>

definition parse_claim :: "string \<Rightarrow> claim_error option \<times> promotionClaim" where
  "parse_claim msg =
     (let tr = parseTrailers msg;
          cands = filter (\<lambda>c. c \<noteq> []) (map trim_space (split_on CHR '','' (tr trailerCandidates)));
          cl = \<lparr>pc_host = [], pc_pid = 0, pc_procStart = 0, pc_candidates = cands\<rparr>
      in case parse_int64 (tr trailerPID) of
           None \<Rightarrow> (Some ErrBadPromotingClaim, cl)
         | Some pid \<Rightarrow>
             (case parse_int64 (tr trailerProcStart) of
                None \<Rightarrow> (Some ErrBadPromotingClaim, cl)
              | Some start \<Rightarrow>
                  let cl' = cl\<lparr>pc_host := tr trailerHost, pc_pid := pid, pc_procStart := start\<rparr> in
                  if cands = [] then (Some ErrBadPromotingClaim, cl') else (None, cl')))"

definition readPromotionClaim :: "git \<Rightarrow> string \<Rightarrow> claim_error option \<times> promotionClaim" where
  "readPromotionClaim git tip =
     (case git_run git [''log'', ''-1'', ''--format=%B'', tip] of
        None \<Rightarrow> (Some ErrLog, \<lparr>pc_host = [], pc_pid = 0, pc_procStart = 0, pc_candidates = []\<rparr>)
      | Some msg \<Rightarrow> parse_claim msg)"

definition trailer :: "string \<Rightarrow> string \<Rightarrow> string" where
  "trailer k v = k @ '': '' @ v @ [NL]"

text \<open>The message \<open>commitTree\<close> writes: attribution on every commit, the claim on the tip.\<close>

definition commit_message :: "PromoteParams \<Rightarrow> member \<Rightarrow> batch \<Rightarrow> bool \<Rightarrow> string" where
  "commit_message p m b tip =
     ''loto: promote '' @ mb_candidateID m @ [NL, NL] @
     trailer ''Candidate'' (mb_candidateID m) @ trailer ''Proposal'' (mb_proposalSHA m) @
     trailer ''Agent'' (env_AgentUUID (mb_env m)) @ trailer ''Session'' (env_SessionUUID (mb_env m)) @
     trailer ''Bead'' (env_BeadID (mb_env m)) @
     (if tip then
        trailer trailerBatch (ba_id b) @ trailer trailerCandidates (join_with '','' (candidateIDs b)) @
        trailer trailerHost (pp_Host p) @ trailer trailerPID (format_int (pp_PID p)) @
        trailer trailerProcStart (format_int (pp_ProcStart p))
      else [])"

definition commitTree ::
  "promote_env \<Rightarrow> PromoteParams \<Rightarrow> string \<Rightarrow> string \<Rightarrow> member \<Rightarrow> batch \<Rightarrow> bool \<Rightarrow> promote_error + string" where
  "commitTree e p tree parent m b tip =
     (case e_commit_tree e tree parent (commit_message p m b tip) of
        None \<Rightarrow> Inl ErrCommitTree | Some out \<Rightarrow> Inr (trim_space out))"

subsection \<open>The prospective chain\<close>

text \<open>\<open>update-index --index-info\<close> lines; mode 0 with the null object removes the path.\<close>

definition index_line :: "Transition \<Rightarrow> string" where
  "index_line tr =
     (case tr_Result tr of
        None \<Rightarrow> ''0 '' @ replicate 40 CHR ''0'' @ [CHR 0x09] @ tr_Path tr @ [NL]
      | Some b \<Rightarrow> br_Mode b @ [SP] @ br_SHA b @ [CHR 0x09] @ tr_Path tr @ [NL])"

definition applyTransitions :: "promote_env \<Rightarrow> string \<Rightarrow> Transition list \<Rightarrow> promote_error + string" where
  "applyTransitions e base trs =
     (case e_read_tree e (base @ ''^{tree}'') of
        None \<Rightarrow> Inl ErrIndex
      | Some idx \<Rightarrow>
          (case e_update_index e idx (concat (map index_line trs)) of
             None \<Rightarrow> Inl ErrIndex
           | Some idx' \<Rightarrow>
               (case e_write_tree e idx' of None \<Rightarrow> Inl ErrIndex | Some out \<Rightarrow> Inr (trim_space out))))"

fun chain_loop ::
  "promote_env \<Rightarrow> PromoteParams \<Rightarrow> batch \<Rightarrow> string \<Rightarrow> member list \<Rightarrow> promote_error + string" where
  "chain_loop e p b base [] = Inr base"
| "chain_loop e p b base (m # ms) =
     (case applyTransitions e base (env_Transitions (mb_env m)) of
        Inl er \<Rightarrow> Inl er
      | Inr tree \<Rightarrow>
          (case commitTree e p tree base m b (ms = []) of
             Inl er \<Rightarrow> Inl er
           | Inr commit \<Rightarrow> chain_loop e p b commit ms))"

definition buildChain :: "promote_env \<Rightarrow> PromoteParams \<Rightarrow> batch \<Rightarrow> nat \<Rightarrow> promote_error + string" where
  "buildChain e p b n =
     (if \<not> e_tempdir e n then Inl ErrTempdir
      else chain_loop e p b (ba_snapshot b) (ba_members b))"

subsection \<open>Selection\<close>

definition loadMember :: "promote_env \<Rightarrow> string \<Rightarrow> string \<Rightarrow> refs \<Rightarrow> member option" where
  "loadMember e cid envelopeSHA proposals =
     (case e_blob e envelopeSHA of
        None \<Rightarrow> None
      | Some env \<Rightarrow>
          (case map_of proposals cid of
             None \<Rightarrow> None
           | Some sha \<Rightarrow> Some \<lparr>mb_candidateID = cid, mb_envelopeSHA = envelopeSHA, mb_proposalSHA = sha, mb_env = env\<rparr>))"

definition classifyStale :: "git \<Rightarrow> Envelope \<Rightarrow> string \<Rightarrow> gate_error + (OutcomeClass \<times> string) option" where
  "classifyStale git env snapshot =
     (case checkTransitionsCurrent git env snapshot of
        Inl er \<Rightarrow> Inl er
      | Inr d \<Rightarrow>
          if \<not> d_Accepted d then Inr (Some (OutcomeStalePreimage, d_Detail d))
          else (case checkAncestryCurrent git env snapshot of
                  Inl er \<Rightarrow> Inl er
                | Inr d \<Rightarrow>
                    if \<not> d_Accepted d then Inr (Some (OutcomeStaleAncestry, d_Detail d)) else Inr None))"

definition overlaps :: "string list \<Rightarrow> string list \<Rightarrow> bool" where
  "overlaps taken writeSet \<longleftrightarrow> list_ex (\<lambda>p. p \<in> set taken) writeSet"

record selection =
  se_members :: "member list"
  se_outcomes :: "CandidateOutcome list"
  se_taken :: "string list"

definition selection_consider :: "git \<Rightarrow> string \<Rightarrow> member \<Rightarrow> selection \<Rightarrow> gate_error option \<times> selection" where
  "selection_consider git snapshot m s =
     (case classifyStale git (mb_env m) snapshot of
        Inl er \<Rightarrow> (Some er, s)
      | Inr (Some v) \<Rightarrow> (None, s\<lparr>se_outcomes := se_outcomes s @ [member_outcome m (fst v) (snd v)]\<rparr>)
      | Inr None \<Rightarrow>
          (None, s\<lparr>se_members := se_members s @ [m], se_taken := se_taken s @ env_WriteSet (mb_env m)\<rparr>))"

fun select_loop ::
  "promote_env \<Rightarrow> git \<Rightarrow> int \<Rightarrow> string \<Rightarrow> refs \<Rightarrow> refs \<Rightarrow> string list \<Rightarrow> string \<Rightarrow> string list \<Rightarrow>
     selection \<Rightarrow> gate_error option \<times> selection" where
  "select_loop e git maxb snapshot refs props claimed only [] s = (None, s)"
| "select_loop e git maxb snapshot refs props claimed only (cid # cids) s =
     (if int (length (se_members s)) \<ge> maxb then (None, s)
      else if (only \<noteq> [] \<and> cid \<noteq> only) \<or> cid \<in> set claimed
      then select_loop e git maxb snapshot refs props claimed only cids s
      else case loadMember e cid (the (map_of refs cid)) props of
             None \<Rightarrow> select_loop e git maxb snapshot refs props claimed only cids s
           | Some m \<Rightarrow>
               if overlaps (se_taken s) (env_WriteSet (mb_env m))
               then select_loop e git maxb snapshot refs props claimed only cids s
               else (case selection_consider git snapshot m s of
                       (Some er, s') \<Rightarrow> (Some er, s'\<lparr>se_members := []\<rparr>)
                     | (None, s') \<Rightarrow> select_loop e git maxb snapshot refs props claimed only cids s'))"

definition no_selection :: selection where
  "no_selection = \<lparr>se_members = [], se_outcomes = [], se_taken = []\<rparr>"

definition selectCandidates ::
  "promote_env \<Rightarrow> PromoteParams \<Rightarrow> string \<Rightarrow> string list \<Rightarrow> string \<Rightarrow> pworld \<Rightarrow>
     (promote_error option \<times> member list \<times> CandidateOutcome list) \<times> pworld" where
  "selectCandidates e p snapshot claimed only w =
     (case listRefsWithSHAs e candidateRefPrefix w of
        (None, w1) \<Rightarrow> ((Some ErrListRefs, [], []), w1)
      | (Some refs, w1) \<Rightarrow>
          (case listRefsWithSHAs e proposalRefPrefix w1 of
             (None, w2) \<Rightarrow> ((Some ErrListRefs, [], []), w2)
           | (Some props, w2) \<Rightarrow>
               let r = select_loop e (e_git e (w_tick w2)) (pp_MaxBatch p) snapshot refs props claimed only
                         (sort (map fst refs)) no_selection
               in ((map_option ErrGate (fst r), se_members (snd r), se_outcomes (snd r)), w2)))"

subsection \<open>Reclaiming dead promoters\<close>

record reclaimVerdict =
  rv_claimed :: "string list"
  rv_blocked :: bool
  rv_warnings :: "string list"

text \<open>A warning names the batch; the wording of the wrapped git error is a parameter's business and
  left out.\<close>

definition reclaimBadClaim :: "promotionClaim \<Rightarrow> claim_error \<Rightarrow> string \<Rightarrow> reclaimVerdict \<Rightarrow> reclaimVerdict" where
  "reclaimBadClaim cl er batchID v =
     (if er \<noteq> ErrBadPromotingClaim then
        v\<lparr>rv_warnings := rv_warnings v @ [''promoting claim '' @ batchID @ '' unreadable, skipped this round'']\<rparr>
      else if pc_candidates cl = [] then
        v\<lparr>rv_blocked := True, rv_warnings := rv_warnings v @
          [''promoting claim '' @ batchID @ '' names no readable candidates'']\<rparr>
      else v\<lparr>rv_claimed := rv_claimed v @ pc_candidates cl\<rparr>)"

definition claim_of_promoter :: "promotionClaim \<Rightarrow> CandidateClaim" where
  "claim_of_promoter cl =
     \<lparr>cc_PathCanonical = [], cc_CandidateID = [], cc_OwnerUUID = [], cc_SessionUUID = [], cc_CreatedAt = 0,
      cc_Host = pc_host cl, cc_PID = pc_pid cl, cc_ProcStart = pc_procStart cl\<rparr>"

definition reclaimOnePromotion ::
  "promote_env \<Rightarrow> EvalContext \<Rightarrow> string \<Rightarrow> string \<Rightarrow> reclaimVerdict \<Rightarrow> pworld \<Rightarrow>
     promote_error option \<times> reclaimVerdict \<times> pworld" where
  "reclaimOnePromotion e ec batchID tip v w =
     (case readPromotionClaim (e_git e (w_tick w)) tip of
        (Some er, cl) \<Rightarrow> (None, reclaimBadClaim cl er batchID v, w)
      | (None, cl) \<Rightarrow>
          if \<not> CandidateClaimIsDead ec (claim_of_promoter cl)
          then (None, v\<lparr>rv_claimed := rv_claimed v @ pc_candidates cl\<rparr>, w)
          else (case UpdateRefsTx e [\<lparr>ru_Verb = VerbDelete, ru_Ref = promotingRef batchID,
                        ru_NewSHA = [], ru_OldSHA = tip\<rparr>] w of
                  (Some er, w') \<Rightarrow> (Some (ErrRefs er), v, w')
                | (None, w') \<Rightarrow> (None, v, w')))"

fun reclaim_loop ::
  "promote_env \<Rightarrow> EvalContext \<Rightarrow> refs \<Rightarrow> string list \<Rightarrow> reclaimVerdict \<Rightarrow> pworld \<Rightarrow>
     promote_error option \<times> reclaimVerdict \<times> pworld" where
  "reclaim_loop e ec refs [] v w = (None, v, w)"
| "reclaim_loop e ec refs (bid # bids) v w =
     (case reclaimOnePromotion e ec bid (the (map_of refs bid)) v w of
        (Some er, v', w') \<Rightarrow> (Some er, v', w')
      | (None, v', w') \<Rightarrow> reclaim_loop e ec refs bids v' w')"

definition promoter_ctx :: "promote_env \<Rightarrow> PromoteParams \<Rightarrow> nat \<Rightarrow> EvalContext" where
  "promoter_ctx e p n = \<lparr>Now = e_now e n, Live = pp_Live p, CaseFold = False, MyWorktree = []\<rparr>"

definition reclaimDeadPromotions ::
  "promote_env \<Rightarrow> PromoteParams \<Rightarrow> pworld \<Rightarrow> promote_error option \<times> reclaimVerdict \<times> pworld" where
  "reclaimDeadPromotions e p w =
     (let v0 = \<lparr>rv_claimed = [], rv_blocked = False, rv_warnings = []\<rparr> in
      case listRefsWithSHAs e promotingRefPrefix w of
        (None, w1) \<Rightarrow> (Some ErrListRefs, v0, w1)
      | (Some refs, w1) \<Rightarrow>
          reclaim_loop e (promoter_ctx e p (w_tick w1)) refs (sort (map fst refs)) v0 w1)"

subsection \<open>The phases\<close>

definition releaseBatch :: "promote_env \<Rightarrow> batch \<Rightarrow> pworld \<Rightarrow> promote_error option \<times> pworld" where
  "releaseBatch e b w =
     (case UpdateRefsTx e [\<lparr>ru_Verb = VerbDelete, ru_Ref = promotingRef (ba_id b), ru_NewSHA = [],
         ru_OldSHA = ba_chainTip b\<rparr>] w of
        (er, w') \<Rightarrow> (map_option ErrRefs er, w'))"

text \<open>Phase 1.  The result is the error, the claimed batch (Go's nil is \<open>None\<close>) and the outcomes.\<close>

definition promotePhase1For ::
  "promote_env \<Rightarrow> PromoteParams \<Rightarrow> string \<Rightarrow> pworld \<Rightarrow>
     (promote_error option \<times> batch option \<times> CandidateOutcome list) \<times> pworld" where
  "promotePhase1For e p only w =
     (if \<not> e_flock e (w_tick w) then ((Some ErrPromoteFlock, None, []), w)
      else case ResolveIntegrationRef e (e_head e (w_tick w)) w of
        (None, w1) \<Rightarrow> ((Some ErrIntegration, None, []), w1)
      | (Some snapshot, w1) \<Rightarrow>
        (case reclaimDeadPromotions e p w1 of
           (Some er, v, w2) \<Rightarrow> ((Some er, None, []), w2)
         | (None, v, w2) \<Rightarrow>
           let w3 = w2\<lparr>w_warnings := w_warnings w2 @ rv_warnings v\<rparr> in
           if rv_blocked v then ((None, None, []), w3)
           else case selectCandidates e p snapshot (rv_claimed v) only w3 of
             ((er, ms, outs), w4) \<Rightarrow>
               if er \<noteq> None \<or> ms = [] then ((er, None, outs), w4)
               else
                 let b = \<lparr>ba_id = e_batch_id e (w_tick w4), ba_snapshot = snapshot, ba_chainTip = [], ba_members = ms\<rparr> in
                 (case buildChain e p b (w_tick w4) of
                    Inl er \<Rightarrow> ((Some er, None, outs), w4)
                  | Inr tip \<Rightarrow>
                      (case UpdateRefsTx e [\<lparr>ru_Verb = VerbCreate, ru_Ref = promotingRef (ba_id b),
                            ru_NewSHA = tip, ru_OldSHA = []\<rparr>] w4 of
                         (Some er, w5) \<Rightarrow> ((Some (ErrRefs er), None, outs), w5)
                       | (None, w5) \<Rightarrow> ((None, Some (b\<lparr>ba_chainTip := tip\<rparr>), outs), w5)))))"

definition promotePhase1 ::
  "promote_env \<Rightarrow> PromoteParams \<Rightarrow> pworld \<Rightarrow>
     (promote_error option \<times> batch option \<times> CandidateOutcome list) \<times> pworld" where
  "promotePhase1 e p w = promotePhase1For e p [] w"

text \<open>Phase 2 takes time: the peers act while it runs, which the next look shows.\<close>

definition timedVerify :: "promote_env \<Rightarrow> batch \<Rightarrow> pworld \<Rightarrow> (VerifyResult \<times> string option) \<times> pworld" where
  "timedVerify e b w =
     (let r = e_verify e (w_tick w) (ba_chainTip b) in
      (r, (observe e w)\<lparr>w_verifies := w_verifies w @
        [\<lparr>vr_BatchID = ba_id b, vr_Candidates = length (ba_members b), vr_Duration = e_duration e (w_tick w),
          vr_Passed = (snd r = None \<and> lv_Passed (fst r)), vr_Infra = (snd r \<noteq> None),
          vr_Tree = lv_Tree (fst r), vr_TreeReason = lv_TreeReason (fst r)\<rparr>]\<rparr>))"

definition del_ref :: "string \<Rightarrow> string \<Rightarrow> RefUpdate" where
  "del_ref name old = \<lparr>ru_Verb = VerbDelete, ru_Ref = name, ru_NewSHA = [], ru_OldSHA = old\<rparr>"

definition phase3_updates :: "batch \<Rightarrow> RefUpdate list" where
  "phase3_updates b =
     [\<lparr>ru_Verb = VerbUpdate, ru_Ref = ''refs/loto/integration'', ru_NewSHA = ba_chainTip b, ru_OldSHA = ba_snapshot b\<rparr>] @
     concat (map (\<lambda>m. [del_ref (candidateRef (mb_candidateID m)) (mb_envelopeSHA m),
                       del_ref (proposalRef (mb_candidateID m)) (mb_proposalSHA m)]) (ba_members b)) @
     [del_ref (promotingRef (ba_id b)) (ba_chainTip b)]"

definition promotePhase3 :: "promote_env \<Rightarrow> batch \<Rightarrow> pworld \<Rightarrow> promote_error option \<times> pworld" where
  "promotePhase3 e b w =
     (if \<not> e_flock e (w_tick w) then (Some ErrPromoteFlock, w)
      else case UpdateRefsTx e (phase3_updates b) w of
             (None, w') \<Rightarrow> (None, w')
           | (Some er, w') \<Rightarrow>
               (Some (if er = ErrRefCASLost then ErrPromoteRace else ErrRefs er), w'))"

fun promoted_loop :: "promote_env \<Rightarrow> member list \<Rightarrow> pworld \<Rightarrow> CandidateOutcome list \<times> pworld" where
  "promoted_loop e [] w = ([], w)"
| "promoted_loop e (m # ms) w =
     (let detail = (case e_release e (length (w_released w)) (mb_candidateID m) of
                      None \<Rightarrow> [] | Some msg \<Rightarrow> ''claim release failed: '' @ msg);
          r = promoted_loop e ms (w\<lparr>w_released := w_released w @ [mb_candidateID m]\<rparr>)
      in (member_outcome m OutcomePromoted detail # fst r, snd r))"

definition promoted :: "promote_env \<Rightarrow> batch \<Rightarrow> pworld \<Rightarrow> CandidateOutcome list \<times> pworld" where
  "promoted e b w = promoted_loop e (ba_members b) w"

definition retire_updates :: "batch \<Rightarrow> member \<Rightarrow> RefUpdate list" where
  "retire_updates b m =
     [del_ref (candidateRef (mb_candidateID m)) (mb_envelopeSHA m),
      del_ref (proposalRef (mb_candidateID m)) (mb_proposalSHA m),
      del_ref (promotingRef (ba_id b)) (ba_chainTip b)]"

definition rejectSolo ::
  "promote_env \<Rightarrow> batch \<Rightarrow> string \<Rightarrow> pworld \<Rightarrow> (promote_error + CandidateOutcome list) \<times> pworld" where
  "rejectSolo e b verifyOutput w =
     (let m = hd (ba_members b) in
      case UpdateRefsTx e (retire_updates b m) w of
        (Some er, w') \<Rightarrow> (Inl (ErrRefs er), w')
      | (None, w') \<Rightarrow>
          let detail = trimVerifyOutput verifyOutput;
              detail' = (case e_release e (length (w_released w')) (mb_candidateID m) of
                           None \<Rightarrow> detail
                         | Some msg \<Rightarrow> detail @ '' (claim release failed: '' @ msg @ '')'')
          in (Inr [member_outcome m OutcomeVerifyRed detail'],
              w'\<lparr>w_released := w_released w' @ [mb_candidateID m]\<rparr>))"

definition promoteSolo ::
  "promote_env \<Rightarrow> PromoteParams \<Rightarrow> string \<Rightarrow> pworld \<Rightarrow>
     (promote_error option \<times> bool \<times> CandidateOutcome list) \<times> pworld" where
  "promoteSolo e p cid w =
     (case promotePhase1For e (p\<lparr>pp_MaxBatch := 1\<rparr>) cid w of
        ((Some er, one, outs), w1) \<Rightarrow> ((Some er, True, outs), w1)
      | ((None, None, outs), w1) \<Rightarrow> ((None, False, outs), w1)
      | ((None, Some b, outs), w1) \<Rightarrow>
          (case timedVerify e b w1 of
             ((vr, Some verr), w2) \<Rightarrow>
               (case releaseBatch e b w2 of
                  (Some er, w3) \<Rightarrow> ((Some er, True, outs), w3)
                | (None, w3) \<Rightarrow> ((None, True, outs @ classifyAll b OutcomeVerifyInfra verr), w3))
           | ((vr, None), w2) \<Rightarrow>
               if \<not> lv_Passed vr then
                 (case rejectSolo e b (lv_Output vr) w2 of
                    (Inl er, w3) \<Rightarrow> ((Some er, True, outs), w3)
                  | (Inr rejected, w3) \<Rightarrow> ((None, False, outs @ rejected), w3))
               else
                 (case promotePhase3 e b w2 of
                    (None, w3) \<Rightarrow>
                      (case promoted e b w3 of (os, w4) \<Rightarrow> ((None, False, outs @ os), w4))
                  | (Some er, w3) \<Rightarrow>
                      if er = ErrPromoteRace then
                        (case releaseBatch e b w3 of
                           (Some er', w4) \<Rightarrow> ((Some er', True, outs), w4)
                         | (None, w4) \<Rightarrow> ((None, False, outs @ classifyAll b OutcomePromotionRace ''gate: integration moved under the batch''), w4))
                      else ((Some er, True, outs), w3))))"

fun redBatchSweep ::
  "promote_env \<Rightarrow> PromoteParams \<Rightarrow> member list \<Rightarrow> pworld \<Rightarrow>
     (promote_error option \<times> bool \<times> CandidateOutcome list) \<times> pworld" where
  "redBatchSweep e p [] w = ((None, False, []), w)"
| "redBatchSweep e p (m # ms) w =
     (case promoteSolo e p (mb_candidateID m) w of
        ((er, stop, outs), w1) \<Rightarrow>
          if er \<noteq> None \<or> stop then ((er, True, outs), w1)
          else (case redBatchSweep e p ms w1 of
                  ((er', stop', outs'), w2) \<Rightarrow> ((er', stop', outs @ outs'), w2)))"

definition promoteVerifyAndCommit ::
  "promote_env \<Rightarrow> PromoteParams \<Rightarrow> batch \<Rightarrow> pworld \<Rightarrow>
     (promote_error option \<times> bool \<times> CandidateOutcome list) \<times> pworld" where
  "promoteVerifyAndCommit e p b w =
     (case timedVerify e b w of
        ((vr, Some verr), w1) \<Rightarrow>
          (case releaseBatch e b w1 of
             (er, w2) \<Rightarrow> ((er, True, classifyAll b OutcomeVerifyInfra verr), w2))
      | ((vr, None), w1) \<Rightarrow>
          if \<not> lv_Passed vr then
            (case releaseBatch e b w1 of
               (Some er, w2) \<Rightarrow> ((Some er, True, []), w2)
             | (None, w2) \<Rightarrow> redBatchSweep e p (ba_members b) w2)
          else
            (case promotePhase3 e b w1 of
               (None, w2) \<Rightarrow> (case promoted e b w2 of (os, w3) \<Rightarrow> ((None, False, os), w3))
             | (Some er, w2) \<Rightarrow>
                 if er = ErrPromoteRace then
                   (case releaseBatch e b w2 of
                      (er', w3) \<Rightarrow> ((er', er' \<noteq> None,
                         classifyAll b OutcomePromotionRace ''gate: integration moved under the batch''), w3))
                 else ((Some er, True, []), w2)))"

subsection \<open>The loop\<close>

text \<open>\<open>for range p.MaxRounds\<close>; \<open>outs\<close> is what \<open>res.Outcomes\<close> has accumulated.\<close>

fun promote_rounds ::
  "promote_env \<Rightarrow> PromoteParams \<Rightarrow> nat \<Rightarrow> CandidateOutcome list \<Rightarrow> pworld \<Rightarrow>
     (promote_error option \<times> CandidateOutcome list) \<times> pworld" where
  "promote_rounds e p 0 outs w = ((None, outs), w)"
| "promote_rounds e p (Suc n) outs w =
     (case promotePhase1 e p w of
        ((Some er, b, os), w1) \<Rightarrow> ((Some er, outs @ os), w1)
      | ((None, None, os), w1) \<Rightarrow> ((None, outs @ os), w1)
      | ((None, Some b, os), w1) \<Rightarrow>
          (case promoteVerifyAndCommit e p b w1 of
             ((er, stop, done_outs), w2) \<Rightarrow>
               if er \<noteq> None \<or> stop then ((er, outs @ os @ done_outs), w2)
               else promote_rounds e p n (outs @ os @ done_outs) w2))"

definition promote_finish ::
  "promote_env \<Rightarrow> CandidateOutcome list \<Rightarrow> pworld \<Rightarrow> PromoteResult \<times> pworld" where
  "promote_finish e outs w =
     (case ResolveIntegrationRef e (e_head e (w_tick w)) w of
        (sha, w1) \<Rightarrow>
          (\<lparr>pr_Integration = (case sha of None \<Rightarrow> [] | Some x \<Rightarrow> x),
            pr_Outcomes = sort_key co_CandidateID outs\<rparr>, w1))"

definition promote_defaults :: "PromoteParams \<Rightarrow> PromoteParams" where
  "promote_defaults p =
     p\<lparr>pp_MaxBatch := (if pp_MaxBatch p \<le> 0 then defaultMaxBatch else pp_MaxBatch p),
       pp_MaxRounds := (if pp_MaxRounds p \<le> 0 then defaultMaxRounds else pp_MaxRounds p)\<rparr>"

definition Promote ::
  "promote_env \<Rightarrow> PromoteParams \<Rightarrow> pworld \<Rightarrow> (promote_error option \<times> PromoteResult) \<times> pworld" where
  "Promote e p w =
     (let none = \<lparr>pr_Integration = [], pr_Outcomes = []\<rparr> in
      if pp_RepoTop p = [] then ((Some (ErrPromoteInput ''RepoTop''), none), w)
      else if pp_VerifyCmd p = [] \<or> hd (pp_VerifyCmd p) = [] then ((Some (ErrPromoteInput ''VerifyCmd''), none), w)
      else if \<not> pp_Claims p then ((Some (ErrPromoteInput ''Claims''), none), w)
      else let q = promote_defaults p in
        case promote_rounds e q (nat (pp_MaxRounds q)) [] w of
          ((er, outs), w1) \<Rightarrow> (case promote_finish e outs w1 of (res, w2) \<Rightarrow> ((er, res), w2)))"

subsection \<open>What a selection takes\<close>

definition fresh_at :: "promote_env \<Rightarrow> string \<Rightarrow> member \<Rightarrow> bool" where
  "fresh_at e snapshot m \<longleftrightarrow> (\<exists>n. classifyStale (e_git e n) (mb_env m) snapshot = Inr None)"

definition disjoint_writes :: "member list \<Rightarrow> bool" where
  "disjoint_writes ms \<longleftrightarrow>
     (\<forall>i < length ms. \<forall>j < i. set (env_WriteSet (mb_env (ms ! j))) \<inter> set (env_WriteSet (mb_env (ms ! i))) = {})"

lemma disjoint_writes_snoc:
  "disjoint_writes (ms @ [m]) \<longleftrightarrow> disjoint_writes ms \<and>
     (\<forall>x \<in> set ms. set (env_WriteSet (mb_env x)) \<inter> set (env_WriteSet (mb_env m)) = {})"
proof
  assume a: "disjoint_writes (ms @ [m])"
  have "disjoint_writes ms"
    unfolding disjoint_writes_def
  proof (intro allI impI)
    fix i j assume "i < length ms" "j < i"
    with a [unfolded disjoint_writes_def, rule_format, of i j] show
      "set (env_WriteSet (mb_env (ms ! j))) \<inter> set (env_WriteSet (mb_env (ms ! i))) = {}"
      by (simp add: nth_append)
  qed
  moreover have "set (env_WriteSet (mb_env x)) \<inter> set (env_WriteSet (mb_env m)) = {}" if x: "x \<in> set ms" for x
  proof -
    obtain j where "j < length ms" "x = ms ! j" using x by (auto simp: in_set_conv_nth)
    with a [unfolded disjoint_writes_def, rule_format, of "length ms" j] show ?thesis by (simp add: nth_append)
  qed
  ultimately show "disjoint_writes ms \<and>
     (\<forall>x \<in> set ms. set (env_WriteSet (mb_env x)) \<inter> set (env_WriteSet (mb_env m)) = {})" by blast
next
  assume a: "disjoint_writes ms \<and>
     (\<forall>x \<in> set ms. set (env_WriteSet (mb_env x)) \<inter> set (env_WriteSet (mb_env m)) = {})"
  show "disjoint_writes (ms @ [m])"
    unfolding disjoint_writes_def
  proof (intro allI impI)
    fix i j assume i: "i < length (ms @ [m])" "j < i"
    show "set (env_WriteSet (mb_env ((ms @ [m]) ! j))) \<inter> set (env_WriteSet (mb_env ((ms @ [m]) ! i))) = {}"
    proof (cases "i = length ms")
      case True
      with i a show ?thesis by (simp add: nth_append)
    next
      case False
      with i a show ?thesis by (simp add: nth_append disjoint_writes_def)
    qed
  qed
qed

text \<open>\<open>chosen\<close> says why a member is in a selection; \<open>passed\<close> why a listed candidate is not.\<close>

definition chosen :: "promote_env \<Rightarrow> string \<Rightarrow> refs \<Rightarrow> refs \<Rightarrow> string list \<Rightarrow> string \<Rightarrow> member \<Rightarrow> bool" where
  "chosen e snapshot refs props claimed only m \<longleftrightarrow>
     loadMember e (mb_candidateID m) (the (map_of refs (mb_candidateID m))) props = Some m \<and>
     \<not> (only \<noteq> [] \<and> mb_candidateID m \<noteq> only) \<and> mb_candidateID m \<notin> set claimed \<and> fresh_at e snapshot m"

definition passed ::
  "promote_env \<Rightarrow> git \<Rightarrow> string \<Rightarrow> refs \<Rightarrow> refs \<Rightarrow> string list \<Rightarrow> string \<Rightarrow> member list \<Rightarrow> string \<Rightarrow> bool" where
  "passed e git snapshot refs props claimed only ms cid \<longleftrightarrow>
     (only \<noteq> [] \<and> cid \<noteq> only) \<or> cid \<in> set claimed \<or>
     loadMember e cid (the (map_of refs cid)) props = None \<or>
     (\<exists>m. loadMember e cid (the (map_of refs cid)) props = Some m \<and>
        ((\<exists>x \<in> set ms. set (env_WriteSet (mb_env x)) \<inter> set (env_WriteSet (mb_env m)) \<noteq> {}) \<or>
         (\<exists>v. classifyStale git (mb_env m) snapshot = Inr (Some v))))"

definition sel_inv :: "promote_env \<Rightarrow> string \<Rightarrow> refs \<Rightarrow> refs \<Rightarrow> string list \<Rightarrow> string \<Rightarrow> selection \<Rightarrow> bool" where
  "sel_inv e snapshot refs props claimed only s \<longleftrightarrow>
     list_all (chosen e snapshot refs props claimed only) (se_members s) \<and> disjoint_writes (se_members s) \<and>
     set (se_taken s) = (\<Union>m \<in> set (se_members s). set (env_WriteSet (mb_env m))) \<and>
     (\<forall>x \<in> set (se_outcomes s). co_Class x \<in> {OutcomeStalePreimage, OutcomeStaleAncestry})"

lemma loadMember_id: "loadMember e cid sha props = Some m \<Longrightarrow> mb_candidateID m = cid"
  by (auto simp: loadMember_def split: option.splits)

lemma loadMember_fields:
  "loadMember e cid sha props = Some m \<Longrightarrow> mb_candidateID m = cid \<and> mb_envelopeSHA m = sha \<and>
     map_of props cid = Some (mb_proposalSHA m) \<and> e_blob e sha = Some (mb_env m)"
  by (auto simp: loadMember_def split: option.splits)

lemma classifyStale_class:
  "classifyStale git env snapshot = Inr (Some v) \<Longrightarrow> fst v \<in> {OutcomeStalePreimage, OutcomeStaleAncestry}"
  by (auto simp: classifyStale_def split: sum.splits if_splits)

lemma consider_inv:
  assumes "selection_consider git snapshot m s = (None, s')" "git = e_git e n"
    and "sel_inv e snapshot refs props claimed only s" "\<not> overlaps (se_taken s) (env_WriteSet (mb_env m))"
    and "loadMember e (mb_candidateID m) (the (map_of refs (mb_candidateID m))) props = Some m"
    and "\<not> ((only \<noteq> [] \<and> mb_candidateID m \<noteq> only) \<or> mb_candidateID m \<in> set claimed)"
  shows "sel_inv e snapshot refs props claimed only s'"
    "(classifyStale git (mb_env m) snapshot = Inr None \<and> se_members s' = se_members s @ [m]) \<or>
     ((\<exists>v. classifyStale git (mb_env m) snapshot = Inr (Some v)) \<and> se_members s' = se_members s)"
proof -
  consider (fresh) "classifyStale git (mb_env m) snapshot = Inr None"
      "s' = s\<lparr>se_members := se_members s @ [m], se_taken := se_taken s @ env_WriteSet (mb_env m)\<rparr>"
    | (stale) v where "classifyStale git (mb_env m) snapshot = Inr (Some v)"
      "s' = s\<lparr>se_outcomes := se_outcomes s @ [member_outcome m (fst v) (snd v)]\<rparr>"
    using assms(1) by (auto simp: selection_consider_def split: sum.splits option.splits)
  then have "sel_inv e snapshot refs props claimed only s' \<and>
    ((classifyStale git (mb_env m) snapshot = Inr None \<and> se_members s' = se_members s @ [m]) \<or>
     ((\<exists>v. classifyStale git (mb_env m) snapshot = Inr (Some v)) \<and> se_members s' = se_members s))"
  proof cases
    case fresh
    have "chosen e snapshot refs props claimed only m"
      using assms(2,5,6) fresh(1) by (auto simp: chosen_def fresh_at_def)
    moreover have "set (env_WriteSet (mb_env x)) \<inter> set (env_WriteSet (mb_env m)) = {}" if "x \<in> set (se_members s)" for x
      using that assms(3,4) by (auto simp: sel_inv_def overlaps_def list_ex_iff)
    ultimately show ?thesis using assms(3) fresh
      by (auto simp: sel_inv_def disjoint_writes_snoc)
  next
    case stale
    then show ?thesis using assms(3) classifyStale_class [OF stale(1)]
      by (auto simp: sel_inv_def member_outcome_def)
  qed
  then show "sel_inv e snapshot refs props claimed only s'"
    "(classifyStale git (mb_env m) snapshot = Inr None \<and> se_members s' = se_members s @ [m]) \<or>
     ((\<exists>v. classifyStale git (mb_env m) snapshot = Inr (Some v)) \<and> se_members s' = se_members s)" by blast+
qed

lemma select_loop_inv:
  assumes "select_loop e git maxb snapshot refs props claimed only cids s = (er, s')" "git = e_git e n"
    and "sel_inv e snapshot refs props claimed only s"
  shows "sel_inv e snapshot refs props claimed only s' \<or> (er \<noteq> None \<and> se_members s' = [] \<and>
    (\<forall>x \<in> set (se_outcomes s'). co_Class x \<in> {OutcomeStalePreimage, OutcomeStaleAncestry}))"
  using assms
proof (induction e git maxb snapshot refs props claimed only cids s rule: select_loop.induct)
  case (1 e git maxb snapshot refs props claimed only s)
  then show ?case by simp
next
  case (2 e git maxb snapshot refs props claimed only cid cids s)
  let ?load = "loadMember e cid (the (map_of refs cid)) props"
  show ?case
  proof (cases "int (length (se_members s)) \<ge> maxb")
    case True
    with 2 show ?thesis by simp
  next
    case len: False
    show ?thesis
    proof (cases "(only \<noteq> [] \<and> cid \<noteq> only) \<or> cid \<in> set claimed")
      case True
      from "2.prems"(1) len True have "select_loop e git maxb snapshot refs props claimed only cids s = (er, s')" by auto
      from "2.IH"(1) [OF len True this "2.prems"(2,3)] show ?thesis .
    next
      case skip: False
      show ?thesis
      proof (cases ?load)
        case None
        from "2.prems"(1) len skip None have "select_loop e git maxb snapshot refs props claimed only cids s = (er, s')"
          by (simp split: if_splits)
        from "2.IH"(2) [OF len skip None this "2.prems"(2,3)] show ?thesis .
      next
        case (Some m)
        have cid: "mb_candidateID m = cid" by (rule loadMember_id [OF Some])
        show ?thesis
        proof (cases "overlaps (se_taken s) (env_WriteSet (mb_env m))")
          case True
          from "2.prems"(1) len skip Some True have "select_loop e git maxb snapshot refs props claimed only cids s = (er, s')"
            by (simp split: if_splits)
          from "2.IH"(3) [OF len skip Some True this "2.prems"(2,3)] show ?thesis .
        next
          case ov: False
          obtain er1 s1 where c: "selection_consider git snapshot m s = (er1, s1)"
            by (cases "selection_consider git snapshot m s")
          show ?thesis
          proof (cases er1)
            case None
            from "2.prems"(1) len skip Some ov c None
            have r: "select_loop e git maxb snapshot refs props claimed only cids s1 = (er, s')"
              by (simp split: if_splits)
            have "sel_inv e snapshot refs props claimed only s1"
              using consider_inv(1) [OF c [unfolded None] "2.prems"(2,3) ov] Some cid skip by simp
            from "2.IH"(4) [OF len skip Some ov c [symmetric] None r "2.prems"(2) this] show ?thesis .
          next
            case er: (Some er2)
            then have "s1 = s" using c by (auto simp: selection_consider_def split: sum.splits option.splits)
            with "2.prems" len skip Some ov c er show ?thesis
              by (auto simp: sel_inv_def split: if_splits)
          qed
        qed
      qed
    qed
  qed
qed

lemma passed_mono:
  "passed e git snapshot refs props claimed only ms cid \<Longrightarrow> set ms \<subseteq> set ms' \<Longrightarrow>
   passed e git snapshot refs props claimed only ms' cid"
  unfolding passed_def by blast

lemma select_loop_steps:
  assumes "select_loop e git maxb snapshot refs props claimed only cids s = (None, s')" "git = e_git e n"
    and "sel_inv e snapshot refs props claimed only s"
  shows "\<exists>ms. se_members s' = se_members s @ ms \<and> subseq (map mb_candidateID ms) cids \<and>
    (int (length (se_members s)) \<le> maxb \<longrightarrow> int (length (se_members s')) \<le> maxb) \<and>
    (int (length (se_members s')) < maxb \<longrightarrow>
       (\<forall>cid \<in> set cids. cid \<in> mb_candidateID ` set (se_members s') \<or>
          passed e git snapshot refs props claimed only (se_members s') cid))"
  using assms
proof (induction e git maxb snapshot refs props claimed only cids s rule: select_loop.induct)
  case (1 e git maxb snapshot refs props claimed only s)
  then show ?case by simp
next
  case (2 e git maxb snapshot refs props claimed only cid cids s)
  let ?load = "loadMember e cid (the (map_of refs cid)) props"
  let ?Q = "\<lambda>s0 cs. \<exists>ms. se_members s' = se_members s0 @ ms \<and> subseq (map mb_candidateID ms) cs \<and>
    (int (length (se_members s0)) \<le> maxb \<longrightarrow> int (length (se_members s')) \<le> maxb) \<and>
    (int (length (se_members s')) < maxb \<longrightarrow>
       (\<forall>cid \<in> set cs. cid \<in> mb_candidateID ` set (se_members s') \<or>
          passed e git snapshot refs props claimed only (se_members s') cid))"
  have skip_ok: "?Q s (cid # cids)" if q: "?Q s cids"
    and p: "passed e git snapshot refs props claimed only (se_members s) cid"
  proof -
    from q obtain ms where ms: "se_members s' = se_members s @ ms" "subseq (map mb_candidateID ms) cids"
      "int (length (se_members s)) \<le> maxb \<longrightarrow> int (length (se_members s')) \<le> maxb"
      "int (length (se_members s')) < maxb \<longrightarrow>
       (\<forall>cid \<in> set cids. cid \<in> mb_candidateID ` set (se_members s') \<or>
          passed e git snapshot refs props claimed only (se_members s') cid)" by blast
    have "passed e git snapshot refs props claimed only (se_members s') cid"
      by (rule passed_mono [OF p]) (simp add: ms(1))
    with ms show ?thesis by (intro exI [of _ ms]) auto
  qed
  show ?case
  proof (cases "int (length (se_members s)) \<ge> maxb")
    case True
    with "2.prems"(1) have "s' = s" by simp
    with True show ?thesis by simp
  next
    case len: False
    show ?thesis
    proof (cases "(only \<noteq> [] \<and> cid \<noteq> only) \<or> cid \<in> set claimed")
      case True
      from "2.prems"(1) len True have "select_loop e git maxb snapshot refs props claimed only cids s = (None, s')" by auto
      from "2.IH"(1) [OF len True this "2.prems"(2,3)] True show ?thesis by (intro skip_ok) (auto simp: passed_def)
    next
      case skip: False
      show ?thesis
      proof (cases ?load)
        case None
        from "2.prems"(1) len skip None have "select_loop e git maxb snapshot refs props claimed only cids s = (None, s')"
          by (simp split: if_splits)
        from "2.IH"(2) [OF len skip None this "2.prems"(2,3)] None show ?thesis by (intro skip_ok) (auto simp: passed_def)
      next
        case (Some m)
        have cid: "mb_candidateID m = cid" by (rule loadMember_id [OF Some])
        show ?thesis
        proof (cases "overlaps (se_taken s) (env_WriteSet (mb_env m))")
          case True
          from "2.prems"(1) len skip Some True have "select_loop e git maxb snapshot refs props claimed only cids s = (None, s')"
            by (simp split: if_splits)
          note q = "2.IH"(3) [OF len skip Some True this "2.prems"(2,3)]
          have "\<exists>x \<in> set (se_members s). set (env_WriteSet (mb_env x)) \<inter> set (env_WriteSet (mb_env m)) \<noteq> {}"
            using True "2.prems"(3) by (auto simp: overlaps_def list_ex_iff sel_inv_def)
          with Some show ?thesis by (intro skip_ok [OF q]) (simp add: passed_def)
        next
          case ov: False
          obtain er1 s1 where c: "selection_consider git snapshot m s = (er1, s1)"
            by (cases "selection_consider git snapshot m s")
          have er1: "er1 = None" using "2.prems"(1) len skip Some ov c by (auto split: option.splits if_splits)
          from "2.prems"(1) len skip Some ov c er1
          have r: "select_loop e git maxb snapshot refs props claimed only cids s1 = (None, s')"
            by (simp split: if_splits)
          note ci = consider_inv [OF c [unfolded er1] "2.prems"(2,3) ov]
          have inv: "sel_inv e snapshot refs props claimed only s1" using ci(1) Some cid skip by simp
          note q = "2.IH"(4) [OF len skip Some ov c [symmetric] er1 r "2.prems"(2) inv]
          have cl: "(classifyStale git (mb_env m) snapshot = Inr None \<and> se_members s1 = se_members s @ [m]) \<or>
            ((\<exists>v. classifyStale git (mb_env m) snapshot = Inr (Some v)) \<and> se_members s1 = se_members s)"
            using ci(2) Some cid skip by simp
          then show ?thesis
          proof
            assume t: "classifyStale git (mb_env m) snapshot = Inr None \<and> se_members s1 = se_members s @ [m]"
            from q obtain ms where ms: "se_members s' = se_members s1 @ ms" "subseq (map mb_candidateID ms) cids"
              "int (length (se_members s1)) \<le> maxb \<longrightarrow> int (length (se_members s')) \<le> maxb"
              "int (length (se_members s')) < maxb \<longrightarrow>
               (\<forall>cid \<in> set cids. cid \<in> mb_candidateID ` set (se_members s') \<or>
                  passed e git snapshot refs props claimed only (se_members s') cid)" by blast
            with t cid len show ?thesis by (intro exI [of _ "m # ms"]) auto
          next
            assume t: "(\<exists>v. classifyStale git (mb_env m) snapshot = Inr (Some v)) \<and> se_members s1 = se_members s"
            with q have "?Q s cids" by simp
            moreover have "passed e git snapshot refs props claimed only (se_members s) cid"
              using t Some by (auto simp: passed_def)
            ultimately show ?thesis by (rule skip_ok)
          qed
        qed
      qed
    qed
  qed
qed

end
