(* ===== verification/Protocol.thy ===== *)
theory Protocol
  imports Promotion
begin

text \<open>
  What promotion does to the references, whatever the peers do in between: the transactions of one
  \<open>Promote\<close> call, kept in the ghost log of the world, are of five kinds (\<open>tx_kind\<close>), and only two of
  them consume candidates.  Git's documented behaviour, the random batch id and the shape of object
  names are the hypothesis \<open>documented_promote\<close>.
\<close>

subsection \<open>Hypotheses and invariant\<close>

definition documented_promote :: "promote_env \<Rightarrow> bool" where
  "documented_promote e \<longleftrightarrow>
     documented_git e \<and> (\<forall>n h. e_head e n = Some h \<longrightarrow> word (trim_space h)) \<and>
     (\<forall>n. word (e_batch_id e n)) \<and>
     (\<forall>t par msg out. e_commit_tree e t par msg = Some out \<longrightarrow> word (trim_space out))"

text \<open>A batch phase 1 may hand out: its members are distinct, disjoint and fresh at the snapshot, and its
  tip is the chain built for them on the snapshot.\<close>

definition batch_ok :: "promote_env \<Rightarrow> PromoteParams \<Rightarrow> batch \<Rightarrow> bool" where
  "batch_ok e p b \<longleftrightarrow>
     ba_members b \<noteq> [] \<and> distinct (candidateIDs b) \<and> disjoint_writes (ba_members b) \<and>
     (\<forall>m \<in> set (ba_members b). fresh_at e (ba_snapshot b) m \<and> e_blob e (mb_envelopeSHA m) = Some (mb_env m)) \<and>
     chain_loop e p (b\<lparr>ba_chainTip := []\<rparr>) (ba_snapshot b) (ba_members b) = Inr (ba_chainTip b)"

definition batch_words :: "batch \<Rightarrow> bool" where
  "batch_words b \<longleftrightarrow>
     word (promotingRef (ba_id b)) \<and> word (ba_chainTip b) \<and> word (ba_snapshot b) \<and>
     (\<forall>m \<in> set (ba_members b). word (candidateRef (mb_candidateID m)) \<and> word (proposalRef (mb_candidateID m)) \<and>
        word (mb_envelopeSHA m) \<and> word (mb_proposalSHA m))"

definition verdict :: "promote_env \<Rightarrow> string \<Rightarrow> bool \<Rightarrow> bool" where
  "verdict e tip good \<longleftrightarrow> (\<exists>n vr. e_verify e n tip = (vr, None) \<and> lv_Passed vr = good)"

definition committable :: "promote_env \<Rightarrow> PromoteParams \<Rightarrow> batch \<Rightarrow> bool" where
  "committable e p b \<longleftrightarrow> batch_ok e p b \<and> batch_words b \<and> verdict e (ba_chainTip b) True"

definition rejectable :: "promote_env \<Rightarrow> PromoteParams \<Rightarrow> batch \<Rightarrow> member \<Rightarrow> bool" where
  "rejectable e p b m \<longleftrightarrow> batch_ok e p b \<and> batch_words b \<and> ba_members b = [m] \<and> verdict e (ba_chainTip b) False"

definition tx_kind :: "promote_env \<Rightarrow> PromoteParams \<Rightarrow> RefUpdate list \<Rightarrow> bool" where
  "tx_kind e p us \<longleftrightarrow>
     (\<exists>h. us = [\<lparr>ru_Verb = VerbCreate, ru_Ref = ''refs/loto/integration'', ru_NewSHA = h, ru_OldSHA = []\<rparr>]) \<or>
     (\<exists>bid tip. us = [\<lparr>ru_Verb = VerbCreate, ru_Ref = promotingRef bid, ru_NewSHA = tip, ru_OldSHA = []\<rparr>]) \<or>
     (\<exists>bid tip. us = [del_ref (promotingRef bid) tip]) \<or>
     (\<exists>b. committable e p b \<and> us = phase3_updates b) \<or>
     (\<exists>b m. rejectable e p b m \<and> us = retire_updates b m)"

definition promo_inv :: "promote_env \<Rightarrow> PromoteParams \<Rightarrow> pworld \<Rightarrow> bool" where
  "promo_inv e p w \<longleftrightarrow>
     clean_refs (w_refs w) \<and>
     (\<forall>g \<in> set (w_log w). entry_atomic g \<and> tx_kind e p (lg_updates g) \<and> list_all ref_line_ok (lg_updates g))"

definition grew :: "pworld \<Rightarrow> pworld \<Rightarrow> bool" where
  "grew w w' \<longleftrightarrow> set (w_log w) \<subseteq> set (w_log w')"

lemma grew_refl [simp]: "grew w w"
  by (simp add: grew_def)

lemma grew_trans: "grew w w1 \<Longrightarrow> grew w1 w2 \<Longrightarrow> grew w w2"
  by (auto simp: grew_def)

lemma documented_promote_git: "documented_promote e \<Longrightarrow> documented_git e"
  by (simp add: documented_promote_def)

lemma observe_inv: "documented_promote e \<Longrightarrow> promo_inv e p w \<Longrightarrow> promo_inv e p (observe e w) \<and> grew w (observe e w)"
  using observe_clean [OF documented_promote_git, of e w] by (auto simp: promo_inv_def grew_def observe_def)

text \<open>Every transaction goes through this lemma.\<close>

lemma tx_inv:
  assumes "documented_promote e" "promo_inv e p w" "UpdateRefsTx e us w = (er, w')"
    and "us \<noteq> []" "list_all ref_line_ok us" "tx_kind e p us"
  shows "promo_inv e p w' \<and> grew w w' \<and> w_verifies w' = w_verifies w \<and> w_warnings w' = w_warnings w \<and>
    (\<exists>g \<in> set (w_log w'). lg_updates g = us \<and> lg_error g = er)"
proof -
  have "documented_update_ref (e_update e)" using assms(1) by (simp add: documented_promote_def documented_git_def)
  from UpdateRefsTx_log [OF assms(3-5) this] obtain g where g: "w_log w' = w_log w @ [g]" "lg_updates g = us"
    "lg_error g = er" "entry_atomic g" "world.more w' = world.more w" by metis
  have "clean_refs (w_refs w')"
    using UpdateRefsTx_clean [OF assms(3-5) documented_promote_git [OF assms(1)]] assms(2) by (simp add: promo_inv_def)
  with g assms(2,5,6) show ?thesis by (cases w; cases w') (auto simp: promo_inv_def grew_def)
qed

lemma chain_loop_maxbatch [simp]:
  "chain_loop e (p\<lparr>pp_MaxBatch := k\<rparr>) b base ms = chain_loop e p b base ms"
  by (induction ms arbitrary: base)
    (simp_all add: commitTree_def commit_message_def split: sum.splits option.splits)

lemma batch_ok_maxbatch [simp]: "batch_ok e (p\<lparr>pp_MaxBatch := k\<rparr>) b = batch_ok e p b"
  by (simp add: batch_ok_def)

lemma promo_inv_maxbatch [simp]: "promo_inv e (p\<lparr>pp_MaxBatch := k\<rparr>) w = promo_inv e p w"
  by (simp add: promo_inv_def tx_kind_def committable_def rejectable_def)

subsection \<open>Names\<close>

lemma word_append: "word (a @ b) \<longleftrightarrow> (a \<noteq> [] \<or> b \<noteq> []) \<and> list_all (\<lambda>c. \<not> is_space c) a \<and> list_all (\<lambda>c. \<not> is_space c) b"
  by (auto simp: word_def)

lemma prefixes_clean:
  "list_all (\<lambda>c. \<not> is_space c) candidateRefPrefix" "list_all (\<lambda>c. \<not> is_space c) proposalRefPrefix"
  "list_all (\<lambda>c. \<not> is_space c) promotingRefPrefix" "candidateRefPrefix \<noteq> []" "proposalRefPrefix \<noteq> []"
  "promotingRefPrefix \<noteq> []"
  by code_simp+

lemma ref_words:
  "word (candidateRef cid) \<longleftrightarrow> list_all (\<lambda>c. \<not> is_space c) cid"
  "word (proposalRef cid) \<longleftrightarrow> list_all (\<lambda>c. \<not> is_space c) cid"
  "word (promotingRef cid) \<longleftrightarrow> list_all (\<lambda>c. \<not> is_space c) cid"
  by (simp_all add: candidateRef_def proposalRef_def promotingRef_def word_append prefixes_clean)

lemma ref_names_differ:
  "candidateRef a \<noteq> proposalRef c" "candidateRef a \<noteq> promotingRef c" "proposalRef a \<noteq> promotingRef c"
  "candidateRef a \<noteq> ''refs/loto/integration''" "proposalRef a \<noteq> ''refs/loto/integration''"
  "promotingRef a \<noteq> ''refs/loto/integration''"
  "candidateRef a = candidateRef c \<longleftrightarrow> a = c" "proposalRef a = proposalRef c \<longleftrightarrow> a = c"
  by (simp_all add: candidateRef_def proposalRef_def promotingRef_def candidateRefPrefix_def
      proposalRefPrefix_def promotingRefPrefix_def)

text \<open>The listing of clean references gives words.\<close>

lemma listing_words:
  assumes "listRefsWithSHAs e pre w = (Some m, w')" "documented_promote e" "promo_inv e p w"
    and "list_all (\<lambda>c. \<not> is_space c) pre"
  shows "x \<in> set m \<Longrightarrow> list_all (\<lambda>c. \<not> is_space c) (fst x) \<and> word (snd x)"
    "distinct (map fst m)" "promo_inv e p w'" "grew w w'" "w_verifies w' = w_verifies w"
proof -
  have d: "documented_for_each_ref (e_for_each e)" "clean_refs (e_peers e (w_tick w) (w_refs w))"
    using assms(2,3) by (auto simp: documented_promote_def documented_git_def promo_inv_def)
  note sp = listRefsWithSHAs_spec [OF assms(1) d]
  have c: "clean_refs (w_refs w')" using d(2) sp(2) by (simp add: observe_def)
  show "distinct (map fst m)" unfolding sp(1) using c by (intro strip_under_distinct) (simp add: clean_refs_def)
  from observe_inv [OF assms(2,3)] sp(2) show "promo_inv e p w'" "grew w w'" by auto
  show "w_verifies w' = w_verifies w" by (simp add: sp(2) observe_def)
  assume "x \<in> set m"
  then obtain y where y: "y \<in> set (under pre (w_refs w'))" "x = (trim_prefix (fst y) pre, snd y)"
    unfolding sp(1) by (auto simp: strip_keys_def)
  then have "word (fst y)" "word (snd y)" using c by (auto simp: clean_refs_def under_def list_all_iff)
  moreover have "set (trim_prefix (fst y) pre) \<subseteq> set (fst y)"
    by (auto simp: trim_prefix_def dest: in_set_dropD)
  ultimately show "list_all (\<lambda>c. \<not> is_space c) (fst x) \<and> word (snd x)"
    using y(2) by (auto simp: word_def list_all_iff)
qed

subsection \<open>Phase 1\<close>

definition moved :: "promote_env \<Rightarrow> PromoteParams \<Rightarrow> pworld \<Rightarrow> pworld \<Rightarrow> bool" where
  "moved e p w w' \<longleftrightarrow> promo_inv e p w' \<and> grew w w'"

lemma moved_refl: "promo_inv e p w \<Longrightarrow> moved e p w w"
  by (simp add: moved_def)

lemma moved_trans: "moved e p w w1 \<Longrightarrow> moved e p w1 w2 \<Longrightarrow> moved e p w w2"
  by (auto simp: moved_def intro: grew_trans)

lemma movedD: "moved e p w w' \<Longrightarrow> promo_inv e p w'"
  by (simp add: moved_def)

lemma resolve_moved:
  assumes "ResolveIntegrationRef e (e_head e n) w = (x, w')" "documented_promote e" "promo_inv e p w"
  shows "moved e p w w' \<and> w_verifies w' = w_verifies w \<and> (\<forall>sha. x = Some sha \<longrightarrow> word sha)"
proof -
  let ?w1 = "observe e w"
  note g = documented_promote_git [OF assms(2)]
  have hw: "\<And>h. e_head e n = Some h \<Longrightarrow> word (trim_space h)" using assms(2) by (simp add: documented_promote_def)
  have c: "clean_refs (w_refs w)" using assms(3) by (simp add: promo_inv_def)
  have word: "\<forall>sha. x = Some sha \<longrightarrow> word sha"
  proof (intro allI impI)
    fix sha assume "x = Some sha"
    with assms(1) have "ResolveIntegrationRef e (e_head e n) w = (Some sha, w')" by simp
    from resolve_integration [OF this g c hw] show "word sha" by blast
  qed
  have m1: "moved e p w ?w1" using observe_inv [OF assms(2,3)] by (simp add: moved_def)
  have v1: "w_verifies ?w1 = w_verifies w" by (simp add: observe_def)
  have "moved e p w w' \<and> w_verifies w' = w_verifies w"
  proof (cases "read_integration e (w_refs ?w1)")
    case (Some y)
    with assms(1) m1 v1 show ?thesis by (simp add: ResolveIntegrationRef_def Let_def)
  next
    case none: None
    show ?thesis
    proof (cases "e_head e n")
      case None
      with assms(1) none m1 v1 show ?thesis by (simp add: ResolveIntegrationRef_def Let_def)
    next
      case (Some h0)
      let ?u = "\<lparr>ru_Verb = VerbCreate, ru_Ref = ''refs/loto/integration'', ru_NewSHA = trim_space h0, ru_OldSHA = []\<rparr>"
      have ok: "list_all ref_line_ok [?u]"
        using hw [OF Some] by (simp add: ref_line_ok_def integration_word VerbCreate_def)
      obtain er w2 where u: "UpdateRefsTx e [?u] ?w1 = (er, w2)" by (cases "UpdateRefsTx e [?u] ?w1")
      have "tx_kind e p [?u]" by (auto simp: tx_kind_def)
      from tx_inv [OF assms(2) movedD [OF m1] u _ ok this]
      have m2: "moved e p ?w1 w2" "w_verifies w2 = w_verifies ?w1" by (simp_all add: moved_def)
      note m12 = moved_trans [OF m1 m2(1)]
      have m3: "moved e p w2 (observe e w2)" "w_verifies (observe e w2) = w_verifies w2"
        using observe_inv [OF assms(2) movedD [OF m2(1)]] by (simp_all add: moved_def observe_def)
      show ?thesis
        using assms(1) none Some u m12 m2(2) v1 moved_trans [OF m12 m3(1)] m3(2)
        by (auto simp: ResolveIntegrationRef_def Let_def split: option.splits)
    qed
  qed
  with word show ?thesis by blast
qed

lemma del_ref_ok: "word name \<Longrightarrow> word old \<Longrightarrow> ref_line_ok (del_ref name old)"
  by (simp add: ref_line_ok_def del_ref_def VerbCreate_def VerbUpdate_def VerbDelete_def)

lemma release_kind: "tx_kind e p [del_ref (promotingRef bid) tip]"
  by (auto simp: tx_kind_def)

lemma reclaim_one_moved:
  assumes "reclaimOnePromotion e ec bid tip v w = (er, v', w')" "documented_promote e" "promo_inv e p w"
    and "list_all (\<lambda>c. \<not> is_space c) bid" "word tip"
  shows "moved e p w w' \<and> w_verifies w' = w_verifies w"
proof -
  obtain cer cl where cl: "readPromotionClaim (e_git e (w_tick w)) tip = (cer, cl)"
    by (cases "readPromotionClaim (e_git e (w_tick w)) tip")
  show ?thesis
  proof (cases "cer = None \<and> CandidateClaimIsDead ec (claim_of_promoter cl)")
    case False
    with assms(1,3) cl have "w' = w"
      by (cases cer) (auto simp: reclaimOnePromotion_def split: if_splits)
    with assms(3) show ?thesis by (simp add: moved_refl)
  next
    case True
    obtain er1 w1 where u: "UpdateRefsTx e [del_ref (promotingRef bid) tip] w = (er1, w1)"
      by (cases "UpdateRefsTx e [del_ref (promotingRef bid) tip] w")
    have "w' = w1"
      using assms(1) cl True u by (auto simp: reclaimOnePromotion_def del_ref_def split: option.splits)
    with tx_inv [OF assms(2,3) u _ _ release_kind] del_ref_ok assms(4,5)
    show ?thesis by (simp add: moved_def ref_words)
  qed
qed

lemma reclaim_loop_moved:
  assumes "reclaim_loop e ec refs bids v w = (er, v', w')" "documented_promote e" "promo_inv e p w"
    and "\<forall>bid \<in> set bids. list_all (\<lambda>c. \<not> is_space c) bid \<and> word (the (map_of refs bid))"
  shows "moved e p w w' \<and> w_verifies w' = w_verifies w"
  using assms
proof (induction e ec refs bids v w rule: reclaim_loop.induct)
  case (1 e ec refs v w)
  then show ?case by (simp add: moved_refl)
next
  case (2 e ec refs bid bids v w)
  obtain er1 v1 w1 where one: "reclaimOnePromotion e ec bid (the (map_of refs bid)) v w = (er1, v1, w1)"
    by (cases "reclaimOnePromotion e ec bid (the (map_of refs bid)) v w")
  have m1: "moved e p w w1 \<and> w_verifies w1 = w_verifies w"
    using reclaim_one_moved [OF one "2.prems"(2,3)] "2.prems"(4) by simp
  show ?case
  proof (cases er1)
    case None
    with "2.prems"(1) one have r: "reclaim_loop e ec refs bids v1 w1 = (er, v', w')" by simp
    have "\<forall>bid \<in> set bids. list_all (\<lambda>c. \<not> is_space c) bid \<and> word (the (map_of refs bid))" using "2.prems"(4) by simp
    from "2.IH" [OF one [symmetric] None refl r "2.prems"(2) movedD [OF conjunct1 [OF m1]] this] m1
    show ?thesis using moved_trans by auto
  next
    case (Some er2)
    with "2.prems"(1) one m1 show ?thesis by simp
  qed
qed

lemma keys_words:
  assumes "\<And>x. x \<in> set m \<Longrightarrow> list_all (\<lambda>c. \<not> is_space c) (fst x) \<and> word (snd x)" "k \<in> set (map fst m)"
  shows "list_all (\<lambda>c. \<not> is_space c) k \<and> word (the (map_of m k))"
proof -
  obtain v where "map_of m k = Some v" using assms(2) by (auto simp: map_of_eq_None_iff)
      (metis assms(2) list.set_map map_of_eq_None_iff option.exhaust)
  then have "(k, v) \<in> set m" by (rule map_of_SomeD)
  from assms(1) [OF this] \<open>map_of m k = Some v\<close> show ?thesis by simp
qed

lemma reclaim_moved:
  assumes "reclaimDeadPromotions e p w = (er, v, w')" "documented_promote e" "promo_inv e q w"
  shows "moved e q w w' \<and> w_verifies w' = w_verifies w"
proof -
  obtain lo w1 where l: "listRefsWithSHAs e promotingRefPrefix w = (lo, w1)"
    by (cases "listRefsWithSHAs e promotingRefPrefix w")
  show ?thesis
  proof (cases lo)
    case None
    then have "w1 = observe e w" using l by (auto simp: listRefsWithSHAs_def Let_def)
    with assms(1) l None observe_inv [OF assms(2,3)] show ?thesis
      by (auto simp: reclaimDeadPromotions_def Let_def moved_def observe_def)
  next
    case (Some m)
    note lw = listing_words [OF l [unfolded Some] assms(2,3) prefixes_clean(3)]
    from assms(1) l Some have r: "reclaim_loop e (promoter_ctx e p (w_tick w1)) m (sort (map fst m))
        \<lparr>rv_claimed = [], rv_blocked = False, rv_warnings = []\<rparr> w1 = (er, v, w')"
      by (simp add: reclaimDeadPromotions_def Let_def)
    have "\<forall>bid \<in> set (sort (map fst m)). list_all (\<lambda>c. \<not> is_space c) bid \<and> word (the (map_of m bid))"
      using keys_words [OF lw(1)] by simp
    from reclaim_loop_moved [OF r assms(2) lw(3) this] lw(3-5) show ?thesis
      by (auto simp: moved_def intro: grew_trans)
  qed
qed

definition stale_only :: "CandidateOutcome list \<Rightarrow> bool" where
  "stale_only outs \<longleftrightarrow> (\<forall>x \<in> set outs. co_Class x \<in> {OutcomeStalePreimage, OutcomeStaleAncestry})"

definition members_ok :: "promote_env \<Rightarrow> string \<Rightarrow> member list \<Rightarrow> bool" where
  "members_ok e snapshot ms \<longleftrightarrow>
     distinct (map mb_candidateID ms) \<and> disjoint_writes ms \<and>
     (\<forall>m \<in> set ms. fresh_at e snapshot m \<and> e_blob e (mb_envelopeSHA m) = Some (mb_env m) \<and>
        word (candidateRef (mb_candidateID m)) \<and> word (proposalRef (mb_candidateID m)) \<and>
        word (mb_envelopeSHA m) \<and> word (mb_proposalSHA m))"

lemma no_selection_inv: "sel_inv e snapshot refs props claimed only no_selection"
  by (simp add: sel_inv_def no_selection_def disjoint_writes_def)

lemma sorted_distinct_subseq: "subseq xs ys \<Longrightarrow> distinct ys \<Longrightarrow> distinct xs"
  by (metis subseq_conv_nths distinct_nthsI)

lemma select_spec:
  assumes "selectCandidates e p snapshot claimed only w = ((er, ms, outs), w')" "documented_promote e" "promo_inv e q w"
  shows "moved e q w w' \<and> w_verifies w' = w_verifies w \<and> stale_only outs \<and>
    (er = None \<longrightarrow> members_ok e snapshot ms \<and> (0 \<le> pp_MaxBatch p \<longrightarrow> int (length ms) \<le> pp_MaxBatch p))"
proof -
  obtain lo w1 where l: "listRefsWithSHAs e candidateRefPrefix w = (lo, w1)"
    by (cases "listRefsWithSHAs e candidateRefPrefix w")
  have fail: "moved e q w0 (observe e w0)" "w_verifies (observe e w0) = w_verifies w0"
    if "promo_inv e q w0" for w0 :: pworld
    using observe_inv [OF assms(2) that] by (simp_all add: moved_def observe_def)
  have obs: "\<And>pre w0 w0' x. listRefsWithSHAs e pre w0 = (x, w0') \<Longrightarrow> w0' = observe e (w0 :: pworld)"
    by (auto simp: listRefsWithSHAs_def Let_def)
  show ?thesis
  proof (cases lo)
    case None
    with assms(1) l obs [OF l] fail [OF assms(3)] show ?thesis
      by (auto simp: selectCandidates_def stale_only_def)
  next
    case refs: (Some refs)
    note c = listing_words [OF l [unfolded refs] assms(2,3) prefixes_clean(1)]
    have m1: "moved e q w w1" using c(3,4) by (simp add: moved_def)
    obtain po w2 where l2: "listRefsWithSHAs e proposalRefPrefix w1 = (po, w2)"
      by (cases "listRefsWithSHAs e proposalRefPrefix w1")
    show ?thesis
    proof (cases po)
      case None
      with assms(1) l refs l2 obs [OF l2] fail [OF c(3)] moved_trans [OF m1] c(5) show ?thesis
        by (auto simp: selectCandidates_def stale_only_def)
    next
      case props: (Some props)
      note pr = listing_words [OF l2 [unfolded props] assms(2) c(3) prefixes_clean(2)]
      have m2: "moved e q w w2" using m1 pr(3,4) by (auto simp: moved_def intro: grew_trans)
      obtain er0 s' where lp: "select_loop e (e_git e (w_tick w2)) (pp_MaxBatch p) snapshot refs props claimed only
          (sort (map fst refs)) no_selection = (er0, s')"
        by (cases "select_loop e (e_git e (w_tick w2)) (pp_MaxBatch p) snapshot refs props claimed only
          (sort (map fst refs)) no_selection")
      have r: "er = map_option ErrGate er0" "ms = se_members s'" "outs = se_outcomes s'" "w' = w2"
        using assms(1) l refs l2 props lp by (simp_all add: selectCandidates_def Let_def)
      note inv = select_loop_inv [OF lp refl no_selection_inv]
      have so: "stale_only outs" using inv r(3) by (auto simp: sel_inv_def stale_only_def)
      have ok: "members_ok e snapshot ms \<and> (0 \<le> pp_MaxBatch p \<longrightarrow> int (length ms) \<le> pp_MaxBatch p)" if "er = None"
      proof -
        have er0: "er0 = None" using that r(1) by simp
        have si: "sel_inv e snapshot refs props claimed only s'" using inv er0 by simp
        obtain ms0 where st: "se_members s' = ms0" "subseq (map mb_candidateID ms0) (sort (map fst refs))"
          "0 \<le> pp_MaxBatch p \<longrightarrow> int (length (se_members s')) \<le> pp_MaxBatch p"
          using select_loop_steps [OF lp [unfolded er0] refl no_selection_inv] by (auto simp: no_selection_def)
        have d: "distinct (map mb_candidateID ms)"
          using sorted_distinct_subseq [OF st(2)] c(2) r(2) st(1) by simp
        have "fresh_at e snapshot m \<and> e_blob e (mb_envelopeSHA m) = Some (mb_env m) \<and>
          word (candidateRef (mb_candidateID m)) \<and> word (proposalRef (mb_candidateID m)) \<and>
          word (mb_envelopeSHA m) \<and> word (mb_proposalSHA m)" if m: "m \<in> set ms" for m
        proof -
          have ch: "chosen e snapshot refs props claimed only m"
            using m si r(2) by (simp add: sel_inv_def list_all_iff)
          then have lm: "loadMember e (mb_candidateID m) (the (map_of refs (mb_candidateID m))) props = Some m"
            "fresh_at e snapshot m" by (simp_all add: chosen_def)
          note f = loadMember_fields [OF lm(1)]
          have "mb_candidateID m \<in> set (map fst refs)"
          proof -
            have "mb_candidateID m \<in> set (map mb_candidateID ms0)" using m r(2) st(1) by simp
            then have "mb_candidateID m \<in> set (sort (map fst refs))"
              using st(2) by (metis subseq_conv_nths notin_set_nthsI)
            then show ?thesis by simp
          qed
          from keys_words [OF c(1) this] f have "list_all (\<lambda>c. \<not> is_space c) (mb_candidateID m)" "word (mb_envelopeSHA m)"
            by simp_all
          moreover have "(mb_candidateID m, mb_proposalSHA m) \<in> set props" using f by (simp add: map_of_SomeD)
          then have "word (mb_proposalSHA m)" using pr(1) by fastforce
          ultimately show ?thesis using lm(2) f by (simp add: ref_words)
        qed
        with d si r(2) st(1,3) show ?thesis by (auto simp: members_ok_def sel_inv_def)
      qed
      from m2 c(5) pr(5) so ok r(4) show ?thesis by auto
    qed
  qed
qed

lemma chain_tip_word:
  "chain_loop e p b base ms = Inr tip \<Longrightarrow> ms \<noteq> [] \<Longrightarrow> documented_promote e \<Longrightarrow> word tip"
proof (induction e p b base ms rule: chain_loop.induct)
  case (1 e p b base)
  then show ?case by simp
next
  case (2 e p b base m ms)
  then obtain tree commit where c: "applyTransitions e base (env_Transitions (mb_env m)) = Inr tree"
    "commitTree e p tree base m b (ms = []) = Inr commit" "chain_loop e p b commit ms = Inr tip"
    by (auto split: sum.splits)
  show ?case
  proof (cases "ms = []")
    case True
    then have "tip = commit" using c(3) by simp
    with c(2) "2.prems"(3) show ?thesis by (auto simp: commitTree_def documented_promote_def split: option.splits)
  next
    case False
    from "2.IH" [OF c(1,2,3) False "2.prems"(3)] show ?thesis .
  qed
qed

lemma phase1_spec:
  assumes "promotePhase1For e p only w = ((er, bo, outs), w')" "documented_promote e" "promo_inv e p w"
  shows "moved e p w w' \<and> w_verifies w' = w_verifies w \<and> stale_only outs \<and>
    (\<forall>b. bo = Some b \<longrightarrow> er = None \<and> batch_ok e p b \<and> batch_words b \<and>
       (0 \<le> pp_MaxBatch p \<longrightarrow> int (length (ba_members b)) \<le> pp_MaxBatch p))"
proof (cases "e_flock e (w_tick w)")
  case False
  with assms show ?thesis by (auto simp: promotePhase1For_def moved_refl stale_only_def)
next
  case fl: True
  obtain so w1 where rs: "ResolveIntegrationRef e (e_head e (w_tick w)) w = (so, w1)"
    by (cases "ResolveIntegrationRef e (e_head e (w_tick w)) w")
  note m1 = resolve_moved [OF rs assms(2,3)]
  show ?thesis
  proof (cases so)
    case None
    with assms(1) fl rs m1 show ?thesis by (auto simp: promotePhase1For_def stale_only_def)
  next
    case snap: (Some snapshot)
    obtain re v w2 where rc: "reclaimDeadPromotions e p w1 = (re, v, w2)" by (cases "reclaimDeadPromotions e p w1")
    note m2 = reclaim_moved [OF rc assms(2) movedD [OF conjunct1 [OF m1]]]
    have m12: "moved e p w w2" using m1 m2 moved_trans by blast
    let ?w3 = "w2\<lparr>w_warnings := w_warnings w2 @ rv_warnings v\<rparr>"
    have m3: "moved e p w ?w3" using m12 by (simp add: moved_def promo_inv_def grew_def)
    have v3: "w_verifies ?w3 = w_verifies w" using m1 m2 by simp
    show ?thesis
    proof (cases "re \<noteq> None \<or> rv_blocked v")
      case True
      with assms(1) fl rs snap rc m12 m3 v3 m1 m2 show ?thesis
        by (cases re) (auto simp: promotePhase1For_def stale_only_def)
    next
      case ok: False
      obtain se ms os w4 where sel: "selectCandidates e p snapshot (rv_claimed v) only ?w3 = ((se, ms, os), w4)"
        by (cases "selectCandidates e p snapshot (rv_claimed v) only ?w3") auto
      note sp = select_spec [OF sel assms(2) movedD [OF m3]]
      have m4: "moved e p w w4" using sp m3 moved_trans by blast
      have v4: "w_verifies w4 = w_verifies w" using sp v3 by simp
      let ?b = "\<lparr>ba_id = e_batch_id e (w_tick w4), ba_snapshot = snapshot, ba_chainTip = [], ba_members = ms\<rparr>"
      show ?thesis
      proof (cases "se \<noteq> None \<or> ms = []")
        case True
        with assms(1) fl rs snap rc ok sel m4 v4 sp show ?thesis
          by (auto simp: promotePhase1For_def Let_def)
      next
        case go: False
        show ?thesis
        proof (cases "buildChain e p ?b (w_tick w4)")
          case (Inl ce)
          with assms(1) fl rs snap rc ok sel go m4 v4 sp show ?thesis
            by (auto simp: promotePhase1For_def Let_def)
        next
          case (Inr tip)
          then have ch: "chain_loop e p ?b snapshot ms = Inr tip" by (auto simp: buildChain_def split: if_splits)
          have tw: "word tip" using chain_tip_word [OF ch _ assms(2)] go by simp
          have bw: "word (promotingRef (ba_id ?b))"
          proof -
            have "word (e_batch_id e (w_tick w4))" using assms(2) by (simp add: documented_promote_def)
            then show ?thesis by (simp add: ref_words) (simp add: word_def)
          qed
          let ?u = "\<lparr>ru_Verb = VerbCreate, ru_Ref = promotingRef (ba_id ?b), ru_NewSHA = tip, ru_OldSHA = []\<rparr>"
          obtain ue w5 where up: "UpdateRefsTx e [?u] w4 = (ue, w5)" by (cases "UpdateRefsTx e [?u] w4")
          have k: "tx_kind e p [?u]" unfolding tx_kind_def by blast
          have lo: "list_all ref_line_ok [?u]" using tw bw by (simp add: ref_line_ok_def VerbCreate_def)
          note tx = tx_inv [OF assms(2) movedD [OF m4] up _ lo k]
          have m5: "moved e p w w5" using moved_trans [OF m4] tx by (simp add: moved_def)
          have v5: "w_verifies w5 = w_verifies w" using tx v4 by simp
          have res: "er = map_option ErrRefs ue" "bo = (if ue = None then Some (?b\<lparr>ba_chainTip := tip\<rparr>) else None)"
            "outs = os" "w' = w5"
            using assms(1) fl rs snap rc ok sel go Inr up
            by (auto simp: promotePhase1For_def Let_def split: option.splits)
          have mo: "members_ok e snapshot ms" "0 \<le> pp_MaxBatch p \<longrightarrow> int (length ms) \<le> pp_MaxBatch p"
            using sp go by auto
          have "batch_ok e p (?b\<lparr>ba_chainTip := tip\<rparr>)"
            using mo(1) ch go by (simp add: batch_ok_def members_ok_def candidateIDs_def)
          moreover have "batch_words (?b\<lparr>ba_chainTip := tip\<rparr>)"
            using mo(1) tw bw m1 snap by (simp add: batch_words_def members_ok_def)
          ultimately show ?thesis using m5 v5 sp res mo(2) by auto
        qed
      qed
    qed
  qed
qed

subsection \<open>Phases 2 and 3\<close>

text \<open>What backs an outcome: a promotion and a rejection rest on a committed transaction of this call.\<close>

definition backed :: "promote_env \<Rightarrow> PromoteParams \<Rightarrow> pworld \<Rightarrow> CandidateOutcome \<Rightarrow> bool" where
  "backed e p w x \<longleftrightarrow>
     (co_Class x = OutcomePromoted \<longrightarrow>
        (\<exists>g \<in> set (w_log w). \<exists>b. lg_error g = None \<and> committable e p b \<and> lg_updates g = phase3_updates b \<and>
           co_CandidateID x \<in> set (candidateIDs b))) \<and>
     (co_Class x = OutcomeVerifyRed \<longrightarrow>
        (\<exists>g \<in> set (w_log w). \<exists>b m. lg_error g = None \<and> rejectable e p b m \<and> lg_updates g = retire_updates b m \<and>
           co_CandidateID x = mb_candidateID m))"

definition all_backed :: "promote_env \<Rightarrow> PromoteParams \<Rightarrow> pworld \<Rightarrow> CandidateOutcome list \<Rightarrow> bool" where
  "all_backed e p w xs \<longleftrightarrow> (\<forall>x \<in> set xs. backed e p w x)"

lemma all_backed_simps [simp]:
  "all_backed e p w []" "all_backed e p w (xs @ ys) \<longleftrightarrow> all_backed e p w xs \<and> all_backed e p w ys"
  by (auto simp: all_backed_def)

lemma all_backed_grew: "all_backed e p w xs \<Longrightarrow> grew w w' \<Longrightarrow> all_backed e p w' xs"
  unfolding all_backed_def backed_def grew_def by blast

lemma all_backed_moved: "all_backed e p w xs \<Longrightarrow> moved e p w w' \<Longrightarrow> all_backed e p w' xs"
  by (auto simp: moved_def intro: all_backed_grew)

lemma stale_backed: "stale_only xs \<Longrightarrow> all_backed e p w xs"
  by (auto simp: stale_only_def all_backed_def backed_def)

lemma classifyAll_backed:
  "cl \<noteq> OutcomePromoted \<Longrightarrow> cl \<noteq> OutcomeVerifyRed \<Longrightarrow> all_backed e p w (classifyAll b cl detail)"
  by (auto simp: classifyAll_def all_backed_def backed_def member_outcome_def)

lemma phase3_lines:
  assumes "batch_words b"
  shows "list_all ref_line_ok (phase3_updates b)" "phase3_updates b \<noteq> []"
proof -
  have i: "ref_line_ok \<lparr>ru_Verb = VerbUpdate, ru_Ref = ''refs/loto/integration'', ru_NewSHA = ba_chainTip b,
      ru_OldSHA = ba_snapshot b\<rparr>"
    using assms by (simp add: batch_words_def ref_line_ok_def integration_word VerbCreate_def VerbUpdate_def)
  have "ref_line_ok u" if "u \<in> set (phase3_updates b)" for u
    using that assms i del_ref_ok by (auto simp: phase3_updates_def batch_words_def)
  then show "list_all ref_line_ok (phase3_updates b)" by (simp add: list_all_iff)
  show "phase3_updates b \<noteq> []" by (simp add: phase3_updates_def)
qed

lemma retire_lines:
  "batch_words b \<Longrightarrow> m \<in> set (ba_members b) \<Longrightarrow> list_all ref_line_ok (retire_updates b m)"
  by (simp add: retire_updates_def batch_words_def del_ref_ok)

lemma release_moved:
  assumes "releaseBatch e b w = (er, w')" "documented_promote e" "promo_inv e p w" "batch_words b"
  shows "moved e p w w' \<and> w_verifies w' = w_verifies w"
proof -
  obtain ue w1 where u: "UpdateRefsTx e [del_ref (promotingRef (ba_id b)) (ba_chainTip b)] w = (ue, w1)"
    by (cases "UpdateRefsTx e [del_ref (promotingRef (ba_id b)) (ba_chainTip b)] w")
  have "w' = w1" using assms(1) u by (simp add: releaseBatch_def del_ref_def)
  with tx_inv [OF assms(2,3) u _ _ release_kind] del_ref_ok assms(4) show ?thesis
    by (simp add: moved_def batch_words_def)
qed

lemma verify_moved:
  assumes "timedVerify e b w = ((vr, verr), w')" "documented_promote e" "promo_inv e p w"
  shows "moved e p w w' \<and> length (w_verifies w') = Suc (length (w_verifies w)) \<and>
    (verr = None \<longrightarrow> verdict e (ba_chainTip b) (lv_Passed vr))"
proof -
  from assms(1) have v: "e_verify e (w_tick w) (ba_chainTip b) = (vr, verr)"
    and l: "w_log w' = w_log w" "w_refs w' = w_refs (observe e w)" "length (w_verifies w') = Suc (length (w_verifies w))"
    by (auto simp: timedVerify_def Let_def observe_def)
  have "moved e p w w'"
    using observe_inv [OF assms(2,3)] l by (auto simp: moved_def promo_inv_def grew_def)
  with v l(3) show ?thesis unfolding verdict_def by blast
qed

lemma promoted_loop_frame:
  "snd (promoted_loop e ms w) = w\<lparr>w_released := w_released w @ map mb_candidateID ms\<rparr>"
  "set (map co_CandidateID (fst (promoted_loop e ms w))) \<subseteq> mb_candidateID ` set ms"
  "\<forall>x \<in> set (fst (promoted_loop e ms w)). co_Class x = OutcomePromoted"
  by (induction e ms w rule: promoted_loop.induct) (simp_all add: Let_def member_outcome_def insert_mono subset_insertI2)

lemma phase3_moved:
  assumes "promotePhase3 e b w = (er, w')" "documented_promote e" "promo_inv e p w" "batch_words b" "committable e p b"
  shows "moved e p w w' \<and> w_verifies w' = w_verifies w \<and>
    (er = None \<longrightarrow> (\<exists>g \<in> set (w_log w'). lg_error g = None \<and> lg_updates g = phase3_updates b))"
proof (cases "e_flock e (w_tick w)")
  case False
  with assms(1,3) show ?thesis by (auto simp: promotePhase3_def moved_refl)
next
  case True
  obtain ue w1 where u: "UpdateRefsTx e (phase3_updates b) w = (ue, w1)"
    by (cases "UpdateRefsTx e (phase3_updates b) w")
  have k: "tx_kind e p (phase3_updates b)" using assms(5) by (auto simp: tx_kind_def)
  note t = tx_inv [OF assms(2,3) u phase3_lines(2,1) [OF assms(4)] k]
  have "w' = w1 \<and> (er = None \<longrightarrow> ue = None)"
    using assms(1) True u by (cases ue) (auto simp: promotePhase3_def)
  with t show ?thesis by (auto simp: moved_def)
qed

lemma promoted_moved:
  assumes "promoted e b w = (xs, w')" "promo_inv e p w" "committable e p b"
    and "\<exists>g \<in> set (w_log w). lg_error g = None \<and> lg_updates g = phase3_updates b"
  shows "moved e p w w' \<and> w_verifies w' = w_verifies w \<and> all_backed e p w' xs"
proof -
  have w': "w' = w\<lparr>w_released := w_released w @ map mb_candidateID (ba_members b)\<rparr>"
    using assms(1) promoted_loop_frame(1) [of e "ba_members b" w] by (simp add: promoted_def)
  have xs: "set (map co_CandidateID xs) \<subseteq> set (candidateIDs b)" "\<forall>x \<in> set xs. co_Class x = OutcomePromoted"
    using assms(1) promoted_loop_frame(2,3) [of e "ba_members b" w] by (simp_all add: promoted_def candidateIDs_def)
  have "backed e p w' x" if "x \<in> set xs" for x
  proof -
    have "co_CandidateID x \<in> set (candidateIDs b)" using that xs(1) by auto
    moreover obtain g where "g \<in> set (w_log w')" "lg_error g = None" "lg_updates g = phase3_updates b"
      using assms(4) w' by auto
    ultimately show ?thesis using assms(3) xs(2) that unfolding backed_def by fastforce
  qed
  then show ?thesis using assms(2) w' by (auto simp: moved_def promo_inv_def grew_def all_backed_def)
qed

lemma reject_moved:
  assumes "rejectSolo e b out w = (r, w')" "documented_promote e" "promo_inv e p w" "batch_words b"
    and "rejectable e p b m"
  shows "moved e p w w' \<and> w_verifies w' = w_verifies w \<and> (\<forall>xs. r = Inr xs \<longrightarrow> all_backed e p w' xs)"
proof -
  have m: "ba_members b = [m]" using assms(5) by (simp add: rejectable_def)
  obtain ue w1 where u: "UpdateRefsTx e (retire_updates b m) w = (ue, w1)"
    by (cases "UpdateRefsTx e (retire_updates b m) w")
  have k: "tx_kind e p (retire_updates b m)" using assms(5) by (auto simp: tx_kind_def)
  have "retire_updates b m \<noteq> []" by (simp add: retire_updates_def)
  note t = tx_inv [OF assms(2,3) u this retire_lines [OF assms(4)] k]
  show ?thesis
  proof (cases ue)
    case (Some er)
    then have "w' = w1 \<and> (\<exists>er. r = Inl er)" using assms(1) u m by (auto simp: rejectSolo_def Let_def)
    with t m show ?thesis by (auto simp: moved_def)
  next
    case None
    obtain x where r: "r = Inr [x]" "co_CandidateID x = mb_candidateID m" "co_Class x = OutcomeVerifyRed"
      "w' = w1\<lparr>w_released := w_released w1 @ [mb_candidateID m]\<rparr>"
      using assms(1) u m None by (auto simp: rejectSolo_def Let_def member_outcome_def)
    have mv: "moved e p w w1" "w_verifies w1 = w_verifies w" using t m by (simp_all add: moved_def)
    obtain g where g: "g \<in> set (w_log w1)" "lg_updates g = retire_updates b m" "lg_error g = None"
      using t m None by auto
    have "backed e p w' x" using g r assms(5) unfolding backed_def by auto
    with r mv show ?thesis by (auto simp: moved_def promo_inv_def grew_def all_backed_def)
  qed
qed

subsection \<open>The whole call\<close>

lemma solo_moved:
  assumes "promoteSolo e p cid w = ((er, stop, outs), w')" "documented_promote e" "promo_inv e p w"
  shows "moved e p w w' \<and> all_backed e p w' outs \<and> length (w_verifies w') \<le> Suc (length (w_verifies w))"
proof -
  let ?q = "p\<lparr>pp_MaxBatch := 1\<rparr>"
  obtain pe bo os w1 where ph: "promotePhase1For e ?q cid w = ((pe, bo, os), w1)"
    by (cases "promotePhase1For e ?q cid w") auto
  have sp: "moved e p w w1" "w_verifies w1 = w_verifies w" "all_backed e p w1 os"
    "\<And>b. bo = Some b \<Longrightarrow> pe = None \<and> batch_ok e p b \<and> batch_words b \<and> length (ba_members b) \<le> 1"
    using phase1_spec [OF ph assms(2)] assms(3) by (auto simp: moved_def stale_backed)
  show ?thesis
  proof (cases bo)
    case None
    with assms(1) ph sp show ?thesis by (cases pe) (auto simp: promoteSolo_def)
  next
    case (Some b)
    note b = sp(4) [OF Some]
    obtain m where m: "ba_members b = [m]"
    proof -
      have "ba_members b \<noteq> []" "length (ba_members b) \<le> 1" using b by (auto simp: batch_ok_def)
      then show ?thesis using that by (cases "ba_members b") auto
    qed
    obtain vr verr w2 where tv: "timedVerify e b w1 = ((vr, verr), w2)" by (cases "timedVerify e b w1") auto
    note v = verify_moved [OF tv assms(2) movedD [OF sp(1)]]
    have m2: "moved e p w w2" using v sp(1) moved_trans by blast
    have i2: "promo_inv e p w2" by (rule movedD [OF m2])
    have n2: "length (w_verifies w2) = Suc (length (w_verifies w))" using v sp(2) by simp
    have os: "all_backed e p w0 os" if "moved e p w1 w0" for w0 by (rule all_backed_moved [OF sp(3) that])
    have m12: "moved e p w1 w2" using v by blast
    obtain re w3 where rl: "releaseBatch e b w2 = (re, w3)" by (cases "releaseBatch e b w2")
    have rm: "moved e p w2 w3" "w_verifies w3 = w_verifies w2"
      using release_moved [OF rl assms(2) i2] b by auto
    show ?thesis
    proof (cases verr)
      case err: (Some msg)
      with assms(1) ph Some b tv rl have "w' = w3 \<and> (outs = os \<or> outs = os @ classifyAll b OutcomeVerifyInfra msg)"
        by (auto simp: promoteSolo_def split: option.splits)
      with rm n2 moved_trans [OF m2 rm(1)] os [OF moved_trans [OF m12 rm(1)]] show ?thesis
        by (auto simp: classifyAll_backed)
    next
      case ok: None
      show ?thesis
      proof (cases "lv_Passed vr")
        case False
        obtain r w4 where rj: "rejectSolo e b (lv_Output vr) w2 = (r, w4)" by (cases "rejectSolo e b (lv_Output vr) w2")
        have "rejectable e p b m" using b m v ok False by (simp add: rejectable_def)
        note rj' = reject_moved [OF rj assms(2) i2 _ this]
        have m4: "moved e p w2 w4" "w_verifies w4 = w_verifies w2" "\<And>xs. r = Inr xs \<Longrightarrow> all_backed e p w4 xs"
          using rj' b by auto
        from assms(1) ph Some b tv ok False rj have "w' = w4 \<and> (outs = os \<or> (\<exists>xs. r = Inr xs \<and> outs = os @ xs))"
          by (auto simp: promoteSolo_def split: sum.splits)
        with m4 n2 moved_trans [OF m2 m4(1)] os [OF moved_trans [OF m12 m4(1)]] show ?thesis by auto
      next
        case True
        have com: "committable e p b" using b v ok True by (simp add: committable_def)
        obtain pe3 w4 where p3: "promotePhase3 e b w2 = (pe3, w4)" by (cases "promotePhase3 e b w2")
        have m4: "moved e p w2 w4" "w_verifies w4 = w_verifies w2"
          "pe3 = None \<Longrightarrow> \<exists>g \<in> set (w_log w4). lg_error g = None \<and> lg_updates g = phase3_updates b"
          using phase3_moved [OF p3 assms(2) i2 _ com] b by auto
        show ?thesis
        proof (cases pe3)
          case fin: None
          obtain xs w5 where pr: "promoted e b w4 = (xs, w5)" by (cases "promoted e b w4")
          note m5 = promoted_moved [OF pr movedD [OF m4(1)] com m4(3) [OF fin]]
          from assms(1) ph Some b tv ok True p3 fin pr have "w' = w5 \<and> outs = os @ xs" by (auto simp: promoteSolo_def)
          moreover have "moved e p w2 w5" using m4(1) m5 moved_trans by blast
          ultimately show ?thesis
            using m4(2) m5 n2 moved_trans [OF m2] os [OF moved_trans [OF m12]] by auto
        next
          case (Some pe4)
          obtain re5 w5 where rl5: "releaseBatch e b w4 = (re5, w5)" by (cases "releaseBatch e b w4")
          have r5: "moved e p w4 w5" "w_verifies w5 = w_verifies w4"
            using release_moved [OF rl5 assms(2) movedD [OF m4(1)]] b by auto
          from assms(1) ph \<open>bo = Some b\<close> b tv ok True p3 Some rl5
          have "(w' = w4 \<and> outs = os) \<or> (w' = w5 \<and> (outs = os \<or>
              outs = os @ classifyAll b OutcomePromotionRace ''gate: integration moved under the batch''))"
            by (auto simp: promoteSolo_def split: option.splits if_splits)
          moreover have "moved e p w2 w5" using m4(1) r5(1) by (rule moved_trans)
          ultimately show ?thesis
            using m4 r5 n2 moved_trans [OF m2] os [OF moved_trans [OF m12]] by (auto simp: classifyAll_backed)
        qed
      qed
    qed
  qed
qed

lemma sweep_moved:
  assumes "redBatchSweep e p ms w = ((er, stop, outs), w')" "documented_promote e" "promo_inv e p w"
  shows "moved e p w w' \<and> all_backed e p w' outs \<and> length (w_verifies w') \<le> length ms + length (w_verifies w)"
  using assms
proof (induction e p ms w arbitrary: er stop outs rule: redBatchSweep.induct)
  case (1 e p w)
  then show ?case by (simp add: moved_refl)
next
  case (2 e p m ms w)
  obtain se st os w1 where s: "promoteSolo e p (mb_candidateID m) w = ((se, st, os), w1)"
    by (cases "promoteSolo e p (mb_candidateID m) w") auto
  note m1 = solo_moved [OF s "2.prems"(2,3)]
  show ?case
  proof (cases "se \<noteq> None \<or> st")
    case True
    with "2.prems"(1) s m1 show ?thesis by auto
  next
    case False
    obtain te tt os2 w2 where t: "redBatchSweep e p ms w1 = ((te, tt, os2), w2)"
      by (cases "redBatchSweep e p ms w1") auto
    from "2.prems"(1) s False t have r: "w' = w2" "outs = os @ os2" by auto
    note m2 = "2.IH" [OF s [symmetric] refl refl False t [folded r(1)] "2.prems"(2) movedD [OF conjunct1 [OF m1]]]
    from m1 m2 r moved_trans [of e p w w1 w2] all_backed_moved [of e p w1 os w2] show ?thesis by auto
  qed
qed

lemma verify_commit_moved:
  assumes "promoteVerifyAndCommit e p b w = ((er, stop, outs), w')" "documented_promote e" "promo_inv e p w"
    and "batch_ok e p b" "batch_words b"
  shows "moved e p w w' \<and> all_backed e p w' outs \<and>
    length (w_verifies w') \<le> Suc (length (ba_members b)) + length (w_verifies w)"
proof -
  obtain vr verr w1 where tv: "timedVerify e b w = ((vr, verr), w1)" by (cases "timedVerify e b w") auto
  note v = verify_moved [OF tv assms(2,3)]
  have m1: "moved e p w w1" and i1: "promo_inv e p w1" using v movedD by blast+
  obtain re w2 where rl: "releaseBatch e b w1 = (re, w2)" by (cases "releaseBatch e b w1")
  have rm: "moved e p w1 w2" "w_verifies w2 = w_verifies w1" using release_moved [OF rl assms(2) i1 assms(5)] by auto
  note m2 = moved_trans [OF m1 rm(1)]
  show ?thesis
  proof (cases verr)
    case (Some msg)
    with assms(1) tv rl have "w' = w2" "outs = classifyAll b OutcomeVerifyInfra msg"
      by (auto simp: promoteVerifyAndCommit_def)
    with m2 rm v show ?thesis by (simp add: classifyAll_backed)
  next
    case ok: None
    show ?thesis
    proof (cases "lv_Passed vr")
      case False
      show ?thesis
      proof (cases re)
        case (Some er1)
        with assms(1) tv ok False rl have "w' = w2" "outs = []" by (auto simp: promoteVerifyAndCommit_def)
        with m2 rm v show ?thesis by simp
      next
        case None
        with assms(1) tv ok False rl have "redBatchSweep e p (ba_members b) w2 = ((er, stop, outs), w')"
          by (auto simp: promoteVerifyAndCommit_def)
        from sweep_moved [OF this assms(2) movedD [OF m2]] m2 rm v moved_trans [OF m2] show ?thesis by auto
      qed
    next
      case True
      have com: "committable e p b" using assms(4,5) v ok True by (simp add: committable_def)
      obtain pe3 w3 where p3: "promotePhase3 e b w1 = (pe3, w3)" by (cases "promotePhase3 e b w1")
      have m3: "moved e p w1 w3" "w_verifies w3 = w_verifies w1"
        "pe3 = None \<Longrightarrow> \<exists>g \<in> set (w_log w3). lg_error g = None \<and> lg_updates g = phase3_updates b"
        using phase3_moved [OF p3 assms(2) i1 assms(5) com] by auto
      show ?thesis
      proof (cases pe3)
        case fin: None
        obtain xs w4 where pr: "promoted e b w3 = (xs, w4)" by (cases "promoted e b w3")
        note m4 = promoted_moved [OF pr movedD [OF m3(1)] com m3(3) [OF fin]]
        from assms(1) tv ok True p3 fin pr have "w' = w4" "outs = xs" by (auto simp: promoteVerifyAndCommit_def)
        with m3 m4 v moved_trans [OF m1 moved_trans [OF m3(1)]] show ?thesis by auto
      next
        case (Some pe4)
        obtain re4 w4 where rl4: "releaseBatch e b w3 = (re4, w4)" by (cases "releaseBatch e b w3")
        have r4: "moved e p w3 w4" "w_verifies w4 = w_verifies w3"
          using release_moved [OF rl4 assms(2) movedD [OF m3(1)] assms(5)] by auto
        from assms(1) tv ok True p3 Some rl4 have "(w' = w3 \<and> outs = []) \<or>
            (w' = w4 \<and> outs = classifyAll b OutcomePromotionRace ''gate: integration moved under the batch'')"
          by (auto simp: promoteVerifyAndCommit_def split: if_splits)
        with m3 r4 v moved_trans [OF m1] moved_trans [OF m3(1) r4(1)] show ?thesis by (auto simp: classifyAll_backed)
      qed
    qed
  qed
qed

lemma rounds_moved:
  assumes "promote_rounds e p n outs w = ((er, outs'), w')" "documented_promote e" "promo_inv e p w"
    and "all_backed e p w outs" "0 \<le> pp_MaxBatch p"
  shows "moved e p w w' \<and> all_backed e p w' outs' \<and>
    length (w_verifies w') \<le> n * Suc (nat (pp_MaxBatch p)) + length (w_verifies w)"
  using assms
proof (induction e p n outs w rule: promote_rounds.induct)
  case (1 e p outs w)
  then show ?case by (simp add: moved_refl)
next
  case (2 e p n outs w)
  obtain pe bo os w1 where ph: "promotePhase1For e p [] w = ((pe, bo, os), w1)"
    by (cases "promotePhase1For e p [] w") auto
  then have ph': "promotePhase1 e p w = ((pe, bo, os), w1)" by (simp add: promotePhase1_def)
  note sp = phase1_spec [OF ph "2.prems"(2,3)]
  have m1: "moved e p w w1" "w_verifies w1 = w_verifies w" "all_backed e p w1 (outs @ os)"
    using sp "2.prems"(4) by (auto simp: stale_backed all_backed_moved)
  show ?case
  proof (cases bo)
    case None
    with "2.prems"(1) ph' m1 show ?thesis by (cases pe) auto
  next
    case (Some b)
    have b: "pe = None" "batch_ok e p b" "batch_words b" "int (length (ba_members b)) \<le> pp_MaxBatch p"
      using sp Some "2.prems"(5) by auto
    obtain ve st os2 w2 where vc: "promoteVerifyAndCommit e p b w1 = ((ve, st, os2), w2)"
      by (cases "promoteVerifyAndCommit e p b w1") auto
    note m2 = verify_commit_moved [OF vc "2.prems"(2) movedD [OF m1(1)] b(2,3)]
    have m12: "moved e p w w2" using m1(1) m2 moved_trans by blast
    have len: "length (w_verifies w2) \<le> Suc (nat (pp_MaxBatch p)) + length (w_verifies w)"
      using m2 m1(2) b(4) by auto
    have bk: "all_backed e p w2 (outs @ os @ os2)" using m2 all_backed_moved [OF m1(3)] by auto
    show ?thesis
    proof (cases "ve \<noteq> None \<or> st")
      case True
      with "2.prems"(1) ph' Some b(1) vc have "w' = w2" "outs' = outs @ os @ os2" by auto
      with m12 len bk show ?thesis by auto
    next
      case False
      with "2.prems"(1) ph' Some b(1) vc have r: "promote_rounds e p n (outs @ os @ os2) w2 = ((er, outs'), w')" by auto
      from "2.IH" [OF ph' [symmetric] refl b(1) refl Some vc [symmetric] refl refl False r "2.prems"(2) movedD [OF m12] bk "2.prems"(5)]
      have "moved e p w2 w' \<and> all_backed e p w' outs' \<and>
        length (w_verifies w') \<le> n * Suc (nat (pp_MaxBatch p)) + length (w_verifies w2)" .
      with m12 len moved_trans [OF m12] show ?thesis by auto
    qed
  qed
qed

lemma chain_loop_maxrounds [simp]:
  "chain_loop e (p\<lparr>pp_MaxRounds := k\<rparr>) b base ms = chain_loop e p b base ms"
  by (induction ms arbitrary: base)
    (simp_all add: commitTree_def commit_message_def split: sum.splits option.splits)

lemma batch_ok_defaults [simp]: "batch_ok e (promote_defaults p) b = batch_ok e p b"
  by (simp add: batch_ok_def promote_defaults_def)

lemma promo_inv_defaults [simp]: "promo_inv e (promote_defaults p) w = promo_inv e p w"
  by (simp add: promo_inv_def tx_kind_def committable_def rejectable_def)

lemma all_backed_defaults [simp]: "all_backed e (promote_defaults p) w xs = all_backed e p w xs"
  by (simp add: all_backed_def backed_def committable_def rejectable_def)

lemma Promote_moved:
  assumes "Promote e p w = ((er, res), w')" "documented_promote e" "promo_inv e p w"
  shows "promo_inv e p w' \<and> all_backed e p w' (pr_Outcomes res) \<and>
    length (w_verifies w') \<le> nat (pp_MaxRounds (promote_defaults p)) * Suc (nat (pp_MaxBatch (promote_defaults p))) +
      length (w_verifies w)"
proof (cases "pp_RepoTop p = [] \<or> pp_VerifyCmd p = [] \<or> hd (pp_VerifyCmd p) = [] \<or> \<not> pp_Claims p")
  case True
  with assms(1) have "w' = w \<and> pr_Outcomes res = []" by (auto simp: Promote_def Let_def split: if_splits)
  with assms(3) show ?thesis by simp
next
  case False
  let ?q = "promote_defaults p"
  obtain re outs w1 where r: "promote_rounds e ?q (nat (pp_MaxRounds ?q)) [] w = ((re, outs), w1)"
    by (cases "promote_rounds e ?q (nat (pp_MaxRounds ?q)) [] w") auto
  obtain sha w2 where s: "ResolveIntegrationRef e (e_head e (w_tick w1)) w1 = (sha, w2)"
    by (cases "ResolveIntegrationRef e (e_head e (w_tick w1)) w1")
  from assms(1) False r s have res: "pr_Outcomes res = sort_key co_CandidateID outs" "w' = w2"
    by (auto simp: Promote_def Let_def promote_finish_def)
  have "0 \<le> pp_MaxBatch ?q" by (simp add: promote_defaults_def defaultMaxBatch_def)
  with rounds_moved [OF r assms(2)] assms(3) have m: "moved e ?q w w1" "all_backed e ?q w1 outs"
    "length (w_verifies w1) \<le> nat (pp_MaxRounds ?q) * Suc (nat (pp_MaxBatch ?q)) + length (w_verifies w)" by simp_all
  have m2: "moved e ?q w1 w2" "w_verifies w2 = w_verifies w1"
    using resolve_moved [OF s assms(2) movedD [OF m(1)]] by simp_all
  have "all_backed e p w2 outs" using all_backed_moved [OF m(2) m2(1)] by simp
  then have "all_backed e p w2 (pr_Outcomes res)" by (simp add: res(1) all_backed_def)
  with m(3) m2 res(2) show ?thesis by (simp add: moved_def)
qed

subsection \<open>What the transactions do to the references\<close>

lemma phase3_distinct:
  assumes "distinct (candidateIDs b)"
  shows "distinct (map ru_Ref (phase3_updates b))"
proof -
  have *: "distinct (map mb_candidateID ms) \<Longrightarrow>
      distinct (concat (map (\<lambda>m. [candidateRef (mb_candidateID m), proposalRef (mb_candidateID m)]) ms))" for ms
    by (induction ms) (auto simp: ref_names_differ ref_names_differ(1-6) [symmetric])
  have "map ru_Ref (phase3_updates b) = ''refs/loto/integration'' #
      concat (map (\<lambda>m. [candidateRef (mb_candidateID m), proposalRef (mb_candidateID m)]) (ba_members b)) @
      [promotingRef (ba_id b)]"
    by (simp add: phase3_updates_def map_concat comp_def del_ref_def)
  moreover have "distinct (''refs/loto/integration'' #
      concat (map (\<lambda>m. [candidateRef (mb_candidateID m), proposalRef (mb_candidateID m)]) (ba_members b)) @
      [promotingRef (ba_id b)])"
    using * [of "ba_members b"] assms
    by (auto simp: candidateIDs_def ref_names_differ ref_names_differ(1-6) [symmetric])
  ultimately show ?thesis by (simp only:)
qed

lemma phase3_apply:
  assumes "distinct (candidateIDs b)"
  shows "map_of (tx_apply (phase3_updates b) r) ''refs/loto/integration'' = Some (ba_chainTip b)"
    "m \<in> set (ba_members b) \<Longrightarrow> map_of (tx_apply (phase3_updates b) r) (candidateRef (mb_candidateID m)) = None"
    "cid \<notin> set (candidateIDs b) \<Longrightarrow>
       map_of (tx_apply (phase3_updates b) r) (candidateRef cid) = map_of r (candidateRef cid)"
proof -
  note d = phase3_distinct [OF assms]
  let ?i = "\<lparr>ru_Verb = VerbUpdate, ru_Ref = ''refs/loto/integration'', ru_NewSHA = ba_chainTip b, ru_OldSHA = ba_snapshot b\<rparr>"
  have "?i \<in> set (phase3_updates b)" by (simp add: phase3_updates_def)
  from map_of_tx_apply [OF d this] show "map_of (tx_apply (phase3_updates b) r) ''refs/loto/integration'' = Some (ba_chainTip b)"
    by (simp add: VerbUpdate_def VerbDelete_def)
  show "map_of (tx_apply (phase3_updates b) r) (candidateRef (mb_candidateID m)) = None" if "m \<in> set (ba_members b)"
  proof -
    have "del_ref (candidateRef (mb_candidateID m)) (mb_envelopeSHA m) \<in> set (phase3_updates b)"
      using that by (auto simp: phase3_updates_def)
    from map_of_tx_apply [OF d this] show ?thesis by (simp add: del_ref_def)
  qed
  show "map_of (tx_apply (phase3_updates b) r) (candidateRef cid) = map_of r (candidateRef cid)"
    if "cid \<notin> set (candidateIDs b)"
  proof (rule map_of_tx_other)
    show "candidateRef cid \<notin> ru_Ref ` set (phase3_updates b)"
      using that by (auto simp: phase3_updates_def del_ref_def candidateIDs_def ref_names_differ)
  qed
qed

lemma phase3_checks:
  assumes "tx_checks r (phase3_updates b)" "batch_words b"
  shows "map_of r ''refs/loto/integration'' = Some (ba_snapshot b)"
    "m \<in> set (ba_members b) \<Longrightarrow> map_of r (candidateRef (mb_candidateID m)) = Some (mb_envelopeSHA m) \<and>
       map_of r (proposalRef (mb_candidateID m)) = Some (mb_proposalSHA m)"
proof -
  have ne: "word x \<Longrightarrow> x \<noteq> []" for x by (simp add: word_def)
  let ?i = "\<lparr>ru_Verb = VerbUpdate, ru_Ref = ''refs/loto/integration'', ru_NewSHA = ba_chainTip b, ru_OldSHA = ba_snapshot b\<rparr>"
  have "?i \<in> set (phase3_updates b)" by (simp add: phase3_updates_def)
  from tx_checkD [OF assms(1) this] show "map_of r ''refs/loto/integration'' = Some (ba_snapshot b)"
    using assms(2) ne by (simp add: batch_words_def VerbUpdate_def VerbCreate_def)
  assume m: "m \<in> set (ba_members b)"
  have "del_ref (candidateRef (mb_candidateID m)) (mb_envelopeSHA m) \<in> set (phase3_updates b)"
    "del_ref (proposalRef (mb_candidateID m)) (mb_proposalSHA m) \<in> set (phase3_updates b)"
    using m by (auto simp: phase3_updates_def)
  from tx_checkD [OF assms(1) this(1)] tx_checkD [OF assms(1) this(2)]
  show "map_of r (candidateRef (mb_candidateID m)) = Some (mb_envelopeSHA m) \<and>
       map_of r (proposalRef (mb_candidateID m)) = Some (mb_proposalSHA m)"
    using assms(2) m ne by (auto simp: batch_words_def del_ref_def VerbDelete_def VerbCreate_def)
qed

text \<open>The four other kinds of transaction, at the integration ref and at a candidate ref.\<close>

lemma other_kinds:
  assumes "tx_kind e p us" "\<nexists>b. committable e p b \<and> us = phase3_updates b"
  shows "map_of (tx_apply us r) ''refs/loto/integration'' = map_of r ''refs/loto/integration'' \<or>
      (\<exists>h. us = [\<lparr>ru_Verb = VerbCreate, ru_Ref = ''refs/loto/integration'', ru_NewSHA = h, ru_OldSHA = []\<rparr>])"
    "map_of (tx_apply us r) (candidateRef cid) = map_of r (candidateRef cid) \<or>
      (\<exists>b m. rejectable e p b m \<and> us = retire_updates b m \<and> cid = mb_candidateID m)"
proof -
  have k: "(\<exists>h. us = [\<lparr>ru_Verb = VerbCreate, ru_Ref = ''refs/loto/integration'', ru_NewSHA = h, ru_OldSHA = []\<rparr>]) \<or>
     (\<exists>bid tip. us = [\<lparr>ru_Verb = VerbCreate, ru_Ref = promotingRef bid, ru_NewSHA = tip, ru_OldSHA = []\<rparr>]) \<or>
     (\<exists>bid tip. us = [del_ref (promotingRef bid) tip]) \<or>
     (\<exists>b m. rejectable e p b m \<and> us = retire_updates b m)"
    using assms unfolding tx_kind_def by blast
  have o: "map_of (tx_apply us r) n = map_of r n" if "n \<notin> ru_Ref ` set us" for n
    by (rule map_of_tx_other [OF that])
  from k show "map_of (tx_apply us r) ''refs/loto/integration'' = map_of r ''refs/loto/integration'' \<or>
      (\<exists>h. us = [\<lparr>ru_Verb = VerbCreate, ru_Ref = ''refs/loto/integration'', ru_NewSHA = h, ru_OldSHA = []\<rparr>])"
  proof (elim disjE exE conjE)
    fix bid tip assume "us = [\<lparr>ru_Verb = VerbCreate, ru_Ref = promotingRef bid, ru_NewSHA = tip, ru_OldSHA = []\<rparr>]"
    then show ?thesis by (intro disjI1 o) (simp add: ref_names_differ(6) [symmetric])
  next
    fix bid tip assume "us = [del_ref (promotingRef bid) tip]"
    then show ?thesis by (intro disjI1 o) (simp add: del_ref_def ref_names_differ(6) [symmetric])
  next
    fix b m assume "us = retire_updates b m"
    then show ?thesis
      by (intro disjI1 o) (simp add: retire_updates_def del_ref_def ref_names_differ(4-6) [symmetric])
  qed blast
  from k show "map_of (tx_apply us r) (candidateRef cid) = map_of r (candidateRef cid) \<or>
      (\<exists>b m. rejectable e p b m \<and> us = retire_updates b m \<and> cid = mb_candidateID m)"
  proof (elim disjE exE conjE)
    fix h assume "us = [\<lparr>ru_Verb = VerbCreate, ru_Ref = ''refs/loto/integration'', ru_NewSHA = h, ru_OldSHA = []\<rparr>]"
    then show ?thesis by (intro disjI1 o) (simp add: ref_names_differ)
  next
    fix bid tip assume "us = [\<lparr>ru_Verb = VerbCreate, ru_Ref = promotingRef bid, ru_NewSHA = tip, ru_OldSHA = []\<rparr>]"
    then show ?thesis by (intro disjI1 o) (simp add: ref_names_differ)
  next
    fix bid tip assume "us = [del_ref (promotingRef bid) tip]"
    then show ?thesis by (intro disjI1 o) (simp add: del_ref_def ref_names_differ)
  next
    fix b m assume r: "rejectable e p b m" "us = retire_updates b m"
    show ?thesis
    proof (cases "cid = mb_candidateID m")
      case True
      with r show ?thesis by blast
    next
      case False
      with r(2) show ?thesis by (intro disjI1 o) (simp add: retire_updates_def del_ref_def ref_names_differ)
    qed
  qed
qed

lemma entry_applied:
  "entry_atomic g \<Longrightarrow> lg_after g \<noteq> lg_before g \<Longrightarrow>
   tx_checks (lg_before g) (lg_updates g) \<and> lg_after g = tx_apply (lg_updates g) (lg_before g)"
  by (auto simp: entry_atomic_def split: option.splits)

lemma Promote_entry:
  assumes "documented_promote e" "clean_refs (w_refs w)" "w_log w = []" "Promote e p w = ((er, res), w')"
    and "g \<in> set (w_log w')"
  shows "entry_atomic g" "tx_kind e p (lg_updates g)"
proof -
  have "promo_inv e p w" using assms(2,3) by (simp add: promo_inv_def)
  from Promote_moved [OF assms(4,1) this] assms(5) show "entry_atomic g" "tx_kind e p (lg_updates g)"
    by (auto simp: promo_inv_def)
qed

subsection \<open>A repository with two candidates\<close>

definition ex_member_env :: "string \<Rightarrow> string \<Rightarrow> Envelope" where
  "ex_member_env cid path = \<lparr>env_CandidateID = cid, env_ProposalSHA = ''p7'', env_Base = ''a1'',
     env_AgentUUID = ''al'', env_SessionUUID = ''s'', env_BeadID = ''bead'', env_WriteSet = [path],
     env_Transitions = [], env_Ancestry = [], env_LeaseEpoch = (\<lambda>_. None)\<rparr>"

text \<open>\<open>c-1\<close> writes \<open>x\<close>, \<open>c-2\<close> writes \<open>y\<close>; \<open>answers\<close> are the verdicts by the number of looks taken.\<close>

definition ex_promote_env :: "(nat \<Rightarrow> VerifyResult \<times> string option) \<Rightarrow> promote_env" where
  "ex_promote_env answers =
     \<lparr>e_update = ex_update_ref, e_for_each = ex_for_each, e_rev_parse = ex_rev_parse, e_peers = (\<lambda>_ r. r),
      e_head = (\<lambda>_. None), e_flock = (\<lambda>_. True), e_git = (\<lambda>_ _. None),
      e_blob = (\<lambda>sha. if sha = ''e5'' then Some (ex_member_env ''c-1'' ''x'')
                     else if sha = ''e6'' then Some (ex_member_env ''c-2'' ''y'') else None),
      e_tempdir = (\<lambda>_. True), e_read_tree = Some, e_update_index = (\<lambda>idx _. Some idx),
      e_write_tree = (\<lambda>_. Some ''t9''), e_commit_tree = (\<lambda>_ par _. Some (''k'' @ filter (\<lambda>c. \<not> is_space c) par)),
      e_verify = (\<lambda>n _. answers n), e_duration = (\<lambda>_. 1), e_release = (\<lambda>_ _. None), e_batch_id = (\<lambda>_. ''b-1''),
      e_now = (\<lambda>_. 0)\<rparr>"

definition ex_verdict :: "bool \<Rightarrow> VerifyResult \<times> string option" where
  "ex_verdict good = (\<lparr>lv_Passed = good, lv_Output = ''out'', lv_Tree = ''reuse'', lv_TreeReason = []\<rparr>, None)"

definition ex_promote_params :: PromoteParams where
  "ex_promote_params = \<lparr>pp_RepoTop = ''/r'', pp_VerifyCmd = [''true''], pp_MaxBatch = 0, pp_MaxRounds = 0,
     pp_Claims = True, pp_Live = None, pp_Host = ''h'', pp_PID = 7, pp_ProcStart = 9\<rparr>"

definition ex_pworld :: pworld where
  "ex_pworld =
     \<lparr>w_refs = [(''refs/loto/candidates/c-1'', ''e5''), (''refs/loto/proposals/c-1'', ''p7''),
                (''refs/loto/candidates/c-2'', ''e6''), (''refs/loto/proposals/c-2'', ''p8''),
                (''refs/loto/integration'', ''a1'')],
      w_tick = 0, w_log = [], w_verifies = [], w_warnings = [], w_released = []\<rparr>"

lemma ex_promote_documented: "documented_promote (ex_promote_env answers)"
proof -
  have "word (trim_space (CHR ''k'' # filter (\<lambda>c. \<not> is_space c) par))" for par
  proof -
    have "word (CHR ''k'' # filter (\<lambda>c. \<not> is_space c) par)"
      by (auto simp: word_def list_all_iff is_space_def)
    then show ?thesis by simp
  qed
  moreover have "word ''b-1''" by code_simp
  ultimately show ?thesis
    by (simp add: documented_promote_def documented_git_def ex_promote_env_def ex_update_ref_documented ex_listings_documented)
qed

lemma ex_pworld_clean: "clean_refs (w_refs ex_pworld)" "w_log ex_pworld = []"
  by code_simp+

text \<open>A green batch of two, and a batch that is red together while \<open>c-1\<close> alone cannot be judged.\<close>

definition ex_green :: "(promote_error option \<times> PromoteResult) \<times> pworld" where
  "ex_green = Promote (ex_promote_env (\<lambda>_. ex_verdict True)) ex_promote_params ex_pworld"

definition ex_red :: "(promote_error option \<times> PromoteResult) \<times> pworld" where
  "ex_red = Promote (ex_promote_env (\<lambda>n. if n < 8 then ex_verdict False else (fst (ex_verdict False), Some ''no tree'')))
     ex_promote_params ex_pworld"

definition ex_claimed_refs :: refs where
  "ex_claimed_refs = w_refs ex_pworld @ [(''refs/loto/promoting/b-1'', ''kka1'')]"

lemma ex_green_eval:
  "(case ex_green of ((er, res), w) \<Rightarrow>
      (map (\<lambda>g. (lg_before g, lg_after g)) (w_log w), map (\<lambda>c. (co_CandidateID c, co_Class c)) (pr_Outcomes res),
       length (w_verifies w))) =
   ([(w_refs ex_pworld, ex_claimed_refs), (ex_claimed_refs, [(''refs/loto/integration'', ''kka1'')])],
    [(''c-1'', OutcomePromoted), (''c-2'', OutcomePromoted)], 1)"
  by code_simp

lemma ex_green_facts:
  "map (\<lambda>g. (lg_before g, lg_after g)) (w_log (snd ex_green)) =
     [(w_refs ex_pworld, ex_claimed_refs), (ex_claimed_refs, [(''refs/loto/integration'', ''kka1'')])]"
  "map (\<lambda>c. (co_CandidateID c, co_Class c)) (pr_Outcomes (snd (fst ex_green))) =
     [(''c-1'', OutcomePromoted), (''c-2'', OutcomePromoted)]"
  "length (w_verifies (snd ex_green)) = 1" "w_verifies ex_pworld = []"
  using ex_green_eval by (auto simp: split_beta ex_pworld_def)

lemma ex_green_commit:
  obtains g where "g \<in> set (w_log (snd ex_green))" "map_of (lg_before g) ''refs/loto/integration'' = Some ''a1''"
    "map_of (lg_after g) ''refs/loto/integration'' = Some ''kka1''"
    "map_of (lg_before g) (candidateRef ''c-1'') = Some ''e5''" "map_of (lg_after g) (candidateRef ''c-1'') = None"
proof -
  let ?after = "[(''refs/loto/integration'', ''kka1'')]"
  have "(ex_claimed_refs, ?after) \<in> set (map (\<lambda>g. (lg_before g, lg_after g)) (w_log (snd ex_green)))"
    unfolding ex_green_facts(1) by simp
  then obtain g where g: "g \<in> set (w_log (snd ex_green))" "lg_before g = ex_claimed_refs" "lg_after g = ?after"
    unfolding set_map by (elim imageE) (rule that, auto)
  have "map_of ex_claimed_refs ''refs/loto/integration'' = Some ''a1''" "map_of ?after ''refs/loto/integration'' = Some ''kka1''"
    "map_of ex_claimed_refs (candidateRef ''c-1'') = Some ''e5''" "map_of ?after (candidateRef ''c-1'') = None"
    by code_simp+
  with g(2,3) show thesis by (intro that [OF g(1)]) simp_all
qed

lemma ex_green_run:
  obtains er res w' where "Promote (ex_promote_env (\<lambda>_. ex_verdict True)) ex_promote_params ex_pworld = ((er, res), w')"
    "snd ex_green = w'" "snd (fst ex_green) = res"
  by (cases ex_green) (auto simp: ex_green_def)

subsection \<open>Properties\<close>

text \<open>C5: The integration ref moves only by compare-and-swap onto verified work. Whatever the peers do to
  the references in between, a transaction of one \<open>Promote\<close> call that changes the ref found it at the
  snapshot of a batch and left it at the tip of the chain built for that batch on that snapshot; the
  chain passed verify, the batch's candidates were fresh at the snapshot and write disjoint paths,
  their refs still held the envelopes the batch was built from, and they are consumed with it.\<close>

theorem Promote_integration_cas:
  assumes "documented_promote e" "clean_refs (w_refs w)" "w_log w = []" "Promote e p w = ((er, res), w')"
    and "g \<in> set (w_log w')" "map_of (lg_before g) ''refs/loto/integration'' = Some old"
    and "map_of (lg_after g) ''refs/loto/integration'' \<noteq> Some old"
  shows "\<exists>b. old = ba_snapshot b \<and> map_of (lg_after g) ''refs/loto/integration'' = Some (ba_chainTip b) \<and>
    batch_ok e p b \<and> verdict e (ba_chainTip b) True \<and>
    (\<forall>m \<in> set (ba_members b). map_of (lg_before g) (candidateRef (mb_candidateID m)) = Some (mb_envelopeSHA m) \<and>
       map_of (lg_before g) (proposalRef (mb_candidateID m)) = Some (mb_proposalSHA m) \<and>
       map_of (lg_after g) (candidateRef (mb_candidateID m)) = None)"
proof -
  note g = Promote_entry [OF assms(1-5)]
  have "lg_after g \<noteq> lg_before g" using assms(6,7) by auto
  note ap = entry_applied [OF g(1) this, THEN conjunct1] entry_applied [OF g(1) this, THEN conjunct2]
  have "\<exists>b. committable e p b \<and> lg_updates g = phase3_updates b"
  proof (rule ccontr)
    assume n: "\<nexists>b. committable e p b \<and> lg_updates g = phase3_updates b"
    from other_kinds(1) [OF g(2) n, of "lg_before g"] assms(6,7) ap(2)
    obtain h where "lg_updates g = [\<lparr>ru_Verb = VerbCreate, ru_Ref = ''refs/loto/integration'', ru_NewSHA = h, ru_OldSHA = []\<rparr>]"
      by auto
    with ap(1) assms(6) show False by (simp add: tx_checks_def upd_check_def VerbCreate_def)
  qed
  then obtain b where b: "batch_ok e p b" "batch_words b" "verdict e (ba_chainTip b) True" "lg_updates g = phase3_updates b"
    by (auto simp: committable_def)
  have d: "distinct (candidateIDs b)" using b(1) by (simp add: batch_ok_def)
  note c = phase3_checks [OF ap(1) [unfolded b(4)] b(2)]
  note a = phase3_apply [OF d, where r = "lg_before g"]
  show ?thesis
    using b(1,3) c a(1,2) ap(2) b(4) assms(6) by (intro exI [of _ b]) auto
qed

theorem Promote_integration_cas_witness:
  "\<exists>b. ba_snapshot b = ''a1'' \<and> ba_chainTip b = ''kka1'' \<and>
     batch_ok (ex_promote_env (\<lambda>_. ex_verdict True)) ex_promote_params b"
proof -
  obtain er res w' where r: "Promote (ex_promote_env (\<lambda>_. ex_verdict True)) ex_promote_params ex_pworld = ((er, res), w')"
    "snd ex_green = w'" by (rule ex_green_run)
  obtain g where g: "g \<in> set (w_log w')" "map_of (lg_before g) ''refs/loto/integration'' = Some ''a1''"
    "map_of (lg_after g) ''refs/loto/integration'' = Some ''kka1''"
    by (rule ex_green_commit [unfolded r(2)])
  have ne: "map_of (lg_after g) ''refs/loto/integration'' \<noteq> Some ''a1''" unfolding g(3) by simp
  obtain b where b: "''a1'' = ba_snapshot b"
    "map_of (lg_after g) ''refs/loto/integration'' = Some (ba_chainTip b)"
    "batch_ok (ex_promote_env (\<lambda>_. ex_verdict True)) ex_promote_params b"
    using Promote_integration_cas [OF ex_promote_documented ex_pworld_clean r(1) g(1,2) ne] by (elim exE conjE) (rule that)
  show ?thesis using b(2) unfolding g(3) by (intro exI [of _ b] conjI b(3)) (simp_all add: b(1) [symmetric])
qed

text \<open>C6: No candidate is destroyed without a verdict. A transaction of the call that removes a candidate
  ref either promoted it in a batch whose chain passed verify, or retired it after a chain holding
  that candidate alone came back red; the ref held the envelope that was judged.\<close>

theorem Promote_destroys_only_judged:
  assumes "documented_promote e" "clean_refs (w_refs w)" "w_log w = []" "Promote e p w = ((er, res), w')"
    and "g \<in> set (w_log w')" "map_of (lg_before g) (candidateRef cid) = Some sha"
    and "map_of (lg_after g) (candidateRef cid) \<noteq> Some sha"
  shows "\<exists>b m. m \<in> set (ba_members b) \<and> mb_candidateID m = cid \<and> mb_envelopeSHA m = sha \<and> batch_ok e p b \<and>
    (verdict e (ba_chainTip b) True \<and> map_of (lg_after g) ''refs/loto/integration'' = Some (ba_chainTip b) \<or>
     verdict e (ba_chainTip b) False \<and> ba_members b = [m])"
proof -
  note g = Promote_entry [OF assms(1-5)]
  have "lg_after g \<noteq> lg_before g" using assms(6,7) by auto
  note ap = entry_applied [OF g(1) this, THEN conjunct1] entry_applied [OF g(1) this, THEN conjunct2]
  show ?thesis
  proof (cases "\<exists>b. committable e p b \<and> lg_updates g = phase3_updates b")
    case True
    then obtain b where b: "batch_ok e p b" "batch_words b" "verdict e (ba_chainTip b) True" "lg_updates g = phase3_updates b"
      by (auto simp: committable_def)
    have d: "distinct (candidateIDs b)" using b(1) by (simp add: batch_ok_def)
    note a = phase3_apply [OF d, where r = "lg_before g"]
    have "cid \<in> set (candidateIDs b)" using a(3) [of cid] assms(6,7) ap(2) b(4) by auto
    then obtain m where m: "m \<in> set (ba_members b)" "mb_candidateID m = cid" by (auto simp: candidateIDs_def)
    with phase3_checks(2) [OF ap(1) [unfolded b(4)] b(2), of m] assms(6) have "mb_envelopeSHA m = sha" by simp
    with m b a(1) ap(2) show ?thesis by (intro exI [of _ b] exI [of _ m]) auto
  next
    case False
    from other_kinds(2) [OF g(2) False, of "lg_before g" cid] assms(6,7) ap(2)
    obtain b m where b: "rejectable e p b m" "lg_updates g = retire_updates b m" "cid = mb_candidateID m" by auto
    have bw: "batch_ok e p b" "ba_members b = [m]" "verdict e (ba_chainTip b) False" "word (mb_envelopeSHA m)"
      using b(1) by (auto simp: rejectable_def batch_words_def)
    have "del_ref (candidateRef (mb_candidateID m)) (mb_envelopeSHA m) \<in> set (lg_updates g)"
      by (simp add: b(2) retire_updates_def)
    from tx_checkD [OF ap(1) this] bw(4) have "map_of (lg_before g) (candidateRef (mb_candidateID m)) = Some (mb_envelopeSHA m)"
      by (auto simp: del_ref_def VerbDelete_def VerbCreate_def word_def)
    with b(3) assms(6) bw show ?thesis by (intro exI [of _ b] exI [of _ m]) auto
  qed
qed

theorem Promote_destroys_only_judged_witness:
  "\<exists>(b :: batch) m. m \<in> set (ba_members b) \<and> mb_candidateID m = ''c-1'' \<and> mb_envelopeSHA m = ''e5''"
proof -
  obtain er res w' where r: "Promote (ex_promote_env (\<lambda>_. ex_verdict True)) ex_promote_params ex_pworld = ((er, res), w')"
    "snd ex_green = w'" by (rule ex_green_run)
  obtain g where g: "g \<in> set (w_log w')" "map_of (lg_before g) (candidateRef ''c-1'') = Some ''e5''"
    "map_of (lg_after g) (candidateRef ''c-1'') = None"
    by (rule ex_green_commit [unfolded r(2)])
  have ne: "map_of (lg_after g) (candidateRef ''c-1'') \<noteq> Some ''e5''" unfolding g(3) by simp
  from Promote_destroys_only_judged [OF ex_promote_documented ex_pworld_clean r(1) g(1,2) ne]
  obtain b :: batch and m where "m \<in> set (ba_members b)" "mb_candidateID m = ''c-1''" "mb_envelopeSHA m = ''e5''"
    by (elim exE conjE) (erule (2) that)
  then show ?thesis by (intro exI conjI)
qed



text \<open>C36: Promotion is bounded: one call runs at most \<open>MaxRounds * (MaxBatch + 1)\<close> verifies, the red-batch
  sweeps included; the defaults give sixteen.\<close>

theorem Promote_verify_bound:
  assumes "documented_promote e" "clean_refs (w_refs w)" "w_log w = []" "Promote e p w = ((er, res), w')"
  shows "length (w_verifies w') \<le> length (w_verifies w) +
     nat (if pp_MaxRounds p \<le> 0 then 4 else pp_MaxRounds p) * Suc (nat (if pp_MaxBatch p \<le> 0 then 3 else pp_MaxBatch p))"
proof -
  have "promo_inv e p w" using assms(2,3) by (simp add: promo_inv_def)
  note m = Promote_moved [OF assms(4,1) this]
  have e: "pp_MaxRounds (promote_defaults p) = (if pp_MaxRounds p \<le> 0 then 4 else pp_MaxRounds p)"
    "pp_MaxBatch (promote_defaults p) = (if pp_MaxBatch p \<le> 0 then 3 else pp_MaxBatch p)"
    by (simp_all add: promote_defaults_def defaultMaxBatch_def defaultMaxRounds_def)
  show ?thesis using m unfolding e by linarith
qed

theorem Promote_verify_bound_witness:
  "length (w_verifies (snd ex_green)) = 1 \<and> length (w_verifies (snd ex_green)) \<le> 16"
proof -
  obtain er res w' where r: "Promote (ex_promote_env (\<lambda>_. ex_verdict True)) ex_promote_params ex_pworld = ((er, res), w')"
    "snd ex_green = w'" by (rule ex_green_run)
  from Promote_verify_bound [OF ex_promote_documented ex_pworld_clean r(1)] ex_green_facts(3,4) r(2)
  show ?thesis by (simp add: ex_promote_params_def)
qed

text \<open>A candidate can leave a round without an outcome. The batch of \<open>c-1\<close> and \<open>c-2\<close> is red; the sweep
  retries \<open>c-1\<close> alone, verify cannot reach a verdict, and the sweep stops: \<open>c-2\<close>, which was in the
  verified batch, is in no outcome.\<close>

theorem Promote_drops_outcomes:
  "map vr_Candidates (w_verifies (snd ex_red)) = [2, 1] \<and> map vr_Passed (w_verifies (snd ex_red)) = [False, False] \<and>
   map (\<lambda>c. (co_CandidateID c, co_Class c)) (pr_Outcomes (snd (fst ex_red))) = [(''c-1'', OutcomeVerifyInfra)]"
proof -
  have "(case ex_red of ((er, res), w) \<Rightarrow> (map vr_Candidates (w_verifies w), map vr_Passed (w_verifies w),
      map (\<lambda>c. (co_CandidateID c, co_Class c)) (pr_Outcomes res))) =
    ([2, 1], [False, False], [(''c-1'', OutcomeVerifyInfra)])"
    by code_simp
  then show ?thesis by (simp add: split_beta)
qed

end
