(* ===== verification/Batches.thy ===== *)
theory Batches
  imports Protocol
begin

text \<open>
  How promotion composes a batch: the greedy selection in candidate order, the claim it writes into
  the message of the chain's tip, and the sweep over the claims of other promoters.
\<close>

subsection \<open>The claim in the commit message\<close>

lemma cut_str_colon: "CHR '':'' \<notin> set k \<Longrightarrow> cut_str '': '' (k @ '': '' @ v) = Some (k, v)"
proof (induction k)
  case Nil
  then show ?case by (cases v) simp_all
next
  case (Cons c k)
  then have "\<not> has_prefix (c # k @ '': '' @ v) '': ''" by auto
  with Cons show ?case by simp
qed

lemma trailer_loop_append: "trailer_loop m (xs @ ys) = trailer_loop (trailer_loop m xs) ys"
  by (induction xs arbitrary: m) (auto split: option.splits)

text \<open>A value that survives trimming and stays on its line.\<close>

definition trailer_value :: "string \<Rightarrow> bool" where
  "trailer_value v \<longleftrightarrow> v \<noteq> [] \<and> \<not> is_space (hd v) \<and> \<not> is_space (last v) \<and> NL \<notin> set v"

definition trailer_key :: "string \<Rightarrow> bool" where
  "trailer_key k \<longleftrightarrow> k \<noteq> [] \<and> \<not> is_space (hd k) \<and> CHR '':'' \<notin> set k \<and> NL \<notin> set k"

lemma trailer_step:
  assumes "trailer_key k" "trailer_value v"
  shows "trailer_loop m ((k @ '': '' @ v) # ls) = trailer_loop (m(k \<mapsto> v)) ls"
proof -
  have "trim_space (k @ '': '' @ v) = k @ '': '' @ v" "trim_space v = v"
    using assms by (intro trim_space_word; auto simp: trailer_key_def trailer_value_def)+
  moreover have "cut_str '': '' (k @ '': '' @ v) = Some (k, v)"
    using assms(1) by (intro cut_str_colon) (simp add: trailer_key_def)
  ultimately show ?thesis by (simp only: trailer_loop.simps option.case prod.case)
qed

lemma digit_plain: "d < 10 \<Longrightarrow> \<not> is_space (digit d) \<and> digit d \<noteq> NL"
  by (auto simp: is_space_def digit_def NL_def dest: arg_cong [where f = "of_char :: char \<Rightarrow> nat"])

lemma format_int_value: "0 \<le> i \<Longrightarrow> trailer_value (format_int i)"
proof -
  assume "0 \<le> i"
  then have f: "format_int i = format_nat (nat i)" by (simp add: format_int_def)
  have "\<not> is_space c \<and> c \<noteq> NL" if "c \<in> set (format_nat (nat i))" for c
    using format_nat_chars [OF that] digit_plain by auto
  then show ?thesis unfolding f trailer_value_def by (metis format_nat_not_Nil hd_in_set last_in_set)
qed

lemma word_value: "word v \<Longrightarrow> trailer_value v"
  by (auto simp: trailer_value_def word_free) (auto simp: word_def list_all_iff)

text \<open>The five lines of the claim and everything above them.\<close>

definition claim_lines :: "PromoteParams \<Rightarrow> batch \<Rightarrow> string list" where
  "claim_lines p b =
     [trailerBatch @ '': '' @ ba_id b, trailerCandidates @ '': '' @ join_with '','' (candidateIDs b),
      trailerHost @ '': '' @ pp_Host p, trailerPID @ '': '' @ format_int (pp_PID p),
      trailerProcStart @ '': '' @ format_int (pp_ProcStart p)]"

lemma commit_message_lines:
  assumes "\<forall>l \<in> set (claim_lines p b). NL \<notin> set l" "\<not> is_space (last (format_int (pp_ProcStart p)))"
    "format_int (pp_ProcStart p) \<noteq> []"
  shows "\<exists>pre. split_on NL (trim_space (commit_message p m b True)) = pre @ claim_lines p b"
proof -
  let ?head = "''loto: promote '' @ mb_candidateID m @ [NL, NL] @
     trailer ''Candidate'' (mb_candidateID m) @ trailer ''Proposal'' (mb_proposalSHA m) @
     trailer ''Agent'' (env_AgentUUID (mb_env m)) @ trailer ''Session'' (env_SessionUUID (mb_env m)) @
     ''Bead: '' @ env_BeadID (mb_env m)"
  let ?body = "?head @ NL # join_with [NL] (claim_lines p b)"
  have msg: "commit_message p m b True = ?body @ [NL]"
    by (simp add: commit_message_def trailer_def claim_lines_def)
  have "trim_space (?body @ [NL]) = ?body"
  proof -
    have h: "dropWhile is_space (?body @ [NL]) = ?body @ [NL]" by (simp add: is_space_def)
    have l: "last ?body = last (format_int (pp_ProcStart p))"
      using assms(3) by (simp add: claim_lines_def)
    have "dropWhile is_space (rev ?body) = rev ?body"
      unfolding dropWhile_eq_self_iff using l assms(2) by (simp add: hd_rev del: rev_append)
    moreover have "is_space NL" by (simp add: is_space_def NL_def)
    ultimately show ?thesis unfolding trim_space_def h by simp
  qed
  moreover have "split_on NL ?body = split_on NL ?head @ claim_lines p b"
  proof -
    have "split_on NL (join_with [NL] (claim_lines p b)) = claim_lines p b"
      using assms(1) by (intro split_join) (simp_all add: claim_lines_def)
    then show ?thesis using split_on_append_sep [of NL ?head] by simp
  qed
  ultimately show ?thesis unfolding msg by metis
qed

lemma keys_ok:
  "trailer_key trailerBatch" "trailer_key trailerCandidates" "trailer_key trailerHost" "trailer_key trailerPID"
  "trailer_key trailerProcStart"
  by code_simp+

lemma keys_free:
  "NL \<notin> set trailerBatch" "NL \<notin> set trailerCandidates" "NL \<notin> set trailerHost" "NL \<notin> set trailerPID"
  "NL \<notin> set trailerProcStart" "NL \<notin> set '': ''"
  by code_simp+

lemma keys_differ:
  "trailerCandidates \<noteq> trailerHost" "trailerCandidates \<noteq> trailerPID" "trailerCandidates \<noteq> trailerProcStart"
  "trailerHost \<noteq> trailerPID" "trailerHost \<noteq> trailerProcStart" "trailerPID \<noteq> trailerProcStart"
  by code_simp+

lemma join_ids_value:
  assumes "ids \<noteq> []" "\<forall>i \<in> set ids. word i"
  shows "trailer_value (join_with '','' ids)"
proof -
  have "word (join_with '','' ids)"
    using assms
  proof (induction ids)
    case (Cons i ids)
    show ?case
    proof (cases "ids = []")
      case False
      have "\<not> is_space CHR '',''" by (simp add: is_space_def)
      with Cons False show ?thesis by (auto simp: join_with_Cons word_def)
    qed (use Cons in simp)
  qed simp
  then show ?thesis by (rule word_value)
qed

text \<open>The promoting claim is readable: whatever text the agents put into the attribution fields, the
  message written on the tip of a chain parses back to exactly the promoter's host, pid and start
  time and the candidates of the batch, in order.\<close>

theorem promotion_claim_roundtrip:
  assumes "candidateIDs b \<noteq> []" "list_all (\<lambda>i. word i \<and> CHR '','' \<notin> set i) (candidateIDs b)"
    and "word (ba_id b)" "word (pp_Host p)" "0 \<le> pp_PID p" "pp_PID p < 2 ^ 63"
    and "0 \<le> pp_ProcStart p" "pp_ProcStart p < 2 ^ 63"
  shows "parse_claim (trim_space (commit_message p m b True)) =
    (None, \<lparr>pc_host = pp_Host p, pc_pid = pp_PID p, pc_procStart = pp_ProcStart p, pc_candidates = candidateIDs b\<rparr>)"
proof -
  let ?ids = "candidateIDs b"
  have w: "\<forall>i \<in> set ?ids. word i" "\<forall>i \<in> set ?ids. CHR '','' \<notin> set i" using assms(2) by (simp_all add: list_all_iff)
  have v: "trailer_value (ba_id b)" "trailer_value (join_with '','' ?ids)" "trailer_value (pp_Host p)"
    "trailer_value (format_int (pp_PID p))" "trailer_value (format_int (pp_ProcStart p))"
    using assms(3,4) word_value join_ids_value [OF assms(1) w(1)] format_int_value assms(5,7) by auto
  have "\<forall>l \<in> set (claim_lines p b). NL \<notin> set l"
    using v keys_free by (simp add: claim_lines_def trailer_value_def)
  then obtain pre where pre: "split_on NL (trim_space (commit_message p m b True)) = pre @ claim_lines p b"
    using commit_message_lines v(5) unfolding trailer_value_def by blast
  define m0 where "m0 = trailer_loop (\<lambda>_. None) pre"
  have tr: "trailer_loop (\<lambda>_. None) (pre @ claim_lines p b) =
      m0(trailerBatch \<mapsto> ba_id b, trailerCandidates \<mapsto> join_with '','' ?ids, trailerHost \<mapsto> pp_Host p,
         trailerPID \<mapsto> format_int (pp_PID p), trailerProcStart \<mapsto> format_int (pp_ProcStart p))"
    unfolding trailer_loop_append m0_def claim_lines_def
    by (simp only: trailer_step [OF keys_ok(1) v(1)] trailer_step [OF keys_ok(2) v(2)] trailer_step [OF keys_ok(3) v(3)]
      trailer_step [OF keys_ok(4) v(4)] trailer_step [OF keys_ok(5) v(5)] trailer_loop.simps(1))
  let ?tr = "parseTrailers (trim_space (commit_message p m b True))"
  have f: "?tr trailerCandidates = join_with '','' ?ids" "?tr trailerHost = pp_Host p"
    "?tr trailerPID = format_int (pp_PID p)" "?tr trailerProcStart = format_int (pp_ProcStart p)"
    unfolding parseTrailers_def pre tr by (simp_all add: keys_differ keys_differ [symmetric])
  have "split_on CHR '','' (join_with '','' ?ids) = ?ids" by (rule split_join [OF assms(1) w(2)])
  moreover have "map trim_space ?ids = ?ids" using w(1) by (simp add: map_idI)
  moreover have "filter (\<lambda>c. c \<noteq> []) ?ids = ?ids" using w(1) by (auto simp: filter_id_conv word_def)
  ultimately have "filter (\<lambda>c. c \<noteq> []) (map trim_space (split_on CHR '','' (?tr trailerCandidates))) = ?ids"
    unfolding f by simp
  with assms show ?thesis
    by (simp add: parse_claim_def Let_def f parse_format_int64)
qed

text \<open>A bead id that pretends to be a trailer.\<close>

definition ex_sly_member :: member where
  "ex_sly_member = \<lparr>mb_candidateID = ''c-1'', mb_envelopeSHA = ''e5'', mb_proposalSHA = ''p7'',
     mb_env = (ex_member_env ''c-1'' ''x'')\<lparr>env_BeadID := ''b'' @ [NL] @ ''Promoter-PID: 1''\<rparr>\<rparr>"

definition ex_sly_batch :: batch where
  "ex_sly_batch = \<lparr>ba_id = ''b-1'', ba_snapshot = ''a1'', ba_chainTip = [], ba_members = [ex_sly_member]\<rparr>"

theorem promotion_claim_roundtrip_witness:
  "parse_claim (trim_space (commit_message ex_promote_params ex_sly_member ex_sly_batch True)) =
   (None, \<lparr>pc_host = ''h'', pc_pid = 7, pc_procStart = 9, pc_candidates = [''c-1'']\<rparr>)"
proof -
  have ids: "candidateIDs ex_sly_batch = [''c-1'']" by code_simp
  have "word (ba_id ex_sly_batch)" "word (pp_Host ex_promote_params)"
    "list_all (\<lambda>i. word i \<and> CHR '','' \<notin> set i) [''c-1'']" by code_simp+
  moreover have "pp_PID ex_promote_params = 7" "pp_ProcStart ex_promote_params = 9" "pp_Host ex_promote_params = ''h''"
    by (simp_all add: ex_promote_params_def)
  ultimately show ?thesis using promotion_claim_roundtrip [of ex_sly_batch ex_promote_params ex_sly_member]
    unfolding ids by simp
qed

subsection \<open>Greedy selection\<close>

lemma parse_ref_lines_distinct: "distinct (map fst acc) \<Longrightarrow> distinct (map fst (parse_ref_lines pre acc ls))"
  by (induction pre acc ls rule: parse_ref_lines.induct) (auto simp: distinct_update split: option.splits)

lemma listRefsWithSHAs_distinct:
  "listRefsWithSHAs e pre w = (Some m, w') \<Longrightarrow> distinct (map fst m)"
  by (auto simp: listRefsWithSHAs_def Let_def parse_ref_lines_distinct)

lemma subseq_sorted: "subseq xs ys \<Longrightarrow> sorted ys \<Longrightarrow> sorted xs"
  by (induction xs ys rule: list_emb.induct) (auto dest: list_emb_set)

text \<open>C35: Selection is greedy and complete. The members come in candidate order and write disjoint paths,
  none is claimed by a live promoter or stale at the snapshot, and there are at most \<open>MaxBatch\<close>; when
  there are fewer, every listed candidate left out was not this round's, claimed, unreadable, stale,
  or in conflict with a chosen one.\<close>

theorem selectCandidates_greedy:
  assumes "listRefsWithSHAs e candidateRefPrefix w = (Some refs, w1)"
    and "listRefsWithSHAs e proposalRefPrefix w1 = (Some props, w2)" "0 \<le> pp_MaxBatch p"
    and "selectCandidates e p snapshot claimed only w = ((None, ms, outs), w')"
  shows "sorted (map mb_candidateID ms) \<and> distinct (map mb_candidateID ms) \<and> disjoint_writes ms \<and>
    int (length ms) \<le> pp_MaxBatch p \<and>
    list_all (\<lambda>m. mb_candidateID m \<in> fst ` set refs \<and> mb_candidateID m \<notin> set claimed \<and>
       (only \<noteq> [] \<longrightarrow> mb_candidateID m = only) \<and> fresh_at e snapshot m) ms \<and>
    (int (length ms) < pp_MaxBatch p \<longrightarrow>
       (\<forall>cid \<in> fst ` set refs. cid \<in> mb_candidateID ` set ms \<or>
          passed e (e_git e (w_tick w2)) snapshot refs props claimed only ms cid))"
proof -
  have inv0: "sel_inv e snapshot refs props claimed only no_selection"
    by (simp add: sel_inv_def no_selection_def disjoint_writes_def)
  obtain er0 s' where lp: "select_loop e (e_git e (w_tick w2)) (pp_MaxBatch p) snapshot refs props claimed only
      (sort (map fst refs)) no_selection = (er0, s')"
    by (cases "select_loop e (e_git e (w_tick w2)) (pp_MaxBatch p) snapshot refs props claimed only
      (sort (map fst refs)) no_selection")
  with assms(1,2,4) have r: "er0 = None" "ms = se_members s'"
    by (auto simp: selectCandidates_def Let_def)
  have inv: "sel_inv e snapshot refs props claimed only s'" using select_loop_inv [OF lp refl inv0] r(1) by simp
  have st: "subseq (map mb_candidateID ms) (sort (map fst refs))" "int (length ms) \<le> pp_MaxBatch p"
    "int (length ms) < pp_MaxBatch p \<longrightarrow>
       (\<forall>cid \<in> set (sort (map fst refs)). cid \<in> mb_candidateID ` set ms \<or>
          passed e (e_git e (w_tick w2)) snapshot refs props claimed only ms cid)"
    using select_loop_steps [OF lp [unfolded r(1)] refl inv0] assms(3) r(2) by (auto simp: no_selection_def)
  have so: "sorted (map mb_candidateID ms)" by (rule subseq_sorted [OF st(1)]) simp
  have di: "distinct (map mb_candidateID ms)"
    using listRefsWithSHAs_distinct [OF assms(1)] sorted_distinct_subseq [OF st(1)] by simp
  have mem: "mb_candidateID m \<in> fst ` set refs" if "m \<in> set ms" for m
    using that list_emb_set [OF st(1), of "mb_candidateID m"] by auto
  have "list_all (\<lambda>m. mb_candidateID m \<in> fst ` set refs \<and> mb_candidateID m \<notin> set claimed \<and>
       (only \<noteq> [] \<longrightarrow> mb_candidateID m = only) \<and> fresh_at e snapshot m) ms"
    using inv mem r(2) by (auto simp: sel_inv_def list_all_iff chosen_def)
  with so di st(2,3) inv r(2) show ?thesis by (simp add: sel_inv_def)
qed

definition ex_selection :: "(promote_error option \<times> member list \<times> CandidateOutcome list) \<times> pworld" where
  "ex_selection = selectCandidates (ex_promote_env (\<lambda>_. ex_verdict True)) (promote_defaults ex_promote_params)
     ''a1'' [] [] ex_pworld"

theorem selectCandidates_greedy_witness:
  "disjoint_writes (fst (snd (fst ex_selection))) \<and>
   map mb_candidateID (fst (snd (fst ex_selection))) = [''c-1'', ''c-2''] \<and>
   int (length (fst (snd (fst ex_selection)))) \<le> 3"
proof -
  let ?e = "ex_promote_env (\<lambda>_. ex_verdict True)"
  obtain er ms outs w' where r: "ex_selection = ((er, ms, outs), w')" by (cases ex_selection) auto
  have ev: "fst (fst ex_selection) = None" "map mb_candidateID (fst (snd (fst ex_selection))) = [''c-1'', ''c-2'']"
    "fst (listRefsWithSHAs ?e candidateRefPrefix ex_pworld) \<noteq> None"
    "fst (listRefsWithSHAs ?e proposalRefPrefix (snd (listRefsWithSHAs ?e candidateRefPrefix ex_pworld))) \<noteq> None"
    by code_simp+
  then obtain refs w1 props w2 where l: "listRefsWithSHAs ?e candidateRefPrefix ex_pworld = (Some refs, w1)"
    "listRefsWithSHAs ?e proposalRefPrefix w1 = (Some props, w2)"
    by (metis not_Some_eq prod.collapse snd_conv)
  have m: "0 \<le> pp_MaxBatch (promote_defaults ex_promote_params)" "pp_MaxBatch (promote_defaults ex_promote_params) = 3"
    by code_simp+
  from r ev(1) have "selectCandidates ?e (promote_defaults ex_promote_params) ''a1'' [] [] ex_pworld = ((None, ms, outs), w')"
    by (simp add: ex_selection_def)
  note g = selectCandidates_greedy [OF l m(1) this]
  have "disjoint_writes ms" by (rule conjunct1 [OF conjunct2 [OF conjunct2 [OF g]]])
  moreover have "int (length ms) \<le> 3"
    by (rule conjunct1 [OF conjunct2 [OF conjunct2 [OF conjunct2 [OF g]]], unfolded m(2)])
  ultimately show ?thesis using ev(2) unfolding r by simp
qed

subsection \<open>Reclaiming\<close>

text \<open>What happens to one listed promoting ref: it is deleted when its promoter is dead, its candidates
  are withheld when the promoter lives or the claim cannot be read, a claim without candidates
  blocks the round, and a log that fails is a warning.\<close>

definition reclaim_fate :: "promote_env \<Rightarrow> EvalContext \<Rightarrow> refs \<Rightarrow> reclaimVerdict \<Rightarrow> pworld \<Rightarrow> string \<Rightarrow> nat \<Rightarrow> bool" where
  "reclaim_fate e ec refs v w bid n =
     (let tip = the (map_of refs bid) in
      case readPromotionClaim (e_git e n) tip of
        (None, cl) \<Rightarrow>
          if CandidateClaimIsDead ec (claim_of_promoter cl)
          then list_ex (\<lambda>g. lg_updates g = [del_ref (promotingRef bid) tip] \<and> lg_error g = None) (w_log w)
          else set (pc_candidates cl) \<subseteq> set (rv_claimed v)
      | (Some ErrBadPromotingClaim, cl) \<Rightarrow>
          if pc_candidates cl = [] then rv_blocked v else set (pc_candidates cl) \<subseteq> set (rv_claimed v)
      | (Some ErrLog, cl) \<Rightarrow> rv_warnings v \<noteq> [])"

definition dead_claim :: "promote_env \<Rightarrow> EvalContext \<Rightarrow> refs \<Rightarrow> RefUpdate list \<Rightarrow> string \<Rightarrow> nat \<Rightarrow> bool" where
  "dead_claim e ec refs us bid n =
     (let tip = the (map_of refs bid) in
      us = [del_ref (promotingRef bid) tip] \<and>
      (case readPromotionClaim (e_git e n) tip of
         (None, cl) \<Rightarrow> CandidateClaimIsDead ec (claim_of_promoter cl) | _ \<Rightarrow> False))"

definition verdict_grew :: "reclaimVerdict \<Rightarrow> reclaimVerdict \<Rightarrow> bool" where
  "verdict_grew v v' \<longleftrightarrow> set (rv_claimed v) \<subseteq> set (rv_claimed v') \<and> (rv_blocked v \<longrightarrow> rv_blocked v') \<and>
     (rv_warnings v \<noteq> [] \<longrightarrow> rv_warnings v' \<noteq> [])"

lemma verdict_grew_trans: "verdict_grew v v1 \<Longrightarrow> verdict_grew v1 v2 \<Longrightarrow> verdict_grew v v2"
  by (auto simp: verdict_grew_def)

lemma reclaim_fate_mono:
  "reclaim_fate e ec refs v w bid n \<Longrightarrow> verdict_grew v v' \<Longrightarrow> set (w_log w) \<subseteq> set (w_log w') \<Longrightarrow>
   reclaim_fate e ec refs v' w' bid n"
proof -
  assume f: "reclaim_fate e ec refs v w bid n" and g: "verdict_grew v v'" "set (w_log w) \<subseteq> set (w_log w')"
  obtain cer cl where r: "readPromotionClaim (e_git e n) (the (map_of refs bid)) = (cer, cl)"
    by (cases "readPromotionClaim (e_git e n) (the (map_of refs bid))")
  show ?thesis
  proof (cases cer)
    case None
    with f g r show ?thesis by (auto simp: reclaim_fate_def verdict_grew_def list_ex_iff split: if_splits)
  next
    case (Some er)
    with f g r show ?thesis by (cases er) (auto simp: reclaim_fate_def verdict_grew_def split: if_splits)
  qed
qed

lemma reclaim_one_fate:
  assumes "reclaimOnePromotion e ec bid (the (map_of refs bid)) v w = (None, v', w')" "documented_update_ref (e_update e)"
    and "list_all (\<lambda>c. \<not> is_space c) bid" "word (the (map_of refs bid))"
  shows "reclaim_fate e ec refs v' w' bid (w_tick w) \<and> verdict_grew v v' \<and> (\<exists>gs. w_log w' = w_log w @ gs \<and>
    list_all (\<lambda>g. dead_claim e ec refs (lg_updates g) bid (w_tick w)) gs)"
proof -
  let ?tip = "the (map_of refs bid)"
  obtain cer cl where cl: "readPromotionClaim (e_git e (w_tick w)) ?tip = (cer, cl)"
    by (cases "readPromotionClaim (e_git e (w_tick w)) ?tip")
  show ?thesis
  proof (cases "cer = None \<and> CandidateClaimIsDead ec (claim_of_promoter cl)")
    case False
    with assms(1) cl show ?thesis
      by (cases cer; cases "the cer") (auto simp: reclaimOnePromotion_def reclaimBadClaim_def reclaim_fate_def verdict_grew_def split: if_splits)
  next
    case True
    obtain er1 w1 where u: "UpdateRefsTx e [del_ref (promotingRef bid) ?tip] w = (er1, w1)"
      by (cases "UpdateRefsTx e [del_ref (promotingRef bid) ?tip] w")
    have r: "er1 = None" "v' = v" "w' = w1"
      using assms(1) cl True u by (auto simp: reclaimOnePromotion_def del_ref_def split: option.splits)
    have "list_all ref_line_ok [del_ref (promotingRef bid) ?tip]"
      using del_ref_ok assms(3,4) by (simp add: ref_words)
    from UpdateRefsTx_log [OF u _ this assms(2)] obtain g where
      "w_log w1 = w_log w @ [g]" "lg_updates g = [del_ref (promotingRef bid) ?tip]" "lg_error g = er1" by blast
    with r cl True show ?thesis by (auto simp: reclaim_fate_def dead_claim_def verdict_grew_def)
  qed
qed

lemma reclaim_loop_fate:
  assumes "reclaim_loop e ec refs bids v w = (None, v', w')" "documented_update_ref (e_update e)"
    and "list_all (\<lambda>bid. list_all (\<lambda>c. \<not> is_space c) bid \<and> word (the (map_of refs bid))) bids"
  shows "(\<forall>bid \<in> set bids. \<exists>n. reclaim_fate e ec refs v' w' bid n) \<and> verdict_grew v v' \<and>
    (\<exists>gs. w_log w' = w_log w @ gs \<and>
      (\<forall>g \<in> set gs. \<exists>bid \<in> set bids. \<exists>n. dead_claim e ec refs (lg_updates g) bid n))"
  using assms
proof (induction e ec refs bids v w rule: reclaim_loop.induct)
  case (1 e ec refs v w)
  then show ?case by (simp add: verdict_grew_def)
next
  case (2 e ec refs bid bids v w)
  obtain er1 v1 w1 where one: "reclaimOnePromotion e ec bid (the (map_of refs bid)) v w = (er1, v1, w1)"
    by (cases "reclaimOnePromotion e ec bid (the (map_of refs bid)) v w")
  have er1: "er1 = None" using "2.prems"(1) one by (cases er1) auto
  with "2.prems"(1) one have r: "reclaim_loop e ec refs bids v1 w1 = (None, v', w')" by simp
  have f: "reclaim_fate e ec refs v1 w1 bid (w_tick w)" "verdict_grew v v1"
    using reclaim_one_fate [OF one [unfolded er1] "2.prems"(2)] "2.prems"(3) by simp_all
  obtain gs1 where g1: "w_log w1 = w_log w @ gs1" "list_all (\<lambda>g. dead_claim e ec refs (lg_updates g) bid (w_tick w)) gs1"
    using reclaim_one_fate [OF one [unfolded er1] "2.prems"(2)] "2.prems"(3) by auto
  have ih: "\<forall>bid \<in> set bids. \<exists>n. reclaim_fate e ec refs v' w' bid n" "verdict_grew v1 v'"
    "\<exists>gs. w_log w' = w_log w1 @ gs \<and> (\<forall>g \<in> set gs. \<exists>bid \<in> set bids. \<exists>n. dead_claim e ec refs (lg_updates g) bid n)"
    using "2.IH" [OF one [symmetric] er1 refl r "2.prems"(2)] "2.prems"(3) by simp_all
  then obtain gs where g: "w_log w' = w_log w1 @ gs" "\<forall>g \<in> set gs. \<exists>bid \<in> set bids. \<exists>n. dead_claim e ec refs (lg_updates g) bid n"
    by blast
  have "reclaim_fate e ec refs v' w' bid (w_tick w)"
    by (rule reclaim_fate_mono [OF f(1) ih(2)]) (simp add: g(1))
  then show ?case
    using ih(1) verdict_grew_trans [OF f(2) ih(2)] g1 g(2)
    by (intro conjI exI [of _ "gs1 @ gs"]) (auto simp: g(1) list_all_iff)
qed

text \<open>Reclaiming takes a claim from the dead only, and lets go of none. Every listed promoting ref has
  its fate: a dead promoter's ref is deleted at the tip that was read, a live or unreadable claim
  keeps its candidates out of the selection, a claim that names none blocks the round; and every
  transaction the sweep runs is such a deletion.\<close>

theorem reclaimDeadPromotions_exact:
  assumes "documented_promote e" "promo_inv e p w" "listRefsWithSHAs e promotingRefPrefix w = (Some refs, w1)"
    and "reclaimDeadPromotions e p w = (None, v, w')"
  shows "(\<forall>bid \<in> fst ` set refs. \<exists>n. reclaim_fate e (promoter_ctx e p (w_tick w1)) refs v w' bid n) \<and>
    (\<exists>gs. w_log w' = w_log w @ gs \<and>
      (\<forall>g \<in> set gs. \<exists>bid \<in> fst ` set refs. \<exists>n. dead_claim e (promoter_ctx e p (w_tick w1)) refs (lg_updates g) bid n))"
proof -
  let ?ec = "promoter_ctx e p (w_tick w1)"
  have u: "documented_update_ref (e_update e)" using assms(1) by (simp add: documented_promote_def documented_git_def)
  note lw = listing_words [OF assms(3,1,2) prefixes_clean(3)]
  have l: "w_log w1 = w_log w" using assms(3) by (auto simp: listRefsWithSHAs_def Let_def observe_def split: option.splits)
  have "reclaim_loop e ?ec refs (sort (map fst refs)) \<lparr>rv_claimed = [], rv_blocked = False, rv_warnings = []\<rparr> w1 =
      (None, v, w')"
    using assms(3,4) by (simp add: reclaimDeadPromotions_def Let_def)
  moreover have "list_all (\<lambda>bid. list_all (\<lambda>c. \<not> is_space c) bid \<and> word (the (map_of refs bid))) (sort (map fst refs))"
    using keys_words [OF lw(1)] by (simp add: list_all_iff)
  ultimately have "(\<forall>bid \<in> set (sort (map fst refs)). \<exists>n. reclaim_fate e ?ec refs v w' bid n) \<and>
      verdict_grew \<lparr>rv_claimed = [], rv_blocked = False, rv_warnings = []\<rparr> v \<and>
      (\<exists>gs. w_log w' = w_log w1 @ gs \<and>
        (\<forall>g \<in> set gs. \<exists>bid \<in> set (sort (map fst refs)). \<exists>n. dead_claim e ?ec refs (lg_updates g) bid n))"
    by (rule reclaim_loop_fate [OF _ u])
  then show ?thesis unfolding l set_sort set_map by blast
qed

text \<open>A promoting ref of a promoter on another host, older than any horizon, next to an unreadable one.\<close>

definition ex_claim_msg :: string where
  "ex_claim_msg = ''Batch-Candidates: c-1'' @ [NL] @ ''Promoter-PID: 7'' @ [NL] @ ''Promoter-ProcStart: 9''"

definition ex_reclaim_env :: promote_env where
  "ex_reclaim_env = (ex_promote_env (\<lambda>_. ex_verdict True))\<lparr>e_git := (\<lambda>_ cmd.
     if last cmd = ''d1'' then Some ex_claim_msg else Some ''Batch-Candidates: c-2'')\<rparr>"

definition ex_reclaim_world :: pworld where
  "ex_reclaim_world = ex_pworld\<lparr>w_refs := w_refs ex_pworld @
     [(''refs/loto/promoting/b-1'', ''d1''), (''refs/loto/promoting/b-2'', ''d2'')]\<rparr>"

definition ex_reclaim_params :: PromoteParams where
  "ex_reclaim_params = ex_promote_params\<lparr>pp_Live := Some (\<lambda>_. LivenessDead)\<rparr>"

definition ex_reclaim :: "promote_error option \<times> reclaimVerdict \<times> pworld" where
  "ex_reclaim = reclaimDeadPromotions ex_reclaim_env ex_reclaim_params ex_reclaim_world"

lemma ex_reclaim_eval:
  "fst ex_reclaim = None" "rv_claimed (fst (snd ex_reclaim)) = [''c-2'']"
  "fst (listRefsWithSHAs ex_reclaim_env promotingRefPrefix ex_reclaim_world) = Some [(''b-1'', ''d1''), (''b-2'', ''d2'')]"
  by code_simp+

lemma ex_reclaim_documented: "documented_promote ex_reclaim_env"
  using ex_promote_documented [of "\<lambda>_. ex_verdict True"]
  by (simp add: documented_promote_def documented_git_def ex_reclaim_env_def)

lemma ex_reclaim_inv: "promo_inv ex_reclaim_env ex_reclaim_params ex_reclaim_world"
proof -
  have "clean_refs (w_refs ex_reclaim_world)" "w_log ex_reclaim_world = []" by code_simp+
  then show ?thesis by (simp add: promo_inv_def)
qed

lemma ex_reclaim_claim:
  "readPromotionClaim (e_git ex_reclaim_env n) ''d1'' =
    (None, \<lparr>pc_host = [], pc_pid = 7, pc_procStart = 9, pc_candidates = [''c-1'']\<rparr>)"
proof -
  have "parse_claim ex_claim_msg = (None, \<lparr>pc_host = [], pc_pid = 7, pc_procStart = 9, pc_candidates = [''c-1'']\<rparr>)"
    "trim_space ex_claim_msg = ex_claim_msg" by code_simp+
  then show ?thesis by (simp add: readPromotionClaim_def ex_reclaim_env_def git_run_def)
qed

theorem reclaimDeadPromotions_exact_witness:
  "list_ex (\<lambda>g. lg_updates g = [del_ref (promotingRef ''b-1'') ''d1''] \<and> lg_error g = None) (w_log (snd (snd ex_reclaim)))
   \<and> rv_claimed (fst (snd ex_reclaim)) = [''c-2'']"
proof -
  let ?refs = "[(''b-1'', ''d1''), (''b-2'', ''d2'')]"
  obtain er v w' where r: "ex_reclaim = (er, v, w')" by (cases ex_reclaim) auto
  obtain w1 where l: "listRefsWithSHAs ex_reclaim_env promotingRefPrefix ex_reclaim_world = (Some ?refs, w1)"
    by (metis ex_reclaim_eval(3) prod.collapse)
  have "reclaimDeadPromotions ex_reclaim_env ex_reclaim_params ex_reclaim_world = (None, v, w')"
    using r ex_reclaim_eval(1) by (simp add: ex_reclaim_def)
  from reclaimDeadPromotions_exact [OF ex_reclaim_documented ex_reclaim_inv l this]
  obtain n where "reclaim_fate ex_reclaim_env (promoter_ctx ex_reclaim_env ex_reclaim_params (w_tick w1)) ?refs v w' ''b-1'' n"
    by auto
  then show ?thesis using ex_reclaim_eval(2) unfolding r
    by (simp add: reclaim_fate_def ex_reclaim_claim CandidateClaimIsDead_def promoter_ctx_def ex_reclaim_params_def)
qed

end
