(* ===== verification/Json.thy ===== *)
theory Json
  imports Prelude
begin

text \<open>
  What the store uses of \<open>encoding/json\<close>: \<open>json.Marshal\<close> of a flat struct of strings, integers and
  string lists.  Strings are byte lists here, as in Go; the encoder escapes the five bytes that
  are not safe in HTML, the quotation mark and the control bytes, replaces a byte that starts no
  UTF-8 sequence by the replacement character, and copies the rest.
\<close>

definition byte :: "char \<Rightarrow> nat" where "byte c = of_char c"

text \<open>\<open>utf8.DecodeRune\<close>: the length of the sequence the bytes start with, 0 where there is none.\<close>

definition between :: "nat \<Rightarrow> nat \<Rightarrow> char \<Rightarrow> bool" where
  "between lo hi c \<longleftrightarrow> lo \<le> byte c \<and> byte c \<le> hi"

definition utf8_second :: "char \<Rightarrow> char \<Rightarrow> bool" where
  "utf8_second a b \<longleftrightarrow>
     (if byte a = 0xE0 then between 0xA0 0xBF b
      else if byte a = 0xED then between 0x80 0x9F b
      else if byte a = 0xF0 then between 0x90 0xBF b
      else if byte a = 0xF4 then between 0x80 0x8F b
      else between 0x80 0xBF b)"

fun utf8_size :: "string \<Rightarrow> nat" where
  "utf8_size [] = 0"
| "utf8_size (a # s) =
     (if byte a < 0x80 then 1
      else case s of
        [] \<Rightarrow> 0
      | b # s \<Rightarrow>
          if \<not> (between 0xC2 0xF4 a \<and> utf8_second a b) then 0
          else if byte a < 0xE0 then 2
          else (case s of
                  [] \<Rightarrow> 0
                | c # s \<Rightarrow>
                    if \<not> between 0x80 0xBF c then 0
                    else if byte a < 0xF0 then 3
                    else (case s of [] \<Rightarrow> 0 | d # _ \<Rightarrow> if between 0x80 0xBF d then 4 else 0)))"

lemma utf8_size_le: "utf8_size s \<le> length s"
  by (cases s rule: utf8_size.cases) (auto split: list.splits)

definition hex_digit :: "nat \<Rightarrow> char" where
  "hex_digit n = (if n < 10 then char_of (48 + n) else char_of (87 + n))"

definition json_escape :: "char \<Rightarrow> string" where
  "json_escape c =
     (if c = CHR 0x22 \<or> c = CHR 0x5C then [CHR 0x5C, c]
      else if byte c = 8 then [CHR 0x5C, CHR ''b'']
      else if byte c = 12 then [CHR 0x5C, CHR ''f'']
      else if byte c = 10 then [CHR 0x5C, CHR ''n'']
      else if byte c = 13 then [CHR 0x5C, CHR ''r'']
      else if byte c = 9 then [CHR 0x5C, CHR ''t'']
      else CHR 0x5C # ''u00'' @ [hex_digit (byte c div 16), hex_digit (byte c mod 16)])"

definition json_safe :: "char \<Rightarrow> bool" where
  "json_safe c \<longleftrightarrow> 0x20 \<le> byte c \<and> byte c < 0x80 \<and>
     c \<noteq> CHR 0x22 \<and> c \<noteq> CHR 0x5C \<and> c \<noteq> CHR 0x3C \<and> c \<noteq> CHR 0x3E \<and> c \<noteq> CHR 0x26"

function (sequential) json_body :: "string \<Rightarrow> string" where
  "json_body [] = []"
| "json_body (c # s) =
     (if byte c < 0x80 then (if json_safe c then [c] else json_escape c) @ json_body s
      else let n = utf8_size (c # s); r = take n (c # s) in
           if n = 0 then CHR 0x5C # ''ufffd'' @ json_body s
           else (if r = [CHR 0xE2, CHR 0x80, CHR 0xA8] then CHR 0x5C # ''u2028''
                 else if r = [CHR 0xE2, CHR 0x80, CHR 0xA9] then CHR 0x5C # ''u2029'' else r)
                @ json_body (drop n (c # s)))"
  by pat_completeness auto
termination
  by (relation "measure length") auto

definition json_string :: "string \<Rightarrow> string" where
  "json_string s = [CHR 0x22] @ json_body s @ [CHR 0x22]"

definition json_strings :: "string list \<Rightarrow> string" where
  "json_strings ss = ''['' @ join_with '','' (map json_string ss) @ '']''"

text \<open>A struct: its fields in declaration order, the ones with \<open>omitempty\<close> dropped by the caller.\<close>

definition json_object :: "(string \<times> string) list \<Rightarrow> string" where
  "json_object fs = ''{'' @ join_with '','' (map (\<lambda>f. json_string (fst f) @ '':'' @ snd f) fs) @ ''}''"

definition omit_empty :: "string \<Rightarrow> string \<Rightarrow> (string \<times> string) list" where
  "omit_empty k v = (if v = [] then [] else [(k, json_string v)])"

text \<open>Text of safe bytes is copied.\<close>

lemma json_body_safe: "list_all json_safe s \<Longrightarrow> json_body s = s"
  by (induction s) (simp_all add: json_safe_def)

end
