(* ===== verification/TreeEvents.thy ===== *)
theory TreeEvents
  imports Refresh Json
begin

text \<open>
  \<open>internal/store/tree_events.go\<close>, with the per-path transition counter of \<open>hook_calls.go\<close> it cites:
  what a path was last observed to be, one event per observed change, the calls that span it, and
  the reports it owes.

  \<open>hook_db\<close> puts the tables of this layer next to \<open>db\<close>.  Tables whose primary key the code upserts
  on are maps, the others lists of rows in rowid order; \<open>hook_calls\<close> is the table \<open>db\<close> already has.
  Instants are unbounded integers (nanoseconds).
\<close>

subsection \<open>Tables\<close>

record call_path =
  cp_call_id :: string
  cp_path :: string
  cp_locked :: bool
  cp_declared :: bool
  cp_pre_observed :: bool
  cp_epoch_pre :: int
  cp_holder_pre :: AgentUUID
  cp_seq_pre :: int
  cp_seq_post :: "int option"
  cp_digest_pre :: string
  cp_digest_post :: "string option"
  cp_stat_pre :: string
  cp_stat_post :: "string option"

datatype TreeRule =
    TreeRuleDrift | TreeRuleRow1 | TreeRuleRow2 | TreeRuleRow3 | TreeRuleRow4 | TreeRuleRow5
  | TreeRuleRow6 | TreeRuleRow7 | TreeRuleRow8

record TreeSpanner =
  sp_CallID :: string
  sp_Owner :: AgentUUID

record tree_event_row =
  te_EventID :: string
  te_Path :: string
  te_EpochPre :: int
  te_HolderPre :: AgentUUID
  te_EpochNow :: int
  te_HolderNow :: AgentUUID
  te_Observer :: AgentUUID
  te_CallID :: string
  te_Seq :: int
  te_DigestPre :: string
  te_DigestPost :: string
  te_Declared :: bool
  te_Rule :: TreeRule
  te_Note :: string
  te_CreatedAt :: time
  te_Worktree :: string

record TreeEvent = tree_event_row +
  te_Spanners :: "TreeSpanner list"

record spanner_row =
  sr_event_id :: string
  sr_call_id :: string
  sr_owner_uuid :: AgentUUID

record report_row =
  rr_report_id :: string
  rr_event_id :: string
  rr_addressee_uuid :: AgentUUID
  rr_created_at :: time
  rr_delivered_at :: "time option"
  rr_acted_at :: "time option"

type_synonym path_key = "string \<times> string \<times> int"

record hook_db =
  hk_db :: db
  hk_paths :: "call_path list"
  hk_path_seq :: "path_key \<Rightarrow> (int \<times> string) option"
  hk_observed :: "path_key \<Rightarrow> (string \<times> string \<times> time) option"
  hk_tree_events :: "tree_event_row list"
  hk_spanners :: "spanner_row list"
  hk_reports :: "report_row list"

abbreviation hk_calls :: "hook_db \<Rightarrow> hook_call list" where
  "hk_calls h \<equiv> db_hook_calls (hk_db h)"

text \<open>One path as a hook observed it.\<close>

record HookPathState =
  hs_Path :: string
  hs_Locked :: bool
  hs_Declared :: bool
  hs_Epoch :: int
  hs_Holder :: AgentUUID
  hs_Digest :: string
  hs_Stat :: string
  hs_SeqAtObserve :: int
  hs_SeqAtObserveKnown :: bool

subsection \<open>The transition counter\<close>

definition pathSeqAt :: "hook_db \<Rightarrow> path_key \<Rightarrow> int" where
  "pathSeqAt h k = (case hk_path_seq h k of None \<Rightarrow> 0 | Some (n, _) \<Rightarrow> n)"

definition nextPathSeq :: "string \<Rightarrow> hook_db \<Rightarrow> path_key \<Rightarrow> int \<times> hook_db" where
  "nextPathSeq digest h k =
     (let n = (case hk_path_seq h k of None \<Rightarrow> 1 | Some (m, _) \<Rightarrow> m + 1)
      in (n, h\<lparr>hk_path_seq := (hk_path_seq h)(k \<mapsto> (n, digest))\<rparr>))"

definition pathSeqStateTx :: "hook_db \<Rightarrow> path_key \<Rightarrow> int \<times> string \<times> bool" where
  "pathSeqStateTx h k = (case hk_path_seq h k of None \<Rightarrow> (0, [], False) | Some (n, dg) \<Rightarrow> (n, dg, True))"

definition PathSeq :: "hook_db \<Rightarrow> string \<Rightarrow> string \<Rightarrow> int \<Rightarrow> int" where
  "PathSeq h path wt epoch = (case hk_path_seq h (path, wt, epoch) of None \<Rightarrow> 0 | Some (n, _) \<Rightarrow> n)"

text \<open>It is the second counter of the store that only grows.\<close>

interpretation path_seqs: epoch_counter pathSeqAt "nextPathSeq dg" for dg
  by unfold_locales (auto simp: pathSeqAt_def nextPathSeq_def Let_def split: option.splits)

subsection \<open>Contention\<close>

definition call_open :: "hook_call \<Rightarrow> bool" where
  "call_open c \<longleftrightarrow> hc_t_post c = None \<and> hc_dead_at c = None"

text \<open>The join of \<open>hook_call_paths\<close> with \<open>hook_calls\<close> and its \<open>WHERE\<close>; a NULL \<open>seq_post\<close> compares as
  neither.\<close>

definition spans :: "string \<Rightarrow> string \<Rightarrow> int \<Rightarrow> int \<Rightarrow> AgentUUID \<Rightarrow> call_path \<Rightarrow> hook_call \<Rightarrow> bool" where
  "spans path wt epoch n observer p c \<longleftrightarrow>
     hc_call_id c = cp_call_id p \<and> cp_path p = path \<and> cp_epoch_pre p = epoch \<and> hc_worktree c = wt \<and>
     hc_owner_uuid c \<noteq> observer \<and> cp_seq_pre p < n \<and>
     ((case cp_seq_post p of None \<Rightarrow> False | Some m \<Rightarrow> n \<le> m) \<or> call_open c)"

definition spannersTx :: "hook_db \<Rightarrow> string \<Rightarrow> string \<Rightarrow> int \<Rightarrow> int \<Rightarrow> AgentUUID \<Rightarrow> TreeSpanner list" where
  "spannersTx h path wt epoch n observer =
     sort_key (\<lambda>s. (sp_Owner s, sp_CallID s))
       (concat (map (\<lambda>p. map (\<lambda>c. \<lparr>sp_CallID = cp_call_id p, sp_Owner = hc_owner_uuid c\<rparr>)
          (filter (spans path wt epoch n observer p) (hk_calls h))) (hk_paths h)))"

subsection \<open>The verdict table\<close>

record treeEventInput =
  ti_Path :: string
  ti_EpochPre :: int
  ti_HolderPre :: AgentUUID
  ti_EpochNow :: int
  ti_HolderNow :: AgentUUID
  ti_Observer :: AgentUUID
  ti_CallID :: string
  ti_Seq :: int
  ti_DigestPre :: string
  ti_DigestPost :: string
  ti_Declared :: bool
  ti_Drift :: bool
  ti_Worktree :: string

fun TreeRule_name :: "TreeRule \<Rightarrow> string" where
  "TreeRule_name TreeRuleDrift = ''drift''"
| "TreeRule_name TreeRuleRow1 = ''row1''"
| "TreeRule_name TreeRuleRow2 = ''row2''"
| "TreeRule_name TreeRuleRow3 = ''row3''"
| "TreeRule_name TreeRuleRow4 = ''row4''"
| "TreeRule_name TreeRuleRow5 = ''row5''"
| "TreeRule_name TreeRuleRow6 = ''row6''"
| "TreeRule_name TreeRuleRow7 = ''row7''"
| "TreeRule_name TreeRuleRow8 = ''row8''"

text \<open>\<open>treeRuleNote\<close>; a rule without an entry reads as the empty string.\<close>

fun treeRuleNote :: "TreeRule \<Rightarrow> string" where
  "treeRuleNote TreeRuleDrift = ''changed with no call covering it''"
| "treeRuleNote TreeRuleRow1 = ''lock changed hands during the call''"
| "treeRuleNote TreeRuleRow2 = ''changed in your call, no competing call seen''"
| "treeRuleNote TreeRuleRow3 = ''your edit overlapped another call; verify the file''"
| "treeRuleNote TreeRuleRow4 = ''changed during your call and another call; loto cannot say who''"
| "treeRuleNote TreeRuleRow5 = ''changed during the observer's call, no other call seen''"
| "treeRuleNote TreeRuleRow6 = ''changed during the observer's call and others; loto cannot say who''"
| "treeRuleNote TreeRuleRow7 = ''changed under contention; unlocked, unattributed''"
| "treeRuleNote TreeRuleRow8 = []"

definition add_addressee :: "AgentUUID \<Rightarrow> AgentUUID list \<Rightarrow> AgentUUID list" where
  "add_addressee u out = (if u = [] \<or> u \<in> set out then out else out @ [u])"

definition treeAddressees :: "treeEventInput \<Rightarrow> TreeSpanner list \<Rightarrow> AgentUUID list" where
  "treeAddressees inp sps =
     (let a = add_addressee (ti_Observer inp) (add_addressee (ti_HolderPre inp) []);
          b = (if ti_EpochNow inp \<noteq> ti_EpochPre inp then add_addressee (ti_HolderNow inp) a else a)
      in sort (foldl (\<lambda>out sp. add_addressee (sp_Owner sp) out) b sps))"

definition classifyTreeEvent :: "treeEventInput \<Rightarrow> TreeSpanner list \<Rightarrow> TreeRule \<times> AgentUUID list" where
  "classifyTreeEvent inp sps =
     (let contested = sps \<noteq> [];
          rule =
            (if ti_Drift inp then TreeRuleDrift
             else if ti_EpochNow inp \<noteq> ti_EpochPre inp then TreeRuleRow1
             else if ti_HolderPre inp = ti_Observer inp \<and> ti_HolderPre inp \<noteq> [] then
               (if \<not> contested then TreeRuleRow2
                else if ti_Declared inp then TreeRuleRow3 else TreeRuleRow4)
             else if ti_HolderPre inp \<noteq> [] then
               (if contested then TreeRuleRow6 else TreeRuleRow5)
             else if contested then TreeRuleRow7 else TreeRuleRow8)
      in if rule = TreeRuleRow8 \<or> (rule = TreeRuleRow2 \<and> ti_Declared inp) then (rule, [])
         else (rule, treeAddressees inp sps))"

subsection \<open>Filing\<close>

definition treeChangeDetail ::
  "string \<Rightarrow> AgentUUID \<Rightarrow> AgentUUID \<Rightarrow> string \<Rightarrow> AgentUUID list \<Rightarrow> TreeRule \<Rightarrow> int \<Rightarrow> string" where
  "treeChangeDetail path holder observer call_id sps rule n =
     json_object
       ([(''path'', json_string path), (''holder'', json_string holder)] @ omit_empty ''observer'' observer @
        omit_empty ''call_id'' call_id @ (if sps = [] then [] else [(''spanners'', json_strings sps)]) @
        [(''rule'', json_string (TreeRule_name rule)), (''seq'', format_int n)])"

definition tree_audit :: "EventKind \<Rightarrow> string \<Rightarrow> AgentUUID \<Rightarrow> TreeRule \<Rightarrow> string \<Rightarrow> time \<Rightarrow> Event" where
  "tree_audit kind path actor rule detail now =
     \<lparr>e_ID = [], e_Target = Target path, e_Kind = kind, e_ActorUUID = actor, e_SubjectUUID = [],
      e_Reason = TreeRule_name rule, e_Detail = detail, e_CreatedAt = now\<rparr>"

definition appendTreeChangeReportedTx :: "store \<Rightarrow> TreeEvent \<Rightarrow> AgentUUID \<Rightarrow> time \<Rightarrow> db \<Rightarrow> db" where
  "appendTreeChangeReportedTx s ev who now d =
     appendEventTx s
       (tree_audit EventTreeChangeReported (te_Path ev) who (te_Rule ev)
          (treeChangeDetail (te_Path ev) (te_HolderPre ev) (te_Observer ev) (te_CallID ev)
             (map sp_Owner (te_Spanners ev)) (te_Rule ev) (te_Seq ev)) now) d"

text \<open>\<open>INSERT OR IGNORE\<close> on the key (event, call).\<close>

definition add_spanner :: "string \<Rightarrow> TreeSpanner \<Rightarrow> spanner_row list \<Rightarrow> spanner_row list" where
  "add_spanner ev sp rows =
     (if list_ex (\<lambda>r. sr_event_id r = ev \<and> sr_call_id r = sp_CallID sp) rows then rows
      else rows @ [\<lparr>sr_event_id = ev, sr_call_id = sp_CallID sp, sr_owner_uuid = sp_Owner sp\<rparr>])"

fun file_reports :: "store \<Rightarrow> TreeEvent \<Rightarrow> time \<Rightarrow> AgentUUID list \<Rightarrow> hook_db \<Rightarrow> hook_db" where
  "file_reports s ev now [] h = h"
| "file_reports s ev now (who # ws) h =
     (let r = newID s ''e-'' (hk_db h) in
      file_reports s ev now ws
        (h\<lparr>hk_db := appendTreeChangeReportedTx s ev who now (snd r),
          hk_reports := hk_reports h @
            [\<lparr>rr_report_id = fst r, rr_event_id = te_EventID ev, rr_addressee_uuid = who, rr_created_at = now,
              rr_delivered_at = None, rr_acted_at = None\<rparr>]\<rparr>))"

definition event_of_input :: "treeEventInput \<Rightarrow> string \<Rightarrow> TreeRule \<Rightarrow> time \<Rightarrow> tree_event_row" where
  "event_of_input inp eid rule now =
     \<lparr>te_EventID = eid, te_Path = ti_Path inp, te_EpochPre = ti_EpochPre inp, te_HolderPre = ti_HolderPre inp,
      te_EpochNow = ti_EpochNow inp, te_HolderNow = ti_HolderNow inp, te_Observer = ti_Observer inp,
      te_CallID = ti_CallID inp, te_Seq = ti_Seq inp, te_DigestPre = ti_DigestPre inp,
      te_DigestPost = ti_DigestPost inp, te_Declared = ti_Declared inp, te_Rule = rule,
      te_Note = treeRuleNote rule, te_CreatedAt = now, te_Worktree = ti_Worktree inp\<rparr>"

definition with_spanners :: "tree_event_row \<Rightarrow> TreeSpanner list \<Rightarrow> TreeEvent" where
  "with_spanners row sps = tree_event_row.extend row \<lparr>te_Spanners = sps\<rparr>"

definition fileTreeEventTx :: "store \<Rightarrow> treeEventInput \<Rightarrow> time \<Rightarrow> hook_db \<Rightarrow> TreeEvent \<times> hook_db" where
  "fileTreeEventTx s inp now h =
     (let sps = spannersTx h (ti_Path inp) (ti_Worktree inp) (ti_EpochPre inp) (ti_Seq inp) (ti_Observer inp);
          verdict = classifyTreeEvent inp sps;
          e = newID s ''e-'' (hk_db h);
          row = event_of_input inp (fst e) (fst verdict) now;
          ev = with_spanners row sps
      in (ev, file_reports s ev now (snd verdict)
            (h\<lparr>hk_db := snd e, hk_tree_events := hk_tree_events h @ [row],
              hk_spanners := foldl (\<lambda>rows sp. add_spanner (fst e) sp rows) (hk_spanners h) sps\<rparr>)))"

subsection \<open>Acting on a report\<close>

definition minute :: int where "minute = 60 * 1000000000"
definition TreeActedWindow :: int where "TreeActedWindow = 10 * minute"
definition treeEventsRetentionMax :: nat where "treeEventsRetentionMax = 1000"
definition treeReportUndeliveredAge :: int where "treeReportUndeliveredAge = eventsRetentionAge"

text \<open>The join of \<open>tree_reports\<close> with \<open>tree_events\<close>.\<close>

definition report_join :: "hook_db \<Rightarrow> (report_row \<times> tree_event_row) list" where
  "report_join h =
     concat (map (\<lambda>r. map (\<lambda>e. (r, e)) (filter (\<lambda>e. te_EventID e = rr_event_id r) (hk_tree_events h)))
       (hk_reports h))"

record answeredReport =
  ar_reportID :: string
  ar_rule :: TreeRule
  ar_holder :: AgentUUID
  ar_seq :: int

definition answeredReportsTx ::
  "hook_db \<Rightarrow> AgentUUID \<Rightarrow> string \<Rightarrow> string \<Rightarrow> string \<Rightarrow> time \<Rightarrow> answeredReport list" where
  "answeredReportsTx h owner path wt digest now =
     map (\<lambda>(r, e). \<lparr>ar_reportID = rr_report_id r, ar_rule = te_Rule e, ar_holder = te_HolderPre e, ar_seq = te_Seq e\<rparr>)
       (sort_key (\<lambda>(r, e). (- te_Seq e, rr_report_id r))
         (filter (\<lambda>(r, e). rr_addressee_uuid r = owner \<and> te_Path e = path \<and> te_Worktree e = wt \<and> te_DigestPre e = digest \<and>
             (case rr_delivered_at r of None \<Rightarrow> False | Some t \<Rightarrow> now - TreeActedWindow \<le> t) \<and> rr_acted_at r = None)
           (report_join h)))"

definition stamp_acted :: "string \<Rightarrow> time \<Rightarrow> report_row list \<Rightarrow> report_row list" where
  "stamp_acted rid now rows =
     map (\<lambda>r. if rr_report_id r = rid \<and> rr_acted_at r = None then r\<lparr>rr_acted_at := Some now\<rparr> else r) rows"

fun mark_acted_loop ::
  "string \<Rightarrow> AgentUUID \<Rightarrow> time \<Rightarrow> answeredReport list \<Rightarrow> report_row list \<Rightarrow> Event list \<times> report_row list" where
  "mark_acted_loop path owner now [] rows = ([], rows)"
| "mark_acted_loop path owner now (a # as) rows =
     (if \<not> list_ex (\<lambda>r. rr_report_id r = ar_reportID a \<and> rr_acted_at r = None) rows
      then mark_acted_loop path owner now as rows
      else let rest = mark_acted_loop path owner now as (stamp_acted (ar_reportID a) now rows) in
           (tree_audit EventTreeChangeActed path owner (ar_rule a)
              (treeChangeDetail path (ar_holder a) [] [] [] (ar_rule a) (ar_seq a)) now # fst rest, snd rest))"

definition markTreeChangeActedTx ::
  "store \<Rightarrow> AgentUUID \<Rightarrow> string \<Rightarrow> string \<Rightarrow> string \<Rightarrow> time \<Rightarrow> hook_db \<Rightarrow> string list \<times> hook_db" where
  "markTreeChangeActedTx s owner path wt digest now h =
     (if digest = [] \<or> owner = [] then ([], h)
      else let answered = answeredReportsTx h owner path wt digest now in
           if answered = [] then ([], h)
           else let r = mark_acted_loop path owner now answered (hk_reports h) in
                if fst r = [] then ([], h\<lparr>hk_reports := snd r\<rparr>)
                else ([path], h\<lparr>hk_reports := snd r, hk_db := snd (appendEventsTx s (fst r) (hk_db h))\<rparr>))"

subsection \<open>Drift\<close>

record DriftOutcome =
  dr_Drifted :: "string list"
  dr_Seeded :: "string list"
  dr_Deferred :: "string list"

datatype driftVerdict = driftUnchanged | driftSeeded | driftFiled | driftDeferred

definition observedAtTx :: "hook_db \<Rightarrow> path_key \<Rightarrow> (string \<times> string) option" where
  "observedAtTx h k = (case hk_observed h k of None \<Rightarrow> None | Some (st, dg, _) \<Rightarrow> Some (st, dg))"

definition setObservedTx :: "HookPathState \<Rightarrow> string \<Rightarrow> time \<Rightarrow> hook_db \<Rightarrow> hook_db" where
  "setObservedTx ob wt now h =
     h\<lparr>hk_observed := (hk_observed h)((hs_Path ob, wt, hs_Epoch ob) \<mapsto> (hs_Stat ob, hs_Digest ob, now))\<rparr>"

definition inFlightCallRecordedTx :: "hook_db \<Rightarrow> string \<Rightarrow> string \<Rightarrow> int \<Rightarrow> bool" where
  "inFlightCallRecordedTx h path wt epoch \<longleftrightarrow>
     list_ex (\<lambda>p. cp_path p = path \<and> cp_epoch_pre p = epoch \<and>
        list_ex (\<lambda>c. hc_call_id c = cp_call_id p \<and> hc_worktree c = wt \<and> call_open c) (hk_calls h)) (hk_paths h)"

definition drift_input :: "HookPathState \<Rightarrow> AgentUUID \<Rightarrow> string \<Rightarrow> string \<Rightarrow> int \<Rightarrow> treeEventInput" where
  "drift_input ob observer wt prevDigest n =
     \<lparr>ti_Path = hs_Path ob, ti_EpochPre = hs_Epoch ob, ti_HolderPre = hs_Holder ob, ti_EpochNow = hs_Epoch ob,
      ti_HolderNow = hs_Holder ob, ti_Observer = observer, ti_CallID = [], ti_Seq = n,
      ti_DigestPre = prevDigest, ti_DigestPost = hs_Digest ob, ti_Declared = False, ti_Drift = True,
      ti_Worktree = wt\<rparr>"

definition driftOnePathTx ::
  "store \<Rightarrow> AgentUUID \<Rightarrow> string \<Rightarrow> time \<Rightarrow> HookPathState \<Rightarrow> hook_db \<Rightarrow> driftVerdict \<times> hook_db" where
  "driftOnePathTx s observer wt now ob h =
     (let k = (hs_Path ob, wt, hs_Epoch ob) in
      case observedAtTx h k of
        None \<Rightarrow> (driftSeeded, setObservedTx ob wt now h)
      | Some (st, dg) \<Rightarrow>
          if st = hs_Stat ob \<and> dg = hs_Digest ob then (driftUnchanged, h)
          else if inFlightCallRecordedTx h (hs_Path ob) wt (hs_Epoch ob) then (driftDeferred, h)
          else let n = nextPathSeq (hs_Digest ob) h k;
                   f = fileTreeEventTx s (drift_input ob observer wt dg (fst n)) now (snd n)
               in (driftFiled, setObservedTx ob wt now (snd f)))"

text \<open>The loop over the locked paths; \<open>wrote\<close> is whether anything is to commit.\<close>

definition add_verdict :: "driftVerdict \<Rightarrow> string \<Rightarrow> DriftOutcome \<Rightarrow> DriftOutcome" where
  "add_verdict v path out =
     (case v of
        driftFiled \<Rightarrow> out\<lparr>dr_Drifted := dr_Drifted out @ [path]\<rparr>
      | driftSeeded \<Rightarrow> out\<lparr>dr_Seeded := dr_Seeded out @ [path]\<rparr>
      | driftDeferred \<Rightarrow> out\<lparr>dr_Deferred := dr_Deferred out @ [path]\<rparr>
      | driftUnchanged \<Rightarrow> out)"

fun drift_loop ::
  "store \<Rightarrow> AgentUUID \<Rightarrow> string \<Rightarrow> time \<Rightarrow> HookPathState list \<Rightarrow> DriftOutcome \<Rightarrow> hook_db \<Rightarrow> DriftOutcome \<times> hook_db"
where
  "drift_loop s observer wt now [] out h = (out, h)"
| "drift_loop s observer wt now (ob # obs) out h =
     (if \<not> hs_Locked ob then drift_loop s observer wt now obs out h
      else let r = driftOnePathTx s observer wt now ob h in
           drift_loop s observer wt now obs (add_verdict (fst r) (hs_Path ob) out) (snd r))"

definition no_drift :: DriftOutcome where
  "no_drift = \<lparr>dr_Drifted = [], dr_Seeded = [], dr_Deferred = []\<rparr>"

definition RecordDrift ::
  "store \<Rightarrow> io \<Rightarrow> AgentUUID \<Rightarrow> string \<Rightarrow> time \<Rightarrow> HookPathState list \<Rightarrow> hook_db \<Rightarrow> store_error + hook_db \<times> DriftOutcome"
where
  "RecordDrift s i observer wt now obs h =
     (if \<not> io_begin i then Inl ErrBegin
      else let r = drift_loop s observer wt now obs no_drift h; out = fst r in
           if dr_Drifted out = [] \<and> dr_Seeded out = [] then Inr (h, out)
           else if \<not> io_commit i then Inl ErrCommit
           else Inr (snd r, \<lparr>dr_Drifted = sort (dr_Drifted out), dr_Seeded = sort (dr_Seeded out),
                  dr_Deferred = sort (dr_Deferred out)\<rparr>))"

subsection \<open>Reports\<close>

record TreeReport =
  tp_ReportID :: string
  tp_Addressee :: AgentUUID
  tp_CreatedAt :: time
  tp_Delivered :: "time option"
  tp_Event :: TreeEvent

definition spannersOf :: "hook_db \<Rightarrow> string \<Rightarrow> TreeSpanner list" where
  "spannersOf h eid =
     map (\<lambda>r. \<lparr>sp_CallID = sr_call_id r, sp_Owner = sr_owner_uuid r\<rparr>)
       (sort_key (\<lambda>r. (sr_owner_uuid r, sr_call_id r)) (filter (\<lambda>r. sr_event_id r = eid) (hk_spanners h)))"

definition report_order :: "report_row \<times> tree_event_row \<Rightarrow> time \<times> string \<times> int \<times> string \<times> string" where
  "report_order x =
     (rr_created_at (fst x), te_Path (snd x), te_Seq (snd x), rr_addressee_uuid (fst x), rr_report_id (fst x))"

definition readReports :: "(report_row \<Rightarrow> bool) \<Rightarrow> hook_db \<Rightarrow> TreeReport list" where
  "readReports P h =
     map (\<lambda>(r, e). \<lparr>tp_ReportID = rr_report_id r, tp_Addressee = rr_addressee_uuid r, tp_CreatedAt = rr_created_at r,
            tp_Delivered = rr_delivered_at r, tp_Event = with_spanners e (spannersOf h (te_EventID e))\<rparr>)
       (sort_key report_order
         (filter (\<lambda>(r, e). rr_delivered_at r = None \<and> P r) (report_join h)))"

definition UndeliveredReports :: "hook_db \<Rightarrow> AgentUUID \<Rightarrow> TreeReport list" where
  "UndeliveredReports h addressee =
     (if addressee = [] then readReports (\<lambda>_. True) h else readReports (\<lambda>r. rr_addressee_uuid r = addressee) h)"

text \<open>\<open>DeliverReports\<close> reads outside its transaction: \<open>h\<close> are the tables it reads, \<open>h'\<close> the ones the
  transaction finds.\<close>

fun deliver_loop :: "time \<Rightarrow> TreeReport list \<Rightarrow> report_row list \<Rightarrow> TreeReport list \<times> report_row list" where
  "deliver_loop now [] rows = ([], rows)"
| "deliver_loop now (p # ps) rows =
     (if \<not> list_ex (\<lambda>r. rr_report_id r = tp_ReportID p \<and> rr_delivered_at r = None) rows then deliver_loop now ps rows
      else let rest = deliver_loop now ps
                 (map (\<lambda>r. if rr_report_id r = tp_ReportID p \<and> rr_delivered_at r = None
                           then r\<lparr>rr_delivered_at := Some now\<rparr> else r) rows)
           in (p\<lparr>tp_Delivered := Some now\<rparr> # fst rest, snd rest))"

definition DeliverReports ::
  "io \<Rightarrow> AgentUUID \<Rightarrow> time \<Rightarrow> hook_db \<Rightarrow> hook_db \<Rightarrow> store_error + hook_db \<times> TreeReport list" where
  "DeliverReports i addressee now h h' =
     (if addressee = [] then Inr (h', [])
      else let pending = UndeliveredReports h addressee in
           if pending = [] then Inr (h', [])
           else if \<not> io_begin i then Inl ErrBegin
           else if \<not> io_commit i then Inl ErrCommit
           else let r = deliver_loop now pending (hk_reports h') in Inr (h'\<lparr>hk_reports := snd r\<rparr>, fst r))"

definition TreeEventsFor :: "hook_db \<Rightarrow> string \<Rightarrow> TreeEvent list" where
  "TreeEventsFor h path =
     map (\<lambda>e. with_spanners e (spannersOf h (te_EventID e)))
       (sort_key (\<lambda>e. (te_Seq e, te_EventID e)) (filter (\<lambda>e. te_Path e = path) (hk_tree_events h)))"

subsection \<open>Retention\<close>

definition agedUndeliveredTx :: "hook_db \<Rightarrow> time \<Rightarrow> (report_row \<times> tree_event_row) list" where
  "agedUndeliveredTx h now =
     sort_key (\<lambda>x. rr_report_id (fst x))
       (filter (\<lambda>(r, e). rr_delivered_at r = None \<and> rr_created_at r < now - treeReportUndeliveredAge) (report_join h))"

definition dropAgedUndeliveredTx :: "store \<Rightarrow> time \<Rightarrow> hook_db \<Rightarrow> hook_db" where
  "dropAgedUndeliveredTx s now h =
     (let aged = agedUndeliveredTx h now in
      if aged = [] then h
      else h\<lparr>hk_reports := filter (\<lambda>r. rr_report_id r \<notin> (rr_report_id \<circ> fst) ` set aged) (hk_reports h),
             hk_db := snd (appendEventsTx s
               (map (\<lambda>(r, e). tree_audit EventTreeReportDropped (te_Path e) (rr_addressee_uuid r) (te_Rule e)
                  (treeChangeDetail (te_Path e) (te_HolderPre e) [] [] [] (te_Rule e) (te_Seq e)) now) aged) (hk_db h))\<rparr>)"

definition awaited :: "hook_db \<Rightarrow> string \<Rightarrow> bool" where
  "awaited h eid \<longleftrightarrow> list_ex (\<lambda>r. rr_event_id r = eid \<and> rr_delivered_at r = None) (hk_reports h)"

definition overflow_events :: "hook_db \<Rightarrow> string list" where
  "overflow_events h =
     map te_EventID (drop treeEventsRetentionMax
       (sort_key (\<lambda>e. - te_CreatedAt e) (rev (filter (\<lambda>e. \<not> awaited h (te_EventID e)) (hk_tree_events h)))))"

definition DropOldTreeEvents :: "store \<Rightarrow> io \<Rightarrow> time \<Rightarrow> hook_db \<Rightarrow> store_error + hook_db \<times> nat" where
  "DropOldTreeEvents s i now h =
     (if \<not> io_begin i then Inl ErrBegin
      else if \<not> io_commit i then Inl ErrCommit
      else
        let h1 = dropAgedUndeliveredTx s now h;
            gone = overflow_events h1;
            kept = filter (\<lambda>e. te_EventID e \<notin> set gone) (hk_tree_events h1);
            n = length (hk_tree_events h1) - length kept;
            h2 = h1\<lparr>hk_tree_events := kept\<rparr>
        in if n = 0 then Inr (h2, 0)
           else Inr (h2\<lparr>hk_spanners := filter (\<lambda>r. sr_event_id r \<in> te_EventID ` set kept) (hk_spanners h2),
                       hk_reports := filter (\<lambda>r. rr_event_id r \<in> te_EventID ` set kept) (hk_reports h2)\<rparr>, n))"

end
