(* ===== verification/HookCalls.thy ===== *)
theory HookCalls
  imports TreeEvents
begin

text \<open>
  \<open>internal/store/hook_calls.go\<close>: the record of every harness tool call.  The pre-hook opens a call
  with what it observed, the post-hook closes it, numbers the changes it saw and files their
  events; sweeps flag late calls, end the calls of dead owners and drop finished records.

  A transaction that fails leaves the tables as they were, so an operation is a function to
  \<open>store_error + hook_db \<times> result\<close>.  \<open>keysFor\<close> of the store is its case class.
\<close>

subsection \<open>Calls and their paths\<close>

record HookCall =
  hkc_CallID :: string
  hkc_OwnerUUID :: AgentUUID
  hkc_SessionUUID :: SessionUUID
  hkc_ToolName :: string
  hkc_TPre :: time
  hkc_TPost :: "time option"
  hkc_DeadAt :: "time option"
  hkc_PostMissing :: bool
  hkc_Worktree :: string

definition InFlight :: "HookCall \<Rightarrow> bool" where
  "InFlight c \<longleftrightarrow> hkc_TPost c = None \<and> hkc_DeadAt c = None"

definition Ended :: "HookCall \<Rightarrow> time option" where
  "Ended c = (if hkc_TPost c \<noteq> None then hkc_TPost c else hkc_DeadAt c)"

definition statAbsent :: string where "statAbsent = ''absent''"

record HookCallPath =
  hp_Path :: string
  hp_Locked :: bool
  hp_Declared :: bool
  hp_PreObserved :: bool
  hp_Epoch :: int
  hp_Holder :: AgentUUID
  hp_SeqPre :: int
  hp_SeqPost :: int
  hp_HasPost :: bool
  hp_DigestPre :: string
  hp_DigestPost :: string
  hp_StatPre :: string
  hp_StatPost :: string

record PostOutcome =
  po_Recorded :: bool
  po_Changed :: "string list"
  po_Events :: "TreeEvent list"
  po_Acted :: "string list"

definition scanHookCall :: "hook_call \<Rightarrow> HookCall" where
  "scanHookCall r =
     \<lparr>hkc_CallID = hc_call_id r, hkc_OwnerUUID = hc_owner_uuid r, hkc_SessionUUID = hc_session_uuid r,
      hkc_ToolName = hc_tool_name r, hkc_TPre = hc_t_pre r, hkc_TPost = hc_t_post r, hkc_DeadAt = hc_dead_at r,
      hkc_PostMissing = hc_post_missing r, hkc_Worktree = hc_worktree r\<rparr>"

definition scanCallPath :: "call_path \<Rightarrow> HookCallPath" where
  "scanCallPath r =
     \<lparr>hp_Path = cp_path r, hp_Locked = cp_locked r, hp_Declared = cp_declared r, hp_PreObserved = cp_pre_observed r,
      hp_Epoch = cp_epoch_pre r, hp_Holder = cp_holder_pre r, hp_SeqPre = cp_seq_pre r,
      hp_SeqPost = (case cp_seq_post r of None \<Rightarrow> 0 | Some n \<Rightarrow> n), hp_HasPost = (cp_seq_post r \<noteq> None),
      hp_DigestPre = cp_digest_pre r, hp_DigestPost = (case cp_digest_post r of None \<Rightarrow> [] | Some x \<Rightarrow> x),
      hp_StatPre = cp_stat_pre r, hp_StatPost = (case cp_stat_post r of None \<Rightarrow> [] | Some x \<Rightarrow> x)\<rparr>"

definition CallRecord :: "hook_db \<Rightarrow> string \<Rightarrow> (HookCall \<times> HookCallPath list) option" where
  "CallRecord h cid =
     (case find (\<lambda>c. hc_call_id c = cid) (hk_calls h) of
        None \<Rightarrow> None
      | Some c \<Rightarrow> Some (scanHookCall c,
          map scanCallPath (sort_key cp_path (filter (\<lambda>p. cp_call_id p = cid) (hk_paths h)))))"

definition InFlightCalls :: "hook_db \<Rightarrow> HookCall list" where
  "InFlightCalls h =
     map scanHookCall (sort_key (\<lambda>c. (hc_t_pre c, hc_call_id c)) (filter call_open (hk_calls h)))"

definition on_db :: "(db \<Rightarrow> db) \<Rightarrow> hook_db \<Rightarrow> hook_db" where
  "on_db f h = h\<lparr>hk_db := f (hk_db h)\<rparr>"

definition upd_calls :: "(hook_call \<Rightarrow> bool) \<Rightarrow> (hook_call \<Rightarrow> hook_call) \<Rightarrow> db \<Rightarrow> db" where
  "upd_calls P f d = d\<lparr>db_hook_calls := map (\<lambda>c. if P c then f c else c) (db_hook_calls d)\<rparr>"

subsection \<open>The pre-hook\<close>

definition declaredPaths :: "HookPathState list \<Rightarrow> string list" where
  "declaredPaths obs = map hs_Path (filter hs_Declared obs)"

definition call_row_of :: "HookCall \<Rightarrow> hook_call" where
  "call_row_of c =
     \<lparr>hc_call_id = hkc_CallID c, hc_owner_uuid = hkc_OwnerUUID c, hc_session_uuid = hkc_SessionUUID c,
      hc_tool_name = hkc_ToolName c, hc_t_pre = hkc_TPre c, hc_t_post = None, hc_post_missing = False,
      hc_dead_at = None, hc_worktree = hkc_Worktree c\<rparr>"

definition pre_row :: "HookCall \<Rightarrow> HookPathState \<Rightarrow> hook_db \<Rightarrow> call_path" where
  "pre_row c ob h =
     (let n = pathSeqAt h (hs_Path ob, hkc_Worktree c, hs_Epoch ob);
          seqPre = (if hs_SeqAtObserveKnown ob \<and> hs_SeqAtObserve ob < n then hs_SeqAtObserve ob else n)
      in \<lparr>cp_call_id = hkc_CallID c, cp_path = hs_Path ob, cp_locked = hs_Locked ob, cp_declared = hs_Declared ob,
          cp_pre_observed = True, cp_epoch_pre = hs_Epoch ob, cp_holder_pre = hs_Holder ob, cp_seq_pre = seqPre,
          cp_seq_post = None, cp_digest_pre = hs_Digest ob, cp_digest_post = None, cp_stat_pre = hs_Stat ob,
          cp_stat_post = None\<rparr>)"

text \<open>An insert that meets its own primary key fails the transaction.\<close>

definition insert_path :: "call_path \<Rightarrow> hook_db \<Rightarrow> store_error + hook_db" where
  "insert_path r h =
     (if list_ex (\<lambda>p. cp_call_id p = cp_call_id r \<and> cp_path p = cp_path r) (hk_paths h) then Inl ErrConstraint
      else Inr (h\<lparr>hk_paths := hk_paths h @ [r]\<rparr>))"

fun pre_loop :: "HookCall \<Rightarrow> HookPathState list \<Rightarrow> hook_db \<Rightarrow> store_error + hook_db" where
  "pre_loop c [] h = Inr h"
| "pre_loop c (ob # obs) h =
     (case insert_path (pre_row c ob h) h of Inl er \<Rightarrow> Inl er | Inr h1 \<Rightarrow> pre_loop c obs h1)"

definition RecordCallPre ::
  "store \<Rightarrow> io \<Rightarrow> HookCall \<Rightarrow> HookPathState list \<Rightarrow> hook_db \<Rightarrow> store_error + hook_db \<times> bool" where
  "RecordCallPre s i c obs h =
     (if \<not> io_begin i then Inl ErrBegin
      else if list_ex (\<lambda>r. hc_call_id r = hkc_CallID c) (hk_calls h) then Inr (h, False)
      else case pre_loop c obs (on_db (\<lambda>d. d\<lparr>db_hook_calls := db_hook_calls d @ [call_row_of c]\<rparr>) h) of
        Inl er \<Rightarrow> Inl er
      | Inr h1 \<Rightarrow>
          let h2 = on_db (refreshCallerLocksTx s (s_caseFold s) (hkc_OwnerUUID c) (lockWorktree s (hkc_Worktree c))
                (declaredPaths obs) (hkc_TPre c) (hkc_TPre c)) h1
          in if \<not> io_commit i then Inl ErrCommit else Inr (h2, True))"

subsection \<open>The post-hook\<close>

definition millis :: "int \<Rightarrow> int" where
  "millis d = (if d < 0 then - ((- d) div 1000000) else d div 1000000)"

definition resolvedPosted :: string where "resolvedPosted = ''posted''"
definition resolvedSessionDied :: string where "resolvedSessionDied = ''session_died''"
definition resolvedExpired :: string where "resolvedExpired = ''expired''"

definition postMissingDetail :: "string \<Rightarrow> SessionUUID \<Rightarrow> int \<Rightarrow> string" where
  "postMissingDetail cid session age =
     json_object ([(''call_id'', json_string cid)] @ omit_empty ''session'' session @
       [(''age_ms'', format_int (millis age))])"

definition call_audit :: "EventKind \<Rightarrow> string \<Rightarrow> AgentUUID \<Rightarrow> string \<Rightarrow> string \<Rightarrow> time \<Rightarrow> Event" where
  "call_audit kind cid actor reason detail now =
     \<lparr>e_ID = [], e_Target = Target cid, e_Kind = kind, e_ActorUUID = actor, e_SubjectUUID = [],
      e_Reason = reason, e_Detail = detail, e_CreatedAt = now\<rparr>"

definition appendPostMissingResolvedTx ::
  "store \<Rightarrow> string \<Rightarrow> AgentUUID \<Rightarrow> SessionUUID \<Rightarrow> string \<Rightarrow> int \<Rightarrow> time \<Rightarrow> db \<Rightarrow> db" where
  "appendPostMissingResolvedTx s cid owner session reason age now d =
     appendEventTx s (call_audit EventPostMissingResolved cid owner reason (postMissingDetail cid session age) now) d"

definition recordedPathsTx :: "hook_db \<Rightarrow> string \<Rightarrow> string \<Rightarrow> call_path option" where
  "recordedPathsTx h cid path = find (\<lambda>p. cp_call_id p = cid \<and> cp_path p = path) (rev (hk_paths h))"

text \<open>\<open>pathChanged\<close>: Go's zero value stands for the path the pre did not record.\<close>

definition pathChanged :: "call_path option \<Rightarrow> HookPathState \<Rightarrow> bool" where
  "pathChanged prev ob =
     (let dg = (case prev of None \<Rightarrow> [] | Some p \<Rightarrow> cp_digest_pre p) in
      if dg \<noteq> hs_Digest ob then True
      else if dg \<noteq> [] \<or> hs_Digest ob \<noteq> [] then False
      else (case prev of Some p \<Rightarrow> cp_stat_pre p \<noteq> hs_Stat ob | None \<Rightarrow> hs_Stat ob \<noteq> statAbsent))"

record postPathResult =
  pr_changed :: bool
  pr_epoch :: int
  pr_seqPost :: int
  pr_digestPre :: string
  pr_holderPre :: AgentUUID
  pr_declared :: bool

definition post_update :: "string \<Rightarrow> string \<Rightarrow> int \<Rightarrow> HookPathState \<Rightarrow> call_path list \<Rightarrow> call_path list" where
  "post_update cid path n ob rows =
     map (\<lambda>p. if cp_call_id p = cid \<and> cp_path p = path
              then p\<lparr>cp_seq_post := Some n, cp_digest_post := Some (hs_Digest ob), cp_stat_post := Some (hs_Stat ob)\<rparr>
              else p) rows"

definition first_seen_row :: "string \<Rightarrow> HookPathState \<Rightarrow> int \<Rightarrow> int \<Rightarrow> call_path" where
  "first_seen_row cid ob seqPre seqPost =
     \<lparr>cp_call_id = cid, cp_path = hs_Path ob, cp_locked = hs_Locked ob, cp_declared = hs_Declared ob,
      cp_pre_observed = False, cp_epoch_pre = hs_Epoch ob, cp_holder_pre = hs_Holder ob, cp_seq_pre = seqPre,
      cp_seq_post = Some seqPost, cp_digest_pre = [], cp_digest_post = Some (hs_Digest ob), cp_stat_pre = [],
      cp_stat_post = Some (hs_Stat ob)\<rparr>"

definition post_seq :: "bool \<Rightarrow> int \<Rightarrow> HookPathState \<Rightarrow> path_key \<Rightarrow> hook_db \<Rightarrow> int \<times> hook_db" where
  "post_seq changed seqPre ob k h =
     (let st = pathSeqStateTx h k; curSeq = fst st; curDigest = fst (snd st) in
      if \<not> changed then (seqPre, h)
      else if curSeq > seqPre \<and> curDigest = hs_Digest ob then (curSeq, h)
      else nextPathSeq (hs_Digest ob) h k)"

definition postOnePathTx ::
  "string \<Rightarrow> string \<Rightarrow> HookPathState \<Rightarrow> call_path option \<Rightarrow> hook_db \<Rightarrow> store_error + hook_db \<times> postPathResult" where
  "postOnePathTx cid wt ob prev h =
     (let changed = pathChanged prev ob;
          epoch = (case prev of None \<Rightarrow> hs_Epoch ob | Some p \<Rightarrow> cp_epoch_pre p);
          k = (hs_Path ob, wt, epoch);
          seqPre = (case prev of None \<Rightarrow> fst (pathSeqStateTx h k) | Some p \<Rightarrow> cp_seq_pre p);
          n = post_seq changed seqPre ob k h;
          res = \<lparr>pr_changed = changed, pr_epoch = epoch, pr_seqPost = fst n,
                 pr_digestPre = (case prev of None \<Rightarrow> [] | Some p \<Rightarrow> cp_digest_pre p),
                 pr_holderPre = (case prev of None \<Rightarrow> hs_Holder ob | Some p \<Rightarrow> cp_holder_pre p),
                 pr_declared = (case prev of None \<Rightarrow> hs_Declared ob | Some p \<Rightarrow> cp_declared p)\<rparr>
      in case prev of
           Some p \<Rightarrow> Inr ((snd n)\<lparr>hk_paths := post_update cid (hs_Path ob) (fst n) ob (hk_paths (snd n))\<rparr>, res)
         | None \<Rightarrow>
             (case insert_path (first_seen_row cid ob seqPre (fst n)) (snd n) of
                Inl er \<Rightarrow> Inl er | Inr h1 \<Rightarrow> Inr (h1, res)))"

definition post_input :: "postPathResult \<Rightarrow> HookPathState \<Rightarrow> AgentUUID \<Rightarrow> string \<Rightarrow> string \<Rightarrow> treeEventInput" where
  "post_input res ob owner cid wt =
     \<lparr>ti_Path = hs_Path ob, ti_EpochPre = pr_epoch res, ti_HolderPre = pr_holderPre res, ti_EpochNow = hs_Epoch ob,
      ti_HolderNow = hs_Holder ob, ti_Observer = owner, ti_CallID = cid, ti_Seq = pr_seqPost res,
      ti_DigestPre = pr_digestPre res, ti_DigestPost = hs_Digest ob, ti_Declared = pr_declared res,
      ti_Drift = False, ti_Worktree = wt\<rparr>"

definition postOnePathWithEventTx ::
  "store \<Rightarrow> string \<Rightarrow> AgentUUID \<Rightarrow> string \<Rightarrow> HookPathState \<Rightarrow> (string \<Rightarrow> call_path option) \<Rightarrow> time \<Rightarrow>
     PostOutcome \<times> hook_db \<Rightarrow> store_error + PostOutcome \<times> hook_db" where
  "postOnePathWithEventTx s cid owner wt ob recorded tPost x =
     (case postOnePathTx cid wt ob (recorded (hs_Path ob)) (snd x) of
        Inl er \<Rightarrow> Inl er
      | Inr (h1, res) \<Rightarrow>
          let a = markTreeChangeActedTx s owner (hs_Path ob) wt (hs_Digest ob) tPost h1;
              out1 = (fst x)\<lparr>po_Acted := po_Acted (fst x) @ fst a\<rparr>;
              h3 = (if hs_Locked ob then setObservedTx ob wt tPost (snd a) else snd a)
          in if \<not> pr_changed res then Inr (out1, h3)
             else let f = fileTreeEventTx s (post_input res ob owner cid wt) tPost h3
                  in Inr (out1\<lparr>po_Changed := po_Changed out1 @ [hs_Path ob], po_Events := po_Events out1 @ [fst f]\<rparr>, snd f))"

fun post_loop ::
  "store \<Rightarrow> string \<Rightarrow> AgentUUID \<Rightarrow> string \<Rightarrow> HookPathState list \<Rightarrow> (string \<Rightarrow> call_path option) \<Rightarrow> time \<Rightarrow>
     PostOutcome \<times> hook_db \<Rightarrow> store_error + PostOutcome \<times> hook_db" where
  "post_loop s cid owner wt [] recorded tPost x = Inr x"
| "post_loop s cid owner wt (ob # obs) recorded tPost x =
     (case postOnePathWithEventTx s cid owner wt ob recorded tPost x of
        Inl er \<Rightarrow> Inl er | Inr x' \<Rightarrow> post_loop s cid owner wt obs recorded tPost x')"

definition no_outcome :: PostOutcome where
  "no_outcome = \<lparr>po_Recorded = False, po_Changed = [], po_Events = [], po_Acted = []\<rparr>"

definition postPathsTx ::
  "store \<Rightarrow> string \<Rightarrow> AgentUUID \<Rightarrow> string \<Rightarrow> HookPathState list \<Rightarrow> (string \<Rightarrow> call_path option) \<Rightarrow> time \<Rightarrow> time \<Rightarrow>
     hook_db \<Rightarrow> store_error + PostOutcome \<times> hook_db" where
  "postPathsTx s cid owner wt obs recorded tPre tPost h =
     (case post_loop s cid owner wt obs recorded tPost (no_outcome, h) of
        Inl er \<Rightarrow> Inl er
      | Inr (out, h1) \<Rightarrow>
          Inr (out, on_db (refreshCallerLocksTx s (s_caseFold s) owner (lockWorktree s wt) (po_Changed out) tPre tPost) h1))"

definition RecordCallPost ::
  "store \<Rightarrow> io \<Rightarrow> string \<Rightarrow> time \<Rightarrow> HookPathState list \<Rightarrow> hook_db \<Rightarrow> store_error + hook_db \<times> PostOutcome" where
  "RecordCallPost s i cid tPost obs h =
     (if \<not> io_begin i then Inl ErrBegin
      else case find (\<lambda>c. hc_call_id c = cid) (hk_calls h) of
        None \<Rightarrow> Inl (ErrUnknownCall cid)
      | Some c \<Rightarrow>
          if hc_t_post c \<noteq> None then Inr (h, no_outcome)
          else
            let h1 = (if hc_post_missing c \<and> hc_dead_at c = None
                      then on_db (appendPostMissingResolvedTx s cid (hc_owner_uuid c) (hc_session_uuid c) resolvedPosted
                             (tPost - hc_t_pre c) tPost) h
                      else h)
            in case postPathsTx s cid (hc_owner_uuid c) (hc_worktree c) obs (recordedPathsTx h1 cid) (hc_t_pre c) tPost h1 of
                 Inl er \<Rightarrow> Inl er
               | Inr (out, h2) \<Rightarrow>
                   let h3 = on_db (upd_calls (\<lambda>r. hc_call_id r = cid)
                              (\<lambda>r. r\<lparr>hc_t_post := Some tPost, hc_post_missing := False\<rparr>)) h2
                   in if \<not> io_commit i then Inl ErrCommit
                      else Inr (h3, out\<lparr>po_Recorded := True, po_Changed := sort (po_Changed out),
                             po_Acted := sort (po_Acted out)\<rparr>))"

subsection \<open>Sweeps\<close>

definition InFlightMaxAge :: int where "InFlightMaxAge = 6 * hour"

text \<open>\<open>deadOwnerCallIDs\<close>: the oracle \<open>dead\<close> is a function of the session, so asking it once per session
  and asking it again are the same.\<close>

definition dead_reason :: "time \<Rightarrow> (SessionUUID \<Rightarrow> bool) \<Rightarrow> HookCall \<Rightarrow> string option" where
  "dead_reason now dead c =
     (if now - hkc_TPre c > InFlightMaxAge then Some resolvedExpired
      else if hkc_SessionUUID c = [] then None
      else if dead (hkc_SessionUUID c) then Some resolvedSessionDied else None)"

definition deadOwnerCallIDs :: "HookCall list \<Rightarrow> time \<Rightarrow> (SessionUUID \<Rightarrow> bool) \<Rightarrow> string list" where
  "deadOwnerCallIDs open_calls now dead =
     sort (map hkc_CallID (filter (\<lambda>c. dead_reason now dead c \<noteq> None) open_calls))"

definition markOneDeadCallTx ::
  "store \<Rightarrow> HookCall \<Rightarrow> string \<Rightarrow> time \<Rightarrow> hook_db \<Rightarrow> nat \<times> hook_db" where
  "markOneDeadCallTx s c reason now h =
     (let P = (\<lambda>r. hc_call_id r = hkc_CallID c \<and> call_open r);
          n = length (filter P (hk_calls h));
          h1 = on_db (upd_calls P (\<lambda>r. r\<lparr>hc_dead_at := Some now\<rparr>)) h
      in if n = 0 then (0, h1)
         else if hkc_PostMissing c
         then (n, on_db (appendPostMissingResolvedTx s (hkc_CallID c) (hkc_OwnerUUID c) (hkc_SessionUUID c) reason
                    (now - hkc_TPre c) now) h1)
         else (n, h1))"

fun dead_loop ::
  "store \<Rightarrow> time \<Rightarrow> (SessionUUID \<Rightarrow> bool) \<Rightarrow> HookCall list \<Rightarrow> string list \<Rightarrow> hook_db \<Rightarrow> nat \<times> hook_db" where
  "dead_loop s now dead open_calls [] h = (0, h)"
| "dead_loop s now dead open_calls (cid # cids) h =
     (case find (\<lambda>c. hkc_CallID c = cid) (rev open_calls) of
        None \<Rightarrow> dead_loop s now dead open_calls cids h
      | Some c \<Rightarrow>
          let r = markOneDeadCallTx s c (case dead_reason now dead c of None \<Rightarrow> [] | Some x \<Rightarrow> x) now h;
              rest = dead_loop s now dead open_calls cids (snd r)
          in (fst r + fst rest, snd rest))"

text \<open>The probe runs between the read of \<open>h\<close> and the transaction, which finds \<open>h'\<close>.\<close>

definition MarkDeadOwnerCalls ::
  "store \<Rightarrow> io \<Rightarrow> time \<Rightarrow> (SessionUUID \<Rightarrow> bool) option \<Rightarrow> hook_db \<Rightarrow> hook_db \<Rightarrow> store_error + hook_db \<times> nat" where
  "MarkDeadOwnerCalls s i now probe h h' =
     (case probe of
        None \<Rightarrow> Inr (h', 0)
      | Some dead \<Rightarrow>
          let open_calls = InFlightCalls h; ids = deadOwnerCallIDs open_calls now dead in
          if ids = [] then Inr (h', 0)
          else if \<not> io_begin i then Inl ErrBegin
          else let r = dead_loop s now dead open_calls ids h' in
               if \<not> io_commit i then Inl ErrCommit else Inr (snd r, fst r))"

definition postMissingCandidatesTx :: "hook_db \<Rightarrow> time \<Rightarrow> hook_call list" where
  "postMissingCandidatesTx h cutoff =
     sort_key hc_call_id (filter (\<lambda>c. call_open c \<and> \<not> hc_post_missing c \<and> hc_t_pre c < cutoff) (hk_calls h))"

fun flag_loop :: "store \<Rightarrow> time \<Rightarrow> hook_call list \<Rightarrow> hook_db \<Rightarrow> hook_db" where
  "flag_loop s now [] h = h"
| "flag_loop s now (c # cs) h =
     flag_loop s now cs
       (on_db (appendEventTx s (call_audit EventPostMissing (hc_call_id c) (hc_owner_uuid c) []
            (postMissingDetail (hc_call_id c) (hc_session_uuid c) (now - hc_t_pre c)) now))
         (on_db (upd_calls (\<lambda>r. hc_call_id r = hc_call_id c) (\<lambda>r. r\<lparr>hc_post_missing := True\<rparr>)) h))"

definition MarkPostMissing :: "store \<Rightarrow> io \<Rightarrow> time \<Rightarrow> int \<Rightarrow> hook_db \<Rightarrow> store_error + hook_db \<times> nat" where
  "MarkPostMissing s i now tReport h =
     (if \<not> io_begin i then Inl ErrBegin
      else let cs = postMissingCandidatesTx h (now - tReport) in
           if \<not> io_commit i then Inl ErrCommit
           else Inr (flag_loop s now cs h, length cs))"

text \<open>\<open>finishedCallDroppableSQL\<close>: \<open>COALESCE(t_post, dead_at)\<close> is when the call ended.\<close>

definition ended_at :: "hook_call \<Rightarrow> time option" where
  "ended_at c = (if hc_t_post c \<noteq> None then hc_t_post c else hc_dead_at c)"

definition droppable :: "hook_db \<Rightarrow> time \<Rightarrow> hook_call \<Rightarrow> bool" where
  "droppable h cutoff c \<longleftrightarrow>
     (case ended_at c of
        None \<Rightarrow> False
      | Some t \<Rightarrow> t < cutoff \<and> \<not> list_ex (\<lambda>peer. call_open peer \<and> hc_t_pre peer < t) (hk_calls h))"

definition DropFinishedCalls :: "io \<Rightarrow> time \<Rightarrow> int \<Rightarrow> hook_db \<Rightarrow> store_error + hook_db \<times> nat" where
  "DropFinishedCalls i now floor h =
     (if \<not> io_begin i then Inl ErrBegin
      else if \<not> io_commit i then Inl ErrCommit
      else let gone = filter (droppable h (now - floor)) (hk_calls h) in
           Inr ((on_db (\<lambda>d. d\<lparr>db_hook_calls := filter (\<lambda>c. \<not> droppable h (now - floor) c) (db_hook_calls d)\<rparr>) h)
                  \<lparr>hk_paths := filter (\<lambda>p. cp_call_id p \<notin> hc_call_id ` set gone) (hk_paths h)\<rparr>,
                length gone))"

subsection \<open>Removing one call\<close>

text \<open>SQLite's \<open>LIKE\<close> on bytes: \<open>%\<close> is any run, \<open>_\<close> one byte, ASCII letters compare without case.\<close>

fun sql_like :: "string \<Rightarrow> string \<Rightarrow> bool" where
  "sql_like [] s = (s = [])"
| "sql_like (p # ps) s =
     (if p = CHR ''%'' then sql_like ps s \<or> (case s of [] \<Rightarrow> False | _ # s' \<Rightarrow> sql_like (p # ps) s')
      else case s of
             [] \<Rightarrow> False
           | c # s' \<Rightarrow> (p = CHR ''_'' \<or> to_lower_char p = to_lower_char c) \<and> sql_like ps s')"

definition DeleteCallAndTiming :: "io \<Rightarrow> string \<Rightarrow> hook_db \<Rightarrow> store_error + hook_db \<times> bool \<times> nat" where
  "DeleteCallAndTiming i cid h =
     (if \<not> io_begin i then Inl ErrBegin
      else if \<not> io_commit i then Inl ErrCommit
      else let pat = CHR ''%'' # [CHR 0x22] @ ''call_id'' @ [CHR 0x22] @ '':'' @ [CHR 0x22] @ cid @ [CHR 0x22] @ ''%'';
               timing = (\<lambda>e. ev_kind e = EventHookTiming \<and> sql_like pat (ev_detail e));
               d = hk_db h
           in Inr (h\<lparr>hk_db := d\<lparr>db_hook_calls := filter (\<lambda>c. hc_call_id c \<noteq> cid) (db_hook_calls d),
                              db_events := filter (\<lambda>e. \<not> timing e) (db_events d)\<rparr>,
                     hk_paths := filter (\<lambda>p. cp_call_id p \<noteq> cid) (hk_paths h)\<rparr>,
                   list_ex (\<lambda>c. hc_call_id c = cid) (db_hook_calls d),
                   length (filter timing (db_events d))))"

end
