(* ===== verification/Contention.thy ===== *)
theory Contention
  imports HookCalls
begin

text \<open>
  What the call records guarantee: the invariant that every recorded interval lies below its path's
  counter, that no overlapping call is exonerated, that one change gets one number, and what the
  sweeps and the retention keep.
\<close>

subsection \<open>What the steps leave alone\<close>

lemma file_reports_frame [frame_simps]:
  "hk_paths (file_reports s ev now ws h) = hk_paths h"
  "hk_path_seq (file_reports s ev now ws h) = hk_path_seq h"
  "hk_observed (file_reports s ev now ws h) = hk_observed h"
  "hk_tree_events (file_reports s ev now ws h) = hk_tree_events h"
  "hk_spanners (file_reports s ev now ws h) = hk_spanners h"
  "hk_calls (file_reports s ev now ws h) = hk_calls h"
  "db_locks (hk_db (file_reports s ev now ws h)) = db_locks (hk_db h)"
  by (induction ws arbitrary: h) (simp_all add: Let_def appendTreeChangeReportedTx_def frame_simps)

lemma fileTreeEventTx_frame [frame_simps]:
  "hk_paths (snd (fileTreeEventTx s inp now h)) = hk_paths h"
  "hk_path_seq (snd (fileTreeEventTx s inp now h)) = hk_path_seq h"
  "hk_observed (snd (fileTreeEventTx s inp now h)) = hk_observed h"
  "hk_calls (snd (fileTreeEventTx s inp now h)) = hk_calls h"
  "db_locks (hk_db (snd (fileTreeEventTx s inp now h))) = db_locks (hk_db h)"
  by (simp_all add: fileTreeEventTx_def Let_def frame_simps)

lemma markTreeChangeActedTx_frame [frame_simps]:
  "hk_paths (snd (markTreeChangeActedTx s ow path wt dg now h)) = hk_paths h"
  "hk_path_seq (snd (markTreeChangeActedTx s ow path wt dg now h)) = hk_path_seq h"
  "hk_observed (snd (markTreeChangeActedTx s ow path wt dg now h)) = hk_observed h"
  "hk_tree_events (snd (markTreeChangeActedTx s ow path wt dg now h)) = hk_tree_events h"
  "hk_calls (snd (markTreeChangeActedTx s ow path wt dg now h)) = hk_calls h"
  "db_locks (hk_db (snd (markTreeChangeActedTx s ow path wt dg now h))) = db_locks (hk_db h)"
  by (simp_all add: markTreeChangeActedTx_def Let_def frame_simps)

lemma setObservedTx_frame [frame_simps]:
  "hk_paths (setObservedTx ob wt now h) = hk_paths h"
  "hk_path_seq (setObservedTx ob wt now h) = hk_path_seq h"
  "hk_tree_events (setObservedTx ob wt now h) = hk_tree_events h"
  "hk_reports (setObservedTx ob wt now h) = hk_reports h"
  "hk_db (setObservedTx ob wt now h) = hk_db h"
  by (simp_all add: setObservedTx_def)

lemma on_db_frame [frame_simps]:
  "hk_paths (on_db f h) = hk_paths h" "hk_path_seq (on_db f h) = hk_path_seq h"
  "hk_observed (on_db f h) = hk_observed h" "hk_tree_events (on_db f h) = hk_tree_events h"
  "hk_spanners (on_db f h) = hk_spanners h" "hk_reports (on_db f h) = hk_reports h"
  "hk_db (on_db f h) = f (hk_db h)"
  by (simp_all add: on_db_def)

lemma refreshCaller_calls [frame_simps]:
  "db_hook_calls (refreshCallerLocksTx s f own wt ps since now d) = db_hook_calls d"
  by (simp add: refreshCallerLocksTx_def Let_def frame_simps refresh_batches_frame)

lemma resolved_calls [frame_simps]:
  "db_hook_calls (appendPostMissingResolvedTx s cid ow se reason age now d) = db_hook_calls d"
  by (simp add: appendPostMissingResolvedTx_def frame_simps)

lemma upd_calls_calls [frame_simps]:
  "db_hook_calls (upd_calls P f d) = map (\<lambda>c. if P c then f c else c) (db_hook_calls d)"
  by (simp add: upd_calls_def)

lemma pathSeqAt_cong: "hk_path_seq h' = hk_path_seq h \<Longrightarrow> pathSeqAt h' k = pathSeqAt h k"
  by (simp add: pathSeqAt_def)

lemma pathSeqAt_state: "fst (pathSeqStateTx h k) = pathSeqAt h k"
  by (simp add: pathSeqStateTx_def pathSeqAt_def split: option.splits)

lemma nextPathSeq_frame [frame_simps]:
  "hk_paths (snd (nextPathSeq dg h k)) = hk_paths h" "hk_observed (snd (nextPathSeq dg h k)) = hk_observed h"
  "hk_db (snd (nextPathSeq dg h k)) = hk_db h" "hk_reports (snd (nextPathSeq dg h k)) = hk_reports h"
  "hk_tree_events (snd (nextPathSeq dg h k)) = hk_tree_events h"
  by (simp_all add: nextPathSeq_def Let_def)

lemma post_seq_frame [frame_simps]:
  "hk_paths (snd (post_seq ch n ob k h)) = hk_paths h" "hk_observed (snd (post_seq ch n ob k h)) = hk_observed h"
  "hk_db (snd (post_seq ch n ob k h)) = hk_db h" "hk_reports (snd (post_seq ch n ob k h)) = hk_reports h"
  "hk_tree_events (snd (post_seq ch n ob k h)) = hk_tree_events h"
  by (simp_all add: post_seq_def Let_def frame_simps)

lemma post_seq_mono: "pathSeqAt h k' \<le> pathSeqAt (snd (post_seq ch n ob k h)) k'"
  using path_seqs.bump_cur [of "hs_Digest ob" h k k'] by (simp add: post_seq_def Let_def)

lemma post_seq_value:
  assumes "n \<le> pathSeqAt h k"
  shows "fst (post_seq ch n ob k h) \<le> pathSeqAt (snd (post_seq ch n ob k h)) k"
    "n \<le> fst (post_seq ch n ob k h)"
    "ch \<Longrightarrow> n < fst (post_seq ch n ob k h)"
  using assms path_seqs.bump_cur [of "hs_Digest ob" h k k] path_seqs.bump_value [of "hs_Digest ob" h k]
  by (auto simp: post_seq_def Let_def pathSeqAt_state)

subsection \<open>The invariant\<close>

text \<open>Every recorded path belongs to a recorded call, and its interval lies at or below the counter of
  its path, checkout and lock generation.\<close>

definition interval_ok :: "hook_db \<Rightarrow> call_path \<Rightarrow> hook_call \<Rightarrow> bool" where
  "interval_ok h p c \<longleftrightarrow>
     (let cur = pathSeqAt h (cp_path p, hc_worktree c, cp_epoch_pre p) in
      cp_seq_pre p \<le> cur \<and> (\<forall>n. cp_seq_post p = Some n \<longrightarrow> n \<le> cur))"

definition path_pk :: "call_path \<Rightarrow> string \<times> string" where
  "path_pk p = (cp_call_id p, cp_path p)"

definition hook_ok :: "hook_db \<Rightarrow> bool" where
  "hook_ok h \<longleftrightarrow>
     distinct (map hc_call_id (hk_calls h)) \<and> distinct (map path_pk (hk_paths h)) \<and>
     (\<forall>p \<in> set (hk_paths h). cp_call_id p \<in> hc_call_id ` set (hk_calls h)) \<and>
     (\<forall>p \<in> set (hk_paths h). \<forall>c \<in> set (hk_calls h). hc_call_id c = cp_call_id p \<longrightarrow> interval_ok h p c)"

lemma interval_ok_mono:
  "interval_ok h p c \<Longrightarrow> (\<And>k. pathSeqAt h k \<le> pathSeqAt h' k) \<Longrightarrow> interval_ok h' p c"
  unfolding interval_ok_def Let_def by (meson order_trans)

lemma call_unique:
  "hook_ok h \<Longrightarrow> c \<in> set (hk_calls h) \<Longrightarrow> c' \<in> set (hk_calls h) \<Longrightarrow> hc_call_id c = hc_call_id c' \<Longrightarrow> c = c'"
  unfolding hook_ok_def by (metis distinct_map inj_onD)

lemma path_unique:
  "hook_ok h \<Longrightarrow> p \<in> set (hk_paths h) \<Longrightarrow> q \<in> set (hk_paths h) \<Longrightarrow> path_pk p = path_pk q \<Longrightarrow> p = q"
  unfolding hook_ok_def by (metis distinct_map inj_onD)

lemma hook_ok_cong:
  assumes "hook_ok h" "hk_calls h' = hk_calls h" "hk_paths h' = hk_paths h" "hk_path_seq h' = hk_path_seq h"
  shows "hook_ok h'"
  using assms pathSeqAt_cong [OF assms(4)] by (simp add: hook_ok_def interval_ok_def)

text \<open>Sweeps change when a call ended and nothing else of it.\<close>

lemma hook_ok_map_calls:
  assumes "hook_ok h" "hk_calls h' = map g (hk_calls h)" "hk_paths h' = hk_paths h" "hk_path_seq h' = hk_path_seq h"
    and "\<And>c. hc_call_id (g c) = hc_call_id c" "\<And>c. hc_worktree (g c) = hc_worktree c"
  shows "hook_ok h'"
proof -
  have m: "map hc_call_id (map g (hk_calls h)) = map hc_call_id (hk_calls h)" by (simp add: assms(5))
  have i: "hc_call_id ` set (map g (hk_calls h)) = hc_call_id ` set (hk_calls h)" by (metis m set_map)
  have q: "interval_ok h' p (g c) = interval_ok h p c" for p c
    by (simp add: interval_ok_def pathSeqAt_cong [OF assms(4)] assms(6))
  show ?thesis
    using assms(1) unfolding hook_ok_def assms(2,3) m i by (auto simp: q assms(5))
qed

lemma hook_ok_upd_calls:
  assumes "hook_ok h" "\<And>c. hc_call_id (f c) = hc_call_id c" "\<And>c. hc_worktree (f c) = hc_worktree c"
  shows "hook_ok (on_db (upd_calls P f) h)"
  by (rule hook_ok_map_calls [OF assms(1), where g = "\<lambda>c. if P c then f c else c"])
    (simp_all add: frame_simps assms(2,3))

text \<open>A row keeps its identity through the post.\<close>

definition same_pre :: "call_path \<Rightarrow> call_path \<Rightarrow> bool" where
  "same_pre q p \<longleftrightarrow> cp_call_id q = cp_call_id p \<and> cp_path q = cp_path p \<and> cp_epoch_pre q = cp_epoch_pre p \<and>
     cp_seq_pre q = cp_seq_pre p \<and> cp_digest_pre q = cp_digest_pre p \<and> cp_stat_pre q = cp_stat_pre p \<and>
     cp_holder_pre q = cp_holder_pre p \<and> cp_declared q = cp_declared p"

lemma same_pre_trans: "same_pre a b \<Longrightarrow> same_pre b c \<Longrightarrow> same_pre a c"
  by (simp add: same_pre_def)

lemma insert_path_Inr:
  "insert_path r h = Inr h1 \<Longrightarrow>
     h1 = h\<lparr>hk_paths := hk_paths h @ [r]\<rparr> \<and> path_pk r \<notin> path_pk ` set (hk_paths h)"
  by (auto simp: insert_path_def path_pk_def list_ex_iff split: if_splits)

text \<open>What one post step may do to the tables: it works on the rows of its own call and raises counters.\<close>

definition post_moved :: "string \<Rightarrow> hook_db \<Rightarrow> hook_db \<Rightarrow> bool" where
  "post_moved cid h h' \<longleftrightarrow>
     hk_calls h' = hk_calls h \<and> db_locks (hk_db h') = db_locks (hk_db h) \<and>
     (\<forall>p. cp_call_id p \<noteq> cid \<longrightarrow> (p \<in> set (hk_paths h') \<longleftrightarrow> p \<in> set (hk_paths h))) \<and>
     (\<forall>p \<in> set (hk_paths h). \<exists>q \<in> set (hk_paths h'). same_pre q p) \<and>
     (\<forall>k. pathSeqAt h k \<le> pathSeqAt h' k)"

lemma post_moved_refl: "post_moved cid h h"
  by (auto simp: post_moved_def same_pre_def)

lemma post_moved_trans:
  assumes "post_moved cid h h1" "post_moved cid h1 h2"
  shows "post_moved cid h h2"
proof -
  have "\<exists>q \<in> set (hk_paths h2). same_pre q p" if "p \<in> set (hk_paths h)" for p
    using assms that unfolding post_moved_def by (meson same_pre_trans)
  moreover have "pathSeqAt h k \<le> pathSeqAt h2 k" for k
    using assms unfolding post_moved_def by (meson order_trans)
  ultimately show ?thesis using assms by (simp add: post_moved_def)
qed

lemma post_moved_frame:
  assumes "hk_calls h' = hk_calls h" "db_locks (hk_db h') = db_locks (hk_db h)" "hk_paths h' = hk_paths h"
    "hk_path_seq h' = hk_path_seq h"
  shows "post_moved cid h h'"
  using assms pathSeqAt_cong [OF assms(4)] by (auto simp: post_moved_def same_pre_def)

lemma post_update_set:
  assumes "hook_ok h" "q \<in> set (hk_paths h)" "cp_call_id q = cid" "cp_path q = path"
  shows "set (post_update cid path n ob (hk_paths h)) =
    insert (q\<lparr>cp_seq_post := Some n, cp_digest_post := Some (hs_Digest ob), cp_stat_post := Some (hs_Stat ob)\<rparr>)
      (set (hk_paths h) - {q})"
proof -
  have "cp_call_id p = cid \<and> cp_path p = path \<longleftrightarrow> p = q" if "p \<in> set (hk_paths h)" for p
    using that assms path_unique [OF assms(1) that assms(2)] by (auto simp: path_pk_def)
  with assms(2) show ?thesis unfolding post_update_def set_map by (auto simp: image_iff)
qed

lemma post_update_pks: "map path_pk (post_update cid path n ob rows) = map path_pk rows"
  by (simp add: post_update_def path_pk_def)

lemma post_seq_pathSeq: "hk_paths h' = x \<Longrightarrow> pathSeqAt (h'\<lparr>hk_paths := y\<rparr>) k = pathSeqAt h' k"
  by (simp add: pathSeqAt_def)

text \<open>Replacing or adding a row of the call keeps the invariant when its interval is in order.\<close>

lemma hook_ok_rows:
  assumes "hook_ok h" "hk_calls h1 = hk_calls h" "\<And>k. pathSeqAt h k \<le> pathSeqAt h1 k"
    and "set (hk_paths h1) \<subseteq> insert r (set (hk_paths h))" "distinct (map path_pk (hk_paths h1))"
    and "c \<in> set (hk_calls h)" "hc_call_id c = cp_call_id r" "interval_ok h1 r c"
  shows "hook_ok h1"
proof -
  have "interval_ok h1 p c'" if p: "p \<in> set (hk_paths h1)" "c' \<in> set (hk_calls h)" "hc_call_id c' = cp_call_id p" for p c'
  proof (cases "p = r")
    case True
    with p assms(6,7) call_unique [OF assms(1)] have "c' = c" by simp
    with True assms(8) show ?thesis by simp
  next
    case False
    with p assms(4) have "p \<in> set (hk_paths h)" by auto
    with p assms(1) have "interval_ok h p c'" by (auto simp: hook_ok_def)
    then show ?thesis using assms(3) by (rule interval_ok_mono)
  qed
  moreover have "cp_call_id p \<in> hc_call_id ` set (hk_calls h)" if "p \<in> set (hk_paths h1)" for p
  proof (cases "p = r")
    case True
    with assms(6,7) show ?thesis by (metis imageI)
  next
    case False
    with that assms(1,4) show ?thesis unfolding hook_ok_def by blast
  qed
  ultimately show ?thesis using assms(1,2,5) by (simp add: hook_ok_def)
qed

definition posted_row :: "hook_db \<Rightarrow> string \<Rightarrow> HookPathState \<Rightarrow> postPathResult \<Rightarrow> bool" where
  "posted_row h cid ob res \<longleftrightarrow>
     (\<exists>q \<in> set (hk_paths h). cp_call_id q = cid \<and> cp_path q = hs_Path ob \<and> cp_epoch_pre q = pr_epoch res \<and>
        cp_seq_post q = Some (pr_seqPost res) \<and> cp_seq_pre q \<le> pr_seqPost res \<and>
        (pr_changed res \<longrightarrow> cp_seq_pre q < pr_seqPost res))"

lemma postOnePathTx_ok:
  assumes "postOnePathTx cid wt ob prev h = Inr (h1, res)" "hook_ok h" "c \<in> set (hk_calls h)"
    and "hc_call_id c = cid" "hc_worktree c = wt"
    and "\<And>p. prev = Some p \<Longrightarrow> \<exists>q \<in> set (hk_paths h). same_pre q p \<and> cp_call_id p = cid \<and> cp_path p = hs_Path ob"
  shows "hook_ok h1" "post_moved cid h h1" "hk_db h1 = hk_db h" "hk_reports h1 = hk_reports h"
    "hk_observed h1 = hk_observed h" "hk_tree_events h1 = hk_tree_events h" "posted_row h1 cid ob res"
proof -
  let ?epoch = "case prev of None \<Rightarrow> hs_Epoch ob | Some p \<Rightarrow> cp_epoch_pre p"
  let ?k = "(hs_Path ob, wt, ?epoch)"
  let ?seqPre = "case prev of None \<Rightarrow> fst (pathSeqStateTx h ?k) | Some p \<Rightarrow> cp_seq_pre p"
  define ps where "ps = post_seq (pathChanged prev ob) ?seqPre ob ?k h"
  define n h0 where "n = fst ps" and "h0 = snd ps"
  have fr: "hk_paths h0 = hk_paths h" "hk_observed h0 = hk_observed h" "hk_db h0 = hk_db h"
    "hk_reports h0 = hk_reports h" "hk_tree_events h0 = hk_tree_events h"
    by (simp_all add: h0_def ps_def frame_simps)
  have mono: "pathSeqAt h k \<le> pathSeqAt h0 k" for k by (simp add: h0_def ps_def post_seq_mono)
  have le: "?seqPre \<le> pathSeqAt h ?k"
  proof (cases prev)
    case None
    then show ?thesis by (simp add: pathSeqAt_state)
  next
    case (Some p)
    with assms(6) obtain q where "q \<in> set (hk_paths h)" "same_pre q p" "cp_call_id p = cid" "cp_path p = hs_Path ob" by blast
    with assms(2-5) Some show ?thesis by (auto simp: hook_ok_def interval_ok_def Let_def same_pre_def)
  qed
  note v = post_seq_value [OF le, of "pathChanged prev ob" ob, folded ps_def, folded n_def h0_def]
  have res: "pr_changed res = pathChanged prev ob" "pr_epoch res = ?epoch" "pr_seqPost res = n"
    using assms(1) unfolding postOnePathTx_def Let_def ps_def [symmetric] n_def
    by (auto split: option.splits sum.splits)
  obtain r where r: "hk_calls h1 = hk_calls h" "hk_path_seq h1 = hk_path_seq h0" "hk_db h1 = hk_db h"
    "hk_reports h1 = hk_reports h" "hk_observed h1 = hk_observed h" "hk_tree_events h1 = hk_tree_events h"
    "set (hk_paths h1) \<subseteq> insert r (set (hk_paths h))" "r \<in> set (hk_paths h1)" "distinct (map path_pk (hk_paths h1))"
    "cp_call_id r = cid" "cp_path r = hs_Path ob" "cp_epoch_pre r = ?epoch" "cp_seq_post r = Some n"
    "cp_seq_pre r = ?seqPre" "\<forall>p \<in> set (hk_paths h). p \<in> set (hk_paths h1) \<or> same_pre r p"
  proof (cases prev)
    case None
    let ?r = "first_seen_row cid ob ?seqPre n"
    obtain h2 where i: "insert_path ?r h0 = Inr h2" and h1: "h1 = h2"
      using assms(1) None unfolding postOnePathTx_def Let_def ps_def [symmetric] n_def [symmetric] h0_def [symmetric]
      by (auto split: sum.splits simp: ps_def n_def h0_def)
    show thesis
      by (rule that [of ?r])
        (use None insert_path_Inr [OF i] fr assms(2) in \<open>auto simp: h1 first_seen_row_def path_pk_def hook_ok_def\<close>)
  next
    case (Some p)
    with assms(6) obtain q where q: "q \<in> set (hk_paths h)" "same_pre q p" "cp_call_id p = cid" "cp_path p = hs_Path ob" by blast
    let ?r = "q\<lparr>cp_seq_post := Some n, cp_digest_post := Some (hs_Digest ob), cp_stat_post := Some (hs_Stat ob)\<rparr>"
    have h1: "h1 = h0\<lparr>hk_paths := post_update cid (hs_Path ob) n ob (hk_paths h0)\<rparr>"
      using assms(1) Some by (simp add: postOnePathTx_def Let_def ps_def n_def h0_def)
    have s: "set (hk_paths h1) = insert ?r (set (hk_paths h) - {q})"
      using post_update_set [OF assms(2) q(1), of cid "hs_Path ob" n ob] q(2-4) by (simp add: h1 fr same_pre_def)
    have d: "distinct (map path_pk (hk_paths h1))"
      using assms(2) by (simp add: h1 fr post_update_pks hook_ok_def)
    show thesis
      by (rule that [of ?r]) (use Some q s d fr in \<open>auto simp: h1 same_pre_def\<close>)
  qed
  have seq: "pathSeqAt h1 k = pathSeqAt h0 k" for k by (rule pathSeqAt_cong [OF r(2)])
  show "hk_db h1 = hk_db h" "hk_reports h1 = hk_reports h" "hk_observed h1 = hk_observed h"
    "hk_tree_events h1 = hk_tree_events h" by (fact r(3-6))+
  have "interval_ok h1 r c"
    using v(1,2) r(10-14) assms(5) by (simp add: interval_ok_def Let_def seq)
  then show "hook_ok h1"
    using hook_ok_rows [OF assms(2) r(1) _ r(7,9) assms(3)] assms(4) mono r(10) by (simp add: seq)
  have "p \<in> set (hk_paths h1) \<longleftrightarrow> p \<in> set (hk_paths h)" if "cp_call_id p \<noteq> cid" for p
    using that r(7,10,15) by (auto simp: same_pre_def)
  moreover have "\<exists>q \<in> set (hk_paths h1). same_pre q p" if "p \<in> set (hk_paths h)" for p
    using that r(8,15) by (auto simp: same_pre_def)
  ultimately show "post_moved cid h h1" using r(1,3) mono by (simp add: post_moved_def seq)
  show "posted_row h1 cid ob res"
    unfolding posted_row_def using r(8,10-14) v(2,3) res by (intro bexI [of _ r]) auto
qed

subsection \<open>Events and what they owe\<close>

lemma with_spanners_simps [simp]:
  "te_EventID (with_spanners r sps) = te_EventID r" "te_Path (with_spanners r sps) = te_Path r"
  "te_EpochPre (with_spanners r sps) = te_EpochPre r" "te_Seq (with_spanners r sps) = te_Seq r"
  "te_Observer (with_spanners r sps) = te_Observer r" "te_Worktree (with_spanners r sps) = te_Worktree r"
  "te_CallID (with_spanners r sps) = te_CallID r" "te_DigestPre (with_spanners r sps) = te_DigestPre r"
  "te_DigestPost (with_spanners r sps) = te_DigestPost r" "te_Rule (with_spanners r sps) = te_Rule r"
  "te_HolderPre (with_spanners r sps) = te_HolderPre r" "te_Spanners (with_spanners r sps) = sps"
  by (cases r; simp add: with_spanners_def tree_event_row.extend_def)+

definition owed :: "hook_db \<Rightarrow> string \<Rightarrow> AgentUUID \<Rightarrow> bool" where
  "owed h eid who \<longleftrightarrow>
     list_ex (\<lambda>r. rr_event_id r = eid \<and> rr_addressee_uuid r = who \<and> rr_delivered_at r = None) (hk_reports h)"

lemma owed_file_reports: "owed h eid who \<Longrightarrow> owed (file_reports s ev now ws h) eid who"
  by (induction ws arbitrary: h) (simp_all add: owed_def Let_def)

lemma file_reports_owed: "who \<in> set ws \<Longrightarrow> owed (file_reports s ev now ws h) (te_EventID ev) who"
proof (induction ws arbitrary: h)
  case (Cons w ws)
  show ?case
  proof (cases "who \<in> set ws")
    case False
    with Cons.prems have "w = who" by simp
    then show ?thesis by (simp add: Let_def, intro owed_file_reports) (simp add: owed_def)
  qed (simp add: Let_def Cons.IH)
qed simp

lemma stamp_acted_owed:
  "list_ex (\<lambda>r. rr_event_id r = eid \<and> rr_addressee_uuid r = who \<and> rr_delivered_at r = None) (stamp_acted rid now rows) =
   list_ex (\<lambda>r. rr_event_id r = eid \<and> rr_addressee_uuid r = who \<and> rr_delivered_at r = None) rows"
  by (induction rows) (auto simp: stamp_acted_def)

lemma mark_acted_loop_owed:
  "list_ex (\<lambda>r. rr_event_id r = eid \<and> rr_addressee_uuid r = who \<and> rr_delivered_at r = None)
     (snd (mark_acted_loop path ow now as rows)) =
   list_ex (\<lambda>r. rr_event_id r = eid \<and> rr_addressee_uuid r = who \<and> rr_delivered_at r = None) rows"
  by (induction as arbitrary: rows) (simp_all add: Let_def stamp_acted_owed)

lemma owed_acted [simp]: "owed (snd (markTreeChangeActedTx s ow path wt dg now h)) eid who = owed h eid who"
  by (simp add: markTreeChangeActedTx_def Let_def owed_def mark_acted_loop_owed)

lemma owed_cong: "hk_reports h' = hk_reports h \<Longrightarrow> owed h' eid who = owed h eid who"
  by (simp add: owed_def)

lemma add_addressee_set: "set (add_addressee u out) = (if u = [] then {} else {u}) \<union> set out"
  by (auto simp: add_addressee_def)

lemma fold_addressees:
  "set (foldl (\<lambda>out sp. add_addressee (sp_Owner sp) out) a sps) = (sp_Owner ` set sps - {[]}) \<union> set a"
  by (induction sps arbitrary: a) (auto simp: add_addressee_set)

lemma treeAddressees_set:
  "set (treeAddressees inp sps) =
     ({ti_HolderPre inp, ti_Observer inp} \<union> (if ti_EpochNow inp \<noteq> ti_EpochPre inp then {ti_HolderNow inp} else {}) \<union>
      sp_Owner ` set sps) - {[]}"
  by (auto simp: treeAddressees_def Let_def fold_addressees add_addressee_set)

lemma contested_addressees:
  "sps \<noteq> [] \<Longrightarrow> snd (classifyTreeEvent inp sps) = treeAddressees inp sps"
  by (simp add: classifyTreeEvent_def Let_def)

lemma fileTreeEventTx_event:
  "te_Path (fst (fileTreeEventTx s inp now h)) = ti_Path inp"
  "te_EpochPre (fst (fileTreeEventTx s inp now h)) = ti_EpochPre inp"
  "te_Seq (fst (fileTreeEventTx s inp now h)) = ti_Seq inp"
  "te_Observer (fst (fileTreeEventTx s inp now h)) = ti_Observer inp"
  "te_Worktree (fst (fileTreeEventTx s inp now h)) = ti_Worktree inp"
  "te_CallID (fst (fileTreeEventTx s inp now h)) = ti_CallID inp"
  "te_DigestPost (fst (fileTreeEventTx s inp now h)) = ti_DigestPost inp"
  "te_Spanners (fst (fileTreeEventTx s inp now h)) =
     spannersTx h (ti_Path inp) (ti_Worktree inp) (ti_EpochPre inp) (ti_Seq inp) (ti_Observer inp)"
  by (simp_all add: fileTreeEventTx_def Let_def event_of_input_def)

lemma owed_fileTreeEventTx: "owed h eid who \<Longrightarrow> owed (snd (fileTreeEventTx s inp now h)) eid who"
  by (auto simp: fileTreeEventTx_def Let_def intro!: owed_file_reports) (simp add: owed_def)

lemma fileTreeEventTx_owes:
  assumes "fileTreeEventTx s inp now h = (ev, h')" "sp \<in> set (te_Spanners ev)" "sp_Owner sp \<noteq> []"
  shows "owed h' (te_EventID ev) (sp_Owner sp)"
proof -
  let ?sps = "spannersTx h (ti_Path inp) (ti_Worktree inp) (ti_EpochPre inp) (ti_Seq inp) (ti_Observer inp)"
  have sp: "te_Spanners ev = ?sps" using fileTreeEventTx_event(8) [of s inp now h] assms(1) by simp
  then have "?sps \<noteq> []" using assms(2) by auto
  then have "sp_Owner sp \<in> set (snd (classifyTreeEvent inp ?sps))"
    using assms(2,3) sp by (simp add: contested_addressees treeAddressees_set)
  with assms(1) show ?thesis by (auto simp: fileTreeEventTx_def Let_def intro!: file_reports_owed)
qed

lemma spannersTx_mem:
  "sp \<in> set (spannersTx h path wt epoch n observer) \<longleftrightarrow>
     (\<exists>p \<in> set (hk_paths h). \<exists>c \<in> set (hk_calls h). spans path wt epoch n observer p c \<and>
        sp = \<lparr>sp_CallID = cp_call_id p, sp_Owner = hc_owner_uuid c\<rparr>)"
  by (auto simp: spannersTx_def)

subsection \<open>One observed path\<close>

definition post_elsewhere :: "string set \<Rightarrow> hook_db \<Rightarrow> hook_db \<Rightarrow> bool" where
  "post_elsewhere fs h h' \<longleftrightarrow>
     (\<forall>k. fst k \<notin> fs \<longrightarrow> hk_path_seq h' k = hk_path_seq h k) \<and>
     (\<forall>p. cp_path p \<notin> fs \<longrightarrow> (p \<in> set (hk_paths h') \<longleftrightarrow> p \<in> set (hk_paths h))) \<and>
     (\<forall>k. fst k \<notin> fs \<longrightarrow> hk_observed h' k = hk_observed h k)"

lemma post_elsewhere_trans:
  "post_elsewhere fs h h1 \<Longrightarrow> post_elsewhere gs h1 h2 \<Longrightarrow> post_elsewhere (fs \<union> gs) h h2"
  by (simp add: post_elsewhere_def)

lemma postOnePathTx_elsewhere:
  assumes "postOnePathTx cid wt ob prev h = Inr (h1, res)"
  shows "post_elsewhere {hs_Path ob} h h1"
proof -
  let ?k = "(hs_Path ob, wt, case prev of None \<Rightarrow> hs_Epoch ob | Some p \<Rightarrow> cp_epoch_pre p)"
  have n: "fst k \<noteq> hs_Path ob \<Longrightarrow> hk_path_seq (snd (post_seq ch m ob ?k h)) k = hk_path_seq h k" for ch m k
    by (auto simp: post_seq_def nextPathSeq_def Let_def)
  show ?thesis
  proof (cases prev)
    case None
    with assms n show ?thesis
      by (auto simp: postOnePathTx_def Let_def post_elsewhere_def first_seen_row_def frame_simps dest!: insert_path_Inr
          split: sum.splits)
  next
    case (Some p)
    with assms n show ?thesis
      by (auto simp: postOnePathTx_def Let_def post_elsewhere_def post_update_def frame_simps image_iff)
  qed
qed

text \<open>The event of a changed path: its number, where the counter stands afterwards, the tables its
  spanners were read from, and the reports it left.\<close>

definition prev_epoch :: "HookPathState \<Rightarrow> call_path option \<Rightarrow> int" where
  "prev_epoch ob prev = (case prev of None \<Rightarrow> hs_Epoch ob | Some p \<Rightarrow> cp_epoch_pre p)"

definition numbered :: "hook_db \<Rightarrow> path_key \<Rightarrow> int \<Rightarrow> string \<Rightarrow> bool" where
  "numbered h k n dg \<longleftrightarrow> fst (pathSeqStateTx h k) = n \<and> fst (snd (pathSeqStateTx h k)) = dg"

definition new_event ::
  "hook_db \<Rightarrow> string \<Rightarrow> AgentUUID \<Rightarrow> string \<Rightarrow> HookPathState \<Rightarrow> call_path option \<Rightarrow> TreeEvent \<Rightarrow> hook_db \<Rightarrow> bool"
where
  "new_event h cid owner wt ob prev ev h' \<longleftrightarrow>
     te_Path ev = hs_Path ob \<and> te_EpochPre ev = prev_epoch ob prev \<and> te_Observer ev = owner \<and> te_Worktree ev = wt \<and>
     te_CallID ev = cid \<and> te_DigestPost ev = hs_Digest ob \<and>
     (\<exists>q \<in> set (hk_paths h'). cp_call_id q = cid \<and> cp_path q = te_Path ev \<and> cp_epoch_pre q = te_EpochPre ev \<and>
        cp_seq_post q = Some (te_Seq ev) \<and> cp_seq_pre q < te_Seq ev) \<and>
     numbered h' (te_Path ev, wt, te_EpochPre ev) (te_Seq ev) (te_DigestPost ev) \<and>
     (\<forall>p n. prev = Some p \<longrightarrow> numbered h (te_Path ev, wt, te_EpochPre ev) n (hs_Digest ob) \<longrightarrow> cp_seq_pre p < n \<longrightarrow>
        te_Seq ev = n) \<and>
     (\<exists>h3. post_moved cid h h3 \<and>
        te_Spanners ev = spannersTx h3 (te_Path ev) wt (te_EpochPre ev) (te_Seq ev) owner) \<and>
     (\<forall>sp \<in> set (te_Spanners ev). sp_Owner sp \<noteq> [] \<longrightarrow> owed h' (te_EventID ev) (sp_Owner sp))"

lemma post_seq_numbered:
  "numbered (snd (post_seq True m ob k h)) k (fst (post_seq True m ob k h)) (hs_Digest ob)"
  "numbered h k n (hs_Digest ob) \<Longrightarrow> m < n \<Longrightarrow> fst (post_seq True m ob k h) = n"
  by (auto simp: post_seq_def numbered_def pathSeqStateTx_def nextPathSeq_def Let_def split: option.splits)

lemma numbered_cong: "hk_path_seq h' k = hk_path_seq h k \<Longrightarrow> numbered h' k n dg = numbered h k n dg"
  by (simp add: numbered_def pathSeqStateTx_def)

lemma postOnePathTx_numbered:
  assumes "postOnePathTx cid wt ob prev h = Inr (h1, res)" "pr_changed res"
  shows "numbered h1 (hs_Path ob, wt, pr_epoch res) (pr_seqPost res) (hs_Digest ob)"
    "\<And>p n. prev = Some p \<Longrightarrow> numbered h (hs_Path ob, wt, pr_epoch res) n (hs_Digest ob) \<Longrightarrow> cp_seq_pre p < n \<Longrightarrow>
       pr_seqPost res = n"
proof -
  let ?k = "(hs_Path ob, wt, case prev of None \<Rightarrow> hs_Epoch ob | Some p \<Rightarrow> cp_epoch_pre p)"
  let ?m = "case prev of None \<Rightarrow> fst (pathSeqStateTx h ?k) | Some p \<Rightarrow> cp_seq_pre p"
  have f: "pr_changed res = pathChanged prev ob" "pr_epoch res = (case prev of None \<Rightarrow> hs_Epoch ob | Some p \<Rightarrow> cp_epoch_pre p)"
    "pr_seqPost res = fst (post_seq (pathChanged prev ob) ?m ob ?k h)"
    "hk_path_seq h1 = hk_path_seq (snd (post_seq (pathChanged prev ob) ?m ob ?k h))"
    using assms(1) unfolding postOnePathTx_def Let_def
    by (auto split: option.splits sum.splits dest!: insert_path_Inr)
  have t: "pathChanged prev ob" using f(1) assms(2) by simp
  show "numbered h1 (hs_Path ob, wt, pr_epoch res) (pr_seqPost res) (hs_Digest ob)"
    using post_seq_numbered(1) [of ?m ob ?k h] f(2-4) t by (simp add: numbered_def pathSeqStateTx_def)
  show "pr_seqPost res = n" if "prev = Some p" "numbered h (hs_Path ob, wt, pr_epoch res) n (hs_Digest ob)"
    "cp_seq_pre p < n" for p n
    using post_seq_numbered(2) [of h ?k n ob ?m] that f(2,3) t by simp
qed

text \<open>\<open>prev_ok\<close>: the rows read before the loop still describe the tables.\<close>

definition prev_ok :: "hook_db \<Rightarrow> string \<Rightarrow> string \<Rightarrow> call_path option \<Rightarrow> bool" where
  "prev_ok h cid path prev \<longleftrightarrow>
     (\<forall>p. prev = Some p \<longrightarrow> cp_call_id p = cid \<and> cp_path p = path \<and> (\<exists>q \<in> set (hk_paths h). same_pre q p))"

lemma prev_ok_moved: "prev_ok h cid path prev \<Longrightarrow> post_moved cid h h' \<Longrightarrow> prev_ok h' cid path prev"
  by (auto simp: prev_ok_def post_moved_def) (meson same_pre_trans)

lemma prev_ok_recorded: "prev_ok h cid path (recordedPathsTx h cid path)"
  unfolding prev_ok_def recordedPathsTx_def
  by (auto dest!: find_SomeD simp: same_pre_def)

definition step_event ::
  "hook_db \<Rightarrow> string \<Rightarrow> AgentUUID \<Rightarrow> string \<Rightarrow> time \<Rightarrow> HookPathState \<Rightarrow> call_path option \<Rightarrow> PostOutcome \<Rightarrow> PostOutcome \<Rightarrow> hook_db \<Rightarrow> bool"
where
  "step_event h cid owner wt t ob prev out out' h' \<longleftrightarrow>
     (if pathChanged prev ob
      then (\<exists>ev. po_Events out' = po_Events out @ [ev] \<and> new_event h cid owner wt ob prev ev h') \<and>
           po_Changed out' = po_Changed out @ [hs_Path ob]
      else po_Events out' = po_Events out \<and> po_Changed out' = po_Changed out) \<and>
     (\<forall>k. hk_observed h' k =
        (if hs_Locked ob \<and> k = (hs_Path ob, wt, hs_Epoch ob) then Some (hs_Stat ob, hs_Digest ob, t) else hk_observed h k))"

lemma post_event_step:
  assumes "postOnePathWithEventTx s cid owner wt ob recorded t (out, h) = Inr (out', h')" "hook_ok h"
    and "c \<in> set (hk_calls h)" "hc_call_id c = cid" "hc_worktree c = wt" "prev_ok h cid (hs_Path ob) (recorded (hs_Path ob))"
  shows "hook_ok h'" "post_moved cid h h'" "post_elsewhere {hs_Path ob} h h'"
    "\<And>eid who. owed h eid who \<Longrightarrow> owed h' eid who"
    "step_event h cid owner wt t ob (recorded (hs_Path ob)) out out' h'"
proof -
  let ?prev = "recorded (hs_Path ob)"
  obtain h1 res where one: "postOnePathTx cid wt ob ?prev h = Inr (h1, res)"
    using assms(1) by (auto simp: postOnePathWithEventTx_def split: sum.splits)
  have "\<exists>q \<in> set (hk_paths h). same_pre q p \<and> cp_call_id p = cid \<and> cp_path p = hs_Path ob" if "?prev = Some p" for p
    using that assms(6) unfolding prev_ok_def by blast
  note ok = postOnePathTx_ok [OF one assms(2-5) this]
  have res: "pr_changed res = pathChanged ?prev ob" "pr_epoch res = prev_epoch ob ?prev"
    using one unfolding postOnePathTx_def Let_def prev_epoch_def by (auto split: option.splits sum.splits)
  define a where "a = markTreeChangeActedTx s owner (hs_Path ob) wt (hs_Digest ob) t h1"
  define h3 where "h3 = (if hs_Locked ob then setObservedTx ob wt t (snd a) else snd a)"
  have h3: "hk_paths h3 = hk_paths h1" "hk_path_seq h3 = hk_path_seq h1" "hk_calls h3 = hk_calls h1"
    "db_locks (hk_db h3) = db_locks (hk_db h1)"
    by (simp_all add: h3_def a_def frame_simps)
  have ow3: "owed h3 eid who = owed h eid who" for eid who
  proof -
    have "owed h3 eid who = owed (snd a) eid who" by (simp add: h3_def owed_def frame_simps)
    also have "\<dots> = owed h1 eid who" by (simp add: a_def)
    finally show ?thesis by (simp add: owed_cong [OF ok(4)])
  qed
  have ob3: "hk_observed h3 k = (if hs_Locked ob \<and> k = (hs_Path ob, wt, hs_Epoch ob)
      then Some (hs_Stat ob, hs_Digest ob, t) else hk_observed h k)" for k
    by (simp add: h3_def setObservedTx_def a_def frame_simps ok(5))
  have mv3: "post_moved cid h h3" by (rule post_moved_trans [OF ok(2) post_moved_frame [OF h3(3,4,1,2)]])
  let ?f = "fileTreeEventTx s (post_input res ob owner cid wt) t h3"
  have "postOnePathWithEventTx s cid owner wt ob recorded t (out, h) =
      Inr (if pr_changed res
           then (out\<lparr>po_Acted := po_Acted out @ fst a, po_Changed := po_Changed out @ [hs_Path ob],
                    po_Events := po_Events out @ [fst ?f]\<rparr>, snd ?f)
           else (out\<lparr>po_Acted := po_Acted out @ fst a\<rparr>, h3))"
    by (simp add: postOnePathWithEventTx_def one Let_def a_def h3_def)
  note step = this [unfolded assms(1)]
  have h': "h' = (if pr_changed res then snd ?f else h3)"
    and outs: "po_Events out' = po_Events out @ (if pr_changed res then [fst ?f] else [])"
      "po_Changed out' = po_Changed out @ (if pr_changed res then [hs_Path ob] else [])"
    using step by (simp_all split: if_splits)
  have f: "hk_paths h' = hk_paths h1" "hk_path_seq h' = hk_path_seq h1" "hk_calls h' = hk_calls h1"
    "db_locks (hk_db h') = db_locks (hk_db h1)" "hk_observed h' = hk_observed h3"
    by (simp_all add: h' h3 frame_simps)
  show "hook_ok h'" by (rule hook_ok_cong [OF ok(1) f(3,1,2)])
  show mv: "post_moved cid h h'" by (rule post_moved_trans [OF ok(2) post_moved_frame [OF f(3,4,1,2)]])
  show "post_elsewhere {hs_Path ob} h h'"
    using postOnePathTx_elsewhere [OF one] unfolding post_elsewhere_def f(1,2,5) ob3 by auto
  show "owed h eid who \<Longrightarrow> owed h' eid who" for eid who
    by (simp add: h' ow3 owed_fileTreeEventTx)
  show "step_event h cid owner wt t ob ?prev out out' h'"
  proof (cases "pr_changed res")
    case False
    with res outs show ?thesis by (simp add: step_event_def f(5) ob3)
  next
    case True
    let ?ev = "fst ?f"
    have e: "te_Path ?ev = hs_Path ob" "te_EpochPre ?ev = pr_epoch res" "te_Seq ?ev = pr_seqPost res"
      "te_Observer ?ev = owner" "te_Worktree ?ev = wt" "te_CallID ?ev = cid" "te_DigestPost ?ev = hs_Digest ob"
      "te_Spanners ?ev = spannersTx h3 (hs_Path ob) wt (pr_epoch res) (pr_seqPost res) owner"
      by (simp_all add: fileTreeEventTx_event post_input_def)
    have q: "\<exists>q \<in> set (hk_paths h'). cp_call_id q = cid \<and> cp_path q = hs_Path ob \<and> cp_epoch_pre q = pr_epoch res \<and>
        cp_seq_post q = Some (pr_seqPost res) \<and> cp_seq_pre q < pr_seqPost res"
      using ok(7) True unfolding posted_row_def f(1) by blast
    note num = postOnePathTx_numbered [OF one True]
    have n: "numbered h' (hs_Path ob, wt, pr_epoch res) (pr_seqPost res) (hs_Digest ob)"
      using num(1) by (simp add: numbered_def pathSeqStateTx_def f(2))
    have "fileTreeEventTx s (post_input res ob owner cid wt) t h3 = (?ev, h')" using True h' by simp
    note owes = fileTreeEventTx_owes [OF this, unfolded e(8)]
    have "new_event h cid owner wt ob ?prev ?ev h'"
      unfolding new_event_def e res(2) [symmetric]
      by (intro conjI refl ballI allI impI exI [of _ h3] q n mv3) (erule (2) num(2), erule (1) owes)
    with True res outs show ?thesis by (auto simp: step_event_def f(5) ob3)
  qed
qed

subsection \<open>The loop\<close>

lemma post_loop_append:
  "post_loop s cid owner wt (xs @ ys) recorded t x =
     (case post_loop s cid owner wt xs recorded t x of
        Inl er \<Rightarrow> Inl er | Inr x' \<Rightarrow> post_loop s cid owner wt ys recorded t x')"
  by (induction xs arbitrary: x) (auto split: sum.splits)

lemma post_loop_ok:
  assumes "post_loop s cid owner wt obs recorded t (out, h) = Inr (out', h')" "hook_ok h" "c \<in> set (hk_calls h)"
    and "hc_call_id c = cid" "hc_worktree c = wt" "\<And>path. prev_ok h cid path (recorded path)"
  shows "hook_ok h' \<and> post_moved cid h h' \<and> post_elsewhere (hs_Path ` set obs) h h' \<and>
    (\<forall>eid who. owed h eid who \<longrightarrow> owed h' eid who)"
  using assms
proof (induction obs arbitrary: out h)
  case Nil
  then show ?case by (simp add: post_moved_refl post_elsewhere_def)
next
  case (Cons ob obs)
  obtain out1 h1 where one: "postOnePathWithEventTx s cid owner wt ob recorded t (out, h) = Inr (out1, h1)"
    and rest: "post_loop s cid owner wt obs recorded t (out1, h1) = Inr (out', h')"
    using Cons.prems(1) by (auto split: sum.splits)
  note st = post_event_step [OF one Cons.prems(2-6)]
  have c: "c \<in> set (hk_calls h1)" using st(2) Cons.prems(3) by (simp add: post_moved_def)
  note ih = Cons.IH [OF rest st(1) c Cons.prems(4,5) prev_ok_moved [OF Cons.prems(6) st(2)]]
  have "post_elsewhere ({hs_Path ob} \<union> hs_Path ` set obs) h h'" using post_elsewhere_trans [OF st(3)] ih by blast
  then show ?case using ih st(4) post_moved_trans [OF st(2)] by auto
qed

text \<open>Each observed path has its step in the loop, with the tables before and after it.\<close>

lemma post_loop_at:
  assumes "post_loop s cid owner wt (xs @ ob # ys) recorded t (out, h) = Inr (out', h')" "hook_ok h" "c \<in> set (hk_calls h)"
    and "hc_call_id c = cid" "hc_worktree c = wt" "\<And>path. prev_ok h cid path (recorded path)"
  obtains out1 h1 out2 h2 where "post_loop s cid owner wt xs recorded t (out, h) = Inr (out1, h1)"
    "postOnePathWithEventTx s cid owner wt ob recorded t (out1, h1) = Inr (out2, h2)"
    "post_loop s cid owner wt ys recorded t (out2, h2) = Inr (out', h')"
    "hook_ok h1" "post_moved cid h h1" "post_elsewhere (hs_Path ` set xs) h h1"
    "step_event h1 cid owner wt t ob (recorded (hs_Path ob)) out1 out2 h2"
    "hook_ok h2" "post_moved cid h1 h2" "post_elsewhere (hs_Path ` set ys) h2 h'" "post_moved cid h2 h'"
    "\<And>eid who. owed h2 eid who \<Longrightarrow> owed h' eid who"
proof -
  obtain out1 h1 out2 h2 where a: "post_loop s cid owner wt xs recorded t (out, h) = Inr (out1, h1)"
    and b: "postOnePathWithEventTx s cid owner wt ob recorded t (out1, h1) = Inr (out2, h2)"
    and d: "post_loop s cid owner wt ys recorded t (out2, h2) = Inr (out', h')"
    using assms(1) by (auto simp: post_loop_append split: sum.splits)
  note p = post_loop_ok [OF a assms(2-6)]
  have c1: "c \<in> set (hk_calls h1)" and pr1: "\<And>path. prev_ok h1 cid path (recorded path)"
    using p assms(3) prev_ok_moved [OF assms(6)] by (auto simp: post_moved_def)
  note q = post_event_step [OF b conjunct1 [OF p] c1 assms(4,5) pr1]
  have c2: "c \<in> set (hk_calls h2)" and pr2: "\<And>path. prev_ok h2 cid path (recorded path)"
    using q(2) c1 prev_ok_moved [OF pr1] by (auto simp: post_moved_def)
  note r = post_loop_ok [OF d q(1) c2 assms(4,5) pr2]
  show thesis by (rule that [OF a b d]) (use p q r in auto)
qed

lemma post_loop_events_grow:
  assumes "post_loop s cid owner wt obs recorded t (out, h) = Inr (out', h')"
  shows "set (po_Events out) \<subseteq> set (po_Events out')"
  using assms
proof (induction obs arbitrary: out h)
  case (Cons ob obs)
  obtain out1 h1 where one: "postOnePathWithEventTx s cid owner wt ob recorded t (out, h) = Inr (out1, h1)"
    and rest: "post_loop s cid owner wt obs recorded t (out1, h1) = Inr (out', h')"
    using Cons.prems(1) by (auto split: sum.splits)
  have "set (po_Events out) \<subseteq> set (po_Events out1)"
    using one by (auto simp: postOnePathWithEventTx_def Let_def split: sum.splits if_splits)
  with Cons.IH [OF rest] show ?case by simp
qed simp

lemma post_loop_event_at:
  assumes "post_loop s cid owner wt obs recorded t (out, h) = Inr (out', h')" "hook_ok h" "c \<in> set (hk_calls h)"
    and "hc_call_id c = cid" "hc_worktree c = wt" "\<And>path. prev_ok h cid path (recorded path)"
    and "ev \<in> set (po_Events out')" "ev \<notin> set (po_Events out)"
  shows "\<exists>xs ob ys h1 h2. obs = xs @ ob # ys \<and> post_moved cid h h1 \<and> post_elsewhere (hs_Path ` set xs) h h1 \<and>
    new_event h1 cid owner wt ob (recorded (hs_Path ob)) ev h2 \<and> post_elsewhere (hs_Path ` set ys) h2 h' \<and>
    (\<forall>eid who. owed h2 eid who \<longrightarrow> owed h' eid who)"
  using assms(1,7,8)
proof (induction obs arbitrary: out' h' rule: rev_induct)
  case Nil
  then show ?case by simp
next
  case (snoc ob obs)
  obtain out1 h1 where a: "post_loop s cid owner wt obs recorded t (out, h) = Inr (out1, h1)"
    and b: "postOnePathWithEventTx s cid owner wt ob recorded t (out1, h1) = Inr (out', h')"
    using snoc.prems(1) by (auto simp: post_loop_append split: sum.splits)
  note p = post_loop_ok [OF a assms(2-6)]
  have c1: "c \<in> set (hk_calls h1)" and pr1: "\<And>path. prev_ok h1 cid path (recorded path)"
    using p assms(3) prev_ok_moved [OF assms(6)] by (auto simp: post_moved_def)
  note q = post_event_step [OF b conjunct1 [OF p] c1 assms(4,5) pr1]
  show ?case
  proof (cases "ev \<in> set (po_Events out1)")
    case True
    from snoc.IH [OF a True snoc.prems(3)] obtain xs ob' ys h1' h2' where i:
      "obs = xs @ ob' # ys" "post_moved cid h h1'" "post_elsewhere (hs_Path ` set xs) h h1'"
      "new_event h1' cid owner wt ob' (recorded (hs_Path ob')) ev h2'" "post_elsewhere (hs_Path ` set ys) h2' h1"
      "\<forall>eid who. owed h2' eid who \<longrightarrow> owed h1 eid who" by blast
    have "post_elsewhere (hs_Path ` set (ys @ [ob])) h2' h'"
      using post_elsewhere_trans [OF i(5) q(3)] by (simp add: insert_commute Un_commute)
    with i q(4) show ?thesis by (intro exI [of _ xs] exI [of _ ob'] exI [of _ "ys @ [ob]"] exI [of _ h1'] exI [of _ h2']) auto
  next
    case False
    then have "new_event h1 cid owner wt ob (recorded (hs_Path ob)) ev h'"
      using q(5) snoc.prems(2) by (auto simp: step_event_def split: if_splits)
    with p show ?thesis
      by (intro exI [of _ obs] exI [of _ ob] exI [of _ "[]"] exI [of _ h1] exI [of _ h'])
        (simp add: post_elsewhere_def)
  qed
qed

subsection \<open>The whole post\<close>

lemma find_call: "find (\<lambda>c. hc_call_id c = cid) cs = Some c \<Longrightarrow> c \<in> set cs \<and> hc_call_id c = cid"
  by (auto dest: find_SomeD)

text \<open>A post either repeats and changes nothing, or runs its loop on the tables with at most an audit
  row added.\<close>

definition post_run ::
  "store \<Rightarrow> string \<Rightarrow> time \<Rightarrow> HookPathState list \<Rightarrow> hook_db \<Rightarrow> hook_db \<Rightarrow> PostOutcome \<Rightarrow> hook_call \<Rightarrow> hook_db \<Rightarrow>
     PostOutcome \<Rightarrow> hook_db \<Rightarrow> bool" where
  "post_run s cid t obs h h' out c h1 out2 h2 \<longleftrightarrow>
     c \<in> set (hk_calls h) \<and> hc_call_id c = cid \<and> hc_t_post c = None \<and>
     hk_calls h1 = hk_calls h \<and> hk_paths h1 = hk_paths h \<and> hk_path_seq h1 = hk_path_seq h \<and>
     hk_reports h1 = hk_reports h \<and> hk_observed h1 = hk_observed h \<and> db_locks (hk_db h1) = db_locks (hk_db h) \<and>
     post_loop s cid (hc_owner_uuid c) (hc_worktree c) obs (recordedPathsTx h1 cid) t (no_outcome, h1) = Inr (out2, h2) \<and>
     po_Events out = po_Events out2 \<and>
     hk_calls h' = map (\<lambda>r. if hc_call_id r = cid then r\<lparr>hc_t_post := Some t, hc_post_missing := False\<rparr> else r) (hk_calls h2) \<and>
     hk_paths h' = hk_paths h2 \<and> hk_path_seq h' = hk_path_seq h2 \<and> hk_reports h' = hk_reports h2 \<and>
     hk_observed h' = hk_observed h2"

lemma RecordCallPost_Inr:
  assumes "RecordCallPost s i cid t obs h = Inr (h', out)" "po_Recorded out"
  obtains c h1 out2 h2 where "post_run s cid t obs h h' out c h1 out2 h2"
proof -
  obtain c where c: "find (\<lambda>c. hc_call_id c = cid) (hk_calls h) = Some c" "hc_t_post c = None"
    using assms by (auto simp: RecordCallPost_def no_outcome_def split: if_splits option.splits)
  define h1 where "h1 = (if hc_post_missing c \<and> hc_dead_at c = None
      then on_db (appendPostMissingResolvedTx s cid (hc_owner_uuid c) (hc_session_uuid c) resolvedPosted (t - hc_t_pre c) t) h
      else h)"
  have f1: "hk_calls h1 = hk_calls h" "hk_paths h1 = hk_paths h" "hk_path_seq h1 = hk_path_seq h"
    "hk_reports h1 = hk_reports h" "hk_observed h1 = hk_observed h" "db_locks (hk_db h1) = db_locks (hk_db h)"
    by (simp_all add: h1_def frame_simps appendPostMissingResolvedTx_def)
  obtain out2 h2 where l: "post_loop s cid (hc_owner_uuid c) (hc_worktree c) obs (recordedPathsTx h1 cid) t (no_outcome, h1) =
      Inr (out2, h2)"
    using assms(1) c unfolding RecordCallPost_def postPathsTx_def
    by (auto simp: Let_def h1_def [symmetric] split: sum.splits if_splits)
  have "postPathsTx s cid (hc_owner_uuid c) (hc_worktree c) obs (recordedPathsTx h1 cid) (hc_t_pre c) t h1 =
      Inr (out2, on_db (refreshCallerLocksTx s (s_caseFold s) (hc_owner_uuid c) (lockWorktree s (hc_worktree c))
        (po_Changed out2) (hc_t_pre c) t) h2)"
    by (simp add: postPathsTx_def l)
  note pp = this [unfolded h1_def]
  let ?h' = "on_db (upd_calls (\<lambda>r. hc_call_id r = cid) (\<lambda>r. r\<lparr>hc_t_post := Some t, hc_post_missing := False\<rparr>))
       (on_db (refreshCallerLocksTx s (s_caseFold s) (hc_owner_uuid c) (lockWorktree s (hc_worktree c))
        (po_Changed out2) (hc_t_pre c) t) h2)"
  let ?out = "out2\<lparr>po_Recorded := True, po_Changed := sort (po_Changed out2), po_Acted := sort (po_Acted out2)\<rparr>"
  have "RecordCallPost s i cid t obs h =
      (if \<not> io_begin i then Inl ErrBegin else if \<not> io_commit i then Inl ErrCommit else Inr (?h', ?out))"
    unfolding RecordCallPost_def c(1) Let_def option.case pp using c(2) by simp
  with assms(1) have r: "h' = ?h'" "out = ?out" by (simp_all split: if_splits)
  show thesis
    by (rule that [of c h1 out2 h2]) (use find_call [OF c(1)] c(2) f1 l r in \<open>simp add: post_run_def frame_simps\<close>)
qed

lemma RecordCallPost_ok:
  assumes "RecordCallPost s i cid t obs h = Inr (h', out)" "hook_ok h"
  shows "hook_ok h'" "\<And>k. pathSeqAt h k \<le> pathSeqAt h' k"
proof -
  have "hook_ok h' \<and> (\<forall>k. pathSeqAt h k \<le> pathSeqAt h' k)"
  proof (cases "po_Recorded out")
    case False
    then have "h' = h"
      using assms(1) by (auto simp: RecordCallPost_def Let_def split: if_splits option.splits sum.splits)
    with assms(2) show ?thesis by simp
  next
    case True
    obtain c h1 out2 h2 where "post_run s cid t obs h h' out c h1 out2 h2" by (rule RecordCallPost_Inr [OF assms(1) True])
    then have r: "c \<in> set (hk_calls h)" "hc_call_id c = cid" "hk_calls h1 = hk_calls h" "hk_paths h1 = hk_paths h"
      "hk_path_seq h1 = hk_path_seq h"
      "post_loop s cid (hc_owner_uuid c) (hc_worktree c) obs (recordedPathsTx h1 cid) t (no_outcome, h1) = Inr (out2, h2)"
      "hk_calls h' = map (\<lambda>r. if hc_call_id r = cid then r\<lparr>hc_t_post := Some t, hc_post_missing := False\<rparr> else r) (hk_calls h2)"
      "hk_paths h' = hk_paths h2" "hk_path_seq h' = hk_path_seq h2" unfolding post_run_def by blast+
    have h1: "hook_ok h1" by (rule hook_ok_cong [OF assms(2) r(3-5)])
    have c: "c \<in> set (hk_calls h1)" using r(1,3) by simp
    note l = post_loop_ok [OF r(6) h1 c r(2) refl prev_ok_recorded]
    have "hook_ok h'" by (rule hook_ok_map_calls [OF conjunct1 [OF l] r(7-9)]) auto
    moreover have "pathSeqAt h k \<le> pathSeqAt h' k" for k
      using l unfolding post_moved_def pathSeqAt_cong [OF r(5)] pathSeqAt_cong [OF r(9)] by blast
    ultimately show ?thesis by blast
  qed
  then show "hook_ok h'" "\<And>k. pathSeqAt h k \<le> pathSeqAt h' k" by blast+
qed

end
