(* ===== verification/Spanning.thy ===== *)
theory Spanning
  imports Contention
begin

text \<open>
  The properties of the call records and of the drift layer: who is named for a change, how changes
  are numbered, what a repeated hook does, and what sweeps, deliveries and retention keep.
\<close>

subsection \<open>Who is named\<close>

lemma no_outcome_events [simp]: "po_Events no_outcome = []" "\<not> po_Recorded no_outcome" "po_Changed no_outcome = []"
  by (simp_all add: no_outcome_def)

lemma RecordCallPost_repeat:
  "RecordCallPost s i cid t obs h = Inr (h', out) \<Longrightarrow> \<not> po_Recorded out \<Longrightarrow> h' = h \<and> out = no_outcome"
  by (auto simp: RecordCallPost_def Let_def split: if_splits option.splits sum.splits)

text \<open>An event of a post, with the tables of its step.\<close>

lemma post_event:
  assumes "RecordCallPost s i cid t obs h = Inr (h', out)" "hook_ok h" "ev \<in> set (po_Events out)"
  obtains c xs ob ys h0 h1 h2 where "c \<in> set (hk_calls h)" "hc_call_id c = cid" "hc_t_post c = None"
    "obs = xs @ ob # ys" "post_moved cid h h1" "post_elsewhere (hs_Path ` set xs) h0 h1"
    "hk_path_seq h0 = hk_path_seq h" "hk_paths h0 = hk_paths h"
    "new_event h1 cid (hc_owner_uuid c) (hc_worktree c) ob (recordedPathsTx h0 cid (hs_Path ob)) ev h2"
    "post_elsewhere (hs_Path ` set ys) h2 h'" "\<And>eid who. owed h2 eid who \<Longrightarrow> owed h' eid who"
proof -
  have "po_Recorded out" using RecordCallPost_repeat [OF assms(1)] assms(3) by (metis list.set(1) empty_iff no_outcome_events(1))
  from RecordCallPost_Inr [OF assms(1) this] obtain c h0 out2 h4 where "post_run s cid t obs h h' out c h0 out2 h4" .
  then have r: "c \<in> set (hk_calls h)" "hc_call_id c = cid" "hc_t_post c = None" "hk_calls h0 = hk_calls h"
    "db_locks (hk_db h0) = db_locks (hk_db h)" "hk_paths h0 = hk_paths h" "hk_path_seq h0 = hk_path_seq h"
    "post_loop s cid (hc_owner_uuid c) (hc_worktree c) obs (recordedPathsTx h0 cid) t (no_outcome, h0) = Inr (out2, h4)"
    "po_Events out = po_Events out2" "hk_paths h' = hk_paths h4" "hk_path_seq h' = hk_path_seq h4"
    "hk_reports h' = hk_reports h4" "hk_observed h' = hk_observed h4" unfolding post_run_def by blast+
  have h0: "hook_ok h0" by (rule hook_ok_cong [OF assms(2) r(4,6,7)])
  have c: "c \<in> set (hk_calls h0)" using r(1,4) by simp
  have ev: "ev \<in> set (po_Events out2)" "ev \<notin> set (po_Events no_outcome)" using assms(3) r(9) by simp_all
  from post_loop_event_at [OF r(8) h0 c r(2) refl prev_ok_recorded ev] obtain xs ob ys h1 h2 where
    e: "obs = xs @ ob # ys" "post_moved cid h0 h1" "post_elsewhere (hs_Path ` set xs) h0 h1"
      "new_event h1 cid (hc_owner_uuid c) (hc_worktree c) ob (recordedPathsTx h0 cid (hs_Path ob)) ev h2"
      "post_elsewhere (hs_Path ` set ys) h2 h4" "\<forall>eid who. owed h2 eid who \<longrightarrow> owed h4 eid who" by blast
  have "post_moved cid h h1"
    using e(2) unfolding post_moved_def r(4-6) pathSeqAt_cong [OF r(7)] by simp
  moreover have "post_elsewhere (hs_Path ` set ys) h2 h'"
    using e(5) unfolding post_elsewhere_def r(10,11,13) .
  moreover have "owed h2 eid who \<Longrightarrow> owed h' eid who" for eid who
    using e(6) owed_cong [OF r(12)] by simp
  ultimately show thesis by (intro that [OF r(1-3) e(1) _ e(3) r(7,6) e(4)])
qed

text \<open>C20: Nobody who overlapped is exonerated, and nobody else is accused. The spanners of a freshly
  numbered change are exactly the calls of other owners that are still open in the same checkout and
  recorded the path at the same lock generation; each such owner is left a report.\<close>

theorem fresh_transition_spanners:
  assumes "hook_ok h" "RecordCallPost s i cid t obs h = Inr (h', out)" "ev \<in> set (po_Events out)"
    and "pathSeqAt h (te_Path ev, te_Worktree ev, te_EpochPre ev) < te_Seq ev"
  shows "set (te_Spanners ev) = (\<lambda>c. \<lparr>sp_CallID = hc_call_id c, sp_Owner = hc_owner_uuid c\<rparr>) `
      {c \<in> set (hk_calls h). call_open c \<and> hc_worktree c = te_Worktree ev \<and> hc_owner_uuid c \<noteq> te_Observer ev \<and>
         (\<exists>p \<in> set (hk_paths h). cp_call_id p = hc_call_id c \<and> cp_path p = te_Path ev \<and> cp_epoch_pre p = te_EpochPre ev)} \<and>
    (\<forall>sp \<in> set (te_Spanners ev). sp_Owner sp \<noteq> [] \<longrightarrow> owed h' (te_EventID ev) (sp_Owner sp))"
proof -
  obtain c0 ob h0 h1 h2 where e: "c0 \<in> set (hk_calls h)" "hc_call_id c0 = cid" "post_moved cid h h1"
    "new_event h1 cid (hc_owner_uuid c0) (hc_worktree c0) ob (recordedPathsTx h0 cid (hs_Path ob)) ev h2"
    "\<And>eid who. owed h2 eid who \<Longrightarrow> owed h' eid who"
    by (rule post_event [OF assms(2,1,3)]) (rule that, assumption+)
  from e(4) obtain h3 where n: "te_Observer ev = hc_owner_uuid c0" "te_Worktree ev = hc_worktree c0" "post_moved cid h1 h3"
    "te_Spanners ev = spannersTx h3 (te_Path ev) (hc_worktree c0) (te_EpochPre ev) (te_Seq ev) (hc_owner_uuid c0)"
    "\<forall>sp \<in> set (te_Spanners ev). sp_Owner sp \<noteq> [] \<longrightarrow> owed h2 (te_EventID ev) (sp_Owner sp)"
    unfolding new_event_def by blast
  have m: "hk_calls h3 = hk_calls h" "\<And>p. cp_call_id p \<noteq> cid \<Longrightarrow> p \<in> set (hk_paths h3) \<longleftrightarrow> p \<in> set (hk_paths h)"
    using post_moved_trans [OF e(3) n(3)] by (simp_all add: post_moved_def)
  have other: "hc_call_id c \<noteq> cid" if "c \<in> set (hk_calls h)" "hc_owner_uuid c \<noteq> hc_owner_uuid c0" for c
    using that call_unique [OF assms(1) that(1) e(1)] e(2) by auto
  have "spans (te_Path ev) (hc_worktree c0) (te_EpochPre ev) (te_Seq ev) (hc_owner_uuid c0) p c \<longleftrightarrow>
      cp_call_id p = hc_call_id c \<and> call_open c \<and> hc_worktree c = te_Worktree ev \<and> hc_owner_uuid c \<noteq> te_Observer ev \<and>
      cp_path p = te_Path ev \<and> cp_epoch_pre p = te_EpochPre ev"
    if "p \<in> set (hk_paths h)" "c \<in> set (hk_calls h)" for p c
  proof -
    have "hc_call_id c = cp_call_id p \<longrightarrow> interval_ok h p c" using assms(1) that by (simp add: hook_ok_def)
    with assms(4) show ?thesis
      by (auto simp: spans_def interval_ok_def Let_def n(1,2) split: option.splits)
  qed
  then have "sp \<in> set (te_Spanners ev) \<longleftrightarrow>
      (\<exists>c \<in> set (hk_calls h). \<exists>p \<in> set (hk_paths h). cp_call_id p = hc_call_id c \<and> call_open c \<and>
         hc_worktree c = te_Worktree ev \<and> hc_owner_uuid c \<noteq> te_Observer ev \<and> cp_path p = te_Path ev \<and>
         cp_epoch_pre p = te_EpochPre ev \<and> sp = \<lparr>sp_CallID = hc_call_id c, sp_Owner = hc_owner_uuid c\<rparr>)" for sp
    unfolding n(4) spannersTx_mem m(1)
    using m(2) other by (auto simp: spans_def n(1,2)) (metis (no_types, lifting))+
  moreover have "\<forall>sp \<in> set (te_Spanners ev). sp_Owner sp \<noteq> [] \<longrightarrow> owed h' (te_EventID ev) (sp_Owner sp)"
    using n(5) e(5) by blast
  ultimately show ?thesis unfolding set_eq_iff image_iff bex_simps mem_Collect_eq by blast
qed

text \<open>What a whole post does to the rows and calls that are not its own.\<close>

lemma RecordCallPost_others:
  assumes "RecordCallPost s i cid t obs h = Inr (h', out)" "hook_ok h"
  shows "cp_call_id p \<noteq> cid \<Longrightarrow> p \<in> set (hk_paths h') \<longleftrightarrow> p \<in> set (hk_paths h)"
    "c \<in> set (hk_calls h) \<Longrightarrow> \<exists>c' \<in> set (hk_calls h'). hc_call_id c' = hc_call_id c \<and> hc_owner_uuid c' = hc_owner_uuid c \<and>
       hc_worktree c' = hc_worktree c \<and> (hc_call_id c \<noteq> cid \<longrightarrow> c' = c)"
proof -
  have "(\<forall>p. cp_call_id p \<noteq> cid \<longrightarrow> (p \<in> set (hk_paths h') \<longleftrightarrow> p \<in> set (hk_paths h))) \<and>
    (hk_calls h' = hk_calls h \<or>
     hk_calls h' = map (\<lambda>r. if hc_call_id r = cid then r\<lparr>hc_t_post := Some t, hc_post_missing := False\<rparr> else r) (hk_calls h))"
  proof (cases "po_Recorded out")
    case False
    then show ?thesis using RecordCallPost_repeat [OF assms(1)] by simp
  next
    case True
    from RecordCallPost_Inr [OF assms(1) True] obtain c0 h0 out2 h4 where "post_run s cid t obs h h' out c0 h0 out2 h4" .
    then have r: "c0 \<in> set (hk_calls h)" "hc_call_id c0 = cid" "hk_calls h0 = hk_calls h" "hk_paths h0 = hk_paths h"
      "hk_path_seq h0 = hk_path_seq h"
      "post_loop s cid (hc_owner_uuid c0) (hc_worktree c0) obs (recordedPathsTx h0 cid) t (no_outcome, h0) = Inr (out2, h4)"
      "hk_calls h' = map (\<lambda>r. if hc_call_id r = cid then r\<lparr>hc_t_post := Some t, hc_post_missing := False\<rparr> else r) (hk_calls h4)"
      "hk_paths h' = hk_paths h4" unfolding post_run_def by blast+
    have c: "c0 \<in> set (hk_calls h0)" using r(1,3) by simp
    from post_loop_ok [OF r(6) hook_ok_cong [OF assms(2) r(3-5)] c r(2) refl prev_ok_recorded]
    show ?thesis unfolding post_moved_def r(7,8) by (simp add: r(3,4))
  qed
  note a = this
  show "cp_call_id p \<noteq> cid \<Longrightarrow> p \<in> set (hk_paths h') \<longleftrightarrow> p \<in> set (hk_paths h)" using a by blast
  show "\<exists>c' \<in> set (hk_calls h'). hc_call_id c' = hc_call_id c \<and> hc_owner_uuid c' = hc_owner_uuid c \<and>
       hc_worktree c' = hc_worktree c \<and> (hc_call_id c \<noteq> cid \<longrightarrow> c' = c)" if "c \<in> set (hk_calls h)"
    using a
  proof (elim conjE disjE)
    assume "hk_calls h' = map (\<lambda>r. if hc_call_id r = cid then r\<lparr>hc_t_post := Some t, hc_post_missing := False\<rparr> else r) (hk_calls h)"
    with that show ?thesis
      by (intro bexI [of _ "if hc_call_id c = cid then c\<lparr>hc_t_post := Some t, hc_post_missing := False\<rparr> else c"]) auto
  qed (use that in auto)
qed

lemma recordedPathsTx_Some:
  assumes "hook_ok h" "p \<in> set (hk_paths h)" "hk_paths h0 = hk_paths h" "cp_call_id p = cid" "cp_path p = path"
  shows "recordedPathsTx h0 cid path = Some p"
proof -
  have "\<exists>x \<in> set (rev (hk_paths h0)). cp_call_id x = cid \<and> cp_path x = path" using assms by auto
  then obtain x where x: "recordedPathsTx h0 cid path = Some x"
    unfolding recordedPathsTx_def by (metis (mono_tags, lifting) find_None_iff option.exhaust)
  then have "x \<in> set (hk_paths h)" "cp_call_id x = cid" "cp_path x = path"
    using assms(3) by (auto simp: recordedPathsTx_def dest!: find_SomeD)
  with path_unique [OF assms(1) _ assms(2), of x] assms(4,5) x show ?thesis by (simp add: path_pk_def)
qed

text \<open>A post over distinct paths leaves a path's counter and row as its own step left them.\<close>

lemma post_event_settled:
  assumes "RecordCallPost s i cid t obs h = Inr (h', out)" "hook_ok h" "ev \<in> set (po_Events out)" "distinct (map hs_Path obs)"
  shows "numbered h' (te_Path ev, te_Worktree ev, te_EpochPre ev) (te_Seq ev) (te_DigestPost ev)"
    "\<exists>q \<in> set (hk_paths h'). cp_call_id q = cid \<and> cp_path q = te_Path ev \<and> cp_epoch_pre q = te_EpochPre ev \<and>
       cp_seq_post q = Some (te_Seq ev) \<and> cp_seq_pre q < te_Seq ev"
    "\<exists>c \<in> set (hk_calls h). hc_call_id c = cid \<and> hc_owner_uuid c = te_Observer ev \<and> hc_worktree c = te_Worktree ev"
proof -
  obtain c xs ob ys h0 h1 h2 where e: "c \<in> set (hk_calls h)" "hc_call_id c = cid" "obs = xs @ ob # ys"
    "new_event h1 cid (hc_owner_uuid c) (hc_worktree c) ob (recordedPathsTx h0 cid (hs_Path ob)) ev h2"
    "post_elsewhere (hs_Path ` set ys) h2 h'"
    by (rule post_event [OF assms(1-3)]) (rule that, assumption+)
  from e(4) obtain q where n: "te_Path ev = hs_Path ob" "te_Observer ev = hc_owner_uuid c" "te_Worktree ev = hc_worktree c"
    "numbered h2 (te_Path ev, hc_worktree c, te_EpochPre ev) (te_Seq ev) (te_DigestPost ev)"
    "q \<in> set (hk_paths h2)" "cp_call_id q = cid" "cp_path q = te_Path ev" "cp_epoch_pre q = te_EpochPre ev"
    "cp_seq_post q = Some (te_Seq ev)" "cp_seq_pre q < te_Seq ev"
    unfolding new_event_def by blast
  have "hs_Path ob \<notin> hs_Path ` set ys" using assms(4) e(3) by auto
  with e(5) n(1,7) have f: "hk_path_seq h' (te_Path ev, w, E) = hk_path_seq h2 (te_Path ev, w, E)"
    "q \<in> set (hk_paths h') \<longleftrightarrow> q \<in> set (hk_paths h2)" for w E
    by (simp_all add: post_elsewhere_def)
  show "numbered h' (te_Path ev, te_Worktree ev, te_EpochPre ev) (te_Seq ev) (te_DigestPost ev)"
    using n(3,4) numbered_cong [OF f(1)] by simp
  show "\<exists>q \<in> set (hk_paths h'). cp_call_id q = cid \<and> cp_path q = te_Path ev \<and> cp_epoch_pre q = te_EpochPre ev \<and>
       cp_seq_post q = Some (te_Seq ev) \<and> cp_seq_pre q < te_Seq ev"
    using f(2) n(5-10) by blast
  show "\<exists>c \<in> set (hk_calls h). hc_call_id c = cid \<and> hc_owner_uuid c = te_Observer ev \<and> hc_worktree c = te_Worktree ev"
    using e(1,2) n(2,3) by auto
qed

lemma post_step_at:
  assumes "RecordCallPost s i cid t obs h = Inr (h', out)" "hook_ok h" "po_Recorded out" "ob \<in> set obs" "distinct (map hs_Path obs)"
    and "c \<in> set (hk_calls h)" "hc_call_id c = cid" "p \<in> set (hk_paths h)" "cp_call_id p = cid" "cp_path p = hs_Path ob"
    and "pathChanged (Some p) ob"
  obtains ev h1 h2 where "ev \<in> set (po_Events out)" "new_event h1 cid (hc_owner_uuid c) (hc_worktree c) ob (Some p) ev h2"
    "post_moved cid h h1" "\<And>w E. hk_path_seq h1 (hs_Path ob, w, E) = hk_path_seq h (hs_Path ob, w, E)"
proof -
  from RecordCallPost_Inr [OF assms(1,3)] obtain c0 h0 out2 h4 where "post_run s cid t obs h h' out c0 h0 out2 h4" .
  then have r: "c0 \<in> set (hk_calls h)" "hc_call_id c0 = cid" "hk_calls h0 = hk_calls h"
    "db_locks (hk_db h0) = db_locks (hk_db h)" "hk_paths h0 = hk_paths h" "hk_path_seq h0 = hk_path_seq h"
    "post_loop s cid (hc_owner_uuid c0) (hc_worktree c0) obs (recordedPathsTx h0 cid) t (no_outcome, h0) = Inr (out2, h4)"
    "po_Events out = po_Events out2" unfolding post_run_def by blast+
  have c0: "c0 = c" using call_unique [OF assms(2) r(1) assms(6)] r(2) assms(7) by simp
  have prev: "recordedPathsTx h0 cid (hs_Path ob) = Some p"
    by (rule recordedPathsTx_Some [OF assms(2,8) r(5) assms(9,10)])
  have c: "c0 \<in> set (hk_calls h0)" using r(1,3) by simp
  obtain xs ys where sp: "obs = xs @ ob # ys" using assms(4) by (auto simp: in_set_conv_decomp)
  obtain out1 h1 out3 h2 where l: "post_loop s cid (hc_owner_uuid c0) (hc_worktree c0) ys (recordedPathsTx h0 cid) t (out3, h2) = Inr (out2, h4)"
    "post_moved cid h0 h1" "post_elsewhere (hs_Path ` set xs) h0 h1"
    "step_event h1 cid (hc_owner_uuid c0) (hc_worktree c0) t ob (Some p) out1 out3 h2"
    by (rule post_loop_at [OF r(7) [unfolded sp] hook_ok_cong [OF assms(2) r(3,5,6)] c r(2) refl prev_ok_recorded])
      (rule that, assumption+, simp add: prev)
  obtain ev where ev: "po_Events out3 = po_Events out1 @ [ev]" "new_event h1 cid (hc_owner_uuid c0) (hc_worktree c0) ob (Some p) ev h2"
    using l(4) assms(11) by (auto simp: step_event_def)
  have "ev \<in> set (po_Events out)"
    using post_loop_events_grow [OF l(1)] ev(1) r(8) by auto
  moreover have "post_moved cid h h1"
    using l(2) unfolding post_moved_def r(3-5) pathSeqAt_cong [OF r(6)] by simp
  moreover have "hk_path_seq h1 (hs_Path ob, w, E) = hk_path_seq h (hs_Path ob, w, E)" for w E
  proof -
    have "hs_Path ob \<notin> hs_Path ` set xs" using assms(5) sp by auto
    with l(3) show ?thesis by (simp add: post_elsewhere_def r(6))
  qed
  moreover have "new_event h1 cid (hc_owner_uuid c) (hc_worktree c) ob (Some p) ev h2" using ev(2) c0 by simp
  ultimately show thesis by (intro that) assumption+
qed

text \<open>C21: One physical change gets one number. When a call \<open>b\<close> has numbered a change and the post of an
  overlapping call \<open>a\<close> then finds the path in that very state, \<open>a\<close> files its own event under the same
  number, and names \<open>b\<close> as having spanned it although \<open>b\<close> has already posted.\<close>

theorem one_change_one_number:
  assumes "hook_ok h" "RecordCallPost s i b tB obsB h = Inr (h1, outB)" "distinct (map hs_Path obsB)" "evB \<in> set (po_Events outB)"
    and "RecordCallPost s j a tA obsA h1 = Inr (h2, outA)" "po_Recorded outA" "distinct (map hs_Path obsA)"
    and "c \<in> set (hk_calls h)" "hc_call_id c = a" "hc_worktree c = te_Worktree evB" "hc_owner_uuid c \<noteq> te_Observer evB"
    and "p \<in> set (hk_paths h)" "cp_call_id p = a" "cp_path p = te_Path evB" "cp_epoch_pre p = te_EpochPre evB"
    and "cp_seq_pre p < te_Seq evB"
    and "ob \<in> set obsA" "hs_Path ob = te_Path evB" "hs_Digest ob = te_DigestPost evB" "cp_digest_pre p \<noteq> hs_Digest ob"
  shows "\<exists>evA \<in> set (po_Events outA). te_Path evA = te_Path evB \<and> te_EpochPre evA = te_EpochPre evB \<and>
    te_Seq evA = te_Seq evB \<and> \<lparr>sp_CallID = b, sp_Owner = te_Observer evB\<rparr> \<in> set (te_Spanners evA)"
proof -
  have ok1: "hook_ok h1" by (rule RecordCallPost_ok(1) [OF assms(2,1)])
  note B = post_event_settled [OF assms(2,1,4,3)]
  from B(3) obtain cb where cb: "cb \<in> set (hk_calls h)" "hc_call_id cb = b" "hc_owner_uuid cb = te_Observer evB"
    "hc_worktree cb = te_Worktree evB" by blast
  have ab: "a \<noteq> b" using call_unique [OF assms(1,8) cb(1)] assms(9,11) cb(2,3) by auto
  have p1: "p \<in> set (hk_paths h1)" using RecordCallPost_others(1) [OF assms(2,1), of p] assms(12,13) ab by simp
  have c1: "c \<in> set (hk_calls h1)" using RecordCallPost_others(2) [OF assms(2,1,8)] assms(9) ab by auto
  obtain cb' where cb': "cb' \<in> set (hk_calls h1)" "hc_call_id cb' = b" "hc_owner_uuid cb' = te_Observer evB"
    "hc_worktree cb' = te_Worktree evB"
    using RecordCallPost_others(2) [OF assms(2,1) cb(1)] cb(2-4) by auto
  obtain q where q: "q \<in> set (hk_paths h1)" "cp_call_id q = b" "cp_path q = te_Path evB" "cp_epoch_pre q = te_EpochPre evB"
    "cp_seq_post q = Some (te_Seq evB)" "cp_seq_pre q < te_Seq evB" using B(2) by blast
  have ch: "pathChanged (Some p) ob" using assms(20) by (simp add: pathChanged_def Let_def)
  have pp: "cp_path p = hs_Path ob" using assms(14,18) by simp
  obtain evA ha hb where A: "evA \<in> set (po_Events outA)" "new_event ha a (hc_owner_uuid c) (hc_worktree c) ob (Some p) evA hb"
    "post_moved a h1 ha" "\<And>w E. hk_path_seq ha (hs_Path ob, w, E) = hk_path_seq h1 (hs_Path ob, w, E)"
    by (rule post_step_at [OF assms(5) ok1 assms(6,17,7) c1 assms(9) p1 assms(13) pp ch]) (rule that, assumption+)
  note ne = A(2) [unfolded new_event_def prev_epoch_def option.case]
  from ne have n12: "te_Path evA = hs_Path ob" "te_EpochPre evA = cp_epoch_pre p" by blast+
  from ne obtain h3 where n: "post_moved a ha h3"
    "te_Spanners evA = spannersTx h3 (te_Path evA) (hc_worktree c) (te_EpochPre evA) (te_Seq evA) (hc_owner_uuid c)" by blast
  have nm: "numbered ha (te_Path evA, hc_worktree c, te_EpochPre evA) m (hs_Digest ob) \<Longrightarrow> cp_seq_pre p < m \<Longrightarrow> te_Seq evA = m" for m
    using ne by blast
  have "numbered ha (te_Path evA, hc_worktree c, te_EpochPre evA) (te_Seq evB) (hs_Digest ob)"
    using B(1) unfolding n12 numbered_cong [OF A(4)] unfolding assms(10,15,18,19) .
  then have seq: "te_Seq evA = te_Seq evB" by (rule nm [OF _ assms(16)])
  have m: "hk_calls h3 = hk_calls h1" "q \<in> set (hk_paths h3)"
    using post_moved_trans [OF A(3) n(1)] q(1,2) ab by (simp_all add: post_moved_def)
  have "spans (te_Path evA) (hc_worktree c) (te_EpochPre evA) (te_Seq evA) (hc_owner_uuid c) q cb'"
    using q cb' n12 seq assms(10,11,15,18) by (simp add: spans_def)
  then have "\<lparr>sp_CallID = b, sp_Owner = te_Observer evB\<rparr> \<in> set (te_Spanners evA)"
    unfolding n(2) spannersTx_mem using m(1) m(2) cb' q(2) by force
  with A(1) n12 seq assms(15,18) show ?thesis by force
qed

subsection \<open>An overlap\<close>

text \<open>\<open>al\<close> and \<open>bo\<close> each open a call on \<open>f.go\<close> in state \<open>d0\<close>; \<open>bo\<close> posts it as \<open>d1\<close>, then \<open>al\<close> does.\<close>

definition ex_call :: "string \<Rightarrow> AgentUUID \<Rightarrow> time \<Rightarrow> HookCall" where
  "ex_call cid owner t =
     \<lparr>hkc_CallID = cid, hkc_OwnerUUID = owner, hkc_SessionUUID = ''s-'' @ owner, hkc_ToolName = ''Edit'', hkc_TPre = t,
      hkc_TPost = None, hkc_DeadAt = None, hkc_PostMissing = False, hkc_Worktree = ''/r''\<rparr>"

definition ex_seen :: "string \<Rightarrow> HookPathState" where
  "ex_seen dg =
     \<lparr>hs_Path = ''f.go'', hs_Locked = True, hs_Declared = True, hs_Epoch = 0, hs_Holder = ''al'', hs_Digest = dg,
      hs_Stat = ''t'', hs_SeqAtObserve = 0, hs_SeqAtObserveKnown = True\<rparr>"

definition ex_hooks :: hook_db where
  "ex_hooks = \<lparr>hk_db = empty_db, hk_paths = [], hk_path_seq = (\<lambda>_. None), hk_observed = (\<lambda>_. None),
     hk_tree_events = [], hk_spanners = [], hk_reports = []\<rparr>"

definition ex_opened :: hook_db where
  "ex_opened =
     ex_hooks\<lparr>hk_db := empty_db\<lparr>db_hook_calls := [call_row_of (ex_call ''k-a'' ''al'' 1), call_row_of (ex_call ''k-b'' ''bo'' 2)]\<rparr>,
       hk_paths := [pre_row (ex_call ''k-a'' ''al'' 1) (ex_seen ''d0'') ex_hooks,
                    pre_row (ex_call ''k-b'' ''bo'' 2) (ex_seen ''d0'') ex_hooks]\<rparr>"

definition ex_post_b :: "store_error + hook_db \<times> PostOutcome" where
  "ex_post_b = RecordCallPost ex_store (ex_io 3) ''k-b'' 3 [ex_seen ''d1''] ex_opened"

definition ex_post_a :: "store_error + hook_db \<times> PostOutcome" where
  "ex_post_a = (case ex_post_b of Inl er \<Rightarrow> Inl er
     | Inr (h, _) \<Rightarrow> RecordCallPost ex_store (ex_io 4) ''k-a'' 4 [ex_seen ''d1''] h)"

lemma ex_opened_ok: "hook_ok ex_opened"
  by (simp add: hook_ok_def interval_ok_def ex_opened_def ex_hooks_def call_row_of_def ex_call_def pre_row_def
      ex_seen_def path_pk_def pathSeqAt_def Let_def)

definition summary :: "TreeEvent \<Rightarrow> string \<times> int \<times> int \<times> string \<times> AgentUUID \<times> string \<times> TreeSpanner list" where
  "summary e = (te_Path e, te_EpochPre e, te_Seq e, te_DigestPost e, te_Observer e, te_Worktree e, te_Spanners e)"

lemma ex_posts_eval:
  "(case ex_post_b of Inl _ \<Rightarrow> None | Inr (_, b) \<Rightarrow>
      (case ex_post_a of Inl _ \<Rightarrow> None | Inr (_, a) \<Rightarrow> Some (map summary (po_Events b), po_Recorded a))) =
   Some ([(''f.go'', 0, 1, ''d1'', ''bo'', ''/r'', [\<lparr>sp_CallID = ''k-a'', sp_Owner = ''al''\<rparr>])], True)"
  by code_simp

lemma ex_posts:
  obtains h1 outB h2 outA evB where "ex_post_b = Inr (h1, outB)" "ex_post_a = Inr (h2, outA)"
    "evB \<in> set (po_Events outB)" "te_Path evB = ''f.go''" "te_EpochPre evB = 0" "te_Seq evB = 1"
    "te_DigestPost evB = ''d1''" "te_Observer evB = ''bo''" "te_Worktree evB = ''/r''"
    "te_Spanners evB = [\<lparr>sp_CallID = ''k-a'', sp_Owner = ''al''\<rparr>]" "po_Recorded outA"
    "RecordCallPost ex_store (ex_io 3) ''k-b'' 3 [ex_seen ''d1''] ex_opened = Inr (h1, outB)"
    "RecordCallPost ex_store (ex_io 4) ''k-a'' 4 [ex_seen ''d1''] h1 = Inr (h2, outA)"
proof -
  obtain h1 outB h2 outA where r: "ex_post_b = Inr (h1, outB)" "ex_post_a = Inr (h2, outA)" "po_Recorded outA"
    "map summary (po_Events outB) = [(''f.go'', 0, 1, ''d1'', ''bo'', ''/r'', [\<lparr>sp_CallID = ''k-a'', sp_Owner = ''al''\<rparr>])]"
    using ex_posts_eval by (auto split: sum.splits)
  from r(4) obtain evB where "po_Events outB = [evB]"
    "summary evB = (''f.go'', 0, 1, ''d1'', ''bo'', ''/r'', [\<lparr>sp_CallID = ''k-a'', sp_Owner = ''al''\<rparr>])" by auto
  moreover have "RecordCallPost ex_store (ex_io 3) ''k-b'' 3 [ex_seen ''d1''] ex_opened = Inr (h1, outB)"
    using r(1) by (simp only: ex_post_b_def)
  moreover have "RecordCallPost ex_store (ex_io 4) ''k-a'' 4 [ex_seen ''d1''] h1 = Inr (h2, outA)"
    using r(2) unfolding ex_post_a_def r(1) by simp
  ultimately show thesis using r(1-3) by (intro that) (auto simp: summary_def)
qed

theorem fresh_transition_spanners_witness:
  "\<exists>h' out ev. ex_post_b = Inr (h', out) \<and> ev \<in> set (po_Events out) \<and>
     set (te_Spanners ev) = {\<lparr>sp_CallID = ''k-a'', sp_Owner = ''al''\<rparr>} \<and>
     set (te_Spanners ev) = (\<lambda>c. \<lparr>sp_CallID = hc_call_id c, sp_Owner = hc_owner_uuid c\<rparr>) `
       {c \<in> set (hk_calls ex_opened). call_open c \<and> hc_worktree c = te_Worktree ev \<and> hc_owner_uuid c \<noteq> te_Observer ev \<and>
         (\<exists>p \<in> set (hk_paths ex_opened). cp_call_id p = hc_call_id c \<and> cp_path p = te_Path ev \<and> cp_epoch_pre p = te_EpochPre ev)} \<and>
     owed h' (te_EventID ev) ''al''"
proof -
  obtain h1 outB ev where e: "ex_post_b = Inr (h1, outB)" "ev \<in> set (po_Events outB)" "te_Path ev = ''f.go''" "te_EpochPre ev = 0"
    "te_Seq ev = 1" "te_Worktree ev = ''/r''" "te_Spanners ev = [\<lparr>sp_CallID = ''k-a'', sp_Owner = ''al''\<rparr>]"
    "RecordCallPost ex_store (ex_io 3) ''k-b'' 3 [ex_seen ''d1''] ex_opened = Inr (h1, outB)"
    by (rule ex_posts)
  have "pathSeqAt ex_opened (te_Path ev, te_Worktree ev, te_EpochPre ev) < te_Seq ev"
    by (simp add: e pathSeqAt_def ex_opened_def ex_hooks_def)
  note t = fresh_transition_spanners [OF ex_opened_ok e(8,2) this]
  have "owed h1 (te_EventID ev) ''al''" using conjunct2 [OF t] e(7) by simp
  then show ?thesis using e(1,2,7) conjunct1 [OF t] by (intro exI [of _ h1] exI [of _ outB] exI [of _ ev]) simp
qed

theorem one_change_one_number_witness:
  "\<exists>h' out ev. ex_post_a = Inr (h', out) \<and> ev \<in> set (po_Events out) \<and> te_Path ev = ''f.go'' \<and> te_Seq ev = 1 \<and>
     \<lparr>sp_CallID = ''k-b'', sp_Owner = ''bo''\<rparr> \<in> set (te_Spanners ev)"
proof -
  obtain h1 outB h2 outA ev where e: "ex_post_a = Inr (h2, outA)" "ev \<in> set (po_Events outB)" "te_Path ev = ''f.go''"
    "te_EpochPre ev = 0" "te_Seq ev = 1" "te_DigestPost ev = ''d1''" "te_Observer ev = ''bo''" "te_Worktree ev = ''/r''"
    "po_Recorded outA" "RecordCallPost ex_store (ex_io 3) ''k-b'' 3 [ex_seen ''d1''] ex_opened = Inr (h1, outB)"
    "RecordCallPost ex_store (ex_io 4) ''k-a'' 4 [ex_seen ''d1''] h1 = Inr (h2, outA)"
    by (rule ex_posts) (rule that, assumption+)
  note d = ex_opened_def ex_call_def call_row_of_def pre_row_def ex_seen_def Let_def ex_hooks_def
  have "\<exists>evA \<in> set (po_Events outA). te_Path evA = te_Path ev \<and> te_EpochPre evA = te_EpochPre ev \<and> te_Seq evA = te_Seq ev \<and>
      \<lparr>sp_CallID = ''k-b'', sp_Owner = te_Observer ev\<rparr> \<in> set (te_Spanners evA)"
    by (rule one_change_one_number [OF ex_opened_ok e(10) _ e(2,11,9), where c = "call_row_of (ex_call ''k-a'' ''al'' 1)"
          and p = "pre_row (ex_call ''k-a'' ''al'' 1) (ex_seen ''d0'') ex_hooks" and ob = "ex_seen ''d1''"])
      (simp_all add: e d pathSeqAt_def)
  with e(1,3,5,7) show ?thesis by auto
qed

end
