(* ===== verification/Sweeps.thy ===== *)
theory Sweeps
  imports Spanning
begin

text \<open>
  The pre-hook and the sweeps over the call records: what each writes, that none disturbs the
  intervals, and that abandoned calls end and are dropped.
\<close>

subsection \<open>The pre-hook\<close>

lemma pre_row_key: "path_pk (pre_row c ob h) = (hkc_CallID c, hs_Path ob)"
  by (simp add: pre_row_def path_pk_def Let_def)

lemma pre_row_cong: "hk_path_seq h1 = hk_path_seq h \<Longrightarrow> pre_row c ob h1 = pre_row c ob h"
  by (simp add: pre_row_def pathSeqAt_def)

lemma insert_path_eq:
  "insert_path r h = (if path_pk r \<in> path_pk ` set (hk_paths h) then Inl ErrConstraint else Inr (h\<lparr>hk_paths := hk_paths h @ [r]\<rparr>))"
proof -
  have "list_ex (\<lambda>p. cp_call_id p = cp_call_id r \<and> cp_path p = cp_path r) ps \<longleftrightarrow> path_pk r \<in> path_pk ` set ps" for ps
    by (induction ps) (auto simp: path_pk_def)
  then show ?thesis by (simp add: insert_path_def)
qed

definition new_keys :: "string \<Rightarrow> HookPathState list \<Rightarrow> hook_db \<Rightarrow> bool" where
  "new_keys cid obs h \<longleftrightarrow> distinct (map hs_Path obs) \<and> (\<forall>ob \<in> set obs. (cid, hs_Path ob) \<notin> path_pk ` set (hk_paths h))"

lemma pre_loop_eq:
  "pre_loop c obs h =
    (if new_keys (hkc_CallID c) obs h then Inr (h\<lparr>hk_paths := hk_paths h @ map (\<lambda>ob. pre_row c ob h) obs\<rparr>) else Inl ErrConstraint)"
proof (induction obs arbitrary: h)
  case (Cons ob obs)
  let ?h = "h\<lparr>hk_paths := hk_paths h @ [pre_row c ob h]\<rparr>"
  have row: "pre_row c x ?h = pre_row c x h" for x by (rule pre_row_cong) simp
  have "new_keys (hkc_CallID c) (ob # obs) h \<longleftrightarrow>
      (hkc_CallID c, hs_Path ob) \<notin> path_pk ` set (hk_paths h) \<and> new_keys (hkc_CallID c) obs ?h"
    by (auto simp: new_keys_def pre_row_key image_iff)
  then show ?case by (simp add: insert_path_eq pre_row_key Cons.IH row)
qed (simp add: new_keys_def)

text \<open>The pre-hook is exact. A known call id changes nothing, so a hook that fires twice opens one call;
  a new one gets its row and one row for each observed path, whose interval starts no later than the
  path's counter, and renews the caller's leases on the declared paths; a path named twice fails the
  whole transaction.\<close>

theorem RecordCallPre_exact:
  assumes "hook_ok h" "io_begin i" "io_commit i"
  shows "RecordCallPre s i c obs h =
    (if hkc_CallID c \<in> hc_call_id ` set (hk_calls h) then Inr (h, False)
     else if \<not> distinct (map hs_Path obs) then Inl ErrConstraint
     else Inr (on_db (refreshCallerLocksTx s (s_caseFold s) (hkc_OwnerUUID c) (lockWorktree s (hkc_Worktree c))
                        (declaredPaths obs) (hkc_TPre c) (hkc_TPre c))
                (on_db (\<lambda>d. d\<lparr>db_hook_calls := db_hook_calls d @ [call_row_of c]\<rparr>)
                   (h\<lparr>hk_paths := hk_paths h @ map (\<lambda>ob. pre_row c ob h) obs\<rparr>)), True))"
proof (cases "hkc_CallID c \<in> hc_call_id ` set (hk_calls h)")
  case False
  let ?h = "on_db (\<lambda>d. d\<lparr>db_hook_calls := db_hook_calls d @ [call_row_of c]\<rparr>) h"
  have "new_keys (hkc_CallID c) obs ?h \<longleftrightarrow> distinct (map hs_Path obs)"
    using assms(1) False by (auto simp: new_keys_def frame_simps path_pk_def hook_ok_def)
  moreover have "pre_row c ob ?h = pre_row c ob h" for ob by (rule pre_row_cong) (simp add: frame_simps)
  moreover have "?h\<lparr>hk_paths := x\<rparr> = on_db (\<lambda>d. d\<lparr>db_hook_calls := db_hook_calls d @ [call_row_of c]\<rparr>) (h\<lparr>hk_paths := x\<rparr>)" for x
    by (simp add: on_db_def)
  moreover have "\<not> list_ex (\<lambda>r. hc_call_id r = hkc_CallID c) (hk_calls h)" using False by (force simp: list_ex_iff)
  ultimately show ?thesis using False assms(2,3)
    by (simp add: RecordCallPre_def pre_loop_eq frame_simps)
next
  case True
  then have "list_ex (\<lambda>r. hc_call_id r = hkc_CallID c) (hk_calls h)" by (auto simp: list_ex_iff)
  with True assms(2) show ?thesis by (simp add: RecordCallPre_def)
qed

lemma RecordCallPre_io: "RecordCallPre s i c obs h = Inr (h', b) \<Longrightarrow> b \<Longrightarrow> io_begin i \<and> io_commit i"
  by (auto simp: RecordCallPre_def Let_def split: if_splits sum.splits)

lemma RecordCallPre_Inr:
  assumes "RecordCallPre s i c obs h = Inr (h', b)" "hook_ok h"
  obtains "h' = h" "\<not> b"
    | "b" "hkc_CallID c \<notin> hc_call_id ` set (hk_calls h)" "distinct (map hs_Path obs)"
      "hk_calls h' = hk_calls h @ [call_row_of c]" "hk_paths h' = hk_paths h @ map (\<lambda>ob. pre_row c ob h) obs"
      "hk_path_seq h' = hk_path_seq h" "hk_tree_events h' = hk_tree_events h" "hk_reports h' = hk_reports h"
      "hk_spanners h' = hk_spanners h" "hk_observed h' = hk_observed h"
proof (cases b)
  case False
  with assms(1) have "h' = h" by (auto simp: RecordCallPre_def Let_def split: if_splits sum.splits)
  from this False show thesis by (rule that(1))
next
  case True
  from RecordCallPre_io [OF assms(1) True] have io: "io_begin i" "io_commit i" by simp_all
  from assms(1) [unfolded RecordCallPre_exact [OF assms(2) io]] True show thesis
    by (auto simp: frame_simps split: if_splits intro!: that(2))
qed

lemma hook_ok_append:
  assumes "hook_ok h" "hk_calls h' = hk_calls h @ [c]" "hk_paths h' = hk_paths h @ rows" "hk_path_seq h' = hk_path_seq h"
    and "hc_call_id c \<notin> hc_call_id ` set (hk_calls h)" "distinct (map path_pk rows)"
    and rows: "\<And>r. r \<in> set rows \<Longrightarrow> cp_call_id r = hc_call_id c \<and> interval_ok h r c"
  shows "hook_ok h'"
proof -
  note ok = assms(1) [unfolded hook_ok_def]
  have i: "interval_ok h' p x \<longleftrightarrow> interval_ok h p x" for p x
    by (simp add: interval_ok_def pathSeqAt_def assms(4))
  have own: "cp_call_id p \<noteq> hc_call_id c" if "p \<in> set (hk_paths h)" for p using ok assms(5) that by metis
  have "path_pk ` set (hk_paths h) \<inter> path_pk ` set rows = {}"
    using own rows by (auto simp: path_pk_def)
  moreover have "interval_ok h p x" if "p \<in> set (hk_paths h) \<union> set rows" "x \<in> insert c (set (hk_calls h))" "hc_call_id x = cp_call_id p" for p x
    using that own rows assms(5) ok by (metis Un_iff image_eqI insert_iff)
  moreover have "cp_call_id p \<in> insert (hc_call_id c) (hc_call_id ` set (hk_calls h))" if "p \<in> set (hk_paths h) \<union> set rows" for p
    using that rows ok by blast
  ultimately show ?thesis using ok assms(5,6) by (simp add: hook_ok_def assms(2,3) i)
qed

lemma RecordCallPre_ok:
  assumes "RecordCallPre s i c obs h = Inr (h', b)" "hook_ok h"
  shows "hook_ok h'" "\<And>k. pathSeqAt h' k = pathSeqAt h k"
proof -
  show "pathSeqAt h' k = pathSeqAt h k" for k
    by (rule RecordCallPre_Inr [OF assms]) (simp_all add: pathSeqAt_def)
  show "hook_ok h'"
  proof (rule RecordCallPre_Inr [OF assms])
    assume "h' = h" with assms(2) show ?thesis by simp
  next
    assume r: "hkc_CallID c \<notin> hc_call_id ` set (hk_calls h)" "distinct (map hs_Path obs)"
      "hk_calls h' = hk_calls h @ [call_row_of c]" "hk_paths h' = hk_paths h @ map (\<lambda>ob. pre_row c ob h) obs"
      "hk_path_seq h' = hk_path_seq h"
    have pk: "map path_pk (map (\<lambda>ob. pre_row c ob h) obs) = map (Pair (hkc_CallID c)) (map hs_Path obs)"
      by (simp add: pre_row_key)
    have d: "distinct (map path_pk (map (\<lambda>ob. pre_row c ob h) obs))"
      unfolding pk using r(2) by (simp add: distinct_map inj_on_def)
    show ?thesis
      by (rule hook_ok_append [OF assms(2) r(3-5) _ d])
        (use r(1) in \<open>auto simp: call_row_of_def pre_row_def interval_ok_def Let_def\<close>)
  qed
qed

subsection \<open>A post that comes twice\<close>

text \<open>A post counts once. Once a call's post went through, any further post of the call, with whatever
  observations and at whatever time, changes no table and reports nothing.\<close>

theorem RecordCallPost_once:
  assumes "hook_ok h" "RecordCallPost s i cid t obs h = Inr (h', out)" "io_begin j"
  shows "RecordCallPost s' j cid t' obs' h' = Inr (h', no_outcome)"
proof -
  have ok: "hook_ok h'" by (rule RecordCallPost_ok(1) [OF assms(2,1)])
  have "\<exists>c \<in> set (hk_calls h'). hc_call_id c = cid \<and> hc_t_post c \<noteq> None"
  proof (cases "po_Recorded out")
    case False
    with RecordCallPost_repeat [OF assms(2)] have e: "h' = h" "out = no_outcome" by simp_all
    from assms(2) False obtain c where "find (\<lambda>c. hc_call_id c = cid) (hk_calls h) = Some c" "hc_t_post c \<noteq> None"
      by (auto simp: RecordCallPost_def Let_def split: if_splits option.splits sum.splits)
    then show ?thesis unfolding e by (auto dest!: find_SomeD)
  next
    case True
    obtain c h1 out2 h2 where "post_run s cid t obs h h' out c h1 out2 h2" by (rule RecordCallPost_Inr [OF assms(2) True])
    then have r: "c \<in> set (hk_calls h)" "hc_call_id c = cid" "hk_calls h1 = hk_calls h" "hk_paths h1 = hk_paths h"
      "hk_path_seq h1 = hk_path_seq h"
      "post_loop s cid (hc_owner_uuid c) (hc_worktree c) obs (recordedPathsTx h1 cid) t (no_outcome, h1) = Inr (out2, h2)"
      "hk_calls h' = map (\<lambda>r. if hc_call_id r = cid then r\<lparr>hc_t_post := Some t, hc_post_missing := False\<rparr> else r) (hk_calls h2)"
      unfolding post_run_def by blast+
    have h1: "hook_ok h1" by (rule hook_ok_cong [OF assms(1) r(3-5)])
    have c: "c \<in> set (hk_calls h1)" using r(1,3) by simp
    have "hk_calls h2 = hk_calls h1"
      using post_loop_ok [OF r(6) h1 c r(2) refl prev_ok_recorded] by (simp add: post_moved_def)
    with c have "c \<in> set (hk_calls h2)" by simp
    define c' where "c' = c\<lparr>hc_t_post := Some t, hc_post_missing := False\<rparr>"
    have "c' \<in> set (hk_calls h')"
      unfolding r(7) set_map by (rule rev_image_eqI [OF \<open>c \<in> set (hk_calls h2)\<close>]) (simp add: r(2) c'_def)
    moreover have "hc_call_id c' = cid" "hc_t_post c' \<noteq> None" using r(2) by (simp_all add: c'_def)
    ultimately show ?thesis by blast
  qed
  then obtain c where c: "c \<in> set (hk_calls h')" "hc_call_id c = cid" "hc_t_post c \<noteq> None" by blast
  then have "find (\<lambda>c. hc_call_id c = cid) (hk_calls h') \<noteq> None" by (auto simp: find_None_iff)
  then obtain c' where f: "find (\<lambda>c. hc_call_id c = cid) (hk_calls h') = Some c'" by auto
  have "c' = c" by (rule call_unique [OF ok _ c(1)]) (use find_SomeD [OF f] c(2) in auto)
  with f c(3) assms(3) show ?thesis by (simp add: RecordCallPost_def)
qed

theorem RecordCallPost_once_witness:
  "\<exists>h' out. RecordCallPost ex_store (ex_io 3) ''k-b'' 3 [ex_seen ''d1''] ex_opened = Inr (h', out) \<and> po_Events out \<noteq> [] \<and>
     RecordCallPost ex_store (ex_io 4) ''k-b'' 4 [ex_seen ''d2''] h' = Inr (h', no_outcome)"
proof -
  obtain h1 outB ev where e: "ev \<in> set (po_Events outB)" "RecordCallPost ex_store (ex_io 3) ''k-b'' 3 [ex_seen ''d1''] ex_opened = Inr (h1, outB)"
    by (rule ex_posts)
  have "io_begin (ex_io 4)" by (simp add: ex_io_def)
  from RecordCallPost_once [OF ex_opened_ok e(2) this, of ex_store 4 "[ex_seen ''d2'']"] e show ?thesis
    by (intro exI [of _ h1] exI [of _ outB]) auto
qed

subsection \<open>Ending abandoned calls\<close>

definition end_calls :: "string set \<Rightarrow> time \<Rightarrow> hook_call list \<Rightarrow> hook_call list" where
  "end_calls ids now = map (\<lambda>r. if call_open r \<and> hc_call_id r \<in> ids then r\<lparr>hc_dead_at := Some now\<rparr> else r)"

lemma markOneDeadCallTx_frame [frame_simps]:
  "hk_calls (snd (markOneDeadCallTx s c reason now h)) = end_calls {hkc_CallID c} now (hk_calls h)"
  "fst (markOneDeadCallTx s c reason now h) = length (filter (\<lambda>r. call_open r \<and> hc_call_id r = hkc_CallID c) (hk_calls h))"
  "hk_paths (snd (markOneDeadCallTx s c reason now h)) = hk_paths h"
  "hk_path_seq (snd (markOneDeadCallTx s c reason now h)) = hk_path_seq h"
  "hk_tree_events (snd (markOneDeadCallTx s c reason now h)) = hk_tree_events h"
  "hk_reports (snd (markOneDeadCallTx s c reason now h)) = hk_reports h"
  "hk_spanners (snd (markOneDeadCallTx s c reason now h)) = hk_spanners h"
  "hk_observed (snd (markOneDeadCallTx s c reason now h)) = hk_observed h"
  by (auto simp: markOneDeadCallTx_def Let_def frame_simps end_calls_def cong: filter_cong conj_cong intro!: filter_cong)
    (auto simp: conj_commute)

lemma end_calls_step:
  "end_calls ids now (end_calls {cid} now rows) = end_calls (insert cid ids) now rows"
  "length (filter (\<lambda>r. call_open r \<and> hc_call_id r = cid) rows) +
     length (filter (\<lambda>r. call_open r \<and> hc_call_id r \<in> ids) (end_calls {cid} now rows)) =
   length (filter (\<lambda>r. call_open r \<and> hc_call_id r \<in> insert cid ids) rows)"
  by (induction rows) (auto simp: end_calls_def call_open_def)

lemma dead_loop_eq:
  assumes "set ids \<subseteq> hkc_CallID ` set open_calls"
  shows "hk_calls (snd (dead_loop s now dead open_calls ids h)) = end_calls (set ids) now (hk_calls h) \<and>
    fst (dead_loop s now dead open_calls ids h) = length (filter (\<lambda>r. call_open r \<and> hc_call_id r \<in> set ids) (hk_calls h)) \<and>
    hk_paths (snd (dead_loop s now dead open_calls ids h)) = hk_paths h \<and>
    hk_path_seq (snd (dead_loop s now dead open_calls ids h)) = hk_path_seq h \<and>
    hk_tree_events (snd (dead_loop s now dead open_calls ids h)) = hk_tree_events h \<and>
    hk_reports (snd (dead_loop s now dead open_calls ids h)) = hk_reports h \<and>
    hk_spanners (snd (dead_loop s now dead open_calls ids h)) = hk_spanners h \<and>
    hk_observed (snd (dead_loop s now dead open_calls ids h)) = hk_observed h"
  using assms
proof (induction ids arbitrary: h)
  case Nil
  then show ?case by (simp add: end_calls_def)
next
  case (Cons cid ids)
  from Cons.prems obtain x where "x \<in> set (rev open_calls)" "hkc_CallID x = cid" by auto
  then obtain c where c: "find (\<lambda>c. hkc_CallID c = cid) (rev open_calls) = Some c"
    by (metis (mono_tags, lifting) find_None_iff option.exhaust)
  then have id: "hkc_CallID c = cid" by (auto dest: find_SomeD)
  show ?case
    using Cons.IH [of "snd (markOneDeadCallTx s c (case dead_reason now dead c of None \<Rightarrow> [] | Some x \<Rightarrow> x) now h)"] Cons.prems
    by (simp add: c Let_def frame_simps id end_calls_step)
qed

text \<open>Who the sweep may end: a call that is too old, or one whose session the probe calls dead.\<close>

definition abandoned :: "time \<Rightarrow> (SessionUUID \<Rightarrow> bool) \<Rightarrow> hook_call \<Rightarrow> bool" where
  "abandoned now dead c \<longleftrightarrow>
     call_open c \<and> (now - hc_t_pre c > InFlightMaxAge \<or> (hc_session_uuid c \<noteq> [] \<and> dead (hc_session_uuid c)))"

lemma deadOwnerCallIDs_set:
  "set (deadOwnerCallIDs (InFlightCalls h) now dead) = hc_call_id ` {c \<in> set (hk_calls h). abandoned now dead c}"
proof -
  have sc: "set (InFlightCalls h) = scanHookCall ` {c \<in> set (hk_calls h). call_open c}" by (auto simp: InFlightCalls_def)
  have d: "call_open c \<and> dead_reason now dead (scanHookCall c) \<noteq> None \<longleftrightarrow> abandoned now dead c" for c
    by (auto simp: abandoned_def dead_reason_def scanHookCall_def)
  have "{c \<in> set (InFlightCalls h). dead_reason now dead c \<noteq> None} = scanHookCall ` {c \<in> set (hk_calls h). abandoned now dead c}"
    unfolding sc d [symmetric] by auto
  then show ?thesis by (simp add: deadOwnerCallIDs_def image_image scanHookCall_def)
qed

text \<open>The sweep over dead owners is exact. A call ends at \<open>now\<close> precisely when it is still open in the
  transaction and was abandoned when the table was read (older than six hours, or of a session the
  probe finds dead); the count returned is the number of calls ended, and no recorded path, counter,
  event or report changes. So a call that posts between the read and the transaction keeps its post.\<close>

theorem MarkDeadOwnerCalls_exact:
  assumes "io_begin i" "io_commit i"
  shows "\<exists>h2 n. MarkDeadOwnerCalls s i now (Some dead) h h' = Inr (h2, n) \<and>
    hk_calls h2 = end_calls (hc_call_id ` {c \<in> set (hk_calls h). abandoned now dead c}) now (hk_calls h') \<and>
    n = length (filter (\<lambda>r. call_open r \<and> hc_call_id r \<in> hc_call_id ` {c \<in> set (hk_calls h). abandoned now dead c}) (hk_calls h')) \<and>
    hk_paths h2 = hk_paths h' \<and> hk_path_seq h2 = hk_path_seq h' \<and> hk_tree_events h2 = hk_tree_events h' \<and>
    hk_reports h2 = hk_reports h' \<and> hk_spanners h2 = hk_spanners h' \<and> hk_observed h2 = hk_observed h'"
proof -
  let ?o = "InFlightCalls h" and ?ids = "deadOwnerCallIDs (InFlightCalls h) now dead"
  have "set ?ids \<subseteq> hkc_CallID ` set ?o" by (auto simp: deadOwnerCallIDs_def)
  note l = dead_loop_eq [OF this, of s now dead h', unfolded deadOwnerCallIDs_set]
  show ?thesis
  proof (cases "?ids = []")
    case True
    then have e: "hc_call_id ` {c \<in> set (hk_calls h). abandoned now dead c} = {}"
      using deadOwnerCallIDs_set [of h now dead] by (metis list.set(1))
    show ?thesis unfolding e using True by (simp add: MarkDeadOwnerCalls_def Let_def end_calls_def)
  next
    case False
    then show ?thesis using l assms by (simp add: MarkDeadOwnerCalls_def Let_def)
  qed
qed

lemma MarkDeadOwnerCalls_Inr:
  assumes "MarkDeadOwnerCalls s i now (Some dead) h h' = Inr (h2, n)"
  shows "hk_calls h2 = end_calls (hc_call_id ` {c \<in> set (hk_calls h). abandoned now dead c}) now (hk_calls h')"
    "hk_paths h2 = hk_paths h'" "hk_path_seq h2 = hk_path_seq h'" "hk_tree_events h2 = hk_tree_events h'"
    "hk_reports h2 = hk_reports h'" "hk_spanners h2 = hk_spanners h'" "hk_observed h2 = hk_observed h'"
proof -
  let ?ids = "hc_call_id ` {c \<in> set (hk_calls h). abandoned now dead c}"
  have "hk_calls h2 = end_calls ?ids now (hk_calls h') \<and> hk_paths h2 = hk_paths h' \<and> hk_path_seq h2 = hk_path_seq h' \<and>
    hk_tree_events h2 = hk_tree_events h' \<and> hk_reports h2 = hk_reports h' \<and> hk_spanners h2 = hk_spanners h' \<and>
    hk_observed h2 = hk_observed h'"
  proof (cases "io_begin i \<and> io_commit i")
    case True
    with MarkDeadOwnerCalls_exact [of i s now dead h h'] assms show ?thesis by auto
  next
    case False
    with assms have e: "deadOwnerCallIDs (InFlightCalls h) now dead = []" "h2 = h'"
      by (auto simp: MarkDeadOwnerCalls_def Let_def split: if_splits)
    from e(1) have "?ids = {}" using deadOwnerCallIDs_set [of h now dead] by (metis list.set(1))
    then show ?thesis unfolding \<open>?ids = {}\<close> end_calls_def e(2) by simp
  qed
  then show "hk_calls h2 = end_calls ?ids now (hk_calls h')"
    "hk_paths h2 = hk_paths h'" "hk_path_seq h2 = hk_path_seq h'" "hk_tree_events h2 = hk_tree_events h'"
    "hk_reports h2 = hk_reports h'" "hk_spanners h2 = hk_spanners h'" "hk_observed h2 = hk_observed h'" by blast+
qed

subsection \<open>Flagging late calls\<close>

lemma call_audit_calls [frame_simps]: "db_hook_calls (appendEventTx s e d) = db_hook_calls d"
  by (simp add: frame_simps)

definition flag_calls :: "string set \<Rightarrow> hook_call list \<Rightarrow> hook_call list" where
  "flag_calls ids = map (\<lambda>r. if hc_call_id r \<in> ids then r\<lparr>hc_post_missing := True\<rparr> else r)"

lemma flag_loop_eq:
  "hk_calls (flag_loop s now cs h) = flag_calls (hc_call_id ` set cs) (hk_calls h) \<and>
   hk_paths (flag_loop s now cs h) = hk_paths h \<and> hk_path_seq (flag_loop s now cs h) = hk_path_seq h \<and>
   hk_tree_events (flag_loop s now cs h) = hk_tree_events h \<and> hk_reports (flag_loop s now cs h) = hk_reports h \<and>
   hk_spanners (flag_loop s now cs h) = hk_spanners h \<and> hk_observed (flag_loop s now cs h) = hk_observed h"
  by (induction cs arbitrary: h) (auto simp: flag_calls_def frame_simps)

text \<open>Flagging is not ending. A late open call is flagged once and stays open, so it can still post and
  still spans what changes; every other call is untouched, and the count is the number flagged.\<close>

theorem MarkPostMissing_exact:
  assumes "hook_ok h" "io_begin i" "io_commit i"
  shows "\<exists>h'. MarkPostMissing s i now tReport h =
      Inr (h', length (filter (\<lambda>c. call_open c \<and> \<not> hc_post_missing c \<and> hc_t_pre c < now - tReport) (hk_calls h))) \<and>
    hk_calls h' = map (\<lambda>c. if call_open c \<and> \<not> hc_post_missing c \<and> hc_t_pre c < now - tReport
                           then c\<lparr>hc_post_missing := True\<rparr> else c) (hk_calls h) \<and>
    hk_paths h' = hk_paths h \<and> hk_path_seq h' = hk_path_seq h \<and> map call_open (hk_calls h') = map call_open (hk_calls h)"
proof -
  let ?late = "\<lambda>c. call_open c \<and> \<not> hc_post_missing c \<and> hc_t_pre c < now - tReport"
  let ?cs = "postMissingCandidatesTx h (now - tReport)"
  have "hc_call_id c \<in> hc_call_id ` set ?cs \<longleftrightarrow> ?late c" if "c \<in> set (hk_calls h)" for c
    using that call_unique [OF assms(1) that] by (auto simp: postMissingCandidatesTx_def image_iff)
  then have "flag_calls (hc_call_id ` set ?cs) (hk_calls h) =
      map (\<lambda>c. if ?late c then c\<lparr>hc_post_missing := True\<rparr> else c) (hk_calls h)"
    unfolding flag_calls_def by (intro map_cong) auto
  moreover have "map call_open (map (\<lambda>c. if ?late c then c\<lparr>hc_post_missing := True\<rparr> else c) (hk_calls h)) = map call_open (hk_calls h)"
    by (simp add: call_open_def)
  moreover have "length ?cs = length (filter ?late (hk_calls h))" by (simp add: postMissingCandidatesTx_def)
  ultimately show ?thesis using assms(2,3) flag_loop_eq [of s now ?cs h]
    by (simp add: MarkPostMissing_def Let_def)
qed

subsection \<open>Dropping finished calls\<close>

lemma DropFinishedCalls_Inr:
  assumes "DropFinishedCalls i now floor h = Inr (h', n)"
  shows "hk_calls h' = filter (\<lambda>c. \<not> droppable h (now - floor) c) (hk_calls h)"
    "hk_paths h' = filter (\<lambda>p. cp_call_id p \<notin> hc_call_id ` set (filter (droppable h (now - floor)) (hk_calls h))) (hk_paths h)"
    "hk_path_seq h' = hk_path_seq h" "hk_tree_events h' = hk_tree_events h" "hk_reports h' = hk_reports h"
    "hk_spanners h' = hk_spanners h" "hk_observed h' = hk_observed h"
    "n = length (filter (droppable h (now - floor)) (hk_calls h))"
  using assms by (auto simp: DropFinishedCalls_def Let_def frame_simps split: if_splits)

lemma droppable_iff:
  "droppable h cutoff c \<longleftrightarrow> (\<exists>t. ended_at c = Some t \<and> t < cutoff \<and>
     (\<forall>peer \<in> set (hk_calls h). call_open peer \<longrightarrow> t \<le> hc_t_pre peer))"
  by (auto simp: droppable_def list_ex_iff not_less split: option.splits)

lemma call_open_ended: "call_open c \<longleftrightarrow> ended_at c = None"
  by (auto simp: call_open_def ended_at_def)

lemma hook_ok_filter:
  assumes "hook_ok h" "hk_calls h' = filter (\<lambda>c. hc_call_id c \<notin> G) (hk_calls h)"
    and "hk_paths h' = filter (\<lambda>p. cp_call_id p \<notin> G) (hk_paths h)" "hk_path_seq h' = hk_path_seq h"
  shows "hook_ok h'"
proof -
  have i: "interval_ok h' p x \<longleftrightarrow> interval_ok h p x" for p x
    by (simp add: interval_ok_def pathSeqAt_def assms(4))
  have "cp_call_id p \<in> hc_call_id ` {c \<in> set (hk_calls h). hc_call_id c \<notin> G}"
    if "p \<in> set (hk_paths h)" "cp_call_id p \<notin> G" for p
    using that assms(1) by (auto simp: hook_ok_def)
  then show ?thesis
    using assms(1) by (auto simp: hook_ok_def assms(2,3) i distinct_map_filter)
qed

lemma DropFinishedCalls_ok:
  assumes "DropFinishedCalls i now floor h = Inr (h', n)" "hook_ok h"
  shows "hook_ok h'"
proof (rule hook_ok_filter [OF assms(2), where G = "hc_call_id ` set (filter (droppable h (now - floor)) (hk_calls h))"])
  have "droppable h (now - floor) c \<longleftrightarrow> hc_call_id c \<in> hc_call_id ` set (filter (droppable h (now - floor)) (hk_calls h))"
    if "c \<in> set (hk_calls h)" for c
    using that call_unique [OF assms(2) that] by (auto simp: image_iff)
  then show "hk_calls h' = filter (\<lambda>c. hc_call_id c \<notin> hc_call_id ` set (filter (droppable h (now - floor)) (hk_calls h))) (hk_calls h)"
    unfolding DropFinishedCalls_Inr(1) [OF assms(1)] by (intro filter_cong) auto
qed (use DropFinishedCalls_Inr [OF assms(1)] in simp_all)

lemma end_calls_member:
  "r \<in> set (end_calls ids now rows) \<longleftrightarrow> (\<exists>c \<in> set rows. r = (if call_open c \<and> hc_call_id c \<in> ids then c\<lparr>hc_dead_at := Some now\<rparr> else c))"
  by (auto simp: end_calls_def)

text \<open>C23: Records of calls do not pile up, whatever the probe answers. Six hours after a call ended no call
  that began before its end survives the sweep as open, so once the retention floor has passed the
  sweep drops the call and its paths, however many hooks never came back.\<close>

theorem finished_call_is_dropped:
  assumes "hook_ok h" "c \<in> set (hk_calls h)" "ended_at c = Some t" "t + InFlightMaxAge \<le> now" "t + floor < later"
    and "MarkDeadOwnerCalls s i now (Some dead) h h = Inr (h1, n)" "DropFinishedCalls j later floor h1 = Inr (h2, m)"
  shows "hc_call_id c \<notin> hc_call_id ` set (hk_calls h2) \<and> hc_call_id c \<notin> cp_call_id ` set (hk_paths h2)"
proof -
  let ?ids = "hc_call_id ` {c \<in> set (hk_calls h). abandoned now dead c}"
  note calls1 = MarkDeadOwnerCalls_Inr(1) [OF assms(6)]
  have c1: "c \<in> set (hk_calls h1)"
    using assms(2,3) unfolding calls1 end_calls_member by (force simp: call_open_ended)
  have "t \<le> hc_t_pre peer" if peer: "peer \<in> set (hk_calls h1)" "call_open peer" for peer
  proof (rule ccontr)
    assume "\<not> t \<le> hc_t_pre peer"
    from peer obtain x where x: "x \<in> set (hk_calls h)" "peer = (if call_open x \<and> hc_call_id x \<in> ?ids then x\<lparr>hc_dead_at := Some now\<rparr> else x)"
      unfolding calls1 end_calls_member by blast
    with peer(2) have "peer = x" "call_open x" by (auto simp: call_open_def split: if_splits)
    with \<open>\<not> t \<le> hc_t_pre peer\<close> assms(4) x(1) have "hc_call_id x \<in> ?ids" by (auto simp: abandoned_def)
    with x(2) peer(2) show False by (auto simp: call_open_def split: if_splits)
  qed
  with assms(3,5) c1 have d: "droppable h1 (later - floor) c" by (auto simp: droppable_iff)
  have u: "c' = c" if "c' \<in> set (hk_calls h1)" "hc_call_id c' = hc_call_id c" for c'
  proof -
    from that(1) obtain x where x: "x \<in> set (hk_calls h)" "c' = (if call_open x \<and> hc_call_id x \<in> ?ids then x\<lparr>hc_dead_at := Some now\<rparr> else x)"
      unfolding calls1 end_calls_member by blast
    with that(2) have "hc_call_id x = hc_call_id c" by (auto split: if_splits)
    with call_unique [OF assms(1) x(1) assms(2)] x(2) assms(3) show ?thesis by (auto simp: call_open_ended)
  qed
  then have "hc_call_id c \<notin> hc_call_id ` set (hk_calls h2)"
    using d unfolding DropFinishedCalls_Inr(1) [OF assms(7)] by auto
  moreover have "hc_call_id c \<notin> cp_call_id ` set (hk_paths h2)"
  proof -
    have "hc_call_id c \<in> hc_call_id ` set (filter (droppable h1 (later - floor)) (hk_calls h1))" using d c1 by simp
    then show ?thesis unfolding DropFinishedCalls_Inr(2) [OF assms(7)] by force
  qed
  ultimately show ?thesis ..
qed

lemma spanner_of_call:
  assumes "hook_ok h" "b \<in> set (hk_calls h)"
  shows "\<lparr>sp_CallID = hc_call_id b, sp_Owner = hc_owner_uuid b\<rparr> \<in> set (spannersTx h path wt epoch k observer) \<longleftrightarrow>
    (\<exists>q \<in> set (hk_paths h). cp_call_id q = hc_call_id b \<and> spans path wt epoch k observer q b)"
proof
  assume "\<lparr>sp_CallID = hc_call_id b, sp_Owner = hc_owner_uuid b\<rparr> \<in> set (spannersTx h path wt epoch k observer)"
  then obtain q c where q: "q \<in> set (hk_paths h)" "c \<in> set (hk_calls h)" "spans path wt epoch k observer q c"
    "cp_call_id q = hc_call_id b" unfolding spannersTx_mem by auto
  then have "c = b" using call_unique [OF assms(1) q(2) assms(2)] by (simp add: spans_def)
  with q show "\<exists>q \<in> set (hk_paths h). cp_call_id q = hc_call_id b \<and> spans path wt epoch k observer q b" by blast
next
  assume "\<exists>q \<in> set (hk_paths h). cp_call_id q = hc_call_id b \<and> spans path wt epoch k observer q b"
  then obtain q where q: "q \<in> set (hk_paths h)" "cp_call_id q = hc_call_id b" "spans path wt epoch k observer q b" by blast
  show "\<lparr>sp_CallID = hc_call_id b, sp_Owner = hc_owner_uuid b\<rparr> \<in> set (spannersTx h path wt epoch k observer)"
    unfolding spannersTx_mem using q assms(2) by (intro bexI [of _ q] bexI [of _ b]) simp_all
qed

text \<open>Dropping forgets nobody an open call may still have to name. A call that has not ended, or that
  ended after a still open call began, keeps its record and its paths, so as a spanner of any change
  it is named after the sweep as before.\<close>

theorem drop_keeps_overlaps:
  assumes "hook_ok h" "DropFinishedCalls i now floor h = Inr (h', n)" "a \<in> set (hk_calls h)" "call_open a"
    and "b \<in> set (hk_calls h)" "ended_at b = None \<or> hc_t_pre a < the (ended_at b)"
  shows "a \<in> set (hk_calls h') \<and> b \<in> set (hk_calls h') \<and>
    (\<lparr>sp_CallID = hc_call_id b, sp_Owner = hc_owner_uuid b\<rparr> \<in> set (spannersTx h' path wt epoch k observer) \<longleftrightarrow>
     \<lparr>sp_CallID = hc_call_id b, sp_Owner = hc_owner_uuid b\<rparr> \<in> set (spannersTx h path wt epoch k observer))"
proof -
  note d = DropFinishedCalls_Inr [OF assms(2)]
  have kept: "\<not> droppable h (now - floor) a" "\<not> droppable h (now - floor) b"
    using assms(3-6) by (auto simp: droppable_iff call_open_ended)
  then have m: "a \<in> set (hk_calls h')" "b \<in> set (hk_calls h')" using assms(3,5) by (simp_all add: d(1))
  have "hc_call_id b \<notin> hc_call_id ` set (filter (droppable h (now - floor)) (hk_calls h))"
    using kept(2) call_unique [OF assms(1) assms(5)] by (auto simp: image_iff)
  then have p: "p \<in> set (hk_paths h') \<longleftrightarrow> p \<in> set (hk_paths h)" if "cp_call_id p = hc_call_id b" for p
    using that by (simp add: d(2))
  show ?thesis
    unfolding spanner_of_call [OF assms(1,5)] spanner_of_call [OF DropFinishedCalls_ok [OF assms(2,1)] m(2)]
    using m p by blast
qed

subsection \<open>Examples\<close>

definition ex_pre :: "store_error + hook_db \<times> bool" where
  "ex_pre = RecordCallPre ex_store (ex_io 5) (ex_call ''k-c'' ''cy'' 5) [ex_seen ''d0''] ex_opened"

theorem RecordCallPre_exact_witness:
  "\<exists>h'. ex_pre = Inr (h', True) \<and> length (hk_calls h') = 3 \<and> length (hk_paths h') = 3 \<and>
     RecordCallPre ex_store (ex_io 5) (ex_call ''k-a'' ''cy'' 5) [ex_seen ''d0''] ex_opened = Inr (ex_opened, False) \<and>
     RecordCallPre ex_store (ex_io 5) (ex_call ''k-c'' ''cy'' 5) [ex_seen ''d0'', ex_seen ''d1''] ex_opened = Inl ErrConstraint"
proof -
  have io: "io_begin (ex_io 5)" "io_commit (ex_io 5)" by (simp_all add: ex_io_def)
  have ids: "hc_call_id ` set (hk_calls ex_opened) = {''k-a'', ''k-b''}"
    by (auto simp: ex_opened_def call_row_of_def ex_call_def)
  have n: "length (hk_calls ex_opened) = 2" "length (hk_paths ex_opened) = 2" by (simp_all add: ex_opened_def)
  show ?thesis
    unfolding ex_pre_def RecordCallPre_exact [OF ex_opened_ok io] ids
    using n by (simp add: frame_simps ex_call_def ex_seen_def)
qed

theorem MarkDeadOwnerCalls_exact_witness:
  "\<exists>h2 n. MarkDeadOwnerCalls ex_store (ex_io 9) 9 (Some (\<lambda>s. s = ''s-al'')) ex_opened ex_opened = Inr (h2, n) \<and>
     map (\<lambda>c. (hc_call_id c, hc_dead_at c)) (hk_calls h2) = [(''k-a'', Some 9), (''k-b'', None)] \<and> n = 1"
proof -
  have io: "io_begin (ex_io 9)" "io_commit (ex_io 9)" by (simp_all add: ex_io_def)
  have ids: "hc_call_id ` {c \<in> set (hk_calls ex_opened). abandoned 9 (\<lambda>s. s = ''s-al'') c} = {''k-a''}"
    unfolding set_filter [symmetric]
    by (simp add: ex_opened_def call_row_of_def ex_call_def abandoned_def call_open_def InFlightMaxAge_def hour_def)
  from MarkDeadOwnerCalls_exact [OF io, of ex_store 9 "\<lambda>s. s = ''s-al''" ex_opened ex_opened] show ?thesis
    unfolding ids by (auto simp: end_calls_def ex_opened_def call_row_of_def ex_call_def call_open_def)
qed

theorem MarkPostMissing_exact_witness:
  "\<exists>h'. MarkPostMissing ex_store (ex_io 9) 9 7 ex_opened = Inr (h', 1) \<and>
     map (\<lambda>c. (hc_call_id c, hc_post_missing c, call_open c)) (hk_calls h') = [(''k-a'', True, True), (''k-b'', False, True)]"
proof -
  have io: "io_begin (ex_io 9)" "io_commit (ex_io 9)" by (simp_all add: ex_io_def)
  from MarkPostMissing_exact [OF ex_opened_ok io, of ex_store 9 7] show ?thesis
    by (auto simp: ex_opened_def call_row_of_def ex_call_def call_open_def)
qed

text \<open>\<open>k-a\<close> has posted, \<open>k-b\<close> never will.\<close>

definition ex_half :: hook_db where
  "ex_half = on_db (upd_calls (\<lambda>c. hc_call_id c = ''k-a'') (\<lambda>c. c\<lparr>hc_t_post := Some 3\<rparr>)) ex_opened"

lemma ex_half_calls: "hk_calls ex_half = [(call_row_of (ex_call ''k-a'' ''al'' 1))\<lparr>hc_t_post := Some 3\<rparr>, call_row_of (ex_call ''k-b'' ''bo'' 2)]"
  by (simp add: ex_half_def frame_simps ex_opened_def call_row_of_def ex_call_def)

lemma ex_half_ok: "hook_ok ex_half"
  unfolding ex_half_def by (rule hook_ok_upd_calls [OF ex_opened_ok]) simp_all

theorem finished_call_is_dropped_witness:
  "\<exists>h1 n h2 m. MarkDeadOwnerCalls ex_store (ex_io 9) (7 * hour) (Some (\<lambda>_. False)) ex_half ex_half = Inr (h1, n) \<and>
     DropFinishedCalls (ex_io 9) (9 * hour) hour h1 = Inr (h2, m) \<and> ''k-a'' \<notin> hc_call_id ` set (hk_calls h2)"
proof -
  have io: "io_begin (ex_io 9)" "io_commit (ex_io 9)" by (simp_all add: ex_io_def)
  obtain h1 n where d: "MarkDeadOwnerCalls ex_store (ex_io 9) (7 * hour) (Some (\<lambda>_. False)) ex_half ex_half = Inr (h1, n)"
    using MarkDeadOwnerCalls_exact [OF io, of ex_store "7 * hour" "\<lambda>_. False" ex_half ex_half] by auto
  obtain h2 m where p: "DropFinishedCalls (ex_io 9) (9 * hour) hour h1 = Inr (h2, m)"
    using io by (simp add: DropFinishedCalls_def Let_def)
  have "(call_row_of (ex_call ''k-a'' ''al'' 1))\<lparr>hc_t_post := Some 3\<rparr> \<in> set (hk_calls ex_half)" by (simp add: ex_half_calls)
  from finished_call_is_dropped [OF ex_half_ok this _ _ _ d p, of 3]
  have "''k-a'' \<notin> hc_call_id ` set (hk_calls h2)"
    by (simp add: ended_at_def InFlightMaxAge_def hour_def call_row_of_def ex_call_def)
  with d p show ?thesis by blast
qed

theorem drop_keeps_overlaps_witness:
  "\<exists>h' n. DropFinishedCalls (ex_io 9) (9 * hour) hour ex_half = Inr (h', n) \<and>
     {''k-a'', ''k-b''} \<subseteq> hc_call_id ` set (hk_calls h')"
proof -
  obtain h' n where p: "DropFinishedCalls (ex_io 9) (9 * hour) hour ex_half = Inr (h', n)"
    by (simp add: DropFinishedCalls_def Let_def ex_io_def)
  have c: "call_row_of (ex_call ''k-b'' ''bo'' 2) \<in> set (hk_calls ex_half)"
    "(call_row_of (ex_call ''k-a'' ''al'' 1))\<lparr>hc_t_post := Some 3\<rparr> \<in> set (hk_calls ex_half)" by (simp_all add: ex_half_calls)
  from drop_keeps_overlaps [OF ex_half_ok p c(1) _ c(2)]
  have "call_row_of (ex_call ''k-b'' ''bo'' 2) \<in> set (hk_calls h')"
    "(call_row_of (ex_call ''k-a'' ''al'' 1))\<lparr>hc_t_post := Some 3\<rparr> \<in> set (hk_calls h')"
    by (simp_all add: call_open_def ended_at_def call_row_of_def ex_call_def)
  then have "''k-b'' \<in> hc_call_id ` set (hk_calls h')" "''k-a'' \<in> hc_call_id ` set (hk_calls h')"
    by (force simp: call_row_of_def ex_call_def)+
  with p show ?thesis by blast
qed

end
