(* ===== verification/Reports.thy ===== *)
theory Reports
  imports Sweeps
begin

text \<open>
  Drift, delivery and retention: what a change outside any call files, that each report reaches its
  addressee once, and what rotation may drop.
\<close>

subsection \<open>Drift\<close>

text \<open>What one run finds out about a locked path.\<close>

definition drift_verdict :: "hook_db \<Rightarrow> string \<Rightarrow> HookPathState \<Rightarrow> driftVerdict" where
  "drift_verdict h wt ob =
     (case observedAtTx h (hs_Path ob, wt, hs_Epoch ob) of
        None \<Rightarrow> driftSeeded
      | Some now \<Rightarrow>
          if now = (hs_Stat ob, hs_Digest ob) then driftUnchanged
          else if inFlightCallRecordedTx h (hs_Path ob) wt (hs_Epoch ob) then driftDeferred else driftFiled)"

lemma fst_driftOnePathTx: "fst (driftOnePathTx s observer wt now ob h) = drift_verdict h wt ob"
  by (auto simp: driftOnePathTx_def drift_verdict_def Let_def split: option.splits)

lemma drift_verdict_cong:
  assumes "hk_observed h' (hs_Path ob, wt, hs_Epoch ob) = hk_observed h (hs_Path ob, wt, hs_Epoch ob)"
    and "hk_calls h' = hk_calls h" "hk_paths h' = hk_paths h"
  shows "drift_verdict h' wt ob = drift_verdict h wt ob"
  using assms by (simp add: drift_verdict_def observedAtTx_def inFlightCallRecordedTx_def)

lemma setObservedTx_observed:
  "hk_observed (setObservedTx ob wt now h) k =
     (if k = (hs_Path ob, wt, hs_Epoch ob) then Some (hs_Stat ob, hs_Digest ob, now) else hk_observed h k)"
  by (simp add: setObservedTx_def)

lemma setObservedTx_spanners [frame_simps]: "hk_spanners (setObservedTx ob wt now h) = hk_spanners h"
  by (simp add: setObservedTx_def)

text \<open>No call spans a change found as drift: an open one would have deferred it, a finished one lies
  below the fresh number.\<close>

lemma drift_spanners:
  assumes "hook_ok h" "\<not> inFlightCallRecordedTx h path wt epoch" "hk_calls h' = hk_calls h" "hk_paths h' = hk_paths h"
    and "pathSeqAt h (path, wt, epoch) < n"
  shows "spannersTx h' path wt epoch n observer = []"
proof -
  have "\<not> spans path wt epoch n observer p c" if "p \<in> set (hk_paths h)" "c \<in> set (hk_calls h)" for p c
  proof
    assume sp: "spans path wt epoch n observer p c"
    with that assms(1) have "interval_ok h p c" by (auto simp: hook_ok_def spans_def)
    then have "\<not> (case cp_seq_post p of None \<Rightarrow> False | Some m \<Rightarrow> n \<le> m)"
      using sp assms(5) by (auto simp: interval_ok_def spans_def Let_def split: option.splits)
    with sp that assms(2) show False
      by (auto simp: inFlightCallRecordedTx_def list_ex_iff spans_def)
  qed
  then have "\<not> sp \<in> set (spannersTx h' path wt epoch n observer)" for sp
    unfolding spannersTx_mem assms(3,4) by blast
  then show ?thesis by (metis ex_in_conv set_empty2)
qed

text \<open>One step: what it leaves alone, and what it files.\<close>

definition drift_row :: "tree_event_row \<Rightarrow> string \<times> string \<times> int \<times> int \<times> string \<times> string \<times> TreeRule" where
  "drift_row e = (te_Path e, te_Worktree e, te_EpochPre e, te_Seq e, te_DigestPre e, te_DigestPost e, te_Rule e)"

definition drift_expected ::
  "hook_db \<Rightarrow> string \<Rightarrow> HookPathState \<Rightarrow> string \<times> string \<times> int \<times> int \<times> string \<times> string \<times> TreeRule" where
  "drift_expected h wt ob =
     (let k = (hs_Path ob, wt, hs_Epoch ob) in
      (hs_Path ob, wt, hs_Epoch ob, pathSeqAt h k + 1, (case observedAtTx h k of None \<Rightarrow> [] | Some (_, dg) \<Rightarrow> dg),
       hs_Digest ob, TreeRuleDrift))"

definition drift_moved :: "string \<Rightarrow> HookPathState list \<Rightarrow> hook_db \<Rightarrow> hook_db \<Rightarrow> bool" where
  "drift_moved wt obs h h' \<longleftrightarrow>
     hk_calls h' = hk_calls h \<and> hk_paths h' = hk_paths h \<and> hk_spanners h' = hk_spanners h \<and>
     (\<forall>p e. p \<notin> hs_Path ` set (filter hs_Locked obs) \<longrightarrow>
        hk_observed h' (p, wt, e) = hk_observed h (p, wt, e) \<and> hk_path_seq h' (p, wt, e) = hk_path_seq h (p, wt, e)) \<and>
     (\<forall>k. pathSeqAt h k \<le> pathSeqAt h' k) \<and>
     (\<exists>rows. hk_tree_events h' = hk_tree_events h @ rows \<and>
        map drift_row rows = map (drift_expected h wt) (filter (\<lambda>ob. hs_Locked ob \<and> drift_verdict h wt ob = driftFiled) obs)) \<and>
     (\<forall>ob \<in> set obs. hs_Locked ob \<and> drift_verdict h wt ob \<in> {driftFiled, driftSeeded} \<longrightarrow>
        observedAtTx h' (hs_Path ob, wt, hs_Epoch ob) = Some (hs_Stat ob, hs_Digest ob)) \<and>
     (\<forall>ob \<in> set obs. hs_Locked ob \<and> drift_verdict h wt ob \<notin> {driftFiled, driftSeeded} \<longrightarrow>
        observedAtTx h' (hs_Path ob, wt, hs_Epoch ob) = observedAtTx h (hs_Path ob, wt, hs_Epoch ob))"

lemma drift_movedD:
  assumes "drift_moved wt obs h h'"
  shows "hk_calls h' = hk_calls h" "hk_paths h' = hk_paths h" "hk_spanners h' = hk_spanners h"
    "pathSeqAt h k \<le> pathSeqAt h' k"
    "p \<notin> hs_Path ` set (filter hs_Locked obs) \<Longrightarrow> hk_observed h' (p, wt, e) = hk_observed h (p, wt, e)"
    "p \<notin> hs_Path ` set (filter hs_Locked obs) \<Longrightarrow> hk_path_seq h' (p, wt, e) = hk_path_seq h (p, wt, e)"
  using assms unfolding drift_moved_def by blast+

lemma drift_step:
  assumes "hook_ok h" "hs_Locked ob"
  shows "drift_moved wt [ob] h (snd (driftOnePathTx s observer wt now ob h))"
proof (cases "drift_verdict h wt ob")
  case driftUnchanged
  then have "snd (driftOnePathTx s observer wt now ob h) = h"
    by (auto simp: driftOnePathTx_def drift_verdict_def Let_def split: option.splits if_splits)
  then show ?thesis using driftUnchanged by (simp add: drift_moved_def)
next
  case driftDeferred
  then have "snd (driftOnePathTx s observer wt now ob h) = h"
    by (auto simp: driftOnePathTx_def drift_verdict_def Let_def split: option.splits if_splits)
  then show ?thesis using driftDeferred by (simp add: drift_moved_def)
next
  case driftSeeded
  then have e: "snd (driftOnePathTx s observer wt now ob h) = setObservedTx ob wt now h"
    by (auto simp: driftOnePathTx_def drift_verdict_def Let_def split: option.splits if_splits)
  show ?thesis
    using driftSeeded assms(2) unfolding e drift_moved_def
    by (simp add: frame_simps setObservedTx_observed observedAtTx_def pathSeqAt_def)
next
  case driftFiled
  let ?k = "(hs_Path ob, wt, hs_Epoch ob)"
  obtain st dg where o: "observedAtTx h ?k = Some (st, dg)" "\<not> (st = hs_Stat ob \<and> dg = hs_Digest ob)"
    "\<not> inFlightCallRecordedTx h (hs_Path ob) wt (hs_Epoch ob)"
    using driftFiled by (auto simp: drift_verdict_def split: option.splits if_splits)
  define n where "n = nextPathSeq (hs_Digest ob) h ?k"
  let ?inp = "drift_input ob observer wt dg (fst n)"
  have e: "snd (driftOnePathTx s observer wt now ob h) = setObservedTx ob wt now (snd (fileTreeEventTx s ?inp now (snd n)))"
    using o by (auto simp: driftOnePathTx_def Let_def n_def)
  have v: "fst n = pathSeqAt h ?k + 1" "\<And>k. pathSeqAt h k \<le> pathSeqAt (snd n) k"
    using path_seqs.bump_value [of "hs_Digest ob" h ?k] path_seqs.bump_cur [of "hs_Digest ob" h ?k] by (auto simp: n_def)
  have s: "spannersTx (snd n) (hs_Path ob) wt (hs_Epoch ob) (fst n) observer = []"
    by (rule drift_spanners [OF assms(1) o(3)]) (simp_all add: n_def frame_simps v(1) [unfolded n_def])
  have f: "hk_spanners (snd (fileTreeEventTx s ?inp now (snd n))) = hk_spanners h"
    "hk_tree_events (snd (fileTreeEventTx s ?inp now (snd n))) =
       hk_tree_events h @ [event_of_input ?inp (fst (newID s ''e-'' (hk_db h))) TreeRuleDrift now]"
    using s by (simp_all add: fileTreeEventTx_def Let_def frame_simps drift_input_def classifyTreeEvent_def n_def nextPathSeq_def)
  define h' where "h' = setObservedTx ob wt now (snd (fileTreeEventTx s ?inp now (snd n)))"
  have m: "hk_calls h' = hk_calls h" "hk_paths h' = hk_paths h" "hk_spanners h' = hk_spanners h"
    "hk_tree_events h' = hk_tree_events h @ [event_of_input ?inp (fst (newID s ''e-'' (hk_db h))) TreeRuleDrift now]"
    by (simp_all add: h'_def frame_simps f) (simp_all add: n_def frame_simps)
  have q: "hk_path_seq h' = hk_path_seq (snd n)" "\<And>k. hk_path_seq (snd n) k = (if k = ?k then Some (fst n, hs_Digest ob) else hk_path_seq h k)"
    by (simp_all add: h'_def frame_simps) (simp add: n_def nextPathSeq_def Let_def)
  have ob: "hk_observed h' k = (if k = ?k then Some (hs_Stat ob, hs_Digest ob, now) else hk_observed h k)" for k
    by (simp add: h'_def setObservedTx_observed frame_simps n_def)
  have row: "drift_row (event_of_input ?inp eid TreeRuleDrift now) = drift_expected h wt ob" for eid
    by (simp add: drift_row_def event_of_input_def drift_input_def drift_expected_def Let_def v(1) o(1))
  have mono: "pathSeqAt h k \<le> pathSeqAt h' k" for k using v(2) pathSeqAt_cong [OF q(1)] by simp
  have "observedAtTx h' ?k = Some (hs_Stat ob, hs_Digest ob)" by (simp add: observedAtTx_def ob)
  then show ?thesis
    using driftFiled assms(2) m mono row q(2) ob unfolding e h'_def [symmetric] drift_moved_def q(1) by simp
qed

lemma drift_event_observer:
  "te_Observer (event_of_input (drift_input ob observer wt dg n) eid rule now) = observer"
  "observer \<noteq> [] \<Longrightarrow> observer \<in> set (treeAddressees (drift_input ob observer wt dg n) sps)"
  by (simp_all add: event_of_input_def drift_input_def treeAddressees_set)

lemma drift_moved_refl: "drift_moved wt [] h h"
  by (simp add: drift_moved_def)

text \<open>Steps over different paths compose.\<close>

lemma drift_moved_trans:
  assumes "drift_moved wt [ob] h h1" "drift_moved wt obs h1 h2" "hs_Path ob \<notin> hs_Path ` set obs" "hs_Locked ob"
  shows "drift_moved wt (ob # obs) h h2"
proof -
  have ne: "hs_Path x \<notin> hs_Path ` set (filter hs_Locked [ob])" if "x \<in> set obs" for x
    using assms(3) that by (auto simp: image_iff)
  note fr = drift_movedD(5) [OF assms(1) ne] drift_movedD(6) [OF assms(1) ne]
  have fr2: "hk_observed h2 (hs_Path ob, wt, hs_Epoch ob) = hk_observed h1 (hs_Path ob, wt, hs_Epoch ob)"
    using assms(2,3) by (auto simp: drift_moved_def)
  have tabs: "hk_calls h1 = hk_calls h" "hk_paths h1 = hk_paths h" using assms(1) by (simp_all add: drift_moved_def)
  have v: "drift_verdict h1 wt x = drift_verdict h wt x" if "x \<in> set obs" for x
    by (rule drift_verdict_cong [OF fr(1) tabs]) (rule that)
  have o: "observedAtTx h1 (hs_Path x, wt, hs_Epoch x) = observedAtTx h (hs_Path x, wt, hs_Epoch x)" if "x \<in> set obs" for x
    using fr(1) [OF that] by (simp add: observedAtTx_def)
  have o2: "observedAtTx h2 (hs_Path ob, wt, hs_Epoch ob) = observedAtTx h1 (hs_Path ob, wt, hs_Epoch ob)"
    using fr2 by (simp add: observedAtTx_def)
  have x: "drift_expected h1 wt x = drift_expected h wt x" if "x \<in> set obs" for x
    using fr(2) [OF that] o [OF that] by (simp add: drift_expected_def pathSeqAt_def Let_def)
  have "map (drift_expected h1 wt) (filter (\<lambda>ob. hs_Locked ob \<and> drift_verdict h1 wt ob = driftFiled) obs) =
      map (drift_expected h wt) (filter (\<lambda>ob. hs_Locked ob \<and> drift_verdict h wt ob = driftFiled) obs)"
    using v x by (intro map_cong filter_cong) auto
  with assms(1,2,4) have "\<exists>rows. hk_tree_events h2 = hk_tree_events h @ rows \<and>
      map drift_row rows = map (drift_expected h wt) (filter (\<lambda>ob. hs_Locked ob \<and> drift_verdict h wt ob = driftFiled) (ob # obs))"
    by (fastforce simp: drift_moved_def split: if_splits)
  moreover have "\<forall>k. pathSeqAt h k \<le> pathSeqAt h2 k" using assms(1,2) unfolding drift_moved_def by (meson order_trans)
  moreover have "\<forall>p e. p \<notin> hs_Path ` set (filter hs_Locked (ob # obs)) \<longrightarrow>
        hk_observed h2 (p, wt, e) = hk_observed h (p, wt, e) \<and> hk_path_seq h2 (p, wt, e) = hk_path_seq h (p, wt, e)"
    using assms(1,2,4) by (simp add: drift_moved_def)
  moreover have "\<forall>x \<in> set (ob # obs). hs_Locked x \<and> drift_verdict h wt x \<in> {driftFiled, driftSeeded} \<longrightarrow>
        observedAtTx h2 (hs_Path x, wt, hs_Epoch x) = Some (hs_Stat x, hs_Digest x)"
    using assms(1,2) v o2 by (simp add: drift_moved_def)
  moreover have "\<forall>x \<in> set (ob # obs). hs_Locked x \<and> drift_verdict h wt x \<notin> {driftFiled, driftSeeded} \<longrightarrow>
        observedAtTx h2 (hs_Path x, wt, hs_Epoch x) = observedAtTx h (hs_Path x, wt, hs_Epoch x)"
    using assms(1,2) v o o2 by (simp add: drift_moved_def)
  ultimately show ?thesis using assms(1,2) unfolding drift_moved_def by simp
qed

definition drift_paths :: "hook_db \<Rightarrow> string \<Rightarrow> driftVerdict \<Rightarrow> HookPathState list \<Rightarrow> string list" where
  "drift_paths h wt v obs = map hs_Path (filter (\<lambda>ob. hs_Locked ob \<and> drift_verdict h wt ob = v) obs)"

lemma hook_ok_grow:
  assumes "hook_ok h" "hk_calls h' = hk_calls h" "hk_paths h' = hk_paths h" "\<And>k. pathSeqAt h k \<le> pathSeqAt h' k"
  shows "hook_ok h'"
proof -
  have "interval_ok h' p c" if "p \<in> set (hk_paths h)" "c \<in> set (hk_calls h)" "hc_call_id c = cp_call_id p" for p c
    by (rule interval_ok_mono [OF _ assms(4)]) (use that assms(1) in \<open>auto simp: hook_ok_def\<close>)
  then show ?thesis using assms(1) by (simp add: hook_ok_def assms(2,3))
qed

lemma drift_loop_moved:
  assumes "hook_ok h" "distinct (map hs_Path obs)"
  shows "drift_moved wt obs h (snd (drift_loop s observer wt now obs out h)) \<and>
    fst (drift_loop s observer wt now obs out h) =
      \<lparr>dr_Drifted = dr_Drifted out @ drift_paths h wt driftFiled obs, dr_Seeded = dr_Seeded out @ drift_paths h wt driftSeeded obs,
       dr_Deferred = dr_Deferred out @ drift_paths h wt driftDeferred obs\<rparr>"
  using assms
proof (induction obs arbitrary: h out)
  case Nil
  then show ?case by (simp add: drift_moved_refl drift_paths_def)
next
  case (Cons ob obs)
  show ?case
  proof (cases "hs_Locked ob")
    case False
    have e: "drift_loop s observer wt now (ob # obs) out h = drift_loop s observer wt now obs out h"
      "drift_paths h wt v (ob # obs) = drift_paths h wt v obs" "drift_moved wt (ob # obs) h x = drift_moved wt obs h x" for v x
      using False by (simp_all add: drift_paths_def drift_moved_def)
    have "distinct (map hs_Path obs)" using Cons.prems(2) by simp
    from Cons.IH [OF Cons.prems(1) this] show ?thesis unfolding e .
  next
    case True
    let ?h1 = "snd (driftOnePathTx s observer wt now ob h)"
    note st = drift_step [OF Cons.prems(1) True, of wt s observer now]
    have tabs: "hk_calls ?h1 = hk_calls h" "hk_paths ?h1 = hk_paths h" "\<And>k. pathSeqAt h k \<le> pathSeqAt ?h1 k"
      using drift_movedD [OF st] by blast+
    note ok = hook_ok_grow [OF Cons.prems(1) tabs]
    have v: "drift_verdict ?h1 wt x = drift_verdict h wt x" if "x \<in> set obs" for x
      by (rule drift_verdict_cong [OF drift_movedD(5) [OF st] tabs(1,2)]) (use Cons.prems(2) that in \<open>auto simp: image_iff\<close>)
    have p: "drift_paths ?h1 wt u obs = drift_paths h wt u obs" for u
      unfolding drift_paths_def by (intro arg_cong [of _ _ "map hs_Path"] filter_cong refl) (simp add: v)
    have "distinct (map hs_Path obs)" "hs_Path ob \<notin> hs_Path ` set obs" using Cons.prems(2) by simp_all
    note IH = Cons.IH [OF ok this(1), of "add_verdict (drift_verdict h wt ob) (hs_Path ob) out", unfolded p] and d = this(2)
    have "drift_moved wt (ob # obs) h (snd (drift_loop s observer wt now (ob # obs) out h))"
      using drift_moved_trans [OF st conjunct1 [OF IH] d True] True by (simp add: Let_def fst_driftOnePathTx)
    moreover have "fst (drift_loop s observer wt now (ob # obs) out h) =
        \<lparr>dr_Drifted = dr_Drifted out @ drift_paths h wt driftFiled (ob # obs),
         dr_Seeded = dr_Seeded out @ drift_paths h wt driftSeeded (ob # obs),
         dr_Deferred = dr_Deferred out @ drift_paths h wt driftDeferred (ob # obs)\<rparr>"
      using conjunct2 [OF IH] True
      by (cases "drift_verdict h wt ob") (simp_all add: Let_def fst_driftOnePathTx add_verdict_def drift_paths_def)
    ultimately show ?thesis ..
  qed
qed

lemma RecordDrift_Inr:
  assumes "RecordDrift s i observer wt now obs h = Inr (h', out)" "hook_ok h" "distinct (map hs_Path obs)"
  shows "drift_moved wt obs h h'" "set (dr_Drifted out) = set (drift_paths h wt driftFiled obs)"
    "set (dr_Seeded out) = set (drift_paths h wt driftSeeded obs)"
    "set (dr_Deferred out) = set (drift_paths h wt driftDeferred obs)"
    "drift_paths h wt driftFiled obs = [] \<Longrightarrow> drift_paths h wt driftSeeded obs = [] \<Longrightarrow> h' = h"
proof -
  note l = drift_loop_moved [OF assms(2,3), of wt s observer now no_drift]
  let ?quiet = "drift_paths h wt driftFiled obs = [] \<and> drift_paths h wt driftSeeded obs = []"
  have e: "if ?quiet then h' = h \<and> out = fst (drift_loop s observer wt now obs no_drift h)
     else h' = snd (drift_loop s observer wt now obs no_drift h) \<and>
       (\<exists>x. x = fst (drift_loop s observer wt now obs no_drift h) \<and>
          out = \<lparr>dr_Drifted = sort (dr_Drifted x), dr_Seeded = sort (dr_Seeded x), dr_Deferred = sort (dr_Deferred x)\<rparr>)"
    using assms(1) conjunct2 [OF l] by (auto simp: RecordDrift_def Let_def no_drift_def split: if_splits)
  then show "set (dr_Drifted out) = set (drift_paths h wt driftFiled obs)"
    "set (dr_Seeded out) = set (drift_paths h wt driftSeeded obs)"
    "set (dr_Deferred out) = set (drift_paths h wt driftDeferred obs)"
    using conjunct2 [OF l] by (auto simp: no_drift_def split: if_splits)
  from e show "drift_paths h wt driftFiled obs = [] \<Longrightarrow> drift_paths h wt driftSeeded obs = [] \<Longrightarrow> h' = h" by simp
  show "drift_moved wt obs h h'"
  proof (cases ?quiet)
    case False
    with e l show ?thesis by simp
  next
    case True
    with e have "h' = h" by simp
    moreover have "filter (\<lambda>ob. hs_Locked ob \<and> drift_verdict h wt ob = driftFiled) obs = []"
      "\<forall>ob \<in> set obs. hs_Locked ob \<longrightarrow> drift_verdict h wt ob \<notin> {driftFiled, driftSeeded}"
      using True by (auto simp: drift_paths_def filter_empty_conv)
    ultimately show ?thesis by (auto simp: drift_moved_def)
  qed
qed

text \<open>Drift is exact. Over distinct paths a run files one event for each locked path that was observed
  before in another state and that no open call of this checkout recorded; the event carries the next
  number of the path, the digests before and after and the drift rule, and no event of the run names a
  spanner. A path never observed is seeded, one an open call recorded is deferred, and the rest is
  left alone.\<close>

theorem RecordDrift_exact:
  assumes "hook_ok h" "distinct (map hs_Path obs)" "RecordDrift s i observer wt now obs h = Inr (h', out)"
  shows "(\<exists>rows. hk_tree_events h' = hk_tree_events h @ rows \<and>
      map drift_row rows = map (drift_expected h wt) (filter (\<lambda>ob. hs_Locked ob \<and> drift_verdict h wt ob = driftFiled) obs)) \<and>
    hk_spanners h' = hk_spanners h \<and> hk_calls h' = hk_calls h \<and> hk_paths h' = hk_paths h \<and>
    set (dr_Drifted out) = set (drift_paths h wt driftFiled obs) \<and>
    set (dr_Seeded out) = set (drift_paths h wt driftSeeded obs) \<and>
    set (dr_Deferred out) = set (drift_paths h wt driftDeferred obs)"
  using RecordDrift_Inr [OF assms(3,1,2)] by (simp add: drift_moved_def)

text \<open>Drift settles. A second run over the same observations, whoever makes it and whenever, reports no
  drift, seeds nothing, defers what it deferred and changes no table: a change is reported once.\<close>

theorem drift_settles:
  assumes "hook_ok h" "distinct (map hs_Path obs)" "RecordDrift s i observer wt now obs h = Inr (h', out)"
    and "RecordDrift s' j observer' wt now' obs h' = Inr (h2, out2)"
  shows "h2 = h' \<and> dr_Drifted out2 = [] \<and> dr_Seeded out2 = [] \<and> set (dr_Deferred out2) = set (dr_Deferred out)"
proof -
  note r = RecordDrift_Inr [OF assms(3,1,2)]
  have tabs: "hk_calls h' = hk_calls h" "hk_paths h' = hk_paths h" "\<And>k. pathSeqAt h k \<le> pathSeqAt h' k"
    using drift_movedD [OF r(1)] by blast+
  note ok = hook_ok_grow [OF assms(1) tabs]
  have v: "drift_verdict h' wt ob = (if drift_verdict h wt ob \<in> {driftFiled, driftSeeded} then driftUnchanged else drift_verdict h wt ob)"
    if "ob \<in> set obs" "hs_Locked ob" for ob
    using r(1) that by (auto simp: drift_moved_def drift_verdict_def inFlightCallRecordedTx_def)
  have "hs_Locked ob \<and> drift_verdict h' wt ob = u \<longleftrightarrow> hs_Locked ob \<and> drift_verdict h wt ob = u \<and> u \<notin> {driftFiled, driftSeeded}"
    if "ob \<in> set obs" "u \<noteq> driftUnchanged" for ob u
    using v [OF that(1)] that(2) by (auto split: if_splits)
  then have p: "drift_paths h' wt u obs = (if u \<in> {driftFiled, driftSeeded} then [] else drift_paths h wt u obs)"
    if "u \<noteq> driftUnchanged" for u
    unfolding drift_paths_def using that by (auto simp: filter_empty_conv intro!: arg_cong [of _ _ "map hs_Path"] filter_cong)
  note r2 = RecordDrift_Inr [OF assms(4) ok assms(2)]
  show ?thesis using r(4) r2(2-5) p by simp
qed

subsection \<open>Delivery\<close>

definition stamp_delivered :: "string set \<Rightarrow> time \<Rightarrow> report_row list \<Rightarrow> report_row list" where
  "stamp_delivered ids now =
     map (\<lambda>r. if rr_report_id r \<in> ids \<and> rr_delivered_at r = None then r\<lparr>rr_delivered_at := Some now\<rparr> else r)"

definition waiting :: "report_row list \<Rightarrow> string set" where
  "waiting rows = rr_report_id ` {r \<in> set rows. rr_delivered_at r = None}"

lemma waiting_stamp: "waiting (stamp_delivered ids now rows) = waiting rows - ids"
  by (auto simp: waiting_def stamp_delivered_def image_iff split: if_splits)

lemma stamp_stamp: "stamp_delivered A now (stamp_delivered B now rows) = stamp_delivered (A \<union> B) now rows"
  by (auto simp: stamp_delivered_def)

lemma stamp_none: "A \<inter> waiting rows = {} \<Longrightarrow> stamp_delivered A now rows = rows"
proof -
  assume "A \<inter> waiting rows = {}"
  then have "\<not> (rr_report_id r \<in> A \<and> rr_delivered_at r = None)" if "r \<in> set rows" for r
    using that unfolding waiting_def by blast
  then show ?thesis unfolding stamp_delivered_def by (intro map_idI) simp
qed

lemma deliver_loop_eq:
  "snd (deliver_loop now ps rows) = stamp_delivered (tp_ReportID ` set ps) now rows \<and>
   tp_ReportID ` set (fst (deliver_loop now ps rows)) = tp_ReportID ` set ps \<inter> waiting rows \<and>
   distinct (map tp_ReportID (fst (deliver_loop now ps rows))) \<and>
   (\<forall>p \<in> set (fst (deliver_loop now ps rows)). \<exists>q \<in> set ps. p = q\<lparr>tp_Delivered := Some now\<rparr>)"
proof (induction ps arbitrary: rows)
  case Nil
  then show ?case by (simp add: stamp_delivered_def map_idI)
next
  case (Cons p ps)
  have w: "list_ex (\<lambda>r. rr_report_id r = tp_ReportID p \<and> rr_delivered_at r = None) rows \<longleftrightarrow> tp_ReportID p \<in> waiting rows"
    unfolding list_ex_iff waiting_def image_iff by auto
  show ?case
  proof (cases "tp_ReportID p \<in> waiting rows")
    case False
    then have "stamp_delivered (tp_ReportID ` set ps) now rows = stamp_delivered (tp_ReportID ` set (p # ps)) now rows"
      using stamp_none [of "{tp_ReportID p}" rows now] stamp_stamp [of "tp_ReportID ` set ps" now "{tp_ReportID p}" rows] by simp
    then show ?thesis using Cons.IH [of rows] False by (auto simp: w)
  next
    case True
    have st: "map (\<lambda>r. if rr_report_id r = tp_ReportID p \<and> rr_delivered_at r = None then r\<lparr>rr_delivered_at := Some now\<rparr> else r) rows =
        stamp_delivered {tp_ReportID p} now rows" by (simp add: stamp_delivered_def)
    show ?thesis
      using Cons.IH [of "stamp_delivered {tp_ReportID p} now rows"] True unfolding waiting_stamp stamp_stamp
      by (auto simp: w st Let_def)
  qed
qed

lemma readReports_ids:
  "tp_ReportID ` set (readReports P h) =
     rr_report_id ` {r \<in> set (hk_reports h). rr_delivered_at r = None \<and> P r \<and> rr_event_id r \<in> te_EventID ` set (hk_tree_events h)}"
proof -
  have "tp_ReportID ` set (readReports P h) =
      (rr_report_id \<circ> fst) ` {x \<in> set (report_join h). rr_delivered_at (fst x) = None \<and> P (fst x)}"
    by (force simp: readReports_def)
  also have "\<dots> = rr_report_id ` fst ` {x \<in> set (report_join h). rr_delivered_at (fst x) = None \<and> P (fst x)}"
    by (simp add: image_comp)
  also have "fst ` {x \<in> set (report_join h). rr_delivered_at (fst x) = None \<and> P (fst x)} =
      {r \<in> set (hk_reports h). rr_delivered_at r = None \<and> P r \<and> rr_event_id r \<in> te_EventID ` set (hk_tree_events h)}"
    by (force simp: report_join_def)
  finally show ?thesis .
qed

lemma DeliverReports_Inr:
  assumes "DeliverReports i who now h h' = Inr (h2, ps)" "who \<noteq> []"
  shows "h2 = h'\<lparr>hk_reports := stamp_delivered (tp_ReportID ` set (UndeliveredReports h who)) now (hk_reports h')\<rparr>"
    "tp_ReportID ` set ps = tp_ReportID ` set (UndeliveredReports h who) \<inter> waiting (hk_reports h')"
    "distinct (map tp_ReportID ps)" "\<And>p. p \<in> set ps \<Longrightarrow> tp_Delivered p = Some now"
proof -
  note l = deliver_loop_eq [of now "UndeliveredReports h who" "hk_reports h'"]
  have "h2 = h'\<lparr>hk_reports := stamp_delivered (tp_ReportID ` set (UndeliveredReports h who)) now (hk_reports h')\<rparr> \<and>
      ps = fst (deliver_loop now (UndeliveredReports h who) (hk_reports h'))"
  proof (cases "UndeliveredReports h who = []")
    case True
    then show ?thesis using assms by (simp add: DeliverReports_def stamp_delivered_def map_idI)
  next
    case False
    then show ?thesis using assms l by (auto simp: DeliverReports_def Let_def split: if_splits)
  qed
  then show "h2 = h'\<lparr>hk_reports := stamp_delivered (tp_ReportID ` set (UndeliveredReports h who)) now (hk_reports h')\<rparr>"
    "tp_ReportID ` set ps = tp_ReportID ` set (UndeliveredReports h who) \<inter> waiting (hk_reports h')"
    "distinct (map tp_ReportID ps)" "\<And>p. p \<in> set ps \<Longrightarrow> tp_Delivered p = Some now" using l by auto
qed


subsection \<open>Retention\<close>

lemma aged_ids:
  "(rr_report_id \<circ> fst) ` set (agedUndeliveredTx h now) =
     rr_report_id ` {r \<in> set (hk_reports h). rr_delivered_at r = None \<and> rr_created_at r < now - treeReportUndeliveredAge \<and>
        rr_event_id r \<in> te_EventID ` set (hk_tree_events h)}"
proof -
  have "fst ` set (agedUndeliveredTx h now) =
      {r \<in> set (hk_reports h). rr_delivered_at r = None \<and> rr_created_at r < now - treeReportUndeliveredAge \<and>
        rr_event_id r \<in> te_EventID ` set (hk_tree_events h)}"
    by (force simp: agedUndeliveredTx_def report_join_def)
  then show ?thesis by (metis image_comp)
qed

lemma dropAged_tables:
  "hk_tree_events (dropAgedUndeliveredTx s now h) = hk_tree_events h"
  "hk_reports (dropAgedUndeliveredTx s now h) =
     filter (\<lambda>r. rr_report_id r \<notin> (rr_report_id \<circ> fst) ` set (agedUndeliveredTx h now)) (hk_reports h)"
  by (simp_all add: dropAgedUndeliveredTx_def Let_def)

definition kept_events :: "hook_db \<Rightarrow> tree_event_row list" where
  "kept_events h = filter (\<lambda>e. te_EventID e \<notin> set (overflow_events h)) (hk_tree_events h)"

lemma DropOldTreeEvents_Inr:
  assumes "DropOldTreeEvents s i now h = Inr (h', n)"
  defines "h1 \<equiv> dropAgedUndeliveredTx s now h"
  shows "hk_tree_events h' = kept_events h1"
    "r \<in> set (hk_reports h1) \<Longrightarrow> rr_event_id r \<in> te_EventID ` set (kept_events h1) \<Longrightarrow> r \<in> set (hk_reports h')"
    "set (hk_reports h') \<subseteq> set (hk_reports h1)"
    "n = length (hk_tree_events h) - length (hk_tree_events h')"
proof -
  define m where "m = length (hk_tree_events h1) - length (kept_events h1)"
  have "h' = (if m = 0 then h1\<lparr>hk_tree_events := kept_events h1\<rparr>
      else h1\<lparr>hk_tree_events := kept_events h1,
        hk_spanners := filter (\<lambda>r. sr_event_id r \<in> te_EventID ` set (kept_events h1)) (hk_spanners h1),
        hk_reports := filter (\<lambda>r. rr_event_id r \<in> te_EventID ` set (kept_events h1)) (hk_reports h1)\<rparr>) \<and> n = m"
    using assms(1) unfolding DropOldTreeEvents_def Let_def h1_def [symmetric] kept_events_def [symmetric] m_def [symmetric]
    by (simp split: if_splits)
  moreover have "hk_tree_events h1 = hk_tree_events h" by (simp add: h1_def dropAged_tables)
  ultimately show "hk_tree_events h' = kept_events h1"
    "r \<in> set (hk_reports h1) \<Longrightarrow> rr_event_id r \<in> te_EventID ` set (kept_events h1) \<Longrightarrow> r \<in> set (hk_reports h')"
    "set (hk_reports h') \<subseteq> set (hk_reports h1)"
    "n = length (hk_tree_events h) - length (hk_tree_events h')"
    by (auto simp: m_def split: if_splits)
qed

lemma awaited_kept:
  assumes "awaited h (te_EventID e)" "e \<in> set (hk_tree_events h)"
  shows "e \<in> set (kept_events h)"
  using assms by (auto simp: kept_events_def overflow_events_def dest!: in_set_dropD)

lemma kept_bound: "length (filter (\<lambda>e. \<not> awaited h (te_EventID e)) (kept_events h)) \<le> treeEventsRetentionMax"
proof -
  let ?L = "filter (\<lambda>e. \<not> awaited h (te_EventID e)) (hk_tree_events h)"
  let ?S = "sort_key (\<lambda>e. - te_CreatedAt e) (rev ?L)"
  let ?keep = "\<lambda>e. te_EventID e \<notin> set (overflow_events h)"
  have "mset (filter ?keep ?S) = mset (filter ?keep ?L)" by (simp only: mset_filter mset_sort mset_rev)
  then have "length (filter ?keep ?L) = length (filter ?keep ?S)" by (metis size_mset)
  also have "filter ?keep ?S = filter ?keep (take treeEventsRetentionMax ?S) @ filter ?keep (drop treeEventsRetentionMax ?S)"
    by (simp only: filter_append [symmetric] append_take_drop_id)
  also have "filter ?keep (drop treeEventsRetentionMax ?S) = []" by (simp add: filter_empty_conv overflow_events_def)
  finally have "length (filter ?keep ?L) \<le> treeEventsRetentionMax"
    using length_filter_le [of ?keep "take treeEventsRetentionMax ?S"] by simp
  moreover have "filter (\<lambda>e. \<not> awaited h (te_EventID e)) (kept_events h) = filter ?keep ?L"
    by (simp add: kept_events_def conj_commute)
  ultimately show ?thesis by simp
qed

text \<open>C25: Retention is bounded and loses nobody's news. No report younger than seven days that still waits for
  its addressee is dropped, nor is its event, however many events there are; of the events nobody
  waits for at most a thousand stay; and nothing is invented.\<close>

theorem DropOldTreeEvents_keeps_waiting:
  assumes "DropOldTreeEvents s i now h = Inr (h', n)" "distinct (map rr_report_id (hk_reports h))"
  shows "(\<forall>r \<in> set (hk_reports h). \<forall>e \<in> set (hk_tree_events h). rr_delivered_at r = None \<and> rr_event_id r = te_EventID e \<and>
      now - treeReportUndeliveredAge \<le> rr_created_at r \<longrightarrow> r \<in> set (hk_reports h') \<and> e \<in> set (hk_tree_events h')) \<and>
    length (filter (\<lambda>e. \<not> awaited h' (te_EventID e)) (hk_tree_events h')) \<le> treeEventsRetentionMax \<and>
    set (hk_tree_events h') \<subseteq> set (hk_tree_events h) \<and> set (hk_reports h') \<subseteq> set (hk_reports h) \<and>
    n = length (hk_tree_events h) - length (hk_tree_events h')"
proof -
  let ?h1 = "dropAgedUndeliveredTx s now h"
  note d = DropOldTreeEvents_Inr [OF assms(1)]
  have keep: "r \<in> set (hk_reports h') \<and> e \<in> set (hk_tree_events h')"
    if r: "r \<in> set (hk_reports h)" "e \<in> set (hk_tree_events h)" "rr_delivered_at r = None" "rr_event_id r = te_EventID e"
      "now - treeReportUndeliveredAge \<le> rr_created_at r" for r e
  proof -
    have "rr_report_id r \<notin> rr_report_id ` {r \<in> set (hk_reports h). rr_delivered_at r = None \<and>
        rr_created_at r < now - treeReportUndeliveredAge \<and> rr_event_id r \<in> te_EventID ` set (hk_tree_events h)}"
    proof
      assume "rr_report_id r \<in> rr_report_id ` {r \<in> set (hk_reports h). rr_delivered_at r = None \<and>
        rr_created_at r < now - treeReportUndeliveredAge \<and> rr_event_id r \<in> te_EventID ` set (hk_tree_events h)}"
      then obtain x where x: "x \<in> set (hk_reports h)" "rr_report_id x = rr_report_id r" "rr_created_at x < now - treeReportUndeliveredAge"
        by auto
      with assms(2) r(1) have "x = r" by (metis distinct_map inj_onD)
      with x(3) r(5) show False by simp
    qed
    then have r1: "r \<in> set (hk_reports ?h1)" using r(1) by (simp only: dropAged_tables aged_ids set_filter) simp
    have "awaited ?h1 (te_EventID e)"
      using r1 r(3,4) by (auto simp: awaited_def list_ex_iff)
    then have e: "e \<in> set (kept_events ?h1)" by (rule awaited_kept) (simp add: dropAged_tables r(2))
    then show ?thesis using d(2) [OF r1] r(4) by (simp add: d(1))
  qed
  have "awaited ?h1 (te_EventID e) \<longrightarrow> awaited h' (te_EventID e)" if e: "e \<in> set (kept_events ?h1)" for e
  proof
    assume "awaited ?h1 (te_EventID e)"
    then obtain r where "r \<in> set (hk_reports ?h1)" "rr_event_id r = te_EventID e" "rr_delivered_at r = None"
      by (auto simp: awaited_def list_ex_iff)
    with d(2) [OF this(1)] e show "awaited h' (te_EventID e)" by (auto simp: awaited_def list_ex_iff)
  qed
  then have "length (filter (\<lambda>e. \<not> awaited h' (te_EventID e)) (kept_events ?h1)) \<le>
      length (filter (\<lambda>e. \<not> awaited ?h1 (te_EventID e)) (kept_events ?h1))"
    by (intro length_filter_mono) auto
  also note kept_bound [of ?h1]
  finally have "length (filter (\<lambda>e. \<not> awaited h' (te_EventID e)) (hk_tree_events h')) \<le> treeEventsRetentionMax"
    by (simp only: d(1))
  moreover have "set (hk_tree_events h') \<subseteq> set (hk_tree_events h)" by (auto simp: d(1) kept_events_def dropAged_tables)
  moreover have "set (hk_reports h') \<subseteq> set (hk_reports h)" using d(3) by (auto simp: dropAged_tables)
  ultimately show ?thesis using keep d(4) by blast
qed

subsection \<open>Examples\<close>

definition ex_watched :: hook_db where
  "ex_watched = ex_hooks\<lparr>hk_observed := (\<lambda>_. None)((''f.go'', ''/r'', 0) \<mapsto> (''t'', ''d0'', 0))\<rparr>"

lemma ex_watched_ok: "hook_ok ex_watched"
  by (simp add: ex_watched_def ex_hooks_def hook_ok_def empty_db_def)

lemma ex_watched_verdict: "drift_verdict ex_watched ''/r'' (ex_seen ''d1'') = driftFiled"
  by (simp add: drift_verdict_def observedAtTx_def ex_watched_def ex_seen_def ex_hooks_def inFlightCallRecordedTx_def)

lemma RecordDrift_total: "io_begin i \<Longrightarrow> io_commit i \<Longrightarrow> \<exists>h' out. RecordDrift s i observer wt now obs h = Inr (h', out)"
  by (simp add: RecordDrift_def Let_def)

lemma ex_io_ok [simp]: "io_begin (ex_io t)" "io_commit (ex_io t)"
  by (simp_all add: ex_io_def)

theorem RecordDrift_exact_witness:
  "\<exists>h' out. RecordDrift ex_store (ex_io 5) ''al'' ''/r'' 5 [ex_seen ''d1''] ex_watched = Inr (h', out) \<and>
     map drift_row (hk_tree_events h') = [(''f.go'', ''/r'', 0, 1, ''d0'', ''d1'', TreeRuleDrift)] \<and>
     set (dr_Drifted out) = {''f.go''}"
proof -
  obtain h' out where r: "RecordDrift ex_store (ex_io 5) ''al'' ''/r'' 5 [ex_seen ''d1''] ex_watched = Inr (h', out)"
    using RecordDrift_total [of "ex_io 5" ex_store "''al''" "''/r''" 5 "[ex_seen ''d1'']" ex_watched] by auto
  have "distinct (map hs_Path [ex_seen ''d1''])" by simp
  from RecordDrift_exact [OF ex_watched_ok this r] r show ?thesis
    by (auto simp: ex_watched_verdict drift_paths_def drift_expected_def pathSeqAt_def observedAtTx_def)
      (auto simp: ex_watched_def ex_hooks_def ex_seen_def)
qed

theorem drift_settles_witness:
  "\<exists>h' out h2 out2. RecordDrift ex_store (ex_io 5) ''al'' ''/r'' 5 [ex_seen ''d1''] ex_watched = Inr (h', out) \<and>
     RecordDrift ex_store (ex_io 6) ''bo'' ''/r'' 6 [ex_seen ''d1''] h' = Inr (h2, out2) \<and> h2 = h' \<and> dr_Drifted out2 = []"
proof -
  obtain h' out where r: "RecordDrift ex_store (ex_io 5) ''al'' ''/r'' 5 [ex_seen ''d1''] ex_watched = Inr (h', out)"
    using RecordDrift_total [of "ex_io 5" ex_store "''al''" "''/r''" 5 "[ex_seen ''d1'']" ex_watched] by auto
  obtain h2 out2 where r2: "RecordDrift ex_store (ex_io 6) ''bo'' ''/r'' 6 [ex_seen ''d1''] h' = Inr (h2, out2)"
    using RecordDrift_total [of "ex_io 6" ex_store "''bo''" "''/r''" 6 "[ex_seen ''d1'']" h'] by auto
  have "distinct (map hs_Path [ex_seen ''d1''])" by simp
  from drift_settles [OF ex_watched_ok this r r2] r r2 show ?thesis by blast
qed

definition ex_reported :: hook_db where
  "ex_reported = ex_hooks\<lparr>
     hk_tree_events := [event_of_input (drift_input (ex_seen ''d1'') ''bo'' ''/r'' ''d0'' 1) ''e-1'' TreeRuleDrift 5],
     hk_reports := [\<lparr>rr_report_id = ''p-1'', rr_event_id = ''e-1'', rr_addressee_uuid = ''al'', rr_created_at = 5,
       rr_delivered_at = None, rr_acted_at = None\<rparr>]\<rparr>"

lemma DeliverReports_total: "io_begin i \<Longrightarrow> io_commit i \<Longrightarrow> \<exists>h2 ps. DeliverReports i who now h h' = Inr (h2, ps)"
  by (simp add: DeliverReports_def Let_def)


theorem DropOldTreeEvents_keeps_waiting_witness:
  "\<exists>h' n. DropOldTreeEvents ex_store (ex_io 9) 9 ex_reported = Inr (h', n) \<and>
     hk_reports ex_reported \<noteq> [] \<and> hd (hk_reports ex_reported) \<in> set (hk_reports h')"
proof -
  obtain h' n where r: "DropOldTreeEvents ex_store (ex_io 9) 9 ex_reported = Inr (h', n)"
    by (simp add: DropOldTreeEvents_def Let_def) metis
  have "distinct (map rr_report_id (hk_reports ex_reported))" by (simp add: ex_reported_def)
  from conjunct1 [OF DropOldTreeEvents_keeps_waiting [OF r this]] r show ?thesis
    by (simp add: ex_reported_def event_of_input_def drift_input_def treeReportUndeliveredAge_def eventsRetentionAge_def hour_def)
qed

end
