(* ===== verification/History.thy ===== *)
theory History
  imports System Reports
begin

text \<open>
  The hooks, the sweeps and the lock store as steps on one set of tables: what every history of them
  keeps.  \<open>number_ok\<close> says that a transition number stands for one state of its path.
\<close>

subsection \<open>One number, one state\<close>

definition event_key :: "tree_event_row \<Rightarrow> path_key" where
  "event_key e = (te_Path e, te_Worktree e, te_EpochPre e)"

definition number_ok :: "hook_db \<Rightarrow> bool" where
  "number_ok h \<longleftrightarrow>
     (\<forall>e \<in> set (hk_tree_events h). te_Seq e \<le> pathSeqAt h (event_key e) \<and>
        (te_Seq e = pathSeqAt h (event_key e) \<longrightarrow> numbered h (event_key e) (te_Seq e) (te_DigestPost e))) \<and>
     (\<forall>e \<in> set (hk_tree_events h). \<forall>e' \<in> set (hk_tree_events h). event_key e = event_key e' \<and> te_Seq e = te_Seq e' \<longrightarrow>
        te_DigestPost e = te_DigestPost e')"

lemma number_okD:
  assumes "number_ok h"
  shows "e \<in> set (hk_tree_events h) \<Longrightarrow> te_Seq e \<le> pathSeqAt h (event_key e)"
    "e \<in> set (hk_tree_events h) \<Longrightarrow> te_Seq e = pathSeqAt h (event_key e) \<Longrightarrow>
       numbered h (event_key e) (te_Seq e) (te_DigestPost e)"
    "e \<in> set (hk_tree_events h) \<Longrightarrow> e' \<in> set (hk_tree_events h) \<Longrightarrow> event_key e = event_key e' \<Longrightarrow>
       te_Seq e = te_Seq e' \<Longrightarrow> te_DigestPost e = te_DigestPost e'"
  using assms unfolding number_ok_def by blast+

lemma number_okI:
  assumes "\<And>e. e \<in> set (hk_tree_events h) \<Longrightarrow> te_Seq e \<le> pathSeqAt h (event_key e) \<and>
      (te_Seq e = pathSeqAt h (event_key e) \<longrightarrow> numbered h (event_key e) (te_Seq e) (te_DigestPost e))"
    and "\<And>e e'. e \<in> set (hk_tree_events h) \<Longrightarrow> e' \<in> set (hk_tree_events h) \<Longrightarrow> event_key e = event_key e' \<Longrightarrow>
       te_Seq e = te_Seq e' \<Longrightarrow> te_DigestPost e = te_DigestPost e'"
  shows "number_ok h"
  using assms unfolding number_ok_def by blast

lemma number_ok_subset:
  assumes "number_ok h" "set (hk_tree_events h') \<subseteq> set (hk_tree_events h)" "hk_path_seq h' = hk_path_seq h"
  shows "number_ok h'"
  using assms(1,2) pathSeqAt_cong [OF assms(3)] numbered_cong [OF fun_cong [OF assms(3)]]
  unfolding number_ok_def by (metis subsetD)

lemmas number_ok_cong = number_ok_subset [OF _ equalityD1 [OF arg_cong [of _ _ set]]]

lemma numbered_unique: "numbered h k n dg \<Longrightarrow> numbered h k n' dg' \<Longrightarrow> n = n' \<and> dg = dg'"
  by (simp add: numbered_def)

lemma numbered_at: "numbered h k n dg \<Longrightarrow> pathSeqAt h k = n"
  by (simp add: numbered_def pathSeqAt_state)

lemma number_ok_bump:
  assumes "number_ok h"
  shows "number_ok (snd (nextPathSeq dg h k))"
proof -
  let ?h = "snd (nextPathSeq dg h k)"
  have ev: "hk_tree_events ?h = hk_tree_events h" by (simp add: frame_simps)
  have seq: "pathSeqAt ?h k' = (if k' = k then pathSeqAt h k + 1 else pathSeqAt h k')" for k'
    by (rule path_seqs.bump_cur)
  have num: "numbered ?h k' n d \<longleftrightarrow> numbered h k' n d" if "k' \<noteq> k" for k' n d
    by (rule numbered_cong) (use that in \<open>simp add: nextPathSeq_def Let_def\<close>)
  show ?thesis
  proof (rule number_okI)
    fix e assume "e \<in> set (hk_tree_events ?h)"
    then have e: "e \<in> set (hk_tree_events h)" by (simp only: ev)
    show "te_Seq e \<le> pathSeqAt ?h (event_key e) \<and>
      (te_Seq e = pathSeqAt ?h (event_key e) \<longrightarrow> numbered ?h (event_key e) (te_Seq e) (te_DigestPost e))"
      using number_okD(1,2) [OF assms e] num by (cases "event_key e = k") (simp_all add: seq)
  next
    fix e e' assume a: "e \<in> set (hk_tree_events ?h)" "e' \<in> set (hk_tree_events ?h)" "event_key e = event_key e'" "te_Seq e = te_Seq e'"
    show "te_DigestPost e = te_DigestPost e'" by (rule number_okD(3) [OF assms a [unfolded ev]])
  qed
qed

lemma fileTreeEventTx_row:
  "hk_tree_events (snd (fileTreeEventTx s inp now h)) =
     hk_tree_events h @ [event_of_input inp (fst (newID s ''e-'' (hk_db h)))
       (fst (classifyTreeEvent inp (spannersTx h (ti_Path inp) (ti_Worktree inp) (ti_EpochPre inp) (ti_Seq inp) (ti_Observer inp)))) now]"
  by (simp add: fileTreeEventTx_def Let_def frame_simps)

lemma number_ok_file:
  assumes "number_ok h" "numbered h (ti_Path inp, ti_Worktree inp, ti_EpochPre inp) (ti_Seq inp) (ti_DigestPost inp)"
  shows "number_ok (snd (fileTreeEventTx s inp now h))"
proof -
  let ?h = "snd (fileTreeEventTx s inp now h)" and ?k = "(ti_Path inp, ti_Worktree inp, ti_EpochPre inp)"
  obtain r where ev: "hk_tree_events ?h = hk_tree_events h @ [r]" "event_key r = ?k" "te_Seq r = ti_Seq inp" "te_DigestPost r = ti_DigestPost inp"
    by (simp add: fileTreeEventTx_row event_key_def event_of_input_def)
  have q: "hk_path_seq ?h = hk_path_seq h" by (simp add: frame_simps)
  have c: "pathSeqAt ?h k = pathSeqAt h k" "numbered ?h k n d = numbered h k n d" for k n d
    by (rule pathSeqAt_cong [OF q], rule numbered_cong [OF fun_cong [OF q]])
  have r: "te_DigestPost e = te_DigestPost r" if "e \<in> set (hk_tree_events h)" "event_key e = ?k" "te_Seq e = ti_Seq inp" for e
  proof -
    have "te_Seq e = pathSeqAt h (event_key e)" using that numbered_at [OF assms(2)] by simp
    then have "numbered h ?k (ti_Seq inp) (te_DigestPost e)" using assms(1) that unfolding number_ok_def by metis
    with numbered_unique [OF assms(2)] show ?thesis by (simp add: ev(4))
  qed
  have r0: "te_Seq r \<le> pathSeqAt h (event_key r)" "numbered h (event_key r) (te_Seq r) (te_DigestPost r)"
    using assms(2) numbered_at [OF assms(2)] by (simp_all add: ev)
  show ?thesis
  proof (rule number_okI)
    fix e assume "e \<in> set (hk_tree_events ?h)"
    then consider "e = r" | "e \<in> set (hk_tree_events h)" by (auto simp: ev(1))
    then show "te_Seq e \<le> pathSeqAt ?h (event_key e) \<and>
        (te_Seq e = pathSeqAt ?h (event_key e) \<longrightarrow> numbered ?h (event_key e) (te_Seq e) (te_DigestPost e))"
      unfolding c using r0 number_okD(1,2) [OF assms(1)] by cases blast+
  next
    fix e e' assume "e \<in> set (hk_tree_events ?h)" "e' \<in> set (hk_tree_events ?h)" and k: "event_key e = event_key e'" "te_Seq e = te_Seq e'"
    then consider "e = r" "e' = r" | "e = r" "e' \<in> set (hk_tree_events h)" | "e \<in> set (hk_tree_events h)" "e' = r"
      | "e \<in> set (hk_tree_events h)" "e' \<in> set (hk_tree_events h)" by (auto simp: ev(1))
    then show "te_DigestPost e = te_DigestPost e'"
    proof cases
      case 2 with r [of e'] k show ?thesis by (simp add: ev)
    next
      case 3 with r [of e] k show ?thesis by (simp add: ev)
    next
      case 4 with number_okD(3) [OF assms(1)] k show ?thesis by blast
    qed simp
  qed
qed

lemma number_ok_post_path:
  assumes "postOnePathTx cid wt ob prev h = Inr (h1, res)" "number_ok h"
  shows "number_ok h1"
proof -
  let ?k = "(hs_Path ob, wt, case prev of None \<Rightarrow> hs_Epoch ob | Some p \<Rightarrow> cp_epoch_pre p)"
  let ?m = "case prev of None \<Rightarrow> fst (pathSeqStateTx h ?k) | Some p \<Rightarrow> cp_seq_pre p"
  let ?n = "post_seq (pathChanged prev ob) ?m ob ?k h"
  have "number_ok (snd ?n)"
    using assms(2) number_ok_bump by (simp add: post_seq_def Let_def)
  moreover have "hk_tree_events h1 = hk_tree_events (snd ?n)" "hk_path_seq h1 = hk_path_seq (snd ?n)"
    using assms(1) by (auto simp: postOnePathTx_def Let_def split: option.splits sum.splits dest!: insert_path_Inr)
  ultimately show ?thesis by (rule number_ok_cong)
qed

lemma number_ok_post_step:
  assumes "postOnePathWithEventTx s cid owner wt ob recorded t x = Inr x'" "number_ok (snd x)"
  shows "number_ok (snd x')"
proof -
  obtain h1 res where one: "postOnePathTx cid wt ob (recorded (hs_Path ob)) (snd x) = Inr (h1, res)"
    using assms(1) by (auto simp: postOnePathWithEventTx_def split: sum.splits)
  define a where "a = markTreeChangeActedTx s owner (hs_Path ob) wt (hs_Digest ob) t h1"
  define h3 where "h3 = (if hs_Locked ob then setObservedTx ob wt t (snd a) else snd a)"
  have h3: "hk_tree_events h3 = hk_tree_events h1" "hk_path_seq h3 = hk_path_seq h1"
    by (simp_all add: h3_def a_def frame_simps)
  have ok3: "number_ok h3" by (rule number_ok_cong [OF number_ok_post_path [OF one assms(2)] h3])
  have "snd x' = (if pr_changed res then snd (fileTreeEventTx s (post_input res ob owner cid wt) t h3) else h3)"
    using assms(1) by (auto simp: postOnePathWithEventTx_def one Let_def a_def h3_def split: if_splits)
  moreover have "number_ok (snd (fileTreeEventTx s (post_input res ob owner cid wt) t h3))" if "pr_changed res"
    by (rule number_ok_file [OF ok3])
      (use postOnePathTx_numbered(1) [OF one that] numbered_cong [OF fun_cong [OF h3(2)]] in \<open>simp add: post_input_def\<close>)
  ultimately show ?thesis using ok3 by simp
qed

lemma number_ok_post_loop:
  "post_loop s cid owner wt obs recorded t x = Inr x' \<Longrightarrow> number_ok (snd x) \<Longrightarrow> number_ok (snd x')"
  by (induction obs arbitrary: x) (auto split: sum.splits dest: number_ok_post_step)

lemma number_ok_drift_step:
  assumes "number_ok h"
  shows "number_ok (snd (driftOnePathTx s observer wt now ob h))"
proof -
  let ?k = "(hs_Path ob, wt, hs_Epoch ob)"
  have seen: "number_ok h' \<Longrightarrow> number_ok (setObservedTx ob wt now h')" for h'
    by (erule number_ok_cong) (simp_all add: frame_simps)
  have "numbered (snd (nextPathSeq (hs_Digest ob) h ?k)) ?k (fst (nextPathSeq (hs_Digest ob) h ?k)) (hs_Digest ob)"
    by (simp add: numbered_def pathSeqStateTx_def nextPathSeq_def Let_def)
  then have "number_ok (snd (fileTreeEventTx s (drift_input ob observer wt dg (fst (nextPathSeq (hs_Digest ob) h ?k))) now
      (snd (nextPathSeq (hs_Digest ob) h ?k))))" for dg
    by (intro number_ok_file number_ok_bump assms) (simp add: drift_input_def)
  then show ?thesis using assms seen by (auto simp: driftOnePathTx_def Let_def split: option.splits)
qed

lemma number_ok_drift_loop: "number_ok h \<Longrightarrow> number_ok (snd (drift_loop s observer wt now obs out h))"
  by (induction obs arbitrary: out h) (simp_all add: Let_def number_ok_drift_step)

subsection \<open>What the hook layer does to the store\<close>

text \<open>It appends to the log, rewrites call rows and extends leases; nothing else of \<open>db\<close> moves.\<close>

definition same_store :: "db \<Rightarrow> db \<Rightarrow> bool" where
  "same_store d d' \<longleftrightarrow> db_locks d' = db_locks d \<and> db_path_epochs d' = db_path_epochs d \<and> db_tags d' = db_tags d \<and>
     db_violations d' = db_violations d \<and> db_candidate_claims d' = db_candidate_claims d"

named_theorems same_store_intros

lemma same_store_refl [simp]: "same_store d d"
  by (simp add: same_store_def)

lemma same_store_trans: "same_store d d1 \<Longrightarrow> same_store d1 d2 \<Longrightarrow> same_store d d2"
  by (simp add: same_store_def)

lemma same_store_ok: "store_ok f d \<Longrightarrow> same_store d d' \<Longrightarrow> store_ok f d'"
  by (simp add: store_ok_def same_store_def)

lemma appendEventTx_same: "same_store d (appendEventTx s e d)"
  by (simp add: same_store_def frame_simps)

lemma appendEventsTx_same: "same_store d (snd (appendEventsTx s es d))"
  by (simp add: same_store_def frame_simps)

lemma newID_same: "same_store d (snd (newID s pre d))"
  by (simp add: same_store_def frame_simps)

lemma resolved_same: "same_store d (appendPostMissingResolvedTx s cid ow se reason age now d)"
  by (simp add: appendPostMissingResolvedTx_def appendEventTx_same)

lemma upd_calls_same: "same_store d (upd_calls P f d)"
  by (simp add: upd_calls_def same_store_def)

lemma file_reports_same: "same_store (hk_db h) (hk_db (file_reports s ev now ws h))"
proof (induction ws arbitrary: h)
  case (Cons w ws)
  let ?r = "newID s ''e-'' (hk_db h)"
  have "same_store (hk_db h) (appendTreeChangeReportedTx s ev w now (snd ?r))"
    unfolding appendTreeChangeReportedTx_def by (rule same_store_trans [OF newID_same appendEventTx_same])
  then show ?case by (simp add: Let_def) (rule same_store_trans [OF _ Cons.IH], simp)
qed simp

lemma fileTreeEventTx_same: "same_store (hk_db h) (hk_db (snd (fileTreeEventTx s inp now h)))"
  by (simp add: fileTreeEventTx_def Let_def) (rule same_store_trans [OF _ file_reports_same], simp add: newID_same)

lemma markTreeChangeActedTx_same: "same_store (hk_db h) (hk_db (snd (markTreeChangeActedTx s ow path wt dg now h)))"
  by (simp add: markTreeChangeActedTx_def Let_def appendEventsTx_same)

lemma post_step_same:
  assumes "postOnePathWithEventTx s cid owner wt ob recorded t x = Inr x'"
  shows "same_store (hk_db (snd x)) (hk_db (snd x'))"
proof -
  obtain h1 res where one: "postOnePathTx cid wt ob (recorded (hs_Path ob)) (snd x) = Inr (h1, res)"
    using assms by (auto simp: postOnePathWithEventTx_def split: sum.splits)
  have h1: "hk_db h1 = hk_db (snd x)"
    using one by (auto simp: postOnePathTx_def Let_def frame_simps split: option.splits sum.splits dest!: insert_path_Inr)
  define a where "a = markTreeChangeActedTx s owner (hs_Path ob) wt (hs_Digest ob) t h1"
  define h3 where "h3 = (if hs_Locked ob then setObservedTx ob wt t (snd a) else snd a)"
  have "same_store (hk_db (snd x)) (hk_db h3)"
    using markTreeChangeActedTx_same [of h1 s owner "hs_Path ob" wt "hs_Digest ob" t] by (simp add: h3_def a_def frame_simps h1)
  moreover have "snd x' = (if pr_changed res then snd (fileTreeEventTx s (post_input res ob owner cid wt) t h3) else h3)"
    using assms by (auto simp: postOnePathWithEventTx_def one Let_def a_def h3_def split: if_splits)
  ultimately show ?thesis using same_store_trans [OF _ fileTreeEventTx_same] by simp
qed

lemma post_loop_same:
  "post_loop s cid owner wt obs recorded t x = Inr x' \<Longrightarrow> same_store (hk_db (snd x)) (hk_db (snd x'))"
proof (induction obs arbitrary: x)
  case (Cons ob obs)
  show ?case
  proof (cases "postOnePathWithEventTx s cid owner wt ob recorded t x")
    case (Inl er)
    with Cons.prems show ?thesis by simp
  next
    case (Inr x1)
    with Cons.prems have "post_loop s cid owner wt obs recorded t x1 = Inr x'" by simp
    from same_store_trans [OF post_step_same [OF Inr] Cons.IH [OF this]] show ?thesis .
  qed
qed simp

lemma drift_loop_same: "same_store (hk_db h) (hk_db (snd (drift_loop s observer wt now obs out h)))"
proof (induction obs arbitrary: out h)
  case (Cons ob obs)
  have n: "same_store (hk_db h) (hk_db (snd (fileTreeEventTx s inp now (snd (nextPathSeq dg h k)))))" for inp dg k
    using fileTreeEventTx_same [of "snd (nextPathSeq dg h k)" s inp now] by (simp add: frame_simps)
  have st: "same_store (hk_db h) (hk_db (snd (driftOnePathTx s observer wt now ob h)))"
    unfolding driftOnePathTx_def Let_def by (simp add: frame_simps n split: option.split)
  show ?case
    by (cases "hs_Locked ob") (simp_all add: Let_def Cons.IH same_store_trans [OF st Cons.IH])
qed simp

lemma flag_loop_same: "same_store (hk_db h) (hk_db (flag_loop s now cs h))"
proof (induction cs arbitrary: h)
  case (Cons c cs)
  show ?case
    by (simp, rule same_store_trans [OF _ Cons.IH]) (simp add: frame_simps same_store_trans [OF upd_calls_same appendEventTx_same])
qed simp

lemma dead_loop_same: "same_store (hk_db h) (hk_db (snd (dead_loop s now dead open_calls ids h)))"
proof (induction ids arbitrary: h)
  case (Cons cid ids)
  have "same_store (hk_db h) (hk_db (snd (markOneDeadCallTx s c reason now h)))" for c reason
    by (auto simp: markOneDeadCallTx_def Let_def frame_simps upd_calls_same intro: same_store_trans [OF upd_calls_same resolved_same])
  then show ?case using Cons.IH by (auto simp: Let_def split: option.splits intro: same_store_trans)
qed simp

subsection \<open>The steps\<close>

datatype hook_action =
    HookStore action
  | HookPre string
  | HookPost string
  | HookDrift
  | HookDeliver AgentUUID
  | HookSweepDead
  | HookFlag
  | HookDrop
  | HookDelete string
  | HookRetain

text \<open>\<open>deliver\<close> and \<open>sweep_dead\<close> read tables \<open>g\<close> before their transaction; any tables may have been read.\<close>

inductive hstep :: "bool \<Rightarrow> hook_action \<Rightarrow> hook_db \<Rightarrow> hook_db \<Rightarrow> bool" for f where
  store: "step f a (hk_db h) d' \<Longrightarrow> hstep f (HookStore a) h (h\<lparr>hk_db := d'\<rparr>)"
| pre: "RecordCallPre s i c obs h = Inr (h', b) \<Longrightarrow> s_caseFold s = f \<Longrightarrow> hstep f (HookPre (hkc_CallID c)) h h'"
| post: "RecordCallPost s i cid t obs h = Inr (h', out) \<Longrightarrow> s_caseFold s = f \<Longrightarrow> hstep f (HookPost cid) h h'"
| drift: "RecordDrift s i observer wt now obs h = Inr (h', dout) \<Longrightarrow> hstep f HookDrift h h'"
| deliver: "DeliverReports i who now g h = Inr (h', ps) \<Longrightarrow> hstep f (HookDeliver who) h h'"
| sweep_dead: "MarkDeadOwnerCalls s i now probe g h = Inr (h', n) \<Longrightarrow> hstep f HookSweepDead h h'"
| flag: "MarkPostMissing s i now tReport h = Inr (h', n) \<Longrightarrow> hstep f HookFlag h h'"
| drop: "DropFinishedCalls i now floor h = Inr (h', n) \<Longrightarrow> hstep f HookDrop h h'"
| delete: "DeleteCallAndTiming i cid h = Inr (h', r) \<Longrightarrow> hstep f (HookDelete cid) h h'"
| retain: "DropOldTreeEvents s i now h = Inr (h', n) \<Longrightarrow> hstep f HookRetain h h'"

inductive_cases hstep_postE: "hstep f (HookPost cid) h h'"

definition no_hooks :: hook_db where
  "no_hooks = \<lparr>hk_db = empty_db, hk_paths = [], hk_path_seq = (\<lambda>_. None), hk_observed = (\<lambda>_. None),
     hk_tree_events = [], hk_spanners = [], hk_reports = []\<rparr>"

definition hooks_reachable :: "bool \<Rightarrow> hook_db \<Rightarrow> bool" where
  "hooks_reachable f h \<longleftrightarrow> (\<exists>as. run (hstep f) as no_hooks h)"

definition hooks_inv :: "bool \<Rightarrow> hook_db \<Rightarrow> bool" where
  "hooks_inv f h \<longleftrightarrow> store_ok f (hk_db h) \<and> hook_ok h \<and> number_ok h"

lemma step_calls: "step f a d d' \<Longrightarrow> db_hook_calls d' = db_hook_calls d"
  by (erule step_locks) (auto simp: locks_thinned_def same_locks_def AcquireLocks_frame)

lemma refresh_store_ok:
  "store_ok f d \<Longrightarrow> s_caseFold s = f \<Longrightarrow> store_ok f (refreshCallerLocksTx s (s_caseFold s) own wt paths since now d)"
  using step_store_ok [OF _ step.hook_refresh] by blast

lemma RecordCallPre_store:
  assumes "RecordCallPre s i c obs h = Inr (h', b)" "hook_ok h" "store_ok (s_caseFold s) (hk_db h)"
  shows "store_ok (s_caseFold s) (hk_db h')"
proof (cases b)
  case False
  with assms(1) have "h' = h" by (auto simp: RecordCallPre_def Let_def split: if_splits sum.splits)
  with assms(3) show ?thesis by simp
next
  case True
  from RecordCallPre_io [OF assms(1) True] have io: "io_begin i" "io_commit i" by simp_all
  have "store_ok (s_caseFold s) (hk_db h\<lparr>db_hook_calls := x\<rparr>)" for x
    by (rule same_store_ok [OF assms(3)]) (simp add: same_store_def)
  with assms(1) [unfolded RecordCallPre_exact [OF assms(2) io]] True show ?thesis
    by (auto simp: frame_simps refresh_store_ok split: if_splits)
qed

lemma RecordCallPost_store:
  assumes "RecordCallPost s i cid t obs h = Inr (h', out)" "store_ok (s_caseFold s) (hk_db h)"
  shows "store_ok (s_caseFold s) (hk_db h')"
proof (cases "po_Recorded out")
  case False
  with RecordCallPost_repeat [OF assms(1)] assms(2) show ?thesis by simp
next
  case True
  obtain c where c: "find (\<lambda>c. hc_call_id c = cid) (hk_calls h) = Some c" "hc_t_post c = None"
    using assms(1) True by (auto simp: RecordCallPost_def split: if_splits option.splits)
  define h1 where "h1 = (if hc_post_missing c \<and> hc_dead_at c = None
      then on_db (appendPostMissingResolvedTx s cid (hc_owner_uuid c) (hc_session_uuid c) resolvedPosted (t - hc_t_pre c) t) h
      else h)"
  obtain out2 h2 where l: "post_loop s cid (hc_owner_uuid c) (hc_worktree c) obs (recordedPathsTx h1 cid) t (no_outcome, h1) =
      Inr (out2, h2)"
    "hk_db h' = upd_calls (\<lambda>r. hc_call_id r = cid) (\<lambda>r. r\<lparr>hc_t_post := Some t, hc_post_missing := False\<rparr>)
       (refreshCallerLocksTx s (s_caseFold s) (hc_owner_uuid c) (lockWorktree s (hc_worktree c)) (po_Changed out2) (hc_t_pre c) t (hk_db h2))"
    using assms(1) c unfolding RecordCallPost_def postPathsTx_def
    by (auto simp: Let_def h1_def [symmetric] frame_simps split: sum.splits if_splits)
  have "same_store (hk_db h) (hk_db h1)" by (simp add: h1_def frame_simps resolved_same)
  moreover have "same_store (hk_db h1) (hk_db h2)" using post_loop_same [OF l(1)] by simp
  ultimately have "store_ok (s_caseFold s) (hk_db h2)" using same_store_ok [OF assms(2)] same_store_trans by blast
  then show ?thesis unfolding l(2) by (intro same_store_ok [OF _ upd_calls_same] refresh_store_ok) simp_all
qed

lemma RecordCallPost_number:
  assumes "RecordCallPost s i cid t obs h = Inr (h', out)" "number_ok h"
  shows "number_ok h'"
proof (cases "po_Recorded out")
  case False
  with RecordCallPost_repeat [OF assms(1)] assms(2) show ?thesis by simp
next
  case True
  obtain c where c: "find (\<lambda>c. hc_call_id c = cid) (hk_calls h) = Some c" "hc_t_post c = None"
    using assms(1) True by (auto simp: RecordCallPost_def split: if_splits option.splits)
  define h1 where "h1 = (if hc_post_missing c \<and> hc_dead_at c = None
      then on_db (appendPostMissingResolvedTx s cid (hc_owner_uuid c) (hc_session_uuid c) resolvedPosted (t - hc_t_pre c) t) h
      else h)"
  obtain out2 h2 where l: "post_loop s cid (hc_owner_uuid c) (hc_worktree c) obs (recordedPathsTx h1 cid) t (no_outcome, h1) =
      Inr (out2, h2)" "hk_tree_events h' = hk_tree_events h2" "hk_path_seq h' = hk_path_seq h2"
    using assms(1) c unfolding RecordCallPost_def postPathsTx_def
    by (auto simp: Let_def h1_def [symmetric] frame_simps split: sum.splits if_splits)
  have "number_ok h1" by (rule number_ok_cong [OF assms(2)]) (simp_all add: h1_def frame_simps)
  with number_ok_post_loop [OF l(1)] have "number_ok h2" by simp
  then show ?thesis by (rule number_ok_cong [OF _ l(2,3)])
qed

lemma driftOnePathTx_frame:
  "hk_calls (snd (driftOnePathTx s observer wt now ob h)) = hk_calls h"
  "hk_paths (snd (driftOnePathTx s observer wt now ob h)) = hk_paths h"
  "pathSeqAt h k \<le> pathSeqAt (snd (driftOnePathTx s observer wt now ob h)) k"
proof -
  have q: "pathSeqAt (setObservedTx ob wt now (snd (fileTreeEventTx s inp now h1))) k = pathSeqAt h1 k" for inp h1
    by (rule pathSeqAt_cong) (simp add: frame_simps)
  have q': "pathSeqAt (setObservedTx ob wt now h) k = pathSeqAt h k"
    by (rule pathSeqAt_cong) (simp add: frame_simps)
  show "pathSeqAt h k \<le> pathSeqAt (snd (driftOnePathTx s observer wt now ob h)) k"
    unfolding driftOnePathTx_def Let_def using path_seqs.bump_cur
    by (simp add: q q' split: option.split)
  show "hk_calls (snd (driftOnePathTx s observer wt now ob h)) = hk_calls h"
    "hk_paths (snd (driftOnePathTx s observer wt now ob h)) = hk_paths h"
    unfolding driftOnePathTx_def Let_def by (simp_all add: frame_simps split: option.split)
qed

lemma drift_loop_ok:
  "hook_ok h \<Longrightarrow> hook_ok (snd (drift_loop s observer wt now obs out h)) \<and>
     (\<forall>k. pathSeqAt h k \<le> pathSeqAt (snd (drift_loop s observer wt now obs out h)) k)"
proof (induction obs arbitrary: out h)
  case (Cons ob obs)
  let ?h1 = "snd (driftOnePathTx s observer wt now ob h)"
  have "hook_ok ?h1" by (rule hook_ok_grow [OF Cons.prems driftOnePathTx_frame])
  note ih = Cons.IH [OF this] Cons.IH [OF Cons.prems]
  show ?case
  proof (cases "hs_Locked ob")
    case True
    have "pathSeqAt h k \<le> pathSeqAt (snd (drift_loop s observer wt now obs o2 ?h1)) k" for k o2
      using driftOnePathTx_frame(3) [of h k s observer wt now ob] ih(1) [of o2] order_trans by blast
    with True ih(1) show ?thesis by (simp add: Let_def)
  qed (use ih(2) in simp)
qed simp

lemma RecordDrift_cases:
  assumes "RecordDrift s i observer wt now obs h = Inr (h', out)"
  shows "h' = h \<or> h' = snd (drift_loop s observer wt now obs no_drift h)"
  using assms by (auto simp: RecordDrift_def Let_def split: if_splits)

lemma MarkDead_cases:
  assumes "MarkDeadOwnerCalls s i now probe g h = Inr (h', n)"
  shows "h' = h \<or> (\<exists>dead. probe = Some dead \<and> h' = snd (dead_loop s now dead (InFlightCalls g) (deadOwnerCallIDs (InFlightCalls g) now dead) h))"
  using assms by (auto simp: MarkDeadOwnerCalls_def Let_def split: option.splits if_splits)

lemma DeliverReports_frame:
  assumes "DeliverReports i who now g h = Inr (h', ps)"
  shows "hk_db h' = hk_db h" "hk_paths h' = hk_paths h" "hk_path_seq h' = hk_path_seq h" "hk_tree_events h' = hk_tree_events h"
  using assms by (auto simp: DeliverReports_def Let_def split: if_splits)

lemma MarkPostMissing_frame:
  assumes "MarkPostMissing s i now tReport h = Inr (h', n)"
  shows "h' = flag_loop s now (postMissingCandidatesTx h (now - tReport)) h"
  using assms by (auto simp: MarkPostMissing_def Let_def split: if_splits)

lemma Delete_frame:
  assumes "DeleteCallAndTiming i cid h = Inr (h', r)"
  shows "same_store (hk_db h) (hk_db h')" "hk_calls h' = filter (\<lambda>c. hc_call_id c \<notin> {cid}) (hk_calls h)"
    "hk_paths h' = filter (\<lambda>p. cp_call_id p \<notin> {cid}) (hk_paths h)" "hk_path_seq h' = hk_path_seq h"
    "hk_tree_events h' = hk_tree_events h"
  using assms by (auto simp: DeleteCallAndTiming_def Let_def same_store_def split: if_splits)

lemma Retain_frame:
  assumes "DropOldTreeEvents s i now h = Inr (h', n)"
  shows "same_store (hk_db h) (hk_db h')" "hk_calls h' = hk_calls h" "hk_paths h' = hk_paths h"
    "hk_path_seq h' = hk_path_seq h" "set (hk_tree_events h') \<subseteq> set (hk_tree_events h)"
proof -
  let ?h1 = "dropAgedUndeliveredTx s now h"
  have d: "same_store (hk_db h) (hk_db ?h1)" "hk_calls ?h1 = hk_calls h" "hk_paths ?h1 = hk_paths h"
    "hk_path_seq ?h1 = hk_path_seq h"
    by (simp_all add: dropAgedUndeliveredTx_def Let_def appendEventsTx_same frame_simps)
  have e: "hk_db h' = hk_db ?h1" "hk_paths h' = hk_paths ?h1" "hk_path_seq h' = hk_path_seq ?h1"
    using assms by (auto simp: DropOldTreeEvents_def Let_def split: if_splits)
  show "same_store (hk_db h) (hk_db h')" "hk_calls h' = hk_calls h" "hk_paths h' = hk_paths h"
    "hk_path_seq h' = hk_path_seq h" using d e by simp_all
  show "set (hk_tree_events h') \<subseteq> set (hk_tree_events h)"
    unfolding DropOldTreeEvents_Inr(1) [OF assms] by (auto simp: kept_events_def dropAged_tables)
qed

lemma hook_ok_end_calls:
  assumes "hook_ok h" "hk_calls h' = end_calls ids now (hk_calls h)" "hk_paths h' = hk_paths h" "hk_path_seq h' = hk_path_seq h"
  shows "hook_ok h'"
  by (rule hook_ok_map_calls [OF assms(1) assms(2) [unfolded end_calls_def] assms(3,4)]) simp_all

lemma hstep_inv:
  assumes "hooks_inv f h" "hstep f a h h'"
  shows "hooks_inv f h'" "pathSeqAt h k \<le> pathSeqAt h' k"
proof -
  have ok: "store_ok f (hk_db h)" "hook_ok h" "number_ok h" using assms(1) by (simp_all add: hooks_inv_def)
  have "hooks_inv f h' \<and> pathSeqAt h k \<le> pathSeqAt h' k"
    using assms(2)
  proof cases
    case (store b d')
    have "hook_ok h'" by (rule hook_ok_cong [OF ok(2)]) (simp_all add: store step_calls [OF store(3)])
    moreover have "number_ok h'" by (rule number_ok_cong [OF ok(3)]) (simp_all add: store)
    ultimately show ?thesis using step_store_ok [OF ok(1) store(3)] store by (simp add: hooks_inv_def pathSeqAt_def)
  next
    case (pre s i c obs b)
    have "hk_tree_events h' = hk_tree_events h" "hk_path_seq h' = hk_path_seq h"
      by (rule RecordCallPre_Inr [OF pre(2) ok(2)]; simp)+
    then have "number_ok h'" by (rule number_ok_cong [OF ok(3)])
    with RecordCallPre_ok [OF pre(2) ok(2)] RecordCallPre_store [OF pre(2) ok(2)] ok(1) pre(3) show ?thesis
      by (simp add: hooks_inv_def)
  next
    case (post s i cid t obs out)
    with RecordCallPost_ok [OF post(2) ok(2)] RecordCallPost_store [OF post(2)] RecordCallPost_number [OF post(2) ok(3)] ok(1)
    show ?thesis by (simp add: hooks_inv_def)
  next
    case (drift s i observer wt now obs dout)
    from RecordDrift_cases [OF drift(2)] drift_loop_ok [OF ok(2)] number_ok_drift_loop [OF ok(3)]
      same_store_ok [OF ok(1) drift_loop_same] ok show ?thesis by (cases k) (auto simp: hooks_inv_def)
  next
    case (deliver i who now g ps)
    note d = DeliverReports_frame [OF deliver(2)]
    have "hook_ok h'" by (rule hook_ok_cong [OF ok(2)]) (simp_all add: d)
    moreover have "number_ok h'" by (rule number_ok_cong [OF ok(3) d(4,3)])
    ultimately show ?thesis using ok(1) by (simp add: hooks_inv_def d pathSeqAt_def)
  next
    case (sweep_dead s i now probe g n)
    from MarkDead_cases [OF sweep_dead(2)] show ?thesis
    proof (elim disjE exE conjE)
      assume "h' = h"
      with assms(1) show ?thesis by simp
    next
      fix dead
      assume p: "probe = Some dead" and e: "h' = snd (dead_loop s now dead (InFlightCalls g) (deadOwnerCallIDs (InFlightCalls g) now dead) h)"
      note m = MarkDeadOwnerCalls_Inr [OF sweep_dead(2) [unfolded p]]
      have "store_ok f (hk_db h')" unfolding e by (rule same_store_ok [OF ok(1) dead_loop_same])
      with hook_ok_end_calls [OF ok(2) m(1-3)] number_ok_cong [OF ok(3) m(4,3)] show ?thesis
        by (simp add: hooks_inv_def m(3) pathSeqAt_def)
    qed
  next
    case (flag s i now tReport n)
    note e = MarkPostMissing_frame [OF flag(2)]
    let ?ids = "hc_call_id ` set (postMissingCandidatesTx h (now - tReport))"
    have c: "hk_calls h' = flag_calls ?ids (hk_calls h)" "hk_paths h' = hk_paths h"
      "hk_path_seq h' = hk_path_seq h" "hk_tree_events h' = hk_tree_events h"
      using flag_loop_eq [of s now "postMissingCandidatesTx h (now - tReport)" h] unfolding e by blast+
    have "hook_ok h'" by (rule hook_ok_map_calls [OF ok(2) c(1) [unfolded flag_calls_def] c(2,3)]) simp_all
    moreover have "store_ok f (hk_db h')" unfolding e by (rule same_store_ok [OF ok(1) flag_loop_same])
    ultimately show ?thesis using number_ok_cong [OF ok(3) c(4,3)] by (simp add: hooks_inv_def c(3) pathSeqAt_def)
  next
    case (drop i now floor n)
    note d = DropFinishedCalls_Inr [OF drop(2)]
    have "same_store (hk_db h) (hk_db h')"
      using drop(2) by (auto simp: DropFinishedCalls_def Let_def same_store_def frame_simps split: if_splits)
    from same_store_ok [OF ok(1) this] DropFinishedCalls_ok [OF drop(2) ok(2)] number_ok_cong [OF ok(3) d(4,3)] show ?thesis
      by (simp add: hooks_inv_def d(3) pathSeqAt_def)
  next
    case (delete i cid r)
    note d = Delete_frame [OF delete(2)]
    from same_store_ok [OF ok(1) d(1)] hook_ok_filter [OF ok(2) d(2-4)] number_ok_cong [OF ok(3) d(5,4)] show ?thesis
      by (simp add: hooks_inv_def d(4) pathSeqAt_def)
  next
    case (retain s i now n)
    note d = Retain_frame [OF retain(2)]
    from same_store_ok [OF ok(1) d(1)] hook_ok_cong [OF ok(2) d(2-4)] number_ok_subset [OF ok(3) d(5,4)] show ?thesis
      by (simp add: hooks_inv_def d(4) pathSeqAt_def)
  qed
  then show "hooks_inv f h'" "pathSeqAt h k \<le> pathSeqAt h' k" by blast+
qed

interpretation hooks: guarded_invariant "hstep f" "\<lambda>_. True" "hooks_inv f" for f
  by unfold_locales (rule hstep_inv(1))

lemma hooks_inv_empty: "hooks_inv f no_hooks"
  by (simp add: hooks_inv_def no_hooks_def store_ok_empty hook_ok_def number_ok_def) (simp add: empty_db_def)

lemma hooks_reachable_inv: "hooks_reachable f h \<Longrightarrow> hooks_inv f h"
  using hooks.run_keeps hooks_inv_empty unfolding hooks_reachable_def by blast

lemma run_path_seq: "run (hstep f) as h h' \<Longrightarrow> hooks_inv f h \<Longrightarrow> pathSeqAt h k \<le> pathSeqAt h' k"
proof (induction as h h' rule: run.induct)
  case (run_cons a s s1 as s2)
  then show ?case using hstep_inv order_trans by metis
qed simp

text \<open>C22: A transition number stands for one state of its path, for ever. After any history of hooks, sweeps,
  deliveries and lock operations, whatever their arguments, their clocks and the order they commit in,
  two events of one path, checkout and lock generation with the same number found the same contents;
  no event is numbered above the path's counter, which never goes down; recorded intervals lie below
  it; and the lock tables keep their own invariant under all of it.\<close>

theorem transition_history:
  assumes "hooks_reachable f h" "run (hstep f) as h h'"
  shows "store_ok f (hk_db h') \<and> hook_ok h' \<and> (\<forall>k. pathSeqAt h k \<le> pathSeqAt h' k) \<and>
    (\<forall>e \<in> set (hk_tree_events h'). te_Seq e \<le> pathSeqAt h' (event_key e)) \<and>
    (\<forall>e \<in> set (hk_tree_events h'). \<forall>e' \<in> set (hk_tree_events h').
       event_key e = event_key e' \<and> te_Seq e = te_Seq e' \<longrightarrow> te_DigestPost e = te_DigestPost e')"
proof -
  have i: "hooks_inv f h" by (rule hooks_reachable_inv [OF assms(1)])
  have "hooks_inv f h'" using hooks.run_keeps [OF assms(2) _ i] by simp
  then have i': "store_ok f (hk_db h')" "hook_ok h'" "number_ok h'" by (simp_all add: hooks_inv_def)
  show ?thesis
    using i'(1,2) run_path_seq [OF assms(2) i] i'(3) unfolding number_ok_def by blast
qed

subsection \<open>A history\<close>

definition ex_history :: "hook_db option" where
  "ex_history =
     (case RecordCallPre ex_store (ex_io 1) (ex_call ''k-a'' ''al'' 1) [ex_seen ''d0''] no_hooks of
        Inl _ \<Rightarrow> None
      | Inr (h1, _) \<Rightarrow>
          (case RecordCallPost ex_store (ex_io 3) ''k-a'' 3 [ex_seen ''d1''] h1 of Inl _ \<Rightarrow> None | Inr (h2, _) \<Rightarrow> Some h2))"

lemma ex_history_eval:
  "map_option (\<lambda>h. map (\<lambda>e. (te_Path e, te_Seq e, te_DigestPost e)) (hk_tree_events h)) ex_history = Some [(''f.go'', 1, ''d1'')]"
  by code_simp

theorem transition_history_witness:
  "\<exists>h h'. run (hstep False) [HookPost ''k-a''] h h' \<and> te_Seq (hd (hk_tree_events h')) = 1 \<and> hk_tree_events h' \<noteq> [] \<and>
     store_ok False (hk_db h') \<and> hook_ok h' \<and> te_Seq (hd (hk_tree_events h')) \<le> pathSeqAt h' (event_key (hd (hk_tree_events h')))"
proof -
  obtain h1 b h2 out where r: "RecordCallPre ex_store (ex_io 1) (ex_call ''k-a'' ''al'' 1) [ex_seen ''d0''] no_hooks = Inr (h1, b)"
    "RecordCallPost ex_store (ex_io 3) ''k-a'' 3 [ex_seen ''d1''] h1 = Inr (h2, out)"
    "map (\<lambda>e. (te_Path e, te_Seq e, te_DigestPost e)) (hk_tree_events h2) = [(''f.go'', 1, ''d1'')]"
    using ex_history_eval unfolding ex_history_def by (auto split: sum.splits)
  have f: "s_caseFold ex_store = False" by (simp add: ex_store_def)
  have re: "hooks_reachable False h1"
    unfolding hooks_reachable_def by (rule exI, rule run_one [of "hstep False", OF hstep.pre [OF r(1) f]])
  have run: "run (hstep False) [HookPost ''k-a''] h1 h2" by (rule run_one [of "hstep False", OF hstep.post [OF r(2) f]])
  note h = transition_history [OF re run]
  have t: "store_ok False (hk_db h2)" "hook_ok h2" "\<forall>e \<in> set (hk_tree_events h2). te_Seq e \<le> pathSeqAt h2 (event_key e)"
    by (rule h [THEN conjunct1], rule h [THEN conjunct2, THEN conjunct1],
        rule h [THEN conjunct2, THEN conjunct2, THEN conjunct2, THEN conjunct1])
  obtain e where "hk_tree_events h2 = [e]" "te_Seq e = 1" using r(3) by auto
  with t run show ?thesis by (intro exI [of _ h1] exI [of _ h2]) simp
qed

end
