(* ===== verification/Decode.thy ===== *)
theory Decode
  imports Json
begin

text \<open>
  \<open>encoding/json\<close> as the code reads with it: values, the parser behind \<open>json.Unmarshal\<close>, and the
  encoder of \<open>Json\<close> over values, indented and with HTML escaping on or off.  The round trip is
  proved for every value: what is parsed back is the value with each byte that starts no UTF-8
  sequence replaced by the replacement character.  Not represented: the nesting limit of 10000, and
  the merging of a value whose key is repeated (the last one counts here).
\<close>

subsection \<open>Values and their text\<close>

datatype json =
    JNull
  | JBool bool
  | JNum string
  | JStr string
  | JArr "json list"
  | JObj "(string \<times> json) list"

definition html_char :: "char \<Rightarrow> bool" where
  "html_char c \<longleftrightarrow> c = CHR 0x3C \<or> c = CHR 0x3E \<or> c = CHR 0x26"

function (sequential) json_text :: "bool \<Rightarrow> string \<Rightarrow> string" where
  "json_text html [] = []"
| "json_text html (c # s) =
     (if byte c < 0x80 then (if json_safe c \<or> \<not> html \<and> html_char c then [c] else json_escape c) @ json_text html s
      else let n = utf8_size (c # s); r = take n (c # s) in
           if n = 0 then CHR 0x5C # ''ufffd'' @ json_text html s
           else (if r = [CHR 0xE2, CHR 0x80, CHR 0xA8] then CHR 0x5C # ''u2028''
                 else if r = [CHR 0xE2, CHR 0x80, CHR 0xA9] then CHR 0x5C # ''u2029'' else r)
                @ json_text html (drop n (c # s)))"
  by pat_completeness auto
termination
  by (relation "measure (length \<circ> snd)") auto

lemma json_text_html: "json_text True s = json_body s"
  by (induction s rule: json_body.induct) (simp_all add: Let_def)

definition json_str :: "bool \<Rightarrow> string \<Rightarrow> string" where
  "json_str html s = [CHR 0x22] @ json_text html s @ [CHR 0x22]"

text \<open>\<open>ws k\<close> is the newline and indentation at depth \<open>k\<close>, empty for \<open>json.Marshal\<close>.\<close>

fun print_json :: "bool \<Rightarrow> (nat \<Rightarrow> string) \<Rightarrow> string \<Rightarrow> nat \<Rightarrow> json \<Rightarrow> string"
and print_elems :: "bool \<Rightarrow> (nat \<Rightarrow> string) \<Rightarrow> string \<Rightarrow> nat \<Rightarrow> json list \<Rightarrow> string"
and print_members :: "bool \<Rightarrow> (nat \<Rightarrow> string) \<Rightarrow> string \<Rightarrow> nat \<Rightarrow> (string \<times> json) list \<Rightarrow> string" where
  "print_json h ws col k JNull = ''null''"
| "print_json h ws col k (JBool b) = (if b then ''true'' else ''false'')"
| "print_json h ws col k (JNum l) = l"
| "print_json h ws col k (JStr s) = json_str h s"
| "print_json h ws col k (JArr xs) =
     (if xs = [] then ''[]'' else ''['' @ ws (k + 1) @ print_elems h ws col (k + 1) xs @ ws k @ '']'')"
| "print_json h ws col k (JObj ms) =
     (if ms = [] then ''{}'' else ''{'' @ ws (k + 1) @ print_members h ws col (k + 1) ms @ ws k @ ''}'')"
| "print_elems h ws col k [] = []"
| "print_elems h ws col k (x # xs) =
     print_json h ws col k x @ (if xs = [] then [] else '','' @ ws k @ print_elems h ws col k xs)"
| "print_members h ws col k [] = []"
| "print_members h ws col k (m # ms) =
     json_str h (fst m) @ col @ print_json h ws col k (snd m) @
     (if ms = [] then [] else '','' @ ws k @ print_members h ws col k ms)"

definition marshal :: "json \<Rightarrow> string" where
  "marshal j = print_json True (\<lambda>k. []) '':'' 0 j"

text \<open>An \<open>Encoder\<close> with \<open>SetEscapeHTML(false)\<close> and \<open>SetIndent\<close> of two spaces; it ends with a newline.\<close>

definition indented :: "nat \<Rightarrow> string" where
  "indented k = CHR 0x0A # replicate (2 * k) (CHR '' '')"

definition encode_indented :: "json \<Rightarrow> string" where
  "encode_indented j = print_json False indented '': '' 0 j @ [CHR 0x0A]"

subsection \<open>The parser\<close>

definition is_ws :: "char \<Rightarrow> bool" where
  "is_ws c \<longleftrightarrow> c = CHR '' '' \<or> c = CHR 0x09 \<or> c = CHR 0x0A \<or> c = CHR 0x0D"

definition skip_ws :: "string \<Rightarrow> string" where
  "skip_ws = dropWhile is_ws"

definition hex_val :: "char \<Rightarrow> nat option" where
  "hex_val c =
     (let b = byte c in
      if 48 \<le> b \<and> b \<le> 57 then Some (b - 48)
      else if 97 \<le> b \<and> b \<le> 102 then Some (b - 87)
      else if 65 \<le> b \<and> b \<le> 70 then Some (b - 55) else None)"

definition hex4 :: "string \<Rightarrow> nat option" where
  "hex4 s =
     (if length s < 4 then None
      else case map hex_val (take 4 s) of
        [Some a, Some b, Some c, Some d] \<Rightarrow> Some (((a * 16 + b) * 16 + c) * 16 + d)
      | _ \<Rightarrow> None)"

text \<open>\<open>utf8.EncodeRune\<close> and the replacement character.\<close>

definition encode_rune :: "nat \<Rightarrow> string" where
  "encode_rune r =
     map char_of
       (if r < 0x80 then [r]
        else if r < 0x800 then [0xC0 + r div 64, 0x80 + r mod 64]
        else if r < 0x10000 then [0xE0 + r div 4096, 0x80 + r div 64 mod 64, 0x80 + r mod 64]
        else [0xF0 + r div 262144, 0x80 + r div 4096 mod 64, 0x80 + r div 64 mod 64, 0x80 + r mod 64])"

definition replacement :: string where
  "replacement = [CHR 0xEF, CHR 0xBF, CHR 0xBD]"

definition is_surrogate :: "nat \<Rightarrow> bool" where
  "is_surrogate r \<longleftrightarrow> 0xD800 \<le> r \<and> r < 0xE000"

text \<open>The rune after a \<open>\u\<close>, and how much of the text it takes: a surrogate pair takes both escapes.\<close>

definition unicode_escape :: "string \<Rightarrow> (string \<times> nat) option" where
  "unicode_escape s =
     (case hex4 s of
        None \<Rightarrow> None
      | Some r \<Rightarrow>
          if is_surrogate r then
            (case (if take 2 (drop 4 s) = [CHR 0x5C, CHR ''u''] then hex4 (drop 6 s) else None) of
               Some r1 \<Rightarrow>
                 if r < 0xDC00 \<and> 0xDC00 \<le> r1 \<and> r1 < 0xE000
                 then Some (encode_rune (0x10000 + (r - 0xD800) * 1024 + (r1 - 0xDC00)), 10)
                 else Some (replacement, 4)
             | None \<Rightarrow> Some (replacement, 4))
          else Some (encode_rune r, 4))"

definition simple_escape :: "char \<Rightarrow> char option" where
  "simple_escape c =
     (if c = CHR 0x22 \<or> c = CHR 0x5C \<or> c = CHR 0x2F then Some c
      else if c = CHR ''b'' then Some (CHR 0x08)
      else if c = CHR ''f'' then Some (CHR 0x0C)
      else if c = CHR ''n'' then Some (CHR 0x0A)
      else if c = CHR ''r'' then Some (CHR 0x0D)
      else if c = CHR ''t'' then Some (CHR 0x09) else None)"

definition prefix_to :: "string \<Rightarrow> (string \<times> string) option \<Rightarrow> (string \<times> string) option" where
  "prefix_to x r = map_option (\<lambda>(y, rest). (x @ y, rest)) r"

text \<open>A string after its opening quote: its bytes, and the text after the closing one.\<close>

function (sequential) parse_body :: "string \<Rightarrow> (string \<times> string) option" where
  "parse_body [] = None"
| "parse_body (c # s) =
     (if c = CHR 0x22 then Some ([], s)
      else if c = CHR 0x5C then
        (case s of
           [] \<Rightarrow> None
         | x # t \<Rightarrow>
             if x = CHR ''u'' then
               (case unicode_escape t of None \<Rightarrow> None | Some (y, n) \<Rightarrow> prefix_to y (parse_body (drop n t)))
             else (case simple_escape x of None \<Rightarrow> None | Some y \<Rightarrow> prefix_to [y] (parse_body t)))
      else if byte c < 0x20 then None
      else if byte c < 0x80 then prefix_to [c] (parse_body s)
      else let n = utf8_size (c # s) in
           if n = 0 then prefix_to replacement (parse_body s)
           else prefix_to (take n (c # s)) (parse_body (drop n (c # s))))"
  by pat_completeness auto
termination
  by (relation "measure length") auto

definition number_char :: "char \<Rightarrow> bool" where
  "number_char c \<longleftrightarrow> digit_val c \<noteq> None \<or> c \<in> {CHR ''-'', CHR ''+'', CHR ''.'', CHR ''e'', CHR ''E''}"

definition all_digits :: "string \<Rightarrow> bool" where
  "all_digits s \<longleftrightarrow> s \<noteq> [] \<and> list_all (\<lambda>c. digit_val c \<noteq> None) s"

text \<open>An optional minus, an integer without leading zeros, an optional fraction, an optional exponent.\<close>

definition valid_number :: "string \<Rightarrow> bool" where
  "valid_number l =
     (let s = (case l of c # t \<Rightarrow> if c = CHR ''-'' then t else l | [] \<Rightarrow> []);
          isd = (\<lambda>c. digit_val c \<noteq> None);
          ip = takeWhile isd s; r1 = dropWhile isd s;
          fp = (case r1 of c # t \<Rightarrow> if c = CHR ''.'' then Some (takeWhile isd t) else None | [] \<Rightarrow> None);
          r2 = (case r1 of c # t \<Rightarrow> if c = CHR ''.'' then dropWhile isd t else r1 | [] \<Rightarrow> []);
          ex = (case r2 of
                  [] \<Rightarrow> True
                | c # t \<Rightarrow> (c = CHR ''e'' \<or> c = CHR ''E'') \<and>
                    all_digits (case t of d # u \<Rightarrow> if d = CHR ''+'' \<or> d = CHR ''-'' then u else t | [] \<Rightarrow> []))
      in ip \<noteq> [] \<and> (take 1 ip = ''0'' \<longrightarrow> length ip = 1) \<and> fp \<noteq> Some [] \<and> ex)"

definition parse_atom :: "string \<Rightarrow> (json \<times> string) option" where
  "parse_atom s =
     (if take 4 s = ''null'' then Some (JNull, drop 4 s)
      else if take 4 s = ''true'' then Some (JBool True, drop 4 s)
      else if take 5 s = ''false'' then Some (JBool False, drop 5 s)
      else let l = takeWhile number_char s in
           if valid_number l then Some (JNum l, dropWhile number_char s) else None)"

fun parse_value :: "nat \<Rightarrow> string \<Rightarrow> (json \<times> string) option"
and parse_elems :: "nat \<Rightarrow> string \<Rightarrow> (json list \<times> string) option"
and parse_members :: "nat \<Rightarrow> string \<Rightarrow> ((string \<times> json) list \<times> string) option" where
  "parse_value 0 s = None"
| "parse_value (Suc n) s =
     (case skip_ws s of
        [] \<Rightarrow> None
      | c # t \<Rightarrow>
          if c = CHR 0x22 then map_option (apfst JStr) (parse_body t)
          else if c = CHR ''['' then
            (if take 1 (skip_ws t) = '']'' then Some (JArr [], drop 1 (skip_ws t))
             else map_option (apfst JArr) (parse_elems n t))
          else if c = CHR ''{'' then
            (if take 1 (skip_ws t) = ''}'' then Some (JObj [], drop 1 (skip_ws t))
             else map_option (apfst JObj) (parse_members n t))
          else parse_atom (c # t))"
| "parse_elems 0 s = None"
| "parse_elems (Suc n) s =
     (case parse_value n s of
        None \<Rightarrow> None
      | Some (v, r) \<Rightarrow>
          (case skip_ws r of
             [] \<Rightarrow> None
           | d # q \<Rightarrow>
               if d = CHR '','' then map_option (apfst (Cons v)) (parse_elems n q)
               else if d = CHR '']'' then Some ([v], q) else None))"
| "parse_members 0 s = None"
| "parse_members (Suc n) s =
     (case skip_ws s of
        [] \<Rightarrow> None
      | c # t \<Rightarrow>
          if c \<noteq> CHR 0x22 then None
          else case parse_body t of
            None \<Rightarrow> None
          | Some (k, r) \<Rightarrow>
              if take 1 (skip_ws r) \<noteq> '':'' then None
              else case parse_value n (drop 1 (skip_ws r)) of
                None \<Rightarrow> None
              | Some (v, q) \<Rightarrow>
                  (case skip_ws q of
                     [] \<Rightarrow> None
                   | d # z \<Rightarrow>
                       if d = CHR '','' then map_option (apfst (Cons (k, v))) (parse_members n z)
                       else if d = CHR ''}'' then Some ([(k, v)], z) else None))"

definition parse_json :: "string \<Rightarrow> json option" where
  "parse_json s =
     (case parse_value (2 * length s + 1) s of
        None \<Rightarrow> None
      | Some (v, r) \<Rightarrow> if skip_ws r = [] then Some v else None)"

subsection \<open>Strings survive, up to invalid UTF-8\<close>

text \<open>\<open>strings.ToValidUTF8\<close>, one replacement per byte that starts no sequence.\<close>

function (sequential) scrub :: "string \<Rightarrow> string" where
  "scrub [] = []"
| "scrub (c # s) =
     (let n = utf8_size (c # s) in if n = 0 then replacement @ scrub s else take n (c # s) @ scrub (drop n (c # s)))"
  by pat_completeness auto
termination
  by (relation "measure length") auto

function (sequential) valid_utf8 :: "string \<Rightarrow> bool" where
  "valid_utf8 [] = True"
| "valid_utf8 (c # s) = (let n = utf8_size (c # s) in if n = 0 then False else valid_utf8 (drop n (c # s)))"
  by pat_completeness auto
termination
  by (relation "measure length") auto

lemma scrub_valid: "valid_utf8 s \<Longrightarrow> scrub s = s"
  by (induction s rule: scrub.induct) (auto simp: Let_def)

lemma utf8_size_take: "utf8_size s \<noteq> 0 \<Longrightarrow> utf8_size (take (utf8_size s) s @ t) = utf8_size s"
  by (cases s rule: utf8_size.cases) (auto split: list.splits)

lemma utf8_size_ascii [simp]: "byte c < 0x80 \<Longrightarrow> utf8_size (c # s) = 1"
  by simp

lemma byte_less: "byte c < 256"
  by (simp add: byte_def)

lemma hex_val_hex_digit: "n < 16 \<Longrightarrow> hex_val (hex_digit n) = Some n"
proof -
  assume n: "n < 16"
  have "byte (hex_digit n) = (if n < 10 then 48 + n else 87 + n)"
    using n by (simp add: hex_digit_def byte_def)
  with n show ?thesis by (auto simp: hex_val_def Let_def)
qed

lemma hex_val_zero: "hex_val (CHR ''0'') = Some 0"
  by (simp add: hex_val_def byte_def)

lemma hex4_digits:
  assumes "hex_val a = Some i" "hex_val b = Some j" "hex_val c = Some k" "hex_val d = Some l"
  shows "hex4 (a # b # c # d # t) = Some (((i * 16 + j) * 16 + k) * 16 + l)"
  by (simp add: hex4_def assms)

lemma hex4_control:
  assumes "byte c < 0x80"
  shows "hex4 (''00'' @ [hex_digit (byte c div 16), hex_digit (byte c mod 16)] @ t) = Some (byte c)"
proof -
  have "byte c div 16 < 16" using assms by (simp add: less_mult_imp_div_less)
  then have "hex4 (CHR ''0'' # CHR ''0'' # hex_digit (byte c div 16) # hex_digit (byte c mod 16) # t) =
      Some (((0 * 16 + 0) * 16 + byte c div 16) * 16 + byte c mod 16)"
    by (intro hex4_digits hex_val_zero hex_val_hex_digit) simp_all
  then show ?thesis by (simp only: append.simps mult_0 add_0 div_mult_mod_eq)
qed

lemma parse_body_close: "parse_body (CHR 0x22 # t) = Some ([], t)"
  by simp

lemma parse_body_unicode:
  "unicode_escape t = Some (y, n) \<Longrightarrow> parse_body (CHR 0x5C # CHR ''u'' # t) = prefix_to y (parse_body (drop n t))"
  by simp

lemma parse_body_simple:
  "x \<noteq> CHR ''u'' \<Longrightarrow> simple_escape x = Some y \<Longrightarrow> parse_body (CHR 0x5C # x # t) = prefix_to [y] (parse_body t)"
  by simp

lemma parse_body_ascii:
  "c \<noteq> CHR 0x22 \<Longrightarrow> c \<noteq> CHR 0x5C \<Longrightarrow> 0x20 \<le> byte c \<Longrightarrow> byte c < 0x80 \<Longrightarrow>
     parse_body (c # t) = prefix_to [c] (parse_body t)"
  by simp

lemma parse_body_rune:
  assumes "\<not> byte c < 0x80" "utf8_size (c # s) \<noteq> 0"
  shows "parse_body (c # s) = prefix_to (take (utf8_size (c # s)) (c # s)) (parse_body (drop (utf8_size (c # s)) (c # s)))"
proof -
  have "c \<noteq> CHR 0x22" "c \<noteq> CHR 0x5C" using assms(1) by (auto simp: byte_def)
  with assms show ?thesis by (subst parse_body.simps) (simp only: if_False Let_def, simp)
qed

declare parse_body.simps(2) [simp del]

lemma byte_is:
  "byte c = 8 \<Longrightarrow> c = CHR 0x08" "byte c = 12 \<Longrightarrow> c = CHR 0x0C" "byte c = 10 \<Longrightarrow> c = CHR 0x0A"
  "byte c = 13 \<Longrightarrow> c = CHR 0x0D" "byte c = 9 \<Longrightarrow> c = CHR 0x09"
  using of_char_eq_iff [where ?'a = nat, of c "CHR 0x08"] of_char_eq_iff [where ?'a = nat, of c "CHR 0x0C"]
    of_char_eq_iff [where ?'a = nat, of c "CHR 0x0A"] of_char_eq_iff [where ?'a = nat, of c "CHR 0x0D"]
    of_char_eq_iff [where ?'a = nat, of c "CHR 0x09"]
  by (simp_all add: byte_def)

lemma json_escape_cases:
  obtains (simple) x where "json_escape c = [CHR 0x5C, x]" "x \<noteq> CHR ''u''" "simple_escape x = Some c"
  | (control) "json_escape c = CHR 0x5C # ''u00'' @ [hex_digit (byte c div 16), hex_digit (byte c mod 16)]"
proof (cases "c = CHR 0x22 \<or> c = CHR 0x5C \<or> byte c \<in> {8, 12, 10, 13, 9}")
  case True
  then have "c \<in> {CHR 0x22, CHR 0x5C, CHR 0x08, CHR 0x0C, CHR 0x0A, CHR 0x0D, CHR 0x09}"
    using byte_is [of c] by auto
  then have "\<exists>x. json_escape c = [CHR 0x5C, x] \<and> x \<noteq> CHR ''u'' \<and> simple_escape x = Some c"
    by (elim insertE emptyE; simp add: json_escape_def simple_escape_def byte_def)
  then show ?thesis using simple by blast
next
  case False
  then show ?thesis by (intro control) (simp add: json_escape_def)
qed

lemma parse_body_escape:
  assumes "byte c < 0x80"
  shows "parse_body (json_escape c @ t) = prefix_to [c] (parse_body t)"
proof (cases c rule: json_escape_cases)
  case (simple x)
  then show ?thesis by (simp add: parse_body_simple)
next
  case control
  have "unicode_escape (''00'' @ [hex_digit (byte c div 16), hex_digit (byte c mod 16)] @ t) = Some ([c], 4)"
    using assms hex4_control [OF assms, of t]
    by (simp add: unicode_escape_def is_surrogate_def encode_rune_def byte_def)
  from parse_body_unicode [OF this] control show ?thesis by simp
qed

lemma prefix_to_Some [simp]: "prefix_to x (Some (y, r)) = Some (x @ y, r)"
  by (simp add: prefix_to_def)

lemma char_of_eqI: "of_char c = (n :: nat) \<Longrightarrow> char_of n = c"
  by auto

lemma char_of_literals:
  "char_of (239 :: nat) = CHR 0xEF" "char_of (191 :: nat) = CHR 0xBF" "char_of (189 :: nat) = CHR 0xBD"
  "char_of (226 :: nat) = CHR 0xE2" "char_of (128 :: nat) = CHR 0x80" "char_of (168 :: nat) = CHR 0xA8"
  "char_of (169 :: nat) = CHR 0xA9"
  by (rule char_of_eqI, simp)+

lemma unicode_escape_literal:
  "unicode_escape (''fffd'' @ t) = Some (replacement, 4)"
  "unicode_escape (''2028'' @ t) = Some ([CHR 0xE2, CHR 0x80, CHR 0xA8], 4)"
  "unicode_escape (''2029'' @ t) = Some ([CHR 0xE2, CHR 0x80, CHR 0xA9], 4)"
proof -
  have h: "hex_val (CHR ''f'') = Some 15" "hex_val (CHR ''d'') = Some 13" "hex_val (CHR ''2'') = Some 2"
    "hex_val (CHR ''8'') = Some 8" "hex_val (CHR ''9'') = Some 9"
    by (simp_all add: hex_val_def byte_def)
  have "hex4 (''fffd'' @ t) = Some 0xFFFD" "hex4 (''2028'' @ t) = Some 0x2028" "hex4 (''2029'' @ t) = Some 0x2029"
    using hex4_digits [OF h(1) h(1) h(1) h(2), of t] hex4_digits [OF h(3) hex_val_zero h(3) h(4), of t]
      hex4_digits [OF h(3) hex_val_zero h(3) h(5), of t] by simp_all
  then show "unicode_escape (''fffd'' @ t) = Some (replacement, 4)"
    "unicode_escape (''2028'' @ t) = Some ([CHR 0xE2, CHR 0x80, CHR 0xA8], 4)"
    "unicode_escape (''2029'' @ t) = Some ([CHR 0xE2, CHR 0x80, CHR 0xA9], 4)"
    by (simp_all add: unicode_escape_def is_surrogate_def encode_rune_def replacement_def char_of_literals)
qed

lemma parse_body_text: "parse_body (json_text h s @ CHR 0x22 # r) = Some (scrub s, r)"
proof (induction h s rule: json_text.induct)
  case (1 h)
  then show ?case by (simp add: parse_body_close)
next
  case (2 h c s)
  let ?n = "utf8_size (c # s)" and ?e = "CHR 0x22 # r"
  show ?case
  proof (cases "byte c < 0x80")
    case ascii: True
    have s: "scrub (c # s) = c # scrub s" using ascii by simp
    note ih = "2.IH"(1) [OF ascii]
    show ?thesis
    proof (cases "json_safe c \<or> \<not> h \<and> html_char c")
      case True
      then have "c \<noteq> CHR 0x22" "c \<noteq> CHR 0x5C" "0x20 \<le> byte c"
        by (auto simp: json_safe_def html_char_def byte_def)
      with True ascii ih s show ?thesis by (simp add: parse_body_ascii)
    next
      case False
      then have "json_text h (c # s) = json_escape c @ json_text h s" using ascii by (simp only: json_text.simps if_True if_False)
      with parse_body_escape [OF ascii, of "json_text h s @ ?e"] ih s show ?thesis by simp
    qed
  next
    case high: False
    show ?thesis
    proof (cases "?n = 0")
      case True
      have "parse_body (CHR 0x5C # CHR ''u'' # ''fffd'' @ json_text h s @ ?e) = Some (replacement @ scrub s, r)"
        using "2.IH"(2) [OF high refl refl True] parse_body_unicode [OF unicode_escape_literal(1), of "json_text h s @ ?e"]
        by simp
      with True high show ?thesis by (simp add: Let_def del: utf8_size.simps)
    next
      case False
      let ?r = "take ?n (c # s)" and ?t = "json_text h (drop ?n (c # s)) @ ?e"
      have ih: "parse_body ?t = Some (scrub (drop ?n (c # s)), r)"
        by (rule "2.IH"(3) [OF high refl refl False])
      have sc: "scrub (c # s) = ?r @ scrub (drop ?n (c # s))" using False by (simp add: Let_def del: utf8_size.simps)
      consider (a) "?r = [CHR 0xE2, CHR 0x80, CHR 0xA8]" | (b) "?r = [CHR 0xE2, CHR 0x80, CHR 0xA9]"
        | (o) "?r \<noteq> [CHR 0xE2, CHR 0x80, CHR 0xA8]" "?r \<noteq> [CHR 0xE2, CHR 0x80, CHR 0xA9]" by blast
      then show ?thesis
      proof cases
        case a
        have "json_text h (c # s) @ ?e = CHR 0x5C # CHR ''u'' # ''2028'' @ ?t"
          using a False high by (simp add: Let_def del: utf8_size.simps)
        with ih sc a parse_body_unicode [OF unicode_escape_literal(2), of ?t] show ?thesis by simp
      next
        case b
        have "json_text h (c # s) @ ?e = CHR 0x5C # CHR ''u'' # ''2029'' @ ?t"
          using b False high by (simp add: Let_def del: utf8_size.simps)
        with ih sc b parse_body_unicode [OF unicode_escape_literal(3), of ?t] show ?thesis by simp
      next
        case o
        have eq: "json_text h (c # s) @ ?e = ?r @ ?t"
          using o False high by (simp add: Let_def del: utf8_size.simps)
        obtain r' where r': "?r = c # r'" using False by (cases ?n) auto
        have n: "utf8_size (?r @ ?t) = ?n" using utf8_size_take [OF False] by simp
        have len: "length ?r = ?n" using utf8_size_le [of "c # s"] by simp
        have td: "take ?n (?r @ ?t) = ?r" "drop ?n (?r @ ?t) = ?t" using len by simp_all
        have "parse_body (?r @ ?t) = prefix_to (take ?n (?r @ ?t)) (parse_body (drop ?n (?r @ ?t)))"
          using parse_body_rune [OF high, of "r' @ ?t"] n False unfolding r' append.simps by (simp only: not_False_eq_True simp_thms)
        then show ?thesis unfolding eq td ih sc by simp
      qed
    qed
  qed
qed

subsection \<open>Values survive\<close>

fun scrub_json :: "json \<Rightarrow> json" where
  "scrub_json (JStr s) = JStr (scrub s)"
| "scrub_json (JArr xs) = JArr (map scrub_json xs)"
| "scrub_json (JObj ms) = JObj (map (\<lambda>m. (scrub (fst m), scrub_json (snd m))) ms)"
| "scrub_json j = j"

definition number_ok :: "string \<Rightarrow> bool" where
  "number_ok l \<longleftrightarrow> valid_number l \<and> list_all number_char l"

fun numbers_ok :: "json \<Rightarrow> bool" where
  "numbers_ok (JNum l) = number_ok l"
| "numbers_ok (JArr xs) = list_all numbers_ok xs"
| "numbers_ok (JObj ms) = list_all (\<lambda>m. numbers_ok (snd m)) ms"
| "numbers_ok j = True"

fun cost :: "json \<Rightarrow> nat" and cost_elems :: "json list \<Rightarrow> nat" and cost_members :: "(string \<times> json) list \<Rightarrow> nat" where
  "cost (JArr xs) = Suc (cost_elems xs)"
| "cost (JObj ms) = Suc (cost_members ms)"
| "cost j = 1"
| "cost_elems [] = 0"
| "cost_elems (x # xs) = Suc (max (cost x) (cost_elems xs))"
| "cost_members [] = 0"
| "cost_members (m # ms) = Suc (max (cost (snd m)) (cost_members ms))"

lemma valid_number_start: "valid_number l \<Longrightarrow> l \<noteq> []"
  by (auto simp: valid_number_def Let_def)

lemma cost_le:
  "numbers_ok j \<Longrightarrow> cost j + 1 \<le> 2 * length (print_json h ws col k j)"
  "list_all numbers_ok xs \<Longrightarrow> cost_elems xs \<le> 2 * length (print_elems h ws col k xs)"
  "list_all (\<lambda>m. numbers_ok (snd m)) ms \<Longrightarrow> cost_members ms \<le> 2 * length (print_members h ws col k ms)"
proof (induction h ws col k j and h ws col k xs and h ws col k ms rule: print_json_print_elems_print_members.induct)
  case (3 h ws col k l)
  then show ?case using valid_number_start [of l] by (cases l) (auto simp: number_ok_def)
next
  case (4 h ws col k s)
  then show ?case by (simp add: json_str_def)
qed auto

lemma skip_ws_append [simp]: "list_all is_ws w \<Longrightarrow> skip_ws (w @ t) = skip_ws t"
  by (induction w) (auto simp: skip_ws_def)

lemma skip_ws_Cons [simp]: "\<not> is_ws c \<Longrightarrow> skip_ws (c # t) = c # t"
  by (simp add: skip_ws_def)

lemma not_ws [simp]:
  "\<not> is_ws (CHR 0x22)" "\<not> is_ws (CHR ''['')" "\<not> is_ws (CHR '']'')" "\<not> is_ws (CHR ''{'')" "\<not> is_ws (CHR ''}'')"
  "\<not> is_ws (CHR '','')" "\<not> is_ws (CHR '':'')" "\<not> is_ws (CHR ''n'')" "\<not> is_ws (CHR ''t'')" "\<not> is_ws (CHR ''f'')"
  by (simp_all add: is_ws_def)

lemma not_number [simp]:
  "\<not> number_char (CHR '']'')" "\<not> number_char (CHR ''}'')" "\<not> number_char (CHR '','')"
  "\<not> number_char (CHR 0x22)" "\<not> number_char (CHR ''['')" "\<not> number_char (CHR ''{'')"
  "\<not> number_char (CHR ''n'')" "\<not> number_char (CHR ''t'')" "\<not> number_char (CHR ''f'')"
  by (simp_all add: number_char_def digit_val_def)

lemma number_char_not_ws: "is_ws c \<Longrightarrow> \<not> number_char c"
  by (auto simp: is_ws_def number_char_def digit_val_def)

text \<open>The text after a value does not continue a number.\<close>

definition stops :: "string \<Rightarrow> bool" where
  "stops t \<longleftrightarrow> t = [] \<or> \<not> number_char (hd t)"

lemma stops_simps [simp]: "stops []" "stops (CHR '']'' # t)" "stops (CHR ''}'' # t)" "stops (CHR '','' # t)"
  by (simp_all add: stops_def)

lemma stops_ws: "list_all is_ws w \<Longrightarrow> stops t \<Longrightarrow> stops (w @ t)"
  by (cases w) (auto simp: stops_def number_char_not_ws)

lemma parse_atom_number:
  assumes "number_ok l" "stops t"
  shows "parse_value (Suc n) (l @ t) = Some (JNum l, t)"
proof -
  obtain c l' where l: "l = c # l'" using assms(1) valid_number_start [of l] by (cases l) (auto simp: number_ok_def)
  have c: "number_char c" using assms(1) l by (simp add: number_ok_def)
  then have ws: "\<not> is_ws c" using number_char_not_ws by blast
  have ne: "c \<noteq> CHR 0x22" "c \<noteq> CHR ''[''" "c \<noteq> CHR ''{''" "c \<noteq> CHR ''n''" "c \<noteq> CHR ''t''" "c \<noteq> CHR ''f''"
    using c by auto
  have "takeWhile number_char (l @ t) = l" "dropWhile number_char (l @ t) = t"
    using assms by (auto simp: number_ok_def list_all_iff stops_def takeWhile_append dropWhile_append dropWhile_eq_self_iff takeWhile_eq_Nil_iff)
  then have "parse_atom (l @ t) = Some (JNum l, t)"
    using assms(1) ne l by (simp add: parse_atom_def number_ok_def Let_def)
  with l ws ne show ?thesis by simp
qed

lemma parse_value_ws: "list_all is_ws w \<Longrightarrow> parse_value n (w @ s) = parse_value n s"
  by (cases n) simp_all

lemma parse_elems_ws: "list_all is_ws w \<Longrightarrow> parse_elems n (w @ s) = parse_elems n s"
  by (cases n) (simp_all add: parse_value_ws)

lemma parse_members_ws: "list_all is_ws w \<Longrightarrow> parse_members n (w @ s) = parse_members n s"
  by (cases n) simp_all

definition opens :: "string \<Rightarrow> bool" where
  "opens s \<longleftrightarrow> (case skip_ws s of [] \<Rightarrow> False | c # _ \<Rightarrow> c \<noteq> CHR '']'' \<and> c \<noteq> CHR ''}'')"

lemma opens_print:
  "numbers_ok j \<Longrightarrow> list_all is_ws w \<Longrightarrow> opens (w @ print_json h ws col k j @ t)"
proof (cases j)
  case (JNum l)
  moreover assume "numbers_ok j" "list_all is_ws w"
  ultimately obtain c l' where l: "l = c # l'" "number_char c"
    using valid_number_start [of l] by (cases l) (auto simp: number_ok_def)
  then have "\<not> is_ws c" "c \<noteq> CHR '']''" "c \<noteq> CHR ''}''" using number_char_not_ws by auto
  with l JNum \<open>list_all is_ws w\<close> show ?thesis by (simp add: opens_def)
qed (auto simp: opens_def json_str_def)

lemma parse_print:
  "\<forall>k. list_all is_ws (ws k) \<Longrightarrow> list_all is_ws sp \<Longrightarrow> col = CHR '':'' # sp \<Longrightarrow> numbers_ok j \<Longrightarrow> cost j \<le> n \<Longrightarrow> stops t \<Longrightarrow>
     parse_value n (print_json h ws col k j @ t) = Some (scrub_json j, t)"
  "\<forall>k. list_all is_ws (ws k) \<Longrightarrow> list_all is_ws sp \<Longrightarrow> col = CHR '':'' # sp \<Longrightarrow> list_all numbers_ok xs \<Longrightarrow> cost_elems xs \<le> n \<Longrightarrow> xs \<noteq> [] \<Longrightarrow>
     parse_elems n (print_elems h ws col k xs @ ws i @ '']'' @ t) = Some (map scrub_json xs, t)"
  "\<forall>k. list_all is_ws (ws k) \<Longrightarrow> list_all is_ws sp \<Longrightarrow> col = CHR '':'' # sp \<Longrightarrow> list_all (\<lambda>m. numbers_ok (snd m)) ms \<Longrightarrow> cost_members ms \<le> n \<Longrightarrow> ms \<noteq> [] \<Longrightarrow>
     parse_members n (print_members h ws col k ms @ ws i @ ''}'' @ t) = Some (map (\<lambda>m. (scrub (fst m), scrub_json (snd m))) ms, t)"
proof (induction h ws col k j and h ws col k xs and h ws col k ms arbitrary: n t and n t i and n t i rule: print_json_print_elems_print_members.induct)
  case (1 h ws col k)
  then show ?case by (cases n) (simp_all add: parse_atom_def)
next
  case (2 h ws col k b)
  then show ?case by (cases n; cases b) (simp_all add: parse_atom_def)
next
  case (3 h ws col k l)
  then show ?case by (cases n) (simp_all add: parse_atom_number del: parse_value.simps)
next
  case (4 h ws col k s)
  then show ?case by (cases n) (simp_all add: json_str_def parse_body_text)
next
  case (5 h ws col k xs)
  then obtain m where n: "n = Suc m" by (cases n) auto
  show ?case
  proof (cases "xs = []")
    case True
    with n show ?thesis by simp
  next
    case False
    let ?s = "ws (k + 1) @ print_elems h ws col (k + 1) xs @ ws k @ '']'' @ t"
    have "parse_elems m ?s = Some (map scrub_json xs, t)"
      using "5.IH" [OF False "5.prems"(1-3), of m k t] "5.prems" n False by (simp add: parse_elems_ws)
    moreover have "take 1 (skip_ws ?s) \<noteq> '']''"
    proof -
      obtain x xs' where xs: "xs = x # xs'" using False by (cases xs) auto
      have "opens ?s" using opens_print [of x "ws (k + 1)"] "5.prems" xs by simp
      then show ?thesis by (auto simp: opens_def split: list.splits)
    qed
    ultimately show ?thesis using n False by simp
  qed
next
  case (6 h ws col k ms)
  then obtain m where n: "n = Suc m" by (cases n) auto
  show ?case
  proof (cases "ms = []")
    case True
    with n show ?thesis by simp
  next
    case False
    let ?s = "ws (k + 1) @ print_members h ws col (k + 1) ms @ ws k @ ''}'' @ t"
    have "parse_members m ?s = Some (map (\<lambda>m. (scrub (fst m), scrub_json (snd m))) ms, t)"
      using "6.IH" [OF False "6.prems"(1-3), of m k t] "6.prems" n False by (simp add: parse_members_ws)
    moreover have "take 1 (skip_ws ?s) \<noteq> ''}''"
      using "6.prems"(1) False by (cases ms) (simp_all add: json_str_def)
    ultimately show ?thesis using n False by simp
  qed
next
  case (7 h ws col k)
  then show ?case by simp
next
  case (8 h ws col k x xs)
  then obtain m where n: "n = Suc m" by (cases n) auto
  have ws: "list_all is_ws (ws j)" for j using "8.prems"(1) by blast
  show ?case
  proof (cases "xs = []")
    case True
    with "8.IH"(1) [OF "8.prems"(1-3), of m "ws i @ '']'' @ t"] "8.prems" n show ?thesis
      by (simp add: ws stops_ws)
  next
    case False
    with "8.IH"(1) [OF "8.prems"(1-3), of m "'','' @ ws k @ print_elems h ws col k xs @ ws i @ '']'' @ t"]
      "8.IH"(2) [OF False "8.prems"(1-3), of m i t] "8.prems" n show ?thesis
      by (simp add: ws parse_elems_ws)
  qed
next
  case (9 h ws col k)
  then show ?case by simp
next
  case (10 h ws col k m ms)
  then obtain n' where n: "n = Suc n'" by (cases n) auto
  have ws: "list_all is_ws (ws j)" for j using "10.prems"(1) by blast
  show ?case
  proof (cases "ms = []")
    case True
    with "10.IH"(1) [OF "10.prems"(1-3), of n' "ws i @ ''}'' @ t"] "10.prems" n show ?thesis
      by (simp add: ws stops_ws json_str_def parse_body_text parse_value_ws)
  next
    case False
    with "10.IH"(1) [OF "10.prems"(1-3), of n' "'','' @ ws k @ print_members h ws col k ms @ ws i @ ''}'' @ t"]
      "10.IH"(2) [OF False "10.prems"(1-3), of n' i t] "10.prems" n show ?thesis
      by (simp add: ws parse_members_ws json_str_def parse_body_text parse_value_ws)
  qed
qed

lemma parse_printed:
  assumes "\<forall>k. list_all is_ws (ws k)" "list_all is_ws sp" "numbers_ok j" "list_all is_ws w"
  shows "parse_json (print_json h ws (CHR '':'' # sp) 0 j @ w) = Some (scrub_json j)"
proof -
  have "cost j \<le> 2 * length (print_json h ws (CHR '':'' # sp) 0 j @ w) + 1"
    using cost_le(1) [OF assms(3), of h ws "CHR '':'' # sp" 0] by simp
  then have "parse_value (2 * length (print_json h ws (CHR '':'' # sp) 0 j @ w) + 1) (print_json h ws (CHR '':'' # sp) 0 j @ w)
      = Some (scrub_json j, w)"
    using stops_ws [OF assms(4), of "[]"] by (intro parse_print(1) [OF assms(1,2) refl assms(3)]) simp_all
  moreover have "skip_ws w = []" using assms(4) by (simp add: skip_ws_def list_all_iff)
  ultimately show ?thesis unfolding parse_json_def by simp
qed

lemma parse_marshal: "numbers_ok j \<Longrightarrow> parse_json (marshal j) = Some (scrub_json j)"
  using parse_printed [of "\<lambda>k. []" "[]" j "[]" True] by (simp add: marshal_def)

lemma parse_encode_indented: "numbers_ok j \<Longrightarrow> parse_json (encode_indented j) = Some (scrub_json j)"
  using parse_printed [of indented "'' ''" j "[CHR 0x0A]" False]
  by (simp add: encode_indented_def indented_def is_ws_def list_all_iff)

subsection \<open>Reading into Go values\<close>

text \<open>\<open>json.Unmarshal\<close> into the fields of a struct: an absent field and \<open>null\<close> leave the zero value, a value
  of another kind is an error.  A key matches without regard to (ASCII) case.\<close>

definition json_field :: "string \<Rightarrow> (string \<times> json) list \<Rightarrow> json option" where
  "json_field k ms = map_option snd (find (\<lambda>m. equal_fold (fst m) k) (rev ms))"

fun as_string :: "json option \<Rightarrow> string option" where
  "as_string None = Some []"
| "as_string (Some JNull) = Some []"
| "as_string (Some (JStr s)) = Some s"
| "as_string (Some j) = None"

fun as_int64 :: "json option \<Rightarrow> int option" where
  "as_int64 None = Some 0"
| "as_int64 (Some JNull) = Some 0"
| "as_int64 (Some (JNum l)) = parse_int64 l"
| "as_int64 (Some j) = None"

fun all_some :: "'a option list \<Rightarrow> 'a list option" where
  "all_some [] = Some []"
| "all_some (x # xs) = (case (x, all_some xs) of (Some y, Some ys) \<Rightarrow> Some (y # ys) | _ \<Rightarrow> None)"

fun as_list :: "(json \<Rightarrow> 'a option) \<Rightarrow> json option \<Rightarrow> 'a list option" where
  "as_list f None = Some []"
| "as_list f (Some JNull) = Some []"
| "as_list f (Some (JArr xs)) = all_some (map f xs)"
| "as_list f (Some j) = None"

fun as_pointer :: "(json \<Rightarrow> 'a option) \<Rightarrow> json option \<Rightarrow> 'a option option" where
  "as_pointer f None = Some None"
| "as_pointer f (Some JNull) = Some None"
| "as_pointer f (Some j) = map_option Some (f j)"

text \<open>The members a struct is read from.\<close>

fun as_struct :: "json \<Rightarrow> (string \<times> json) list option" where
  "as_struct JNull = Some []"
| "as_struct (JObj ms) = Some ms"
| "as_struct j = None"

lemma all_some_map: "(\<And>x. x \<in> set xs \<Longrightarrow> f x = Some (g x)) \<Longrightarrow> all_some (map f xs) = Some (map g xs)"
  by (induction xs) auto

lemma scrub_ascii: "list_all (\<lambda>c. byte c < 0x80) s \<Longrightarrow> scrub s = s"
  by (induction s) simp_all

lemma ascii_valid: "list_all (\<lambda>c. byte c < 0x80) s \<Longrightarrow> valid_utf8 s"
  by (induction s) simp_all

lemma json_field_Nil [simp]: "json_field k [] = None"
  by (simp add: json_field_def)

lemma json_field_snoc: "json_field k (ms @ [m]) = (if equal_fold (fst m) k then Some (snd m) else json_field k ms)"
  by (simp add: json_field_def)

text \<open>With keys that differ when folded, a field is found wherever it stands.\<close>

lemma json_field_distinct:
  assumes "distinct (map (\<lambda>m. to_lower (fst m)) ms)" "(k, v) \<in> set ms"
  shows "json_field k ms = Some v"
  using assms
proof (induction ms rule: rev_induct)
  case Nil
  then show ?case by simp
next
  case (snoc m ms)
  then show ?case
    by (cases "(k, v) = m") (auto simp: json_field_snoc equal_fold_def, metis fst_conv image_eqI)
qed

lemma number_chars: "list_all (\<lambda>c. digit_val c \<noteq> None) (format_nat n)"
  using format_nat_chars [of _ n] by (fastforce simp: list_all_iff)

lemma format_nat_lead: "take 1 (format_nat n) = ''0'' \<Longrightarrow> n = 0"
proof (induction n rule: format_nat.induct)
  case (1 n)
  show ?case
  proof (cases "n < 10")
    case True
    then have "digit n = CHR ''0''" using 1(2) by (simp add: format_nat.simps [of n])
    then have "(of_char (digit n) :: nat) = 48" by simp
    with True show ?thesis by (simp add: of_char_digit)
  next
    case False
    then have f: "format_nat n = format_nat (n div 10) @ [digit (n mod 10)]" by (simp add: format_nat.simps [of n])
    then have "take 1 (format_nat (n div 10)) = ''0''" using 1(2) by (cases "format_nat (n div 10)") auto
    with 1(1) False have "n div 10 = 0" by blast
    with False show ?thesis by simp
  qed
qed

lemma number_ok_format: "0 \<le> i \<Longrightarrow> number_ok (format_int i)"
proof -
  assume i: "0 \<le> i"
  let ?s = "format_nat (nat i)" and ?d = "\<lambda>c. digit_val c \<noteq> None"
  have d: "list_all ?d ?s" by (rule number_chars)
  obtain c t where s: "?s = c # t" by (cases ?s) auto
  have "c \<noteq> CHR ''-''" using d s by (auto simp: digit_val_def)
  moreover have "takeWhile ?d ?s = ?s" "dropWhile ?d ?s = []" using d by (auto simp: list_all_iff)
  moreover have "take 1 ?s = ''0'' \<longrightarrow> length ?s = 1"
  proof
    assume "take 1 ?s = ''0''"
    then have "nat i = 0" by (rule format_nat_lead)
    then show "length ?s = 1" by (simp add: format_nat.simps)
  qed
  moreover have "list_all number_char ?s" using d by (auto simp: list_all_iff number_char_def)
  moreover have "digit_val (CHR ''0'') \<noteq> None" by (simp add: digit_val_def)
  ultimately show ?thesis using i s by (simp add: number_ok_def valid_number_def format_int_def Let_def)
qed

end
