(* ===== verification/Sync.thy ===== *)
theory Sync
  imports Claims Refresh
begin

text \<open>
  \<open>internal/cli/cmd_sync.go\<close>: repairing a checkout that diverges from the integration ref, and the
  coordination snapshot of \<open>store/coordination_snapshot.go\<close> it decides under.

  The checkout is a map from paths to what stands there.  Peers edit it while sync runs: every
  system call of the code is preceded by \<open>act\<close>, which lets them, and calls fail where the
  environment says so.  Between two flock sections peers also change the store and the reference.
  The last probe and the rename or removal it authorizes are one step.  Directories made on the way to
  a file, and the temporary files, are not part of the map.
\<close>

subsection \<open>The checkout and its environment\<close>

datatype fobj =
    FRegular string bool
  | FDir
  | FSymlink "string option"
  | FSpecial bool

type_synonym files = "string \<Rightarrow> fobj option"

text \<open>What reading through a name gives: \<open>git hash-object\<close> follows a symlink.\<close>

fun read_through :: "fobj \<Rightarrow> string option" where
  "read_through (FRegular c x) = Some c"
| "read_through FDir = None"
| "read_through (FSymlink r) = r"
| "read_through (FSpecial x) = None"

text \<open>Whether any execute bit is set; directories and links carry one.\<close>

fun exec_bit :: "fobj \<Rightarrow> bool" where
  "exec_bit (FRegular c x) = x"
| "exec_bit FDir = True"
| "exec_bit (FSymlink r) = True"
| "exec_bit (FSpecial x) = x"

definition is_regular :: "fobj \<Rightarrow> bool" where
  "is_regular ob = (case ob of FRegular _ _ \<Rightarrow> True | _ \<Rightarrow> False)"

datatype sync_error =
    ErrSyncStore store_error
  | ErrSyncGit
  | ErrSyncLstat
  | ErrSyncHash
  | ErrHashCount
  | ErrSyncStage
  | ErrSyncPublish
  | ErrSyncRemove
  | ErrSyncIntegrationChanged

text \<open>A mutation of the checkout by sync, with the tables, the context and the reference its section
  read; the code keeps no such log, it is the history the properties speak of.\<close>

record mutation =
  mu_path :: string
  mu_before :: "fobj option"
  mu_after :: "fobj option"
  mu_db :: db
  mu_ctx :: EvalContext
  mu_integ :: "string option"

record sync_world =
  sy_files :: files
  sy_db :: db
  sy_integ :: "string option"
  sy_ctx :: EvalContext
  sy_tick :: nat
  sy_sec :: nat
  sy_log :: "mutation list"

record sync_env =
  se_hash :: "string \<Rightarrow> string \<Rightarrow> string"
  se_hash_stdin :: "files \<Rightarrow> string \<Rightarrow> string option"
  se_blob :: "string \<Rightarrow> string option"
  se_edit :: "nat \<Rightarrow> files \<Rightarrow> files"
  se_fail :: "nat \<Rightarrow> bool"
  se_fsync_fail :: "nat \<Rightarrow> bool"
  se_peers :: "nat \<Rightarrow> db \<Rightarrow> db"
  se_promote :: "nat \<Rightarrow> string option \<Rightarrow> string option"
  se_flock :: "nat \<Rightarrow> bool"
  se_ref_fail :: "nat \<Rightarrow> bool"
  se_now :: "nat \<Rightarrow> time"
  se_live :: "nat \<Rightarrow> HolderLiveProbe option"
  se_caseFold :: bool
  se_worktree :: string

definition act :: "sync_env \<Rightarrow> sync_world \<Rightarrow> sync_world" where
  "act e w = w\<lparr>sy_files := se_edit e (sy_tick w) (sy_files w), sy_tick := sy_tick w + 1\<rparr>"

definition mutate :: "string \<Rightarrow> fobj option \<Rightarrow> sync_world \<Rightarrow> sync_world" where
  "mutate p ob w =
     w\<lparr>sy_files := (sy_files w)(p := ob), sy_tick := sy_tick w + 1,
       sy_log := sy_log w @ [\<lparr>mu_path = p, mu_before = sy_files w p, mu_after = ob, mu_db = sy_db w,
         mu_ctx = sy_ctx w, mu_integ = sy_integ w\<rparr>]\<rparr>"

subsection \<open>What sync decides on\<close>

datatype syncState = syncModified | syncMissing | syncModeOnly | syncUnsupported

record syncEntry =
  en_Path :: string
  en_Mode :: string
  en_OID :: string

record syncDiff = syncEntry +
  sd_State :: syncState
  sd_Observed :: string

record syncConflict =
  sf_Path :: string
  sf_Reason :: string
  sf_Holder :: string

record syncResidue =
  rs_Path :: string
  rs_CandidateID :: string
  rs_Blob :: string

record syncResidueMismatch = syncResidue +
  rm_Found :: string

record syncTargetMismatch =
  tm_diff :: syncDiff
  tm_Found :: string

record syncOutcome =
  so_Synced :: "string list"
  so_Deleted :: "syncResidue list"
  so_Conflicts :: "syncConflict list"
  so_ResidueSkips :: "syncConflict list"
  so_Modified :: "syncResidueMismatch list"
  so_TargetSkips :: "syncTargetMismatch list"

definition no_sync :: syncOutcome where
  "no_sync = \<lparr>so_Synced = [], so_Deleted = [], so_Conflicts = [], so_ResidueSkips = [], so_Modified = [], so_TargetSkips = []\<rparr>"

definition syncReasonLeased :: string where "syncReasonLeased = ''leased''"
definition syncReasonCandidateClaim :: string where "syncReasonCandidateClaim = ''candidate-claim''"
definition syncReasonLeaseLapsedHolderLive :: string where "syncReasonLeaseLapsedHolderLive = ''lease-lapsed-holder-live''"
definition syncReasonLeaseLapsedHolderUnknown :: string where
  "syncReasonLeaseLapsedHolderUnknown = ''lease-lapsed-holder-unknown''"
definition syncReasonResidueNotFile :: string where "syncReasonResidueNotFile = ''residue-not-regular-file''"

definition syncLapsedReason :: "Liveness \<Rightarrow> string" where
  "syncLapsedReason v = (if v = LivenessAlive then syncReasonLeaseLapsedHolderLive else syncReasonLeaseLapsedHolderUnknown)"

fun syncLockConflictFor :: "string \<Rightarrow> LockRecord list \<Rightarrow> EvalContext \<Rightarrow> (string \<times> string) option" where
  "syncLockConflictFor path [] ec = None"
| "syncLockConflictFor path (l # ls) ec =
     (let h = LockHold ec l in
      if Refuses ec [] (MyWorktree ec) path h then Some (syncReasonLeased, l_OwnerUUID l)
      else if \<not> Covers ec (MyWorktree ec) path h then syncLockConflictFor path ls ec
      else let v = HolderLiveness ec l in
           if HoldAbove (Canonical (l_Target l)) path \<and> fst v \<noteq> LivenessAlive then syncLockConflictFor path ls ec
           else if snd v \<and> fst v \<noteq> LivenessDead then Some (syncLapsedReason (fst v), l_OwnerUUID l)
           else syncLockConflictFor path ls ec)"

definition syncConflictFor ::
  "string \<Rightarrow> LockRecord list \<Rightarrow> CandidateClaim list \<Rightarrow> EvalContext \<Rightarrow> (string \<times> string) option" where
  "syncConflictFor path locks cands ec =
     (case syncLockConflictFor path locks ec of
        Some c \<Rightarrow> Some c
      | None \<Rightarrow> (case cands of [] \<Rightarrow> None | c # _ \<Rightarrow> Some (syncReasonCandidateClaim, cc_CandidateID c)))"

text \<open>The map \<open>candsByPath\<close> read at a path.\<close>

definition cands_at :: "CandidateClaim list \<Rightarrow> string \<Rightarrow> CandidateClaim list" where
  "cands_at cands path = filter (\<lambda>c. cc_PathCanonical c = path) cands"

fun decide_loop ::
  "('a \<Rightarrow> string) \<Rightarrow> 'a list \<Rightarrow> LockRecord list \<Rightarrow> CandidateClaim list \<Rightarrow> EvalContext \<Rightarrow> 'a list \<times> syncConflict list" where
  "decide_loop path [] locks cands ec = ([], [])"
| "decide_loop path (d # ds) locks cands ec =
     (case decide_loop path ds locks cands ec of
        (clear, refused) \<Rightarrow>
          (case syncConflictFor (path d) locks (cands_at cands (path d)) ec of
             Some (reason, holder) \<Rightarrow> (clear, \<lparr>sf_Path = path d, sf_Reason = reason, sf_Holder = holder\<rparr> # refused)
           | None \<Rightarrow> (d # clear, refused)))"

definition syncDecide ::
  "syncDiff list \<Rightarrow> LockRecord list \<Rightarrow> CandidateClaim list \<Rightarrow> EvalContext \<Rightarrow> syncDiff list \<times> syncConflict list" where
  "syncDecide diffs locks cands ec =
     (let r = decide_loop en_Path diffs locks cands ec in (sort_key en_Path (fst r), sort_key sf_Path (snd r)))"

definition syncDecideResidue ::
  "syncResidue list \<Rightarrow> LockRecord list \<Rightarrow> CandidateClaim list \<Rightarrow> EvalContext \<Rightarrow> syncResidue list \<times> syncConflict list" where
  "syncDecideResidue residue locks cands ec =
     (let r = decide_loop rs_Path residue locks cands ec in (sort_key rs_Path (fst r), sort_key sf_Path (snd r)))"

definition partitionSkipped :: "syncDiff list \<Rightarrow> syncDiff list \<times> syncDiff list" where
  "partitionSkipped diffs = (filter (\<lambda>d. sd_State d = syncUnsupported) diffs, filter (\<lambda>d. sd_State d \<noteq> syncUnsupported) diffs)"

definition mergeSyncConflicts :: "syncConflict list \<Rightarrow> syncConflict list \<Rightarrow> syncConflict list" where
  "mergeSyncConflicts a b = sort_key sf_Path (a @ b)"

definition sortSyncOutcome :: "syncOutcome \<Rightarrow> syncOutcome" where
  "sortSyncOutcome out =
     out\<lparr>so_Conflicts := sort_key sf_Path (so_Conflicts out), so_ResidueSkips := sort_key sf_Path (so_ResidueSkips out),
        so_Modified := sort_key rs_Path (so_Modified out),
        so_TargetSkips := sort_key (\<lambda>m. en_Path (tm_diff m)) (so_TargetSkips out)\<rparr>"

subsection \<open>Probing a path\<close>

datatype syncProbeState = syncProbeHashed | syncProbeVanished | syncProbeNotRegular

definition hashExceptionalPath :: "sync_env \<Rightarrow> sync_world \<Rightarrow> string \<Rightarrow> string option" where
  "hashExceptionalPath e w p =
     (if se_fail e (sy_tick w) then None
      else case sy_files w p of None \<Rightarrow> None | Some ob \<Rightarrow> map_option (se_hash e p) (read_through ob))"

definition syncProbePath :: "sync_env \<Rightarrow> string \<Rightarrow> sync_world \<Rightarrow> (sync_error + string \<times> syncProbeState) \<times> sync_world" where
  "syncProbePath e p w =
     (let w1 = act e w in
      if se_fail e (sy_tick w1) then (Inl ErrSyncLstat, w1)
      else case sy_files w1 p of
        None \<Rightarrow> (Inr ([], syncProbeVanished), w1)
      | Some ob \<Rightarrow>
          if \<not> is_regular ob then (Inr ([], syncProbeNotRegular), w1)
          else let w2 = act e w1 in
               case hashExceptionalPath e w2 p of
                 Some oid \<Rightarrow> (Inr (oid, syncProbeHashed), w2)
               | None \<Rightarrow>
                   let w3 = act e w2 in
                   if \<not> se_fail e (sy_tick w3) \<and> sy_files w3 p = None then (Inr ([], syncProbeVanished), w3)
                   else (Inl ErrSyncHash, w3))"

subsection \<open>Fast-forwarding\<close>

definition syncTargetMoved :: "syncDiff \<Rightarrow> string \<Rightarrow> syncProbeState \<Rightarrow> string \<times> bool" where
  "syncTargetMoved d oid state =
     (if sd_State d = syncMissing then (oid, state \<noteq> syncProbeVanished)
      else if state \<noteq> syncProbeHashed then ([], True)
      else (oid, oid \<noteq> sd_Observed d))"

record syncStaged =
  st_Target :: string
  st_Content :: string
  st_Exec :: bool

definition syncStageReplacement :: "sync_env \<Rightarrow> syncDiff \<Rightarrow> sync_world \<Rightarrow> (sync_error + syncStaged) \<times> sync_world" where
  "syncStageReplacement e d w =
     (let w1 = act e w in
      if se_fail e (sy_tick w1) then (Inl ErrSyncStage, w1)
      else case se_blob e (en_OID d) of
        None \<Rightarrow> (Inl ErrSyncStage, w1)
      | Some c \<Rightarrow>
          let w2 = act e w1 in
          if se_fail e (sy_tick w2) then (Inl ErrSyncStage, w2)
          else let w3 = act e w2 in
               if se_fail e (sy_tick w3) then (Inl ErrSyncStage, w3)
               else (Inr \<lparr>st_Target = en_Path d, st_Content = c, st_Exec = (en_Mode d = ''100755'')\<rparr>, w3))"

text \<open>The rename, right after the probe, and the directory fsync: whether it was published, and the error.\<close>

definition syncPublishStaged :: "sync_env \<Rightarrow> syncStaged \<Rightarrow> sync_world \<Rightarrow> (bool \<times> sync_error option) \<times> sync_world" where
  "syncPublishStaged e st w =
     (if se_fail e (sy_tick w + 1) then ((False, Some ErrSyncPublish), w)
      else let w1 = mutate (st_Target st) (Some (FRegular (st_Content st) (st_Exec st))) w in
           if se_fsync_fail e (sy_tick w) then ((True, Some ErrSyncPublish), w1) else ((True, None), w1))"

fun apply_loop ::
  "sync_env \<Rightarrow> syncDiff list \<Rightarrow> sync_world \<Rightarrow> (string list \<times> syncTargetMismatch list \<times> sync_error option) \<times> sync_world" where
  "apply_loop e [] w = (([], [], None), w)"
| "apply_loop e (d # ds) w =
     (case syncStageReplacement e d w of
        (Inl er, w1) \<Rightarrow> (([], [], Some er), w1)
      | (Inr staged, w1) \<Rightarrow>
          (case syncProbePath e (en_Path d) w1 of
             (Inl er, w2) \<Rightarrow> (([], [], Some er), w2)
           | (Inr (oid, state), w2) \<Rightarrow>
               let mv = syncTargetMoved d oid state in
               if snd mv then
                 (case apply_loop e ds w2 of
                    ((synced, skipped, er), w3) \<Rightarrow>
                      ((synced, \<lparr>tm_diff = d, tm_Found = fst mv\<rparr> # skipped, er), w3))
               else
                 (case syncPublishStaged e staged w2 of
                    ((published, Some er), w3) \<Rightarrow> ((if published then [en_Path d] else [], [], Some er), w3)
                  | ((published, None), w3) \<Rightarrow>
                      (case apply_loop e ds w3 of
                         ((synced, skipped, er), w4) \<Rightarrow>
                           (((if published then [en_Path d] else []) @ synced, skipped, er), w4)))))"

definition syncApply ::
  "sync_env \<Rightarrow> syncDiff list \<Rightarrow> sync_world \<Rightarrow> (string list \<times> syncTargetMismatch list \<times> sync_error option) \<times> sync_world" where
  "syncApply e ds w = apply_loop e (sort_key en_Path ds) w"

subsection \<open>Deleting residue\<close>

definition residue_skip :: "syncResidue \<Rightarrow> syncConflict" where
  "residue_skip r = \<lparr>sf_Path = rs_Path r, sf_Reason = syncReasonResidueNotFile, sf_Holder = rs_CandidateID r\<rparr>"

definition residue_mismatch :: "syncResidue \<Rightarrow> string \<Rightarrow> syncResidueMismatch" where
  "residue_mismatch r found = syncResidue.extend r \<lparr>rm_Found = found\<rparr>"

text \<open>The three verdicts of a probe, shared by the classification and the deletion.\<close>

datatype residue_verdict = ResidueGone | ResidueSkip | ResidueOurs | ResidueModified string

definition judge_residue :: "syncResidue \<Rightarrow> string \<times> syncProbeState \<Rightarrow> residue_verdict" where
  "judge_residue r pr =
     (case snd pr of
        syncProbeVanished \<Rightarrow> ResidueGone
      | syncProbeNotRegular \<Rightarrow> ResidueSkip
      | syncProbeHashed \<Rightarrow> if fst pr = rs_Blob r then ResidueOurs else ResidueModified (fst pr))"

type_synonym residue_result =
  "syncResidue list \<times> syncConflict list \<times> syncResidueMismatch list \<times> sync_error option"

definition add_residue :: "residue_verdict \<Rightarrow> syncResidue \<Rightarrow> residue_result \<Rightarrow> residue_result" where
  "add_residue v r res =
     (case v of
        ResidueGone \<Rightarrow> res
      | ResidueSkip \<Rightarrow> (fst res, residue_skip r # fst (snd res), snd (snd res))
      | ResidueOurs \<Rightarrow> (r # fst res, snd res)
      | ResidueModified found \<Rightarrow>
          (fst res, fst (snd res), residue_mismatch r found # fst (snd (snd res)), snd (snd (snd res))))"

fun syncDeleteResidue :: "sync_env \<Rightarrow> syncResidue list \<Rightarrow> sync_world \<Rightarrow> residue_result \<times> sync_world" where
  "syncDeleteResidue e [] w = (([], [], [], None), w)"
| "syncDeleteResidue e (r # rs) w =
     (case syncProbePath e (rs_Path r) w of
        (Inl er, w1) \<Rightarrow> (([], [], [], Some er), w1)
      | (Inr pr, w1) \<Rightarrow>
          let v = judge_residue r pr in
          if v = ResidueOurs then
            (if se_fail e (sy_tick w1 + 1) then (([], [], [], Some ErrSyncRemove), w1)
             else let rest = syncDeleteResidue e rs (mutate (rs_Path r) None w1) in (add_residue v r (fst rest), snd rest))
          else let rest = syncDeleteResidue e rs w1 in (add_residue v r (fst rest), snd rest))"

text \<open>A failed probe makes the classification return nothing else.\<close>

fun classify_residue :: "sync_env \<Rightarrow> syncResidue list \<Rightarrow> sync_world \<Rightarrow> residue_result \<times> sync_world" where
  "classify_residue e [] w = (([], [], [], None), w)"
| "classify_residue e (r # rs) w =
     (case syncProbePath e (rs_Path r) w of
        (Inl er, w1) \<Rightarrow> (([], [], [], Some er), w1)
      | (Inr pr, w1) \<Rightarrow>
          let rest = classify_residue e rs w1 in
          (case snd (snd (snd (fst rest))) of
             Some er \<Rightarrow> rest
           | None \<Rightarrow> (add_residue (judge_residue r pr) r (fst rest), snd rest)))"

definition syncClassifyResidue :: "sync_env \<Rightarrow> syncResidue list \<Rightarrow> sync_world \<Rightarrow> residue_result \<times> sync_world" where
  "syncClassifyResidue e rs w =
     (let r = classify_residue e rs w in
      case snd (snd (snd (fst r))) of
        Some er \<Rightarrow> (([], [], [], Some er), snd r)
      | None \<Rightarrow> ((fst (fst r), fst (snd (fst r)), sort_key rs_Path (fst (snd (snd (fst r)))), None), snd r))"

subsection \<open>Sections under the operation flock\<close>

definition enter :: "sync_env \<Rightarrow> sync_world \<Rightarrow> sync_world" where
  "enter e w =
     act e (w\<lparr>sy_sec := sy_sec w + 1, sy_db := se_peers e (sy_sec w) (sy_db w), sy_integ := se_promote e (sy_sec w) (sy_integ w)\<rparr>)"

text \<open>\<open>inspect\<close> gets what the snapshot read, and the world of the section.\<close>

definition WithStableCoordinationState ::
  "sync_env \<Rightarrow> string list \<Rightarrow> (LockRecord list \<Rightarrow> CandidateClaim list \<Rightarrow> nat \<Rightarrow> sync_world \<Rightarrow> (sync_error option \<times> 'a) \<times> sync_world) \<Rightarrow>
     'a \<Rightarrow> sync_world \<Rightarrow> (sync_error option \<times> 'a) \<times> sync_world" where
  "WithStableCoordinationState e paths inspect out w =
     (let w1 = enter e w in
      if \<not> se_flock e (sy_sec w) then ((Some (ErrSyncStore ErrFlock), out), w1)
      else inspect (ListLocks (sy_db w1)) (CandidateClaimsForPaths paths (sy_db w1)) (sy_sec w) w1)"

definition syncBatchContext :: "sync_env \<Rightarrow> string \<Rightarrow> nat \<Rightarrow> sync_world \<Rightarrow> sync_error + EvalContext" where
  "syncBatchContext e expected k w =
     (if se_ref_fail e k then Inl ErrSyncGit
      else if sy_integ w \<noteq> Some expected then Inl ErrSyncIntegrationChanged
      else Inr \<lparr>Now = se_now e k, Live = se_live e k, CaseFold = se_caseFold e, MyWorktree = se_worktree e\<rparr>)"

definition syncApplyBatch :: nat where "syncApplyBatch = 16"

function (sequential) chunk :: "nat \<Rightarrow> 'a list \<Rightarrow> 'a list list" where
  "chunk n [] = []"
| "chunk n (x # xs) = (if n = 0 then [x # xs] else take n (x # xs) # chunk n (drop n (x # xs)))"
  by pat_completeness auto
termination
  by (relation "measure (length \<circ> snd)") auto

definition fast_forward_batch ::
  "sync_env \<Rightarrow> string \<Rightarrow> syncDiff list \<Rightarrow> syncOutcome \<Rightarrow> sync_world \<Rightarrow> (sync_error option \<times> syncOutcome) \<times> sync_world" where
  "fast_forward_batch e expected batch out w =
     WithStableCoordinationState e (map en_Path batch)
       (\<lambda>locks cands k w1.
          case syncBatchContext e expected k w1 of
            Inl er \<Rightarrow> ((Some er, out), w1)
          | Inr ec \<Rightarrow>
              (case syncDecide batch locks cands ec of
                 (apply, conflicts) \<Rightarrow>
                   (case syncApply e apply (w1\<lparr>sy_ctx := ec\<rparr>) of
                      ((synced, skips, er), w2) \<Rightarrow>
                        ((er, out\<lparr>so_Conflicts := so_Conflicts out @ conflicts, so_Synced := so_Synced out @ synced,
                            so_TargetSkips := so_TargetSkips out @ skips\<rparr>), w2)))) out w"

definition sweep_batch ::
  "sync_env \<Rightarrow> string \<Rightarrow> syncResidue list \<Rightarrow> syncOutcome \<Rightarrow> sync_world \<Rightarrow> (sync_error option \<times> syncOutcome) \<times> sync_world" where
  "sweep_batch e expected batch out w =
     WithStableCoordinationState e (map rs_Path batch)
       (\<lambda>locks cands k w1.
          case syncBatchContext e expected k w1 of
            Inl er \<Rightarrow> ((Some er, out), w1)
          | Inr ec \<Rightarrow>
              (case syncDecideResidue batch locks cands ec of
                 (sweep, conflicts) \<Rightarrow>
                   (case syncDeleteResidue e sweep (w1\<lparr>sy_ctx := ec\<rparr>) of
                      ((deleted, skips, modified, er), w2) \<Rightarrow>
                        ((er, out\<lparr>so_Conflicts := so_Conflicts out @ conflicts, so_Deleted := so_Deleted out @ deleted,
                            so_ResidueSkips := so_ResidueSkips out @ skips, so_Modified := so_Modified out @ modified\<rparr>), w2)))) out w"

text \<open>The loop over the batches, which stops at the first error.\<close>

fun each_batch ::
  "('b \<Rightarrow> syncOutcome \<Rightarrow> sync_world \<Rightarrow> (sync_error option \<times> syncOutcome) \<times> sync_world) \<Rightarrow> 'b list \<Rightarrow> syncOutcome \<Rightarrow>
     sync_world \<Rightarrow> (sync_error option \<times> syncOutcome) \<times> sync_world" where
  "each_batch f [] out w = ((None, out), w)"
| "each_batch f (b # bs) out w =
     (case f b out w of
        ((Some er, out1), w1) \<Rightarrow> ((Some er, out1), w1)
      | ((None, out1), w1) \<Rightarrow> each_batch f bs out1 w1)"

definition syncFastForwardBatches ::
  "sync_env \<Rightarrow> string \<Rightarrow> syncDiff list \<Rightarrow> syncOutcome \<Rightarrow> sync_world \<Rightarrow> (sync_error option \<times> syncOutcome) \<times> sync_world" where
  "syncFastForwardBatches e expected decidable = each_batch (fast_forward_batch e expected) (chunk syncApplyBatch decidable)"

definition syncSweepBatches ::
  "sync_env \<Rightarrow> string \<Rightarrow> syncResidue list \<Rightarrow> syncOutcome \<Rightarrow> sync_world \<Rightarrow> (sync_error option \<times> syncOutcome) \<times> sync_world" where
  "syncSweepBatches e expected residue = each_batch (sweep_batch e expected) (chunk syncApplyBatch residue)"

text \<open>The code is 3 for any error; the outcome then says what the finished batches did.\<close>

definition syncDryRun ::
  "sync_env \<Rightarrow> string \<Rightarrow> syncDiff list \<Rightarrow> syncResidue list \<Rightarrow> sync_world \<Rightarrow> (sync_error option \<times> syncOutcome) \<times> sync_world" where
  "syncDryRun e expected decidable residue w =
     (case WithStableCoordinationState e (map en_Path decidable @ map rs_Path residue)
            (\<lambda>locks cands k w1.
               case syncBatchContext e expected k w1 of
                 Inl er \<Rightarrow> ((Some er, (no_sync, [])), w1)
               | Inr ec \<Rightarrow>
                   let dec = syncDecide decidable locks cands ec; res = syncDecideResidue residue locks cands ec in
                   ((None, (no_sync\<lparr>so_Conflicts := mergeSyncConflicts (snd dec) (snd res),
                                   so_Synced := map en_Path (fst dec)\<rparr>, fst res)), w1)) (no_sync, []) w of
        ((Some er, out, sweep), w1) \<Rightarrow> ((Some er, sortSyncOutcome out), w1)
      | ((None, out, sweep), w1) \<Rightarrow>
          let c = syncClassifyResidue e sweep w1;
              out1 = out\<lparr>so_Deleted := fst (fst c), so_ResidueSkips := fst (snd (fst c)), so_Modified := fst (snd (snd (fst c)))\<rparr>
          in (case snd (snd (snd (fst c))) of
                Some er \<Rightarrow> ((Some er, sortSyncOutcome out1), snd c)
              | None \<Rightarrow> ((None, out1), snd c)))"

definition syncStoreDecideApply ::
  "sync_env \<Rightarrow> string \<Rightarrow> syncDiff list \<Rightarrow> syncResidue list \<Rightarrow> bool \<Rightarrow> sync_world \<Rightarrow> (sync_error option \<times> syncOutcome) \<times> sync_world" where
  "syncStoreDecideApply e expected decidable residue dryRun w =
     (if dryRun then syncDryRun e expected decidable residue w
      else case syncFastForwardBatches e expected decidable no_sync w of
        ((Some er, out), w1) \<Rightarrow> ((Some er, sortSyncOutcome out), w1)
      | ((None, out), w1) \<Rightarrow>
          (case syncSweepBatches e expected residue out w1 of
             ((er, out1), w2) \<Rightarrow> ((er, sortSyncOutcome out1), w2)))"

subsection \<open>Finding the divergence\<close>

definition trim_right_char :: "char \<Rightarrow> string \<Rightarrow> string" where
  "trim_right_char d s = rev (dropWhile (\<lambda>c. c = d) (rev s))"

definition nul_records :: "string \<Rightarrow> string list" where
  "nul_records out = filter (\<lambda>r. r \<noteq> []) (split_on NUL (trim_right_char NUL out))"

definition parse_tree_record :: "string \<Rightarrow> syncEntry option" where
  "parse_tree_record rec =
     (let head = takeWhile (\<lambda>c. c \<noteq> CHR 0x09) rec; rest = dropWhile (\<lambda>c. c \<noteq> CHR 0x09) rec in
      case rest of
        [] \<Rightarrow> None
      | _ # path \<Rightarrow>
          (case str_fields head of
             [mode, kind, oid] \<Rightarrow> Some \<lparr>en_Path = path, en_Mode = mode, en_OID = oid\<rparr>
           | _ \<Rightarrow> None))"

definition syncIntegrationEntries :: "string \<Rightarrow> syncEntry list" where
  "syncIntegrationEntries out = List.map_filter parse_tree_record (nul_records out)"

definition syncUntrackedPaths :: "string \<Rightarrow> string list" where
  "syncUntrackedPaths out = nul_records out"

definition syncScanResidue :: "string list \<Rightarrow> (string \<Rightarrow> (string \<times> string) option) \<Rightarrow> syncResidue list \<times> string list" where
  "syncScanResidue untracked createdBy =
     (sort_key rs_Path (List.map_filter (\<lambda>p. map_option (\<lambda>(cid, blob). \<lparr>rs_Path = p, rs_CandidateID = cid, rs_Blob = blob\<rparr>) (createdBy p)) untracked),
      sort (filter (\<lambda>p. createdBy p = None) untracked))"

definition diff_of :: "syncEntry \<Rightarrow> syncState \<Rightarrow> string \<Rightarrow> syncDiff" where
  "diff_of en st ob = syncEntry.extend en \<lparr>sd_State = st, sd_Observed = ob\<rparr>"

fun diverge_loop :: "sync_env \<Rightarrow> syncEntry list \<Rightarrow> sync_world \<Rightarrow> (sync_error + syncDiff list \<times> syncEntry list) \<times> sync_world" where
  "diverge_loop e [] w = (Inr ([], []), w)"
| "diverge_loop e (en # ens) w =
     (if en_Mode en = ''120000'' \<or> en_Mode en = ''160000'' then
        (case diverge_loop e ens w of
           (Inl er, w1) \<Rightarrow> (Inl er, w1)
         | (Inr (ds, xs), w1) \<Rightarrow> (Inr (diff_of en syncUnsupported [] # ds, xs), w1))
      else
        let w0 = act e w in
        if se_fail e (sy_tick w0) then (Inl ErrSyncLstat, w0)
        else case diverge_loop e ens w0 of
               (Inl er, w1) \<Rightarrow> (Inl er, w1)
             | (Inr (ds, xs), w1) \<Rightarrow>
                 (Inr (case sy_files w0 (en_Path en) of
                         None \<Rightarrow> (diff_of en syncMissing [] # ds, xs)
                       | Some FDir \<Rightarrow> (diff_of en syncUnsupported [] # ds, xs)
                       | Some (FSymlink r) \<Rightarrow> (diff_of en syncUnsupported [] # ds, xs)
                       | Some _ \<Rightarrow> (ds, en # xs)), w1))"

definition syncNeedsArgvPath :: "string \<Rightarrow> bool" where
  "syncNeedsArgvPath p \<longleftrightarrow> contains_any p [CHR 0x0A, CHR 0x0D, CHR 0x5C] \<or> take 1 p = [CHR 0x22]"

definition hashOrdinaryPaths :: "sync_env \<Rightarrow> string list \<Rightarrow> sync_world \<Rightarrow> sync_error + (string \<times> string) list" where
  "hashOrdinaryPaths e paths w =
     (if paths = [] then Inr []
      else if se_fail e (sy_tick w) then Inl ErrSyncHash
      else case se_hash_stdin e (sy_files w) (join_with [CHR 0x0A] paths @ [CHR 0x0A]) of
        None \<Rightarrow> Inl ErrSyncHash
      | Some out \<Rightarrow>
          let oids = split_on (CHR 0x0A) (trim_right_char (CHR 0x0A) out) in
          if length oids \<noteq> length paths then Inl ErrHashCount else Inr (zip paths oids))"

fun hash_exceptional :: "sync_env \<Rightarrow> string list \<Rightarrow> sync_world \<Rightarrow> (sync_error + (string \<times> string) list) \<times> sync_world" where
  "hash_exceptional e [] w = (Inr [], w)"
| "hash_exceptional e (p # ps) w =
     (let w1 = act e w in
      case hashExceptionalPath e w1 p of
        None \<Rightarrow> (Inl ErrSyncHash, w1)
      | Some oid \<Rightarrow>
          (case hash_exceptional e ps w1 of
             (Inl er, w2) \<Rightarrow> (Inl er, w2)
           | (Inr xs, w2) \<Rightarrow> (Inr ((p, oid) # xs), w2)))"

text \<open>A Go map read at an absent key gives the empty string.\<close>

definition batchHashObject :: "sync_env \<Rightarrow> string list \<Rightarrow> sync_world \<Rightarrow> (sync_error + (string \<Rightarrow> string)) \<times> sync_world" where
  "batchHashObject e paths w =
     (let w1 = act e w in
      case hashOrdinaryPaths e (filter (\<lambda>p. \<not> syncNeedsArgvPath p) paths) w1 of
        Inl er \<Rightarrow> (Inl er, w1)
      | Inr xs \<Rightarrow>
          (case hash_exceptional e (filter syncNeedsArgvPath paths) w1 of
             (Inl er, w2) \<Rightarrow> (Inl er, w2)
           | (Inr ys, w2) \<Rightarrow> (Inr (fold (\<lambda>(p, oid) m. m(p := oid)) (xs @ ys) (\<lambda>_. [])), w2)))"

fun compare_loop ::
  "sync_env \<Rightarrow> (string \<Rightarrow> string) \<Rightarrow> syncEntry list \<Rightarrow> sync_world \<Rightarrow> (sync_error + syncDiff list) \<times> sync_world" where
  "compare_loop e oids [] w = (Inr [], w)"
| "compare_loop e oids (en # ens) w =
     (let w0 = act e w in
      if se_fail e (sy_tick w0) then (Inl ErrSyncLstat, w0)
      else case sy_files w0 (en_Path en) of
        None \<Rightarrow> (Inl ErrSyncLstat, w0)
      | Some ob \<Rightarrow>
          (case compare_loop e oids ens w0 of
             (Inl er, w1) \<Rightarrow> (Inl er, w1)
           | (Inr ds, w1) \<Rightarrow>
               (Inr (if oids (en_Path en) \<noteq> en_OID en then diff_of en syncModified (oids (en_Path en)) # ds
                     else if exec_bit ob \<noteq> (en_Mode en = ''100755'') then diff_of en syncModeOnly (oids (en_Path en)) # ds
                     else ds), w1)))"

definition compareExisting :: "sync_env \<Rightarrow> syncEntry list \<Rightarrow> sync_world \<Rightarrow> (sync_error + syncDiff list) \<times> sync_world" where
  "compareExisting e existing w =
     (case batchHashObject e (map en_Path existing) w of
        (Inl er, w1) \<Rightarrow> (Inl er, w1)
      | (Inr oids, w1) \<Rightarrow> compare_loop e oids existing w1)"

definition syncDivergence :: "sync_env \<Rightarrow> syncEntry list \<Rightarrow> sync_world \<Rightarrow> (sync_error + syncDiff list) \<times> sync_world" where
  "syncDivergence e entries w =
     (case diverge_loop e entries w of
        (Inl er, w1) \<Rightarrow> (Inl er, w1)
      | (Inr (ds, existing), w1) \<Rightarrow>
          if existing = [] then (Inr (sort_key en_Path ds), w1)
          else (case compareExisting e (sort_key en_Path existing) w1 of
                  (Inl er, w2) \<Rightarrow> (Inl er, w2)
                | (Inr ms, w2) \<Rightarrow> (Inr (sort_key en_Path (ds @ ms)), w2)))"

definition refuseIfBehindHead :: "string option \<Rightarrow> (string \<Rightarrow> string \<Rightarrow> bool option) \<Rightarrow> string \<Rightarrow> int \<times> bool" where
  "refuseIfBehindHead head ancestor integSHA =
     (case head of
        None \<Rightarrow> (3, True)
      | Some h \<Rightarrow>
          if integSHA = h then (0, False)
          else case ancestor integSHA h of
                 None \<Rightarrow> (3, True)
               | Some behind \<Rightarrow> if behind then (1, True) else (0, False))"

end
