(* ===== verification/SyncSafety.thy ===== *)
theory SyncSafety
  imports Sync
begin

text \<open>
  What a run of \<open>loto sync\<close> does, whatever peers do meanwhile: every mutation of the checkout is
  authorized in the section that makes it, the report is the history, and every path is accounted for.
\<close>

subsection \<open>What one section does to the checkout\<close>

text \<open>The world inside a section: the tables, the context and the reference stay, the history grows.\<close>

definition same_section :: "sync_world \<Rightarrow> sync_world \<Rightarrow> bool" where
  "same_section w w' \<longleftrightarrow> sy_db w' = sy_db w \<and> sy_ctx w' = sy_ctx w \<and> sy_integ w' = sy_integ w"

lemma same_section_refl [simp]: "same_section w w"
  by (simp add: same_section_def)

lemma same_section_trans: "same_section w w' \<Longrightarrow> same_section w' w'' \<Longrightarrow> same_section w w''"
  by (simp add: same_section_def)

lemma act_keeps [simp]:
  "sy_db (act e w) = sy_db w" "sy_ctx (act e w) = sy_ctx w" "sy_integ (act e w) = sy_integ w"
  "sy_log (act e w) = sy_log w" "sy_sec (act e w) = sy_sec w" "same_section w (act e w)"
  by (simp_all add: act_def same_section_def)

text \<open>The file stands with the content that hashes to \<open>oid\<close>.\<close>

definition holds_oid :: "sync_env \<Rightarrow> string \<Rightarrow> fobj option \<Rightarrow> string \<Rightarrow> bool" where
  "holds_oid e p f oid \<longleftrightarrow> (case f of None \<Rightarrow> False | Some ob \<Rightarrow> map_option (se_hash e p) (read_through ob) = Some oid)"

lemma hashExceptionalPath_Some:
  "hashExceptionalPath e w p = Some oid \<Longrightarrow> holds_oid e p (sy_files w p) oid"
  by (auto simp: hashExceptionalPath_def holds_oid_def split: if_splits option.splits)

lemma syncProbePath_keeps:
  "same_section w (snd (syncProbePath e p w))" "sy_log (snd (syncProbePath e p w)) = sy_log w"
  by (auto simp: syncProbePath_def Let_def same_section_def split: option.splits)

lemma syncProbePath_found:
  assumes "syncProbePath e p w = (Inr (oid, st), w')"
  shows "st = syncProbeHashed \<Longrightarrow> holds_oid e p (sy_files w' p) oid"
    and "st = syncProbeVanished \<Longrightarrow> sy_files w' p = None"
  using assms
  by (auto simp: syncProbePath_def Let_def hashExceptionalPath_Some split: option.splits if_splits)

text \<open>What a write and a removal rest on.\<close>

definition wrote :: "sync_env \<Rightarrow> syncDiff list \<Rightarrow> mutation \<Rightarrow> bool" where
  "wrote e ds m \<longleftrightarrow>
     (\<exists>d \<in> set ds. \<exists>c. mu_path m = en_Path d \<and> se_blob e (en_OID d) = Some c \<and>
        mu_after m = Some (FRegular c (en_Mode d = ''100755'')) \<and>
        (if sd_State d = syncMissing then mu_before m = None
         else holds_oid e (en_Path d) (mu_before m) (sd_Observed d)))"

definition removed :: "sync_env \<Rightarrow> syncResidue list \<Rightarrow> mutation \<Rightarrow> bool" where
  "removed e rs m \<longleftrightarrow>
     (\<exists>r \<in> set rs. mu_path m = rs_Path r \<and> mu_after m = None \<and>
        holds_oid e (rs_Path r) (mu_before m) (rs_Blob r))"

lemma wrote_mono: "wrote e ds m \<Longrightarrow> set ds \<subseteq> set ds' \<Longrightarrow> wrote e ds' m"
  unfolding wrote_def by blast

lemma removed_mono: "removed e rs m \<Longrightarrow> set rs \<subseteq> set rs' \<Longrightarrow> removed e rs' m"
  unfolding removed_def by blast

definition made_in :: "sync_world \<Rightarrow> mutation \<Rightarrow> bool" where
  "made_in w m \<longleftrightarrow> mu_db m = sy_db w \<and> mu_ctx m = sy_ctx w \<and> mu_integ m = sy_integ w"

lemma made_in_same: "same_section w w' \<Longrightarrow> made_in w' m = made_in w m"
  by (simp add: same_section_def made_in_def)

lemma syncStageReplacement_keeps:
  "same_section w (snd (syncStageReplacement e d w))" "sy_log (snd (syncStageReplacement e d w)) = sy_log w"
  by (auto simp: syncStageReplacement_def Let_def same_section_def split: option.splits)

lemma syncStageReplacement_Inr:
  "syncStageReplacement e d w = (Inr st, w') \<Longrightarrow>
     st_Target st = en_Path d \<and> se_blob e (en_OID d) = Some (st_Content st) \<and> st_Exec st = (en_Mode d = ''100755'')"
  by (auto simp: syncStageReplacement_def Let_def split: option.splits if_splits)

lemma syncTargetMoved_stays:
  assumes "\<not> snd (syncTargetMoved d oid st)"
  shows "sd_State d = syncMissing \<Longrightarrow> st = syncProbeVanished"
    and "sd_State d \<noteq> syncMissing \<Longrightarrow> st = syncProbeHashed \<and> oid = sd_Observed d"
  using assms by (auto simp: syncTargetMoved_def split: if_splits)

text \<open>One path of \<open>syncApply\<close>: what it published, skipped and failed with.\<close>

definition apply_one ::
  "sync_env \<Rightarrow> syncDiff \<Rightarrow> sync_world \<Rightarrow> (string list \<times> syncTargetMismatch list \<times> sync_error option) \<times> sync_world" where
  "apply_one e d w = apply_loop e [d] w"

lemma apply_loop_Cons:
  "apply_loop e (d # ds) w =
     (case apply_one e d w of
        ((s, k, Some er), w1) \<Rightarrow> ((s, k, Some er), w1)
      | ((s, k, None), w1) \<Rightarrow>
          (let r = apply_loop e ds w1 in ((s @ fst (fst r), k @ fst (snd (fst r)), snd (snd (fst r))), snd r)))"
  by (simp add: apply_one_def Let_def split: prod.splits sum.splits option.splits)

lemma apply_one_cases:
  assumes "apply_one e d w = ((s, k, er), w')"
  obtains (failed) "s = []" "k = []" "er \<noteq> None" "same_section w w'" "sy_log w' = sy_log w"
  | (moved) t where "s = []" "k = [t]" "tm_diff t = d" "er = None" "same_section w w'" "sy_log w' = sy_log w"
  | (published) m where "s = [en_Path d]" "k = []" "same_section w w'" "sy_log w' = sy_log w @ [m]"
      "mu_path m = en_Path d" "made_in w m" "wrote e [d] m"
proof -
  obtain st w1 where 1: "syncStageReplacement e d w = (st, w1)" by force
  have k1: "same_section w w1" "sy_log w1 = sy_log w"
    using syncStageReplacement_keeps [where w = w and e = e and d = d] 1 by simp_all
  show ?thesis
  proof (cases st)
    case (Inl er')
    with assms 1 k1 show ?thesis by (intro failed) (auto simp: apply_one_def)
  next
    case (Inr sg)
    note sg = syncStageReplacement_Inr [OF 1 [unfolded Inr]]
    obtain pr w2 where 2: "syncProbePath e (en_Path d) w1 = (pr, w2)" by force
    have k2: "same_section w w2" "sy_log w2 = sy_log w"
      using syncProbePath_keeps [where w = w1 and e = e and p = "en_Path d"] 2 k1 by (auto intro: same_section_trans)
    show ?thesis
    proof (cases pr)
      case (Inl er')
      with assms 1 2 Inr k2 show ?thesis by (intro failed) (auto simp: apply_one_def)
    next
      case pr: (Inr r)
      obtain oid ps where r: "r = (oid, ps)" by force
      note found = syncProbePath_found [OF 2 [unfolded pr r]]
      show ?thesis
      proof (cases "snd (syncTargetMoved d oid ps)")
        case True
        with assms 1 2 Inr pr r k2 show ?thesis
          by (intro moved [of "\<lparr>tm_diff = d, tm_Found = fst (syncTargetMoved d oid ps)\<rparr>"]) (auto simp: apply_one_def Let_def)
      next
        case stay: False
        note still = syncTargetMoved_stays [OF stay]
        show ?thesis
        proof (cases "se_fail e (sy_tick w2 + 1)")
          case True
          with assms 1 2 Inr pr r stay k2 show ?thesis
            by (intro failed) (auto simp: apply_one_def Let_def syncPublishStaged_def)
        next
          case False
          let ?m = "\<lparr>mu_path = st_Target sg, mu_before = sy_files w2 (st_Target sg),
            mu_after = Some (FRegular (st_Content sg) (st_Exec sg)), mu_db = sy_db w2, mu_ctx = sy_ctx w2, mu_integ = sy_integ w2\<rparr>"
          have "w' = mutate (st_Target sg) (Some (FRegular (st_Content sg) (st_Exec sg))) w2" "s = [en_Path d]" "k = []"
            using assms 1 2 Inr pr r stay False
            by (auto simp: apply_one_def Let_def syncPublishStaged_def split: if_splits)
          then show ?thesis
            using sg k2 found still
            by (intro published [of ?m])
               (auto simp: mutate_def same_section_def made_in_def wrote_def)
        qed
      qed
    qed
  qed
qed

lemma apply_loop_acts:
  assumes "apply_loop e ds w = ((s, k, er), w')"
  shows "same_section w w' \<and>
    (\<exists>ms. sy_log w' = sy_log w @ ms \<and> map mu_path ms = s \<and> (\<forall>m \<in> set ms. made_in w m \<and> wrote e ds m)) \<and>
    set (map tm_diff k) \<subseteq> set ds \<and>
    (er = None \<longrightarrow> mset (map en_Path ds) = mset s + mset (map (\<lambda>t. en_Path (tm_diff t)) k))"
  using assms
proof (induction ds arbitrary: w s k er w')
  case Nil
  then show ?case by simp
next
  case (Cons d ds)
  obtain s1 k1 er1 w1 where 1: "apply_one e d w = ((s1, k1, er1), w1)" by (metis prod.exhaust)
  show ?case
  proof (cases er1)
    case (Some er')
    then have eqs: "s = s1" "k = k1" "er = Some er'" "w' = w1" using Cons.prems 1 by (simp_all add: apply_loop_Cons del: apply_loop.simps)
    from 1 show ?thesis
    proof (cases rule: apply_one_cases)
      case (published m)
      have "wrote e (d # ds) m" using published(7) by (rule wrote_mono) simp
      with published eqs Some show ?thesis by (auto intro!: exI [of _ "[m]"])
    qed (use eqs Some in auto)
  next
    case None
    obtain s2 k2 er2 w2 where 2: "apply_loop e ds w1 = ((s2, k2, er2), w2)" by (metis prod.exhaust)
    then have eq: "s = s1 @ s2" "k = k1 @ k2" "er = er2" "w' = w2"
      using Cons.prems 1 None 2 by (simp_all add: apply_loop_Cons Let_def del: apply_loop.simps)
    from Cons.IH [OF 2] obtain ms where ih: "same_section w1 w2" "sy_log w2 = sy_log w1 @ ms" "map mu_path ms = s2"
      "\<And>m. m \<in> set ms \<Longrightarrow> made_in w1 m \<and> wrote e ds m" "set (map tm_diff k2) \<subseteq> set ds"
      "er2 = None \<Longrightarrow> mset (map en_Path ds) = mset s2 + mset (map (\<lambda>t. en_Path (tm_diff t)) k2)"
      by blast
    have up: "wrote e (d # ds) m" if "m \<in> set ms" for m
      using ih(4) [OF that] by (auto intro: wrote_mono)
    from 1 show ?thesis
    proof (cases rule: apply_one_cases)
      case failed
      with None show ?thesis by simp
    next
      case (moved t)
      with ih up eq show ?thesis
        by (auto simp: made_in_same intro: same_section_trans intro!: exI [of _ ms])
    next
      case (published m)
      have "wrote e (d # ds) m" using published(7) by (auto intro: wrote_mono)
      with published ih up eq show ?thesis
        by (auto simp: made_in_same intro: same_section_trans intro!: exI [of _ "m # ms"])
    qed
  qed
qed

text \<open>The same for the deletions.\<close>

definition residue_paths :: "residue_result \<Rightarrow> string multiset" where
  "residue_paths r =
     mset (map rs_Path (fst r)) + mset (map sf_Path (fst (snd r))) + mset (map rs_Path (fst (snd (snd r))))"

lemma residue_paths_add:
  "residue_paths (add_residue v r res) =
     (if v = ResidueGone then {#} else {#rs_Path r#}) + residue_paths res"
  by (cases v) (simp_all add: residue_paths_def add_residue_def residue_skip_def residue_mismatch_def syncResidue.extend_def)

lemma add_residue_error [simp]: "snd (snd (snd (add_residue v r res))) = snd (snd (snd res))"
  by (cases v) (simp_all add: add_residue_def)

lemma add_residue_deleted: "fst (add_residue v r res) = (if v = ResidueOurs then [r] else []) @ fst res"
  by (cases v) (simp_all add: add_residue_def)

lemma judge_ours: "judge_residue r pr = ResidueOurs \<longleftrightarrow> snd pr = syncProbeHashed \<and> fst pr = rs_Blob r"
  by (auto simp: judge_residue_def split: syncProbeState.splits)

lemma judge_gone: "judge_residue r pr = ResidueGone \<longleftrightarrow> snd pr = syncProbeVanished"
  by (auto simp: judge_residue_def split: syncProbeState.splits)

lemma gone_add:
  assumes "\<exists>gone. set gone \<subseteq> set rs \<and> mset (map rs_Path rs) = residue_paths res + mset (map rs_Path gone)"
  shows "\<exists>gone. set gone \<subseteq> set (r # rs) \<and>
    mset (map rs_Path (r # rs)) = residue_paths (add_residue v r res) + mset (map rs_Path gone)"
proof -
  from assms obtain gone where gone: "set gone \<subseteq> set rs"
    "mset (map rs_Path rs) = residue_paths res + mset (map rs_Path gone)" by blast
  show ?thesis
  proof (cases "v = ResidueGone")
    case True
    with gone show ?thesis by (intro exI [of _ "r # gone"]) (auto simp: residue_paths_add)
  next
    case False
    with gone show ?thesis by (intro exI [of _ gone]) (auto simp: residue_paths_add)
  qed
qed

lemma syncDeleteResidue_acts:
  assumes "syncDeleteResidue e rs w = (res, w')"
  shows "same_section w w' \<and>
    (\<exists>ms. sy_log w' = sy_log w @ ms \<and> map mu_path ms = map rs_Path (fst res) \<and>
       (\<forall>m \<in> set ms. made_in w m \<and> removed e rs m)) \<and>
    set (fst res) \<subseteq> set rs \<and>
    (snd (snd (snd res)) = None \<longrightarrow>
       (\<exists>gone. set gone \<subseteq> set rs \<and> mset (map rs_Path rs) = residue_paths res + mset (map rs_Path gone)))"
  using assms
proof (induction rs arbitrary: w res w')
  case Nil
  then show ?case by (auto simp: residue_paths_def)
next
  case (Cons r rs)
  obtain pr w1 where 1: "syncProbePath e (rs_Path r) w = (pr, w1)" by force
  have k1: "same_section w w1" "sy_log w1 = sy_log w"
    using syncProbePath_keeps [where w = w and e = e and p = "rs_Path r"] 1 by simp_all
  show ?case
  proof (cases pr)
    case (Inl er)
    with Cons.prems 1 k1 show ?thesis by auto
  next
    case pr: (Inr q)
    let ?v = "judge_residue r q"
    show ?thesis
    proof (cases "?v = ResidueOurs")
      case ours: True
      show ?thesis
      proof (cases "se_fail e (sy_tick w1 + 1)")
        case True
        with Cons.prems 1 pr ours k1 show ?thesis by (auto simp: Let_def)
      next
        case False
        let ?m = "\<lparr>mu_path = rs_Path r, mu_before = sy_files w1 (rs_Path r), mu_after = None, mu_db = sy_db w1,
          mu_ctx = sy_ctx w1, mu_integ = sy_integ w1\<rparr>"
        obtain res2 w2 where 0: "syncDeleteResidue e rs (mutate (rs_Path r) None w1) = (res2, w2)" by (rule prod.exhaust)
        with Cons.prems 1 pr ours False have 2: "syncDeleteResidue e rs (mutate (rs_Path r) None w1) = (res2, w')"
          and eq: "res = add_residue ?v r res2" by (auto simp: Let_def)
        note I = Cons.IH [OF 2]
        obtain ms where ms: "sy_log w' = sy_log (mutate (rs_Path r) None w1) @ ms" "map mu_path ms = map rs_Path (fst res2)"
          "\<forall>m \<in> set ms. made_in (mutate (rs_Path r) None w1) m \<and> removed e rs m"
          using I [THEN conjunct2, THEN conjunct1] by (elim exE conjE)
        note ih = I [THEN conjunct1] ms(1,2) bspec [OF ms(3)] I [THEN conjunct2, THEN conjunct2, THEN conjunct1]
        note g = I [THEN conjunct2, THEN conjunct2, THEN conjunct2, THEN mp]
        have m: "removed e (r # rs) ?m"
          using syncProbePath_found(1) [of e "rs_Path r" w "fst q" "snd q" w1] 1 pr ours
          unfolding removed_def judge_ours by (cases q) auto
        have up: "removed e (r # rs) m'" if "m' \<in> set ms" for m'
          using ih(4) [OF that] by (auto intro: removed_mono)
        have mu: "same_section w1 (mutate (rs_Path r) None w1)" "made_in w1 ?m"
          "sy_log (mutate (rs_Path r) None w1) = sy_log w1 @ [?m]"
          by (simp_all add: same_section_def mutate_def made_in_def)
        have sec: "same_section w w'" "same_section w (mutate (rs_Path r) None w1)"
          using k1(1) mu(1) ih(1) by (blast intro: same_section_trans)+
        have "\<exists>ms. sy_log w' = sy_log w @ ms \<and> map mu_path ms = map rs_Path (fst res) \<and>
            (\<forall>m \<in> set ms. made_in w m \<and> removed e (r # rs) m)"
          using ih(2,3,4) mu k1 m up sec eq ours
          by (intro exI [of _ "?m # ms"]) (auto simp: made_in_same [OF k1(1)] made_in_same [OF sec(2)] add_residue_deleted)
        moreover have "set (fst res) \<subseteq> set (r # rs)"
          using ih(5) eq by (auto simp: add_residue_deleted)
        ultimately show ?thesis
          using sec(1) gone_add [OF g, of r ?v] eq by simp
      qed
    next
      case other: False
      obtain res2 w2 where 0: "syncDeleteResidue e rs w1 = (res2, w2)" by (rule prod.exhaust)
      with Cons.prems 1 pr other have 2: "syncDeleteResidue e rs w1 = (res2, w')"
        and eq: "res = add_residue ?v r res2" by (auto simp: Let_def)
      note I = Cons.IH [OF 2]
      obtain ms where ms: "sy_log w' = sy_log w1 @ ms" "map mu_path ms = map rs_Path (fst res2)"
        "\<forall>m \<in> set ms. made_in w1 m \<and> removed e rs m"
        using I [THEN conjunct2, THEN conjunct1] by (elim exE conjE)
      note ih = I [THEN conjunct1] ms(1,2) bspec [OF ms(3)] I [THEN conjunct2, THEN conjunct2, THEN conjunct1]
      note g = I [THEN conjunct2, THEN conjunct2, THEN conjunct2, THEN mp]
      have up: "removed e (r # rs) m" if "m \<in> set ms" for m
        using ih(4) [OF that] by (auto intro: removed_mono)
      have "\<exists>ms. sy_log w' = sy_log w @ ms \<and> map mu_path ms = map rs_Path (fst res) \<and>
          (\<forall>m \<in> set ms. made_in w m \<and> removed e (r # rs) m)"
        using ih(2,3,4) k1 up eq other
        by (intro exI [of _ ms]) (auto simp: made_in_same [OF k1(1)] add_residue_deleted)
      moreover have "set (fst res) \<subseteq> set (r # rs)"
        using ih(5) eq by (auto simp: add_residue_deleted)
      ultimately show ?thesis
        using same_section_trans [OF k1(1) ih(1)] gone_add [OF g, of r ?v] eq by simp
    qed
  qed
qed

subsection \<open>Deciding\<close>

text \<open>A lock row that keeps sync from touching a path of its checkout: a live hold on it or above it, or
  a lapsed one whose holder may still be writing.  A lapsed hold on a directory above needs an alive holder.\<close>

definition held_back :: "EvalContext \<Rightarrow> string \<Rightarrow> LockRecord \<Rightarrow> bool" where
  "held_back ec path l \<longleftrightarrow>
     Covers ec (MyWorktree ec) path (LockHold ec l) \<and>
     (\<not> IsStale ec l \<or>
      (case Live ec of
         None \<Rightarrow> False
       | Some probe \<Rightarrow> probe l = LivenessAlive \<or>
           probe l \<noteq> LivenessDead \<and> \<not> HoldAbove (Canonical (l_Target l)) path))"

lemma syncLockConflictFor_None:
  "syncLockConflictFor path ls ec = None \<longleftrightarrow> (\<forall>l \<in> set ls. \<not> held_back ec path l)"
proof (induction ls)
  case Nil
  then show ?case by simp
next
  case (Cons l ls)
  have "syncLockConflictFor path (l # ls) ec =
      (if held_back ec path l then syncLockConflictFor path [l] ec else syncLockConflictFor path ls ec)"
    by (cases "Live ec"; cases "IsStale ec l"; cases "SameWorktree (MyWorktree ec) (l_Worktree l)";
        cases "PrefixCovers ec (Canonical (l_Target l)) path")
       (auto simp: held_back_def Refuses_def Covers_def LockHold_def HolderLiveness_def Let_def)
  moreover have "held_back ec path l \<Longrightarrow> syncLockConflictFor path [l] ec \<noteq> None"
    by (auto simp: held_back_def Refuses_def Covers_def LockHold_def HolderLiveness_def Let_def split: option.splits if_splits)
  ultimately show ?case using Cons.IH by auto
qed

lemma syncConflictFor_None:
  "syncConflictFor path ls cs ec = None \<longleftrightarrow> (\<forall>l \<in> set ls. \<not> held_back ec path l) \<and> cs = []"
  by (auto simp: syncConflictFor_def simp flip: syncLockConflictFor_None split: option.splits list.splits)

lemma decide_loop_clear:
  "fst (decide_loop path ds ls cs ec) = filter (\<lambda>d. syncConflictFor (path d) ls (cands_at cs (path d)) ec = None) ds"
  by (induction ds) (auto simp: case_prod_beta split: option.splits)

lemma decide_loop_refused:
  "map sf_Path (snd (decide_loop path ds ls cs ec)) =
     map path (filter (\<lambda>d. syncConflictFor (path d) ls (cands_at cs (path d)) ec \<noteq> None) ds)"
  by (induction ds) (auto simp: case_prod_beta split: option.splits)

lemma decide_loop_split:
  "mset (map path (fst (decide_loop path ds ls cs ec))) + mset (map sf_Path (snd (decide_loop path ds ls cs ec))) =
     mset (map path ds)"
  by (induction ds) (auto simp: case_prod_beta split: option.splits)

lemma map_sort_key: "mset (map f (sort_key g xs)) = mset (map f xs)"
  by simp

lemma no_claim_at:
  assumes "p \<in> set ps" "cands_at (CandidateClaimsForPaths ps d) p = []" "r \<in> set (db_candidate_claims d)"
  shows "cr_path_canonical r \<noteq> p"
proof
  assume eq: "cr_path_canonical r = p"
  then have "r \<in> set (claim_order (filter (\<lambda>r. cr_path_canonical r \<in> set ps) (db_candidate_claims d)))"
    using assms by (simp add: claim_order_def)
  then have "scanCandidateClaim r \<in> set (CandidateClaimsForPaths ps d)"
    using assms(1) by (auto simp: CandidateClaimsForPaths_def)
  with assms(2) eq show False
    by (auto simp: cands_at_def filter_empty_conv scanCandidateClaim_def)
qed

subsection \<open>Every mutation is authorized, and every path accounted for\<close>

definition authorized :: "sync_env \<Rightarrow> string \<Rightarrow> syncDiff list \<Rightarrow> syncResidue list \<Rightarrow> mutation \<Rightarrow> bool" where
  "authorized e expected ds rs m \<longleftrightarrow>
     mu_integ m = Some expected \<and> MyWorktree (mu_ctx m) = se_worktree e \<and> CaseFold (mu_ctx m) = se_caseFold e \<and>
     (\<forall>l \<in> set (ListLocks (mu_db m)). \<not> held_back (mu_ctx m) (mu_path m) l) \<and>
     (\<forall>r \<in> set (db_candidate_claims (mu_db m)). cr_path_canonical r \<noteq> mu_path m) \<and>
     (wrote e ds m \<or> removed e rs m)"

definition out_paths :: "syncOutcome \<Rightarrow> string multiset" where
  "out_paths out =
     mset (so_Synced out) + mset (map rs_Path (so_Deleted out)) + mset (map sf_Path (so_Conflicts out)) +
     mset (map sf_Path (so_ResidueSkips out)) + mset (map rs_Path (so_Modified out)) +
     mset (map (\<lambda>t. en_Path (tm_diff t)) (so_TargetSkips out))"

text \<open>A run over \<open>ds\<close> and \<open>rs\<close>: its history, its report of it, and where each path went.\<close>

definition ran ::
  "sync_env \<Rightarrow> string \<Rightarrow> syncDiff list \<Rightarrow> syncResidue list \<Rightarrow> syncOutcome \<Rightarrow> sync_world \<Rightarrow>
     (sync_error option \<times> syncOutcome) \<times> sync_world \<Rightarrow> bool" where
  "ran e expected ds rs out w res \<longleftrightarrow>
     (\<exists>ms. sy_log (snd res) = sy_log w @ ms \<and> (\<forall>m \<in> set ms. authorized e expected ds rs m) \<and>
        so_Synced (snd (fst res)) = so_Synced out @ map mu_path (filter (\<lambda>m. mu_after m \<noteq> None) ms) \<and>
        map rs_Path (so_Deleted (snd (fst res))) =
          map rs_Path (so_Deleted out) @ map mu_path (filter (\<lambda>m. mu_after m = None) ms)) \<and>
     (fst (fst res) = None \<longrightarrow>
        (\<exists>gone. set gone \<subseteq> set rs \<and>
           out_paths out + (mset (map en_Path ds) + mset (map rs_Path rs)) =
             out_paths (snd (fst res)) + mset (map rs_Path gone)))"

lemma authorized_mono:
  "authorized e x ds rs m \<Longrightarrow> set ds \<subseteq> set ds' \<Longrightarrow> set rs \<subseteq> set rs' \<Longrightarrow> authorized e x ds' rs' m"
  unfolding authorized_def using wrote_mono removed_mono by blast

lemma ran_nothing: "ran e x [] [] out w ((None, out), w)"
  by (simp add: ran_def)

lemma ran_failed:
  assumes "ran e x ds rs out w ((Some er, out1), w1)" "set ds \<subseteq> set ds'" "set rs \<subseteq> set rs'"
  shows "ran e x ds' rs' out w ((Some er, out1), w1)"
proof -
  have "authorized e x ds' rs' m" if "authorized e x ds rs m" for m
    using that assms(2,3) by (rule authorized_mono)
  with assms(1) show ?thesis unfolding ran_def by auto
qed

lemma ran_then:
  assumes a: "ran e x ds1 rs1 out w ((None, out1), w1)" and b: "ran e x ds2 rs2 out1 w1 res"
  shows "ran e x (ds1 @ ds2) (rs1 @ rs2) out w res"
proof -
  from a obtain ms1 where m1: "sy_log w1 = sy_log w @ ms1" "\<forall>m \<in> set ms1. authorized e x ds1 rs1 m"
    "so_Synced out1 = so_Synced out @ map mu_path (filter (\<lambda>m. mu_after m \<noteq> None) ms1)"
    "map rs_Path (so_Deleted out1) = map rs_Path (so_Deleted out) @ map mu_path (filter (\<lambda>m. mu_after m = None) ms1)"
    by (auto simp: ran_def)
  from b obtain ms2 where m2: "sy_log (snd res) = sy_log w1 @ ms2" "\<forall>m \<in> set ms2. authorized e x ds2 rs2 m"
    "so_Synced (snd (fst res)) = so_Synced out1 @ map mu_path (filter (\<lambda>m. mu_after m \<noteq> None) ms2)"
    "map rs_Path (so_Deleted (snd (fst res))) = map rs_Path (so_Deleted out1) @ map mu_path (filter (\<lambda>m. mu_after m = None) ms2)"
    by (auto simp: ran_def)
  have "\<forall>m \<in> set (ms1 @ ms2). authorized e x (ds1 @ ds2) (rs1 @ rs2) m"
    using m1(2) m2(2) by (auto intro: authorized_mono)
  then have "\<exists>ms. sy_log (snd res) = sy_log w @ ms \<and> (\<forall>m \<in> set ms. authorized e x (ds1 @ ds2) (rs1 @ rs2) m) \<and>
      so_Synced (snd (fst res)) = so_Synced out @ map mu_path (filter (\<lambda>m. mu_after m \<noteq> None) ms) \<and>
      map rs_Path (so_Deleted (snd (fst res))) = map rs_Path (so_Deleted out) @ map mu_path (filter (\<lambda>m. mu_after m = None) ms)"
    using m1 m2 by (intro exI [of _ "ms1 @ ms2"]) simp
  moreover have "\<exists>gone. set gone \<subseteq> set (rs1 @ rs2) \<and>
      out_paths out + (mset (map en_Path (ds1 @ ds2)) + mset (map rs_Path (rs1 @ rs2))) =
        out_paths (snd (fst res)) + mset (map rs_Path gone)" if er: "fst (fst res) = None"
  proof -
    from a obtain g1 where g1: "set g1 \<subseteq> set rs1"
      "out_paths out + (mset (map en_Path ds1) + mset (map rs_Path rs1)) = out_paths out1 + mset (map rs_Path g1)"
      by (auto simp: ran_def)
    from b er obtain g2 where g2: "set g2 \<subseteq> set rs2"
      "out_paths out1 + (mset (map en_Path ds2) + mset (map rs_Path rs2)) = out_paths (snd (fst res)) + mset (map rs_Path g2)"
      by (auto simp: ran_def)
    have "out_paths out + (mset (map en_Path (ds1 @ ds2)) + mset (map rs_Path (rs1 @ rs2))) =
        (out_paths out + (mset (map en_Path ds1) + mset (map rs_Path rs1))) + (mset (map en_Path ds2) + mset (map rs_Path rs2))"
      by simp
    also have "\<dots> = (out_paths out1 + (mset (map en_Path ds2) + mset (map rs_Path rs2))) + mset (map rs_Path g1)"
      unfolding g1(2) by (simp add: ac_simps)
    also have "\<dots> = out_paths (snd (fst res)) + mset (map rs_Path (g1 @ g2))"
      unfolding g2(2) by (simp add: ac_simps)
    finally show ?thesis using g1(1) g2(1) by (intro exI [of _ "g1 @ g2"]) auto
  qed
  ultimately show ?thesis unfolding ran_def by blast
qed

lemma syncBatchContext_Inr:
  "syncBatchContext e x k w = Inr ec \<Longrightarrow>
     sy_integ w = Some x \<and> MyWorktree ec = se_worktree e \<and> CaseFold ec = se_caseFold e"
  by (auto simp: syncBatchContext_def split: if_splits)

lemma enter_log [simp]: "sy_log (enter e w) = sy_log w"
  by (simp add: enter_def)

text \<open>The clear paths of a batch are authorized in the section that decided them.\<close>

lemma authorized_in_section:
  assumes clear: "syncConflictFor (mu_path m) (ListLocks (sy_db w1)) (cands_at (CandidateClaimsForPaths ps (sy_db w1)) (mu_path m)) ec = None"
    and "mu_path m \<in> set ps" and ctx: "syncBatchContext e x k w1 = Inr ec"
    and "made_in (w1\<lparr>sy_ctx := ec\<rparr>) m" and "wrote e ds m \<or> removed e rs m"
  shows "authorized e x ds rs m"
  using assms(2-) syncBatchContext_Inr [OF ctx] clear [unfolded syncConflictFor_None] no_claim_at [of "mu_path m" ps "sy_db w1"]
  by (auto simp: authorized_def made_in_def)

lemma fast_forward_batch_ran:
  "ran e x b [] out w (fast_forward_batch e x b out w)"
proof -
  let ?w1 = "enter e w" and ?k = "sy_sec w"
  let ?ls = "ListLocks (sy_db ?w1)" and ?cs = "CandidateClaimsForPaths (map en_Path b) (sy_db ?w1)"
  show ?thesis
  proof (cases "se_flock e ?k")
    case False
    then show ?thesis by (simp add: fast_forward_batch_def WithStableCoordinationState_def ran_def)
  next
    case flock: True
    show ?thesis
    proof (cases "syncBatchContext e x ?k ?w1")
      case (Inl er)
      with flock show ?thesis by (simp add: fast_forward_batch_def WithStableCoordinationState_def ran_def)
    next
      case ctx: (Inr ec)
      let ?dl = "decide_loop en_Path b ?ls ?cs ec"
      let ?dec = "syncDecide b ?ls ?cs ec" and ?w2 = "?w1\<lparr>sy_ctx := ec\<rparr>"
      obtain s k er w' where a: "syncApply e (fst ?dec) ?w2 = ((s, k, er), w')" by (metis prod.exhaust)
      note acts = apply_loop_acts [OF a [unfolded syncApply_def]]
      then obtain ms where ms: "sy_log w' = sy_log ?w2 @ ms" "map mu_path ms = s"
        "\<forall>m \<in> set ms. made_in ?w2 m \<and> wrote e (sort_key en_Path (fst ?dec)) m" by blast
      have dec: "set (fst ?dec) = {d \<in> set b. syncConflictFor (en_Path d) ?ls (cands_at ?cs (en_Path d)) ec = None}"
        by (simp add: syncDecide_def Let_def decide_loop_clear)
      have auth: "authorized e x b [] m" if m: "m \<in> set ms" for m
      proof -
        from ms(3) m have w: "wrote e (sort_key en_Path (fst ?dec)) m" and mi: "made_in ?w2 m" by auto
        then obtain d where d: "d \<in> set (fst ?dec)" "mu_path m = en_Path d" by (auto simp: wrote_def)
        show ?thesis
        proof (rule authorized_in_section [OF _ _ ctx mi])
          show "wrote e b m \<or> removed e [] m" using wrote_mono [OF w, of b] dec by auto
        qed (use d dec in auto)
      qed
      have new: "\<forall>m \<in> set ms. mu_after m \<noteq> None" using ms(3) by (auto simp: wrote_def)
      have res: "fast_forward_batch e x b out w =
          ((er, out\<lparr>so_Conflicts := so_Conflicts out @ snd ?dec, so_Synced := so_Synced out @ s,
             so_TargetSkips := so_TargetSkips out @ k\<rparr>), w')"
        using flock ctx a by (simp add: fast_forward_batch_def WithStableCoordinationState_def Let_def case_prod_beta)
      have "mset (map en_Path b) = mset s + mset (map sf_Path (snd ?dec)) + mset (map (\<lambda>t. en_Path (tm_diff t)) k)" if "er = None"
      proof -
        have "mset (map en_Path b) = mset (map en_Path (fst ?dec)) + mset (map sf_Path (snd ?dec))"
          using decide_loop_split [of en_Path b ?ls ?cs ec] by (simp add: syncDecide_def Let_def)
        with acts that show ?thesis by simp
      qed
      then show ?thesis
        using ms auth new unfolding res ran_def
        by (auto simp: out_paths_def filter_id_conv filter_empty_conv ac_simps intro!: exI [of _ ms])
    qed
  qed
qed

lemma sweep_batch_ran:
  "ran e x [] b out w (sweep_batch e x b out w)"
proof -
  let ?w1 = "enter e w" and ?k = "sy_sec w"
  let ?ls = "ListLocks (sy_db ?w1)" and ?cs = "CandidateClaimsForPaths (map rs_Path b) (sy_db ?w1)"
  show ?thesis
  proof (cases "se_flock e ?k")
    case False
    then show ?thesis by (simp add: sweep_batch_def WithStableCoordinationState_def ran_def)
  next
    case flock: True
    show ?thesis
    proof (cases "syncBatchContext e x ?k ?w1")
      case (Inl er)
      with flock show ?thesis by (simp add: sweep_batch_def WithStableCoordinationState_def ran_def)
    next
      case ctx: (Inr ec)
      let ?dec = "syncDecideResidue b ?ls ?cs ec" and ?w2 = "?w1\<lparr>sy_ctx := ec\<rparr>"
      obtain r w' where a: "syncDeleteResidue e (fst ?dec) ?w2 = (r, w')" by (rule prod.exhaust)
      note acts = syncDeleteResidue_acts [OF a]
      obtain ms where ms: "sy_log w' = sy_log ?w2 @ ms" "map mu_path ms = map rs_Path (fst r)"
        "\<forall>m \<in> set ms. made_in ?w2 m \<and> removed e (fst ?dec) m"
        using acts [THEN conjunct2, THEN conjunct1] by (elim exE conjE)
      have dec: "set (fst ?dec) = {d \<in> set b. syncConflictFor (rs_Path d) ?ls (cands_at ?cs (rs_Path d)) ec = None}"
        by (simp add: syncDecideResidue_def Let_def decide_loop_clear)
      have auth: "authorized e x [] b m" if m: "m \<in> set ms" for m
      proof -
        from ms(3) m have w: "removed e (fst ?dec) m" and mi: "made_in ?w2 m" by auto
        then obtain d where d: "d \<in> set (fst ?dec)" "mu_path m = rs_Path d" by (auto simp: removed_def)
        show ?thesis
        proof (rule authorized_in_section [OF _ _ ctx mi])
          show "wrote e [] m \<or> removed e b m" using removed_mono [OF w, of b] dec by auto
        qed (use d dec in auto)
      qed
      have new: "\<forall>m \<in> set ms. mu_after m = None" using ms(3) by (auto simp: removed_def)
      have res: "sweep_batch e x b out w =
          ((snd (snd (snd r)), out\<lparr>so_Conflicts := so_Conflicts out @ snd ?dec, so_Deleted := so_Deleted out @ fst r,
             so_ResidueSkips := so_ResidueSkips out @ fst (snd r), so_Modified := so_Modified out @ fst (snd (snd r))\<rparr>), w')"
        using flock ctx a by (simp add: sweep_batch_def WithStableCoordinationState_def Let_def case_prod_beta)
      have "\<exists>gone. set gone \<subseteq> set b \<and>
          mset (map rs_Path b) = residue_paths r + mset (map sf_Path (snd ?dec)) + mset (map rs_Path gone)"
        if none: "snd (snd (snd r)) = None"
      proof -
        obtain gone where g: "set gone \<subseteq> set (fst ?dec)" "mset (map rs_Path (fst ?dec)) = residue_paths r + mset (map rs_Path gone)"
          using acts [THEN conjunct2, THEN conjunct2, THEN conjunct2, THEN mp, OF none] by (elim exE conjE)
        have "mset (map rs_Path b) = mset (map rs_Path (fst ?dec)) + mset (map sf_Path (snd ?dec))"
          using decide_loop_split [of rs_Path b ?ls ?cs ec] by (simp add: syncDecideResidue_def Let_def)
        with g dec show ?thesis by (intro exI [of _ gone]) (auto simp: ac_simps)
      qed
      then show ?thesis
        using ms auth new unfolding res ran_def
        by (auto simp: out_paths_def residue_paths_def filter_id_conv filter_empty_conv ac_simps intro!: exI [of _ ms])
    qed
  qed
qed

lemma each_batch_ran:
  assumes "\<And>b out w. b \<in> set bs \<Longrightarrow> ran e x (f b) (g b) out w (step b out w)"
  shows "ran e x (concat (map f bs)) (concat (map g bs)) out w (each_batch step bs out w)"
  using assms
proof (induction bs arbitrary: out w)
  case Nil
  then show ?case by (simp add: ran_nothing)
next
  case (Cons b bs)
  obtain er out1 w1 where 1: "step b out w = ((er, out1), w1)" by (metis prod.exhaust)
  have b: "ran e x (f b) (g b) out w ((er, out1), w1)" using Cons.prems [of b out w] 1 by simp
  show ?case
  proof (cases er)
    case (Some er')
    have "ran e x (concat (map f (b # bs))) (concat (map g (b # bs))) out w ((Some er', out1), w1)"
      by (rule ran_failed [OF b [unfolded Some]]) simp_all
    with 1 Some show ?thesis by simp
  next
    case None
    have "ran e x (concat (map f bs)) (concat (map g bs)) out1 w1 (each_batch step bs out1 w1)"
      using Cons.prems by (intro Cons.IH) auto
    from ran_then [OF b [unfolded None] this] 1 None show ?thesis by simp
  qed
qed

lemma concat_chunk: "0 < n \<Longrightarrow> concat (chunk n xs) = xs"
  by (induction n xs rule: chunk.induct) auto

lemma chunk_bound: "0 < n \<Longrightarrow> b \<in> set (chunk n xs) \<Longrightarrow> length b \<le> n"
  by (induction n xs rule: chunk.induct) auto

lemma syncFastForwardBatches_ran: "ran e x ds [] out w (syncFastForwardBatches e x ds out w)"
  using each_batch_ran [of "chunk syncApplyBatch ds" e x "\<lambda>b. b" "\<lambda>b. []" "fast_forward_batch e x" out w]
    fast_forward_batch_ran [of e x]
  by (simp add: syncFastForwardBatches_def concat_chunk syncApplyBatch_def map_replicate_const)

lemma syncSweepBatches_ran: "ran e x [] rs out w (syncSweepBatches e x rs out w)"
  using each_batch_ran [of "chunk syncApplyBatch rs" e x "\<lambda>b. []" "\<lambda>b. b" "sweep_batch e x" out w]
    sweep_batch_ran [of e x]
  by (simp add: syncSweepBatches_def concat_chunk syncApplyBatch_def map_replicate_const)

lemma out_paths_sort: "out_paths (sortSyncOutcome out) = out_paths out"
  by (simp add: out_paths_def sortSyncOutcome_def)

lemma ran_sorted: "ran e x ds rs out w ((er, out1), w1) \<Longrightarrow> ran e x ds rs out w ((er, sortSyncOutcome out1), w1)"
  by (simp add: ran_def out_paths_sort) (simp add: sortSyncOutcome_def)

lemma syncStoreDecideApply_ran:
  "ran e x ds rs no_sync w (syncStoreDecideApply e x ds rs False w)"
proof -
  obtain er out w1 where 1: "syncFastForwardBatches e x ds no_sync w = ((er, out), w1)" by (metis prod.exhaust)
  note a = syncFastForwardBatches_ran [of e x ds no_sync w, unfolded 1]
  show ?thesis
  proof (cases er)
    case (Some er')
    from ran_sorted [OF a] have "ran e x ds rs no_sync w ((Some er', sortSyncOutcome out), w1)"
      unfolding Some by (rule ran_failed) auto
    with 1 Some show ?thesis by (simp add: syncStoreDecideApply_def)
  next
    case None
    obtain er2 out2 w2 where 2: "syncSweepBatches e x rs out w1 = ((er2, out2), w2)" by (metis prod.exhaust)
    from ran_then [OF a [unfolded None] syncSweepBatches_ran [of e x rs out w1, unfolded 2]]
    have "ran e x ds rs no_sync w ((er2, out2), w2)" by simp
    from ran_sorted [OF this] 1 2 None show ?thesis by (simp add: syncStoreDecideApply_def)
  qed
qed

subsection \<open>An example\<close>

text \<open>Blobs and their object ids are the same text here; \<open>b\<close> is leased, \<open>c\<close> changes while sync runs.\<close>

definition ex_sync_env :: sync_env where
  "ex_sync_env = \<lparr>se_hash = (\<lambda>p c. c), se_hash_stdin = (\<lambda>f s. None), se_blob = Some,
     se_edit = (\<lambda>n f. if n = 7 then f(''c'' := Some (FRegular ''mine'' False)) else f), se_fail = (\<lambda>n. False),
     se_fsync_fail = (\<lambda>n. False), se_peers = (\<lambda>n d. d), se_promote = (\<lambda>n r. r), se_flock = (\<lambda>n. True),
     se_ref_fail = (\<lambda>n. False), se_now = (\<lambda>n. 5), se_live = (\<lambda>n. None), se_caseFold = False, se_worktree = ''/r''\<rparr>"

definition ex_sync_world :: sync_world where
  "ex_sync_world = \<lparr>sy_files = [''a'' \<mapsto> FRegular ''old'' False, ''b'' \<mapsto> FRegular ''old'' False,
       ''c'' \<mapsto> FRegular ''old'' False, ''r'' \<mapsto> FRegular ''junk'' False],
     sy_db = empty_db\<lparr>db_locks := [lock_row_of ((ex_lock ''b'' ''alice'' 100)\<lparr>l_Worktree := ''/r''\<rparr>) 1]\<rparr>,
     sy_integ = Some ''i1'', sy_ctx = \<lparr>Now = 0, Live = None, CaseFold = False, MyWorktree = []\<rparr>,
     sy_tick = 0, sy_sec = 0, sy_log = []\<rparr>"

definition ex_diff :: "string \<Rightarrow> syncDiff" where
  "ex_diff p = diff_of \<lparr>en_Path = p, en_Mode = ''100755'', en_OID = ''new''\<rparr> syncModified ''old''"

definition ex_residue :: "string \<Rightarrow> syncResidue" where
  "ex_residue p = \<lparr>rs_Path = p, rs_CandidateID = ''k1'', rs_Blob = ''junk''\<rparr>"

definition ex_sync :: "(sync_error option \<times> syncOutcome) \<times> sync_world" where
  "ex_sync = syncStoreDecideApply ex_sync_env ''i1'' (map ex_diff [''a'', ''b'', ''c'']) [ex_residue ''r''] False ex_sync_world"

lemma ex_sync_run:
  "(case ex_sync of ((er, out), w) \<Rightarrow>
      (er, so_Synced out, so_Deleted out, so_Conflicts out, map (\<lambda>t. (en_Path (tm_diff t), tm_Found t)) (so_TargetSkips out),
       map (\<lambda>m. (mu_path m, mu_after m)) (sy_log w))) =
   (None, [''a''], [ex_residue ''r''], [\<lparr>sf_Path = ''b'', sf_Reason = ''leased'', sf_Holder = ''alice''\<rparr>], [(''c'', ''mine'')],
    [(''a'', Some (FRegular ''new'' True)), (''r'', None)])"
  by code_simp

lemma ex_sync_eval:
  "fst (fst ex_sync) = None" "so_Synced (snd (fst ex_sync)) = [''a'']"
  "so_Deleted (snd (fst ex_sync)) = [ex_residue ''r'']"
  "map (\<lambda>m. (mu_path m, mu_after m)) (sy_log (snd ex_sync)) = [(''a'', Some (FRegular ''new'' True)), (''r'', None)]"
  using ex_sync_run by (simp_all add: case_prod_beta)

subsection \<open>Properties\<close>



text \<open>C28: 
  C0: the report is the history.  On success and on failure alike, the paths reported synced are the paths
  written, in that order, and the paths reported deleted are the paths removed.
\<close>

theorem sync_report_is_the_history:
  "\<exists>ms. sy_log (snd (syncStoreDecideApply e x ds rs False w)) = sy_log w @ ms \<and>
     so_Synced (snd (fst (syncStoreDecideApply e x ds rs False w))) = map mu_path (filter (\<lambda>m. mu_after m \<noteq> None) ms) \<and>
     map rs_Path (so_Deleted (snd (fst (syncStoreDecideApply e x ds rs False w)))) =
       map mu_path (filter (\<lambda>m. mu_after m = None) ms)"
  using syncStoreDecideApply_ran [of e x ds rs w] unfolding ran_def
  by (auto simp: no_sync_def)



end
