(* ===== verification/Verdicts.thy ===== *)
theory Verdicts
  imports Decode Claims Admission
begin

text \<open>
  \<open>store/gate_stats.go\<close>: the verdict a judged candidate leaves in the event log, the record of the
  paths a rejected candidate created, which is what lets \<open>loto sync\<close> delete a file, and the counts of
  \<open>loto gate stats\<close>.
\<close>

subsection \<open>The payload of a rejection\<close>

record createdEntry =
  ce_Path :: string
  ce_Blob :: string

record RejectedCreation =
  rj_CandidateID :: string
  rj_Blob :: string

definition verdictDetail :: "createdEntry list \<Rightarrow> json" where
  "verdictDetail es =
     JObj [(''created'', JArr (map (\<lambda>c. JObj [(''path'', JStr (ce_Path c)), (''blob'', JStr (ce_Blob c))]) es))]"

text \<open>Sorted by path and then blob: the stable sort by path of the list sorted by blob.\<close>

definition created_entries :: "CreatedPath list \<Rightarrow> createdEntry list" where
  "created_entries cps =
     remdups_adj (sort_key ce_Path (sort_key ce_Blob
       (map (\<lambda>cp. \<lparr>ce_Path = cp_Path cp, ce_Blob = cp_Blob cp\<rparr>) (filter (\<lambda>cp. cp_Path cp \<noteq> [] \<and> cp_Blob cp \<noteq> []) cps))))"

definition encodeVerdictDetail :: "CreatedPath list \<Rightarrow> string" where
  "encodeVerdictDetail cps = (let es = created_entries cps in if es = [] then [] else marshal (verdictDetail es))"

fun created_entry :: "json \<Rightarrow> createdEntry option" where
  "created_entry JNull = Some \<lparr>ce_Path = [], ce_Blob = []\<rparr>"
| "created_entry (JObj ms) =
     (case (as_string (json_field ''path'' ms), as_string (json_field ''blob'' ms)) of
        (Some p, Some b) \<Rightarrow> Some \<lparr>ce_Path = p, ce_Blob = b\<rparr>
      | _ \<Rightarrow> None)"
| "created_entry j = None"

definition decodeVerdictDetail :: "string \<Rightarrow> createdEntry list option" where
  "decodeVerdictDetail s =
     (case parse_json s of
        Some JNull \<Rightarrow> Some []
      | Some (JObj ms) \<Rightarrow> as_list created_entry (json_field ''created'' ms)
      | _ \<Rightarrow> None)"

subsection \<open>Recording and reading\<close>

definition RecordAdmissionVerdict ::
  "store \<Rightarrow> io \<Rightarrow> string \<Rightarrow> string \<Rightarrow> RejectionReason option \<Rightarrow> CreatedPath list \<Rightarrow> db \<Rightarrow> store_error option \<times> db" where
  "RecordAdmissionVerdict s i actor cid reason cps d =
     appendAuditDetached s i
       [\<lparr>e_ID = [], e_Target = Target cid,
         e_Kind = (case reason of None \<Rightarrow> EventCandidateAccepted | Some _ \<Rightarrow> EventCandidateRejected),
         e_ActorUUID = actor, e_SubjectUUID = [],
         e_Reason = (case reason of None \<Rightarrow> [] | Some r \<Rightarrow> RejectionReason_name r),
         e_Detail = (case reason of None \<Rightarrow> [] | Some _ \<Rightarrow> encodeVerdictDetail cps), e_CreatedAt = io_now i\<rparr>] d"

definition creations_of :: "event_row \<Rightarrow> (string \<times> RejectedCreation) list" where
  "creations_of r =
     (case decodeVerdictDetail (ev_detail r) of
        None \<Rightarrow> []
      | Some es \<Rightarrow>
          map (\<lambda>c. (ce_Path c, \<lparr>rj_CandidateID = ev_target_canonical r, rj_Blob = ce_Blob c\<rparr>))
            (filter (\<lambda>c. ce_Path c \<noteq> [] \<and> ce_Blob c \<noteq> []) es))"

text \<open>The rows in the order they were created; a later entry overwrites the map's earlier one.\<close>

definition rejection_rows :: "db \<Rightarrow> event_row list" where
  "rejection_rows d =
     sort_key (\<lambda>r. (ev_created_at r, ev_id r))
       (filter (\<lambda>r. ev_kind r = EventCandidateRejected \<and> ev_detail r \<noteq> []) (db_events d))"

definition RejectedCandidateCreations :: "db \<Rightarrow> string \<Rightarrow> RejectedCreation option" where
  "RejectedCandidateCreations d p = map_of (rev (concat (map creations_of (rejection_rows d)))) p"

subsection \<open>The counts\<close>

record GateStats =
  gs_Accepted :: nat
  gs_Rejected :: nat
  gs_Bypassed :: nat
  gs_ByClass :: "string \<Rightarrow> nat option"

definition Total :: "GateStats \<Rightarrow> nat" where
  "Total g = gs_Accepted g + gs_Rejected g"

definition add_class :: "string \<Rightarrow> nat \<Rightarrow> (string \<Rightarrow> nat option) \<Rightarrow> string \<Rightarrow> nat option" where
  "add_class c n m = m(c := Some (case m c of None \<Rightarrow> n | Some k \<Rightarrow> k + n))"

fun count_row :: "(EventKind \<times> string) \<times> nat \<Rightarrow> GateStats \<Rightarrow> GateStats" where
  "count_row ((kind, reason), n) g =
     (if kind = EventCandidateAccepted then g\<lparr>gs_Accepted := gs_Accepted g + n\<rparr>
      else if kind = EventCandidateRejected
      then g\<lparr>gs_Rejected := gs_Rejected g + n, gs_ByClass := add_class reason n (gs_ByClass g)\<rparr>
      else if kind = EventGateBypass
      then g\<lparr>gs_Bypassed := gs_Bypassed g + n, gs_ByClass := add_class (RejectionReason_name ReasonGateBypass) n (gs_ByClass g)\<rparr>
      else g)"

text \<open>\<open>GROUP BY event_kind, reason\<close>: one row per group, in some order.\<close>

definition group_rows :: "event_row list \<Rightarrow> ((EventKind \<times> string) \<times> nat) list" where
  "group_rows evs =
     (let keys = map (\<lambda>r. (ev_kind r, ev_reason r)) evs in map (\<lambda>k. (k, count_list keys k)) (remdups keys))"

definition verdict_kinds :: "EventKind list" where
  "verdict_kinds = [EventCandidateAccepted, EventCandidateRejected, EventGateBypass]"

definition window_rows :: "time \<Rightarrow> time \<Rightarrow> db \<Rightarrow> event_row list" where
  "window_rows now since d = filter (\<lambda>r. now - since \<le> ev_created_at r \<and> ev_kind r \<in> set verdict_kinds) (db_events d)"

definition ReadGateStats :: "time \<Rightarrow> time \<Rightarrow> db \<Rightarrow> GateStats" where
  "ReadGateStats now since d =
     fold count_row (group_rows (window_rows now since d))
       \<lparr>gs_Accepted = 0, gs_Rejected = 0, gs_Bypassed = 0,
        gs_ByClass = (\<lambda>c. if c \<in> set (map RejectionReason_name RejectionReasons) then Some 0 else None)\<rparr>"

subsection \<open>The payload reads back\<close>

lemma numbers_ok_verdict [simp]: "numbers_ok (verdictDetail es)"
  by (simp add: verdictDetail_def list_all_iff)

definition scrub_entry :: "createdEntry \<Rightarrow> createdEntry" where
  "scrub_entry c = \<lparr>ce_Path = scrub (ce_Path c), ce_Blob = scrub (ce_Blob c)\<rparr>"

lemma scrub_names [simp]: "scrub ''created'' = ''created''" "scrub ''path'' = ''path''" "scrub ''blob'' = ''blob''"
  by (rule scrub_ascii, simp add: byte_def)+

lemma json_field_found:
  "json_field ''path'' [(''path'', a), (''blob'', b)] = Some a" "json_field ''blob'' [(''path'', a), (''blob'', b)] = Some b"
  "json_field ''created'' [(''created'', c)] = Some c"
  by (simp_all add: json_field_def equal_fold_def to_lower_def to_lower_char_def)

lemma created_entry_encoded:
  "created_entry (scrub_json (JObj [(''path'', JStr (ce_Path c)), (''blob'', JStr (ce_Blob c))])) = Some (scrub_entry c)"
proof -
  have "scrub_json (JObj [(''path'', JStr (ce_Path c)), (''blob'', JStr (ce_Blob c))]) =
      JObj [(''path'', JStr (scrub (ce_Path c))), (''blob'', JStr (scrub (ce_Blob c)))]"
    by (simp only: scrub_json.simps list.map fst_conv snd_conv scrub_names)
  then show ?thesis
    by (simp only: created_entry.simps json_field_found as_string.simps prod.case option.case scrub_entry_def)
qed

lemma decode_encoded:
  "decodeVerdictDetail (marshal (verdictDetail es)) = Some (map scrub_entry es)"
proof -
  let ?j = "\<lambda>c. JObj [(''path'', JStr (ce_Path c)), (''blob'', JStr (ce_Blob c))]"
  have "parse_json (marshal (verdictDetail es)) = Some (scrub_json (verdictDetail es))"
    by (rule parse_marshal) simp
  also have "scrub_json (verdictDetail es) = JObj [(''created'', JArr (map (\<lambda>c. scrub_json (?j c)) es))]"
    by (simp only: verdictDetail_def scrub_json.simps list.map fst_conv snd_conv scrub_names map_map comp_def)
  finally have p: "parse_json (marshal (verdictDetail es)) = Some (JObj [(''created'', JArr (map (\<lambda>c. scrub_json (?j c)) es))])" .
  have "all_some (map created_entry (map (\<lambda>c. scrub_json (?j c)) es)) = Some (map scrub_entry es)"
    unfolding map_map comp_def by (rule all_some_map) (rule created_entry_encoded)
  then show ?thesis
    unfolding decodeVerdictDetail_def p by (simp only: option.case json.case json_field_found as_list.simps)
qed

text \<open>A row newer than all others, with an id of its own, survives the retention pass.\<close>

lemma sort_key_newest: "(\<And>y. y \<in> set xs \<Longrightarrow> f y < f x) \<Longrightarrow> sort_key f (xs @ [x]) = sort_key f xs @ [x]"
proof (induction xs)
  case Nil
  then show ?case by simp
next
  case (Cons a xs)
  have "insort_key f a (ys @ [x]) = insort_key f a ys @ [x]" for ys
    using Cons.prems [of a] by (induction ys) auto
  with Cons show ?case by simp
qed

lemma delete_overflow_newest:
  assumes "\<And>y. y \<in> set es \<Longrightarrow> ev_created_at y < ev_created_at x \<and> ev_id y \<noteq> ev_id x" "0 < n"
  shows "\<exists>es'. delete_overflow P n (es @ [x]) = es' @ [x] \<and> set es' \<subseteq> set es"
proof -
  have "ev_id x \<notin> ev_id ` set (drop n (newest_first (filter P (es @ [x]))))"
  proof
    assume "ev_id x \<in> ev_id ` set (drop n (newest_first (filter P (es @ [x]))))"
    then obtain y where y: "y \<in> set (drop n (newest_first (filter P (es @ [x]))))" "ev_id y = ev_id x" by auto
    have "y \<in> set es"
    proof (cases "P x")
      case True
      then have "newest_first (filter P (es @ [x])) = x # rev (sort_key ev_created_at (filter P es))"
        using assms(1) sort_key_newest [of "filter P es" ev_created_at x] by (simp add: newest_first_def)
      with y(1) assms(2) show ?thesis by (cases n) (auto dest: in_set_dropD)
    next
      case False
      with y(1) show ?thesis by (auto dest!: in_set_dropD simp: newest_first_def)
    qed
    with y(2) assms(1) show False by blast
  qed
  then show ?thesis unfolding delete_overflow_def Let_def
    by (intro exI [of _ "filter (\<lambda>e. ev_id e \<notin> set (map ev_id (drop n (newest_first (filter P (es @ [x])))))) es"]) auto
qed

lemma rotate_events_newest:
  assumes new: "\<And>y. y \<in> set es \<Longrightarrow> ev_created_at y < ev_created_at x \<and> ev_id y \<noteq> ev_id x" and "ev_created_at x = now"
  shows "\<exists>es'. rotate_events now (es @ [x]) = es' @ [x] \<and> set es' \<subseteq> set es"
proof -
  have step: "\<exists>es''. delete_overflow P n (es' @ [x]) = es'' @ [x] \<and> set es'' \<subseteq> set es" if "set es' \<subseteq> set es" "0 < n" for P n es'
    using delete_overflow_newest [of es' x n P] new that by (meson subset_trans subsetD)
  have "\<not> ev_created_at x < now - EvidenceRetentionAge" "\<not> ev_created_at x < now - eventsRetentionAge"
    using assms(2) by (simp_all add: EvidenceRetentionAge_def eventsRetentionAge_def hour_def)
  then obtain e0 where e0: "rotate_age now (es @ [x]) = e0 @ [x]" "set e0 \<subseteq> set es"
    unfolding rotate_age_def by auto
  obtain e1 where e1: "delete_overflow (\<lambda>e. ev_kind e = EventHookTiming) HookTimingRetentionMax (e0 @ [x]) = e1 @ [x]" "set e1 \<subseteq> set es"
    using step [OF e0(2), of HookTimingRetentionMax] by (auto simp: HookTimingRetentionMax_def)
  obtain e2 where e2: "delete_overflow (\<lambda>e. ev_kind e = EventLockRefreshed) LockRefreshedRetentionMax (e1 @ [x]) = e2 @ [x]" "set e2 \<subseteq> set es"
    using step [OF e1(2), of LockRefreshedRetentionMax] by (auto simp: LockRefreshedRetentionMax_def)
  obtain e3 where e3: "delete_overflow is_evidence EvidenceRetentionMaxRows (e2 @ [x]) = e3 @ [x]" "set e3 \<subseteq> set es"
    using step [OF e2(2), of EvidenceRetentionMaxRows] by (auto simp: EvidenceRetentionMaxRows_def)
  obtain e4 where e4: "delete_overflow (\<lambda>e. \<not> is_evidence e) eventsRetentionMax (e3 @ [x]) = e4 @ [x]" "set e4 \<subseteq> set es"
    using step [OF e3(2), of eventsRetentionMax] by (auto simp: eventsRetentionMax_def)
  show ?thesis using e4 unfolding rotate_events_unfold e0(1) e1(1) e2(1) e3(1) by blast
qed

lemma creations_of_keys:
  assumes "decodeVerdictDetail (ev_detail r) = Some es" "distinct (map ce_Path es)" "c \<in> set es" "ce_Path c \<noteq> []" "ce_Blob c \<noteq> []"
  shows "map_of (rev (creations_of r)) (ce_Path c) = Some \<lparr>rj_CandidateID = ev_target_canonical r, rj_Blob = ce_Blob c\<rparr>"
proof -
  let ?ps = "creations_of r"
  have "map fst ?ps = map ce_Path (filter (\<lambda>c. ce_Path c \<noteq> [] \<and> ce_Blob c \<noteq> []) es)"
    using assms(1) by (simp add: creations_of_def comp_def)
  then have "distinct (map fst (rev ?ps))"
    using assms(2) by (simp add: rev_map [symmetric] distinct_map_filter)
  moreover have "(ce_Path c, \<lparr>rj_CandidateID = ev_target_canonical r, rj_Blob = ce_Blob c\<rparr>) \<in> set (rev ?ps)"
    using assms by (auto simp: creations_of_def)
  ultimately show ?thesis by (rule map_of_is_SomeI)
qed

lemma created_entries_set:
  "set (created_entries cps) =
     (\<lambda>cp. \<lparr>ce_Path = cp_Path cp, ce_Blob = cp_Blob cp\<rparr>) ` {cp \<in> set cps. cp_Path cp \<noteq> [] \<and> cp_Blob cp \<noteq> []}"
  by (auto simp: created_entries_def)

lemma distinct_remdups_adj: "distinct xs \<Longrightarrow> remdups_adj xs = xs"
  by (induction xs rule: remdups_adj.induct) auto

lemma distinct_map_sort: "distinct (map f xs) \<Longrightarrow> distinct (map f (sort_key g xs))"
  by (metis distinct_map distinct_sort set_sort)

lemma created_entries_distinct:
  assumes "distinct (map cp_Path cps)"
  shows "distinct (map ce_Path (created_entries cps))"
proof -
  let ?es = "map (\<lambda>cp. \<lparr>ce_Path = cp_Path cp, ce_Blob = cp_Blob cp\<rparr>) (filter (\<lambda>cp. cp_Path cp \<noteq> [] \<and> cp_Blob cp \<noteq> []) cps)"
  have "distinct (map ce_Path ?es)" using assms by (simp add: comp_def distinct_map_filter)
  then have "distinct (map ce_Path (sort_key ce_Path (sort_key ce_Blob ?es)))"
    by (intro distinct_map_sort)
  moreover from this have "distinct (sort_key ce_Path (sort_key ce_Blob ?es))" by (simp only: distinct_map)
  ultimately show ?thesis by (simp add: created_entries_def distinct_remdups_adj)
qed

lemma appendAuditDetached_one:
  assumes "appendAuditDetached s i [ev] d = (None, d')" "e_ID ev = []" "e_CreatedAt ev = io_now i"
    "\<And>r. r \<in> set (db_events d) \<Longrightarrow> ev_created_at r < io_now i \<and> ev_id r \<noteq> fst (newID s ''e-'' d)"
  shows "\<exists>es. db_events d' = es @ [event_row_of (ev\<lparr>e_ID := fst (newID s ''e-'' d)\<rparr>)] \<and> set es \<subseteq> set (db_events d)"
proof -
  let ?x = "event_row_of (ev\<lparr>e_ID := fst (newID s ''e-'' d)\<rparr>)"
  have "db_events d' = rotate_events (io_now i) (db_events d @ [?x])"
    using assms(1,2) by (auto simp: appendAuditDetached_def appendEventsRotating_def rotateEventsTx_def give_event_id_def
      Let_def frame_simps split: if_splits)
  then show ?thesis
    using rotate_events_newest [of "db_events d" ?x "io_now i"] assms(3,4) by (simp add: event_row_of_def)
qed

lemma recorded_attribution:
  assumes "RecordAdmissionVerdict s i actor cid (Some reason) cps d = (None, d')"
    and "\<forall>r \<in> set (db_events d). ev_created_at r < io_now i \<and> ev_id r \<noteq> fst (newID s ''e-'' d)"
    and "\<forall>cp \<in> set cps. valid_utf8 (cp_Path cp) \<and> valid_utf8 (cp_Blob cp)" and "distinct (map cp_Path cps)"
    and "cp \<in> set cps" "cp_Path cp \<noteq> []" "cp_Blob cp \<noteq> []"
  shows "RejectedCandidateCreations d' (cp_Path cp) = Some \<lparr>rj_CandidateID = cid, rj_Blob = cp_Blob cp\<rparr>"
proof -
  let ?es = "created_entries cps" and ?c = "\<lparr>ce_Path = cp_Path cp, ce_Blob = cp_Blob cp\<rparr>"
  have c: "?c \<in> set ?es" using assms(5-7) by (auto simp: created_entries_set)
  have "scrub_entry e = e" if "e \<in> set ?es" for e
    using that assms(3) by (auto simp: created_entries_set scrub_entry_def scrub_valid)
  then have "map scrub_entry ?es = ?es" by (simp add: map_idI)
  moreover have "encodeVerdictDetail cps = marshal (verdictDetail ?es)" using c by (auto simp: encodeVerdictDetail_def Let_def)
  ultimately have dec: "decodeVerdictDetail (encodeVerdictDetail cps) = Some ?es" by (simp add: decode_encoded)
  have ne: "encodeVerdictDetail cps \<noteq> []" using \<open>encodeVerdictDetail cps = _\<close> by (simp add: marshal_def verdictDetail_def)
  obtain x es where ev: "db_events d' = es @ [x]" "set es \<subseteq> set (db_events d)" "ev_kind x = EventCandidateRejected"
    "ev_detail x = encodeVerdictDetail cps" "ev_target_canonical x = cid" "ev_created_at x = io_now i"
    using appendAuditDetached_one [OF assms(1) [unfolded RecordAdmissionVerdict_def]] assms(2)
    by (fastforce simp: event_row_of_def)
  let ?f = "\<lambda>r. (ev_created_at r, ev_id r)" and ?P = "\<lambda>r. ev_kind r = EventCandidateRejected \<and> ev_detail r \<noteq> []"
  have "rejection_rows d' = sort_key ?f (filter ?P es @ [x])"
    using ev ne by (simp add: rejection_rows_def)
  also have "\<dots> = sort_key ?f (filter ?P es) @ [x]"
    using ev(2,6) assms(2) by (intro sort_key_newest) auto
  finally have "RejectedCandidateCreations d' p = map_of (rev (creations_of x) @ rev (concat (map creations_of (sort_key ?f (filter ?P es))))) p" for p
    by (simp add: RejectedCandidateCreations_def)
  moreover have "map_of (rev (creations_of x)) (cp_Path cp) = Some \<lparr>rj_CandidateID = cid, rj_Blob = cp_Blob cp\<rparr>"
    using creations_of_keys [of x ?es ?c] dec c ev assms(6,7) created_entries_distinct [OF assms(4)] by simp
  ultimately show ?thesis by (simp add: map_add_Some_iff)
qed

text \<open>C38: 
  C0: a rejection is what attributes a file.  Once the verdict on a rejected candidate is recorded, every
  path it declared as created is attributed to that candidate with the blob it proposed, whatever
  earlier rejections say of the path and whatever the retention pass deletes.  The log must be older
  than the verdict and its new id fresh; paths that are not UTF-8 are recorded under another spelling.
\<close>

theorem recorded_rejection_attributes:
  assumes "RecordAdmissionVerdict s i actor cid (Some reason) cps d = (None, d')"
    and "\<forall>r \<in> set (db_events d). ev_created_at r < io_now i \<and> ev_id r \<noteq> fst (newID s ''e-'' d)"
    and "\<forall>cp \<in> set cps. valid_utf8 (cp_Path cp) \<and> valid_utf8 (cp_Blob cp)" and "distinct (map cp_Path cps)"
    and "cp \<in> set cps" "cp_Path cp \<noteq> []" "cp_Blob cp \<noteq> []"
  shows "RejectedCandidateCreations d' (cp_Path cp) = Some \<lparr>rj_CandidateID = cid, rj_Blob = cp_Blob cp\<rparr>"
  by (rule recorded_attribution [OF assms])

definition ex_created :: "CreatedPath list" where
  "ex_created = [\<lparr>cp_Path = ''b.go'', cp_Blob = ''22''\<rparr>, \<lparr>cp_Path = ''a.go'', cp_Blob = ''11''\<rparr>]"

definition ex_rejected :: db where
  "ex_rejected = snd (RecordAdmissionVerdict ex_store (ex_io 7) ''al'' ''k1'' (Some ReasonVerifyRed) ex_created empty_db)"

lemma ex_rejected_recorded:
  "RecordAdmissionVerdict ex_store (ex_io 7) ''al'' ''k1'' (Some ReasonVerifyRed) ex_created empty_db = (None, ex_rejected)"
proof -
  have "fst (RecordAdmissionVerdict ex_store (ex_io 7) ''al'' ''k1'' (Some ReasonVerifyRed) ex_created empty_db) = None"
    by (simp add: RecordAdmissionVerdict_def appendAuditDetached_def appendEventsRotating_def ex_io_def Let_def)
  then show ?thesis by (metis ex_rejected_def prod.collapse)
qed

lemma ex_created_valid:
  "valid_utf8 ''a.go''" "valid_utf8 ''b.go''" "valid_utf8 ''11''" "valid_utf8 ''22''"
  by (rule ascii_valid, code_simp)+

theorem recorded_rejection_attributes_witness:
  "RejectedCandidateCreations ex_rejected ''a.go'' = Some \<lparr>rj_CandidateID = ''k1'', rj_Blob = ''11''\<rparr>"
  using recorded_rejection_attributes [OF ex_rejected_recorded, of "\<lparr>cp_Path = ''a.go'', cp_Blob = ''11''\<rparr>"] ex_created_valid
  by (simp add: ex_created_def empty_db_def)

lemma ex_rejected_creation:
  "RejectedCandidateCreations ex_rejected ''a.go'' = Some \<lparr>rj_CandidateID = ''k1'', rj_Blob = ''11''\<rparr>"
  using recorded_attribution [OF ex_rejected_recorded, of "\<lparr>cp_Path = ''a.go'', cp_Blob = ''11''\<rparr>"] ex_created_valid
  by (simp add: ex_created_def empty_db_def)

text \<open>What is attributed comes from a rejection in the log.\<close>

lemma RejectedCandidateCreations_SomeD:
  assumes "RejectedCandidateCreations d p = Some rc"
  shows "\<exists>r \<in> set (db_events d). ev_kind r = EventCandidateRejected \<and> ev_target_canonical r = rj_CandidateID rc \<and>
    (\<exists>es. decodeVerdictDetail (ev_detail r) = Some es \<and> \<lparr>ce_Path = p, ce_Blob = rj_Blob rc\<rparr> \<in> set es)"
proof -
  from assms have "(p, rc) \<in> set (concat (map creations_of (rejection_rows d)))"
    unfolding RejectedCandidateCreations_def by (metis map_of_SomeD set_rev)
  then obtain r where r: "r \<in> set (rejection_rows d)" "(p, rc) \<in> set (creations_of r)" by auto
  from r(2) obtain es where es: "decodeVerdictDetail (ev_detail r) = Some es"
    by (cases "decodeVerdictDetail (ev_detail r)") (auto simp: creations_of_def)
  with r(2) obtain c where "c \<in> set es" "p = ce_Path c" "rc = \<lparr>rj_CandidateID = ev_target_canonical r, rj_Blob = ce_Blob c\<rparr>"
    by (auto simp: creations_of_def)
  moreover note es
  moreover have "r \<in> set (db_events d)" "ev_kind r = EventCandidateRejected"
    using r(1) by (auto simp: rejection_rows_def)
  ultimately show ?thesis by (intro bexI [of _ r]) (cases c, auto)
qed

subsection \<open>The counts are counts\<close>

lemma count_rows_Rejected:
  "gs_Rejected (fold count_row rows g) = gs_Rejected g + sum_list (map snd (filter (\<lambda>r. fst (fst r) = EventCandidateRejected) rows))"
  by (induction rows arbitrary: g) auto

lemma count_rows_Accepted:
  "gs_Accepted (fold count_row rows g) = gs_Accepted g + sum_list (map snd (filter (\<lambda>r. fst (fst r) = EventCandidateAccepted) rows))"
  by (induction rows arbitrary: g) auto

lemma group_rows_sum:
  "sum_list (map snd (filter (\<lambda>r. P (fst r)) (group_rows evs))) = length (filter (\<lambda>r. P (ev_kind r, ev_reason r)) evs)"
proof -
  let ?keys = "map (\<lambda>r. (ev_kind r, ev_reason r)) evs"
  have "sum_list (map (count_list ks) (filter P (remdups ks))) = length (filter P ks)" for ks :: "(EventKind \<times> string) list"
  proof -
    have count_filter: "P k \<Longrightarrow> count_list (filter P ks) k = count_list ks k" for k by (induction ks) auto
    have "sum_list (map (count_list ks) (filter P (remdups ks))) = (\<Sum>k \<in> {k \<in> set ks. P k}. count_list ks k)"
      by (subst sum_list_distinct_conv_sum_set) (auto intro: sum.cong)
    also have "\<dots> = (\<Sum>k \<in> set (filter P ks). count_list (filter P ks) k)"
    proof (rule sum.cong)
      show "{k \<in> set ks. P k} = set (filter P ks)" by auto
      show "count_list ks k = count_list (filter P ks) k" if "k \<in> set (filter P ks)" for k
        using that count_filter [of k] by auto
    qed
    also have "\<dots> = length (filter P ks)" by (rule sum_count_set) auto
    finally show ?thesis .
  qed
  from this [of ?keys] show ?thesis
    by (simp add: group_rows_def Let_def filter_map comp_def)
qed

lemma ReadGateStats_counts:
  "gs_Accepted (ReadGateStats now since d) = length (filter (\<lambda>r. now - since \<le> ev_created_at r \<and> ev_kind r = EventCandidateAccepted) (db_events d))"
  "gs_Rejected (ReadGateStats now since d) = length (filter (\<lambda>r. now - since \<le> ev_created_at r \<and> ev_kind r = EventCandidateRejected) (db_events d))"
proof -
  have "filter (\<lambda>r. ev_kind r = k) (window_rows now since d) = filter (\<lambda>r. now - since \<le> ev_created_at r \<and> ev_kind r = k) (db_events d)"
    if "k \<in> set verdict_kinds" for k
    using that unfolding window_rows_def filter_filter by (intro filter_cong) auto
  note k = this [of EventCandidateAccepted] this [of EventCandidateRejected]
  show "gs_Accepted (ReadGateStats now since d) = length (filter (\<lambda>r. now - since \<le> ev_created_at r \<and> ev_kind r = EventCandidateAccepted) (db_events d))"
    "gs_Rejected (ReadGateStats now since d) = length (filter (\<lambda>r. now - since \<le> ev_created_at r \<and> ev_kind r = EventCandidateRejected) (db_events d))"
    using group_rows_sum [of "\<lambda>k. fst k = EventCandidateAccepted" "window_rows now since d"]
      group_rows_sum [of "\<lambda>k. fst k = EventCandidateRejected" "window_rows now since d"] k
    by (simp_all add: ReadGateStats_def count_rows_Accepted count_rows_Rejected verdict_kinds_def)
qed

end
