(* ===== verification/SyncRun.thy ===== *)
theory SyncRun
  imports SyncSafety Verdicts
begin

text \<open>
  \<open>runSync\<close> of \<open>cmd_sync.go\<close>: from the integration ref and the divergence scan to the report.  The answers
  of git (\<open>rev-parse\<close>, \<open>merge-base\<close>, \<open>ls-tree\<close>, \<open>ls-files --others\<close>) are parameters.
\<close>

record sync_git =
  sg_ref_ok :: bool
  sg_head :: "string option"
  sg_ancestor :: "string \<Rightarrow> string \<Rightarrow> bool option"
  sg_ls_tree :: "string \<Rightarrow> string option"
  sg_ls_files :: "files \<Rightarrow> string option"

datatype sync_report =
    SyncAbsent
  | SyncRefused
  | SyncClean
  | SyncError sync_error
  | SyncPartial sync_error syncOutcome
  | SyncReport syncOutcome "syncDiff list" "string list"

text \<open>Without an untracked path the event log is not read.\<close>

definition scan_residue :: "sync_git \<Rightarrow> sync_world \<Rightarrow> (syncResidue list \<times> string list) option" where
  "scan_residue g w =
     map_option (\<lambda>out. syncScanResidue (syncUntrackedPaths out)
         (\<lambda>p. map_option (\<lambda>rc. (rj_CandidateID rc, rj_Blob rc)) (RejectedCandidateCreations (sy_db w) p)))
       (sg_ls_files g (sy_files w))"

definition sync_exit :: "syncOutcome \<Rightarrow> int" where
  "sync_exit out = (if so_Conflicts out \<noteq> [] then 1 else 0)"

definition runSync :: "sync_env \<Rightarrow> sync_git \<Rightarrow> bool \<Rightarrow> sync_world \<Rightarrow> (int \<times> sync_report) \<times> sync_world" where
  "runSync e g dryRun w =
     (if \<not> sg_ref_ok g then ((3, SyncError ErrSyncGit), w)
      else case sy_integ w of
        None \<Rightarrow> ((0, SyncAbsent), w)
      | Some sha \<Rightarrow>
          (case refuseIfBehindHead (sg_head g) (sg_ancestor g) sha of
             (code, refused) \<Rightarrow>
               if refused then ((code, SyncRefused), w)
               else case sg_ls_tree g sha of
                 None \<Rightarrow> ((3, SyncError ErrSyncGit), w)
               | Some tree \<Rightarrow>
                   (case syncDivergence e (syncIntegrationEntries tree) w of
                      (Inl er, w1) \<Rightarrow> ((3, SyncError er), w1)
                    | (Inr diffs, w1) \<Rightarrow>
                        (case scan_residue g (act e w1) of
                           None \<Rightarrow> ((3, SyncError ErrSyncGit), act e w1)
                         | Some (residue, unattributed) \<Rightarrow>
                             if diffs = [] \<and> residue = [] \<and> unattributed = [] then ((0, SyncClean), act e w1)
                             else (case partitionSkipped diffs of
                                 (skipped, decidable) \<Rightarrow>
                                   (case syncStoreDecideApply e sha decidable residue dryRun (act e w1) of
                                      ((Some er, out), w2) \<Rightarrow> ((3, SyncPartial er out), w2)
                                    | ((None, out), w2) \<Rightarrow> ((sync_exit out, SyncReport out skipped unattributed), w2)))))))"

subsection \<open>The scans only read\<close>

definition only_read :: "sync_world \<Rightarrow> sync_world \<Rightarrow> bool" where
  "only_read w w' \<longleftrightarrow> sy_log w' = sy_log w \<and> sy_db w' = sy_db w \<and> sy_integ w' = sy_integ w"

lemma only_read_refl [simp]: "only_read w w"
  by (simp add: only_read_def)

lemma only_read_act [simp]: "only_read w (act e w') = only_read w w'"
  by (simp add: only_read_def)

lemma only_read_trans: "only_read w w' \<Longrightarrow> only_read w' w'' \<Longrightarrow> only_read w w''"
  by (simp add: only_read_def)

lemma only_read_cong: "only_read (act e w) w' = only_read w w'"
  by (simp add: only_read_def)

lemma hash_exceptional_reads: "only_read w (snd (hash_exceptional e ps w))"
proof (induction ps arbitrary: w)
  case (Cons p ps)
  from Cons.IH [of "act e w"] show ?case
    by (auto simp: Let_def only_read_cong split: option.splits sum.splits prod.splits)
qed simp

lemma batchHashObject_reads: "only_read w (snd (batchHashObject e ps w))"
  using hash_exceptional_reads [of "act e w" e "filter syncNeedsArgvPath ps"]
  by (auto simp: batchHashObject_def Let_def only_read_cong split: sum.splits prod.splits)

lemma compare_loop_reads: "only_read w (snd (compare_loop e oids ens w))"
proof (induction ens arbitrary: w)
  case (Cons en ens)
  from Cons.IH [of "act e w"] show ?case
    by (auto simp: Let_def only_read_cong split: option.splits sum.splits prod.splits)
qed simp

lemma compareExisting_reads: "only_read w (snd (compareExisting e ens w))"
  using batchHashObject_reads [of w e "map en_Path ens"] compare_loop_reads
  by (auto simp: compareExisting_def split: sum.splits prod.splits) (metis only_read_trans snd_conv)

lemma diverge_loop_reads: "only_read w (snd (diverge_loop e ens w))"
proof (induction ens arbitrary: w)
  case (Cons en ens)
  from Cons.IH [of "act e w"] Cons.IH [of w] show ?case
    by (auto simp: Let_def only_read_cong split: sum.splits prod.splits)
qed simp

lemma syncDivergence_reads: "only_read w (snd (syncDivergence e ens w))"
proof -
  obtain r w1 where 1: "diverge_loop e ens w = (r, w1)" by force
  have a: "only_read w w1" using diverge_loop_reads [of w e ens] 1 by simp
  have b: "only_read w (snd (compareExisting e xs w1))" for xs
    using only_read_trans [OF a compareExisting_reads] .
  show ?thesis
    using a b 1 by (auto simp: syncDivergence_def split: sum.splits prod.splits) (metis snd_conv)+
qed

subsection \<open>The plan comes from the tree\<close>

definition planned :: "syncEntry list \<Rightarrow> syncDiff \<Rightarrow> bool" where
  "planned ens d \<longleftrightarrow> (\<exists>en \<in> set ens. \<exists>st ob. d = diff_of en st ob)"

lemma planned_mono: "planned ens d \<Longrightarrow> set ens \<subseteq> set ens' \<Longrightarrow> planned ens' d"
  unfolding planned_def by blast

lemma planned_fields:
  "planned ens d \<Longrightarrow> \<exists>en \<in> set ens. en_Path d = en_Path en \<and> en_Mode d = en_Mode en \<and> en_OID d = en_OID en"
  by (auto simp: planned_def diff_of_def syncEntry.extend_def)

lemma diverge_loop_planned:
  "diverge_loop e ens w = (Inr (ds, xs), w') \<Longrightarrow> set xs \<subseteq> set ens \<and> list_all (planned ens) ds"
proof (induction ens arbitrary: w ds xs w')
  case Nil
  then show ?case by simp
next
  case (Cons en ens)
  have new: "planned (en # ens) (diff_of en st ob)" for st ob by (auto simp: planned_def)
  have up: "list_all (planned ens) ds \<Longrightarrow> list_all (planned (en # ens)) ds" for ds
    by (auto simp: list_all_iff intro: planned_mono)
  show ?case
  proof (cases "en_Mode en = ''120000'' \<or> en_Mode en = ''160000''")
    case True
    with Cons.prems obtain ds1 where rest: "diverge_loop e ens w = (Inr (ds1, xs), w')"
      and ds: "ds = diff_of en syncUnsupported [] # ds1"
      by (auto split: sum.splits prod.splits)
    from Cons.IH [OF rest] new up ds show ?thesis by auto
  next
    case False
    with Cons.prems obtain ds1 xs1 where rest: "diverge_loop e ens (act e w) = (Inr (ds1, xs1), w')"
      and eq: "(ds, xs) = (case sy_files (act e w) (en_Path en) of
                         None \<Rightarrow> (diff_of en syncMissing [] # ds1, xs1)
                       | Some FDir \<Rightarrow> (diff_of en syncUnsupported [] # ds1, xs1)
                       | Some (FSymlink r) \<Rightarrow> (diff_of en syncUnsupported [] # ds1, xs1)
                       | Some _ \<Rightarrow> (ds1, en # xs1))"
      by (auto simp: Let_def split: sum.splits prod.splits if_splits)
    from Cons.IH [OF rest] new up eq show ?thesis
      by (auto split: option.splits fobj.splits)
  qed
qed

lemma compare_loop_planned:
  "compare_loop e oids ens w = (Inr ds, w') \<Longrightarrow> list_all (planned ens) ds"
proof (induction ens arbitrary: w ds w')
  case Nil
  then show ?case by simp
next
  case (Cons en ens)
  have new: "planned (en # ens) (diff_of en st ob)" for st ob by (auto simp: planned_def)
  have up: "list_all (planned ens) ds \<Longrightarrow> list_all (planned (en # ens)) ds" for ds
    by (auto simp: list_all_iff intro: planned_mono)
  from Cons.prems obtain ds1 where "compare_loop e oids ens (act e w) = (Inr ds1, w')"
    "ds = ds1 \<or> (\<exists>st ob. ds = diff_of en st ob # ds1)"
    by (auto simp: Let_def split: sum.splits prod.splits option.splits if_splits)
  with Cons.IH new up show ?case by auto
qed

lemma syncDivergence_planned:
  assumes "syncDivergence e ens w = (Inr ds, w')"
  shows "list_all (planned ens) ds"
proof -
  from assms obtain ds1 xs w1 where 1: "diverge_loop e ens w = (Inr (ds1, xs), w1)"
    by (auto simp: syncDivergence_def split: sum.splits prod.splits)
  note a = diverge_loop_planned [OF 1]
  show ?thesis
  proof (cases "xs = []")
    case True
    with assms 1 a show ?thesis by (auto simp: syncDivergence_def list_all_iff)
  next
    case False
    with assms 1 obtain ms where ms: "compareExisting e (sort_key en_Path xs) w1 = (Inr ms, w')" "ds = sort_key en_Path (ds1 @ ms)"
      by (auto simp: syncDivergence_def split: sum.splits prod.splits)
    then have "list_all (planned (sort_key en_Path xs)) ms"
      by (auto simp: compareExisting_def split: sum.splits prod.splits intro: compare_loop_planned)
    then have "planned ens m" if "m \<in> set ms" for m
      using that a planned_mono [of "sort_key en_Path xs" m ens] by (auto simp: list_all_iff)
    with a ms(2) show ?thesis by (auto simp: list_all_iff)
  qed
qed

subsection \<open>A dry run\<close>

lemma classify_residue_log: "sy_log (snd (classify_residue e rs w)) = sy_log w"
proof (induction rs arbitrary: w)
  case Nil
  then show ?case by simp
next
  case (Cons r rs)
  obtain pr w1 where 1: "syncProbePath e (rs_Path r) w = (pr, w1)" by force
  have "sy_log w1 = sy_log w" using syncProbePath_keeps(2) [where w = w and e = e and p = "rs_Path r"] 1 by simp
  with 1 Cons.IH [of w1] show ?case by (auto simp: Let_def split: sum.splits option.splits)
qed

lemma syncDryRun_log: "sy_log (snd (syncDryRun e x ds rs w)) = sy_log w"
proof -
  have "sy_log (snd (syncClassifyResidue e sw w')) = sy_log w'" for sw w'
    by (simp add: syncClassifyResidue_def Let_def classify_residue_log split: option.split)
  then show ?thesis
    by (simp add: syncDryRun_def WithStableCoordinationState_def Let_def split: sum.split option.split)
qed

subsection \<open>The whole run\<close>

text \<open>A removal of an untracked file with the bytes a rejected candidate is on record as having created there.\<close>

definition attributed_removal :: "sync_env \<Rightarrow> sync_git \<Rightarrow> db \<Rightarrow> mutation \<Rightarrow> bool" where
  "attributed_removal e g d m \<longleftrightarrow>
     mu_after m = None \<and> (\<exists>f out. sg_ls_files g f = Some out \<and> mu_path m \<in> set (syncUntrackedPaths out)) \<and>
     (\<exists>r \<in> set (db_events d). ev_kind r = EventCandidateRejected \<and>
        (\<exists>es blob. decodeVerdictDetail (ev_detail r) = Some es \<and> \<lparr>ce_Path = mu_path m, ce_Blob = blob\<rparr> \<in> set es \<and>
           holds_oid e (mu_path m) (mu_before m) blob))"

text \<open>A write of what the tree of the integration commit has at the path.\<close>

definition integration_write :: "sync_env \<Rightarrow> syncEntry list \<Rightarrow> mutation \<Rightarrow> bool" where
  "integration_write e ens m \<longleftrightarrow>
     (\<exists>en \<in> set ens. \<exists>c. mu_path m = en_Path en \<and> se_blob e (en_OID en) = Some c \<and>
        mu_after m = Some (FRegular c (en_Mode en = ''100755'')))"

lemma scan_residue_attributed:
  assumes "scan_residue g w = Some (rs, us)" "r \<in> set rs"
  shows "\<exists>out. sg_ls_files g (sy_files w) = Some out \<and> rs_Path r \<in> set (syncUntrackedPaths out) \<and>
    RejectedCandidateCreations (sy_db w) (rs_Path r) = Some \<lparr>rj_CandidateID = rs_CandidateID r, rj_Blob = rs_Blob r\<rparr>"
  using assms by (auto simp: scan_residue_def syncScanResidue_def List.map_filter_def)

lemma removed_attributed:
  assumes "removed e rs m" "scan_residue g w = Some (rs, us)"
  shows "attributed_removal e g (sy_db w) m"
proof -
  from assms(1) obtain r where r: "r \<in> set rs" "mu_path m = rs_Path r" "mu_after m = None"
    "holds_oid e (rs_Path r) (mu_before m) (rs_Blob r)" by (auto simp: removed_def)
  from scan_residue_attributed [OF assms(2) r(1)] obtain out where out: "sg_ls_files g (sy_files w) = Some out"
    "rs_Path r \<in> set (syncUntrackedPaths out)"
    "RejectedCandidateCreations (sy_db w) (rs_Path r) = Some \<lparr>rj_CandidateID = rs_CandidateID r, rj_Blob = rs_Blob r\<rparr>" by blast
  from RejectedCandidateCreations_SomeD [OF out(3)] obtain ev es where ev: "ev \<in> set (db_events (sy_db w))"
    "ev_kind ev = EventCandidateRejected" "decodeVerdictDetail (ev_detail ev) = Some es"
    "\<lparr>ce_Path = rs_Path r, ce_Blob = rs_Blob r\<rparr> \<in> set es" by auto
  show ?thesis unfolding attributed_removal_def r(2)
    using r(3,4) out(1,2) ev by blast
qed

lemma wrote_planned:
  assumes "wrote e ds m" "list_all (planned ens) ds"
  shows "integration_write e ens m"
proof -
  from assms(1) obtain d c where d: "d \<in> set ds" "mu_path m = en_Path d" "se_blob e (en_OID d) = Some c"
    "mu_after m = Some (FRegular c (en_Mode d = ''100755''))" unfolding wrote_def by blast
  with assms(2) planned_fields [of ens d] show ?thesis
    unfolding integration_write_def by (auto simp: list_all_iff)
qed

definition touches_only :: "sync_env \<Rightarrow> sync_git \<Rightarrow> sync_world \<Rightarrow> mutation \<Rightarrow> bool" where
  "touches_only e g w m \<longleftrightarrow>
     (\<exists>sha tree. sy_integ w = Some sha \<and> mu_integ m = Some sha \<and> sg_ls_tree g sha = Some tree \<and>
        (integration_write e (syncIntegrationEntries tree) m \<or> attributed_removal e g (sy_db w) m))"

lemma runSync_cases:
  assumes "runSync e g dry w = ((code, rep), w')"
  obtains (idle) "sy_log w' = sy_log w"
  | (run) sha tree diffs w1 rs us where "sy_integ w = Some sha" "sg_ls_tree g sha = Some tree"
      "syncDivergence e (syncIntegrationEntries tree) w = (Inr diffs, w1)" "scan_residue g (act e w1) = Some (rs, us)"
      "w' = snd (syncStoreDecideApply e sha (snd (partitionSkipped diffs)) rs dry (act e w1))"
proof -
  show ?thesis
  proof (cases "sg_ref_ok g \<and> sy_integ w \<noteq> None")
    case False
    with assms show ?thesis by (intro idle) (auto simp: runSync_def split: option.splits if_splits)
  next
    case True
    then obtain sha where sha: "sg_ref_ok g" "sy_integ w = Some sha" by auto
    obtain c refused where rf: "refuseIfBehindHead (sg_head g) (sg_ancestor g) sha = (c, refused)" by force
    show ?thesis
    proof (cases "refused \<or> sg_ls_tree g sha = None")
      case True
      with assms sha rf show ?thesis by (intro idle) (auto simp: runSync_def split: option.splits if_splits)
    next
      case False
      then obtain tree where tree: "\<not> refused" "sg_ls_tree g sha = Some tree" by auto
      obtain dv w1 where dv: "syncDivergence e (syncIntegrationEntries tree) w = (dv, w1)" by force
      have rd: "sy_log w1 = sy_log w" using syncDivergence_reads [of w e "syncIntegrationEntries tree"] dv by (simp add: only_read_def)
      show ?thesis
      proof (cases "dv")
        case (Inl er)
        with assms sha rf tree dv rd show ?thesis by (intro idle) (auto simp: runSync_def)
      next
        case (Inr diffs)
        show ?thesis
        proof (cases "scan_residue g (act e w1)")
          case None
          with assms sha rf tree dv rd Inr show ?thesis by (intro idle) (auto simp: runSync_def)
        next
          case (Some ru)
          obtain rs us where ru: "ru = (rs, us)" by force
          show ?thesis
          proof (cases "diffs = [] \<and> rs = [] \<and> us = []")
            case True
            with assms sha rf tree dv rd Inr Some ru show ?thesis by (intro idle) (auto simp: runSync_def)
          next
            case False
            with assms sha rf tree dv Inr Some ru show ?thesis
              by (intro run [of sha tree diffs w1 rs us])
                 (auto simp: runSync_def case_prod_beta split: option.splits prod.splits)
          qed
        qed
      qed
    qed
  qed
qed

lemma runSync_acts:
  assumes "runSync e g dry w = ((code, rep), w')"
  shows "\<exists>ms. sy_log w' = sy_log w @ ms \<and> (dry \<longrightarrow> ms = []) \<and> (\<forall>m \<in> set ms. touches_only e g w m)"
  using assms
proof (cases rule: runSync_cases)
  case idle
  then show ?thesis by simp
next
  case (run sha tree diffs w1 rs us)
  have rd: "only_read w (act e w1)" using syncDivergence_reads [of w e "syncIntegrationEntries tree"] run(3) by simp
  show ?thesis
  proof (cases dry)
    case True
    with run(5) rd syncDryRun_log [of e sha "snd (partitionSkipped diffs)" rs "act e w1"] show ?thesis
      by (simp add: syncStoreDecideApply_def only_read_def)
  next
    case False
    let ?ds = "snd (partitionSkipped diffs)"
    obtain ms where ms: "sy_log w' = sy_log (act e w1) @ ms" "\<forall>m \<in> set ms. authorized e sha ?ds rs m"
      using syncStoreDecideApply_ran [of e sha ?ds rs "act e w1"] run(5) False unfolding ran_def by auto
    have pl: "list_all (planned (syncIntegrationEntries tree)) ?ds"
      using syncDivergence_planned [OF run(3)] by (auto simp: partitionSkipped_def list_all_iff)
    have "touches_only e g w m" if m: "m \<in> set ms" for m
    proof -
      from ms(2) m have "mu_integ m = Some sha" "wrote e ?ds m \<or> removed e rs m" by (auto simp: authorized_def)
      then show ?thesis
        using wrote_planned [OF _ pl] removed_attributed [OF _ run(4)] run(1,2) rd
        unfolding touches_only_def only_read_def by auto
    qed
    with ms rd False show ?thesis by (intro exI [of _ ms]) (simp add: only_read_def)
  qed
qed

subsection \<open>A file that was promoted after a rejection\<close>

text \<open>The candidate \<open>k1\<close> was rejected and is on record as having created \<open>a.go\<close>.  Its content was then promoted,
  so the integration tree has it; \<open>HEAD\<close> does not, and git lists the file as untracked.\<close>

definition ex_tree :: string where
  "ex_tree = ''100644 blob 11'' @ [CHR 0x09] @ ''a.go'' @ [NUL]"

definition ex_sync_git :: sync_git where
  "ex_sync_git = \<lparr>sg_ref_ok = True, sg_head = Some ''h'', sg_ancestor = (\<lambda>a b. Some False),
     sg_ls_tree = (\<lambda>sha. Some ex_tree), sg_ls_files = (\<lambda>f. Some (''a.go'' @ [NUL]))\<rparr>"

definition ex_promoted_env :: sync_env where
  "ex_promoted_env = ex_sync_env\<lparr>se_edit := (\<lambda>n f. f), se_hash_stdin := (\<lambda>f s. Some [CHR ''1'', CHR ''1'', CHR 0x0A])\<rparr>"

definition ex_promoted_world :: "event_row list \<Rightarrow> sync_world" where
  "ex_promoted_world evs = \<lparr>sy_files = [''a.go'' \<mapsto> FRegular ''11'' False], sy_db = empty_db\<lparr>db_events := evs\<rparr>,
     sy_integ = Some ''i2'', sy_ctx = \<lparr>Now = 0, Live = None, CaseFold = False, MyWorktree = []\<rparr>,
     sy_tick = 0, sy_sec = 0, sy_log = []\<rparr>"

definition ex_go_residue :: syncResidue where
  "ex_go_residue = \<lparr>rs_Path = ''a.go'', rs_CandidateID = ''k1'', rs_Blob = ''11''\<rparr>"

lemma ex_tree_entries:
  "syncIntegrationEntries ex_tree = [\<lparr>en_Path = ''a.go'', en_Mode = ''100644'', en_OID = ''11''\<rparr>]"
  by code_simp

definition ex_scanned :: "event_row list \<Rightarrow> (sync_error + syncDiff list) \<times> sync_world" where
  "ex_scanned evs = syncDivergence ex_promoted_env (syncIntegrationEntries ex_tree) (ex_promoted_world evs)"

lemma ex_no_divergence: "(case fst (ex_scanned evs) of Inr ds \<Rightarrow> ds = [] | Inl er \<Rightarrow> False)"
  by code_simp

lemma ex_go_deleted:
  "(case syncStoreDecideApply ex_promoted_env ''i2'' [] [ex_go_residue] False (act ex_promoted_env (snd (ex_scanned evs))) of
      ((er, out), w) \<Rightarrow> (er, so_Deleted out, so_Conflicts out, sy_files w ''a.go'')) = (None, [ex_go_residue], [], None)"
  by code_simp

lemma ex_scan_residue:
  "scan_residue ex_sync_git (act ex_promoted_env (snd (ex_scanned (db_events ex_rejected)))) = Some ([ex_go_residue], [])"
proof -
  let ?w = "act ex_promoted_env (snd (ex_scanned (db_events ex_rejected)))"
  have "sy_db ?w = empty_db\<lparr>db_events := db_events ex_rejected\<rparr>"
    using syncDivergence_reads [of "ex_promoted_world (db_events ex_rejected)" ex_promoted_env "syncIntegrationEntries ex_tree"]
    by (simp add: ex_scanned_def only_read_def ex_promoted_world_def)
  then have c: "RejectedCandidateCreations (sy_db ?w) p = RejectedCandidateCreations ex_rejected p" for p
    by (simp add: RejectedCandidateCreations_def rejection_rows_def)
  have u: "syncUntrackedPaths (''a.go'' @ [NUL]) = [''a.go'']" by code_simp
  have "scan_residue ex_sync_git ?w = Some (syncScanResidue [''a.go'']
      (\<lambda>p. map_option (\<lambda>rc. (rj_CandidateID rc, rj_Blob rc)) (RejectedCandidateCreations ex_rejected p)))"
    unfolding scan_residue_def c by (simp only: ex_sync_git_def sync_git.simps option.map u)
  also have "\<dots> = Some ([ex_go_residue], [])"
    by (simp add: syncScanResidue_def List.map_filter_def ex_rejected_creation ex_go_residue_def)
  finally show ?thesis .
qed

definition ex_promoted_run :: "(int \<times> sync_report) \<times> sync_world" where
  "ex_promoted_run = runSync ex_promoted_env ex_sync_git False (ex_promoted_world (db_events ex_rejected))"

lemma ex_promoted_run_deletes:
  "\<exists>out w'. ex_promoted_run = ((0, SyncReport out [] []), w') \<and> so_Deleted out = [ex_go_residue] \<and> sy_files w' ''a.go'' = None"
proof -
  let ?evs = "db_events ex_rejected"
  obtain w1 where d: "ex_scanned ?evs = (Inr [], w1)"
    using ex_no_divergence [of ?evs] by (cases "ex_scanned ?evs") (auto split: sum.splits)
  obtain er out w' where r: "syncStoreDecideApply ex_promoted_env ''i2'' [] [ex_go_residue] False
      (act ex_promoted_env w1) = ((er, out), w')" by (metis prod.exhaust)
  have rd: "er = None" "so_Deleted out = [ex_go_residue]" "so_Conflicts out = []" "sy_files w' ''a.go'' = None"
    using ex_go_deleted [of ?evs] unfolding d snd_conv r by simp_all
  have sr: "scan_residue ex_sync_git (act ex_promoted_env w1) = Some ([ex_go_residue], [])"
    using ex_scan_residue unfolding d by simp
  have g: "sg_ref_ok ex_sync_git" "sg_head ex_sync_git = Some ''h''" "sg_ancestor ex_sync_git = (\<lambda>a b. Some False)"
    "sg_ls_tree ex_sync_git = (\<lambda>sha. Some ex_tree)" "sy_integ (ex_promoted_world ?evs) = Some ''i2''"
    unfolding ex_sync_git_def ex_promoted_world_def by simp_all
  have "ex_promoted_run = ((0, SyncReport out [] []), w')"
    unfolding ex_promoted_run_def runSync_def g(2-)
    by (simp add: g(1) refuseIfBehindHead_def partitionSkipped_def sync_exit_def d sr r rd flip: ex_scanned_def)
  with rd show ?thesis by blast
qed

subsection \<open>Properties\<close>



text \<open>A file the integration commit has, with the content it has, is deleted as residue: the attribution of a
  rejection outlives the promotion of the same content, until retention drops the event.\<close>

theorem runSync_deletes_promoted_file:
  "\<exists>out w'. ex_promoted_run = ((0, SyncReport out [] []), w') \<and> map rs_Path (so_Deleted out) = [''a.go''] \<and>
     sy_files w' ''a.go'' = None \<and> sy_files (ex_promoted_world (db_events ex_rejected)) ''a.go'' = Some (FRegular ''11'' False) \<and>
     syncIntegrationEntries ex_tree = [\<lparr>en_Path = ''a.go'', en_Mode = ''100644'', en_OID = ''11''\<rparr>]"
proof -
  obtain out w' where r: "ex_promoted_run = ((0, SyncReport out [] []), w')" "so_Deleted out = [ex_go_residue]"
    "sy_files w' ''a.go'' = None"
    using ex_promoted_run_deletes by (elim exE conjE) (rule that, assumption+)
  have "map rs_Path (so_Deleted out) = [''a.go'']" unfolding r(2) by (simp add: ex_go_residue_def)
  moreover have "sy_files (ex_promoted_world (db_events ex_rejected)) ''a.go'' = Some (FRegular ''11'' False)"
    by (simp add: ex_promoted_world_def)
  ultimately show ?thesis
    by (rule_tac exI [of _ out], rule_tac exI [of _ w'], intro conjI r(1) r(3) ex_tree_entries)
qed

end
