(* ===== verification/ObjectStore.thy ===== *)
theory ObjectStore
  imports Decode Envelope
begin

text \<open>
  \<open>gate/objectstore.go\<close>: the JSON text an envelope is stored under as a git object, reading it back,
  and the checks every reader of a candidate reference goes through.  A nil slice and an empty one are
  the same list here, and the epoch map has its keys in the write set, as \<open>Capture\<close> leaves it.
\<close>

subsection \<open>Writing\<close>

definition toWireBlobRef :: "BlobRef option \<Rightarrow> json" where
  "toWireBlobRef b = (case b of None \<Rightarrow> JNull | Some r \<Rightarrow> JObj [(''sha'', JStr (br_SHA r)), (''mode'', JStr (br_Mode r))])"

definition wireTransition :: "Transition \<Rightarrow> json" where
  "wireTransition t =
     JObj [(''path'', JStr (tr_Path t)), (''expected'', toWireBlobRef (tr_Expected t)), (''result'', toWireBlobRef (tr_Result t))]"

text \<open>A Go map is written in the order of its keys.\<close>

definition lease_keys :: "Envelope \<Rightarrow> string list" where
  "lease_keys e = filter (\<lambda>p. env_LeaseEpoch e p \<noteq> None) (sort (remdups (env_WriteSet e)))"

definition wireEnvelope :: "Envelope \<Rightarrow> json" where
  "wireEnvelope e =
     JObj [(''candidate_id'', JStr (env_CandidateID e)), (''proposal_sha'', JStr (env_ProposalSHA e)),
       (''base'', JStr (env_Base e)), (''agent_uuid'', JStr (env_AgentUUID e)), (''session_uuid'', JStr (env_SessionUUID e)),
       (''bead_id'', JStr (env_BeadID e)), (''write_set'', JArr (map JStr (env_WriteSet e))),
       (''transitions'', JArr (map wireTransition (env_Transitions e))),
       (''ancestry'', JArr (map (\<lambda>a. JObj [(''path'', JStr (an_Path a))]) (env_Ancestry e))),
       (''lease_epoch'', JObj (map (\<lambda>k. (k, JNum (format_int (map_at (env_LeaseEpoch e) k)))) (lease_keys e)))]"

definition Encode :: "Envelope \<Rightarrow> string" where
  "Encode e = encode_indented (wireEnvelope e)"

subsection \<open>Reading\<close>

datatype decode_error = ErrDecodeJSON | ErrMalformedEnvelope | ErrCatFile

definition fromWireBlobRef :: "json \<Rightarrow> BlobRef option" where
  "fromWireBlobRef j =
     Option.bind (as_struct j) (\<lambda>ms.
     Option.bind (as_string (json_field ''sha'' ms)) (\<lambda>sha.
     Option.bind (as_string (json_field ''mode'' ms)) (\<lambda>mode. Some \<lparr>br_SHA = sha, br_Mode = mode\<rparr>)))"

definition fromWireTransition :: "json \<Rightarrow> Transition option" where
  "fromWireTransition j =
     Option.bind (as_struct j) (\<lambda>ms.
     Option.bind (as_string (json_field ''path'' ms)) (\<lambda>path.
     Option.bind (as_pointer fromWireBlobRef (json_field ''expected'' ms)) (\<lambda>ex.
     Option.bind (as_pointer fromWireBlobRef (json_field ''result'' ms)) (\<lambda>res.
       Some \<lparr>tr_Path = path, tr_Expected = ex, tr_Result = res\<rparr>))))"

definition fromWireAncestry :: "json \<Rightarrow> AncestryEntry option" where
  "fromWireAncestry j =
     Option.bind (as_struct j) (\<lambda>ms. map_option AncestryEntry (as_string (json_field ''path'' ms)))"

fun as_epochs :: "json option \<Rightarrow> (string \<Rightarrow> int option) option" where
  "as_epochs None = Some (\<lambda>_. None)"
| "as_epochs (Some JNull) = Some (\<lambda>_. None)"
| "as_epochs (Some (JObj ms)) =
     map_option (\<lambda>vs. map_of (rev (zip (map fst ms) vs))) (all_some (map (\<lambda>m. as_int64 (Some (snd m))) ms))"
| "as_epochs (Some j) = None"

definition fromWireEnvelope :: "json \<Rightarrow> Envelope option" where
  "fromWireEnvelope j =
     Option.bind (as_struct j) (\<lambda>ms.
     Option.bind (as_string (json_field ''candidate_id'' ms)) (\<lambda>cid.
     Option.bind (as_string (json_field ''proposal_sha'' ms)) (\<lambda>psha.
     Option.bind (as_string (json_field ''base'' ms)) (\<lambda>base.
     Option.bind (as_string (json_field ''agent_uuid'' ms)) (\<lambda>agent.
     Option.bind (as_string (json_field ''session_uuid'' ms)) (\<lambda>session.
     Option.bind (as_string (json_field ''bead_id'' ms)) (\<lambda>bead.
     Option.bind (as_list (\<lambda>x. as_string (Some x)) (json_field ''write_set'' ms)) (\<lambda>ws.
     Option.bind (as_list fromWireTransition (json_field ''transitions'' ms)) (\<lambda>ts.
     Option.bind (as_list fromWireAncestry (json_field ''ancestry'' ms)) (\<lambda>an.
     Option.bind (as_epochs (json_field ''lease_epoch'' ms)) (\<lambda>le.
       Some \<lparr>env_CandidateID = cid, env_ProposalSHA = psha, env_Base = base, env_AgentUUID = agent,
         env_SessionUUID = session, env_BeadID = bead, env_WriteSet = ws, env_Transitions = ts,
         env_Ancestry = an, env_LeaseEpoch = le\<rparr>)))))))))))"

definition validateWireEnvelope :: "Envelope \<Rightarrow> bool" where
  "validateWireEnvelope w \<longleftrightarrow>
     env_CandidateID w \<noteq> [] \<and> env_ProposalSHA w \<noteq> [] \<and> env_BeadID w \<noteq> [] \<and> env_WriteSet w \<noteq> [] \<and>
     length (env_Transitions w) = length (env_WriteSet w)"

definition DecodeEnvelope :: "string \<Rightarrow> decode_error + Envelope" where
  "DecodeEnvelope data =
     (case parse_json data of
        None \<Rightarrow> Inl ErrDecodeJSON
      | Some j \<Rightarrow>
          (case fromWireEnvelope j of
             None \<Rightarrow> Inl ErrDecodeJSON
           | Some w \<Rightarrow> if validateWireEnvelope w then Inr w else Inl ErrMalformedEnvelope))"

text \<open>\<open>git hash-object -w\<close> and \<open>git cat-file -p\<close> are parameters.\<close>

definition WriteBlob :: "(string \<Rightarrow> string option) \<Rightarrow> Envelope \<Rightarrow> string option" where
  "WriteBlob hash_object e = map_option trim_space (hash_object (Encode e))"

definition ReadBlob :: "(string \<Rightarrow> string option) \<Rightarrow> string \<Rightarrow> decode_error + Envelope" where
  "ReadBlob cat_file sha = (case cat_file sha of None \<Rightarrow> Inl ErrCatFile | Some data \<Rightarrow> DecodeEnvelope data)"

subsection \<open>Reading back what was written\<close>

definition scrub_ref :: "BlobRef \<Rightarrow> BlobRef" where
  "scrub_ref r = \<lparr>br_SHA = scrub (br_SHA r), br_Mode = scrub (br_Mode r)\<rparr>"

definition scrub_transition :: "Transition \<Rightarrow> Transition" where
  "scrub_transition t = \<lparr>tr_Path = scrub (tr_Path t), tr_Expected = map_option scrub_ref (tr_Expected t),
     tr_Result = map_option scrub_ref (tr_Result t)\<rparr>"

definition scrub_envelope :: "Envelope \<Rightarrow> Envelope" where
  "scrub_envelope e = \<lparr>env_CandidateID = scrub (env_CandidateID e), env_ProposalSHA = scrub (env_ProposalSHA e),
     env_Base = scrub (env_Base e), env_AgentUUID = scrub (env_AgentUUID e), env_SessionUUID = scrub (env_SessionUUID e),
     env_BeadID = scrub (env_BeadID e), env_WriteSet = map scrub (env_WriteSet e),
     env_Transitions = map scrub_transition (env_Transitions e),
     env_Ancestry = map (\<lambda>a. AncestryEntry (scrub (an_Path a))) (env_Ancestry e),
     env_LeaseEpoch = map_of (rev (map (\<lambda>k. (scrub k, map_at (env_LeaseEpoch e) k)) (lease_keys e)))\<rparr>"

text \<open>The field names: folded, distinct, and plain ASCII.\<close>

definition wire_names :: "string list" where
  "wire_names = [''candidate_id'', ''proposal_sha'', ''base'', ''agent_uuid'', ''session_uuid'', ''bead_id'', ''write_set'',
     ''transitions'', ''ancestry'', ''lease_epoch'']"

definition small_names :: "string list" where
  "small_names = [''path'', ''expected'', ''result'', ''sha'', ''mode'']"

lemma wire_names_lower: "list_all (\<lambda>k. to_lower k = k) wire_names" "list_all (\<lambda>k. to_lower k = k) small_names"
  by code_simp+

lemma wire_names_distinct: "distinct wire_names" "distinct small_names"
  by code_simp+

lemma names_ascii: "list_all (list_all (\<lambda>c. byte c < 0x80)) wire_names" "list_all (list_all (\<lambda>c. byte c < 0x80)) small_names"
  by code_simp+

lemma scrub_wire_names [simp]:
  "scrub ''candidate_id'' = ''candidate_id''" "scrub ''proposal_sha'' = ''proposal_sha''" "scrub ''base'' = ''base''"
  "scrub ''agent_uuid'' = ''agent_uuid''" "scrub ''session_uuid'' = ''session_uuid''" "scrub ''bead_id'' = ''bead_id''"
  "scrub ''write_set'' = ''write_set''" "scrub ''transitions'' = ''transitions''" "scrub ''ancestry'' = ''ancestry''"
  "scrub ''lease_epoch'' = ''lease_epoch''" "scrub ''path'' = ''path''" "scrub ''expected'' = ''expected''"
  "scrub ''result'' = ''result''" "scrub ''sha'' = ''sha''" "scrub ''mode'' = ''mode''"
  using names_ascii unfolding wire_names_def small_names_def list.pred_inject
  by (auto intro: scrub_ascii)

lemma json_field_named:
  assumes "list_all (\<lambda>k. to_lower k = k) (map fst ms)" "distinct (map fst ms)" "(k, v) \<in> set ms"
  shows "json_field k ms = Some v"
proof (rule json_field_distinct)
  have "map (\<lambda>m. to_lower (fst m)) ms = map fst ms" using assms(1) by (auto simp: list_all_iff)
  with assms(2) show "distinct (map (\<lambda>m. to_lower (fst m)) ms)" by (simp only:)
qed (fact assms(3))

lemma small_fields:
  "json_field ''sha'' [(''sha'', a), (''mode'', b)] = Some a" "json_field ''mode'' [(''sha'', a), (''mode'', b)] = Some b"
  "json_field ''path'' [(''path'', a), (''expected'', b), (''result'', c)] = Some a"
  "json_field ''expected'' [(''path'', a), (''expected'', b), (''result'', c)] = Some b"
  "json_field ''result'' [(''path'', a), (''expected'', b), (''result'', c)] = Some c"
  "json_field ''path'' [(''path'', a)] = Some a"
  using wire_names_lower(2) by (auto intro!: json_field_named simp: small_names_def)

lemma as_pointer_ref:
  "as_pointer fromWireBlobRef (Some (scrub_json (toWireBlobRef b))) = Some (map_option scrub_ref b)"
proof (cases b)
  case None
  then show ?thesis by (simp add: toWireBlobRef_def)
next
  case (Some r)
  have "scrub_json (toWireBlobRef b) = JObj [(''sha'', JStr (scrub (br_SHA r))), (''mode'', JStr (scrub (br_Mode r)))]"
    by (simp only: toWireBlobRef_def Some option.case scrub_json.simps list.map fst_conv snd_conv scrub_wire_names)
  with Some show ?thesis
    by (simp only: as_pointer.simps fromWireBlobRef_def as_struct.simps bind.simps small_fields as_string.simps option.map scrub_ref_def)
qed

lemma fromWireTransition_scrub: "fromWireTransition (scrub_json (wireTransition t)) = Some (scrub_transition t)"
proof -
  have "scrub_json (wireTransition t) = JObj [(''path'', JStr (scrub (tr_Path t))),
      (''expected'', scrub_json (toWireBlobRef (tr_Expected t))), (''result'', scrub_json (toWireBlobRef (tr_Result t)))]"
    by (simp only: wireTransition_def scrub_json.simps list.map fst_conv snd_conv scrub_wire_names)
  then show ?thesis
    by (simp only: fromWireTransition_def as_struct.simps bind.simps small_fields as_string.simps as_pointer_ref scrub_transition_def)
qed

lemma fromWireAncestry_scrub:
  "fromWireAncestry (scrub_json (JObj [(''path'', JStr (an_Path a))])) = Some (AncestryEntry (scrub (an_Path a)))"
  by (simp only: scrub_json.simps list.map fst_conv snd_conv scrub_wire_names fromWireAncestry_def as_struct.simps bind.simps
      small_fields as_string.simps option.map)

definition epochs_ok :: "Envelope \<Rightarrow> bool" where
  "epochs_ok e \<longleftrightarrow> (\<forall>p v. env_LeaseEpoch e p = Some v \<longrightarrow> p \<in> set (env_WriteSet e) \<and> 0 \<le> v \<and> v < 2 ^ 63)"

lemma lease_keys_epoch: "epochs_ok e \<Longrightarrow> k \<in> set (lease_keys e) \<Longrightarrow> 0 \<le> map_at (env_LeaseEpoch e) k \<and> map_at (env_LeaseEpoch e) k < 2 ^ 63"
  by (auto simp: epochs_ok_def lease_keys_def map_at_def)

lemma as_epochs_scrub:
  assumes "epochs_ok e"
  shows "as_epochs (Some (JObj (map (\<lambda>k. (scrub k, JNum (format_int (map_at (env_LeaseEpoch e) k)))) (lease_keys e)))) =
    Some (env_LeaseEpoch (scrub_envelope e))"
proof -
  let ?v = "map_at (env_LeaseEpoch e)"
  have "all_some (map (\<lambda>k. parse_int64 (format_int (?v k))) (lease_keys e)) = Some (map ?v (lease_keys e))"
    by (rule all_some_map) (use lease_keys_epoch [OF assms] parse_format_int64 in blast)
  then show ?thesis
    by (simp add: comp_def scrub_envelope_def zip_map_map) (simp add: zip_same_conv_map comp_def)
qed

lemma numbers_ok_ref [simp]: "numbers_ok (toWireBlobRef b)"
  by (cases b) (simp_all add: toWireBlobRef_def)

lemma numbers_ok_envelope: "epochs_ok e \<Longrightarrow> numbers_ok (wireEnvelope e)"
  by (auto simp: wireEnvelope_def list_all_iff wireTransition_def intro: number_ok_format dest: lease_keys_epoch)

lemma fromWireEnvelope_scrub:
  assumes "epochs_ok e"
  shows "fromWireEnvelope (scrub_json (wireEnvelope e)) = Some (scrub_envelope e)"
proof -
  let ?ms = "[(''candidate_id'', JStr (scrub (env_CandidateID e))), (''proposal_sha'', JStr (scrub (env_ProposalSHA e))),
       (''base'', JStr (scrub (env_Base e))), (''agent_uuid'', JStr (scrub (env_AgentUUID e))),
       (''session_uuid'', JStr (scrub (env_SessionUUID e))),
       (''bead_id'', JStr (scrub (env_BeadID e))), (''write_set'', JArr (map (\<lambda>p. JStr (scrub p)) (env_WriteSet e))),
       (''transitions'', JArr (map (\<lambda>t. scrub_json (wireTransition t)) (env_Transitions e))),
       (''ancestry'', JArr (map (\<lambda>a. scrub_json (JObj [(''path'', JStr (an_Path a))])) (env_Ancestry e))),
       (''lease_epoch'', JObj (map (\<lambda>k. (scrub k, JNum (format_int (map_at (env_LeaseEpoch e) k)))) (lease_keys e)))]"
  have j: "scrub_json (wireEnvelope e) = JObj ?ms"
    by (simp only: wireEnvelope_def scrub_json.simps(1-3) list.map fst_conv snd_conv scrub_wire_names map_map comp_def scrub_json.simps(6))
  have names: "map fst ?ms = wire_names" by (simp only: list.map fst_conv wire_names_def)
  have f: "json_field k ?ms = Some v" if "(k, v) \<in> set ?ms" for k v
    using that wire_names_lower(1) wire_names_distinct(1) unfolding names [symmetric] by (intro json_field_named)
  have fs: "json_field ''candidate_id'' ?ms = Some (JStr (scrub (env_CandidateID e)))"
    "json_field ''proposal_sha'' ?ms = Some (JStr (scrub (env_ProposalSHA e)))"
    "json_field ''base'' ?ms = Some (JStr (scrub (env_Base e)))"
    "json_field ''agent_uuid'' ?ms = Some (JStr (scrub (env_AgentUUID e)))"
    "json_field ''session_uuid'' ?ms = Some (JStr (scrub (env_SessionUUID e)))"
    "json_field ''bead_id'' ?ms = Some (JStr (scrub (env_BeadID e)))"
    "json_field ''write_set'' ?ms = Some (JArr (map (\<lambda>p. JStr (scrub p)) (env_WriteSet e)))"
    "json_field ''transitions'' ?ms = Some (JArr (map (\<lambda>t. scrub_json (wireTransition t)) (env_Transitions e)))"
    "json_field ''ancestry'' ?ms = Some (JArr (map (\<lambda>a. scrub_json (JObj [(''path'', JStr (an_Path a))])) (env_Ancestry e)))"
    "json_field ''lease_epoch'' ?ms = Some (JObj (map (\<lambda>k. (scrub k, JNum (format_int (map_at (env_LeaseEpoch e) k)))) (lease_keys e)))"
    by (rule f, simp)+
  have ls: "all_some (map (\<lambda>x. as_string (Some x)) (map (\<lambda>p. JStr (scrub p)) (env_WriteSet e))) = Some (map scrub (env_WriteSet e))"
    "all_some (map fromWireTransition (map (\<lambda>t. scrub_json (wireTransition t)) (env_Transitions e))) = Some (map scrub_transition (env_Transitions e))"
    "all_some (map fromWireAncestry (map (\<lambda>a. scrub_json (JObj [(''path'', JStr (an_Path a))])) (env_Ancestry e))) =
      Some (map (\<lambda>a. AncestryEntry (scrub (an_Path a))) (env_Ancestry e))"
    unfolding map_map comp_def
    by (rule all_some_map, simp only: as_string.simps fromWireTransition_scrub fromWireAncestry_scrub)+
  show ?thesis
    unfolding fromWireEnvelope_def j as_struct.simps bind.simps fs as_string.simps as_list.simps ls as_epochs_scrub [OF assms]
    by (simp add: scrub_envelope_def)
qed

lemma DecodeEnvelope_scrubs:
  assumes "epochs_ok e"
  shows "DecodeEnvelope (Encode e) = (if validateWireEnvelope (scrub_envelope e) then Inr (scrub_envelope e) else Inl ErrMalformedEnvelope)"
  by (simp add: DecodeEnvelope_def Encode_def parse_encode_indented [OF numbers_ok_envelope [OF assms]]
      fromWireEnvelope_scrub [OF assms])

subsection \<open>UTF-8 envelopes\<close>

definition utf8_ref :: "BlobRef option \<Rightarrow> bool" where
  "utf8_ref b \<longleftrightarrow> (case b of None \<Rightarrow> True | Some r \<Rightarrow> valid_utf8 (br_SHA r) \<and> valid_utf8 (br_Mode r))"

definition utf8_envelope :: "Envelope \<Rightarrow> bool" where
  "utf8_envelope e \<longleftrightarrow>
     list_all valid_utf8 [env_CandidateID e, env_ProposalSHA e, env_Base e, env_AgentUUID e, env_SessionUUID e, env_BeadID e] \<and>
     list_all valid_utf8 (env_WriteSet e) \<and>
     list_all (\<lambda>t. valid_utf8 (tr_Path t) \<and> utf8_ref (tr_Expected t) \<and> utf8_ref (tr_Result t)) (env_Transitions e) \<and>
     list_all (\<lambda>a. valid_utf8 (an_Path a)) (env_Ancestry e)"

lemma scrub_ref_valid: "utf8_ref b \<Longrightarrow> map_option scrub_ref b = b"
  by (cases b) (simp_all add: utf8_ref_def scrub_ref_def scrub_valid)

lemma map_of_rev_keys:
  assumes "distinct ks"
  shows "map_of (rev (map (\<lambda>k. (k, f k)) ks)) = (\<lambda>k. if k \<in> set ks then Some (f k) else None)"
proof
  fix k
  have "map_of (map (\<lambda>k. (k, f k)) (rev ks)) k = (if k \<in> set (rev ks) then Some (f k) else None)"
    by (induction "rev ks" rule: list.induct) (auto simp: map_of_map_restrict restrict_map_def)
  then show "map_of (rev (map (\<lambda>k. (k, f k)) ks)) k = (if k \<in> set ks then Some (f k) else None)"
    by (simp add: rev_map)
qed

lemma scrub_envelope_valid:
  assumes "utf8_envelope e" "epochs_ok e"
  shows "scrub_envelope e = e"
proof -
  have ws: "map scrub (env_WriteSet e) = env_WriteSet e"
    using assms(1) by (auto simp: utf8_envelope_def list_all_iff scrub_valid intro!: map_idI)
  have ts: "map scrub_transition (env_Transitions e) = env_Transitions e"
    using assms(1) by (auto simp: utf8_envelope_def list_all_iff scrub_transition_def scrub_valid scrub_ref_valid intro!: map_idI)
  have an: "map (\<lambda>a. AncestryEntry (scrub (an_Path a))) (env_Ancestry e) = env_Ancestry e"
    using assms(1) by (auto simp: utf8_envelope_def list_all_iff scrub_valid intro!: map_idI)
  have keys: "set (lease_keys e) = {k. env_LeaseEpoch e k \<noteq> None}" "distinct (lease_keys e)"
    using assms(2) by (auto simp: lease_keys_def epochs_ok_def)
  have sk: "map (\<lambda>k. (scrub k, map_at (env_LeaseEpoch e) k)) (lease_keys e) = map (\<lambda>k. (k, map_at (env_LeaseEpoch e) k)) (lease_keys e)"
    using assms(1) by (auto simp: lease_keys_def utf8_envelope_def list_all_iff scrub_valid)
  have le: "map_of (rev (map (\<lambda>k. (scrub k, map_at (env_LeaseEpoch e) k)) (lease_keys e))) = env_LeaseEpoch e"
    unfolding sk map_of_rev_keys [OF keys(2)] keys(1) by (auto simp: map_at_def split: option.splits)
  show ?thesis
    using assms(1) by (simp add: scrub_envelope_def ws ts an le utf8_envelope_def scrub_valid)
qed

lemma Capture_storable:
  assumes "Capture git p = Inr env" "\<forall>wp \<in> set (cap_WriteSet p). 0 \<le> map_at (cap_LeaseEpoch p) wp \<and> map_at (cap_LeaseEpoch p) wp < 2 ^ 63"
  shows "validateWireEnvelope env" "epochs_ok env"
proof -
  have "CaptureParams_validate p = None" using assms(1) by (auto simp: Capture_def split: option.splits)
  then have ne: "cap_ProposalSHA p \<noteq> []" "cap_CandidateID p \<noteq> []" "cap_BeadID p \<noteq> []" "cap_WriteSet p \<noteq> []"
    by (auto simp: CaptureParams_validate_def split: if_splits)
  have f: "env_CandidateID env = cap_CandidateID p" "env_ProposalSHA env = cap_ProposalSHA p" "env_BeadID env = cap_BeadID p"
    "env_WriteSet env = sort (cap_WriteSet p)"
    "env_LeaseEpoch env = (\<lambda>wp. if wp \<in> set (cap_WriteSet p) then Some (map_at (cap_LeaseEpoch p) wp) else None)"
    using assms(1) by (auto simp: Capture_def Let_def split: option.splits sum.splits)
  have "length (env_Transitions env) = length (env_WriteSet env)"
    using list_all2_lengthD [OF Capture_transitions [OF assms(1)]] by simp
  with ne f show "validateWireEnvelope env" by (simp add: validateWireEnvelope_def)
  show "epochs_ok env" using assms(2) f by (auto simp: epochs_ok_def split: if_splits)
qed

text \<open>C37: 
  C0: what is captured is what is read back.  An envelope minted by \<open>Capture\<close>, written as a git object and
  read again is the same envelope, field by field, whenever its text is UTF-8; it passes the checks
  every reader makes.
\<close>

theorem captured_envelope_reads_back:
  assumes "Capture git p = Inr env"
    and "\<forall>wp \<in> set (cap_WriteSet p). 0 \<le> map_at (cap_LeaseEpoch p) wp \<and> map_at (cap_LeaseEpoch p) wp < 2 ^ 63"
    and "utf8_envelope env"
  shows "DecodeEnvelope (Encode env) = Inr env"
  using DecodeEnvelope_scrubs [of env] scrub_envelope_valid [of env] Capture_storable [OF assms(1,2)] assms(3) by simp

theorem captured_envelope_reads_back_witness:
  "\<exists>env. Capture ex_git ex_capture = Inr env \<and> env_WriteSet env = [''a/b.go''] \<and> DecodeEnvelope (Encode env) = Inr env"
proof -
  obtain env where e: "Capture ex_git ex_capture = Inr env" using ex_capture_ok by blast
  have b: "\<forall>wp \<in> set (cap_WriteSet ex_capture). 0 \<le> map_at (cap_LeaseEpoch ex_capture) wp \<and> map_at (cap_LeaseEpoch ex_capture) wp < 2 ^ 63"
    by (simp add: ex_capture_def map_at_def)
  have "(case Capture ex_git ex_capture of Inl er \<Rightarrow> False | Inr env \<Rightarrow>
      (let A = list_all (\<lambda>c. byte c < 0x80); R = (\<lambda>b. case b of None \<Rightarrow> True | Some r \<Rightarrow> A (br_SHA r) \<and> A (br_Mode r))
       in list_all A [env_CandidateID env, env_ProposalSHA env, env_Base env, env_AgentUUID env, env_SessionUUID env, env_BeadID env] \<and>
          list_all A (env_WriteSet env) \<and>
          list_all (\<lambda>t. A (tr_Path t) \<and> R (tr_Expected t) \<and> R (tr_Result t)) (env_Transitions env) \<and>
          list_all (\<lambda>a. A (an_Path a)) (env_Ancestry env)))"
    by code_simp
  then have "utf8_envelope env"
    unfolding e Let_def utf8_envelope_def utf8_ref_def sum.case
    by (elim conjE, intro conjI) (auto elim!: list.pred_mono_strong intro: ascii_valid split: option.splits)
  with captured_envelope_reads_back [OF e b] Capture_Inr [OF e] e show ?thesis
    by (intro exI [of _ env]) (auto simp: ex_capture_def)
qed

subsection \<open>A path that is not UTF-8\<close>

text \<open>An accented letter in Latin-1 is one byte, here E9.\<close>

definition ex_latin :: Envelope where
  "ex_latin = \<lparr>env_CandidateID = ''c'', env_ProposalSHA = ''p'', env_Base = [], env_AgentUUID = ''a'', env_SessionUUID = ''s'',
     env_BeadID = ''b'', env_WriteSet = [[CHR 0xE9]],
     env_Transitions = [\<lparr>tr_Path = [CHR 0xE9], tr_Expected = None, tr_Result = None\<rparr>],
     env_Ancestry = [], env_LeaseEpoch = [[CHR 0xE9] \<mapsto> 3]\<rparr>"

theorem Encode_loses_bytes:
  "\<exists>env. DecodeEnvelope (Encode ex_latin) = Inr env \<and> env_WriteSet ex_latin = [[CHR 0xE9]] \<and> env_WriteSet env = [replacement]"
proof -
  have "epochs_ok ex_latin" by (simp add: ex_latin_def epochs_ok_def)
  then have d: "DecodeEnvelope (Encode ex_latin) =
      (if validateWireEnvelope (scrub_envelope ex_latin) then Inr (scrub_envelope ex_latin) else Inl ErrMalformedEnvelope)"
    by (rule DecodeEnvelope_scrubs)
  have sc: "scrub [CHR 0xE9] = replacement" "scrub ''c'' = ''c''" "scrub ''p'' = ''p''" "scrub ''b'' = ''b''"
    by (simp_all add: byte_def)
  have w: "env_WriteSet (scrub_envelope ex_latin) = [replacement]"
    by (simp add: scrub_envelope_def ex_latin_def sc del: scrub.simps)
  have v: "validateWireEnvelope (scrub_envelope ex_latin)"
    by (simp add: validateWireEnvelope_def scrub_envelope_def ex_latin_def sc del: scrub.simps)
  have "env_WriteSet ex_latin = [[CHR 0xE9]]" by (simp add: ex_latin_def)
  with d w v show ?thesis by (intro exI [of _ "scrub_envelope ex_latin"]) (simp only: if_True simp_thms)
qed

end
