(* ===== verification/Doctor.thy ===== *)
theory Doctor
  imports Claims Refresh Refs Decode "HOL-Library.Word"
begin

unbundle bit_operations_syntax

text \<open>
  \<open>store/doctor.go\<close>, with \<open>sidecar.go\<close> and \<open>chmod.go\<close>: the audit, the repair, and the two ways the
  doctor gives a file its owner-write bit back.

  The disk is a table of inodes and a map from names to directory entries, so that two names can
  share an inode.  Every system call is preceded by \<open>sys\<close>, which lets peers change the disk and
  decides whether the call fails.  \<open>dw_chmods\<close> is a ghost: the mode changes the doctor made.
\<close>

subsection \<open>The disk\<close>

record inode =
  in_regular :: bool
  in_perm :: "9 word"
  in_special :: "3 word"
  in_nlink :: nat

text \<open>An entry is missing, cannot be looked at (with the text of the error), is a symbolic link (with
  the inode it resolves to, if it does), or names an inode.\<close>

datatype entry =
    Missing
  | Denied string
  | Symlink "nat option"
  | Hard nat

record disk =
  dk_name :: "string \<Rightarrow> entry"
  dk_inode :: "nat \<Rightarrow> inode"

record disk_env =
  de_peers :: "nat \<Rightarrow> disk \<Rightarrow> disk"
  de_fails :: "nat \<Rightarrow> string option"

record chmod =
  ch_path :: string
  ch_inode :: nat
  ch_before :: inode
  ch_after :: inode

record dworld =
  dw_disk :: disk
  dw_tick :: nat
  dw_chmods :: "chmod list"

definition sys :: "disk_env \<Rightarrow> dworld \<Rightarrow> string option \<times> dworld" where
  "sys e w = (de_fails e (dw_tick w),
     w\<lparr>dw_disk := de_peers e (dw_tick w) (dw_disk w), dw_tick := Suc (dw_tick w)\<rparr>)"

subsection \<open>chmod.go\<close>

text \<open>Go's errors: \<open>fs.ErrNotExist\<close>, which callers test for, and a \<open>PathError\<close> with its operation.\<close>

datatype path_error = NotExist | PathError string string string

fun path_error_text :: "path_error \<Rightarrow> string" where
  "path_error_text NotExist = ''file does not exist''"
| "path_error_text (PathError oper p reason) = oper @ '' '' @ p @ '': '' @ reason"

definition errNotRegular :: string where "errNotRegular = ''not a regular file''"
definition errMultiLinked :: string where "errMultiLinked = ''multiple hardlinks''"
definition errLoop :: string where "errLoop = ''too many levels of symbolic links''"

text \<open>\<open>os.OpenFile\<close> with \<open>O_NOFOLLOW\<close>, then \<open>Stat\<close> on the open file, which is bound to its inode.\<close>

definition safeOpenRegular :: "disk_env \<Rightarrow> string \<Rightarrow> dworld \<Rightarrow> (path_error + nat) \<times> dworld" where
  "safeOpenRegular e p w =
     (case sys e w of (f, w1) \<Rightarrow>
       (case dk_name (dw_disk w1) p of
          Missing \<Rightarrow> (Inl NotExist, w1)
        | Denied t \<Rightarrow> (Inl (PathError ''open'' p t), w1)
        | Symlink _ \<Rightarrow> (Inl (PathError ''open'' p errLoop), w1)
        | Hard n \<Rightarrow>
            (case f of
               Some t \<Rightarrow> (Inl (PathError ''open'' p t), w1)
             | None \<Rightarrow>
                 (case sys e w1 of (f2, w2) \<Rightarrow>
                   (case f2 of
                      Some t \<Rightarrow> (Inl (PathError ''stat'' p t), w2)
                    | None \<Rightarrow>
                        if \<not> in_regular (dk_inode (dw_disk w2) n)
                        then (Inl (PathError ''open'' p errNotRegular), w2)
                        else (Inr n, w2))))))"

definition permAfterNlinkCheck ::
  "disk_env \<Rightarrow> nat \<Rightarrow> string \<Rightarrow> string \<Rightarrow> dworld \<Rightarrow> (path_error + 9 word) \<times> dworld" where
  "permAfterNlinkCheck e n p oper w =
     (case sys e w of (f, w1) \<Rightarrow>
       (case f of
          Some t \<Rightarrow> (Inl (PathError ''stat'' p t), w1)
        | None \<Rightarrow>
            if in_nlink (dk_inode (dw_disk w1) n) > 1 then (Inl (PathError oper p errMultiLinked), w1)
            else (Inr (in_perm (dk_inode (dw_disk w1) n)), w1)))"

text \<open>\<open>f.Chmod\<close> sets the permission bits and, since the mode it is given carries none of them, clears
  the set-user, set-group and sticky bits.\<close>

definition fchmod :: "disk_env \<Rightarrow> nat \<Rightarrow> string \<Rightarrow> 9 word \<Rightarrow> dworld \<Rightarrow> path_error option \<times> dworld" where
  "fchmod e n p m w =
     (case sys e w of (f, w1) \<Rightarrow>
       (case f of
          Some t \<Rightarrow> (Some (PathError ''chmod'' p t), w1)
        | None \<Rightarrow>
            let old = dk_inode (dw_disk w1) n; new = old\<lparr>in_perm := m, in_special := 0\<rparr> in
            (None, w1\<lparr>dw_disk := (dw_disk w1)\<lparr>dk_inode := (dk_inode (dw_disk w1))(n := new)\<rparr>,
               dw_chmods := dw_chmods w1 @
                 [\<lparr>ch_path = p, ch_inode = n, ch_before = old, ch_after = new\<rparr>]\<rparr>)))"

definition owner_write :: "9 word" where "owner_write = 0x80"

definition restoreWrite :: "disk_env \<Rightarrow> string \<Rightarrow> dworld \<Rightarrow> path_error option \<times> dworld" where
  "restoreWrite e p w =
     (case safeOpenRegular e p w of
        (Inl NotExist, w1) \<Rightarrow> (None, w1)
      | (Inl er, w1) \<Rightarrow> (Some er, w1)
      | (Inr n, w1) \<Rightarrow>
          (case permAfterNlinkCheck e n p ''restorewrite'' w1 of
             (Inl er, w2) \<Rightarrow> (Some er, w2)
           | (Inr perm, w2) \<Rightarrow> fchmod e n p (perm OR owner_write) w2))"

text \<open>\<open>lacksOwnerWrite\<close> looks with \<open>Lstat\<close>.\<close>

definition lacksOwnerWrite :: "disk_env \<Rightarrow> string \<Rightarrow> dworld \<Rightarrow> bool \<times> dworld" where
  "lacksOwnerWrite e p w =
     (case sys e w of (f, w1) \<Rightarrow>
       (case dk_name (dw_disk w1) p of
          Hard n \<Rightarrow> (f = None \<and> in_regular (dk_inode (dw_disk w1) n) \<and>
                    in_perm (dk_inode (dw_disk w1) n) AND owner_write = 0, w1)
        | _ \<Rightarrow> (False, w1)))"

subsection \<open>sidecar.go\<close>

record ccSidecar =
  sc_PID :: int
  sc_CWD :: string

record SidecarFinding =
  sf_PID :: int
  sf_Target :: string
  sf_Reason :: string
  sf_Detail :: string

definition SidecarReasonNoSidecar :: string where "SidecarReasonNoSidecar = ''no-cc-sidecar''"
definition SidecarReasonCwdMismatch :: string where "SidecarReasonCwdMismatch = ''cc-cwd-mismatch''"

definition DefaultSidecarDir :: "string option \<Rightarrow> string" where
  "DefaultSidecarDir home =
     (case home of None \<Rightarrow> []
      | Some h \<Rightarrow> if h = [] then [] else path_clean (h @ ''/.claude/sessions''))"

text \<open>What \<open>os.ReadFile\<close> gives.\<close>

datatype file_read = ReadMissing | ReadFailed | ReadBytes string

datatype sidecar_error = SidecarAbsent | SidecarUnreadable

definition sidecarMissing :: "sidecar_error \<Rightarrow> bool" where
  "sidecarMissing er \<longleftrightarrow> er = SidecarAbsent"

definition decode_sidecar :: "string \<Rightarrow> ccSidecar option" where
  "decode_sidecar b =
     Option.bind (Option.bind (parse_json b) as_struct) (\<lambda>ms.
       case (as_int64 (json_field ''pid'' ms), as_string (json_field ''cwd'' ms)) of
         (Some pid, Some cwd) \<Rightarrow> Some \<lparr>sc_PID = pid, sc_CWD = cwd\<rparr>
       | _ \<Rightarrow> None)"

definition readSidecar :: "(string \<Rightarrow> file_read) \<Rightarrow> string \<Rightarrow> int \<Rightarrow> sidecar_error + ccSidecar" where
  "readSidecar rd dir pid =
     (if dir = [] then Inl SidecarAbsent
      else case rd (filepath_join dir (format_int pid @ ''.json'')) of
             ReadMissing \<Rightarrow> Inl SidecarAbsent
           | ReadFailed \<Rightarrow> Inl SidecarUnreadable
           | ReadBytes b \<Rightarrow> (case decode_sidecar b of None \<Rightarrow> Inl SidecarUnreadable | Some c \<Rightarrow> Inr c))"

record SidecarCheck =
  sk_SidecarDir :: string
  sk_RepoTop :: string

definition checkSidecar :: "(string \<Rightarrow> file_read) \<Rightarrow> LockRecord \<Rightarrow> SidecarCheck \<Rightarrow> SidecarFinding option" where
  "checkSidecar rd l sc =
     (case readSidecar rd (sk_SidecarDir sc) (l_PID l) of
        Inl er \<Rightarrow>
          if sidecarMissing er
          then Some \<lparr>sf_PID = l_PID l, sf_Target = Canonical (l_Target l),
                     sf_Reason = SidecarReasonNoSidecar, sf_Detail = []\<rparr>
          else None
      | Inr got \<Rightarrow>
          if sk_RepoTop sc = [] \<or> sc_CWD got = [] then None
          else if sc_CWD got \<noteq> sk_RepoTop sc
          then Some \<lparr>sf_PID = l_PID l, sf_Target = Canonical (l_Target l),
                     sf_Reason = SidecarReasonCwdMismatch, sf_Detail = sc_CWD got\<rparr>
          else None)"

subsection \<open>The audit\<close>

record DoctorReport =
  dr_StaleLocks :: "LockRecord list"
  dr_ExpiredTerritoryTags :: "TerritoryTag list"
  dr_StaleCandidateClaims :: "CandidateClaim list"
  dr_SidecarFindings :: "SidecarFinding list"
  dr_IntegrityOK :: bool
  dr_IntegrityDetail :: string

text \<open>The loop over the held locks: the stale ones, and the findings of the others.\<close>

fun audit_locks ::
  "(string \<Rightarrow> file_read) \<Rightarrow> EvalContext \<Rightarrow> string \<Rightarrow> bool \<Rightarrow> SidecarCheck \<Rightarrow> LockRecord list \<Rightarrow>
     LockRecord list \<times> SidecarFinding list" where
  "audit_locks rd ec thisHost hostKnown sc [] = ([], [])"
| "audit_locks rd ec thisHost hostKnown sc (l # ls) =
     (case audit_locks rd ec thisHost hostKnown sc ls of (stale, found) \<Rightarrow>
        if IsStale ec l then (l # stale, found)
        else if hostKnown \<and> l_PID l > 0 \<and> l_Host l = thisHost \<and> sk_SidecarDir sc \<noteq> []
        then (case checkSidecar rd l sc of Some f \<Rightarrow> (stale, f # found) | None \<Rightarrow> (stale, found))
        else (stale, found))"

definition promotableCandidates ::
  "store \<Rightarrow> 'e ref_env_scheme \<Rightarrow> (string \<Rightarrow> refs \<Rightarrow> string option) \<Rightarrow> 'w world_scheme \<Rightarrow>
     string list option \<times> 'w world_scheme" where
  "promotableCandidates s e names w =
     (if s_repoTop s = [] then (None, w) else ListCandidateIDs e names w)"

definition collectStaleCandidateClaims ::
  "store \<Rightarrow> 'e ref_env_scheme \<Rightarrow> (string \<Rightarrow> refs \<Rightarrow> string option) \<Rightarrow> EvalContext \<Rightarrow> db \<Rightarrow>
     'w world_scheme \<Rightarrow> CandidateClaim list \<times> 'w world_scheme" where
  "collectStaleCandidateClaims s e names ec d w =
     (let claims = ListCandidateClaims d in
      if claims = [] then ([], w)
      else case promotableCandidates s e names w of
             (None, w1) \<Rightarrow> ([], w1)
           | (Some promotable, w1) \<Rightarrow>
               (filter (\<lambda>c. cc_CandidateID c \<notin> set promotable \<and> CandidateClaimIsAbandoned ec c) claims, w1))"

text \<open>\<open>runIntegrityCheck\<close> over the lines of \<open>PRAGMA integrity_check\<close>.\<close>

definition runIntegrityCheck :: "string list \<Rightarrow> bool \<times> string" where
  "runIntegrityCheck ls =
     (let ok = (ls = [''ok'']) in (ok, if ok then ''ok'' else join_with ''; '' ls))"

definition DoctorAudit ::
  "store \<Rightarrow> io \<Rightarrow> string \<Rightarrow> bool \<Rightarrow> SidecarCheck \<Rightarrow> (string \<Rightarrow> file_read) \<Rightarrow> string list \<Rightarrow>
     'e ref_env_scheme \<Rightarrow> (string \<Rightarrow> refs \<Rightarrow> string option) \<Rightarrow> db \<Rightarrow> 'w world_scheme \<Rightarrow>
     DoctorReport \<times> 'w world_scheme" where
  "DoctorAudit s i thisHost hostKnown sc rd integrity e names d w =
     (let ec = eval_ctx s i in
      case audit_locks rd ec thisHost hostKnown sc (ListLocks d) of (stale, found) \<Rightarrow>
      case collectStaleCandidateClaims s e names ec d w of (claims, w1) \<Rightarrow>
      case runIntegrityCheck integrity of (ok, detail) \<Rightarrow>
        (\<lparr>dr_StaleLocks = stale, dr_ExpiredTerritoryTags = ExpiredTerritoryTags (Now ec) d,
          dr_StaleCandidateClaims = claims, dr_SidecarFindings = found,
          dr_IntegrityOK = ok, dr_IntegrityDetail = detail\<rparr>, w1))"

subsection \<open>The repair\<close>

fun reclaimStaleLocks ::
  "store \<Rightarrow> LockRecord list \<Rightarrow> EvalContext \<Rightarrow> string \<Rightarrow> time \<Rightarrow> db \<Rightarrow> db" where
  "reclaimStaleLocks s [] ec byAgent now d = d"
| "reclaimStaleLocks s (l # ls) ec byAgent now d =
     (if \<not> IsStale ec l then reclaimStaleLocks s ls ec byAgent now d
      else reclaimStaleLocks s ls ec byAgent now (reclaimStaleTx s l byAgent now d))"

text \<open>The closure \<open>add\<close>, then its calls on the lock targets and on the distinct event targets.\<close>

definition live_targets :: "LockRecord list \<Rightarrow> EvalContext \<Rightarrow> string list" where
  "live_targets lks ec = map (\<lambda>l. Canonical (l_Target l)) (filter (\<lambda>l. \<not> IsStale ec l) lks)"

definition add_candidate :: "string list \<Rightarrow> string \<Rightarrow> string list \<Rightarrow> string list" where
  "add_candidate live p out =
     (if p = [] \<or> p \<in> set out \<or> p \<in> set live then out else out @ [p])"

definition chmodEraCandidates :: "LockRecord list \<Rightarrow> EvalContext \<Rightarrow> db \<Rightarrow> string list" where
  "chmodEraCandidates lks ec d =
     (let live = live_targets lks ec;
          out = fold (add_candidate live) (map (\<lambda>l. Canonical (l_Target l)) lks) [];
          named = filter (\<lambda>p. p \<noteq> []) (remdups (map ev_target_canonical (db_events d)))
      in sort (fold (add_candidate live) named out))"

definition resolveChmodEraCandidate :: "string \<Rightarrow> string \<Rightarrow> string option" where
  "resolveChmodEraCandidate repoTop p =
     (if has_prefix p ''/'' then Some p
      else if repoTop = [] then None else Some (filepath_join repoTop p))"

definition modeRestoreFailedEvent :: "string \<Rightarrow> string \<Rightarrow> time \<Rightarrow> path_error \<Rightarrow> Event" where
  "modeRestoreFailedEvent p byAgent now cause =
     \<lparr>e_ID = [], e_Target = Target p, e_Kind = EventModeRestoreFailed, e_ActorUUID = byAgent,
      e_SubjectUUID = [],
      e_Reason = ''mode_restore_failed: '' @ path_error_text cause @ '' on '' @ p,
      e_Detail = [], e_CreatedAt = now\<rparr>"

fun restoreChmodEraFiles ::
  "disk_env \<Rightarrow> string \<Rightarrow> string list \<Rightarrow> string \<Rightarrow> time \<Rightarrow> dworld \<Rightarrow> Event list \<times> dworld" where
  "restoreChmodEraFiles e repoTop [] byAgent now w = ([], w)"
| "restoreChmodEraFiles e repoTop (p # ps) byAgent now w =
     (case resolveChmodEraCandidate repoTop p of
        None \<Rightarrow> restoreChmodEraFiles e repoTop ps byAgent now w
      | Some target \<Rightarrow>
          (case lacksOwnerWrite e target w of
             (False, w1) \<Rightarrow> restoreChmodEraFiles e repoTop ps byAgent now w1
           | (True, w1) \<Rightarrow>
               (case restoreWrite e target w1 of
                  (None, w2) \<Rightarrow> restoreChmodEraFiles e repoTop ps byAgent now w2
                | (Some er, w2) \<Rightarrow>
                    (case restoreChmodEraFiles e repoTop ps byAgent now w2 of (evs, w3) \<Rightarrow>
                       (modeRestoreFailedEvent p byAgent now er # evs, w3)))))"

text \<open>The transaction of a repair, from the rows it loads to its commit: the tables and the candidates
  of the migration, which are read before the events are rotated.\<close>

definition repair_tx ::
  "store \<Rightarrow> io \<Rightarrow> AgentUUID \<Rightarrow> string list option \<Rightarrow> db \<Rightarrow> db \<times> string list" where
  "repair_tx s i agent promotable d =
     (let lks = loadLocksTx d; now = io_now i; ec = eval_ctx s i;
          d1 = reclaimStaleLocks s lks ec agent now d;
          candidates = chmodEraCandidates lks ec d1;
          d2 = gcTagsTx now (rotateEventsTx now d1);
          d3 = (case promotable of None \<Rightarrow> d2 | Some ids \<Rightarrow> snd (gcCandidateClaimsTx ec ids d2))
      in (gcTerritoryTagsTx now d3, candidates))"

text \<open>\<open>DoctorRepair\<close>: the references first, then the flock, the transaction, the files under the still
  held flock, the audit of the failures in a transaction of its own.  \<open>VACUUM\<close> changes no row.\<close>

definition DoctorRepair ::
  "store \<Rightarrow> io \<Rightarrow> AgentUUID \<Rightarrow> 'e ref_env_scheme \<Rightarrow> (string \<Rightarrow> refs \<Rightarrow> string option) \<Rightarrow> disk_env \<Rightarrow>
     db \<Rightarrow> 'w world_scheme \<Rightarrow> dworld \<Rightarrow> (store_error + db \<times> dworld) \<times> 'w world_scheme" where
  "DoctorRepair s i agent e names de d w dw =
     (case promotableCandidates s e names w of (promotable, w1) \<Rightarrow>
       (if \<not> io_flock i then Inl ErrFlock
        else if \<not> io_begin i then Inl ErrBegin
        else if \<not> io_commit i then Inl ErrCommit
        else case repair_tx s i agent promotable d of (d1, candidates) \<Rightarrow>
             case restoreChmodEraFiles de (s_repoTop s) candidates agent (io_now i) dw of (evs, dw1) \<Rightarrow>
               Inr (if evs = [] then d1 else snd (appendAuditDetached s i evs d1), dw1), w1))"

subsection \<open>Orphaned modes\<close>

datatype orphan_error = OrphanNoRepoTop string | OrphanStore store_error

definition validateOrphanRoot :: "store \<Rightarrow> string list \<Rightarrow> orphan_error option" where
  "validateOrphanRoot s ps =
     (if s_repoTop s = []
      then map_option OrphanNoRepoTop (find (\<lambda>p. has_prefix p ''/'') ps)
      else if \<not> has_prefix (s_repoTop s) ''/'' then Some (OrphanNoRepoTop (s_repoTop s))
      else None)"

definition lockedPathSet :: "store \<Rightarrow> EvalContext \<Rightarrow> db \<Rightarrow> string list" where
  "lockedPathSet s ec d =
     map (\<lambda>l. let c = Canonical (l_Target l) in if s_repoTop s = [] then c else filepath_join (s_repoTop s) c)
       (filter (\<lambda>l. \<not> IsStale ec l) (ListLocks d))"

definition write_bits :: "9 word" where "write_bits = 0x92"

text \<open>\<open>os.Stat\<close> follows a symbolic link.\<close>

definition stat :: "disk_env \<Rightarrow> string \<Rightarrow> dworld \<Rightarrow> inode option \<times> dworld" where
  "stat e p w =
     (case sys e w of (f, w1) \<Rightarrow>
       (case dk_name (dw_disk w1) p of
          Hard n \<Rightarrow> (if f = None then Some (dk_inode (dw_disk w1) n) else None, w1)
        | Symlink (Some n) \<Rightarrow> (if f = None then Some (dk_inode (dw_disk w1) n) else None, w1)
        | _ \<Rightarrow> (None, w1)))"

fun scan_orphans :: "disk_env \<Rightarrow> string list \<Rightarrow> string list \<Rightarrow> dworld \<Rightarrow> string list \<times> dworld" where
  "scan_orphans e owned [] w = ([], w)"
| "scan_orphans e owned (p # ps) w =
     (case stat e p w of (st, w1) \<Rightarrow>
       (case scan_orphans e owned ps w1 of (out, w2) \<Rightarrow>
         (case st of
            None \<Rightarrow> (out, w2)
          | Some x \<Rightarrow>
              if \<not> in_regular x then (out, w2)
              else if in_perm x AND write_bits \<noteq> 0 then (out, w2)
              else if p \<in> set owned then (out, w2)
              else (p # out, w2))))"

definition ScanOrphanModes ::
  "store \<Rightarrow> io \<Rightarrow> string list \<Rightarrow> disk_env \<Rightarrow> db \<Rightarrow> dworld \<Rightarrow> (orphan_error + string list) \<times> dworld" where
  "ScanOrphanModes s i ps e d w =
     (if ps = [] then (Inr [], w)
      else case validateOrphanRoot s ps of
             Some er \<Rightarrow> (Inl er, w)
           | None \<Rightarrow>
               (case scan_orphans e (lockedPathSet s (eval_ctx s i) d) ps w of (out, w1) \<Rightarrow>
                  (Inr (sort out), w1)))"

fun restore_orphans ::
  "disk_env \<Rightarrow> string list \<Rightarrow> string list \<Rightarrow> dworld \<Rightarrow> (string list \<times> (string \<times> path_error) list) \<times> dworld" where
  "restore_orphans e owned [] w = (([], []), w)"
| "restore_orphans e owned (p # ps) w =
     (if p \<in> set owned then restore_orphans e owned ps w
      else case restoreWrite e p w of (er, w1) \<Rightarrow>
           case restore_orphans e owned ps w1 of ((restored, failures), w2) \<Rightarrow>
             (case er of
                Some x \<Rightarrow> ((restored, (p, x) # failures), w2)
              | None \<Rightarrow> ((p # restored, failures), w2)))"

definition RestoreOrphanMode ::
  "store \<Rightarrow> io \<Rightarrow> string list \<Rightarrow> disk_env \<Rightarrow> db \<Rightarrow> dworld \<Rightarrow>
     (orphan_error + string list \<times> (string \<times> path_error) list) \<times> dworld" where
  "RestoreOrphanMode s i ps e d w =
     (case validateOrphanRoot s ps of
        Some er \<Rightarrow> (Inl er, w)
      | None \<Rightarrow>
          if \<not> io_flock i then (Inl (OrphanStore ErrFlock), w)
          else case restore_orphans e (lockedPathSet s (eval_ctx s i) d) ps w of (r, w1) \<Rightarrow> (Inr r, w1))"

subsection \<open>What a repair writes\<close>

lemma reclaimStaleLocks_locks:
  "db_locks (reclaimStaleLocks s ls ec a now d) =
     filter (\<lambda>r. lock_pk r \<notin> lock_key_of ` set (filter (IsStale ec) ls)) (db_locks d)"
proof (induction ls arbitrary: d)
  case Nil
  then show ?case by simp
next
  case (Cons l ls)
  then show ?case
    by (auto simp: delete_lock_row_def filter_filter intro!: filter_cong)
qed

lemma reclaimStaleLocks_frame [frame_simps]:
  "db_path_epochs (reclaimStaleLocks s ls ec a now d) = db_path_epochs d"
  "db_tags (reclaimStaleLocks s ls ec a now d) = db_tags d"
  "db_territory_tags (reclaimStaleLocks s ls ec a now d) = db_territory_tags d"
  "db_candidate_claims (reclaimStaleLocks s ls ec a now d) = db_candidate_claims d"
  "db_violations (reclaimStaleLocks s ls ec a now d) = db_violations d"
  "db_hook_calls (reclaimStaleLocks s ls ec a now d) = db_hook_calls d"
  by (induction ls arbitrary: d) (simp_all add: frame_simps)

lemma pk_uniqueD: "pk_unique rows \<Longrightarrow> r \<in> set rows \<Longrightarrow> r' \<in> set rows \<Longrightarrow> lock_pk r = lock_pk r' \<Longrightarrow> r = r'"
  unfolding pk_unique_def by (metis distinct_map inj_onD)

lemma reclaim_all_stale:
  assumes "pk_unique (db_locks d)"
  shows "db_locks (reclaimStaleLocks s (loadLocksTx d) ec a now d) =
    filter (\<lambda>r. \<not> IsStale ec (scanLock (db_hook_calls d) r)) (db_locks d)"
  unfolding reclaimStaleLocks_locks
proof (rule filter_cong [OF refl])
  fix r assume r: "r \<in> set (db_locks d)"
  have "lock_pk r \<in> lock_key_of ` set (filter (IsStale ec) (loadLocksTx d)) \<longleftrightarrow>
      (\<exists>l \<in> set (loadLocksTx d). IsStale ec l \<and> lock_pk r = lock_key_of l)"
    by (simp add: image_iff Bex_def)
  also have "\<dots> \<longleftrightarrow>
      (\<exists>r' \<in> set (db_locks d). IsStale ec (scanLock (db_hook_calls d) r') \<and> lock_pk r = lock_pk r')"
    by (simp add: loadLocksTx_def scanLocksRows_def)
  also have "\<dots> \<longleftrightarrow> IsStale ec (scanLock (db_hook_calls d) r)"
    using pk_uniqueD [OF assms r] r by metis
  finally show "(lock_pk r \<notin> lock_key_of ` set (filter (IsStale ec) (loadLocksTx d))) =
      (\<not> IsStale ec (scanLock (db_hook_calls d) r))" by simp
qed

text \<open>What the sweep of the claims keeps.\<close>

definition claim_kept :: "EvalContext \<Rightarrow> string list option \<Rightarrow> CandidateClaim \<Rightarrow> bool" where
  "claim_kept ec promotable c \<longleftrightarrow>
     (case promotable of None \<Rightarrow> True
      | Some ids \<Rightarrow> cc_CandidateID c \<in> set ids \<or> \<not> CandidateClaimIsAbandoned ec c)"

definition tag_old :: "time \<Rightarrow> time option \<Rightarrow> bool" where
  "tag_old now acked \<longleftrightarrow> (case acked of None \<Rightarrow> False | Some a \<Rightarrow> a < now - tagsRetentionAge)"

lemma scan_id: "cc_CandidateID (scanCandidateClaim r) = cr_candidate_id r"
  by (simp add: scanCandidateClaim_def)

lemma repair_tx_tables:
  fixes s i a prom d
  assumes "pk_unique (db_locks d)"
    "uniform_verdicts (eval_ctx s i) (map scanCandidateClaim (db_candidate_claims d))"
  defines "d' \<equiv> fst (repair_tx s i a prom d)"
  shows "db_locks d' = filter (\<lambda>r. \<not> IsStale (eval_ctx s i) (scanLock (db_hook_calls d) r)) (db_locks d)"
    and "db_candidate_claims d' =
      filter (\<lambda>r. claim_kept (eval_ctx s i) prom (scanCandidateClaim r)) (db_candidate_claims d)"
    and "db_territory_tags d' =
      filter (\<lambda>n. \<not> (tt_ExpiresAt n \<le> io_now i \<or> tag_old (io_now i) (tt_AckedAt n))) (db_territory_tags d)"
    and "db_tags d' = filter (\<lambda>g. \<not> tag_old (io_now i) (tag_AckedAt g))
      (filter (\<lambda>g. list_ex (host_of False g) (db_locks d')) (db_tags d))"
    and "db_path_epochs d' = db_path_epochs d" "db_violations d' = db_violations d"
      "db_hook_calls d' = db_hook_calls d"
proof -
  let ?ec = "eval_ctx s i"
  let ?d2 = "gcTagsTx (io_now i) (rotateEventsTx (io_now i)
      (reclaimStaleLocks s (loadLocksTx d) ?ec a (io_now i) d))"
  let ?d3 = "case prom of None \<Rightarrow> ?d2 | Some ids \<Rightarrow> snd (gcCandidateClaimsTx ?ec ids ?d2)"
  have d': "d' = gcTerritoryTagsTx (io_now i) ?d3"
    by (simp add: d'_def repair_tx_def Let_def)
  have c2: "db_candidate_claims ?d2 = db_candidate_claims d"
    by (simp add: frame_simps)
  have d3: "?d3 = ?d2\<lparr>db_candidate_claims :=
      filter (\<lambda>r. claim_kept ?ec prom (scanCandidateClaim r)) (db_candidate_claims d)\<rparr>"
  proof (cases prom)
    case None
    then show ?thesis using c2 by (simp add: claim_kept_def)
  next
    case (Some ids)
    have "snd (gcCandidateClaimsTx ?ec ids ?d2) = ?d2\<lparr>db_candidate_claims :=
        filter (\<lambda>r. cr_candidate_id r \<in> set ids \<or> \<not> CandidateClaimIsAbandoned ?ec (scanCandidateClaim r))
          (db_candidate_claims ?d2)\<rparr>"
      using gcCandidateClaimsTx_exact [of ?ec ?d2 ids] assms(2) unfolding c2 by blast
    then show ?thesis unfolding c2 using Some by (simp add: claim_kept_def scan_id)
  qed
  note tx = d' [unfolded d3]
  show l: "db_locks d' = filter (\<lambda>r. \<not> IsStale ?ec (scanLock (db_hook_calls d) r)) (db_locks d)"
    unfolding tx by (simp add: gcTerritoryTagsTx_def frame_simps reclaim_all_stale [OF assms(1)])
  show "db_candidate_claims d' = filter (\<lambda>r. claim_kept ?ec prom (scanCandidateClaim r)) (db_candidate_claims d)"
    unfolding tx by (simp add: gcTerritoryTagsTx_def)
  show "db_territory_tags d' =
      filter (\<lambda>n. \<not> (tt_ExpiresAt n \<le> io_now i \<or> tag_old (io_now i) (tt_AckedAt n))) (db_territory_tags d)"
    unfolding tx by (simp add: gcTerritoryTagsTx_def gcTagsTx_def tag_old_def frame_simps)
  have "db_locks ?d2 = db_locks d'"
    unfolding l by (simp add: frame_simps reclaim_all_stale [OF assms(1)])
  then show "db_tags d' = filter (\<lambda>g. \<not> tag_old (io_now i) (tag_AckedAt g))
      (filter (\<lambda>g. list_ex (host_of False g) (db_locks d')) (db_tags d))"
    unfolding tx
    by (auto simp: gcTerritoryTagsTx_def gcTagsTx_def tag_old_def frame_simps filter_filter
        intro!: filter_cong split: option.splits)
  show "db_path_epochs d' = db_path_epochs d" "db_violations d' = db_violations d"
      "db_hook_calls d' = db_hook_calls d"
    unfolding tx by (simp_all add: gcTerritoryTagsTx_def frame_simps)
qed

lemma appendAuditDetached_notes [frame_simps]:
  "db_territory_tags (snd (appendAuditDetached s i es d)) = db_territory_tags d"
  by (auto simp: appendAuditDetached_def appendEventsRotating_def Let_def frame_simps
      split: sum.splits prod.splits if_splits)

lemma DoctorRepair_Inr:
  assumes "DoctorRepair s i a e names de d w dw = (Inr (d', dw'), w')"
  obtains prom cands evs where "promotableCandidates s e names w = (prom, w')"
    "cands = snd (repair_tx s i a prom d)"
    "restoreChmodEraFiles de (s_repoTop s) cands a (io_now i) dw = (evs, dw')"
    "d' = (if evs = [] then fst (repair_tx s i a prom d)
           else snd (appendAuditDetached s i evs (fst (repair_tx s i a prom d))))"
    "io_flock i" "io_begin i" "io_commit i"
  using assms by (auto simp: DoctorRepair_def split: prod.splits if_splits)

lemma DoctorRepair_tables:
  assumes "DoctorRepair s i a e names de d w dw = (Inr (d', dw'), w')"
    "promotableCandidates s e names w = (prom, w1)"
  shows "db_locks d' = db_locks (fst (repair_tx s i a prom d))"
    "db_candidate_claims d' = db_candidate_claims (fst (repair_tx s i a prom d))"
    "db_territory_tags d' = db_territory_tags (fst (repair_tx s i a prom d))"
    "db_tags d' = db_tags (fst (repair_tx s i a prom d))"
    "db_path_epochs d' = db_path_epochs (fst (repair_tx s i a prom d))"
    "db_violations d' = db_violations (fst (repair_tx s i a prom d))"
    "db_hook_calls d' = db_hook_calls (fst (repair_tx s i a prom d))"
  by (rule DoctorRepair_Inr [OF assms(1)]; use assms(2) in \<open>simp add: frame_simps\<close>)+

subsection \<open>The audit predicts the repair\<close>

lemma audit_locks_stale: "fst (audit_locks rd ec h hk sc ls) = filter (IsStale ec) ls"
  by (induction ls) (auto split: prod.splits option.splits)

lemma DoctorAudit_report:
  assumes "promotableCandidates s e names w = (prom, w1)"
  shows "dr_StaleLocks (fst (DoctorAudit s i h hk sc rd ig e names d w)) =
      filter (IsStale (eval_ctx s i)) (ListLocks d)"
    "dr_ExpiredTerritoryTags (fst (DoctorAudit s i h hk sc rd ig e names d w)) =
      ExpiredTerritoryTags (io_now i) d"
    "dr_StaleCandidateClaims (fst (DoctorAudit s i h hk sc rd ig e names d w)) =
      filter (\<lambda>c. \<not> claim_kept (eval_ctx s i) prom c) (ListCandidateClaims d)"
proof -
  show "dr_StaleLocks (fst (DoctorAudit s i h hk sc rd ig e names d w)) =
      filter (IsStale (eval_ctx s i)) (ListLocks d)"
    using audit_locks_stale [of rd "eval_ctx s i" h hk sc "ListLocks d"]
    by (auto simp: DoctorAudit_def Let_def split: prod.splits)
  show "dr_ExpiredTerritoryTags (fst (DoctorAudit s i h hk sc rd ig e names d w)) =
      ExpiredTerritoryTags (io_now i) d"
    by (simp add: DoctorAudit_def Let_def eval_ctx_def split: prod.splits)
  have "fst (collectStaleCandidateClaims s e names (eval_ctx s i) d w) =
      filter (\<lambda>c. \<not> claim_kept (eval_ctx s i) prom c) (ListCandidateClaims d)"
    using assms
    by (cases prom) (simp_all add: collectStaleCandidateClaims_def Let_def claim_kept_def)
  then show "dr_StaleCandidateClaims (fst (DoctorAudit s i h hk sc rd ig e names d w)) =
      filter (\<lambda>c. \<not> claim_kept (eval_ctx s i) prom c) (ListCandidateClaims d)"
    by (auto simp: DoctorAudit_def Let_def split: prod.splits)
qed

lemma ListCandidateClaims_filter:
  "db_candidate_claims d' = filter (\<lambda>r. P (scanCandidateClaim r)) (db_candidate_claims d) \<Longrightarrow>
     ListCandidateClaims d' = filter P (ListCandidateClaims d)"
  by (simp add: ListCandidateClaims_def claim_order_def filter_map filter_sort comp_def)

lemma ListLocks_filter:
  assumes "db_hook_calls d' = db_hook_calls d"
    "db_locks d' = filter (\<lambda>r. P (scanLock (db_hook_calls d) r)) (db_locks d)"
  shows "ListLocks d' = filter P (ListLocks d)"
  using assms by (simp add: ListLocks_def scanLocksRows_def filter_map comp_def)

lemma audit_predicts_repair_aux:
  assumes "pk_unique (db_locks d)"
    and "uniform_verdicts (eval_ctx s i) (map scanCandidateClaim (db_candidate_claims d))"
    and "DoctorRepair s i a e names de d w dw = (Inr (d', dw'), w')"
    and r: "r = fst (DoctorAudit s i h hk sc rd ig e names d w)"
  shows "ListLocks d' = filter (\<lambda>l. l \<notin> set (dr_StaleLocks r)) (ListLocks d)"
    and "ListCandidateClaims d' = filter (\<lambda>c. c \<notin> set (dr_StaleCandidateClaims r)) (ListCandidateClaims d)"
    and "set (ListTerritoryTags d') \<inter> set (dr_ExpiredTerritoryTags r) = {}"
    and "ExpiredTerritoryTags (io_now i) d' = []"
proof -
  obtain prom w1 where p: "promotableCandidates s e names w = (prom, w1)"
    by (cases "promotableCandidates s e names w")
  note rep = DoctorAudit_report [OF p, where i = i and h = h and hk = hk and sc = sc and rd = rd
      and ig = ig and d = d, folded r]
  note t = DoctorRepair_tables [OF assms(3) p]
  note tx = repair_tx_tables [OF assms(1,2), of a prom]
  have "ListLocks d' = filter (\<lambda>l. \<not> IsStale (eval_ctx s i) l) (ListLocks d)"
    by (rule ListLocks_filter) (simp_all add: t tx)
  then show "ListLocks d' = filter (\<lambda>l. l \<notin> set (dr_StaleLocks r)) (ListLocks d)"
    unfolding rep by (auto intro!: filter_cong)
  have "ListCandidateClaims d' = filter (claim_kept (eval_ctx s i) prom) (ListCandidateClaims d)"
    by (rule ListCandidateClaims_filter) (simp add: t tx)
  then show "ListCandidateClaims d' = filter (\<lambda>c. c \<notin> set (dr_StaleCandidateClaims r)) (ListCandidateClaims d)"
    unfolding rep by (auto intro!: filter_cong)
  show "set (ListTerritoryTags d') \<inter> set (dr_ExpiredTerritoryTags r) = {}"
    unfolding rep by (auto simp: ListTerritoryTags_def ExpiredTerritoryTags_def territory_order_def t tx)
  show "ExpiredTerritoryTags (io_now i) d' = []"
    by (simp add: ExpiredTerritoryTags_def territory_order_def t tx filter_empty_conv) blast
qed

subsection \<open>The files\<close>

lemma sys_log [simp]: "dw_chmods (snd (sys e w)) = dw_chmods w"
  by (simp add: sys_def)

lemma safeOpenRegular_log [simp]: "dw_chmods (snd (safeOpenRegular e p w)) = dw_chmods w"
  by (simp add: safeOpenRegular_def sys_def split: entry.splits option.splits)

lemma permAfterNlinkCheck_log [simp]: "dw_chmods (snd (permAfterNlinkCheck e n p oper w)) = dw_chmods w"
  by (simp add: permAfterNlinkCheck_def sys_def split: option.splits)

lemma lacksOwnerWrite_log [simp]: "dw_chmods (snd (lacksOwnerWrite e p w)) = dw_chmods w"
  by (simp add: lacksOwnerWrite_def sys_def split: entry.splits)

lemma stat_log [simp]: "dw_chmods (snd (stat e p w)) = dw_chmods w"
  by (simp add: stat_def sys_def split: entry.splits option.splits)

text \<open>A mode change sets the owner-write bit of a mode that was read, and drops the special bits.\<close>

definition adds_owner_write :: "chmod \<Rightarrow> bool" where
  "adds_owner_write c \<longleftrightarrow> in_perm (ch_after c) AND owner_write = owner_write \<and>
     ch_after c = (ch_before c)\<lparr>in_perm := in_perm (ch_after c), in_special := 0\<rparr>"

lemma or_owner_write: "(m OR owner_write) AND owner_write = owner_write"
  by (rule bit_word_eqI) (auto simp: bit_simps)

lemma fchmod_log:
  "\<exists>cs. dw_chmods (snd (fchmod e n p (m OR owner_write) w)) = dw_chmods w @ cs \<and>
     (\<forall>c \<in> set cs. ch_path c = p \<and> adds_owner_write c)"
  by (simp add: fchmod_def sys_def Let_def adds_owner_write_def or_owner_write split: option.splits)

lemma restoreWrite_log:
  "\<exists>cs. dw_chmods (snd (restoreWrite e p w)) = dw_chmods w @ cs \<and>
     (\<forall>c \<in> set cs. ch_path c = p \<and> adds_owner_write c)"
proof -
  obtain r w1 where o: "safeOpenRegular e p w = (r, w1)" by (cases "safeOpenRegular e p w")
  then have l1: "dw_chmods w1 = dw_chmods w" by (metis safeOpenRegular_log snd_conv)
  show ?thesis
  proof (cases r)
    case (Inl er)
    with o l1 show ?thesis by (cases er) (simp_all add: restoreWrite_def)
  next
    case (Inr n)
    obtain q w2 where c: "permAfterNlinkCheck e n p ''restorewrite'' w1 = (q, w2)"
      by (cases "permAfterNlinkCheck e n p ''restorewrite'' w1")
    then have "dw_chmods w2 = dw_chmods w" using l1 by (metis permAfterNlinkCheck_log snd_conv)
    with o c Inr fchmod_log [of e n p _ w2] show ?thesis
      by (cases q) (simp_all add: restoreWrite_def)
  qed
qed

lemma restoreChmodEraFiles_log:
  "\<exists>cs. dw_chmods (snd (restoreChmodEraFiles e repo ps a now w)) = dw_chmods w @ cs \<and>
     (\<forall>c \<in> set cs. \<exists>p \<in> set ps. resolveChmodEraCandidate repo p = Some (ch_path c) \<and> adds_owner_write c)"
  (is "\<exists>cs. dw_chmods (?run ps w) = _ \<and> ?ok ps cs")
proof (induction ps arbitrary: w)
  case Nil
  then show ?case by simp
next
  case (Cons p ps)
  show ?case
  proof (cases "resolveChmodEraCandidate repo p")
    case None
    obtain cs where "dw_chmods (?run ps w) = dw_chmods w @ cs" "?ok ps cs" using Cons.IH by blast
    with None show ?thesis by (intro exI [of _ cs]) auto
  next
    case (Some t)
    obtain b w1 where b: "lacksOwnerWrite e t w = (b, w1)" by (cases "lacksOwnerWrite e t w")
    then have l1: "dw_chmods w1 = dw_chmods w" by (metis lacksOwnerWrite_log snd_conv)
    obtain er w2 where x: "restoreWrite e t w1 = (er, w2)" by (cases "restoreWrite e t w1")
    obtain cs2 where cs2: "dw_chmods w2 = dw_chmods w1 @ cs2"
      "\<forall>c \<in> set cs2. ch_path c = t \<and> adds_owner_write c"
      using restoreWrite_log [of e t w1] x by auto
    show ?thesis
    proof (cases b)
      case False
      obtain cs where "dw_chmods (?run ps w1) = dw_chmods w1 @ cs" "?ok ps cs" using Cons.IH by blast
      with False Some b l1 show ?thesis by (intro exI [of _ cs]) auto
    next
      case True
      obtain cs where cs: "dw_chmods (?run ps w2) = dw_chmods w2 @ cs" "?ok ps cs"
        using Cons.IH by blast
      have "dw_chmods (?run (p # ps) w) = dw_chmods (?run ps w2)"
        using True Some b x by (simp split: option.splits prod.splits)
      with cs cs2 l1 Some show ?thesis by (intro exI [of _ "cs2 @ cs"]) auto
    qed
  qed
qed

lemma restore_orphans_log:
  "\<exists>cs. dw_chmods (snd (restore_orphans e owned ps w)) = dw_chmods w @ cs \<and>
     (\<forall>c \<in> set cs. ch_path c \<in> set ps \<and> ch_path c \<notin> set owned \<and> adds_owner_write c)"
  (is "\<exists>cs. dw_chmods (?run ps w) = _ \<and> ?ok ps cs")
proof (induction ps arbitrary: w)
  case Nil
  then show ?case by simp
next
  case (Cons p ps)
  show ?case
  proof (cases "p \<in> set owned")
    case True
    with Cons.IH [of w] show ?thesis by auto
  next
    case False
    obtain er w2 where x: "restoreWrite e p w = (er, w2)" by (cases "restoreWrite e p w")
    obtain cs2 where cs2: "dw_chmods w2 = dw_chmods w @ cs2"
      "\<forall>c \<in> set cs2. ch_path c = p \<and> adds_owner_write c"
      using restoreWrite_log [of e p w] x by auto
    obtain cs where cs: "dw_chmods (?run ps w2) = dw_chmods w2 @ cs" "?ok ps cs"
      using Cons.IH by blast
    have "dw_chmods (?run (p # ps) w) = dw_chmods (?run ps w2)"
      using False x by (simp split: option.splits prod.splits)
    with cs cs2 False show ?thesis by (intro exI [of _ "cs2 @ cs"]) auto
  qed
qed

subsection \<open>The candidates of the migration\<close>

lemma add_candidates_set:
  "set (fold (add_candidate live) ps out) = set out \<union> {p \<in> set ps. p \<noteq> [] \<and> p \<notin> set live}"
  by (induction ps arbitrary: out) (auto simp: add_candidate_def)

lemma chmodEraCandidates_set:
  "set (chmodEraCandidates lks ec d) =
     {p \<in> (\<lambda>l. Canonical (l_Target l)) ` set lks \<union> ev_target_canonical ` set (db_events d).
        p \<noteq> [] \<and> p \<notin> set (live_targets lks ec)}"
  by (auto simp: chmodEraCandidates_def Let_def add_candidates_set)

lemma live_targets_iff:
  "p \<in> set (live_targets lks ec) \<longleftrightarrow> (\<exists>l \<in> set lks. Canonical (l_Target l) = p \<and> \<not> IsStale ec l)"
  by (auto simp: live_targets_def)

lemma appendEventTx_targets:
  "ev_target_canonical ` set (db_events (appendEventTx s e d)) =
     insert (Canonical (e_Target e)) (ev_target_canonical ` set (db_events d))"
  by (auto simp: appendEventTx_def Let_def event_row_of_def give_event_id_def newID_def)

lemma reclaimStaleLocks_targets:
  "ev_target_canonical ` set (db_events (reclaimStaleLocks s ls ec a now d)) \<subseteq>
     ev_target_canonical ` set (db_events d) \<union> (\<lambda>l. Canonical (l_Target l)) ` set ls"
proof (induction ls arbitrary: d)
  case Nil
  then show ?case by simp
next
  case (Cons l ls)
  have "ev_target_canonical ` set (db_events (reclaimStaleTx s l a now d)) =
      insert (Canonical (l_Target l)) (ev_target_canonical ` set (db_events d))"
    by (simp add: reclaimStaleTx_def Let_def appendEventTx_targets)
  with Cons.IH [of d] Cons.IH [of "reclaimStaleTx s l a now d"] show ?case by auto
qed

lemma repair_candidates:
  "p \<in> set (snd (repair_tx s i a prom d)) \<Longrightarrow>
     (p \<in> (\<lambda>l. Canonical (l_Target l)) ` set (ListLocks d) \<or> p \<in> ev_target_canonical ` set (db_events d)) \<and>
     (\<forall>l \<in> set (ListLocks d). Canonical (l_Target l) = p \<longrightarrow> IsStale (eval_ctx s i) l)"
  using reclaimStaleLocks_targets [of s "loadLocksTx d" "eval_ctx s i" a "io_now i" d]
  by (auto simp: repair_tx_def Let_def chmodEraCandidates_set live_targets_iff loadLocksTx_def ListLocks_def)

subsection \<open>On a quiet disk\<close>

definition quiet :: "disk_env \<Rightarrow> bool" where
  "quiet e \<longleftrightarrow> (\<forall>t dk. de_peers e t dk = dk) \<and> (\<forall>t. de_fails e t = None)"

lemma quiet_sys: "quiet e \<Longrightarrow> sys e w = (None, w\<lparr>dw_tick := Suc (dw_tick w)\<rparr>)"
  by (simp add: quiet_def sys_def)

definition write_stripped :: "inode \<Rightarrow> bool" where
  "write_stripped x \<longleftrightarrow> in_regular x \<and> in_perm x AND owner_write = 0"

definition repaired_inode :: "inode \<Rightarrow> inode" where
  "repaired_inode x =
     (if write_stripped x \<and> in_nlink x \<le> 1
      then x\<lparr>in_perm := in_perm x OR owner_write, in_special := 0\<rparr> else x)"

lemma owner_write_nonzero [simp]: "owner_write \<noteq> 0" "(m OR owner_write) AND owner_write \<noteq> 0"
  by (simp_all add: or_owner_write) (simp_all add: owner_write_def)

lemma repaired_inode_idem [simp]: "repaired_inode (repaired_inode x) = repaired_inode x"
  by (simp add: repaired_inode_def write_stripped_def)

lemma write_stripped_repaired:
  "write_stripped (repaired_inode x) \<and> in_nlink (repaired_inode x) > 1 \<longleftrightarrow>
     write_stripped x \<and> in_nlink x > 1"
  by (simp add: repaired_inode_def write_stripped_def)

lemma lacks_quiet:
  "quiet e \<Longrightarrow> dw_disk (snd (lacksOwnerWrite e t w)) = dw_disk w \<and>
     fst (lacksOwnerWrite e t w) =
       (case dk_name (dw_disk w) t of Hard n \<Rightarrow> write_stripped (dk_inode (dw_disk w) n) | _ \<Rightarrow> False)"
  by (auto simp: lacksOwnerWrite_def quiet_sys write_stripped_def split: entry.splits)

lemma restore_quiet:
  assumes "quiet e" "dk_name (dw_disk w) t = Hard n" "write_stripped (dk_inode (dw_disk w) n)"
  shows "dw_disk (snd (restoreWrite e t w)) =
      (dw_disk w)\<lparr>dk_inode := (dk_inode (dw_disk w))(n := repaired_inode (dk_inode (dw_disk w) n))\<rparr>"
    and "fst (restoreWrite e t w) =
      (if in_nlink (dk_inode (dw_disk w) n) > 1
       then Some (PathError ''restorewrite'' t errMultiLinked) else None)"
  using assms(2,3)
  by (auto simp: restoreWrite_def safeOpenRegular_def permAfterNlinkCheck_def fchmod_def
      quiet_sys [OF assms(1)] repaired_inode_def write_stripped_def Let_def)

text \<open>The inodes a list of candidates names, and the candidates whose restore is refused.\<close>

definition candidate_inodes :: "(string \<Rightarrow> entry) \<Rightarrow> string \<Rightarrow> string list \<Rightarrow> nat set" where
  "candidate_inodes nm repo ps =
     {n. \<exists>p \<in> set ps. \<exists>t. resolveChmodEraCandidate repo p = Some t \<and> nm t = Hard n}"

definition refused_candidate :: "disk \<Rightarrow> string \<Rightarrow> string \<Rightarrow> string option" where
  "refused_candidate dk repo p =
     (case resolveChmodEraCandidate repo p of
        None \<Rightarrow> None
      | Some t \<Rightarrow>
          (case dk_name dk t of
             Hard n \<Rightarrow> if write_stripped (dk_inode dk n) \<and> in_nlink (dk_inode dk n) > 1 then Some t else None
           | _ \<Rightarrow> None))"

definition refusal_event :: "disk \<Rightarrow> string \<Rightarrow> string \<Rightarrow> time \<Rightarrow> string \<Rightarrow> Event option" where
  "refusal_event dk repo a now p =
     map_option (\<lambda>t. modeRestoreFailedEvent p a now (PathError ''restorewrite'' t errMultiLinked))
       (refused_candidate dk repo p)"

definition repaired_disk :: "string \<Rightarrow> string list \<Rightarrow> disk \<Rightarrow> disk" where
  "repaired_disk repo ps dk = dk\<lparr>dk_inode := (\<lambda>n.
     if n \<in> candidate_inodes (dk_name dk) repo ps then repaired_inode (dk_inode dk n) else dk_inode dk n)\<rparr>"

lemma refused_repaired: "refused_candidate (repaired_disk repo ps dk) repo p = refused_candidate dk repo p"
proof -
  have "write_stripped (dk_inode (repaired_disk repo ps dk) n) \<and> in_nlink (dk_inode (repaired_disk repo ps dk) n) > 1
      \<longleftrightarrow> write_stripped (dk_inode dk n) \<and> in_nlink (dk_inode dk n) > 1" for n
    by (simp add: repaired_disk_def write_stripped_repaired [simplified])
  moreover have "dk_name (repaired_disk repo ps dk) = dk_name dk" by (simp add: repaired_disk_def)
  ultimately show ?thesis by (simp only: refused_candidate_def)
qed

lemma candidate_inodes_Nil [simp]: "candidate_inodes nm repo [] = {}"
  by (simp add: candidate_inodes_def)

lemma candidate_inodes_Cons:
  "candidate_inodes nm repo (p # ps) =
     (case resolveChmodEraCandidate repo p of
        Some t \<Rightarrow> (case nm t of Hard n \<Rightarrow> insert n (candidate_inodes nm repo ps) | _ \<Rightarrow> candidate_inodes nm repo ps)
      | None \<Rightarrow> candidate_inodes nm repo ps)"
  by (auto simp: candidate_inodes_def split: option.splits entry.splits)

lemma repaired_disk_names [simp]: "dk_name (repaired_disk repo ps dk) = dk_name dk"
  by (simp add: repaired_disk_def)

text \<open>One candidate more.\<close>

lemma repaired_disk_step:
  "repaired_disk repo (p # ps) dk = repaired_disk repo ps (repaired_disk repo [p] dk)"
  by (cases dk) (auto simp: repaired_disk_def candidate_inodes_Cons fun_eq_iff
      split: option.splits entry.splits)

lemma repaired_disk_one:
  "repaired_disk repo [p] dk =
     (case resolveChmodEraCandidate repo p of
        None \<Rightarrow> dk
      | Some t \<Rightarrow>
          (case dk_name dk t of
             Hard n \<Rightarrow> dk\<lparr>dk_inode := (dk_inode dk)(n := repaired_inode (dk_inode dk n))\<rparr>
           | _ \<Rightarrow> dk))"
  by (cases dk) (auto simp: repaired_disk_def candidate_inodes_def fun_eq_iff split: option.splits entry.splits)

lemma repaired_inode_writable: "\<not> write_stripped x \<Longrightarrow> repaired_inode x = x"
  by (simp add: repaired_inode_def)

lemma disk_eta: "dk\<lparr>dk_inode := (dk_inode dk)(n := dk_inode dk n)\<rparr> = (dk :: disk)"
  by (cases dk) simp

lemma restoreChmodEraFiles_exact:
  assumes "quiet e"
  shows "dw_disk (snd (restoreChmodEraFiles e repo ps a now w)) = repaired_disk repo ps (dw_disk w) \<and>
    fst (restoreChmodEraFiles e repo ps a now w) = List.map_filter (refusal_event (dw_disk w) repo a now) ps"
  (is "?claim ps w")
proof (induction ps arbitrary: w)
  case Nil
  then show ?case
    by (cases "dw_disk w") (simp add: repaired_disk_def candidate_inodes_def List.map_filter_def)
next
  case (Cons p ps)
  let ?go = "\<lambda>w. restoreChmodEraFiles e repo ps a now w"
  have tail: "dw_disk (snd (?go w')) = repaired_disk repo (p # ps) (dw_disk w)"
    "fst (?go w') = List.map_filter (refusal_event (dw_disk w) repo a now) ps"
    if "dw_disk w' = repaired_disk repo [p] (dw_disk w)" for w'
  proof -
    from Cons.IH [of w'] show "dw_disk (snd (?go w')) = repaired_disk repo (p # ps) (dw_disk w)"
      by (simp add: that repaired_disk_step [of repo p ps])
    have "refusal_event (repaired_disk repo [p] (dw_disk w)) repo a now = refusal_event (dw_disk w) repo a now"
      by (simp add: refusal_event_def refused_repaired fun_eq_iff)
    with Cons.IH [of w'] show "fst (?go w') = List.map_filter (refusal_event (dw_disk w) repo a now) ps"
      by (simp add: that)
  qed
  show ?case
  proof (cases "resolveChmodEraCandidate repo p")
    case None
    then have "refusal_event (dw_disk w) repo a now p = None" "repaired_disk repo [p] (dw_disk w) = dw_disk w"
      by (simp_all add: refusal_event_def refused_candidate_def repaired_disk_one)
    with None tail [of w] show ?thesis by (simp add: List.map_filter_simps)
  next
    case (Some t)
    obtain b w1 where b: "lacksOwnerWrite e t w = (b, w1)" by (cases "lacksOwnerWrite e t w")
    with lacks_quiet [OF assms, of t w] have w1: "dw_disk w1 = dw_disk w"
      and bt: "b = (case dk_name (dw_disk w) t of Hard n \<Rightarrow> write_stripped (dk_inode (dw_disk w) n) | _ \<Rightarrow> False)"
      by auto
    show ?thesis
    proof (cases b)
      case False
      with bt Some have "refusal_event (dw_disk w) repo a now p = None"
        and "repaired_disk repo [p] (dw_disk w) = dw_disk w"
        by (auto simp: refusal_event_def refused_candidate_def repaired_disk_one repaired_inode_writable disk_eta
            split: entry.splits)
      with False Some b w1 tail [of w1] show ?thesis by (simp add: List.map_filter_simps)
    next
      case True
      with bt obtain n where n: "dk_name (dw_disk w) t = Hard n" "write_stripped (dk_inode (dw_disk w) n)"
        by (auto split: entry.splits)
      obtain er w2 where x: "restoreWrite e t w1 = (er, w2)" by (cases "restoreWrite e t w1")
      have rw: "dw_disk w2 = repaired_disk repo [p] (dw_disk w)"
        "er = (if in_nlink (dk_inode (dw_disk w) n) > 1 then Some (PathError ''restorewrite'' t errMultiLinked) else None)"
        using restore_quiet [OF assms, of w1 t n] n x Some by (simp_all add: w1 repaired_disk_one)
      have ev: "refusal_event (dw_disk w) repo a now p = map_option (modeRestoreFailedEvent p a now) er"
        using n Some by (simp add: refusal_event_def refused_candidate_def rw(2))
      obtain evs w3 where g: "?go w2 = (evs, w3)" by (cases "?go w2")
      with tail [OF rw(1)] True Some b x ev show ?thesis
        by (cases er) (simp_all add: List.map_filter_simps)
    qed
  qed
qed

subsection \<open>A disk and a store to repair\<close>

definition ex_names :: "string \<Rightarrow> refs \<Rightarrow> string option" where
  "ex_names pre rs = Some (concat (map (\<lambda>(n, _). if has_prefix n pre then n @ [NL] else []) rs))"

definition ex_disk_env :: disk_env where
  "ex_disk_env = \<lparr>de_peers = (\<lambda>_ dk. dk), de_fails = (\<lambda>_. None)\<rparr>"

definition ex_inode :: "9 word \<Rightarrow> nat \<Rightarrow> inode" where
  "ex_inode m k = \<lparr>in_regular = True, in_perm = m, in_special = 0, in_nlink = k\<rparr>"

text \<open>\<open>f\<close> and \<open>d/g\<close> are read-only, \<open>h\<close> too, with two links.\<close>

definition ex_disk :: disk where
  "ex_disk = \<lparr>
     dk_name = (\<lambda>p. if p = ''/r/f'' then Hard 1 else if p = ''/r/d/g'' then Hard 2
                     else if p = ''/r/h'' then Hard 3 else Missing),
     dk_inode = (\<lambda>n. ex_inode 0x124 (if n = 3 then 2 else 1))\<rparr>"

definition ex_dworld :: dworld where
  "ex_dworld = \<lparr>dw_disk = ex_disk, dw_tick = 0, dw_chmods = []\<rparr>"

definition ex_past :: "string \<Rightarrow> event_row" where
  "ex_past t = \<lparr>ev_id = ''e-'' @ t, ev_target_canonical = t, ev_kind = EventLockReleased,
     ev_actor_uuid = ''al'', ev_subject_uuid = None, ev_reason = [], ev_detail = [], ev_created_at = 1\<rparr>"

definition ex_repair_store :: store where
  "ex_repair_store = ex_store\<lparr>s_repoTop := ''/r''\<rparr>"

definition ex_repair_io :: io where
  "ex_repair_io = (ex_io 10)\<lparr>io_live :=
     Some (\<lambda>l. if l_OwnerUUID l = ''al'' then LivenessDead else LivenessAlive)\<rparr>"

text \<open>\<open>bob\<close> holds \<open>d\<close> as a directory, \<open>al\<close> is dead, as are the submitters of \<open>c-1\<close>, whose reference
  stands, and of \<open>c-9\<close>, whose reference is gone.\<close>

definition ex_sick_db :: db where
  "ex_sick_db = ex_db\<lparr>
     db_locks := [lock_row_of ((ex_lock ''d'' ''bob'' 20)\<lparr>l_Directory := True\<rparr>) 1,
                  lock_row_of (ex_lock ''x'' ''al'' 5) 3],
     db_events := [ex_past ''f'', ex_past ''d'', ex_past ''d/g'', ex_past ''h''],
     db_candidate_claims := [claim_row_of (ex_claim ''p'' ''c-1'' ''al''), claim_row_of (ex_claim ''q'' ''c-9'' ''al'')]\<rparr>"

lemma ex_disk_env_quiet: "quiet ex_disk_env"
  by (simp add: quiet_def ex_disk_env_def)

lemma ex_repair_runs:
  obtains d' dw' w' where
    "DoctorRepair ex_repair_store ex_repair_io ''doc'' ex_ref_env ex_names ex_disk_env ex_sick_db ex_world ex_dworld
       = (Inr (d', dw'), w')"
proof -
  have "case fst (DoctorRepair ex_repair_store ex_repair_io ''doc'' ex_ref_env ex_names ex_disk_env ex_sick_db
      ex_world ex_dworld) of Inr _ \<Rightarrow> True | Inl _ \<Rightarrow> False"
    by code_simp
  then show ?thesis
    by (cases "DoctorRepair ex_repair_store ex_repair_io ''doc'' ex_ref_env ex_names ex_disk_env ex_sick_db
      ex_world ex_dworld") (auto intro: that split: sum.splits)
qed

subsection \<open>Properties\<close>





text \<open>The live targets are excluded by exact key: \<open>d/g\<close>, a file under the directory \<open>bob\<close> holds live,
  which no peer may write, is made writable because an old event names it.\<close>

theorem repair_chmods_under_live_directory:
  "case fst (DoctorRepair ex_repair_store ex_repair_io ''doc'' ex_ref_env ex_names ex_disk_env ex_sick_db
      ex_world ex_dworld) of
     Inl _ \<Rightarrow> False
   | Inr (d', dw') \<Rightarrow>
       list_ex (\<lambda>l. Canonical (l_Target l) = ''d'' \<and> \<not> IsStale (eval_ctx ex_repair_store ex_repair_io) l \<and>
         PrefixCovers (eval_ctx ex_repair_store ex_repair_io) (Canonical (l_Target l)) ''d/g'') (ListLocks ex_sick_db) \<and>
       map ch_path (dw_chmods dw') = [''/r/d/g'', ''/r/f'']"
  by code_simp

text \<open>The special bits go with the write bit's return, although the comment of \<open>restoreWrite\<close> says that
  only owner-write is restored: a set-group executable loses the bit.\<close>

theorem restoreWrite_drops_special_bits:
  assumes "quiet e" "dk_name (dw_disk w) t = Hard n" "write_stripped (dk_inode (dw_disk w) n)"
    "in_nlink (dk_inode (dw_disk w) n) \<le> 1"
  shows "in_special (dk_inode (dw_disk (snd (restoreWrite e t w))) n) = 0"
  using assms by (simp add: restore_quiet repaired_inode_def)

text \<open>The link count is read on the open file, but one system call before the mode is set: a link made
  in between gets the bit on both names.\<close>

definition late_link :: disk_env where
  "late_link = \<lparr>de_peers = (\<lambda>t dk. if t = 3
       then dk\<lparr>dk_name := (dk_name dk)(''/evil'' := Hard 1), dk_inode := (\<lambda>_. ex_inode 0x124 2)\<rparr> else dk),
     de_fails = (\<lambda>_. None)\<rparr>"

theorem restoreWrite_late_link:
  "case restoreWrite late_link ''/r/f'' ex_dworld of
     (er, w) \<Rightarrow> er = None \<and> map (\<lambda>c. in_nlink (ch_before c)) (dw_chmods w) = [2]"
  by code_simp

subsection \<open>Orphaned modes\<close>

definition is_orphan :: "disk \<Rightarrow> string list \<Rightarrow> string \<Rightarrow> bool" where
  "is_orphan dk owned p \<longleftrightarrow>
     (let shown = (\<lambda>n. in_regular (dk_inode dk n) \<and> in_perm (dk_inode dk n) AND write_bits = 0 \<and> p \<notin> set owned) in
      case dk_name dk p of Hard n \<Rightarrow> shown n | Symlink (Some n) \<Rightarrow> shown n | _ \<Rightarrow> False)"

lemma stat_quiet:
  assumes "quiet e"
  shows "dw_disk (snd (stat e p w)) = dw_disk w"
    and "is_orphan (dw_disk w) owned p \<longleftrightarrow>
      (case fst (stat e p w) of None \<Rightarrow> False
       | Some x \<Rightarrow> in_regular x \<and> in_perm x AND write_bits = 0 \<and> p \<notin> set owned)"
  by (simp_all add: stat_def quiet_sys [OF assms] is_orphan_def split: entry.splits option.splits)

lemma scan_orphans_quiet:
  assumes "quiet e"
  shows "dw_disk (snd (scan_orphans e owned ps w)) = dw_disk w \<and>
    fst (scan_orphans e owned ps w) = filter (is_orphan (dw_disk w) owned) ps"
proof (induction ps arbitrary: w)
  case Nil
  then show ?case by simp
next
  case (Cons p ps)
  obtain st w1 where st: "stat e p w = (st, w1)" by (cases "stat e p w")
  obtain out w2 where out: "scan_orphans e owned ps w1 = (out, w2)" by (cases "scan_orphans e owned ps w1")
  have "dw_disk w1 = dw_disk w" using stat_quiet(1) [OF assms, of p w] st by simp
  then have "dw_disk w2 = dw_disk w" "out = filter (is_orphan (dw_disk w) owned) ps"
    using Cons.IH [of w1] out by simp_all
  with stat_quiet(2) [OF assms, of w owned p] st out show ?case
    by (cases st) simp_all
qed

lemma lockedPathSet_live:
  "l \<in> set (ListLocks d) \<Longrightarrow> \<not> IsStale ec l \<Longrightarrow> s_repoTop s \<noteq> [] \<Longrightarrow>
     filepath_join (s_repoTop s) (Canonical (l_Target l)) \<in> set (lockedPathSet s ec d)"
  by (auto simp: lockedPathSet_def Let_def)

lemma ScanOrphanModes_exact:
  assumes "quiet e" "ps \<noteq> []" "validateOrphanRoot s ps = None"
  shows "fst (ScanOrphanModes s i ps e d w) =
    Inr (sort (filter (is_orphan (dw_disk w) (lockedPathSet s (eval_ctx s i) d)) ps))"
  using scan_orphans_quiet [OF assms(1), of "lockedPathSet s (eval_ctx s i) d" ps w] assms(2,3)
  by (auto simp: ScanOrphanModes_def split: prod.splits)

lemma restore_orphans_partition:
  "mset (fst (fst (restore_orphans e owned ps w)) @ map fst (snd (fst (restore_orphans e owned ps w)))) =
     mset (filter (\<lambda>p. p \<notin> set owned) ps)"
proof (induction ps arbitrary: w)
  case Nil
  then show ?case by simp
next
  case (Cons p ps)
  obtain er w1 where x: "restoreWrite e p w = (er, w1)" by (cases "restoreWrite e p w")
  obtain rs fs w2 where y: "restore_orphans e owned ps w1 = ((rs, fs), w2)"
    by (metis prod.exhaust)
  show ?case using Cons.IH [of w] Cons.IH [of w1] x y by (cases er) auto
qed

text \<open>
  C0: restoring the modes the user asked for.  When it runs, every path given is either skipped, as
  the path of a lock that is live at that moment under the flock, or reported, restored or failed, once;
  mode changes hit only given paths, never the joined path of a live lock, whatever peers do to the disk.
\<close>

theorem RestoreOrphanMode_spares_live:
  assumes "RestoreOrphanMode s i ps e d w = (Inr (restored, failures), w')" "s_repoTop s \<noteq> []"
  shows "mset (restored @ map fst failures) =
      mset (filter (\<lambda>p. p \<notin> set (lockedPathSet s (eval_ctx s i) d)) ps) \<and>
    (\<exists>cs. dw_chmods w' = dw_chmods w @ cs \<and>
      (\<forall>c \<in> set cs. ch_path c \<in> set ps \<and> adds_owner_write c \<and>
        (\<forall>l \<in> set (ListLocks d). \<not> IsStale (eval_ctx s i) l \<longrightarrow>
           ch_path c \<noteq> filepath_join (s_repoTop s) (Canonical (l_Target l)))))"
proof -
  let ?owned = "lockedPathSet s (eval_ctx s i) d"
  have r: "restore_orphans e ?owned ps w = ((restored, failures), w')"
    using assms(1) by (auto simp: RestoreOrphanMode_def split: option.splits if_splits prod.splits)
  obtain cs where cs: "dw_chmods w' = dw_chmods w @ cs"
    "\<forall>c \<in> set cs. ch_path c \<in> set ps \<and> ch_path c \<notin> set ?owned \<and> adds_owner_write c"
    using restore_orphans_log [of e ?owned ps w] r by auto
  have "mset (restored @ map fst failures) = mset (filter (\<lambda>p. p \<notin> set ?owned) ps)"
    using restore_orphans_partition [of e ?owned ps w] r by simp
  with cs lockedPathSet_live [OF _ _ assms(2), of _ d "eval_ctx s i"] show ?thesis by metis
qed

theorem RestoreOrphanMode_spares_live_witness:
  "\<exists>restored failures w'. RestoreOrphanMode ex_repair_store ex_repair_io [''/r/f'', ''/r/d'', ''/r/h''] ex_disk_env
      ex_sick_db ex_dworld = (Inr (restored, failures), w') \<and>
    mset (restored @ map fst failures) = mset [''/r/f'', ''/r/h'']"
proof -
  let ?run = "RestoreOrphanMode ex_repair_store ex_repair_io [''/r/f'', ''/r/d'', ''/r/h''] ex_disk_env
      ex_sick_db ex_dworld"
  have "case fst ?run of Inr _ \<Rightarrow> True | Inl _ \<Rightarrow> False" by code_simp
  then obtain restored failures w' where r: "?run = (Inr (restored, failures), w')"
    by (cases ?run) (auto split: sum.splits)
  have top: "s_repoTop ex_repair_store \<noteq> []" by code_simp
  have "filter (\<lambda>p. p \<notin> set (lockedPathSet ex_repair_store (eval_ctx ex_repair_store ex_repair_io) ex_sick_db))
      [''/r/f'', ''/r/d'', ''/r/h''] = [''/r/f'', ''/r/h'']" by code_simp
  with RestoreOrphanMode_spares_live [OF r top] r show ?thesis by metis
qed

end
