(* ===== verification/Bridge.thy ===== *)
theory Bridge
  imports Promotion
begin

text \<open>
  \<open>internal/gate/bridge.go\<close>: one branch per bead, carrying the bead's promoted commits onto main.
  \<open>PlanBridge\<close> only reads; \<open>BuildBridge\<close> replays the pending commits of a bead and publishes the branch
  and its marker in one reference transaction.

  The git commands of the bridge are parameters next to those of promotion: those that read the
  references (\<open>bg_rev_parse\<close>, \<open>bg_objectname\<close>, \<open>bg_log\<close>) see what peers have made of them, those that
  read objects are \<open>git\<close>, and \<open>bg_commit\<close> is \<open>commit-tree\<close> under the identity of the source commit.
\<close>

subsection \<open>Data\<close>

record bridge_git =
  bg_rev_parse :: "string \<Rightarrow> refs \<Rightarrow> string option"
  bg_objectname :: "string \<Rightarrow> refs \<Rightarrow> string option"
  bg_log :: "string \<Rightarrow> refs \<Rightarrow> string option"
  bg_commit :: "string \<Rightarrow> string \<Rightarrow> string list \<Rightarrow> string \<Rightarrow> string option"

definition DefaultMainRef :: string where "DefaultMainRef = ''main''"
definition BranchPrefix :: string where "BranchPrefix = ''loto-pr/''"
definition bridgeBranchPrefix :: string where "bridgeBranchPrefix = ''refs/heads/'' @ BranchPrefix"
definition bridgedRefPrefix :: string where "bridgedRefPrefix = ''refs/loto/bridged/''"
definition bridgeSourceTrailer :: string where "bridgeSourceTrailer = ''Source''"
definition trailerBead :: string where "trailerBead = ''Bead''"
definition trailerCandidate :: string where "trailerCandidate = ''Candidate''"
definition bridgeLogFieldCount :: nat where "bridgeLogFieldCount = 8"

datatype BridgeClass =
    BridgeUndecided | BridgeBuildable | BridgeBuilt | BridgeUpToDate | BridgeStaleBase | BridgeStaleBranch

definition detailBranchMissing :: string where "detailBranchMissing = ''branch-missing''"
definition detailUnmarked :: string where "detailUnmarked = ''unmarked-branch''"
definition detailMergedBranch :: string where "detailMergedBranch = ''merged-branch''"

record BridgeParams =
  bp_RepoTop :: string
  bp_MainRef :: string
  bp_BeadID :: string

record BridgeCommit =
  bc_SHA :: string
  bc_CandidateID :: string
  bc_Message :: string
  bc_AuthorName :: string
  bc_AuthorEmail :: string
  bc_AuthorDate :: string
  bc_CommitterName :: string
  bc_CommitterEmail :: string
  bc_CommitterDate :: string
  bc_Transitions :: "Transition list"

record BeadBridge =
  bd_BeadID :: string
  bd_Branch :: string
  bd_Ref :: string
  bd_Parent :: string
  bd_Head :: string
  bd_Pending :: "BridgeCommit list"
  bd_WriteSet :: "string list"
  bd_Class :: BridgeClass
  bd_Detail :: string
  bd_hadBranch :: bool
  bd_markerSHA :: string
  bd_markerRef :: string

record BridgePlan =
  bl_MainSHA :: string
  bl_IntegrationSHA :: string
  bl_Beads :: "BeadBridge list"
  bl_Unattributed :: "BridgeCommit list"

datatype bridge_error =
    ErrBridgeInput
  | ErrBridgeNotBuildable string
  | ErrBridgeDiffStatus string
  | ErrBridgeMalformedLog nat
  | ErrBridgeRevParse
  | ErrBridgeForEachRef
  | ErrBridgeLog
  | ErrBridgeDiffTree
  | ErrBridgeRead gate_error
  | ErrBridgeTempdir
  | ErrBridgeIndex promote_error
  | ErrBridgeCommit
  | ErrBridgeRefs ref_error

definition normalize :: "BridgeParams \<Rightarrow> bridge_error + BridgeParams" where
  "normalize p =
     (if bp_RepoTop p = [] then Inl ErrBridgeInput
      else Inr (if bp_MainRef p = [] then p\<lparr>bp_MainRef := DefaultMainRef\<rparr> else p))"

subsection \<open>Bead identifiers\<close>

definition notRefRune :: "char \<Rightarrow> bool" where
  "notRefRune r \<longleftrightarrow>
     \<not> ((CHR ''a'' \<le> r \<and> r \<le> CHR ''z'') \<or> (CHR ''A'' \<le> r \<and> r \<le> CHR ''Z'') \<or> (CHR ''0'' \<le> r \<and> r \<le> CHR ''9'') \<or>
        r = CHR ''.'' \<or> r = CHR ''-'' \<or> r = CHR ''_'')"

definition beadIDUsableAsRef :: "string \<Rightarrow> bool" where
  "beadIDUsableAsRef x \<longleftrightarrow>
     \<not> (x = [] \<or> has_prefix x ''.'' \<or> has_prefix x ''-'' \<or> has_suffix x ''.'' \<or> has_suffix x ''.lock'' \<or>
        contains_str x ''..'') \<and>
     \<not> list_ex notRefRune x"

definition beadID :: "BridgeCommit \<Rightarrow> string" where
  "beadID c = parseTrailers (bc_Message c) trailerBead"

subsection \<open>Reading\<close>

text \<open>\<open>resolveRef\<close>: absent is an empty listing, a failed listing an error.\<close>

definition resolveRef ::
  "promote_env \<Rightarrow> bridge_git \<Rightarrow> string \<Rightarrow> 'w world_scheme \<Rightarrow> (bridge_error + string option) \<times> 'w world_scheme" where
  "resolveRef e bg ref w =
     (let w1 = observe e w in
      (case bg_objectname bg ref (w_refs w1) of
         None \<Rightarrow> Inl ErrBridgeForEachRef
       | Some out \<Rightarrow> if trim_space out = [] then Inr None else Inr (Some (trim_space out)), w1))"

definition trim_char :: "char \<Rightarrow> string \<Rightarrow> string" where
  "trim_char c s = rev (dropWhile (\<lambda>x. x = c) (rev (dropWhile (\<lambda>x. x = c) s)))"

definition trim_right_of :: "char \<Rightarrow> string \<Rightarrow> string" where
  "trim_right_of c s = rev (dropWhile (\<lambda>x. x = c) (rev s))"

definition trim_one_suffix :: "char \<Rightarrow> string \<Rightarrow> string" where
  "trim_one_suffix c s = (if s \<noteq> [] \<and> last s = c then butlast s else s)"

definition bridge_commit_of :: "string list \<Rightarrow> BridgeCommit" where
  "bridge_commit_of f =
     (let msg = trim_one_suffix NL (f ! 7) in
      \<lparr>bc_SHA = f ! 0, bc_CandidateID = parseTrailers msg trailerCandidate, bc_Message = msg,
       bc_AuthorName = f ! 1, bc_AuthorEmail = f ! 2, bc_AuthorDate = f ! 3,
       bc_CommitterName = f ! 4, bc_CommitterEmail = f ! 5, bc_CommitterDate = f ! 6, bc_Transitions = []\<rparr>)"

fun parse_log_records :: "string list \<Rightarrow> bridge_error + BridgeCommit list" where
  "parse_log_records [] = Inr []"
| "parse_log_records (x # xs) =
     (let r = trim_char NL x in
      if r = [] then parse_log_records xs
      else let f = split_on CHR 0x1F r in
           if length f \<noteq> bridgeLogFieldCount then Inl (ErrBridgeMalformedLog (length f))
           else case parse_log_records xs of
                  Inl er \<Rightarrow> Inl er | Inr cs \<Rightarrow> Inr (bridge_commit_of f # cs))"

definition readPromotedCommits ::
  "promote_env \<Rightarrow> bridge_git \<Rightarrow> string \<Rightarrow> 'w world_scheme \<Rightarrow>
     (bridge_error + BridgeCommit list) \<times> 'w world_scheme" where
  "readPromotedCommits e bg mainRef w =
     (let w1 = observe e w in
      (case bg_log bg mainRef (w_refs w1) of
         None \<Rightarrow> Inl ErrBridgeLog
       | Some out \<Rightarrow> parse_log_records (split_on CHR 0x1E (trim_space out)), w1))"

text \<open>The pairs of \<open>diff-tree --name-status -z\<close>.\<close>

fun status_transitions :: "git \<Rightarrow> string \<Rightarrow> string list \<Rightarrow> bridge_error + Transition list" where
  "status_transitions git sha (status # path # rest) =
     (if status = [] \<or> path = [] then status_transitions git sha rest
      else if hd status \<in> {CHR ''M'', CHR ''A'', CHR ''T''} then
        (case blobAt git sha path of
           Inl er \<Rightarrow> Inl (ErrBridgeRead er)
         | Inr result \<Rightarrow>
             (case status_transitions git sha rest of
                Inl er \<Rightarrow> Inl er
              | Inr trs \<Rightarrow> Inr (\<lparr>tr_Path = path, tr_Expected = None, tr_Result = result\<rparr> # trs)))
      else if hd status = CHR ''D'' then
        (case status_transitions git sha rest of
           Inl er \<Rightarrow> Inl er
         | Inr trs \<Rightarrow> Inr (\<lparr>tr_Path = path, tr_Expected = None, tr_Result = None\<rparr> # trs))
      else Inl (ErrBridgeDiffStatus status))"
| "status_transitions git sha _ = Inr []"

fun fill_expected :: "git \<Rightarrow> string \<Rightarrow> Transition list \<Rightarrow> bridge_error + Transition list" where
  "fill_expected git par [] = Inr []"
| "fill_expected git par (tr # trs) =
     (case blobAt git par (tr_Path tr) of
        Inl er \<Rightarrow> Inl (ErrBridgeRead er)
      | Inr x \<Rightarrow>
          (case fill_expected git par trs of
             Inl er \<Rightarrow> Inl er | Inr trs' \<Rightarrow> Inr (tr\<lparr>tr_Expected := x\<rparr> # trs')))"

definition commitTransitions :: "git \<Rightarrow> string \<Rightarrow> bridge_error + Transition list" where
  "commitTransitions git sha =
     (case git_run git [''diff-tree'', ''-r'', ''-z'', ''--no-commit-id'', ''--name-status'', sha] of
        None \<Rightarrow> Inl ErrBridgeDiffTree
      | Some raw \<Rightarrow>
          (case status_transitions git sha (split_on NUL (trim_right_of NUL raw)) of
             Inl er \<Rightarrow> Inl er
           | Inr trs \<Rightarrow>
               (case fill_expected git (sha @ ''^'') trs of
                  Inl er \<Rightarrow> Inl er | Inr trs' \<Rightarrow> Inr (sort_key tr_Path trs'))))"

fun loadTransitions :: "git \<Rightarrow> BridgeCommit list \<Rightarrow> bridge_error + BridgeCommit list" where
  "loadTransitions git [] = Inr []"
| "loadTransitions git (c # cs) =
     (case commitTransitions git (bc_SHA c) of
        Inl er \<Rightarrow> Inl er
      | Inr trs \<Rightarrow>
          (case loadTransitions git cs of
             Inl er \<Rightarrow> Inl er | Inr cs' \<Rightarrow> Inr (c\<lparr>bc_Transitions := trs\<rparr> # cs')))"

subsection \<open>The plan\<close>

definition pending_transitions :: "BridgeCommit list \<Rightarrow> Transition list" where
  "pending_transitions cs = concat (map bc_Transitions cs)"

definition add_new :: "string \<Rightarrow> string list \<Rightarrow> string list" where
  "add_new p out = (if p \<in> set out then out else out @ [p])"

definition aggregateWriteSet :: "BridgeCommit list \<Rightarrow> string list" where
  "aggregateWriteSet cs = sort (fold add_new (map tr_Path (pending_transitions cs)) [])"

text \<open>The preimage the first transition of a path recorded.\<close>

definition expected_of :: "BridgeCommit list \<Rightarrow> string \<Rightarrow> BlobRef option option" where
  "expected_of cs = map_of (map (\<lambda>tr. (tr_Path tr, tr_Expected tr)) (pending_transitions cs))"

definition sameBlob :: "BlobRef option \<Rightarrow> BlobRef option \<Rightarrow> bool" where
  "sameBlob a b \<longleftrightarrow>
     (case (a, b) of
        (Some x, Some y) \<Rightarrow> br_SHA x = br_SHA y \<and> br_Mode x = br_Mode y
      | (None, None) \<Rightarrow> True
      | _ \<Rightarrow> False)"

fun stale_loop ::
  "git \<Rightarrow> string \<Rightarrow> (string \<Rightarrow> BlobRef option option) \<Rightarrow> string list \<Rightarrow> bridge_error + string" where
  "stale_loop git par expected [] = Inr []"
| "stale_loop git par expected (p # ps) =
     (case blobAt git par p of
        Inl er \<Rightarrow> Inl (ErrBridgeRead er)
      | Inr have_blob \<Rightarrow>
          if \<not> sameBlob have_blob (Option.bind (expected p) id) then Inr p
          else stale_loop git par expected ps)"

definition planStaleBase :: "git \<Rightarrow> string \<Rightarrow> BridgeCommit list \<Rightarrow> bridge_error + string" where
  "planStaleBase git par pending =
     stale_loop git par (expected_of pending)
       (sort (fold add_new (map tr_Path (pending_transitions pending)) []))"

text \<open>The commits after the one the marker names, if it names one.\<close>

fun after_marker :: "string \<Rightarrow> BridgeCommit list \<Rightarrow> BridgeCommit list option" where
  "after_marker m [] = None"
| "after_marker m (c # cs) = (if bc_SHA c = m then Some cs else after_marker m cs)"

definition selectPending ::
  "BridgeCommit list \<Rightarrow> string \<Rightarrow> bool \<Rightarrow> bool \<Rightarrow> BridgeCommit list \<times> BridgeClass \<times> string" where
  "selectPending commits markerSHA hadMarker hadBranch =
     (case if hadMarker then after_marker markerSHA commits else None of
        Some rest \<Rightarrow>
          if \<not> hadBranch then ([], BridgeStaleBranch, detailBranchMissing)
          else (rest, BridgeUndecided, [])
      | None \<Rightarrow>
          if hadMarker \<and> hadBranch then ([], BridgeStaleBranch, detailMergedBranch)
          else if hadBranch then ([], BridgeStaleBranch, detailUnmarked)
          else (commits, BridgeUndecided, []))"

text \<open>\<open>groupByBead\<close>, one commit at a time: the group of its bead, or the unattributed ones.\<close>

type_synonym groups = "(string \<times> BridgeCommit list) list"

definition add_to_group :: "string \<Rightarrow> BridgeCommit \<Rightarrow> groups \<Rightarrow> groups" where
  "add_to_group bead c gs =
     (if bead \<in> fst ` set gs then map (\<lambda>g. if fst g = bead then (bead, snd g @ [c]) else g) gs
      else gs @ [(bead, [c])])"

fun group_loop :: "BridgeCommit list \<Rightarrow> groups \<Rightarrow> BridgeCommit list \<Rightarrow> groups \<times> BridgeCommit list" where
  "group_loop [] gs un = (gs, un)"
| "group_loop (c # cs) gs un =
     (if \<not> beadIDUsableAsRef (beadID c) then group_loop cs gs (un @ [c])
      else group_loop cs (add_to_group (beadID c) c gs) un)"

definition groupByBead :: "BridgeCommit list \<Rightarrow> groups \<times> BridgeCommit list" where
  "groupByBead commits = group_loop commits [] []"

definition new_bead :: "string \<Rightarrow> BeadBridge" where
  "new_bead bead =
     \<lparr>bd_BeadID = bead, bd_Branch = trim_prefix (bridgeBranchPrefix @ bead) ''refs/heads/'',
      bd_Ref = bridgeBranchPrefix @ bead, bd_Parent = [], bd_Head = [], bd_Pending = [], bd_WriteSet = [],
      bd_Class = BridgeUndecided, bd_Detail = [], bd_hadBranch = False, bd_markerSHA = [],
      bd_markerRef = bridgedRefPrefix @ bead\<rparr>"

text \<open>What \<open>planBead\<close> decides once both references are read.\<close>

definition decide_bead ::
  "git \<Rightarrow> string \<Rightarrow> string \<Rightarrow> BridgeCommit list \<Rightarrow> string option \<Rightarrow> string option \<Rightarrow> bridge_error + BeadBridge" where
  "decide_bead git mainSHA bead commits branch marker =
     (let tip = (case branch of None \<Rightarrow> [] | Some x \<Rightarrow> x);
          b = (new_bead bead)\<lparr>bd_hadBranch := branch \<noteq> None,
                bd_markerSHA := (case marker of None \<Rightarrow> [] | Some x \<Rightarrow> x)\<rparr>
      in case selectPending commits (bd_markerSHA b) (marker \<noteq> None) (bd_hadBranch b) of
           (pending, cls, detail) \<Rightarrow>
             if cls \<noteq> BridgeUndecided
             then Inr (b\<lparr>bd_Class := cls, bd_Detail := detail, bd_Parent := tip, bd_Head := tip\<rparr>)
             else let par = (if bd_hadBranch b then tip else mainSHA);
                      b1 = b\<lparr>bd_Parent := par, bd_Head := par\<rparr>
                  in if pending = [] then Inr (b1\<lparr>bd_Class := BridgeUpToDate\<rparr>)
                     else case loadTransitions git pending of
                            Inl er \<Rightarrow> Inl er
                          | Inr loaded \<Rightarrow>
                              (case planStaleBase git par loaded of
                                 Inl er \<Rightarrow> Inl er
                               | Inr stale \<Rightarrow>
                                   let b2 = b1\<lparr>bd_Pending := loaded, bd_WriteSet := aggregateWriteSet loaded\<rparr>
                                   in if stale \<noteq> []
                                      then Inr (b2\<lparr>bd_Class := BridgeStaleBase, bd_Detail := stale\<rparr>)
                                      else Inr (b2\<lparr>bd_Class := BridgeBuildable\<rparr>)))"

definition planBead ::
  "promote_env \<Rightarrow> bridge_git \<Rightarrow> string \<Rightarrow> string \<Rightarrow> BridgeCommit list \<Rightarrow> 'w world_scheme \<Rightarrow>
     (bridge_error + BeadBridge) \<times> 'w world_scheme" where
  "planBead e bg mainSHA bead commits w =
     (case resolveRef e bg (bridgeBranchPrefix @ bead) w of
        (Inl er, w1) \<Rightarrow> (Inl er, w1)
      | (Inr branch, w1) \<Rightarrow>
          (case resolveRef e bg (bridgedRefPrefix @ bead) w1 of
             (Inl er, w2) \<Rightarrow> (Inl er, w2)
           | (Inr marker, w2) \<Rightarrow>
               (decide_bead (e_git e (w_tick w2)) mainSHA bead commits branch marker, w2)))"

fun plan_groups ::
  "promote_env \<Rightarrow> bridge_git \<Rightarrow> string \<Rightarrow> string \<Rightarrow> groups \<Rightarrow> 'w world_scheme \<Rightarrow>
     (bridge_error + BeadBridge list) \<times> 'w world_scheme" where
  "plan_groups e bg mainSHA only [] w = (Inr [], w)"
| "plan_groups e bg mainSHA only (g # gs) w =
     (if only \<noteq> [] \<and> fst g \<noteq> only then plan_groups e bg mainSHA only gs w
      else case planBead e bg mainSHA (fst g) (snd g) w of
             (Inl er, w1) \<Rightarrow> (Inl er, w1)
           | (Inr b, w1) \<Rightarrow>
               (case plan_groups e bg mainSHA only gs w1 of
                  (Inl er, w2) \<Rightarrow> (Inl er, w2)
                | (Inr bs, w2) \<Rightarrow> (Inr (b # bs), w2)))"

definition PlanBridge ::
  "promote_env \<Rightarrow> bridge_git \<Rightarrow> BridgeParams \<Rightarrow> 'w world_scheme \<Rightarrow>
     (bridge_error + BridgePlan) \<times> 'w world_scheme" where
  "PlanBridge e bg p0 w =
     (case normalize p0 of
        Inl er \<Rightarrow> (Inl er, w)
      | Inr p \<Rightarrow>
          let w1 = observe e w in
          (case bg_rev_parse bg (bp_MainRef p @ ''^{commit}'') (w_refs w1) of
             None \<Rightarrow> (Inl ErrBridgeRevParse, w1)
           | Some out \<Rightarrow>
               let plan = \<lparr>bl_MainSHA = trim_space out, bl_IntegrationSHA = [], bl_Beads = [], bl_Unattributed = []\<rparr> in
               (case resolveRef e bg ''refs/loto/integration'' w1 of
                  (Inl er, w2) \<Rightarrow> (Inl er, w2)
                | (Inr None, w2) \<Rightarrow> (Inr plan, w2)
                | (Inr (Some integ), w2) \<Rightarrow>
                    (case readPromotedCommits e bg (bp_MainRef p) w2 of
                       (Inl er, w3) \<Rightarrow> (Inl er, w3)
                     | (Inr commits, w3) \<Rightarrow>
                         (case groupByBead commits of (groups, un) \<Rightarrow>
                           (case plan_groups e bg (bl_MainSHA plan) (bp_BeadID p) groups w3 of
                              (Inl er, w4) \<Rightarrow> (Inl er, w4)
                            | (Inr bs, w4) \<Rightarrow>
                                (Inr (plan\<lparr>bl_IntegrationSHA := integ, bl_Beads := sort_key bd_BeadID bs,
                                        bl_Unattributed := un\<rparr>), w4)))))))"

subsection \<open>Building a branch\<close>

definition isBatchTrailer :: "string \<Rightarrow> bool" where
  "isBatchTrailer k \<longleftrightarrow> k \<in> {trailerBatch, trailerCandidates, trailerHost, trailerPID, trailerProcStart}"

definition drops_line :: "string \<Rightarrow> bool" where
  "drops_line l \<longleftrightarrow> (case cut_str '': '' (trim_space l) of None \<Rightarrow> False | Some (k, _) \<Rightarrow> isBatchTrailer k)"

definition stripBatchTrailers :: "string \<Rightarrow> string" where
  "stripBatchTrailers msg = join_with [NL] (filter (\<lambda>l. \<not> drops_line l) (split_on NL msg))"

definition replay_message :: "BridgeCommit \<Rightarrow> string" where
  "replay_message c =
     (let msg = stripBatchTrailers (bc_Message c);
          msg' = (if has_suffix msg [NL] then msg else msg @ [NL])
      in msg' @ trailer bridgeSourceTrailer (bc_SHA c))"

definition replay_identity :: "BridgeCommit \<Rightarrow> string list" where
  "replay_identity c =
     [''GIT_AUTHOR_NAME='' @ bc_AuthorName c, ''GIT_AUTHOR_EMAIL='' @ bc_AuthorEmail c,
      ''GIT_AUTHOR_DATE='' @ bc_AuthorDate c, ''GIT_COMMITTER_NAME='' @ bc_CommitterName c,
      ''GIT_COMMITTER_EMAIL='' @ bc_CommitterEmail c, ''GIT_COMMITTER_DATE='' @ bc_CommitterDate c]"

definition bridgeCommitTree ::
  "bridge_git \<Rightarrow> string \<Rightarrow> string \<Rightarrow> BridgeCommit \<Rightarrow> bridge_error + string" where
  "bridgeCommitTree bg tree par c =
     (case bg_commit bg tree par (replay_identity c) (replay_message c) of
        None \<Rightarrow> Inl ErrBridgeCommit | Some out \<Rightarrow> Inr (trim_space out))"

fun replay_loop :: "promote_env \<Rightarrow> bridge_git \<Rightarrow> string \<Rightarrow> BridgeCommit list \<Rightarrow> bridge_error + string" where
  "replay_loop e bg head [] = Inr head"
| "replay_loop e bg head (c # cs) =
     (case applyTransitions e head (bc_Transitions c) of
        Inl er \<Rightarrow> Inl (ErrBridgeIndex er)
      | Inr tree \<Rightarrow>
          (case bridgeCommitTree bg tree head c of
             Inl er \<Rightarrow> Inl er | Inr head' \<Rightarrow> replay_loop e bg head' cs))"

definition refWrite :: "string \<Rightarrow> string \<Rightarrow> string \<Rightarrow> bool \<Rightarrow> RefUpdate" where
  "refWrite ref newSHA oldSHA present =
     (if \<not> present then \<lparr>ru_Verb = VerbCreate, ru_Ref = ref, ru_NewSHA = newSHA, ru_OldSHA = []\<rparr>
      else \<lparr>ru_Verb = VerbUpdate, ru_Ref = ref, ru_NewSHA = newSHA, ru_OldSHA = oldSHA\<rparr>)"

definition bridge_updates :: "BeadBridge \<Rightarrow> string \<Rightarrow> RefUpdate list" where
  "bridge_updates b head =
     [refWrite (bd_Ref b) head (bd_Parent b) (bd_hadBranch b),
      refWrite (bd_markerRef b) (bc_SHA (last (bd_Pending b))) (bd_markerSHA b) (bd_markerSHA b \<noteq> [])]"

definition BuildBridge ::
  "promote_env \<Rightarrow> bridge_git \<Rightarrow> BridgeParams \<Rightarrow> BeadBridge \<Rightarrow> 'w world_scheme \<Rightarrow>
     (bridge_error option \<times> BeadBridge) \<times> 'w world_scheme" where
  "BuildBridge e bg p b w =
     (case normalize p of
        Inl er \<Rightarrow> ((Some er, b), w)
      | Inr _ \<Rightarrow>
          if bd_Class b \<noteq> BridgeBuildable \<or> bd_Pending b = []
          then ((Some (ErrBridgeNotBuildable (bd_BeadID b)), b), w)
          else if \<not> e_tempdir e (w_tick w) then ((Some ErrBridgeTempdir, b), w)
          else case replay_loop e bg (bd_Parent b) (bd_Pending b) of
                 Inl er \<Rightarrow> ((Some er, b), w)
               | Inr head \<Rightarrow>
                   (case UpdateRefsTx e (bridge_updates b head) w of
                      (Some er, w1) \<Rightarrow> ((Some (ErrBridgeRefs er), b), w1)
                    | (None, w1) \<Rightarrow> ((None, b\<lparr>bd_Head := head, bd_Class := BridgeBuilt\<rparr>), w1)))"

end
