(* ===== verification/BridgeFacts.thy ===== *)
theory BridgeFacts
  imports Bridge Batches
begin

text \<open>
  What the bridge guarantees: how commits are grouped and picked, what the replayed branch holds, that a
  branch built is a branch past, and what the rewritten messages keep.
\<close>

subsection \<open>Grouping\<close>

definition of_bead :: "string \<Rightarrow> BridgeCommit list \<Rightarrow> BridgeCommit list" where
  "of_bead bead cs = filter (\<lambda>c. beadID c = bead) cs"

text \<open>What the groups are worth at any point of the loop: each holds the usable commits of its bead read so
  far, and every such bead has one.\<close>

definition groups_of :: "BridgeCommit list \<Rightarrow> groups \<Rightarrow> bool" where
  "groups_of past gs \<longleftrightarrow>
     distinct (map fst gs) \<and> fst ` set gs = beadID ` {c \<in> set past. beadIDUsableAsRef (beadID c)} \<and>
     (\<forall>g \<in> set gs. snd g = of_bead (fst g) past)"

lemma add_to_group_keys:
  "map fst (add_to_group bead c gs) = (if bead \<in> fst ` set gs then map fst gs else map fst gs @ [bead])"
  by (auto simp: add_to_group_def comp_def intro!: map_cong)

lemma add_to_group_of:
  assumes "groups_of past gs" "beadIDUsableAsRef (beadID c)"
  shows "groups_of (past @ [c]) (add_to_group (beadID c) c gs)"
proof -
  let ?b = "beadID c"
  have d: "distinct (map fst gs)" and keys: "fst ` set gs = beadID ` {c \<in> set past. beadIDUsableAsRef (beadID c)}"
    and vals: "\<And>g. g \<in> set gs \<Longrightarrow> snd g = of_bead (fst g) past"
    using assms(1) by (auto simp: groups_of_def)
  have "distinct (map fst (add_to_group ?b c gs))"
    unfolding add_to_group_keys using d by auto
  moreover have "fst ` set (add_to_group ?b c gs) = insert ?b (fst ` set gs)"
    unfolding set_map [symmetric] add_to_group_keys by auto
  moreover have "insert ?b (fst ` set gs) = beadID ` {c' \<in> set (past @ [c]). beadIDUsableAsRef (beadID c')}"
    unfolding keys using assms(2) by auto
  moreover have "snd g = of_bead (fst g) (past @ [c])" if g: "g \<in> set (add_to_group ?b c gs)" for g
  proof (cases "?b \<in> fst ` set gs")
    case True
    with g have "g \<in> (\<lambda>g. if fst g = ?b then (?b, snd g @ [c]) else g) ` set gs"
      by (simp add: add_to_group_def)
    then obtain g0 where g0: "g0 \<in> set gs" "g = (if fst g0 = ?b then (?b, snd g0 @ [c]) else g0)"
      by (rule imageE)
    show ?thesis using vals [OF g0(1)] by (simp add: g0(2) of_bead_def)
  next
    case False
    have "beadID c' \<noteq> ?b" if "c' \<in> set past" for c'
    proof
      assume eq: "beadID c' = ?b"
      have "?b \<in> beadID ` {c \<in> set past. beadIDUsableAsRef (beadID c)}"
        by (rule image_eqI [of _ _ c']) (use that eq assms(2) in simp_all)
      with False show "False" unfolding keys by simp
    qed
    then have "of_bead ?b past = []" by (simp add: of_bead_def filter_empty_conv)
    then have new: "of_bead ?b (past @ [c]) = [c]" by (simp add: of_bead_def)
    show ?thesis
    proof (cases "g \<in> set gs")
      case True
      then have "fst g \<noteq> ?b" using False by (metis imageI)
      with vals [OF True] show ?thesis by (simp add: of_bead_def)
    next
      case not_old: False
      then have "g = (?b, [c])" using False g by (simp add: add_to_group_def)
      with new show ?thesis by (simp only: fst_conv snd_conv)
    qed
  qed
  ultimately show ?thesis unfolding groups_of_def by auto
qed

lemma groups_of_skip:
  assumes "groups_of past gs" "\<not> beadIDUsableAsRef (beadID c)"
  shows "groups_of (past @ [c]) gs"
proof -
  have "beadID c \<notin> fst ` set gs" using assms unfolding groups_of_def by auto
  then have "of_bead (fst g) (past @ [c]) = of_bead (fst g) past" if "g \<in> set gs" for g
    using that by (auto simp: of_bead_def)
  moreover have "{c' \<in> set (past @ [c]). beadIDUsableAsRef (beadID c')} = {c' \<in> set past. beadIDUsableAsRef (beadID c')}"
    using assms(2) by auto
  ultimately show ?thesis using assms(1) unfolding groups_of_def by simp
qed

lemma group_loop_exact:
  assumes "groups_of past gs" "group_loop cs gs un = (gs', un')"
  shows "groups_of (past @ cs) gs' \<and> un' = un @ filter (\<lambda>c. \<not> beadIDUsableAsRef (beadID c)) cs"
  using assms
proof (induction cs arbitrary: past gs un)
  case Nil
  then show ?case by simp
next
  case (Cons c cs)
  show ?case
  proof (cases "beadIDUsableAsRef (beadID c)")
    case True
    with Cons.IH [OF add_to_group_of [OF Cons.prems(1) True]] Cons.prems(2) show ?thesis by simp
  next
    case False
    with Cons.IH [OF groups_of_skip [OF Cons.prems(1) False], of "un @ [c]"] Cons.prems(2) show ?thesis by simp
  qed
qed

lemma groupByBead_exact:
  "groupByBead cs = (gs, un) \<Longrightarrow> groups_of cs gs \<and> un = filter (\<lambda>c. \<not> beadIDUsableAsRef (beadID c)) cs"
  using group_loop_exact [of "[]" "[]" cs "[]" gs un] by (simp add: groupByBead_def groups_of_def)

subsection \<open>The rewritten message\<close>

lemma trailer_loop_other:
  "\<not> isBatchTrailer k \<Longrightarrow> m k = m' k \<Longrightarrow>
     trailer_loop m (filter (\<lambda>l. \<not> drops_line l) ls) k = trailer_loop m' ls k"
proof (induction ls arbitrary: m m')
  case Nil
  then show ?case by simp
next
  case (Cons l ls)
  show ?case
  proof (cases "cut_str '': '' (trim_space l)")
    case None
    with Cons show ?thesis by (simp add: drops_line_def)
  next
    case (Some kv)
    obtain a v where kv: "kv = (a, v)" by (cases kv)
    show ?thesis
    proof (cases "isBatchTrailer a")
      case True
      then have "m k = (m'(a \<mapsto> trim_space v)) k" using Cons.prems by auto
      with Cons.IH [of m "m'(a \<mapsto> trim_space v)"] Cons.prems(1) True Some kv
      show ?thesis by (simp add: drops_line_def fun_upd_def)
    next
      case False
      have "(m(a \<mapsto> trim_space v)) k = (m'(a \<mapsto> trim_space v)) k" using Cons.prems(2) by simp
      with Cons.IH [of "m(a \<mapsto> trim_space v)" "m'(a \<mapsto> trim_space v)"] Cons.prems(1) False Some kv
      show ?thesis by (simp add: drops_line_def fun_upd_def)
    qed
  qed
qed

lemma trailer_loop_batch:
  "isBatchTrailer k \<Longrightarrow> trailer_loop m (filter (\<lambda>l. \<not> drops_line l) ls) k = m k"
proof (induction ls arbitrary: m)
  case Nil
  then show ?case by simp
next
  case (Cons l ls)
  then show ?case
    by (auto simp: drops_line_def split: option.splits prod.splits)
qed

lemma kept_lines:
  "trailer_loop m (split_on NL (stripBatchTrailers msg)) =
     trailer_loop m (filter (\<lambda>l. \<not> drops_line l) (split_on NL msg))"
proof (cases "filter (\<lambda>l. \<not> drops_line l) (split_on NL msg) = []")
  case True
  then show ?thesis by (simp add: stripBatchTrailers_def trim_space_def)
next
  case False
  have "\<forall>l \<in> set (filter (\<lambda>l. \<not> drops_line l) (split_on NL msg)). NL \<notin> set l"
    using split_on_parts_free [of _ NL msg] by auto
  note sj = split_join [OF False this]
  show ?thesis unfolding stripBatchTrailers_def sj ..
qed

lemma stripBatchTrailers_reads:
  "parseTrailers (stripBatchTrailers msg) k = (if isBatchTrailer k then [] else parseTrailers msg k)"
  by (simp add: parseTrailers_def kept_lines trailer_loop_batch trailer_loop_other)

text \<open>A replayed commit never has the message of its source: it has a line more, or has lost one.\<close>

lemma source_line:
  assumes "word s"
  shows "\<not> drops_line (bridgeSourceTrailer @ '': '' @ s)"
proof -
  have s: "s \<noteq> []" "\<not> is_space (last s)" using assms last_in_set [of s] by (auto simp: word_def list_all_iff)
  have "last (bridgeSourceTrailer @ '': '' @ s) = last s" using s(1) by simp
  moreover have "hd (bridgeSourceTrailer @ '': '' @ s) = CHR ''S''" by (simp add: bridgeSourceTrailer_def)
  moreover have "\<not> is_space CHR ''S''" by code_simp
  ultimately have "trim_space (bridgeSourceTrailer @ '': '' @ s) = bridgeSourceTrailer @ '': '' @ s"
    using s by (intro trim_space_word) (simp_all only: append_is_Nil_conv simp_thms)
  moreover have "CHR '':'' \<notin> set bridgeSourceTrailer" by code_simp
  ultimately have "cut_str '': '' (trim_space (bridgeSourceTrailer @ '': '' @ s)) = Some (bridgeSourceTrailer, s)"
    by (simp only: cut_str_colon simp_thms)
  moreover have "\<not> isBatchTrailer bridgeSourceTrailer" by code_simp
  ultimately show ?thesis by (simp add: drops_line_def)
qed

lemma drops_line_Nil [simp]: "\<not> drops_line []"
  by (simp add: drops_line_def trim_space_def)

lemma stripped_lines: "l \<in> set (split_on NL (stripBatchTrailers msg)) \<Longrightarrow> \<not> drops_line l"
proof -
  assume l: "l \<in> set (split_on NL (stripBatchTrailers msg))"
  let ?ls = "filter (\<lambda>l. \<not> drops_line l) (split_on NL msg)"
  show ?thesis
  proof (cases "?ls = []")
    case True
    with l show ?thesis by (simp add: stripBatchTrailers_def)
  next
    case False
    have "\<forall>l \<in> set ?ls. NL \<notin> set l"
      using split_on_parts_free [of _ NL msg] by auto
    note sj = split_join [OF False this]
    have "l \<in> set ?ls" using l unfolding stripBatchTrailers_def sj .
    then show ?thesis by (simp only: set_filter mem_Collect_eq simp_thms)
  qed
qed

lemma split_on_three: "d \<notin> set b \<Longrightarrow> split_on d (x @ d # b @ d # []) = split_on d x @ [b, []]"
  by simp

lemma replay_lines:
  assumes "word (bc_SHA c)" "l \<in> set (split_on NL (replay_message c))"
  shows "\<not> drops_line l"
proof -
  let ?m = "stripBatchTrailers (bc_Message c)" and ?src = "bridgeSourceTrailer @ '': '' @ bc_SHA c"
  have tail: "trailer bridgeSourceTrailer (bc_SHA c) = ?src @ [NL]"
    by (simp only: trailer_def append_assoc)
  obtain x where x: "replay_message c = x @ NL # ?src @ NL # []" "x = ?m \<or> ?m = x @ [NL]"
  proof (cases "has_suffix ?m [NL]")
    case True
    then obtain y where y: "?m = y @ [NL]" by (rule suffixE)
    have "replay_message c = y @ NL # ?src @ NL # []"
      unfolding replay_message_def Let_def tail using True by (simp only: y if_True append_assoc append.simps)
    then show ?thesis by (rule that [OF _ disjI2]) (rule y)
  next
    case False
    have "replay_message c = ?m @ NL # ?src @ NL # []"
      unfolding replay_message_def Let_def tail using False by (simp only: if_False append_assoc append.simps)
    then show ?thesis by (rule that [OF _ disjI1]) (rule refl)
  qed
  have "NL \<notin> set (bridgeSourceTrailer @ '': '')" by code_simp
  then have nl: "NL \<notin> set ?src"
    using word_free(1) [OF assms(1)] by (simp only: set_append Un_iff append_assoc [symmetric] de_Morgan_disj simp_thms)
  have "split_on NL (replay_message c) = split_on NL x @ [?src, []]"
    unfolding x(1) by (rule split_on_three [OF nl])
  then have "l \<in> set (split_on NL x) \<or> l = ?src \<or> l = []"
    using assms(2) by (simp only: set_append set_simps Un_iff insert_iff empty_iff simp_thms)
  moreover have "set (split_on NL x) \<subseteq> set (split_on NL ?m)"
    using x(2) by (elim disjE) (simp_all only: split_on_append_sep set_append Un_upper1 order_refl)
  ultimately show ?thesis
    using stripped_lines source_line [OF assms(1)] drops_line_Nil by (elim disjE) blast+
qed

lemma replay_message_differs:
  assumes "word (bc_SHA c)"
  shows "replay_message c \<noteq> bc_Message c"
proof
  assume eq: "replay_message c = bc_Message c"
  have "filter (\<lambda>l. \<not> drops_line l) (split_on NL (bc_Message c)) = split_on NL (bc_Message c)"
    using replay_lines [OF assms] unfolding eq by (simp add: filter_id_conv)
  then have "stripBatchTrailers (bc_Message c) = bc_Message c" by (simp add: stripBatchTrailers_def)
  then have "length (replay_message c) \<ge> length (bc_Message c) + length (trailer bridgeSourceTrailer (bc_SHA c))"
    by (simp add: replay_message_def Let_def)
  moreover have "length (trailer bridgeSourceTrailer (bc_SHA c)) > 0" by (simp add: trailer_def)
  ultimately have "length (replay_message c) > length (bc_Message c)" by linarith
  with eq show False by simp
qed

subsection \<open>What git does with objects\<close>

definition put :: "Transition \<Rightarrow> (string \<Rightarrow> BlobRef option) \<Rightarrow> string \<Rightarrow> BlobRef option" where
  "put tr m = m(tr_Path tr := tr_Result tr)"

text \<open>A transition \<open>update-index --index-info\<close> reads back as it was written: git unquotes a path that
  begins with a quote, and a line ends at a newline.\<close>

definition index_ok :: "Transition \<Rightarrow> bool" where
  "index_ok tr \<longleftrightarrow> tr_Path tr \<noteq> [] \<and> NL \<notin> set (tr_Path tr) \<and> hd (tr_Path tr) \<noteq> CHR 0x22 \<and>
     (case tr_Result tr of None \<Rightarrow> True | Some x \<Rightarrow> word (br_Mode x) \<and> word (br_SHA x) \<and> br_Mode x \<noteq> ''0'')"

fun status_pairs :: "string list \<Rightarrow> (string \<times> string) list" where
  "status_pairs (st # p # rest) = (st, p) # status_pairs rest"
| "status_pairs _ = []"

text \<open>\<open>T\<close> is the content of a commit or tree and \<open>I\<close> that of an index.  \<open>ls-tree\<close> tells the content,
  \<open>read-tree\<close>, \<open>update-index\<close>, \<open>write-tree\<close> and \<open>commit-tree\<close> pass it on, and \<open>diff-tree\<close> lists as
  deleted only what is not there.\<close>

definition documented_objects ::
  "promote_env \<Rightarrow> bridge_git \<Rightarrow> (string \<Rightarrow> string \<Rightarrow> BlobRef option) \<Rightarrow> (string \<Rightarrow> string \<Rightarrow> BlobRef option) \<Rightarrow> bool" where
  "documented_objects e bg T I \<longleftrightarrow>
     (\<forall>n c p x. blobAt (e_git e n) c p = Inr x \<longrightarrow> x = T c p) \<and>
     (\<forall>n sha raw. git_run (e_git e n) [''diff-tree'', ''-r'', ''-z'', ''--no-commit-id'', ''--name-status'', sha] = Some raw \<longrightarrow>
        (\<forall>(st, p) \<in> set (status_pairs (split_on NUL (trim_right_of NUL raw))).
           st \<noteq> [] \<longrightarrow> hd st = CHR ''D'' \<longrightarrow> T sha p = None)) \<and>
     (\<forall>c i. e_read_tree e (c @ ''^{tree}'') = Some i \<longrightarrow> I i = T c) \<and>
     (\<forall>i trs j. list_all index_ok trs \<longrightarrow> e_update_index e i (concat (map index_line trs)) = Some j \<longrightarrow>
        I j = fold put trs (I i)) \<and>
     (\<forall>i t. e_write_tree e i = Some t \<longrightarrow> T (trim_space t) = I i) \<and>
     (\<forall>t par ident msg out. bg_commit bg t par ident msg = Some out \<longrightarrow> T (trim_space out) = T t)"

lemma documented_blobAt: "documented_objects e bg T I \<Longrightarrow> blobAt (e_git e n) c p = Inr x \<Longrightarrow> x = T c p"
  by (simp add: documented_objects_def)

lemma documented_deleted:
  assumes "documented_objects e bg T I"
    and "git_run (e_git e n) [''diff-tree'', ''-r'', ''-z'', ''--no-commit-id'', ''--name-status'', sha] = Some raw"
    and "(st, p) \<in> set (status_pairs (split_on NUL (trim_right_of NUL raw)))" "st \<noteq> []" "hd st = CHR ''D''"
  shows "T sha p = None"
proof -
  have "\<forall>(st, p) \<in> set (status_pairs (split_on NUL (trim_right_of NUL raw))).
      st \<noteq> [] \<longrightarrow> hd st = CHR ''D'' \<longrightarrow> T sha p = None"
    using assms(1,2) unfolding documented_objects_def by (elim conjE) (drule spec, drule spec, drule spec, erule mp)
  from bspec [OF this assms(3)] assms(4,5) show ?thesis by simp
qed

lemma documented_apply:
  assumes "documented_objects e bg T I" "applyTransitions e c trs = Inr tree" "list_all index_ok trs"
  shows "T tree = fold put trs (T c)"
proof -
  from assms(2) obtain i j t where
    i: "e_read_tree e (c @ ''^{tree}'') = Some i" and j: "e_update_index e i (concat (map index_line trs)) = Some j"
    and t: "e_write_tree e j = Some t" "tree = trim_space t"
    by (auto simp: applyTransitions_def split: option.splits)
  have "I i = T c" "I j = fold put trs (I i)" "T (trim_space t) = I j"
    using assms(1,3) i j t unfolding documented_objects_def by blast+
  with t show ?thesis by simp
qed

subsection \<open>The replayed content\<close>

definition faithful :: "(string \<Rightarrow> string \<Rightarrow> BlobRef option) \<Rightarrow> string \<Rightarrow> Transition \<Rightarrow> bool" where
  "faithful T sha tr \<longleftrightarrow> tr_Path tr \<noteq> [] \<and> tr_Result tr = T sha (tr_Path tr) \<and>
     tr_Expected tr = T (sha @ ''^'') (tr_Path tr)"

lemma status_transitions_faithful:
  assumes "documented_objects e bg T I" "status_transitions (e_git e n) sha fs = Inr trs"
    and "\<And>st p. (st, p) \<in> set (status_pairs fs) \<Longrightarrow> st \<noteq> [] \<Longrightarrow> hd st = CHR ''D'' \<Longrightarrow> T sha p = None"
  shows "\<forall>tr \<in> set trs. tr_Path tr \<noteq> [] \<and> tr_Result tr = T sha (tr_Path tr)"
  using assms(2,3)
proof (induction fs arbitrary: trs rule: status_pairs.induct)
  case (1 st p rest)
  have del: "\<And>st p. (st, p) \<in> set (status_pairs rest) \<Longrightarrow> st \<noteq> [] \<Longrightarrow> hd st = CHR ''D'' \<Longrightarrow> T sha p = None"
    by (rule 1(3)) simp_all
  note tail = 1(1) [OF _ del]
  show ?case
  proof (cases "st = [] \<or> p = []")
    case True
    with 1(2) tail show ?thesis by auto
  next
    case False
    show ?thesis
    proof (cases "hd st \<in> {CHR ''M'', CHR ''A'', CHR ''T''}")
      case True
      with 1(2) False obtain x trs' where x: "blobAt (e_git e n) sha p = Inr x"
        "status_transitions (e_git e n) sha rest = Inr trs'"
        "trs = \<lparr>tr_Path = p, tr_Expected = None, tr_Result = x\<rparr> # trs'"
        by (auto split: sum.splits)
      with tail [OF x(2)] documented_blobAt [OF assms(1) x(1)] False show ?thesis by simp
    next
      case not_read: False
      with 1(2) False have d: "hd st = CHR ''D''" by (auto split: if_splits)
      with 1(2) False not_read obtain trs' where x: "status_transitions (e_git e n) sha rest = Inr trs'"
        "trs = \<lparr>tr_Path = p, tr_Expected = None, tr_Result = None\<rparr> # trs'"
        by (auto split: sum.splits)
      have "T sha p = None" using 1(3) [of st p] False d by simp
      with tail [OF x(1)] x(2) False show ?thesis by simp
    qed
  qed
qed simp_all

lemma fill_expected_faithful:
  assumes "documented_objects e bg T I" "fill_expected (e_git e n) (sha @ ''^'') trs = Inr trs'"
    and "\<forall>tr \<in> set trs. tr_Path tr \<noteq> [] \<and> tr_Result tr = T sha (tr_Path tr)"
  shows "\<forall>tr \<in> set trs'. faithful T sha tr"
  using assms(2,3)
proof (induction trs arbitrary: trs')
  case Nil
  then show ?case by simp
next
  case (Cons tr trs)
  then obtain x us where x: "blobAt (e_git e n) (sha @ ''^'') (tr_Path tr) = Inr x"
    "fill_expected (e_git e n) (sha @ ''^'') trs = Inr us" "trs' = tr\<lparr>tr_Expected := x\<rparr> # us"
    by (auto split: sum.splits)
  with Cons documented_blobAt [OF assms(1) x(1)] show ?case by (simp add: faithful_def)
qed

lemma commitTransitions_faithful:
  assumes "documented_objects e bg T I" "commitTransitions (e_git e n) sha = Inr trs"
  shows "\<forall>tr \<in> set trs. faithful T sha tr"
proof -
  from assms(2) obtain raw us vs where
    raw: "git_run (e_git e n) [''diff-tree'', ''-r'', ''-z'', ''--no-commit-id'', ''--name-status'', sha] = Some raw"
    and us: "status_transitions (e_git e n) sha (split_on NUL (trim_right_of NUL raw)) = Inr us"
    and vs: "fill_expected (e_git e n) (sha @ ''^'') us = Inr vs" "trs = sort_key tr_Path vs"
    unfolding commitTransitions_def
    by (cases "git_run (e_git e n) [''diff-tree'', ''-r'', ''-z'', ''--no-commit-id'', ''--name-status'', sha]")
      (auto split: sum.splits)
  have "\<forall>tr \<in> set us. tr_Path tr \<noteq> [] \<and> tr_Result tr = T sha (tr_Path tr)"
    by (rule status_transitions_faithful [OF assms(1) us]) (rule documented_deleted [OF assms(1) raw])
  from fill_expected_faithful [OF assms(1) vs(1) this] vs(2) show ?thesis by simp
qed

lemma loadTransitions_faithful:
  assumes "documented_objects e bg T I" "loadTransitions (e_git e n) cs = Inr cs'"
  shows "map bc_SHA cs' = map bc_SHA cs \<and> (\<forall>c \<in> set cs'. \<forall>tr \<in> set (bc_Transitions c). faithful T (bc_SHA c) tr)"
  using assms(2)
proof (induction cs arbitrary: cs')
  case Nil
  then show ?case by simp
next
  case (Cons c cs)
  then obtain trs ds where t: "commitTransitions (e_git e n) (bc_SHA c) = Inr trs"
    "loadTransitions (e_git e n) cs = Inr ds" "cs' = c\<lparr>bc_Transitions := trs\<rparr> # ds"
    by (auto split: sum.splits)
  with Cons.IH [OF t(2)] commitTransitions_faithful [OF assms(1) t(1)] show ?case by simp
qed

lemma loadTransitions_shas: "loadTransitions git cs = Inr cs' \<Longrightarrow> map bc_SHA cs' = map bc_SHA cs"
  by (induction cs arbitrary: cs') (auto split: sum.splits)

lemma add_new_set: "set (fold add_new ps out) = set out \<union> set ps"
  by (induction ps arbitrary: out) (auto simp: add_new_def)

lemma sameBlob_eq: "sameBlob a b \<longleftrightarrow> a = b"
  by (cases a; cases b) (auto simp: sameBlob_def)

lemma stale_loop_ok:
  assumes "documented_objects e bg T I" "stale_loop (e_git e n) par expected ps = Inr []" "[] \<notin> set ps" "p \<in> set ps"
  shows "T par p = Option.bind (expected p) id"
  using assms(2-)
proof (induction ps)
  case Nil
  then show ?case by simp
next
  case (Cons a ps)
  from Cons.prems(1) obtain x where x: "blobAt (e_git e n) par a = Inr x" by (auto split: sum.splits)
  with documented_blobAt [OF assms(1) x] Cons.prems have "T par a = Option.bind (expected a) id"
    by (auto simp: sameBlob_eq split: if_splits)
  with Cons x show ?case by (auto simp: id_def split: if_splits)
qed

definition touches :: "string \<Rightarrow> BridgeCommit \<Rightarrow> bool" where
  "touches q c \<longleftrightarrow> list_ex (\<lambda>tr. tr_Path tr = q) (bc_Transitions c)"

lemma map_of_faithful:
  "\<forall>tr \<in> set trs. faithful T sha tr \<Longrightarrow>
     map_of (map (\<lambda>tr. (tr_Path tr, tr_Expected tr)) trs) q =
       (if list_ex (\<lambda>tr. tr_Path tr = q) trs then Some (T (sha @ ''^'') q) else None)"
  by (induction trs) (auto simp: faithful_def)

lemma expected_first:
  assumes "\<forall>c \<in> set cs. \<forall>tr \<in> set (bc_Transitions c). faithful T (bc_SHA c) tr"
  shows "expected_of cs q = map_option (\<lambda>c. T (bc_SHA c @ ''^'') q) (find (touches q) cs)"
  using assms
proof (induction cs)
  case Nil
  then show ?case by (simp add: expected_of_def pending_transitions_def)
next
  case (Cons c cs)
  have "\<forall>tr \<in> set (bc_Transitions c). faithful T (bc_SHA c) tr" using Cons.prems by simp
  note first = map_of_faithful [OF this, of q]
  have "expected_of cs q = map_option (\<lambda>c. T (bc_SHA c @ ''^'') q) (find (touches q) cs)"
    using Cons by simp
  then show ?case
    by (cases "touches q c")
      (simp_all add: expected_of_def pending_transitions_def map_add_def first touches_def [abs_def])
qed

lemma fold_put_commit:
  "\<forall>tr \<in> set trs. tr_Result tr = r (tr_Path tr) \<Longrightarrow>
     fold put trs m q = (if list_ex (\<lambda>tr. tr_Path tr = q) trs then r q else m q)"
  by (induction trs arbitrary: m) (auto simp: put_def)

lemma fold_put_last:
  assumes "\<forall>c \<in> set cs. \<forall>tr \<in> set (bc_Transitions c). faithful T (bc_SHA c) tr"
  shows "fold put (pending_transitions cs) m q =
    (case find (touches q) (rev cs) of None \<Rightarrow> m q | Some c \<Rightarrow> T (bc_SHA c) q)"
  using assms
proof (induction cs rule: rev_induct)
  case Nil
  then show ?case by (simp add: pending_transitions_def)
next
  case (snoc c cs)
  have "\<forall>tr \<in> set (bc_Transitions c). tr_Result tr = T (bc_SHA c) (tr_Path tr)"
    using snoc.prems by (simp add: faithful_def)
  from fold_put_commit [OF this] snoc show ?case
    by (simp add: pending_transitions_def touches_def)
qed

lemma replay_loop_content:
  assumes "documented_objects e bg T I" "replay_loop e bg head cs = Inr head'"
    "list_all index_ok (pending_transitions cs)"
  shows "T head' = fold put (pending_transitions cs) (T head)"
  using assms(2,3)
proof (induction cs arbitrary: head)
  case Nil
  then show ?case by (simp add: pending_transitions_def)
next
  case (Cons c cs)
  then obtain tree out where t: "applyTransitions e head (bc_Transitions c) = Inr tree"
    "bg_commit bg tree head (replay_identity c) (replay_message c) = Some out"
    "replay_loop e bg (trim_space out) cs = Inr head'"
    by (auto simp: bridgeCommitTree_def split: sum.splits option.splits)
  have "T (trim_space out) = T tree"
    using assms(1) t(2) unfolding documented_objects_def by blast
  moreover have "T tree = fold put (bc_Transitions c) (T head)"
    by (rule documented_apply [OF assms(1) t(1)]) (use Cons.prems(2) in \<open>simp add: pending_transitions_def\<close>)
  ultimately show ?case
    using Cons.IH [OF t(3)] Cons.prems(2) by (simp add: pending_transitions_def)
qed

subsection \<open>Plans\<close>

lemma add_new_nonempty: "[] \<notin> set (fold add_new ps out) \<longleftrightarrow> [] \<notin> set out \<and> [] \<notin> set ps"
  by (auto simp: add_new_set)

text \<open>A bead the plan calls buildable: its commits are faithful and its base holds their preimages.\<close>

definition sound_bead :: "(string \<Rightarrow> string \<Rightarrow> BlobRef option) \<Rightarrow> BeadBridge \<Rightarrow> bool" where
  "sound_bead T b \<longleftrightarrow>
     (\<forall>c \<in> set (bd_Pending b). \<forall>tr \<in> set (bc_Transitions c). faithful T (bc_SHA c) tr) \<and>
     set (bd_WriteSet b) = {q. \<exists>c \<in> set (bd_Pending b). touches q c} \<and>
     (\<forall>q c. find (touches q) (bd_Pending b) = Some c \<longrightarrow> T (bd_Parent b) q = T (bc_SHA c @ ''^'') q)"

lemma decide_bead_buildable:
  assumes "decide_bead git main bead commits branch marker = Inr b" "bd_Class b = BridgeBuildable"
  obtains pending loaded where
    "selectPending commits (case marker of None \<Rightarrow> [] | Some x \<Rightarrow> x) (marker \<noteq> None) (branch \<noteq> None) =
       (pending, BridgeUndecided, [])"
    "loadTransitions git pending = Inr loaded" "bd_Pending b = loaded" "bd_WriteSet b = aggregateWriteSet loaded"
    "planStaleBase git (bd_Parent b) loaded = Inr []" "pending \<noteq> []"
    "bd_Parent b = (case branch of None \<Rightarrow> main | Some x \<Rightarrow> x)" "bd_Ref b = bridgeBranchPrefix @ bead"
    "bd_markerRef b = bridgedRefPrefix @ bead" "bd_BeadID b = bead" "bd_hadBranch b = (branch \<noteq> None)"
    "bd_markerSHA b = (case marker of None \<Rightarrow> [] | Some x \<Rightarrow> x)"
proof -
  obtain pending cls detail where sp:
    "selectPending commits (case marker of None \<Rightarrow> [] | Some x \<Rightarrow> x) (marker \<noteq> None) (branch \<noteq> None) = (pending, cls, detail)"
    by (metis prod_cases3)
  have "cls \<noteq> BridgeBuildable" "cls = BridgeUndecided \<Longrightarrow> detail = []"
    using sp by (auto simp: selectPending_def split: option.splits if_splits)
  with assms sp that [of pending] show ?thesis
    by (cases branch) (auto simp: decide_bead_def Let_def new_bead_def split: if_splits sum.splits)
qed

lemma decide_bead_sound:
  assumes "documented_objects e bg T I"
    "decide_bead (e_git e n) main bead commits branch marker = Inr b" "bd_Class b = BridgeBuildable"
  shows "sound_bead T b"
proof (rule decide_bead_buildable [OF assms(2,3)])
  fix pending loaded
  assume l: "loadTransitions (e_git e n) pending = Inr loaded" and b: "bd_Pending b = loaded"
    "bd_WriteSet b = aggregateWriteSet loaded" and st: "planStaleBase (e_git e n) (bd_Parent b) loaded = Inr []"
  have f: "\<forall>c \<in> set loaded. \<forall>tr \<in> set (bc_Transitions c). faithful T (bc_SHA c) tr"
    using loadTransitions_faithful [OF assms(1) l] by blast
  let ?paths = "sort (fold add_new (map tr_Path (pending_transitions loaded)) [])"
  have ps: "set ?paths = {q. \<exists>c \<in> set loaded. touches q c}"
    by (auto simp: add_new_set pending_transitions_def touches_def list_ex_iff)
  have ne: "[] \<notin> set ?paths"
    using f by (auto simp: add_new_set pending_transitions_def faithful_def dest: sym)
  have "T (bd_Parent b) q = T (bc_SHA c @ ''^'') q" if c: "find (touches q) loaded = Some c" for q c
  proof -
    have "q \<in> set ?paths" using c unfolding ps by (auto simp: find_Some_iff)
    from stale_loop_ok [OF assms(1) st [unfolded planStaleBase_def] ne this]
    show ?thesis by (simp add: expected_first [OF f] c)
  qed
  with f ps show ?thesis by (simp add: sound_bead_def b aggregateWriteSet_def)
qed

lemma planBead_decides:
  assumes "planBead e bg main bead commits w = (Inr b, w')"
  obtains branch marker w1 where
    "resolveRef e bg (bridgeBranchPrefix @ bead) w = (Inr branch, w1)"
    "resolveRef e bg (bridgedRefPrefix @ bead) w1 = (Inr marker, w')"
    "decide_bead (e_git e (w_tick w')) main bead commits branch marker = Inr b"
  using assms by (auto simp: planBead_def split: prod.splits sum.splits)

lemma plan_groups_decides:
  assumes "plan_groups e bg main only gs w = (Inr bs, w')" "b \<in> set bs"
  shows "\<exists>g \<in> set gs. \<exists>n branch marker. decide_bead (e_git e n) main (fst g) (snd g) branch marker = Inr b"
  using assms
proof (induction gs arbitrary: w bs)
  case Nil
  then show ?case by simp
next
  case (Cons g gs)
  show ?case
  proof (cases "only \<noteq> [] \<and> fst g \<noteq> only")
    case True
    with Cons show ?thesis by auto
  next
    case False
    with Cons.prems(1) obtain b0 w1 bs' where p: "planBead e bg main (fst g) (snd g) w = (Inr b0, w1)"
      "plan_groups e bg main only gs w1 = (Inr bs', w')" "bs = b0 # bs'"
      by (auto split: prod.splits sum.splits if_splits)
    show ?thesis
    proof (cases "b = b0")
      case True
      with planBead_decides [OF p(1)] show ?thesis by (metis list.set_intros(1))
    next
      case False
      with Cons.IH [OF p(2)] Cons.prems(2) p(3) show ?thesis by auto
    qed
  qed
qed

lemma after_marker_last:
  "distinct (map bc_SHA cs) \<Longrightarrow> cs \<noteq> [] \<Longrightarrow> after_marker (bc_SHA (last cs)) cs = Some []"
  by (induction cs) auto

lemma after_marker_SomeD: "after_marker m cs = Some rest \<Longrightarrow> \<exists>pre. cs = pre @ rest \<and> pre \<noteq> []"
proof (induction cs)
  case Nil
  then show ?case by simp
next
  case (Cons c cs)
  show ?case
  proof (cases "bc_SHA c = m")
    case True
    with Cons.prems show ?thesis by (intro exI [of _ "[c]"]) simp
  next
    case False
    with Cons obtain pre where "cs = pre @ rest" by auto
    then show ?thesis by (intro exI [of _ "c # pre"]) simp
  qed
qed

lemma selectPending_suffix:
  assumes "selectPending commits m hm hb = (pending, BridgeUndecided, [])"
  shows "\<exists>pre. commits = pre @ pending"
  using assms after_marker_SomeD [of m commits]
  by (fastforce simp: selectPending_def split: option.splits if_splits)

lemma decide_bead_id: "decide_bead git main bead commits branch marker = Inr b \<Longrightarrow> bd_BeadID b = bead"
  by (auto simp: decide_bead_def Let_def new_bead_def split: prod.splits if_splits sum.splits)

lemma plan_groups_ids:
  "plan_groups e bg main only gs w = (Inr bs, w') \<Longrightarrow>
     map bd_BeadID bs = filter (\<lambda>x. only = [] \<or> x = only) (map fst gs)"
proof (induction gs arbitrary: w bs)
  case Nil
  then show ?case by simp
next
  case (Cons g gs)
  show ?case
  proof (cases "only \<noteq> [] \<and> fst g \<noteq> only")
    case True
    with Cons show ?thesis by simp
  next
    case False
    with Cons.prems obtain b0 w1 bs' where p: "planBead e bg main (fst g) (snd g) w = (Inr b0, w1)"
      "plan_groups e bg main only gs w1 = (Inr bs', w')" "bs = b0 # bs'"
      by (auto split: prod.splits sum.splits if_splits)
    have "bd_BeadID b0 = fst g" by (rule planBead_decides [OF p(1)]) (rule decide_bead_id)
    with False Cons.IH [OF p(2)] p(3) show ?thesis by auto
  qed
qed

lemma decide_bead_pending:
  assumes "decide_bead git main bead commits branch marker = Inr b"
  shows "bd_Pending b = [] \<or> (\<exists>pre. map bc_SHA commits = pre @ map bc_SHA (bd_Pending b))"
proof -
  obtain pending cls detail where sp:
    "selectPending commits (case marker of None \<Rightarrow> [] | Some x \<Rightarrow> x) (marker \<noteq> None) (branch \<noteq> None) = (pending, cls, detail)"
    by (metis prod_cases3)
  show ?thesis
  proof (cases "bd_Pending b = []")
    case False
    with assms sp obtain loaded where l: "loadTransitions git pending = Inr loaded" "bd_Pending b = loaded"
      "cls = BridgeUndecided"
      by (auto simp: decide_bead_def Let_def new_bead_def split: if_splits sum.splits)
    moreover have "detail = []" using sp l(3) by (auto simp: selectPending_def split: option.splits if_splits)
    ultimately obtain pre where "commits = pre @ pending" using selectPending_suffix sp by blast
    with loadTransitions_shas [OF l(1)] l(2) show ?thesis by (metis map_append)
  qed simp
qed

lemma PlanBridge_bead:
  assumes "PlanBridge e bg p w = (Inr plan, w')" "b \<in> set (bl_Beads plan)"
  obtains commits gs g n main branch marker where "groupByBead commits = (gs, bl_Unattributed plan)"
    "g \<in> set gs" "decide_bead (e_git e n) main (fst g) (snd g) branch marker = Inr b" "main = bl_MainSHA plan"
proof -
  from assms obtain commits gs un bs w1 where
    "groupByBead commits = (gs, un)" "bl_Unattributed plan = un"
    "plan_groups e bg (bl_MainSHA plan) (bp_BeadID p) gs w1 = (Inr bs, w')" "set (bl_Beads plan) = set bs"
    by (auto simp: PlanBridge_def Let_def normalize_def split: sum.splits option.splits prod.splits if_splits)
  with plan_groups_decides [OF this(3), of b] assms(2) that show ?thesis by metis
qed

subsection \<open>The two references of a bead\<close>

text \<open>\<open>for-each-ref\<close> with the format \<open>%(objectname)\<close>: one line per reference that is the pattern or lies
  below it.\<close>

definition refs_at :: "string \<Rightarrow> refs \<Rightarrow> refs" where
  "refs_at ref r = filter (\<lambda>x. fst x = ref \<or> has_prefix (fst x) (ref @ ''/'')) r"

definition answers_objectname :: "bridge_git \<Rightarrow> bool" where
  "answers_objectname bg \<longleftrightarrow>
     (\<forall>ref r. bg_objectname bg ref r = Some (concat (map (\<lambda>x. snd x @ [NL]) (refs_at ref r))))"

text \<open>Git stores no reference below another one.\<close>

definition no_nesting :: "refs \<Rightarrow> bool" where
  "no_nesting r \<longleftrightarrow> (\<forall>x \<in> set r. \<forall>y \<in> set r. \<not> has_prefix (fst y) (fst x @ ''/''))"

definition leaves_alone :: "promote_env \<Rightarrow> string \<Rightarrow> bool" where
  "leaves_alone e ref \<longleftrightarrow> (\<forall>n r. refs_at ref (e_peers e n r) = refs_at ref r)"

lemma refs_at_present:
  assumes "clean_refs r" "no_nesting r" "map_of r ref = Some x"
  shows "refs_at ref r = [(ref, x)]"
proof -
  have m: "(ref, x) \<in> set r" using assms(3) by (rule map_of_SomeD)
  have "\<not> has_prefix (fst y) (ref @ ''/'')" if "y \<in> set r" for y
    using assms(2) m that unfolding no_nesting_def by force
  then have "refs_at ref r = filter (\<lambda>y. fst y = ref) r"
    unfolding refs_at_def by (intro filter_cong) auto
  also have "\<dots> = [(ref, x)]"
    using assms(1) m
  proof (induction r)
    case Nil
    then show ?case by simp
  next
    case (Cons y r)
    then show ?case by (cases y) (force simp: clean_refs_def filter_empty_conv image_iff)
  qed
  finally show ?thesis .
qed

lemma trim_one_line: "word x \<Longrightarrow> trim_space (x @ [NL]) = x"
proof -
  assume w: "word x"
  have nl: "is_space NL" by code_simp
  have x: "x \<noteq> []" "\<not> is_space (hd x)" "\<not> is_space (last x)"
    using w hd_in_set [of x] last_in_set [of x] by (auto simp: word_def list_all_iff)
  have "dropWhile is_space (x @ [NL]) = x @ [NL]"
    using x by (simp add: dropWhile_eq_self_iff)
  moreover have "dropWhile is_space (rev x) = rev x"
    using x by (simp add: dropWhile_eq_self_iff hd_rev)
  ultimately show ?thesis using nl by (simp add: trim_space_def)
qed

lemma resolveRef_present:
  assumes "answers_objectname bg" "refs_at ref (w_refs (observe e w)) = [(ref, x)]" "word x"
  shows "resolveRef e bg ref w = (Inr (Some x), observe e w)"
  using assms trim_one_line [OF assms(3)]
  by (simp add: resolveRef_def Let_def answers_objectname_def word_def)

lemma built_refs:
  assumes "documented_update_ref (e_update e)" "BuildBridge e bg p b w = ((None, b'), w')"
    "list_all ref_line_ok (bridge_updates b (bd_Head b'))" "bd_Ref b \<noteq> bd_markerRef b"
  shows "map_of (w_refs w') (bd_Ref b) = Some (bd_Head b')"
    and "map_of (w_refs w') (bd_markerRef b) = Some (bc_SHA (last (bd_Pending b)))"
    and "bd_Class b' = BridgeBuilt" "bd_Pending b \<noteq> []"
    and "replay_loop e bg (bd_Parent b) (bd_Pending b) = Inr (bd_Head b')"
proof -
  from assms(2) obtain head where h: "replay_loop e bg (bd_Parent b) (bd_Pending b) = Inr head"
    "UpdateRefsTx e (bridge_updates b head) w = (None, w')" "b' = b\<lparr>bd_Head := head, bd_Class := BridgeBuilt\<rparr>"
    "bd_Pending b \<noteq> []"
    by (auto simp: BuildBridge_def split: sum.splits if_splits prod.splits option.splits)
  then show "bd_Class b' = BridgeBuilt" "bd_Pending b \<noteq> []"
    "replay_loop e bg (bd_Parent b) (bd_Pending b) = Inr (bd_Head b')" by simp_all
  let ?us = "bridge_updates b head"
  have ok: "list_all ref_line_ok ?us" using assms(3) h(3) by simp
  obtain g where g: "lg_updates g = ?us" "lg_error g = None" "entry_atomic g" "w_refs w' = lg_after g"
    using UpdateRefsTx_log [OF h(2) _ ok assms(1)] by (metis bridge_updates_def list.distinct(1))
  then have r: "w_refs w' = tx_apply ?us (lg_before g)" by (simp add: entry_atomic_def)
  have refs: "map ru_Ref ?us = [bd_Ref b, bd_markerRef b]" by (simp add: bridge_updates_def refWrite_def)
  have d: "distinct (map ru_Ref ?us)" unfolding refs using assms(4) by simp
  have verbs: "ru_Verb u \<noteq> VerbDelete" if "u \<in> set ?us" for u
    using that by (auto simp: bridge_updates_def refWrite_def VerbCreate_def VerbUpdate_def VerbDelete_def split: if_splits)
  have u: "hd ?us \<in> set ?us" "last ?us \<in> set ?us" "ru_Ref (hd ?us) = bd_Ref b" "ru_NewSHA (hd ?us) = head"
    "ru_Ref (last ?us) = bd_markerRef b" "ru_NewSHA (last ?us) = bc_SHA (last (bd_Pending b))"
    by (simp_all add: bridge_updates_def refWrite_def)
  have head: "bd_Head b' = head" using h(3) by simp
  show "map_of (w_refs w') (bd_Ref b) = Some (bd_Head b')"
    using map_of_tx_apply [OF d u(1), of "lg_before g"] verbs [OF u(1)]
    by (simp only: r u head if_False)
  show "map_of (w_refs w') (bd_markerRef b) = Some (bc_SHA (last (bd_Pending b)))"
    using map_of_tx_apply [OF d u(2), of "lg_before g"] verbs [OF u(2)]
    by (simp only: r u if_False)
qed

subsection \<open>A repository with one promoted commit\<close>

text \<open>Main is \<open>m0\<close>, integration is \<open>a1\<close> on top of it, promoted for bead \<open>b1\<close>; it changes \<open>f\<close> from \<open>x1\<close> to
  \<open>x2\<close>.  The replayed commit is \<open>h1\<close>, the tree written for it \<open>t1\<close>.\<close>

definition ex_content :: "string \<Rightarrow> string \<Rightarrow> BlobRef option" where
  "ex_content c p =
     (if p = ''f'' then Some \<lparr>br_SHA = (if c = ''m0'' \<or> c = ''a1^'' then ''x1'' else ''x2''), br_Mode = ''100644''\<rparr>
      else None)"

definition ex_index :: "string \<Rightarrow> string \<Rightarrow> BlobRef option" where
  "ex_index i = (if i = ''i0'' then ex_content ''m0'' else ex_content ''a1'')"

definition ex_ls_line :: "string \<Rightarrow> string" where
  "ex_ls_line c = ''100644 blob '' @ (if c = ''m0'' \<or> c = ''a1^'' then ''x1'' else ''x2'') @ [CHR 0x09] @ ''f'' @ [NL]"

fun ex_objects :: git where
  "ex_objects [cmd, c, dash, p] =
     (if cmd = ''ls-tree'' \<and> c \<in> {''m0'', ''a1'', ''a1^'', ''h1''}
      then Some (if p = ''f'' then ex_ls_line c else []) else None)"
| "ex_objects [cmd, a, b, c, d, sha] =
     (if cmd = ''diff-tree'' \<and> sha = ''a1'' then Some (''M'' @ [NUL] @ ''f'' @ [NUL]) else None)"
| "ex_objects _ = None"

definition ex_bridge_tr :: Transition where
  "ex_bridge_tr = \<lparr>tr_Path = ''f'', tr_Expected = ex_content ''m0'' ''f'', tr_Result = ex_content ''a1'' ''f''\<rparr>"

definition ex_bridge_env :: promote_env where
  "ex_bridge_env = \<lparr>e_update = ex_update_ref, e_for_each = ex_for_each, e_rev_parse = ex_rev_parse,
     e_peers = (\<lambda>_ r. r), e_head = (\<lambda>_. None), e_flock = (\<lambda>_. True), e_git = (\<lambda>_. ex_objects),
     e_blob = (\<lambda>_. None), e_tempdir = (\<lambda>_. True),
     e_read_tree = (\<lambda>c. if c = ''m0^{tree}'' then Some ''i0'' else None),
     e_update_index = (\<lambda>i sc. if i = ''i0'' \<and> sc = index_line ex_bridge_tr then Some ''i1'' else None),
     e_write_tree = (\<lambda>i. if i = ''i1'' then Some (''t1'' @ [NL]) else None),
     e_commit_tree = (\<lambda>_ _ _. None),
     e_verify = (\<lambda>_ _. (\<lparr>lv_Passed = True, lv_Output = [], lv_Tree = [], lv_TreeReason = []\<rparr>, None)),
     e_duration = (\<lambda>_. 0), e_release = (\<lambda>_ _. None), e_batch_id = (\<lambda>_. ''k''), e_now = (\<lambda>_. 0)\<rparr>"

definition ex_message :: string where
  "ex_message = ''loto: promote c-1'' @ [NL, NL] @ ''Candidate: c-1'' @ [NL] @ ''Bead: b1'' @ [NL] @
     ''Promoter-PID: 7'' @ [NL]"

text \<open>\<open>git log main..integration\<close>: the commits of the chain of integration that are not in that of main.\<close>

definition ex_chain :: "string option \<Rightarrow> string list" where
  "ex_chain c = (case c of None \<Rightarrow> [] | Some x \<Rightarrow> if x = ''m0'' then [x] else [''m0'', x])"

definition ex_record :: "string \<Rightarrow> string" where
  "ex_record c = c @ [CHR 0x1F] @ ''A'' @ [CHR 0x1F] @ ''a'' @ [CHR 0x1F] @ ''d'' @ [CHR 0x1F] @ ''C'' @ [CHR 0x1F] @
     ''c'' @ [CHR 0x1F] @ ''d'' @ [CHR 0x1F] @ ex_message @ [CHR 0x1E, NL]"

definition ex_bridge_git :: bridge_git where
  "ex_bridge_git = \<lparr>
     bg_rev_parse = (\<lambda>c r. map_option (\<lambda>x. x @ [NL]) (map_of r ''refs/heads/main'')),
     bg_objectname = (\<lambda>ref r. Some (concat (map (\<lambda>x. snd x @ [NL]) (refs_at ref r)))),
     bg_log = (\<lambda>m r. Some (concat (map ex_record
        (filter (\<lambda>c. c \<notin> set (ex_chain (map_of r ''refs/heads/main'')))
          (ex_chain (map_of r ''refs/loto/integration'')))))),
     bg_commit = (\<lambda>t par ident msg. if t = ''t1'' \<and> par = ''m0'' then Some (''h1'' @ [NL]) else None)\<rparr>"

definition ex_bridge_world :: world where
  "ex_bridge_world = \<lparr>w_refs = [(''refs/heads/main'', ''m0''), (''refs/loto/integration'', ''a1'')], w_tick = 0, w_log = []\<rparr>"

definition ex_bridge_params :: BridgeParams where
  "ex_bridge_params = \<lparr>bp_RepoTop = ''/r'', bp_MainRef = [], bp_BeadID = []\<rparr>"

lemma delimited_eq:
  "d \<notin> set a \<Longrightarrow> d \<notin> set a' \<Longrightarrow> a @ d # b = a' @ d # b' \<Longrightarrow> a = a' \<and> b = b'"
proof (induction a arbitrary: a')
  case Nil
  then show ?case by (cases a') auto
next
  case (Cons x a)
  then show ?case by (cases a') auto
qed

text \<open>The script of one transition is the script of no other transitions.\<close>

lemma index_line_end:
  assumes "index_ok tr"
  shows "\<exists>l. index_line tr = l @ [NL] \<and> NL \<notin> set l"
proof -
  define pre where "pre = (case tr_Result tr of None \<Rightarrow> ''0 '' @ replicate 40 CHR ''0''
    | Some x \<Rightarrow> br_Mode x @ [SP] @ br_SHA x)"
  have line: "index_line tr = (pre @ CHR 0x09 # tr_Path tr) @ [NL]"
    by (cases "tr_Result tr") (simp_all add: index_line_def pre_def SP_def)
  have "NL \<notin> set (''0 '' @ replicate 40 CHR ''0'')" "NL \<noteq> CHR 0x09" "NL \<noteq> SP" by code_simp+
  moreover have "NL \<notin> set (tr_Path tr)" using assms by (simp add: index_ok_def)
  moreover have "NL \<notin> set (br_Mode x)" "NL \<notin> set (br_SHA x)" if "tr_Result tr = Some x" for x
    using assms that by (simp_all add: index_ok_def word_free)
  ultimately have "NL \<notin> set (pre @ CHR 0x09 # tr_Path tr)"
    unfolding pre_def by (cases "tr_Result tr") (simp_all only: option.case set_append Un_iff set_simps insert_iff empty_iff simp_thms)
  with line show ?thesis by blast
qed

lemma one_index_line:
  assumes "list_all index_ok trs" "index_ok u" "concat (map index_line trs) = index_line u"
  obtains tr where "trs = [tr]" "index_line tr = index_line u"
proof -
  obtain l where l: "index_line u = l @ [NL]" "NL \<notin> set l" using index_line_end [OF assms(2)] by blast
  obtain tr rest where t: "trs = tr # rest" using assms(3) l by (cases trs) auto
  obtain k where k: "index_line tr = k @ [NL]" "NL \<notin> set k"
    using index_line_end [of tr] assms(1) t by auto
  have "concat (map index_line trs) = k @ NL # concat (map index_line rest)" by (simp add: t k(1))
  with assms(3) l(1) have "k @ NL # concat (map index_line rest) = l @ NL # []" by metis
  from delimited_eq [OF k(2) l(2) this] have "k = l \<and> concat (map index_line rest) = []" .
  moreover have "index_line x \<noteq> []" for x by (cases "tr_Result x") (simp_all add: index_line_def)
  ultimately have "rest = []" by (cases rest) auto
  with t assms(3) show ?thesis by (intro that [of tr]) simp_all
qed

lemma index_line_inj:
  assumes "index_ok tr" "index_ok u" "index_line tr = index_line u" "tr_Result u = Some x"
  shows "tr_Path tr = tr_Path u \<and> tr_Result tr = tr_Result u"
proof -
  let ?tab = "CHR 0x09"
  have w: "word (br_Mode x)" "word (br_SHA x)" "br_Mode x \<noteq> ''0''" using assms(2,4) by (simp_all add: index_ok_def)
  have free: "SP \<notin> set (br_Mode y) \<and> ?tab \<notin> set (br_SHA y)" if "word (br_Mode y)" "word (br_SHA y)" for y
    using that by (auto simp: word_def list_all_iff is_space_def SP_def)
  show ?thesis
  proof (cases "tr_Result tr")
    case None
    have "''0'' @ SP # (replicate 40 CHR ''0'' @ ?tab # tr_Path tr @ [NL]) =
        br_Mode x @ SP # (br_SHA x @ ?tab # tr_Path u @ [NL])"
      using assms(3,4) None by (simp add: index_line_def SP_def)
    from delimited_eq [OF _ _ this] free [OF w(1,2)] w(3) show ?thesis by (simp add: SP_def)
  next
    case (Some y)
    then have wy: "word (br_Mode y)" "word (br_SHA y)" using assms(1) by (simp_all add: index_ok_def)
    have "br_Mode y @ SP # (br_SHA y @ ?tab # tr_Path tr @ [NL]) =
        br_Mode x @ SP # (br_SHA x @ ?tab # tr_Path u @ [NL])"
      using assms(3,4) Some by (simp add: index_line_def)
    from delimited_eq [OF _ _ this] free [OF w(1,2)] free [OF wy]
    have m: "br_Mode y = br_Mode x" and r: "br_SHA y @ ?tab # tr_Path tr @ [NL] = br_SHA x @ ?tab # tr_Path u @ [NL]"
      by simp_all
    from delimited_eq [OF _ _ r] free [OF w(1,2)] free [OF wy] m show ?thesis using Some assms(4) by simp
  qed
qed

lemma ex_documented_objects: "documented_objects ex_bridge_env ex_bridge_git ex_content ex_index"
proof -
  have ok: "index_ok ex_bridge_tr" by code_simp
  have blob: "x = ex_content c p" if "blobAt ex_objects c p = Inr x" for c p x
  proof -
    have known: "c \<in> {''m0'', ''a1'', ''a1^'', ''h1''}"
      using that by (simp add: blobAt_def git_run_def ls_tree_args_def split: if_splits)
    then show ?thesis
      using that by (cases "p = ''f''")
        (auto simp: blobAt_def git_run_def ls_tree_args_def ex_content_def ex_ls_line_def trim_space_def
          parseLsTreeLine_def str_fields_def is_space_def NL_def split: if_splits)
  qed
  have put: "ex_index j = fold put trs (ex_index i)"
    if h: "list_all index_ok trs" "e_update_index ex_bridge_env i (concat (map index_line trs)) = Some j" for i j trs
  proof -
    have ij: "i = ''i0''" "j = ''i1''" "concat (map index_line trs) = index_line ex_bridge_tr"
      using h(2) by (simp_all add: ex_bridge_env_def split: if_splits)
    obtain tr where tr: "trs = [tr]" "index_line tr = index_line ex_bridge_tr"
      by (rule one_index_line [OF h(1) ok ij(3)])
    have "tr_Path tr = tr_Path ex_bridge_tr \<and> tr_Result tr = tr_Result ex_bridge_tr"
      by (rule index_line_inj [OF _ ok tr(2)]) (use h(1) tr(1) in \<open>simp_all add: ex_bridge_tr_def ex_content_def\<close>)
    with tr(1) ij show ?thesis
      by (auto simp: put_def ex_bridge_tr_def ex_index_def ex_content_def fun_eq_iff)
  qed
  have del: "hd st \<noteq> CHR ''D''"
    if "git_run ex_objects [''diff-tree'', ''-r'', ''-z'', ''--no-commit-id'', ''--name-status'', sha] = Some raw"
      "(st, p) \<in> set (status_pairs (split_on NUL (trim_right_of NUL raw)))" for sha raw st p
  proof -
    have "raw = trim_space (''M'' @ [NUL] @ ''f'' @ [NUL])"
      using that(1) by (simp add: git_run_def split: if_splits)
    moreover have "status_pairs (split_on NUL (trim_right_of NUL (trim_space (''M'' @ [NUL] @ ''f'' @ [NUL])))) =
        [(''M'', ''f'')]" by code_simp
    ultimately show ?thesis using that(2) by simp
  qed
  have "e_git ex_bridge_env n = ex_objects" for n by (simp add: ex_bridge_env_def)
  then show ?thesis
    unfolding documented_objects_def
    using blob put del
    by (auto simp: ex_bridge_env_def ex_bridge_git_def ex_index_def ex_content_def trim_space_def is_space_def NL_def
        split: if_splits)
qed

definition ex_plan_result :: "(bridge_error + BridgePlan) \<times> world" where
  "ex_plan_result = PlanBridge ex_bridge_env ex_bridge_git ex_bridge_params ex_bridge_world"

definition ex_bridge_plan :: BridgePlan where
  "ex_bridge_plan = (case fst ex_plan_result of
     Inr p \<Rightarrow> p | Inl _ \<Rightarrow> \<lparr>bl_MainSHA = [], bl_IntegrationSHA = [], bl_Beads = [], bl_Unattributed = []\<rparr>)"

definition ex_bridge_bead :: BeadBridge where
  "ex_bridge_bead = hd (bl_Beads ex_bridge_plan)"

definition ex_build_result :: "(bridge_error option \<times> BeadBridge) \<times> world" where
  "ex_build_result = BuildBridge ex_bridge_env ex_bridge_git ex_bridge_params ex_bridge_bead ex_bridge_world"

lemma ex_plan_facts:
  "PlanBridge ex_bridge_env ex_bridge_git ex_bridge_params ex_bridge_world = (Inr ex_bridge_plan, snd ex_plan_result)"
  "ex_bridge_bead \<in> set (bl_Beads ex_bridge_plan)" "bd_Class ex_bridge_bead = BridgeBuildable"
  "map bc_SHA (bd_Pending ex_bridge_bead) = [''a1'']" "bd_Parent ex_bridge_bead = ''m0''"
  "list_all index_ok (pending_transitions (bd_Pending ex_bridge_bead))"
proof -
  have "case fst ex_plan_result of Inr p \<Rightarrow> bl_Beads p \<noteq> [] | Inl _ \<Rightarrow> False" by code_simp
  then obtain p where p: "fst ex_plan_result = Inr p" "bl_Beads p \<noteq> []" by (auto split: sum.splits)
  then have e: "ex_bridge_plan = p" by (simp add: ex_bridge_plan_def)
  show "PlanBridge ex_bridge_env ex_bridge_git ex_bridge_params ex_bridge_world = (Inr ex_bridge_plan, snd ex_plan_result)"
    using p(1) e by (metis ex_plan_result_def prod.collapse)
  show "ex_bridge_bead \<in> set (bl_Beads ex_bridge_plan)" using p(2) e by (simp add: ex_bridge_bead_def)
  show "bd_Class ex_bridge_bead = BridgeBuildable" by code_simp
  show "map bc_SHA (bd_Pending ex_bridge_bead) = [''a1'']" by code_simp
  show "bd_Parent ex_bridge_bead = ''m0''" by code_simp
  show "list_all index_ok (pending_transitions (bd_Pending ex_bridge_bead))" by code_simp
qed

lemma ex_build_facts:
  obtains b' w3 where
    "BuildBridge ex_bridge_env ex_bridge_git ex_bridge_params ex_bridge_bead ex_bridge_world = ((None, b'), w3)"
    "ex_build_result = ((None, b'), w3)" "bd_Head b' = ''h1''"
proof -
  have "fst (fst ex_build_result) = None \<and> bd_Head (snd (fst ex_build_result)) = ''h1''" by code_simp
  then have "BuildBridge ex_bridge_env ex_bridge_git ex_bridge_params ex_bridge_bead ex_bridge_world =
      ((None, snd (fst ex_build_result)), snd ex_build_result)"
    by (metis ex_build_result_def prod.collapse)
  then show ?thesis
    by (intro that) (simp_all add: ex_build_result_def, code_simp)
qed

subsection \<open>Properties\<close>



text \<open>C33: 
  C0: a branch built is a branch done.  After a successful build of a bead, a plan of the same promoted
  commits finds the bead up to date, with the new branch as its head and nothing pending, as long as
  peers leave the bead's two references alone; so running the bridge again builds nothing.
\<close>

theorem built_bead_is_done:
  assumes "documented_update_ref (e_update e)" "answers_objectname bg"
    and "leaves_alone e (bridgeBranchPrefix @ bead)" "leaves_alone e (bridgedRefPrefix @ bead)"
    and "planBead e bg main bead commits w = (Inr b, w1)" "bd_Class b = BridgeBuildable"
    and "distinct (map bc_SHA commits)"
    and "BuildBridge e bg p b w2 = ((None, b'), w3)"
    and "list_all ref_line_ok (bridge_updates b (bd_Head b'))" "clean_refs (w_refs w3)" "no_nesting (w_refs w3)"
  shows "\<exists>d w4. planBead e bg main' bead commits w3 = (Inr d, w4) \<and>
    bd_Class d = BridgeUpToDate \<and> bd_Head d = bd_Head b' \<and> bd_Pending d = []"
proof (rule planBead_decides [OF assms(5)])
  fix branch marker wa
  assume "decide_bead (e_git e (w_tick w1)) main bead commits branch marker = Inr b"
  then show ?thesis
  proof (rule decide_bead_buildable [OF _ assms(6)])
    fix pending loaded
    assume sp: "selectPending commits (case marker of None \<Rightarrow> [] | Some x \<Rightarrow> x) (marker \<noteq> None) (branch \<noteq> None) =
        (pending, BridgeUndecided, [])" and l: "loadTransitions (e_git e (w_tick w1)) pending = Inr loaded"
      and b: "bd_Pending b = loaded" "bd_Ref b = bridgeBranchPrefix @ bead" "bd_markerRef b = bridgedRefPrefix @ bead"
      and ne: "pending \<noteq> []"
    have differ: "bd_Ref b \<noteq> bd_markerRef b"
      unfolding b by (simp add: bridgeBranchPrefix_def bridgedRefPrefix_def)
    note refs = built_refs [OF assms(1,8,9) differ]
    have shas: "map bc_SHA loaded = map bc_SHA pending" by (rule loadTransitions_shas [OF l])
    obtain pre where pre: "commits = pre @ pending" using selectPending_suffix [OF sp] by blast
    have last: "bc_SHA (last loaded) = bc_SHA (last commits)"
      using shas ne pre by (metis last_appendR last_map list.map_disc_iff)
    have branch_at: "refs_at (bd_Ref b) (w_refs w3) = [(bd_Ref b, bd_Head b')]"
      and marker_at: "refs_at (bd_markerRef b) (w_refs w3) = [(bd_markerRef b, bc_SHA (last commits))]"
      using refs_at_present [OF assms(10,11)] refs(1,2) b(1) last by simp_all
    have words: "word (bd_Head b')" "word (bc_SHA (last commits))"
      using assms(10) map_of_SomeD [OF refs(1)] map_of_SomeD [OF refs(2)] b(1) last
      by (auto simp: clean_refs_def list_all_iff)
    have r1: "resolveRef e bg (bd_Ref b) w3 = (Inr (Some (bd_Head b')), observe e w3)"
      by (rule resolveRef_present [OF assms(2) _ words(1)])
        (use assms(3) branch_at b(2) in \<open>simp add: leaves_alone_def observe_def\<close>)
    have r2: "resolveRef e bg (bd_markerRef b) (observe e w3) =
        (Inr (Some (bc_SHA (last commits))), observe e (observe e w3))"
      by (rule resolveRef_present [OF assms(2) _ words(2)])
        (use assms(3,4) marker_at b(3) in \<open>simp add: leaves_alone_def observe_def\<close>)
    have "after_marker (bc_SHA (last commits)) commits = Some []"
      by (rule after_marker_last [OF assms(7)]) (use pre ne in simp)
    with r1 r2 show ?thesis
      by (simp add: b planBead_def decide_bead_def Let_def selectPending_def new_bead_def)
  qed
qed

definition ex_commits :: "BridgeCommit list" where
  "ex_commits = (case fst (readPromotedCommits ex_bridge_env ex_bridge_git ''main'' ex_bridge_world) of
     Inr cs \<Rightarrow> cs | Inl _ \<Rightarrow> [])"

theorem built_bead_is_done_witness:
  "\<exists>b' w3 d w4. BuildBridge ex_bridge_env ex_bridge_git ex_bridge_params ex_bridge_bead ex_bridge_world = ((None, b'), w3) \<and>
     planBead ex_bridge_env ex_bridge_git ''m0'' ''b1'' ex_commits w3 = (Inr d, w4) \<and>
     bd_Class d = BridgeUpToDate \<and> bd_Head d = ''h1''"
proof -
  obtain b' w3 where r: "BuildBridge ex_bridge_env ex_bridge_git ex_bridge_params ex_bridge_bead ex_bridge_world = ((None, b'), w3)"
    and res: "ex_build_result = ((None, b'), w3)" and head: "bd_Head b' = ''h1''" by (rule ex_build_facts)
  have u: "documented_update_ref (e_update ex_bridge_env)"
    by (simp add: ex_bridge_env_def ex_update_ref_documented)
  have a: "answers_objectname ex_bridge_git" by (simp add: answers_objectname_def ex_bridge_git_def)
  have la: "leaves_alone ex_bridge_env ref" for ref by (simp add: leaves_alone_def ex_bridge_env_def)
  have "fst (planBead ex_bridge_env ex_bridge_git ''m0'' ''b1'' ex_commits ex_bridge_world) = Inr ex_bridge_bead"
    by code_simp
  then obtain w1 where p: "planBead ex_bridge_env ex_bridge_git ''m0'' ''b1'' ex_commits ex_bridge_world = (Inr ex_bridge_bead, w1)"
    by (metis prod.collapse)
  have d: "distinct (map bc_SHA ex_commits)" by code_simp
  have "list_all ref_line_ok (bridge_updates ex_bridge_bead ''h1'')" by code_simp
  then have ok: "list_all ref_line_ok (bridge_updates ex_bridge_bead (bd_Head b'))" unfolding head .
  have "clean_refs (w_refs (snd ex_build_result))" "no_nesting (w_refs (snd ex_build_result))" by code_simp+
  then have c: "clean_refs (w_refs w3)" "no_nesting (w_refs w3)" by (simp_all add: res)
  from built_bead_is_done [OF u a la la p ex_plan_facts(3) d r ok c, of "''m0''"] r head
  show ?thesis by metis
qed



text \<open>Trailers outside the batch's bookkeeping survive the rewriting of a message, and those of the batch do not.\<close>

theorem stripBatchTrailers_keeps_attribution:
  "parseTrailers (stripBatchTrailers msg) k = (if isBatchTrailer k then [] else parseTrailers msg k)"
  by (rule stripBatchTrailers_reads)

text \<open>A merged pull request carries the replayed commit, which is never the commit of integration it was
  replayed from (\<open>replay_message_differs\<close>).  So after the merge the log still lists the source, the marker
  is found in it, and with the branch deleted, as the merge leaves it, the bead is refused.\<close>

theorem merged_bead_is_refused:
  "case fst (PlanBridge ex_bridge_env ex_bridge_git ex_bridge_params
       ((snd ex_build_result)\<lparr>w_refs := AList.delete ''refs/heads/loto-pr/b1''
          (AList.update ''refs/heads/main'' ''h1'' (w_refs (snd ex_build_result)))\<rparr>)) of
     Inl _ \<Rightarrow> False
   | Inr plan \<Rightarrow> bl_MainSHA plan = ''h1'' \<and>
       map (\<lambda>b. (bd_BeadID b, bd_Class b, bd_Detail b)) (bl_Beads plan) =
         [(''b1'', BridgeStaleBranch, detailBranchMissing)]"
  by code_simp

text \<open>Only the first preimage of a path is checked.  Bead \<open>b1\<close> writes \<open>f\<close>, another bead does, and \<open>b1\<close>
  again: the plan calls \<open>b1\<close> buildable although its second commit was made on content (\<open>y2\<close>) that its
  branch never holds, so the replay carries the other bead's change under \<open>b1\<close>.\<close>

definition ex_blob :: "string \<Rightarrow> string" where
  "ex_blob c = (if c = ''m0'' \<or> c = ''a1^'' then ''y0'' else if c = ''a1'' then ''y1'' else if c = ''a3^'' then ''y2'' else ''y3'')"

fun ex_interleaved :: git where
  "ex_interleaved [cmd, c, dash, p] = Some (''100644 blob '' @ ex_blob c @ [CHR 0x09] @ ''f'' @ [NL])"
| "ex_interleaved [cmd, a, b, c, d, sha] = Some (''M'' @ [NUL] @ ''f'' @ [NUL])"
| "ex_interleaved _ = None"

definition ex_two_commits :: "BridgeCommit list" where
  "ex_two_commits = map (\<lambda>c. (hd ex_commits)\<lparr>bc_SHA := c\<rparr>) [''a1'', ''a3'']"

theorem bridge_misses_interleaved_bead:
  "case decide_bead ex_interleaved ''m0'' ''b1'' ex_two_commits None None of
     Inl _ \<Rightarrow> False
   | Inr b \<Rightarrow> bd_Class b = BridgeBuildable \<and>
       map (\<lambda>tr. (map_option br_SHA (tr_Expected tr), map_option br_SHA (tr_Result tr))) (pending_transitions (bd_Pending b)) =
         [(Some ''y0'', Some ''y1''), (Some ''y2'', Some ''y3'')]"
  by code_simp

end
