(* ===== verification/Spec2Isabelle.thy ===== *)
theory Spec2Isabelle
  imports Prelude Paths Holds Schema Events LockTable Tags Acquire Release Break Refresh
    Envelope Admission Claims Violations System Refs Promotion Protocol Batches Json TreeEvents
    HookCalls Contention Spanning Sweeps Reports History Decode Sync SyncSafety Verdicts SyncRun
    ObjectStore Doctor Bridge BridgeFacts
begin

text \<open>
  loto lets several agents work in one repository: they take leases on paths, submit candidate
  commits that an admission gate checks against those leases, promote accepted candidates onto an
  integration ref, and leave records (events, tags, violations, call records) that later readers
  audit.  This library models the decision logic of the lock store (\<open>src/internal/store\<close>), of the
  domain rules it rests on (\<open>src/internal/domain\<close>), of the write gate (\<open>src/internal/gate\<close>) and of the
  commands that repair a checkout and a store (\<open>src/internal/cli/cmd_sync.go\<close>, \<open>store/doctor.go\<close>).

  \<^bold>\<open>How the parts interact.\<close>  Every store operation is one transaction on one record of tables, \<open>db\<close>;
  what it asks of its surroundings during the call (operation flock, begin, commit, clock, liveness
  probe, \<open>Lstat\<close>) is a record \<open>io\<close>.  The gate reads and writes references of a git repository that peers
  change at any moment: a \<open>world\<close> with an environment whose \<open>e_peers\<close> act before every look.  Sync and
  doctor act on a checkout in the same way.  The liveness of a holder is always a probe the caller
  passes.  Ghost logs (\<open>w_log\<close>, the mutations of a sync, \<open>dw_chmods\<close>) record what was done, for the
  properties to speak of; the code has no such log.

  \<^bold>\<open>Domain.\<close>
  \<^item> \<open>Prelude\<close>: the string operations of Go's library the code uses (split, join, trim, decimal
    numbers), case folding, and the named collections the component proofs simplify with.
  \<^item> \<open>Paths\<close>: \<open>domain/target.go\<close>, \<open>domain/overlap.go\<close>: canonical keys and path overlap.  Shown: keys are
    plain relative paths, canonicalization is idempotent, overlap is symmetric.
  \<^item> \<open>Holds\<close>: \<open>domain/records.go\<close>, \<open>staleness.go\<close>, \<open>decide.go\<close>, \<open>authz.go\<close>, \<open>holdref.go\<close>: lock
    records, staleness, the write decision, hold references.  Shown: the decision names the first refusing
    hold; the optimised conflict test is that decision.

  \<^bold>\<open>Lock store.\<close>
  \<^item> \<open>Schema\<close>: the tables of \<open>store/schema.sql\<close> as lists of rows in one record \<open>db\<close>, the errors, the
    answers of the environment during a call (\<open>io\<close>), key comparison and row scans.
  \<^item> \<open>Events\<close>: \<open>store/events.go\<close>, \<open>event_kinds.go\<close>: the audit log and its rotation (1000 events,
    seven days, lower caps for noisy kinds, thirty days for evidence).
  \<^item> \<open>LockTable\<close>, \<open>Acquire\<close>: \<open>store/epoch.go\<close>, \<open>locks_acquire.go\<close>.  \<open>LockTable\<close> states the two
    interfaces the lock table offers (a conflict relation that tables stay free of, and a counter
    that only grows) as locales and interprets them on the rows and on the epoch table; \<open>TreeEvents\<close>
    interprets the counter again on the transition numbers.  Shown: mutual exclusion, the exact
    condition of success, the epoch fence.
  \<^item> \<open>Release\<close>, \<open>Break\<close>, \<open>Refresh\<close>: \<open>locks_release.go\<close>, \<open>locks_break.go\<close>, \<open>locks_refresh.go\<close>,
    \<open>locks_query.go\<close>.  Shown: who may remove or extend which row, and that a break is a compare and swap.
  \<^item> \<open>Tags\<close>: \<open>tags.go\<close>, \<open>territory_tags.go\<close> and their sweeps in \<open>doctor.go\<close>.
  \<^item> \<open>Claims\<close>: \<open>store/candidate_claims.go\<close>, \<open>store/admission.go\<close>: claims on a candidate's write set,
    and acceptance with its compensation.
  \<^item> \<open>Violations\<close>: \<open>store/violations.go\<close> and \<open>ScanWorktree\<close>: contamination found in a checkout.
  \<^item> \<open>System\<close>: every operation above as a step on one shared database, and what all histories keep
    (locale \<open>guarded_invariant\<close>, interpreted for the store's invariant, claims, violations and epochs).
  \<^item> \<open>Verdicts\<close>: \<open>store/gate_stats.go\<close>: the verdict a judged candidate leaves in the event log, and its
    reading back.

  \<^bold>\<open>Call records.\<close>
  \<^item> \<open>Json\<close>, \<open>Decode\<close>: what the code uses of \<open>encoding/json\<close>: \<open>Json\<close> writes the flat documents of the
    stores, \<open>Decode\<close> has values, printing, indentation and the parser.  The parser has fuel
    \<open>2 * length + 1\<close>; \<open>parse_marshal\<close> and \<open>parse_encode_indented\<close> show that it suffices for every printed
    document (\<open>cost_le\<close>).
  \<^item> \<open>TreeEvents\<close>, \<open>HookCalls\<close>: \<open>store/tree_events.go\<close>, \<open>store/hook_calls.go\<close>: the record of each tool
    call, the numbering of the changes of a path, the calls named for a change, and the reports.
  \<^item> \<open>Contention\<close>, \<open>Spanning\<close>, \<open>Sweeps\<close>, \<open>Reports\<close>, \<open>History\<close>: the lemmas about them: the intervals of the
    calls, who is named for a change, abandoned calls (six hours), drift, delivery, retention (1000 events,
    seven days), and what every history of hooks, sweeps and lock operations keeps.

  \<^bold>\<open>Gate.\<close>
  \<^item> \<open>Envelope\<close>, \<open>Admission\<close>: \<open>gate/envelope.go\<close>, \<open>gate/admission.go\<close>, and the parsers of
    \<open>gate/scan.go\<close>.  Shown: the exact condition of admission, and that what was captured is admitted.
  \<^item> \<open>ObjectStore\<close>: \<open>gate/objectstore.go\<close>: the JSON text of an envelope and its reading back.
  \<^item> \<open>Refs\<close>: \<open>gate/refs.go\<close>, \<open>gate/integration.go\<close>: reference transactions and listings.
  \<^item> \<open>Promotion\<close>: \<open>gate/promotion.go\<close>: selecting a batch, building its chain, claiming it, verifying it and
    committing it, the solo sweep of a red batch, the rounds and the report.
  \<^item> \<open>Batches\<close>, \<open>Protocol\<close>: the lemmas about it: selection, claims of other promoters, and the protocol
    over the log of reference transactions with peers in between.

  \<^item> \<open>Bridge\<close>, \<open>BridgeFacts\<close>: \<open>gate/bridge.go\<close>: one branch per bead from the promoted commits.  Shown: what a
    bridged branch holds, that a built bead is done, that every commit is accounted for.

  \<^bold>\<open>Repairs.\<close>
  \<^item> \<open>Sync\<close>, \<open>SyncSafety\<close>, \<open>SyncRun\<close>: \<open>cli/cmd_sync.go\<close>, \<open>store/coordination_snapshot.go\<close>: the divergence scan,
    the decisions, the batches under the operation flock, and the run.  Shown: every change to the checkout
    was authorized by what its section read, the report is the history, every path is accounted for.
  \<^item> \<open>Doctor\<close>: \<open>store/doctor.go\<close>, \<open>chmod.go\<close>, \<open>sidecar.go\<close>: the audit, the repair, and the file modes.
    Shown: the audit predicts the repair; which files a repair may touch.

  \<^bold>\<open>Parameters and hypotheses.\<close>  Code outside \<open>src\<close> is a parameter: git (its answers are functions of the
  references or of an object store), the test command of a promotion (\<open>verify\<close>), the clock, the flock,
  process liveness, the file system.  What the code relies on of git is stated as \<open>documented_git\<close> and
  \<open>documented_promote\<close> (transactions are all or nothing and check the old values, listings list what is
  there), \<open>clean_refs\<close> (names and objects are words) and \<open>documented_objects\<close> (what reading and writing trees
  does); \<open>ex_ref_env\<close>, \<open>ex_promote_env\<close> and \<open>ex_bridge_env\<close> are concrete
  functions that satisfy them.  \<open>uniform_verdicts\<close> says that the claims of one candidate carry one process's
  identity.  The randomness of identifiers is a stream per store.

  \<^bold>\<open>Bounds.\<close>  A promotion runs at most \<open>MaxRounds\<close> rounds and verifies at most \<open>MaxRounds * (MaxBatch + 1)\<close>
  times; sync works in batches of \<open>syncApplyBatch\<close> = 16 paths, and \<open>chunk\<close> loses
  none; every other recursion is structural or has its termination proof.  Instants and counters are
  unbounded integers: the code's \<open>int64\<close> nanoseconds overflow in the year 2262.

  \<^bold>\<open>Where the code differs from what it says.\<close>  These theorems exhibit it: \<open>Canonicalize_space_escape\<close>,
  \<open>Ack_orphan_is_written\<close>, \<open>AcquireLocks_directory_over_claim\<close>, \<open>revalidate_ignores_worktree\<close>,
  \<open>ReconcileScan_flags_folded_holder\<close>, \<open>BreakLocks_duplicate_events\<close>, \<open>drift_event_observer\<close>,
  \<open>Admit_refuses_leading_space\<close>, \<open>Encode_loses_bytes\<close>, \<open>Promote_drops_outcomes\<close>,
  \<open>runSync_deletes_promoted_file\<close>, \<open>repair_chmods_under_live_directory\<close>,
  \<open>restoreWrite_drops_special_bits\<close>, \<open>restoreWrite_late_link\<close>, \<open>merged_bead_is_refused\<close>,
  \<open>bridge_misses_interleaved_bead\<close>.

  \<^bold>\<open>Not modelled.\<close>  The hook commands (\<open>cmd_hook.go\<close>, \<open>cmd_hook_ref.go\<close>): mostly the
  reading of processes, environment variables and payloads.  \<open>store/store.go\<close>, \<open>flock.go\<close>: connection handling,
  schema migrations, file locks and the moving aside of a corrupt database.  \<open>store/enforcement_stats.go\<close>,
  \<open>ref_refusals.go\<close>: reports over the event log.  \<open>identity\<close> and \<open>lane\<close>: process probing, environment, git
  worktrees and test commands.  The other commands of \<open>cli\<close>, and \<open>render\<close> and \<open>cmd\<close>: argument parsing and
  printing.  Within the modelled parts: an SQL statement that fails in the middle of a transaction (begin
  and commit failures are modelled), collisions of random identifiers, the nesting limit of
  \<open>encoding/json\<close>, the text of reports, standard error, and the directories and temporary files a sync makes.
\<close>

end
